(* ===== verification/Prelude.thy ===== *)
theory Prelude
  imports Main "HOL-Library.Word" "HOL-Library.Sublist"
begin

text \<open>
  What every component shares: the bytes and sizes of the C++ code, its failures as values,
  the reads and writes of raw memory with their bounds, and the generic lemmas on lists and
  results the component proofs rest on.

  \<^item> \<open>bytes\<close> is the content of a \<^verbatim>\<open>char\<close> array or a \<^verbatim>\<open>std::string\<close>; a byte is a HOL \<open>char\<close>,
    read as unsigned by \<open>byte_val\<close>.
  \<^item> \<open>size_t\<close> is \<open>64 word\<close>: its arithmetic wraps around as the code's does.
  \<^item> \<open>'a res\<close> is the outcome of code that may throw or run into undefined behaviour.
    \<open>Undefined\<close> stands for a read or write outside an object, a null dereference and the
    like: a theorem that a function never yields it is a memory-safety theorem.
\<close>

type_synonym bytes = "char list"
type_synonym size_t = "64 word"

datatype cxx_error =
    OnyxupException
  | Out_of_range
  | Length_error
  | Bad_alloc
  | Runtime_error
  | Json_exception nat bytes
  | Undefined

type_synonym 'a res = "cxx_error + 'a"

text \<open>Collections: definitions to unfold for memory operations, and facts on results.\<close>

named_theorems mem_defs
named_theorems res_simps

definition byte_val :: "char \<Rightarrow> nat" where
  "byte_val c = of_char c"

lemma byte_val_less [simp]: "byte_val c < 256"
  by (simp add: byte_val_def)

lemma byte_val_eq_iff [simp]: "byte_val c = byte_val d \<longleftrightarrow> c = d"
  by (simp add: byte_val_def)

subsection \<open>Results\<close>

definition bind_res :: "'a res \<Rightarrow> ('a \<Rightarrow> 'b res) \<Rightarrow> 'b res" where
  "bind_res r f = (case r of Inl e \<Rightarrow> Inl e | Inr x \<Rightarrow> f x)"

lemma bind_res_simps [simp, res_simps]:
  "bind_res (Inl e) f = Inl e"
  "bind_res (Inr x) f = f x"
  by (simp_all add: bind_res_def)

lemma bind_res_Inr_iff [res_simps]:
  "bind_res r f = Inr y \<longleftrightarrow> (\<exists>x. r = Inr x \<and> f x = Inr y)"
  by (cases r) auto

lemma bind_res_Inl_iff [res_simps]:
  "bind_res r f = Inl e \<longleftrightarrow> r = Inl e \<or> (\<exists>x. r = Inr x \<and> f x = Inl e)"
  by (cases r) auto

subsection \<open>Raw memory\<close>

text \<open>
  \<open>mem_write\<close> is \<^verbatim>\<open>memcpy(mem + off, data, n)\<close> on an allocation, \<open>mem_read\<close> the read of a
  range of it; both are undefined as soon as one byte lies outside.
\<close>

definition mem_write :: "bytes \<Rightarrow> nat \<Rightarrow> bytes \<Rightarrow> bytes res" where
  [mem_defs]: "mem_write mem off data =
     (if off + length data \<le> length mem
      then Inr (take off mem @ data @ drop (off + length data) mem)
      else Inl Undefined)"

definition mem_read :: "bytes \<Rightarrow> nat \<Rightarrow> nat \<Rightarrow> bytes res" where
  [mem_defs]: "mem_read mem off n =
     (if off + n \<le> length mem then Inr (take n (drop off mem)) else Inl Undefined)"

definition memmove :: "bytes \<Rightarrow> nat \<Rightarrow> nat \<Rightarrow> nat \<Rightarrow> bytes res" where
  "memmove buf dst src n = bind_res (mem_read buf src n) (mem_write buf dst)"

lemma mem_write_length: "mem_write mem off data = Inr mem' \<Longrightarrow> length mem' = length mem"
  by (auto simp: mem_defs split: if_splits)

lemma mem_write_safe_iff:
  "(\<exists>mem'. mem_write mem off data = Inr mem') \<longleftrightarrow> off + length data \<le> length mem"
  by (simp add: mem_defs)

text \<open>Reading back what was written, and what lies before and after it.\<close>

lemma mem_write_same:
  "mem_write mem off data = Inr mem' \<Longrightarrow> take (length data) (drop off mem') = data"
  by (auto simp: mem_defs split: if_splits)

lemma mem_write_before:
  "mem_write mem off data = Inr mem' \<Longrightarrow> take off mem' = take off mem"
  by (auto simp: mem_defs split: if_splits)

lemma mem_write_after:
  "mem_write mem off data = Inr mem' \<Longrightarrow>
   drop (off + length data) mem' = drop (off + length data) mem"
  by (auto simp: mem_defs split: if_splits)

lemma mem_write_prefix:
  assumes "mem_write mem off data = Inr mem'"
  shows "take (off + length data) mem' = take off mem @ data"
  using mem_write_before [OF assms] mem_write_same [OF assms] by (simp add: take_add)

end
