(* ===== verification/Pico_Scan.thy ===== *)
theory Pico_Scan
  imports Prelude
begin

text \<open>
  The scanning layer of \<^verbatim>\<open>httpparser/picohttpparser.cpp\<close>: character classes, the block search
  \<^verbatim>\<open>findchar_fast\<close>, the token macro \<^verbatim>\<open>ADVANCE_TOKEN\<close>, the end-of-line scan
  \<^verbatim>\<open>get_token_to_eol\<close> with its eight-fold unrolled loop, the completeness check and the digit
  macros.

  The pair \<^verbatim>\<open>(buf, buf_end)\<close> of the code is the list of the bytes between the two pointers, so
  \<^verbatim>\<open>++buf\<close> is the tail of the list and \<^verbatim>\<open>buf == buf_end\<close> its emptiness. A dereference of
  \<^verbatim>\<open>buf\<close> at the end is not hidden: it is the outcome \<open>Oob\<close>. The flag \<open>sse\<close> selects the code
  under \<^verbatim>\<open>__SSE4_2__\<close> (true) or the portable code (false).
\<close>

datatype 'a phr = Parsed 'a | Failed | Incomplete | Oob

definition bind_phr :: "'a phr \<Rightarrow> ('a \<Rightarrow> 'b phr) \<Rightarrow> 'b phr" where
  "bind_phr r f =
     (case r of Parsed x \<Rightarrow> f x | Failed \<Rightarrow> Failed | Incomplete \<Rightarrow> Incomplete | Oob \<Rightarrow> Oob)"

lemma bind_phr_simps [simp]:
  "bind_phr (Parsed x) f = f x"
  "bind_phr Failed f = Failed"
  "bind_phr Incomplete f = Incomplete"
  "bind_phr Oob f = Oob"
  by (simp_all add: bind_phr_def)

lemma bind_phr_Parsed_iff [simp]:
  "bind_phr r f = Parsed y \<longleftrightarrow> (\<exists>x. r = Parsed x \<and> f x = Parsed y)"
  by (cases r) auto

lemma bind_phr_Oob_iff [simp]:
  "bind_phr r f = Oob \<longleftrightarrow> r = Oob \<or> (\<exists>x. r = Parsed x \<and> f x = Oob)"
  by (cases r) auto

lemma bind_phr_Failed_iff:
  "bind_phr r f = Failed \<longleftrightarrow> r = Failed \<or> (\<exists>x. r = Parsed x \<and> f x = Failed)"
  by (cases r) auto

lemma bind_phr_cong [fundef_cong]:
  "r = r' \<Longrightarrow> (\<And>x. r' = Parsed x \<Longrightarrow> f x = g x) \<Longrightarrow> bind_phr r f = bind_phr r' g"
  by (cases r') auto

subsection \<open>Characters\<close>

abbreviation CR :: char where "CR \<equiv> CHR 0x0D"
abbreviation LF :: char where "LF \<equiv> CHR 0x0A"
abbreviation HT :: char where "HT \<equiv> CHR 0x09"
abbreviation SP :: char where "SP \<equiv> CHR 0x20"
abbreviation DEL :: char where "DEL \<equiv> CHR 0x7F"

text \<open>\<^verbatim>\<open>(unsigned char)(c)-040u < 0137u\<close>: the subtraction is on 32-bit unsigned values and wraps.\<close>

definition IS_PRINTABLE_ASCII :: "char \<Rightarrow> bool" where
  "IS_PRINTABLE_ASCII c \<longleftrightarrow> (of_nat (byte_val c) :: 32 word) - 32 < 95"

definition token_char_map :: "nat list" where
  "token_char_map =
     [0,0,0,0,0,0,0,0,0,0,0,0,0,0,0,0,0,0,0,0,0,0,0,0,0,0,0,0,0,0,0,0,
      0,1,0,1,1,1,1,1,0,0,1,1,0,1,1,0,1,1,1,1,1,1,1,1,1,1,0,0,0,0,0,0,
      0,1,1,1,1,1,1,1,1,1,1,1,1,1,1,1,1,1,1,1,1,1,1,1,1,1,1,0,0,0,1,1,
      1,1,1,1,1,1,1,1,1,1,1,1,1,1,1,1,1,1,1,1,1,1,1,1,1,1,1,0,1,0,1,0] @
     replicate 128 0"

definition is_token_char :: "char \<Rightarrow> bool" where
  "is_token_char c \<longleftrightarrow> token_char_map ! byte_val c \<noteq> 0"

text \<open>The test at \<^verbatim>\<open>FOUND_CTL\<close>: a control character other than HT, or DEL.\<close>

definition is_ctl :: "char \<Rightarrow> bool" where
  "is_ctl c \<longleftrightarrow> (byte_val c < 32 \<and> c \<noteq> HT) \<or> c = DEL"

text \<open>The test of \<^verbatim>\<open>ADVANCE_TOKEN\<close> that ends the parse with an error.\<close>

definition is_token_ctl :: "char \<Rightarrow> bool" where
  "is_token_ctl c \<longleftrightarrow> byte_val c < 32 \<or> c = DEL"

lemma IS_PRINTABLE_ASCII_iff: "IS_PRINTABLE_ASCII c \<longleftrightarrow> 32 \<le> byte_val c \<and> byte_val c < 127"
proof -
  have "byte_val c < 2 ^ 32" by (rule less_trans [OF byte_val_less]) simp
  then have u: "unat (of_nat (byte_val c) :: 32 word) = byte_val c"
    by (simp add: unat_of_nat take_bit_nat_eq_self)
  show ?thesis
  proof (cases "32 \<le> byte_val c")
    case True
    then have "(32 :: 32 word) \<le> of_nat (byte_val c)"
      by (simp add: word_le_nat_alt u)
    then have "unat ((of_nat (byte_val c) :: 32 word) - 32) = byte_val c - 32"
      by (simp add: unat_sub u)
    with True show ?thesis
      unfolding IS_PRINTABLE_ASCII_def word_less_nat_alt by simp arith
  next
    case False
    define x where "x = (of_nat (byte_val c) :: 32 word)"
    have "unat x < 32" using False u x_def by simp
    then have "\<not> x - 32 < 95" by (unat_arith; simp)
    with False show ?thesis by (simp add: IS_PRINTABLE_ASCII_def x_def)
  qed
qed

lemma byte_val_DEL: "c = DEL \<longleftrightarrow> byte_val c = 127"
  using byte_val_eq_iff [of c DEL] by (simp add: byte_val_def)

lemma byte_val_HT: "c = HT \<longleftrightarrow> byte_val c = 9"
  using byte_val_eq_iff [of c HT] by (simp add: byte_val_def)

lemma is_ctl_not_printable: "is_ctl c \<Longrightarrow> \<not> IS_PRINTABLE_ASCII c"
  by (auto simp: is_ctl_def IS_PRINTABLE_ASCII_iff byte_val_DEL)

lemma is_token_ctl_not_printable: "is_token_ctl c \<Longrightarrow> \<not> IS_PRINTABLE_ASCII c"
  by (auto simp: is_token_ctl_def IS_PRINTABLE_ASCII_iff byte_val_DEL)

subsection \<open>findchar_fast\<close>

text \<open>The ranges are pairs of bounds, laid out one after the other as in the code's literals.\<close>

fun in_ranges :: "bytes \<Rightarrow> char \<Rightarrow> bool" where
  "in_ranges (lo # hi # rs) c \<longleftrightarrow>
     (byte_val lo \<le> byte_val c \<and> byte_val c \<le> byte_val hi) \<or> in_ranges rs c"
| "in_ranges _ c \<longleftrightarrow> False"

text \<open>
  \<^verbatim>\<open>_mm_cmpestri\<close> with \<^verbatim>\<open>CMP_RANGES | LEAST_SIGNIFICANT\<close> on a block of 16 bytes: the index of the
  first byte in one of the ranges, 16 if there is none.
\<close>

definition cmpestri :: "bytes \<Rightarrow> bytes \<Rightarrow> nat" where
  "cmpestri ranges block = length (takeWhile (\<lambda>c. \<not> in_ranges ranges c) block)"

fun findchar_blocks :: "bytes \<Rightarrow> bytes \<Rightarrow> nat \<Rightarrow> bytes \<times> bool" where
  "findchar_blocks ranges buf left =
     (let r = cmpestri ranges (take 16 buf)
      in if r \<noteq> 16 then (drop r buf, True)
         else if left - 16 \<noteq> 0 then findchar_blocks ranges (drop 16 buf) (left - 16)
         else (drop 16 buf, False))"

declare findchar_blocks.simps [simp del]

definition findchar_fast :: "bool \<Rightarrow> bytes \<Rightarrow> bytes \<Rightarrow> bytes \<times> bool" where
  "findchar_fast sse ranges buf =
     (if sse \<and> 16 \<le> length buf then findchar_blocks ranges buf (16 * (length buf div 16))
      else (buf, False))"

text \<open>
  Whatever the code path, the search skips only bytes outside the ranges, and a reported hit is
  one.
\<close>

definition skips :: "(char \<Rightarrow> bool) \<Rightarrow> bytes \<Rightarrow> bytes \<times> bool \<Rightarrow> bool" where
  "skips P buf r \<longleftrightarrow>
     (\<exists>pre. buf = pre @ fst r \<and> (\<forall>c \<in> set pre. \<not> P c)) \<and>
     (snd r \<longrightarrow> fst r \<noteq> [] \<and> P (hd (fst r)))"

lemma cmpestri_skip:
  "cmpestri ranges block \<le> length block \<and>
   (\<forall>c \<in> set (take (cmpestri ranges block) block). \<not> in_ranges ranges c) \<and>
   (cmpestri ranges block < length block \<longrightarrow> in_ranges ranges (block ! cmpestri ranges block))"
proof -
  let ?P = "\<lambda>c. \<not> in_ranges ranges c"
  have eq: "take (cmpestri ranges block) block = takeWhile ?P block"
    unfolding cmpestri_def by (rule takeWhile_eq_take [symmetric])
  have "\<forall>c \<in> set (takeWhile ?P block). ?P c"
    by (auto dest: set_takeWhileD)
  then have "\<forall>c \<in> set (take (cmpestri ranges block) block). ?P c"
    by (simp only: eq)
  moreover have "cmpestri ranges block \<le> length block"
    by (simp add: cmpestri_def length_takeWhile_le)
  moreover have "cmpestri ranges block < length block \<longrightarrow>
      in_ranges ranges (block ! cmpestri ranges block)"
    using nth_length_takeWhile [of ?P block] by (simp add: cmpestri_def)
  ultimately show ?thesis by blast
qed

lemma skips_trans:
  assumes "\<forall>c \<in> set (take n buf). \<not> P c" and "skips P (drop n buf) r"
  shows "skips P buf r"
proof -
  from assms(2) obtain pre where "drop n buf = pre @ fst r" "\<forall>c \<in> set pre. \<not> P c"
    by (auto simp: skips_def)
  then have "buf = (take n buf @ pre) @ fst r" by (metis append.assoc append_take_drop_id)
  moreover have "\<forall>c \<in> set (take n buf @ pre). \<not> P c"
    using assms(1) \<open>\<forall>c \<in> set pre. \<not> P c\<close> by auto
  ultimately show ?thesis using assms(2) unfolding skips_def by blast
qed

lemma findchar_blocks_skips:
  "16 \<le> left \<Longrightarrow> left \<le> length buf \<Longrightarrow> 16 dvd left \<Longrightarrow>
   skips (in_ranges ranges) buf (findchar_blocks ranges buf left)"
proof (induction ranges buf left rule: findchar_blocks.induct)
  case (1 ranges buf left)
  let ?r = "cmpestri ranges (take 16 buf)"
  have len: "length (take 16 buf) = 16" using "1.prems" by simp
  have skip: "\<forall>c \<in> set (take ?r buf). \<not> in_ranges ranges c"
    using cmpestri_skip [of ranges "take 16 buf"] len by (simp add: min_absorb1)
  show ?case
  proof (cases "?r = 16")
    case False
    then have lt: "?r < 16" using cmpestri_skip [of ranges "take 16 buf"] len by linarith
    then have "in_ranges ranges (buf ! ?r)"
      using cmpestri_skip [of ranges "take 16 buf"] len by simp
    with lt "1.prems" have "skips (in_ranges ranges) (drop ?r buf) (drop ?r buf, True)"
      by (auto simp: skips_def hd_drop_conv_nth)
    with skip have "skips (in_ranges ranges) buf (drop ?r buf, True)" by (rule skips_trans)
    with False show ?thesis by (simp add: findchar_blocks.simps [of ranges buf left])
  next
    case True
    show ?thesis
    proof (cases "left - 16 = 0")
      case True
      with \<open>?r = 16\<close> skip show ?thesis
        by (auto simp: findchar_blocks.simps [of ranges buf left] intro: skips_trans)
          (auto simp: skips_def intro: exI [of _ "take 16 buf"])
    next
      case False
      with "1.prems" have "16 \<le> left - 16" "left - 16 \<le> length (drop 16 buf)" "16 dvd left - 16"
        by (auto elim!: dvdE)
      from "1.IH" [OF refl _ _ this] \<open>?r = 16\<close> False skip show ?thesis
        by (auto simp: findchar_blocks.simps [of ranges buf left] intro: skips_trans)
    qed
  qed
qed

lemma findchar_fast_skips: "skips (in_ranges ranges) buf (findchar_fast sse ranges buf)"
proof (cases "sse \<and> 16 \<le> length buf")
  case True
  then have "16 \<le> length buf" by simp
  then have "16 \<le> 16 * (length buf div 16)" by presburger
  with True show ?thesis
    by (simp add: findchar_fast_def findchar_blocks_skips)
next
  case False
  then show ?thesis by (auto simp: findchar_fast_def skips_def)
qed

subsection \<open>Tokens of the request line\<close>

definition ranges2 :: bytes where
  "ranges2 = [CHR 0x00, SP, DEL, DEL]"

text \<open>The \<^verbatim>\<open>while (1)\<close> of \<^verbatim>\<open>ADVANCE_TOKEN\<close>; the result starts at the space that ends the token.\<close>

fun advance_loop :: "bytes \<Rightarrow> bytes phr" where
  "advance_loop [] = Oob"
| "advance_loop (c # cs) =
     (if c = SP then Parsed (c # cs)
      else if \<not> IS_PRINTABLE_ASCII c \<and> is_token_ctl c then Failed
      else if cs = [] then Incomplete
      else advance_loop cs)"

definition ADVANCE_TOKEN :: "bool \<Rightarrow> bytes \<Rightarrow> (bytes \<times> bytes) phr" where
  "ADVANCE_TOKEN sse buf =
     (let (b1, found2) = findchar_fast sse ranges2 buf
      in if \<not> found2 \<and> b1 = [] then Incomplete
         else bind_phr (advance_loop b1)
                (\<lambda>b2. Parsed (take (length buf - length b2) buf, b2)))"

text \<open>What it computes: everything up to the first space, if no control byte comes before it.\<close>

definition token_stop :: "char \<Rightarrow> bool" where
  "token_stop c \<longleftrightarrow> c = SP \<or> is_token_ctl c"

definition token_spec :: "bytes \<Rightarrow> (bytes \<times> bytes) phr" where
  "token_spec buf =
     (case dropWhile (\<lambda>c. \<not> token_stop c) buf of
        [] \<Rightarrow> Incomplete
      | c # cs \<Rightarrow> if c = SP then Parsed (takeWhile (\<lambda>c. \<not> token_stop c) buf, c # cs) else Failed)"

declare dropWhile_eq_Nil_conv [simp del]

lemma in_ranges2: "in_ranges ranges2 c \<longleftrightarrow> token_stop c"
proof -
  have "byte_val c \<le> 32 \<longleftrightarrow> c = SP \<or> byte_val c < 32"
    using byte_val_eq_iff [of c SP] by (auto simp: byte_val_def)
  then show ?thesis
    by (auto simp: ranges2_def token_stop_def is_token_ctl_def byte_val_DEL)
      (auto simp: byte_val_def)
qed

lemma advance_loop_spec:
  "buf \<noteq> [] \<Longrightarrow>
   advance_loop buf =
     (case dropWhile (\<lambda>c. \<not> token_stop c) buf of
        [] \<Rightarrow> Incomplete | c # cs \<Rightarrow> if c = SP then Parsed (c # cs) else Failed)"
  by (induction buf rule: advance_loop.induct)
    (auto simp: token_stop_def dest: is_token_ctl_not_printable)

lemma dropWhile_skip:
  "\<forall>c \<in> set pre. P c \<Longrightarrow> dropWhile P (pre @ rest) = dropWhile P rest"
  by (induction pre) auto

lemma takeWhile_append_rest [simp]: "dropWhile P xs = ys \<Longrightarrow> takeWhile P xs @ ys = xs"
  by auto

lemma ADVANCE_TOKEN_eq_spec: "ADVANCE_TOKEN sse buf = token_spec buf"
proof -
  obtain b1 found where ff: "findchar_fast sse ranges2 buf = (b1, found)" by force
  have "skips (in_ranges ranges2) buf (b1, found)"
    using findchar_fast_skips [of ranges2 buf sse] by (simp add: ff)
  then obtain pre where buf: "buf = pre @ b1" and pre: "\<forall>c \<in> set pre. \<not> token_stop c"
    and found: "found \<Longrightarrow> b1 \<noteq> []"
    by (auto simp: skips_def in_ranges2)
  have dw: "dropWhile (\<lambda>c. \<not> token_stop c) buf = dropWhile (\<lambda>c. \<not> token_stop c) b1"
    using pre by (simp add: buf dropWhile_skip)
  have tw: "take (length buf - length rest) buf = takeWhile (\<lambda>c. \<not> token_stop c) buf"
    if "dropWhile (\<lambda>c. \<not> token_stop c) buf = rest" for rest
  proof -
    have "buf = takeWhile (\<lambda>c. \<not> token_stop c) buf @ rest"
      using that by (metis takeWhile_dropWhile_id)
    then show ?thesis by (metis append_eq_conv_conj diff_add_inverse2 length_append)
  qed
  show ?thesis
  proof (cases "b1 = []")
    case True
    with found show ?thesis by (auto simp: ADVANCE_TOKEN_def ff token_spec_def dw)
  next
    case False
    with dw tw show ?thesis
      by (auto simp: ADVANCE_TOKEN_def ff token_spec_def advance_loop_spec split: list.split)
  qed
qed

subsection \<open>Tokens up to the end of the line\<close>

definition ranges1_eol :: bytes where
  "ranges1_eol = [CHR 0x00, CHR 0x08, CHR 0x0A, CHR 0x1F, DEL, DEL]"

text \<open>
  The eight \<^verbatim>\<open>DOIT()\<close> in a row: \<open>doit n\<close> is \<open>n\<close> of them; the flag says that one jumped to
  \<^verbatim>\<open>NonPrintable\<close>. \<open>eol_unrolled\<close> is the loop around them, its flag a jump to \<^verbatim>\<open>FOUND_CTL\<close>.
\<close>

fun doit :: "nat \<Rightarrow> bytes \<Rightarrow> (bytes \<times> bool) phr" where
  "doit 0 buf = Parsed (buf, False)"
| "doit (Suc n) [] = Oob"
| "doit (Suc n) (c # cs) =
     (if \<not> IS_PRINTABLE_ASCII c then Parsed (c # cs, True) else doit n cs)"

lemma doit_shape:
  "n \<le> length buf \<Longrightarrow>
   \<exists>pre b np. doit n buf = Parsed (b, np) \<and> buf = pre @ b \<and>
     (\<forall>c \<in> set pre. IS_PRINTABLE_ASCII c) \<and>
     (np \<longrightarrow> b \<noteq> [] \<and> \<not> IS_PRINTABLE_ASCII (hd b)) \<and> (\<not> np \<longrightarrow> length pre = n)"
proof (induction n buf rule: doit.induct)
  case (3 n c cs)
  show ?case
  proof (cases "IS_PRINTABLE_ASCII c")
    case True
    with 3 obtain pre b np where "doit n cs = Parsed (b, np)" "cs = pre @ b"
      "\<forall>c \<in> set pre. IS_PRINTABLE_ASCII c" "np \<longrightarrow> b \<noteq> [] \<and> \<not> IS_PRINTABLE_ASCII (hd b)"
      "\<not> np \<longrightarrow> length pre = n"
      by auto
    with True show ?thesis
      by (intro exI [of _ "c # pre"] exI [of _ b] exI [of _ np]) auto
  next
    case False
    then show ?thesis by (intro exI [of _ "[]"] exI [of _ "c # cs"] exI [of _ True]) auto
  qed
qed auto

lemma doit_length: "doit n buf = Parsed (b, np) \<Longrightarrow> length b \<le> length buf"
  by (induction n buf rule: doit.induct) (auto split: if_splits)

lemma doit_length_False: "doit n buf = Parsed (b, False) \<Longrightarrow> length b + n = length buf"
  by (induction n buf rule: doit.induct) (auto split: if_splits)

function eol_unrolled :: "bytes \<Rightarrow> (bytes \<times> bool) phr" where
  "eol_unrolled buf =
     (if 8 \<le> length buf then
        (case doit 8 buf of
           Parsed (b, True) \<Rightarrow>
             (case b of
                [] \<Rightarrow> Oob
              | c # cs \<Rightarrow> if is_ctl c then Parsed (c # cs, True) else eol_unrolled cs)
         | Parsed (b, False) \<Rightarrow> eol_unrolled b
         | Failed \<Rightarrow> Failed | Incomplete \<Rightarrow> Incomplete | Oob \<Rightarrow> Oob)
      else Parsed (buf, False))"
  by pat_completeness auto
termination
  by (relation "measure length") (auto dest: doit_length doit_length_False)

declare eol_unrolled.simps [simp del]

text \<open>The byte-wise loop that finishes the scan.\<close>

fun eol_scan :: "bytes \<Rightarrow> bytes phr" where
  "eol_scan [] = Incomplete"
| "eol_scan (c # cs) =
     (if \<not> IS_PRINTABLE_ASCII c \<and> is_ctl c then Parsed (c # cs) else eol_scan cs)"

definition EXPECT_CHAR_NO_CHECK :: "char \<Rightarrow> bytes \<Rightarrow> bytes phr" where
  "EXPECT_CHAR_NO_CHECK ch buf =
     (case buf of [] \<Rightarrow> Oob | c # cs \<Rightarrow> if c \<noteq> ch then Failed else Parsed cs)"

definition EXPECT_CHAR :: "char \<Rightarrow> bytes \<Rightarrow> bytes phr" where
  "EXPECT_CHAR ch buf = (if buf = [] then Incomplete else EXPECT_CHAR_NO_CHECK ch buf)"

text \<open>\<^verbatim>\<open>FOUND_CTL\<close>: \<open>start\<close> is \<^verbatim>\<open>token_start\<close>, \<open>buf\<close> the position of the control byte.\<close>

definition found_ctl :: "bytes \<Rightarrow> bytes \<Rightarrow> (bytes \<times> bytes) phr" where
  "found_ctl start buf =
     (case buf of
        [] \<Rightarrow> Oob
      | c # cs \<Rightarrow>
          if c = CR then
            bind_phr (EXPECT_CHAR LF cs)
              (\<lambda>rest. Parsed (take (length start - length rest - 2) start, rest))
          else if c = LF then Parsed (take (length start - length buf) start, cs)
          else Failed)"

definition get_token_to_eol :: "bool \<Rightarrow> bytes \<Rightarrow> (bytes \<times> bytes) phr" where
  "get_token_to_eol sse buf =
     (if sse then
        (let (b1, found) = findchar_fast True ranges1_eol buf
         in if found then found_ctl buf b1 else bind_phr (eol_scan b1) (found_ctl buf))
      else
        bind_phr (eol_unrolled buf)
          (\<lambda>(b1, found).
             if found then found_ctl buf b1 else bind_phr (eol_scan b1) (found_ctl buf)))"

text \<open>What it computes: the bytes before the first control byte, which must end the line.\<close>

definition eol_spec :: "bytes \<Rightarrow> (bytes \<times> bytes) phr" where
  "eol_spec buf =
     (let tok = takeWhile (\<lambda>c. \<not> is_ctl c) buf
      in case dropWhile (\<lambda>c. \<not> is_ctl c) buf of
           [] \<Rightarrow> Incomplete
         | c # cs \<Rightarrow>
             if c = CR then
               (case cs of [] \<Rightarrow> Incomplete | d # ds \<Rightarrow> if d = LF then Parsed (tok, ds) else Failed)
             else if c = LF then Parsed (tok, cs)
             else Failed)"

lemma in_ranges1_eol: "in_ranges ranges1_eol c \<longleftrightarrow> is_ctl c"
  by (auto simp: ranges1_eol_def is_ctl_def byte_val_DEL byte_val_HT) (auto simp: byte_val_def)

lemma eol_scan_spec:
  "eol_scan buf =
     (if dropWhile (\<lambda>c. \<not> is_ctl c) buf = [] then Incomplete
      else Parsed (dropWhile (\<lambda>c. \<not> is_ctl c) buf))"
  by (induction buf) (auto dest: is_ctl_not_printable)

lemma eol_unrolled_skips:
  "\<exists>r. eol_unrolled buf = Parsed r \<and> skips is_ctl buf r"
proof (induction buf rule: eol_unrolled.induct)
  case (1 buf)
  show ?case
  proof (cases "8 \<le> length buf")
    case False
    then show ?thesis
      by (auto simp: eol_unrolled.simps [of buf] skips_def)
  next
    case True
    then obtain pre b np where d: "doit 8 buf = Parsed (b, np)" "buf = pre @ b"
      and pre: "\<forall>c \<in> set pre. \<not> is_ctl c"
      and np: "np \<longrightarrow> b \<noteq> [] \<and> \<not> IS_PRINTABLE_ASCII (hd b)"
      using doit_shape [of 8 buf] is_ctl_not_printable by blast
    have lift: "skips is_ctl buf r" if "skips is_ctl (drop k b) r"
      "\<forall>c \<in> set (take k b). \<not> is_ctl c" for k r
      using skips_trans [of "length pre + k" buf is_ctl r] that pre d(2) by auto
    show ?thesis
    proof (cases np)
      case False
      with "1.IH"(2) [OF True d(1) refl] obtain r where
        "eol_unrolled b = Parsed r" "skips is_ctl b r" by auto
      with False True d(1) lift [of 0 r] show ?thesis
        by (simp add: eol_unrolled.simps [of buf])
    next
      case np: True
      with \<open>np \<longrightarrow> _\<close> obtain c cs where b: "b = c # cs" by (cases b) auto
      show ?thesis
      proof (cases "is_ctl c")
        case True
        with \<open>8 \<le> length buf\<close> d(1) b np have "eol_unrolled buf = Parsed (b, True)"
          by (simp add: eol_unrolled.simps [of buf])
        moreover from True b d(2) pre have "skips is_ctl buf (b, True)"
          by (auto simp: skips_def)
        ultimately show ?thesis by blast
      next
        case False
        with "1.IH"(1) [OF True d(1) refl] np b obtain r where
          "eol_unrolled cs = Parsed r" "skips is_ctl cs r" by auto
        with False np b True d(1) lift [of 1 r] show ?thesis
          by (simp add: eol_unrolled.simps [of buf])
      qed
    qed
  qed
qed

lemma found_ctl_spec:
  assumes "buf = tok @ c # cs"
  shows "found_ctl buf (c # cs) =
     (if c = CR then
        (case cs of [] \<Rightarrow> Incomplete | d # ds \<Rightarrow> if d = LF then Parsed (tok, ds) else Failed)
      else if c = LF then Parsed (tok, cs) else Failed)"
  using assms
  by (auto simp: found_ctl_def EXPECT_CHAR_def EXPECT_CHAR_NO_CHECK_def split: list.split)

lemma eol_finish:
  assumes "skips is_ctl buf (b1, found)"
  shows "(if found then found_ctl buf b1 else bind_phr (eol_scan b1) (found_ctl buf)) = eol_spec buf"
proof -
  let ?P = "\<lambda>c. \<not> is_ctl c"
  from assms obtain pre where buf: "buf = pre @ b1" and pre: "\<forall>c \<in> set pre. ?P c"
    and found: "found \<Longrightarrow> b1 \<noteq> [] \<and> is_ctl (hd b1)"
    by (auto simp: skips_def)
  have dw: "dropWhile ?P buf = dropWhile ?P b1" using pre by (simp add: buf dropWhile_skip)
  have self: "dropWhile ?P b1 = b1" if found using found [OF that] by (cases b1) auto
  show ?thesis
  proof (cases "dropWhile ?P buf")
    case Nil
    with dw self found show ?thesis by (auto simp: eol_spec_def eol_scan_spec Let_def)
  next
    case (Cons c cs)
    have "buf = takeWhile ?P buf @ c # cs" using Cons by (metis takeWhile_dropWhile_id)
    from found_ctl_spec [OF this] have "found_ctl buf (c # cs) = eol_spec buf"
      by (simp add: eol_spec_def Cons Let_def)
    moreover have "found \<Longrightarrow> b1 = c # cs" using self dw Cons by simp
    ultimately show ?thesis using Cons dw by (auto simp: eol_scan_spec)
  qed
qed

lemma get_token_to_eol_eq_spec: "get_token_to_eol sse buf = eol_spec buf"
proof (cases sse)
  case True
  obtain b1 found where ff: "findchar_fast True ranges1_eol buf = (b1, found)" by force
  have "in_ranges ranges1_eol = is_ctl" by (simp add: fun_eq_iff in_ranges1_eol)
  then have "skips is_ctl buf (b1, found)"
    using findchar_fast_skips [of ranges1_eol buf True] by (simp add: ff)
  from eol_finish [OF this] True show ?thesis by (simp add: get_token_to_eol_def ff)
next
  case False
  from eol_unrolled_skips [of buf] obtain b1 found where
    "eol_unrolled buf = Parsed (b1, found)" "skips is_ctl buf (b1, found)" by auto
  with eol_finish [of buf b1 found] False show ?thesis by (simp add: get_token_to_eol_def)
qed

end
