(* ===== verification/Pico_Http.thy ===== *)
theory Pico_Http
  imports Pico_Scan
begin

text \<open>
  The message layer of \<^verbatim>\<open>httpparser/picohttpparser.cpp\<close>: version, header lines, request and
  response, and the three entry points. A parse returns the components it found and the rest of
  the buffer; \<^verbatim>\<open>buf - buf_start\<close> is the difference of the lengths. The out-parameters are
  results of a successful parse only: the interface gives them no meaning otherwise.
\<close>

record phr_header =
  name :: "bytes option"
  hvalue :: bytes

record phr_request =
  rmethod :: bytes
  path :: bytes
  minor_version :: int
  headers :: "phr_header list"

record phr_response =
  resp_minor_version :: int
  status :: int
  msg :: bytes
  resp_headers :: "phr_header list"

subsection \<open>Completeness check\<close>

fun is_complete_loop :: "nat \<Rightarrow> bytes \<Rightarrow> bytes phr" where
  "is_complete_loop ret_cnt [] = Incomplete"
| "is_complete_loop ret_cnt (c # cs) =
     (if c = CR then
        (case cs of
           [] \<Rightarrow> Incomplete
         | d # ds \<Rightarrow>
             if d \<noteq> LF then Failed
             else if ret_cnt + 1 = 2 then Parsed ds else is_complete_loop (ret_cnt + 1) ds)
      else if c = LF then
        (if ret_cnt + 1 = 2 then Parsed cs else is_complete_loop (ret_cnt + 1) cs)
      else is_complete_loop 0 cs)"

definition is_complete :: "bytes \<Rightarrow> nat \<Rightarrow> bytes phr" where
  "is_complete buf last_len =
     (if last_len < 3 then is_complete_loop 0 buf
      else if length buf < last_len - 3 then Oob
      else is_complete_loop 0 (drop (last_len - 3) buf))"

subsection \<open>Numbers and the version\<close>

text \<open>\<^verbatim>\<open>PARSE_INT\<close>: one decimal digit times \<open>mul\<close>.\<close>

definition PARSE_INT :: "int \<Rightarrow> bytes \<Rightarrow> (int \<times> bytes) phr" where
  "PARSE_INT mul buf =
     (case buf of
        [] \<Rightarrow> Oob
      | c # cs \<Rightarrow>
          if byte_val c < byte_val CHR ''0'' \<or> byte_val CHR ''9'' < byte_val c then Failed
          else Parsed (mul * (int (byte_val c) - int (byte_val CHR ''0'')), cs))"

definition PARSE_INT_3 :: "bytes \<Rightarrow> (int \<times> bytes) phr" where
  "PARSE_INT_3 buf =
     bind_phr (PARSE_INT 100 buf) (\<lambda>(a, b1).
     bind_phr (PARSE_INT 10 b1) (\<lambda>(b, b2).
     bind_phr (PARSE_INT 1 b2) (\<lambda>(c, b3). Parsed (a + b + c, b3))))"

fun expect_all :: "bytes \<Rightarrow> bytes \<Rightarrow> bytes phr" where
  "expect_all [] buf = Parsed buf"
| "expect_all (ch # chs) buf = bind_phr (EXPECT_CHAR_NO_CHECK ch buf) (expect_all chs)"

definition parse_http_version :: "bytes \<Rightarrow> (int \<times> bytes) phr" where
  "parse_http_version buf =
     (if length buf < 9 then Incomplete
      else bind_phr (expect_all ''HTTP/1.'' buf) (PARSE_INT 1))"

subsection \<open>Header lines\<close>

definition ranges1_name :: bytes where
  "ranges1_name = [CHR 0x00, SP, CHR 0x22, CHR 0x22, CHR ''('', CHR '')'', CHR '','', CHR '','',
     CHR ''/'', CHR ''/'', CHR '':'', CHR ''@'', CHR ''['', CHR '']'', CHR 0x7B, CHR 0xFF]"

fun name_loop :: "bytes \<Rightarrow> bytes phr" where
  "name_loop [] = Oob"
| "name_loop (c # cs) =
     (if c = CHR '':'' then Parsed (c # cs)
      else if \<not> is_token_char c then Failed
      else if cs = [] then Incomplete
      else name_loop cs)"

fun skip_blanks :: "bytes \<Rightarrow> bytes phr" where
  "skip_blanks [] = Incomplete"
| "skip_blanks (c # cs) = (if \<not> (c = SP \<or> c = HT) then Parsed (c # cs) else skip_blanks cs)"

text \<open>The name of a header up to its colon, and the blanks after the colon.\<close>

definition header_name :: "bool \<Rightarrow> bytes \<Rightarrow> (bytes \<times> bytes) phr" where
  "header_name sse buf =
     (let (b1, found) = findchar_fast sse ranges1_name buf
      in if \<not> found \<and> b1 = [] then Incomplete
         else bind_phr (name_loop b1) (\<lambda>b2.
           if length buf - length b2 = 0 then Failed
           else bind_phr (skip_blanks (tl b2)) (\<lambda>b3.
             Parsed (take (length buf - length b2) buf, b3))))"

definition is_blank :: "char \<Rightarrow> bool" where
  "is_blank c \<longleftrightarrow> c = SP \<or> c = HT"

text \<open>The backwards loop \<^verbatim>\<open>for (; value_end != value; --value_end)\<close>.\<close>

fun trim_loop :: "nat \<Rightarrow> bytes \<Rightarrow> nat" where
  "trim_loop 0 value = 0"
| "trim_loop (Suc n) value = (if \<not> is_blank (value ! n) then Suc n else trim_loop n value)"

definition trim_trailing :: "bytes \<Rightarrow> bytes" where
  "trim_trailing value = take (trim_loop (length value) value) value"

text \<open>One iteration of the loop of \<^verbatim>\<open>parse_headers\<close> that stores a header.\<close>

definition header_line :: "bool \<Rightarrow> nat \<Rightarrow> bytes \<Rightarrow> (phr_header \<times> bytes) phr" where
  "header_line sse num_headers buf =
     (case buf of
        [] \<Rightarrow> Oob
      | c # cs \<Rightarrow>
          bind_phr
            (if \<not> (num_headers \<noteq> 0 \<and> (c = SP \<or> c = HT))
             then bind_phr (header_name sse buf) (\<lambda>(n, b). Parsed (Some n, b))
             else Parsed (None, buf))
            (\<lambda>(nm, b1).
               bind_phr (get_token_to_eol sse b1)
                 (\<lambda>(value, b2). Parsed (\<lparr>name = nm, hvalue = trim_trailing value\<rparr>, b2))))"

lemma skip_blanks_length: "skip_blanks buf = Parsed b \<Longrightarrow> length b \<le> length buf"
  by (induction buf) (auto split: if_splits)

lemma eol_spec_length: "eol_spec buf = Parsed (t, b) \<Longrightarrow> length b < length buf"
proof -
  assume *: "eol_spec buf = Parsed (t, b)"
  have "length (dropWhile (\<lambda>c. \<not> is_ctl c) buf) \<le> length buf" by (rule length_dropWhile_le)
  with * show ?thesis
    by (auto simp: eol_spec_def Let_def split: list.splits if_splits)
qed

lemma name_loop_length: "name_loop buf = Parsed b \<Longrightarrow> length b \<le> length buf \<and> b \<noteq> []"
  by (induction buf) (auto split: if_splits)

lemma findchar_fast_length: "findchar_fast sse ranges buf = (b, f) \<Longrightarrow> length b \<le> length buf"
  using findchar_fast_skips [of ranges buf sse] by (auto simp: skips_def)

lemma header_name_length:
  assumes "header_name sse buf = Parsed (n, b)"
  shows "length b < length buf"
proof -
  obtain b1 f where ff: "findchar_fast sse ranges1_name buf = (b1, f)" by force
  with assms obtain b2 where "name_loop b1 = Parsed b2" "skip_blanks (tl b2) = Parsed b"
    by (auto simp: header_name_def split: if_splits)
  with findchar_fast_length [OF ff] name_loop_length [of b1 b2] skip_blanks_length [of "tl b2" b]
  show ?thesis by (cases b2) auto
qed

lemma header_line_length:
  "header_line sse n buf = Parsed (h, b) \<Longrightarrow> length b < length buf"
  by (cases buf)
    (auto simp: header_line_def get_token_to_eol_eq_spec split: if_splits
      dest!: eol_spec_length header_name_length)

function parse_headers ::
  "bool \<Rightarrow> nat \<Rightarrow> nat \<Rightarrow> bytes \<Rightarrow> (phr_header list \<times> bytes) phr" where
  "parse_headers sse max_headers num_headers buf =
     (case buf of
        [] \<Rightarrow> Incomplete
      | c # cs \<Rightarrow>
          if c = CR then bind_phr (EXPECT_CHAR LF cs) (\<lambda>b. Parsed ([], b))
          else if c = LF then Parsed ([], cs)
          else if num_headers = max_headers then Failed
          else bind_phr (header_line sse num_headers buf) (\<lambda>(h, b).
            bind_phr (parse_headers sse max_headers (num_headers + 1) b) (\<lambda>(hs, b').
              Parsed (h # hs, b'))))"
  by pat_completeness auto
termination
  by (relation "measure (\<lambda>(sse, m, n, buf). length buf)") (auto dest: header_line_length)

declare parse_headers.simps [simp del]

subsection \<open>Requests and responses\<close>

text \<open>The optional empty line before the request line.\<close>

definition skip_empty_line :: "bytes \<Rightarrow> bytes phr" where
  "skip_empty_line buf =
     (case buf of
        [] \<Rightarrow> Incomplete
      | c # cs \<Rightarrow> if c = CR then EXPECT_CHAR LF cs else if c = LF then Parsed cs else Parsed buf)"

definition parse_eol :: "bytes \<Rightarrow> bytes phr" where
  "parse_eol buf =
     (case buf of
        [] \<Rightarrow> Oob
      | c # cs \<Rightarrow> if c = CR then EXPECT_CHAR LF cs else if c = LF then Parsed cs else Failed)"

definition parse_request :: "bool \<Rightarrow> nat \<Rightarrow> bytes \<Rightarrow> (phr_request \<times> bytes) phr" where
  "parse_request sse max_headers buf =
     bind_phr (skip_empty_line buf) (\<lambda>b0.
     bind_phr (ADVANCE_TOKEN sse b0) (\<lambda>(meth, b1).
     bind_phr (ADVANCE_TOKEN sse (tl b1)) (\<lambda>(pth, b2).
     if length meth = 0 \<or> length pth = 0 then Failed
     else bind_phr (parse_http_version (tl b2)) (\<lambda>(v, b3).
     bind_phr (parse_eol b3) (\<lambda>b4.
     bind_phr (parse_headers sse max_headers 0 b4) (\<lambda>(hs, b5).
     Parsed (\<lparr>rmethod = meth, path = pth, minor_version = v, headers = hs\<rparr>, b5)))))))"

definition expect_space :: "bytes \<Rightarrow> bytes phr" where
  "expect_space buf = EXPECT_CHAR_NO_CHECK SP buf"

definition parse_response :: "bool \<Rightarrow> nat \<Rightarrow> bytes \<Rightarrow> (phr_response \<times> bytes) phr" where
  "parse_response sse max_headers buf =
     bind_phr (parse_http_version buf) (\<lambda>(v, b1).
     bind_phr (expect_space b1) (\<lambda>b2.
     if length b2 < 4 then Incomplete
     else bind_phr (PARSE_INT_3 b2) (\<lambda>(st, b3).
     bind_phr (expect_space b3) (\<lambda>b4.
     bind_phr (get_token_to_eol sse b4) (\<lambda>(m, b5).
     bind_phr (parse_headers sse max_headers 0 b5) (\<lambda>(hs, b6).
     Parsed (\<lparr>resp_minor_version = v, status = st, msg = m, resp_headers = hs\<rparr>, b6)))))))"

text \<open>
  The entry points: a completeness check first when \<^verbatim>\<open>last_len != 0\<close>, then the parse; a result
  is what was parsed and the number of bytes consumed. The source returns that number as an \<^verbatim>\<open>int\<close>; here it is exact, and
  the caller applies the conversion.
\<close>

definition entry ::
  "(bytes \<Rightarrow> ('a \<times> bytes) phr) \<Rightarrow> nat \<Rightarrow> bytes \<Rightarrow> ('a \<times> nat) phr" where
  "entry parse last_len buf =
     bind_phr (if last_len \<noteq> 0 then is_complete buf last_len else Parsed buf) (\<lambda>_.
     bind_phr (parse buf) (\<lambda>(x, rest). Parsed (x, length buf - length rest)))"

definition phr_parse_request ::
  "bool \<Rightarrow> bytes \<Rightarrow> nat \<Rightarrow> nat \<Rightarrow> (phr_request \<times> nat) phr" where
  "phr_parse_request sse buf max_headers last_len =
     entry (parse_request sse max_headers) last_len buf"

definition phr_parse_response ::
  "bool \<Rightarrow> bytes \<Rightarrow> nat \<Rightarrow> nat \<Rightarrow> (phr_response \<times> nat) phr" where
  "phr_parse_response sse buf max_headers last_len =
     entry (parse_response sse max_headers) last_len buf"

definition phr_parse_headers ::
  "bool \<Rightarrow> bytes \<Rightarrow> nat \<Rightarrow> nat \<Rightarrow> (phr_header list \<times> nat) phr" where
  "phr_parse_headers sse buf max_headers last_len =
     entry (parse_headers sse max_headers 0) last_len buf"

end
