(* ===== verification/Pico_Correct.thy ===== *)
theory Pico_Correct
  imports Pico_Http
begin

text \<open>
  What the HTTP parser promises. The contract of a parser over a growing receive buffer is the
  locale \<open>stream_parser\<close>: it never reads outside the buffer, it consumes a prefix of it, and an
  answer other than "incomplete" does not change when more bytes arrive. Parsers are shown to
  meet it by composition, from the scanning functions up to the three entry points.
\<close>

definition sp_seq ::
  "(bytes \<Rightarrow> ('a \<times> bytes) phr) \<Rightarrow> ('a \<Rightarrow> bytes \<Rightarrow> ('b \<times> bytes) phr) \<Rightarrow> bytes \<Rightarrow> ('b \<times> bytes) phr" where
  "sp_seq p q buf = bind_phr (p buf) (\<lambda>(x, b). q x b)"

locale stream_parser =
  fixes p :: "bytes \<Rightarrow> ('a \<times> bytes) phr"
  assumes safe: "p buf \<noteq> Oob"
    and suffix: "p buf = Parsed (x, rest) \<Longrightarrow> \<exists>pre. buf = pre @ rest"
    and stable_Parsed: "p buf = Parsed (x, rest) \<Longrightarrow> p (buf @ ext) = Parsed (x, rest @ ext)"
    and stable_Failed: "p buf = Failed \<Longrightarrow> p (buf @ ext) = Failed"
begin

text \<open>Before the answer is known, every shorter buffer was answered with "incomplete".\<close>

lemma prefix_Incomplete:
  assumes "p (buf @ ext) = Parsed (x, rest)" and "length buf + length rest < length (buf @ ext)"
  shows "p buf = Incomplete"
proof (cases "p buf")
  case (Parsed r)
  obtain x' rest' where r: "r = (x', rest')" by force
  with Parsed have "p (buf @ ext) = Parsed (x', rest' @ ext)" using stable_Parsed by blast
  with assms show ?thesis by auto
next
  case Failed
  with assms(1) stable_Failed [of buf ext] show ?thesis by simp
next
  case Oob
  with safe show ?thesis by blast
qed simp

text \<open>Two buffers with a common prefix that was answered get the same answer.\<close>

lemma answer_determined:
  assumes "p buf = Parsed (x, rest)" and "p (buf @ ext) = Parsed (y, rest')"
  shows "y = x \<and> rest' = rest @ ext"
  using stable_Parsed [OF assms(1), of ext] assms(2) by simp

lemma consumed_le: "p buf = Parsed (x, rest) \<Longrightarrow> length rest \<le> length buf"
  using suffix by fastforce

end

lemma stream_parser_seq:
  assumes "stream_parser p" and "\<And>x. stream_parser (q x)"
  shows "stream_parser (sp_seq p q)"
proof
  fix buf x rest ext
  show "sp_seq p q buf \<noteq> Oob"
    using stream_parser.safe [OF assms(1)] stream_parser.safe [OF assms(2)]
    by (auto simp: sp_seq_def)
  show "\<exists>pre. buf = pre @ rest" if "sp_seq p q buf = Parsed (x, rest)"
  proof -
    from that obtain y b where "p buf = Parsed (y, b)" "q y b = Parsed (x, rest)"
      by (auto simp: sp_seq_def)
    then obtain pre1 pre2 where "buf = pre1 @ b" "b = pre2 @ rest"
      using stream_parser.suffix [OF assms(1)] stream_parser.suffix [OF assms(2)] by blast
    then have "buf = (pre1 @ pre2) @ rest" by simp
    then show ?thesis by blast
  qed
  show "sp_seq p q (buf @ ext) = Parsed (x, rest @ ext)" if "sp_seq p q buf = Parsed (x, rest)"
    using that stream_parser.stable_Parsed [OF assms(1)] stream_parser.stable_Parsed [OF assms(2)]
    by (fastforce simp: sp_seq_def)
  show "sp_seq p q (buf @ ext) = Failed" if "sp_seq p q buf = Failed"
    using that stream_parser.stable_Parsed [OF assms(1)] stream_parser.stable_Failed [OF assms(1)]
      stream_parser.stable_Failed [OF assms(2)]
    by (fastforce simp: sp_seq_def bind_phr_Failed_iff)
qed

lemma stream_parser_ret: "stream_parser (\<lambda>b. Parsed (x, b))"
  by unfold_locales auto

lemma stream_parser_fail: "stream_parser (\<lambda>b. Failed)"
  by unfold_locales auto

lemma stream_parser_if:
  "stream_parser p \<Longrightarrow> stream_parser q \<Longrightarrow> stream_parser (if c then p else q)"
  by simp

subsection \<open>Scanning functions\<close>

lemma takeWhile_dropWhile_append:
  assumes "dropWhile P xs = y # ys"
  shows "takeWhile P (xs @ zs) = takeWhile P xs" "dropWhile P (xs @ zs) = y # ys @ zs"
  using assms by (induction xs) (auto split: if_splits)

lemma stream_parser_token:
  "stream_parser (\<lambda>b. bind_phr (ADVANCE_TOKEN sse b) (\<lambda>(t, b'). Parsed (t, tl b')))"
  (is "stream_parser ?p")
proof
  fix buf x rest ext
  let ?P = "\<lambda>c. \<not> token_stop c"
  show "?p buf \<noteq> Oob"
    by (auto simp: ADVANCE_TOKEN_eq_spec token_spec_def split: list.split)
  show "\<exists>pre. buf = pre @ rest" if "?p buf = Parsed (x, rest)"
  proof -
    from that have "buf = takeWhile ?P buf @ SP # rest"
      by (auto simp: ADVANCE_TOKEN_eq_spec token_spec_def split: list.splits if_splits)
    then have "buf = (takeWhile ?P buf @ [SP]) @ rest" by simp
    then show ?thesis by blast
  qed
  show "?p (buf @ ext) = Parsed (x, rest @ ext)" if "?p buf = Parsed (x, rest)"
    using that takeWhile_dropWhile_append [of ?P buf _ _ ext]
    by (auto simp: ADVANCE_TOKEN_eq_spec token_spec_def split: list.splits if_splits)
  show "?p (buf @ ext) = Failed" if "?p buf = Failed"
    using that takeWhile_dropWhile_append [of ?P buf _ _ ext]
    by (auto simp: ADVANCE_TOKEN_eq_spec token_spec_def bind_phr_Failed_iff
        split: list.splits if_splits)
qed

lemma eol_spec_suffix:
  assumes "eol_spec buf = Parsed (t, rest)"
  shows "buf = t @ [LF] @ rest \<or> buf = t @ [CR, LF] @ rest"
  using assms
  by (auto simp: eol_spec_def Let_def split: list.splits if_splits)

lemma stream_parser_eol: "stream_parser (get_token_to_eol sse)"
proof
  fix buf x rest ext
  let ?P = "\<lambda>c. \<not> is_ctl c"
  show "get_token_to_eol sse buf \<noteq> Oob"
    by (auto simp: get_token_to_eol_eq_spec eol_spec_def Let_def split: list.split)
  show "\<exists>pre. buf = pre @ rest" if "get_token_to_eol sse buf = Parsed (x, rest)"
    using eol_spec_suffix [of buf x rest] that by (auto simp: get_token_to_eol_eq_spec)
  show "get_token_to_eol sse (buf @ ext) = Parsed (x, rest @ ext)"
    if "get_token_to_eol sse buf = Parsed (x, rest)"
    using that takeWhile_dropWhile_append [of ?P buf _ _ ext]
    by (auto simp: get_token_to_eol_eq_spec eol_spec_def Let_def split: list.splits if_splits)
  show "get_token_to_eol sse (buf @ ext) = Failed" if "get_token_to_eol sse buf = Failed"
    using that takeWhile_dropWhile_append [of ?P buf _ _ ext]
    by (auto simp: get_token_to_eol_eq_spec eol_spec_def Let_def split: list.splits if_splits)
qed

lemma stream_parser_skip_blanks: "stream_parser (\<lambda>b. bind_phr (skip_blanks b) (\<lambda>b'. Parsed (x, b')))"
  (is "stream_parser ?p")
proof -
  have shape: "(\<exists>pre c cs. buf = pre @ c # cs \<and> skip_blanks buf = Parsed (c # cs) \<and>
      (\<forall>ext. skip_blanks (buf @ ext) = Parsed (c # cs @ ext))) \<or> skip_blanks buf = Incomplete"
    (is "?A buf \<or> _") for buf
  proof (induction buf)
    case (Cons a buf)
    show ?case
    proof (cases "a = SP \<or> a = HT")
      case True
      show ?thesis
        using Cons.IH
      proof
        assume "?A buf"
        then obtain pre c cs where "buf = pre @ c # cs" "skip_blanks buf = Parsed (c # cs)"
          "\<forall>ext. skip_blanks (buf @ ext) = Parsed (c # cs @ ext)" by blast
        with True have "a # buf = (a # pre) @ c # cs" "skip_blanks (a # buf) = Parsed (c # cs)"
          "\<forall>ext. skip_blanks ((a # buf) @ ext) = Parsed (c # cs @ ext)" by auto
        then show ?thesis by blast
      qed (use True in auto)
    next
      case False
      then have "a # buf = [] @ a # buf" "skip_blanks (a # buf) = Parsed (a # buf)"
        "\<forall>ext. skip_blanks ((a # buf) @ ext) = Parsed (a # buf @ ext)" by auto
      then show ?thesis by blast
    qed
  qed simp
  show ?thesis
  proof
    fix buf y rest ext
    show "?p buf \<noteq> Oob" using shape [of buf] by auto
    show "\<exists>pre. buf = pre @ rest" if "?p buf = Parsed (y, rest)"
      using shape [of buf] that by auto
    show "?p (buf @ ext) = Parsed (y, rest @ ext)" if "?p buf = Parsed (y, rest)"
      using shape [of buf] that by auto
    show "?p (buf @ ext) = Failed" if "?p buf = Failed"
      using shape [of buf] that by auto
  qed
qed

subsection \<open>Header lines\<close>

definition name_stop :: "char \<Rightarrow> bool" where
  "name_stop c \<longleftrightarrow> c = CHR '':'' \<or> \<not> is_token_char c"

definition name_spec :: "bytes \<Rightarrow> (bytes \<times> bytes) phr" where
  "name_spec buf =
     (let nm = takeWhile (\<lambda>c. \<not> name_stop c) buf
      in case dropWhile (\<lambda>c. \<not> name_stop c) buf of
           [] \<Rightarrow> Incomplete
         | c # cs \<Rightarrow> if c = CHR '':'' \<and> nm \<noteq> [] then Parsed (nm, cs) else Failed)"

text \<open>The two tables of the code agree: what the block search skips are token characters.\<close>

lemma tables_agree_all:
  "list_all (\<lambda>(n, t). t = 0 \<longrightarrow>
     n \<le> 32 \<or> n = 34 \<or> n = 40 \<or> n = 41 \<or> n = 44 \<or> n = 47 \<or> (58 \<le> n \<and> n \<le> 64) \<or>
     (91 \<le> n \<and> n \<le> 93) \<or> 123 \<le> n) (enumerate 0 token_char_map)"
  by code_simp

lemma length_token_char_map: "length token_char_map = 256"
  by (simp add: token_char_map_def)

lemma in_ranges1_name:
  "in_ranges ranges1_name c \<longleftrightarrow>
     byte_val c \<le> 32 \<or> byte_val c = 34 \<or> byte_val c = 40 \<or> byte_val c = 41 \<or>
     byte_val c = 44 \<or> byte_val c = 47 \<or> (58 \<le> byte_val c \<and> byte_val c \<le> 64) \<or>
     (91 \<le> byte_val c \<and> byte_val c \<le> 93) \<or> (123 \<le> byte_val c \<and> byte_val c \<le> 255)"
proof -
  have lits: "byte_val CHR 0x00 = 0" "byte_val SP = 32" "byte_val CHR 0x22 = 34"
    "byte_val CHR ''('' = 40" "byte_val CHR '')'' = 41" "byte_val CHR '','' = 44"
    "byte_val CHR ''/'' = 47" "byte_val CHR '':'' = 58" "byte_val CHR ''@'' = 64"
    "byte_val CHR ''['' = 91" "byte_val CHR '']'' = 93" "byte_val CHR 0x7B = 123"
    "byte_val CHR 0xFF = 255"
    by (simp_all add: byte_val_def)
  show ?thesis by (simp add: ranges1_name_def lits) arith
qed

lemma tables_agree:
  assumes "name_stop c"
  shows "in_ranges ranges1_name c"
proof -
  define n where "n = byte_val c"
  have "(n, token_char_map ! n) \<in> set (enumerate 0 token_char_map)"
    by (simp add: in_set_enumerate_eq length_token_char_map n_def)
  with tables_agree_all have "token_char_map ! n = 0 \<longrightarrow>
     n \<le> 32 \<or> n = 34 \<or> n = 40 \<or> n = 41 \<or> n = 44 \<or> n = 47 \<or> (58 \<le> n \<and> n \<le> 64) \<or>
     (91 \<le> n \<and> n \<le> 93) \<or> 123 \<le> n"
    by (auto simp: list_all_iff)
  moreover have "token_char_map ! n = 0 \<or> n = 58"
    using assms by (auto simp: name_stop_def is_token_char_def n_def) (simp add: byte_val_def)
  moreover have "n \<le> 255" using byte_val_less [of c] unfolding n_def by linarith
  ultimately show ?thesis unfolding in_ranges1_name n_def [symmetric] by auto
qed

lemma name_loop_spec:
  "buf \<noteq> [] \<Longrightarrow>
   name_loop buf =
     (case dropWhile (\<lambda>c. \<not> name_stop c) buf of
        [] \<Rightarrow> Incomplete | c # cs \<Rightarrow> if c = CHR '':'' then Parsed (c # cs) else Failed)"
  by (induction buf rule: name_loop.induct) (auto simp: name_stop_def)

lemma header_name_eq_spec:
  "header_name sse buf =
     bind_phr (name_spec buf) (\<lambda>(n, b). bind_phr (skip_blanks b) (\<lambda>b'. Parsed (n, b')))"
proof -
  let ?P = "\<lambda>c. \<not> name_stop c"
  obtain b1 found where ff: "findchar_fast sse ranges1_name buf = (b1, found)" by force
  have "skips (in_ranges ranges1_name) buf (b1, found)"
    using findchar_fast_skips [of ranges1_name buf sse] by (simp add: ff)
  then obtain pre where buf: "buf = pre @ b1" and pre: "\<forall>c \<in> set pre. ?P c"
    and found: "found \<Longrightarrow> b1 \<noteq> []"
    using tables_agree by (fastforce simp: skips_def)
  have dw: "dropWhile ?P buf = dropWhile ?P b1"
    using pre by (simp add: buf dropWhile_skip)
  show ?thesis
  proof (cases "b1 = []")
    case True
    with found show ?thesis by (auto simp: header_name_def ff name_spec_def dw Let_def)
  next
    case False
    show ?thesis
    proof (cases "dropWhile ?P buf")
      case Nil
      with False dw show ?thesis
        by (simp add: header_name_def ff name_loop_spec name_spec_def Let_def)
    next
      case (Cons c cs)
      define nm where "nm = takeWhile ?P buf"
      have split: "buf = nm @ c # cs" using Cons by (simp add: nm_def)
      with Cons have tk: "take (length buf - length (c # cs)) buf = nm"
        "length buf - length (c # cs) = length nm" by auto
      show ?thesis
        using False Cons dw tk
        by (auto simp: header_name_def ff name_loop_spec name_spec_def Let_def nm_def [symmetric])
    qed
  qed
qed

lemma stream_parser_name: "stream_parser name_spec"
proof
  fix buf x rest ext
  let ?P = "\<lambda>c. \<not> name_stop c"
  show "name_spec buf \<noteq> Oob" by (auto simp: name_spec_def Let_def split: list.split)
  show "\<exists>pre. buf = pre @ rest" if "name_spec buf = Parsed (x, rest)"
  proof -
    from that have "buf = (x @ [CHR '':'']) @ rest"
      by (auto simp: name_spec_def Let_def split: list.splits if_splits)
    then show ?thesis by blast
  qed
  show "name_spec (buf @ ext) = Parsed (x, rest @ ext)" if "name_spec buf = Parsed (x, rest)"
    using that takeWhile_dropWhile_append [of ?P buf _ _ ext]
    by (auto simp: name_spec_def Let_def split: list.splits if_splits)
  show "name_spec (buf @ ext) = Failed" if "name_spec buf = Failed"
    using that takeWhile_dropWhile_append [of ?P buf _ _ ext]
    by (auto simp: name_spec_def Let_def split: list.splits if_splits)
qed

lemma stream_parser_header_name: "stream_parser (header_name sse)"
proof -
  have "header_name sse = sp_seq name_spec (\<lambda>n b. bind_phr (skip_blanks b) (\<lambda>b'. Parsed (n, b')))"
    by (rule ext) (simp add: header_name_eq_spec sp_seq_def)
  then show ?thesis
    by (simp add: stream_parser_seq stream_parser_name stream_parser_skip_blanks)
qed

text \<open>A header line is only entered on a non-empty buffer.\<close>

definition header_line' :: "bool \<Rightarrow> nat \<Rightarrow> bytes \<Rightarrow> (phr_header \<times> bytes) phr" where
  "header_line' sse n buf = (if buf = [] then Incomplete else header_line sse n buf)"

definition header_value :: "bool \<Rightarrow> bytes option \<Rightarrow> bytes \<Rightarrow> (phr_header \<times> bytes) phr" where
  "header_value sse nm =
     sp_seq (get_token_to_eol sse)
       (\<lambda>value b. Parsed (\<lparr>name = nm, hvalue = trim_trailing value\<rparr>, b))"

lemma stream_parser_header_value: "stream_parser (header_value sse nm)"
  unfolding header_value_def
  by (intro stream_parser_seq stream_parser_eol stream_parser_ret)

lemma header_line_alt:
  "header_line sse n (c # cs) =
     (if n \<noteq> 0 \<and> (c = SP \<or> c = HT) then header_value sse None (c # cs)
      else sp_seq (header_name sse) (\<lambda>nm. header_value sse (Some nm)) (c # cs))"
  by (auto simp: header_line_def header_value_def sp_seq_def bind_phr_def split: phr.split)

lemma stream_parser_header_line: "stream_parser (header_line' sse n)"
proof -
  let ?q = "sp_seq (header_name sse) (\<lambda>nm. header_value sse (Some nm))"
  have q: "stream_parser ?q"
    by (intro stream_parser_seq stream_parser_header_name stream_parser_header_value)
  have alt: "header_line' sse n buf =
    (if buf = [] then Incomplete
     else if n \<noteq> 0 \<and> (hd buf = SP \<or> hd buf = HT) then header_value sse None buf else ?q buf)" for buf
    by (cases buf) (simp_all add: header_line'_def header_line_alt)
  note laws = stream_parser.safe stream_parser.suffix stream_parser.stable_Parsed
    stream_parser.stable_Failed
  show ?thesis
  proof
    fix buf x rest ext
    show "header_line' sse n buf \<noteq> Oob"
      using laws(1) [OF q] laws(1) [OF stream_parser_header_value] by (auto simp: alt)
    show "\<exists>pre. buf = pre @ rest" if "header_line' sse n buf = Parsed (x, rest)"
      using that laws(2) [OF q] laws(2) [OF stream_parser_header_value]
      by (auto simp: alt split: if_splits)
    show "header_line' sse n (buf @ ext) = Parsed (x, rest @ ext)"
      if "header_line' sse n buf = Parsed (x, rest)"
      using that laws(3) [OF q] laws(3) [OF stream_parser_header_value]
      by (auto simp: alt split: if_splits)
    show "header_line' sse n (buf @ ext) = Failed" if "header_line' sse n buf = Failed"
      using that laws(4) [OF q] laws(4) [OF stream_parser_header_value]
      by (auto simp: alt split: if_splits)
  qed
qed

lemma parse_headers_step:
  "parse_headers sse m n (c # cs) =
     (if c = CR then bind_phr (EXPECT_CHAR LF cs) (\<lambda>b. Parsed ([], b))
      else if c = LF then Parsed ([], cs)
      else if n = m then Failed
      else bind_phr (header_line' sse n (c # cs)) (\<lambda>(h, b).
        bind_phr (parse_headers sse m (n + 1) b) (\<lambda>(hs, b'). Parsed (h # hs, b'))))"
  by (subst parse_headers.simps) (simp add: header_line'_def)

lemma parse_headers_Nil [simp]: "parse_headers sse m n [] = Incomplete"
  by (subst parse_headers.simps) simp

lemma EXPECT_CHAR_simps [simp]:
  "EXPECT_CHAR ch [] = Incomplete"
  "EXPECT_CHAR ch (c # cs) = (if c \<noteq> ch then Failed else Parsed cs)"
  by (simp_all add: EXPECT_CHAR_def EXPECT_CHAR_NO_CHECK_def)

text \<open>The laws of a stream parser at one buffer, the form in which they are proved by induction.\<close>

definition sp_at :: "(bytes \<Rightarrow> ('a \<times> bytes) phr) \<Rightarrow> bytes \<Rightarrow> bool" where
  "sp_at p buf \<longleftrightarrow>
     (case p buf of
        Parsed (x, rest) \<Rightarrow> (\<exists>pre. buf = pre @ rest) \<and> (\<forall>ext. p (buf @ ext) = Parsed (x, rest @ ext))
      | Failed \<Rightarrow> (\<forall>ext. p (buf @ ext) = Failed)
      | Incomplete \<Rightarrow> True
      | Oob \<Rightarrow> False)"

lemma stream_parser_iff: "stream_parser p \<longleftrightarrow> (\<forall>buf. sp_at p buf)"
proof
  assume "stream_parser p"
  then show "\<forall>buf. sp_at p buf"
    using stream_parser.safe [of p] stream_parser.suffix [of p] stream_parser.stable_Parsed [of p]
      stream_parser.stable_Failed [of p]
    by (auto simp: sp_at_def split: phr.split)
next
  assume *: "\<forall>buf. sp_at p buf"
  show "stream_parser p"
  proof
    fix buf x rest ext
    note at = * [rule_format, of buf, unfolded sp_at_def]
    show "p buf \<noteq> Oob" using at by auto
    show "\<exists>pre. buf = pre @ rest" if "p buf = Parsed (x, rest)" using at that by auto
    show "p (buf @ ext) = Parsed (x, rest @ ext)" if "p buf = Parsed (x, rest)"
      using at that by auto
    show "p (buf @ ext) = Failed" if "p buf = Failed" using at that by auto
  qed
qed

lemma sp_at_header_line: "sp_at (header_line' sse n) buf"
  using stream_parser_header_line [of sse n] by (simp add: stream_parser_iff)

lemma sp_at_parse_headers: "sp_at (parse_headers sse m n) buf"
proof (induction sse m n buf rule: parse_headers.induct)
  case (1 sse m n buf)
  show ?case
  proof (cases buf)
    case Nil
    then show ?thesis by (simp add: sp_at_def)
  next
    case (Cons c cs)
    consider "c = CR" | "c = LF" | "c \<noteq> CR" "c \<noteq> LF" "n = m" | "c \<noteq> CR" "c \<noteq> LF" "n \<noteq> m"
      by blast
    then show ?thesis
    proof cases
      case 1
      then show ?thesis by (cases cs) (auto simp: sp_at_def Cons parse_headers_step)
    next
      case 4
      note line = sp_at_header_line [of sse n buf, unfolded Cons sp_at_def]
      show ?thesis
      proof (cases "header_line' sse n (c # cs)")
        case (Parsed r)
        obtain h b where r: "r = (h, b)" by force
        with Parsed Cons have "header_line sse n buf = Parsed (h, b)"
          by (simp add: header_line'_def)
        with 4 Cons "1.IH" [of c cs "(h, b)" h b] have IH: "sp_at (parse_headers sse m (n + 1)) b"
          by simp
        from line Parsed r obtain pre where "c # cs = pre @ b"
          and ext: "\<And>ext. header_line' sse n (c # cs @ ext) = Parsed (h, b @ ext)" by auto
        have step: "parse_headers sse m n (buf @ ext) =
            bind_phr (parse_headers sse m (n + 1) (b @ ext)) (\<lambda>(hs, b'). Parsed (h # hs, b'))" for ext
          using 4 ext Cons by (simp add: parse_headers_step)
        have step0: "parse_headers sse m n buf =
            bind_phr (parse_headers sse m (n + 1) b) (\<lambda>(hs, b'). Parsed (h # hs, b'))"
          using step [of "[]"] by simp
        show ?thesis
        proof (cases "parse_headers sse m (n + 1) b")
          case (Parsed r')
          with IH obtain pre' where "b = pre' @ snd r'" by (auto simp: sp_at_def split: prod.splits)
          with \<open>c # cs = pre @ b\<close> Cons have "buf = (pre @ pre') @ snd r'" by simp
          then have "\<exists>pre. buf = pre @ snd r'" by blast
          with Parsed IH show ?thesis
            unfolding sp_at_def step step0 by (auto split: prod.splits)
        qed (use IH in \<open>auto simp: sp_at_def step step0\<close>)
      qed (use line 4 in \<open>auto simp: sp_at_def Cons parse_headers_step\<close>)
    qed (auto simp: sp_at_def Cons parse_headers_step)
  qed
qed

lemma stream_parser_parse_headers: "stream_parser (parse_headers sse m n)"
  by (simp add: stream_parser_iff sp_at_parse_headers)

subsection \<open>Requests and responses\<close>

lemma nine_bytes:
  assumes "9 \<le> length buf"
  obtains a b c d e f g h i r where "buf = a # b # c # d # e # f # g # h # i # r"
  using assms by (auto simp: numeral_eq_Suc Suc_le_length_iff)

lemmas version_defs = parse_http_version_def EXPECT_CHAR_NO_CHECK_def PARSE_INT_def

lemma stream_parser_version_line:
  "stream_parser (\<lambda>b. bind_phr (parse_http_version b) (\<lambda>(v, b1). bind_phr (parse_eol b1) (\<lambda>b2. Parsed (v, b2))))"
  (is "stream_parser ?p")
  unfolding stream_parser_iff
proof
  fix buf
  show "sp_at ?p buf"
  proof (cases "9 \<le> length buf")
    case True
    then obtain a b c d e f g h i r where "buf = a # b # c # d # e # f # g # h # i # r"
      by (rule nine_bytes)
    then show ?thesis
      by (cases r) (auto simp: sp_at_def version_defs parse_eol_def)
  next
    case False
    then show ?thesis by (simp add: sp_at_def parse_http_version_def)
  qed
qed

lemma stream_parser_version_space:
  "stream_parser (\<lambda>b. bind_phr (parse_http_version b) (\<lambda>(v, b1). bind_phr (expect_space b1) (\<lambda>b2. Parsed (v, b2))))"
  (is "stream_parser ?p")
  unfolding stream_parser_iff
proof
  fix buf
  show "sp_at ?p buf"
  proof (cases "9 \<le> length buf")
    case True
    then obtain a b c d e f g h i r where "buf = a # b # c # d # e # f # g # h # i # r"
      by (rule nine_bytes)
    then show ?thesis
      by (auto simp: sp_at_def version_defs expect_space_def)
  next
    case False
    then show ?thesis by (simp add: sp_at_def parse_http_version_def)
  qed
qed

definition status_space :: "bytes \<Rightarrow> (int \<times> bytes) phr" where
  "status_space b =
     (if length b < 4 then Incomplete
      else bind_phr (PARSE_INT_3 b) (\<lambda>(st, b'). bind_phr (expect_space b') (\<lambda>b''. Parsed (st, b''))))"

lemma stream_parser_status: "stream_parser status_space"
  unfolding stream_parser_iff
proof
  fix buf
  show "sp_at status_space buf"
  proof (cases "4 \<le> length buf")
    case True
    then obtain a b c d r where "buf = a # b # c # d # r"
      by (auto simp: numeral_eq_Suc Suc_le_length_iff)
    then show ?thesis
      by (auto simp: sp_at_def status_space_def PARSE_INT_3_def PARSE_INT_def expect_space_def
          EXPECT_CHAR_NO_CHECK_def)
  next
    case False
    then show ?thesis by (simp add: sp_at_def status_space_def)
  qed
qed

lemma stream_parser_skip_empty_line:
  "stream_parser (\<lambda>b. bind_phr (skip_empty_line b) (\<lambda>b'. Parsed ((), b')))"
  (is "stream_parser ?p")
  unfolding stream_parser_iff
proof
  fix buf
  show "sp_at ?p buf"
  proof (cases buf)
    case (Cons c cs)
    then show ?thesis by (cases cs) (auto simp: sp_at_def skip_empty_line_def)
  qed (simp add: sp_at_def skip_empty_line_def)
qed

lemma parse_request_alt:
  "parse_request sse m =
     sp_seq (\<lambda>b. bind_phr (skip_empty_line b) (\<lambda>b'. Parsed ((), b'))) (\<lambda>_.
     sp_seq (\<lambda>b. bind_phr (ADVANCE_TOKEN sse b) (\<lambda>(t, b'). Parsed (t, tl b'))) (\<lambda>meth.
     sp_seq (\<lambda>b. bind_phr (ADVANCE_TOKEN sse b) (\<lambda>(t, b'). Parsed (t, tl b'))) (\<lambda>pth.
     if length meth = 0 \<or> length pth = 0 then (\<lambda>b. Failed)
     else sp_seq (\<lambda>b. bind_phr (parse_http_version b) (\<lambda>(v, b1).
            bind_phr (parse_eol b1) (\<lambda>b2. Parsed (v, b2)))) (\<lambda>v.
     sp_seq (parse_headers sse m 0) (\<lambda>hs b.
     Parsed (\<lparr>rmethod = meth, path = pth, minor_version = v, headers = hs\<rparr>, b))))))"
  by (rule ext) (auto simp: parse_request_def sp_seq_def bind_phr_def split: phr.split)

lemma parse_response_alt:
  "parse_response sse m =
     sp_seq (\<lambda>b. bind_phr (parse_http_version b) (\<lambda>(v, b1).
       bind_phr (expect_space b1) (\<lambda>b2. Parsed (v, b2)))) (\<lambda>v.
     sp_seq status_space (\<lambda>st.
     sp_seq (get_token_to_eol sse) (\<lambda>ms.
     sp_seq (parse_headers sse m 0) (\<lambda>hs b.
     Parsed (\<lparr>resp_minor_version = v, status = st, msg = ms, resp_headers = hs\<rparr>, b)))))"
  by (rule ext) (auto simp: parse_response_def status_space_def sp_seq_def bind_phr_def split: phr.split)

lemmas stream_parser_units =
  stream_parser_skip_empty_line stream_parser_token stream_parser_version_line
  stream_parser_version_space stream_parser_status stream_parser_eol stream_parser_parse_headers
  stream_parser_ret stream_parser_fail

interpretation request_sp: stream_parser "parse_request sse m" for sse m
  unfolding parse_request_alt
  by (intro stream_parser_seq stream_parser_if stream_parser_units)

interpretation response_sp: stream_parser "parse_response sse m" for sse m
  unfolding parse_response_alt
  by (intro stream_parser_seq stream_parser_units)

interpretation headers_sp: stream_parser "parse_headers sse m n" for sse m n
  by (rule stream_parser_parse_headers)

end
