(* ===== verification/Pico_Grammar.thy ===== *)
theory Pico_Grammar
  imports Pico_Correct
begin

text \<open>
  The accepted language of the request parser: what a parsed request looks like, a canonical
  rendering of it, and the round trip between the two; the independence of the result from the
  SSE4.2 code path; memory safety of the entry points.
\<close>

subsection \<open>The portable and the SSE4.2 code agree\<close>

lemma header_line_sse: "header_line sse n buf = header_line False n buf"
  by (cases buf) (simp_all add: header_line_def header_name_eq_spec get_token_to_eol_eq_spec)

lemma parse_headers_sse: "parse_headers sse m n buf = parse_headers False m n buf"
proof (induction sse m n buf rule: parse_headers.induct)
  case (1 sse m n buf)
  show ?case
  proof (cases buf)
    case (Cons c cs)
    have "bind_phr (header_line sse n buf) (\<lambda>(h, b).
        bind_phr (parse_headers sse m (n + 1) b) (\<lambda>(hs, b'). Parsed (h # hs, b'))) =
      bind_phr (header_line False n buf) (\<lambda>(h, b).
        bind_phr (parse_headers False m (n + 1) b) (\<lambda>(hs, b'). Parsed (h # hs, b')))"
      if "c \<noteq> CR" "c \<noteq> LF" "n \<noteq> m"
      using "1.IH" [OF Cons that] header_line_sse [of sse n buf]
      by (cases "header_line False n buf") (auto split: prod.splits)
    with Cons show ?thesis
      by (simp add: parse_headers.simps [of sse m n "c # cs"] parse_headers.simps [of False m n "c # cs"])
  qed simp
qed

lemma parse_request_sse: "parse_request sse m buf = parse_request False m buf"
  unfolding parse_request_def ADVANCE_TOKEN_eq_spec parse_headers_sse [of sse] by (rule refl)

lemma parse_response_sse: "parse_response sse m buf = parse_response False m buf"
  unfolding parse_response_def get_token_to_eol_eq_spec parse_headers_sse [of sse] by (rule refl)

subsection \<open>Trailing blanks\<close>

lemma trim_loop_take: "n \<le> k \<Longrightarrow> trim_loop n (take k v) = trim_loop n v"
  by (induction n) auto

lemma trim_loop_le: "trim_loop n v \<le> n"
  by (induction n) auto

lemma trim_trailing_Nil [simp]: "trim_trailing [] = []"
  by (simp add: trim_trailing_def)

lemma trim_trailing_snoc [simp]:
  "trim_trailing (xs @ [x]) = (if is_blank x then trim_trailing xs else xs @ [x])"
proof -
  have "trim_loop (length xs) (xs @ [x]) = trim_loop (length xs) xs"
    using trim_loop_take [of "length xs" "length xs" "xs @ [x]"] by simp
  then show ?thesis
    using trim_loop_le [of "length xs" xs] by (simp add: trim_trailing_def)
qed

lemma trim_trailing_prefix: "\<exists>bl. v = trim_trailing v @ bl \<and> (\<forall>c \<in> set bl. is_blank c)"
proof (induction v rule: rev_induct)
  case (snoc x xs)
  then obtain bl where bl: "xs = trim_trailing xs @ bl" "\<forall>c \<in> set bl. is_blank c" by blast
  show ?case
  proof (cases "is_blank x")
    case True
    have "xs @ [x] = trim_trailing xs @ (bl @ [x])" using bl(1) by simp
    with True bl(2) show ?thesis by (intro exI [of _ "bl @ [x]"]) simp
  qed simp
qed simp

lemma trim_trailing_last: "trim_trailing v \<noteq> [] \<Longrightarrow> \<not> is_blank (last (trim_trailing v))"
  by (induction v rule: rev_induct) auto

lemma trim_trailing_id: "v = [] \<or> \<not> is_blank (last v) \<Longrightarrow> trim_trailing v = v"
  by (cases v rule: rev_cases) auto

lemma trim_trailing_hd: "trim_trailing v \<noteq> [] \<Longrightarrow> hd (trim_trailing v) = hd v"
  using trim_trailing_prefix [of v] by (metis hd_append2)

subsection \<open>Well-formed requests and their rendering\<close>

definition wf_value :: "bytes \<Rightarrow> bool" where
  "wf_value v \<longleftrightarrow> (\<forall>c \<in> set v. \<not> is_ctl c) \<and> (v = [] \<or> \<not> is_blank (last v))"

text \<open>
  A named header, or, after the first one, the continuation line of a folded header: no name,
  and a value that keeps its leading blanks.
\<close>

definition wf_header :: "nat \<Rightarrow> phr_header \<Rightarrow> bool" where
  "wf_header n h \<longleftrightarrow> wf_value (hvalue h) \<and>
     (case name h of
        Some nm \<Rightarrow> nm \<noteq> [] \<and> (\<forall>c \<in> set nm. \<not> name_stop c) \<and>
          (hvalue h = [] \<or> \<not> is_blank (hd (hvalue h)))
      | None \<Rightarrow> n \<noteq> 0 \<and> (hvalue h = [] \<or> is_blank (hd (hvalue h))))"

fun wf_headers :: "nat \<Rightarrow> phr_header list \<Rightarrow> bool" where
  "wf_headers n [] \<longleftrightarrow> True"
| "wf_headers n (h # hs) \<longleftrightarrow> wf_header n h \<and> wf_headers (n + 1) hs"

definition wf_token :: "bytes \<Rightarrow> bool" where
  "wf_token t \<longleftrightarrow> t \<noteq> [] \<and> (\<forall>c \<in> set t. \<not> token_stop c)"

definition wf_request :: "nat \<Rightarrow> phr_request \<Rightarrow> bool" where
  "wf_request max_headers r \<longleftrightarrow> wf_token (rmethod r) \<and> wf_token (path r) \<and>
     0 \<le> minor_version r \<and> minor_version r \<le> 9 \<and>
     length (headers r) \<le> max_headers \<and> wf_headers 0 (headers r)"

definition render_header :: "phr_header \<Rightarrow> bytes" where
  "render_header h =
     (case name h of
        Some nm \<Rightarrow> nm @ [CHR '':'', SP] @ hvalue h
      | None \<Rightarrow> (if hvalue h = [] then [SP] else hvalue h)) @ [CR, LF]"

definition digit_char :: "int \<Rightarrow> char" where
  "digit_char d = char_of (48 + nat d)"

definition render_request :: "phr_request \<Rightarrow> bytes" where
  "render_request r =
     rmethod r @ [SP] @ path r @ [SP] @ ''HTTP/1.'' @ [digit_char (minor_version r), CR, LF] @
     concat (map render_header (headers r)) @ [CR, LF]"

subsection \<open>Rendering, then parsing\<close>

lemma token_spec_render:
  "\<forall>c \<in> set t. \<not> token_stop c \<Longrightarrow> token_spec (t @ SP # rest) = Parsed (t, SP # rest)"
  by (simp add: token_spec_def dropWhile_skip token_stop_def takeWhile_append2)

lemma is_ctl_CR [simp]: "is_ctl CR" "is_ctl LF"
  by (simp_all add: is_ctl_def byte_val_def)

lemma is_blank_not_ctl: "is_blank c \<Longrightarrow> \<not> is_ctl c"
  by (auto simp: is_blank_def is_ctl_def byte_val_def)

lemma eol_spec_render:
  "\<forall>c \<in> set v. \<not> is_ctl c \<Longrightarrow> eol_spec (v @ [CR, LF] @ rest) = Parsed (v, rest)"
  by (simp add: eol_spec_def dropWhile_skip takeWhile_append2 Let_def)

lemma name_stop_simps [simp]: "name_stop CHR '':''" "name_stop CR" "name_stop LF" "name_stop SP" "name_stop HT"
  by (simp_all add: name_stop_def is_token_char_def token_char_map_def byte_val_def)

lemma name_spec_render:
  "nm \<noteq> [] \<Longrightarrow> \<forall>c \<in> set nm. \<not> name_stop c \<Longrightarrow> name_spec (nm @ CHR '':'' # rest) = Parsed (nm, rest)"
  by (simp add: name_spec_def dropWhile_skip takeWhile_append2 Let_def)

lemma header_line_render:
  assumes "wf_header n h"
  shows "header_line sse n (render_header h @ rest) = Parsed (h, rest)"
    and "hd (render_header h) \<noteq> CR" and "hd (render_header h) \<noteq> LF" and "render_header h \<noteq> []"
proof -
  obtain nm v where h: "h = \<lparr>name = nm, hvalue = v\<rparr>" by (cases h) auto
  have v: "\<forall>c \<in> set v. \<not> is_ctl c" "trim_trailing v = v"
    using assms by (auto simp: h wf_header_def wf_value_def trim_trailing_id)
  have eol: "get_token_to_eol sse (v @ CR # LF # rest) = Parsed (v, rest)"
    using eol_spec_render [OF v(1), of rest] by (simp add: get_token_to_eol_eq_spec)
  show "render_header h \<noteq> []" by (simp add: render_header_def)
  have "header_line sse n (render_header h @ rest) = Parsed (h, rest) \<and>
      hd (render_header h) \<noteq> CR \<and> hd (render_header h) \<noteq> LF"
  proof (cases nm)
    case (Some t)
    with assms have t: "t \<noteq> []" "\<forall>c \<in> set t. \<not> name_stop c"
      and lead: "v = [] \<or> \<not> is_blank (hd v)" by (auto simp: h wf_header_def)
    then obtain c cs where c: "t = c # cs" by (cases t) auto
    have ne: "c \<noteq> CR" "c \<noteq> LF" "c \<noteq> SP" "c \<noteq> HT" using t(2) by (auto simp: c)
    have "skip_blanks (v @ CR # LF # rest) = Parsed (v @ CR # LF # rest)"
      using lead by (cases v) (auto simp: is_blank_def)
    then have "header_name sse (t @ CHR '':'' # SP # v @ CR # LF # rest) = Parsed (t, v @ CR # LF # rest)"
      by (simp add: header_name_eq_spec name_spec_render [OF t])
    with ne eol v(2) show ?thesis
      by (simp add: header_line_def h Some render_header_def c)
  next
    case None
    with assms have n: "n \<noteq> 0" and lead: "v = [] \<or> is_blank (hd v)"
      by (auto simp: h wf_header_def)
    show ?thesis
    proof (cases v)
      case Nil
      have "eol_spec (SP # CR # LF # rest) = Parsed ([SP], rest)"
        using eol_spec_render [of "[SP]" rest] by (simp add: is_ctl_def byte_val_def)
      with None n Nil show ?thesis
        using trim_trailing_snoc [of "[]" SP]
        by (simp add: header_line_def h render_header_def get_token_to_eol_eq_spec is_blank_def)
    next
      case (Cons c cs)
      with lead have "c = SP \<or> c = HT" by (simp add: is_blank_def)
      with None n Cons eol v(2) show ?thesis
        by (auto simp: header_line_def h render_header_def)
    qed
  qed
  then show "header_line sse n (render_header h @ rest) = Parsed (h, rest)"
    "hd (render_header h) \<noteq> CR" "hd (render_header h) \<noteq> LF" by auto
qed

lemma parse_headers_render:
  "wf_headers n hs \<Longrightarrow> n + length hs \<le> m \<Longrightarrow>
   parse_headers sse m n (concat (map render_header hs) @ CR # LF # rest) = Parsed (hs, rest)"
proof (induction hs arbitrary: n)
  case Nil
  then show ?case by (simp add: parse_headers_step)
next
  case (Cons h hs)
  let ?tail = "concat (map render_header hs) @ CR # LF # rest"
  from Cons.prems have wf: "wf_header n h" and IH: "parse_headers sse m (n + 1) ?tail = Parsed (hs, rest)"
    using Cons.IH [of "n + 1"] by auto
  note line = header_line_render [OF wf]
  then obtain c cs where c: "render_header h @ ?tail = c # cs" "c \<noteq> CR" "c \<noteq> LF"
    by (cases "render_header h") auto
  have "header_line sse n (c # cs) = Parsed (h, ?tail)"
    using line(1) [of sse ?tail] c(1) by simp
  with IH c Cons.prems(2) show ?case
    by (simp add: parse_headers_step header_line'_def)
qed

lemma digit_char_val: "0 \<le> d \<Longrightarrow> d \<le> 9 \<Longrightarrow> byte_val (digit_char d) = 48 + nat d"
  by (simp add: byte_val_def digit_char_def of_char_of)

lemma parse_http_version_render:
  assumes "0 \<le> d" "d \<le> 9"
  shows "parse_http_version (''HTTP/1.'' @ digit_char d # x # rest) = Parsed (d, x # rest)"
  using assms digit_char_val [OF assms]
  by (simp add: parse_http_version_def EXPECT_CHAR_NO_CHECK_def PARSE_INT_def) (simp add: byte_val_def)

lemma parse_request_render:
  assumes "wf_request m r"
  shows "parse_request sse m (render_request r @ body) = Parsed (r, body)"
proof -
  obtain mt pt v hs where r: "r = \<lparr>rmethod = mt, path = pt, minor_version = v, headers = hs\<rparr>"
    by (cases r) auto
  have mt: "mt \<noteq> []" "\<forall>c \<in> set mt. \<not> token_stop c" and pt: "pt \<noteq> []" "\<forall>c \<in> set pt. \<not> token_stop c"
    and v: "0 \<le> v" "v \<le> 9" and hs: "length hs \<le> m" "wf_headers 0 hs"
    using assms by (auto simp: r wf_request_def wf_token_def)
  obtain c cs where c: "mt = c # cs" using mt(1) by (cases mt) auto
  have "\<not> token_stop c" using mt(2) by (simp add: c)
  then have ne: "c \<noteq> CR" "c \<noteq> LF" by (auto simp: token_stop_def is_token_ctl_def byte_val_def)
  let ?r3 = "concat (map render_header hs) @ CR # LF # body"
  let ?r2 = "''HTTP/1.'' @ digit_char v # CR # LF # ?r3"
  have buf: "render_request r @ body = mt @ SP # pt @ SP # ?r2"
    by (simp add: render_request_def r)
  have s0: "skip_empty_line (mt @ SP # pt @ SP # ?r2) = Parsed (mt @ SP # pt @ SP # ?r2)"
    using ne by (simp add: skip_empty_line_def c)
  have s1: "ADVANCE_TOKEN sse (mt @ SP # pt @ SP # ?r2) = Parsed (mt, SP # pt @ SP # ?r2)"
    unfolding ADVANCE_TOKEN_eq_spec by (rule token_spec_render [OF mt(2)])
  have s2: "ADVANCE_TOKEN sse (pt @ SP # ?r2) = Parsed (pt, SP # ?r2)"
    unfolding ADVANCE_TOKEN_eq_spec by (rule token_spec_render [OF pt(2)])
  have s3: "parse_http_version ?r2 = Parsed (v, CR # LF # ?r3)"
    by (rule parse_http_version_render [OF v])
  have s4: "parse_headers sse m 0 ?r3 = Parsed (hs, body)"
    using parse_headers_render [OF hs(2), of m sse body] hs(1) by simp
  show ?thesis
    unfolding buf parse_request_def
    by (simp only: s0 s1 s2 s3 s4 bind_phr_simps prod.case list.sel)
      (simp add: mt(1) pt(1) s4 parse_eol_def r)
qed

subsection \<open>Parsing yields well-formed requests\<close>

lemma token_spec_sound: "token_spec buf = Parsed (t, b) \<Longrightarrow> c \<in> set t \<Longrightarrow> \<not> token_stop c"
  by (auto simp: token_spec_def split: list.splits if_splits dest: set_takeWhileD)

lemma eol_spec_sound:
  assumes "eol_spec buf = Parsed (t, b)"
  shows "\<forall>c \<in> set t. \<not> is_ctl c" and "t \<noteq> [] \<Longrightarrow> hd t = hd buf"
proof -
  have t: "t = takeWhile (\<lambda>c. \<not> is_ctl c) buf"
    using assms by (auto simp: eol_spec_def Let_def split: list.splits if_splits)
  then show "\<forall>c \<in> set t. \<not> is_ctl c" by (auto dest: set_takeWhileD)
  show "t \<noteq> [] \<Longrightarrow> hd t = hd buf" using t by (cases buf) auto
qed

lemma wf_value_trim: "eol_spec buf = Parsed (t, b) \<Longrightarrow> wf_value (trim_trailing t)"
proof -
  assume "eol_spec buf = Parsed (t, b)"
  then have "\<forall>c \<in> set t. \<not> is_ctl c" by (rule eol_spec_sound)
  moreover have "set (trim_trailing t) \<subseteq> set t"
    by (metis trim_trailing_prefix set_append Un_upper1)
  ultimately show ?thesis
    using trim_trailing_last [of t] by (auto simp: wf_value_def)
qed

lemma skip_blanks_sound: "skip_blanks buf = Parsed b \<Longrightarrow> b \<noteq> [] \<and> \<not> is_blank (hd b)"
  by (induction buf) (auto simp: is_blank_def split: if_splits)

lemma header_name_sound:
  assumes "header_name sse buf = Parsed (nm, b)"
  shows "nm \<noteq> []" "\<forall>c \<in> set nm. \<not> name_stop c" "b \<noteq> []" "\<not> is_blank (hd b)"
  using assms skip_blanks_sound
  by (auto simp: header_name_eq_spec name_spec_def Let_def split: list.splits if_splits
      dest: set_takeWhileD)

lemma header_line_sound:
  assumes "header_line sse n buf = Parsed (h, b)"
  shows "wf_header n h"
proof -
  obtain c cs where buf: "buf = c # cs" using assms by (cases buf) (auto simp: header_line_def)
  show ?thesis
  proof (cases "n \<noteq> 0 \<and> (c = SP \<or> c = HT)")
    case True
    with assms obtain t where t: "eol_spec buf = Parsed (t, b)" "h = \<lparr>name = None, hvalue = trim_trailing t\<rparr>"
      by (auto simp: header_line_def buf get_token_to_eol_eq_spec)
    have "t \<noteq> [] \<Longrightarrow> is_blank (hd t)"
      using eol_spec_sound(2) [OF t(1)] True by (auto simp: buf is_blank_def)
    then have "trim_trailing t = [] \<or> is_blank (hd (trim_trailing t))"
      using trim_trailing_hd [of t] trim_trailing_Nil by metis
    with True wf_value_trim [OF t(1)] show ?thesis by (simp add: wf_header_def t(2))
  next
    case False
    with assms obtain nm b1 t where nm: "header_name sse buf = Parsed (nm, b1)"
      and t: "eol_spec b1 = Parsed (t, b)" "h = \<lparr>name = Some nm, hvalue = trim_trailing t\<rparr>"
      by (auto simp: header_line_def buf get_token_to_eol_eq_spec split: if_splits)
    have "t \<noteq> [] \<Longrightarrow> \<not> is_blank (hd t)"
      using eol_spec_sound(2) [OF t(1)] header_name_sound(4) [OF nm] by simp
    then have "trim_trailing t = [] \<or> \<not> is_blank (hd (trim_trailing t))"
      using trim_trailing_hd [of t] trim_trailing_Nil by metis
    with wf_value_trim [OF t(1)] header_name_sound(1,2) [OF nm] show ?thesis
      by (simp add: wf_header_def t(2))
  qed
qed

lemma parse_headers_sound:
  "parse_headers sse m n buf = Parsed (hs, rest) \<Longrightarrow> n \<le> m \<Longrightarrow>
   wf_headers n hs \<and> n + length hs \<le> m"
proof (induction sse m n buf arbitrary: hs rule: parse_headers.induct)
  case (1 sse m n buf)
  from "1.prems"(1) obtain c cs where buf: "buf = c # cs" by (cases buf) auto
  show ?case
  proof (cases "c = CR \<or> c = LF")
    case True
    with "1.prems" show ?thesis by (auto simp: buf parse_headers_step)
  next
    case False
    with "1.prems" obtain h b hs' where h: "header_line sse n buf = Parsed (h, b)"
      and hs': "parse_headers sse m (n + 1) b = Parsed (hs', rest)" "hs = h # hs'" "n \<noteq> m"
      by (auto simp: buf parse_headers_step header_line'_def split: if_splits)
    from False hs' "1.IH" [OF buf _ _ _ h refl, of hs'] "1.prems"(2) have
      "wf_headers (n + 1) hs' \<and> n + 1 + length hs' \<le> m" by simp
    with header_line_sound [OF h] hs'(2) show ?thesis by simp
  qed
qed

lemma PARSE_INT_sound: "PARSE_INT 1 b = Parsed (v, b') \<Longrightarrow> 0 \<le> v \<and> v \<le> 9"
  by (cases b) (auto simp: PARSE_INT_def byte_val_def split: if_splits)

lemma parse_http_version_sound:
  "parse_http_version b = Parsed (v, b') \<Longrightarrow> 0 \<le> v \<and> v \<le> 9"
  using PARSE_INT_sound by (auto simp: parse_http_version_def split: if_splits)

lemma parse_request_sound:
  assumes "parse_request sse m buf = Parsed (r, rest)"
  shows "wf_request m r"
proof -
  from assms obtain b0 mt b1 pt b2 v b3 b4 hs where
    mt: "token_spec b0 = Parsed (mt, b1)" and pt: "token_spec (tl b1) = Parsed (pt, b2)"
    and ne: "mt \<noteq> []" "pt \<noteq> []"
    and v: "parse_http_version (tl b2) = Parsed (v, b3)"
    and hs: "parse_headers sse m 0 b4 = Parsed (hs, rest)"
    and r: "r = \<lparr>rmethod = mt, path = pt, minor_version = v, headers = hs\<rparr>"
    by (auto simp: parse_request_def ADVANCE_TOKEN_eq_spec split: if_splits)
  show ?thesis
    using ne parse_http_version_sound [OF v] parse_headers_sound [OF hs]
      token_spec_sound [OF mt] token_spec_sound [OF pt]
    by (simp add: r wf_request_def wf_token_def)
qed

subsection \<open>The properties of the parser\<close>

lemma is_complete_loop_safe [simp]: "is_complete_loop n buf \<noteq> Oob"
  by (induction n buf rule: is_complete_loop.induct) (auto split: list.split)

lemma is_complete_safe: "last_len \<le> length buf + 3 \<Longrightarrow> is_complete buf last_len \<noteq> Oob"
  by (auto simp: is_complete_def)

lemma entry_safe:
  "(\<And>b. parse b \<noteq> Oob) \<Longrightarrow> last_len \<le> length buf + 3 \<Longrightarrow> entry parse last_len buf \<noteq> Oob"
  using is_complete_safe [of last_len buf] by (auto simp: entry_def)

text \<open>
  C11: the parser never reads outside the buffer it is given. For every buffer, every header
  limit and either code path, none of the three entry points dereferences a pointer at or behind
  \<^verbatim>\<open>buf_end\<close>; the only condition is on the resume offset \<^verbatim>\<open>last_len\<close>, which is how much of the
  buffer an earlier call has seen.
\<close>

theorem phr_memory_safe:
  assumes "last_len \<le> length buf + 3"
  shows "phr_parse_request sse buf m last_len \<noteq> Oob \<and>
         phr_parse_response sse buf m last_len \<noteq> Oob \<and>
         phr_parse_headers sse buf m last_len \<noteq> Oob"
  unfolding phr_parse_request_def phr_parse_response_def phr_parse_headers_def
  by (intro conjI entry_safe assms request_sp.safe response_sp.safe headers_sp.safe)

theorem phr_memory_safe_witness:
  "phr_parse_request False ''GET'' 100 0 \<noteq> Oob \<and> phr_parse_response False ''GET'' 100 0 \<noteq> Oob \<and>
   phr_parse_headers False ''GET'' 100 0 \<noteq> Oob"
  using phr_memory_safe [of 0 "''GET''" False 100] by simp

text \<open>
  C12: the optimised scans are equivalent to the plain ones: with and without SSE4.2 (and the
  eight-fold unrolled loop of the portable version) requests, responses and header blocks are
  parsed to the same result.
\<close>

theorem phr_sse_equivalent:
  "phr_parse_request True buf m last_len = phr_parse_request False buf m last_len \<and>
   phr_parse_response True buf m last_len = phr_parse_response False buf m last_len \<and>
   phr_parse_headers True buf m last_len = phr_parse_headers False buf m last_len"
  by (simp add: phr_parse_request_def phr_parse_response_def phr_parse_headers_def entry_def
      parse_request_sse [of True] parse_response_sse [of True] parse_headers_sse [of True])

text \<open>
  An answer is final. When the parser has accepted or rejected what has arrived so far, any
  bytes that arrive later leave the request, the number of consumed bytes and the rejection
  unchanged; so the event loop may parse after every read.
\<close>

theorem phr_parse_request_stable:
  assumes "phr_parse_request sse buf m 0 \<noteq> Incomplete"
  shows "phr_parse_request sse (buf @ ext) m 0 = phr_parse_request sse buf m 0"
proof (cases "parse_request sse m buf")
  case (Parsed r)
  then show ?thesis
    using request_sp.stable_Parsed [of sse m buf "fst r" "snd r" ext]
    by (cases r) (simp add: phr_parse_request_def entry_def)
next
  case Failed
  then show ?thesis
    using request_sp.stable_Failed [of sse m buf ext] by (simp add: phr_parse_request_def entry_def)
next
  case Incomplete
  with assms show ?thesis by (simp add: phr_parse_request_def entry_def)
next
  case Oob
  then show ?thesis using request_sp.safe by blast
qed

theorem phr_parse_request_stable_witness:
  "phr_parse_request False ([CHR 0x00] @ ''GET'') 100 0 = phr_parse_request False [CHR 0x00] 100 0"
proof -
  have "phr_parse_request False [CHR 0x00] 100 0 \<noteq> Incomplete" by code_simp
  then show ?thesis by (rule phr_parse_request_stable)
qed

text \<open>
  C9: round trip. Every well-formed request, rendered in canonical form and followed by any
  body, is parsed back to itself, and exactly the rendered bytes are consumed.
\<close>

theorem phr_parse_request_roundtrip:
  assumes "wf_request m r"
  shows "phr_parse_request sse (render_request r @ body) m 0 = Parsed (r, length (render_request r))"
  by (simp add: phr_parse_request_def entry_def parse_request_render [OF assms])

definition sample_request :: phr_request where
  "sample_request = \<lparr>rmethod = ''GET'', path = ''/html'', minor_version = 1,
     headers = [\<lparr>name = Some ''Host'', hvalue = ''a b''\<rparr>, \<lparr>name = None, hvalue = '' c''\<rparr>]\<rparr>"

theorem phr_parse_request_roundtrip_witness:
  "phr_parse_request False (render_request sample_request @ ''xyz'') 100 0 =
   Parsed (sample_request, length (render_request sample_request))"
proof -
  have "wf_request 100 sample_request" by code_simp
  then show ?thesis by (rule phr_parse_request_roundtrip)
qed

text \<open>
  C10: soundness of acceptance. An accepted request is well-formed (non-empty method and target
  without blanks and control bytes, header names of token characters, values without control
  bytes and trailing blanks, no more headers than the array holds), the consumed count lies in
  the buffer, and the rest of the buffer after the request is untouched: parsing the canonical
  rendering followed by that rest gives the same request.
\<close>

theorem phr_parse_request_sound:
  assumes "phr_parse_request sse buf m 0 = Parsed (r, n)"
  shows "wf_request m r \<and> n \<le> length buf \<and>
    phr_parse_request sse (render_request r @ drop n buf) m 0 = Parsed (r, length (render_request r))"
proof -
  from assms obtain rest where rest: "parse_request sse m buf = Parsed (r, rest)" "n = length buf - length rest"
    by (auto simp: phr_parse_request_def entry_def)
  then have wf: "wf_request m r" by (blast dest: parse_request_sound)
  then show ?thesis
    using rest(2) by (simp add: phr_parse_request_def entry_def parse_request_render)
qed

theorem phr_parse_request_sound_witness:
  "wf_request 100 sample_request \<and>
   length (render_request sample_request) \<le> length (render_request sample_request @ ''xyz'') \<and>
   phr_parse_request False (render_request sample_request @
     drop (length (render_request sample_request)) (render_request sample_request @ ''xyz'')) 100 0 =
   Parsed (sample_request, length (render_request sample_request))"
proof -
  have "wf_request 100 sample_request" by code_simp
  from parse_request_render [OF this, of False "''xyz''"] have
    "phr_parse_request False (render_request sample_request @ ''xyz'') 100 0 =
     Parsed (sample_request, length (render_request sample_request))"
    by (simp add: phr_parse_request_def entry_def)
  then show ?thesis by (rule phr_parse_request_sound)
qed

end
