(* ===== verification/Chunked.thy ===== *)
theory Chunked
  imports Prelude
begin

text \<open>
  The chunked-transfer decoder of \<^verbatim>\<open>httpparser/picohttpparser.cpp\<close>. \<open>phr_decode_chunked\<close> follows
  the code: positions \<^verbatim>\<open>src\<close> and \<^verbatim>\<open>dst\<close> in one buffer that is rewritten in place by
  \<^verbatim>\<open>memmove\<close>, a block of data at a time. Its specification \<open>decode_bytes\<close> is an automaton that
  reads one byte after the other and appends to an output; the refinement between them carries
  the properties of the automaton over to the code.
\<close>

datatype chunked_state =
    CHUNKED_IN_CHUNK_SIZE
  | CHUNKED_IN_CHUNK_EXT
  | CHUNKED_IN_CHUNK_DATA
  | CHUNKED_IN_CHUNK_CRLF
  | CHUNKED_IN_TRAILERS_LINE_HEAD
  | CHUNKED_IN_TRAILERS_LINE_MIDDLE

record phr_chunked_decoder =
  bytes_left_in_chunk :: size_t
  consume_trailer :: bool
  hex_count :: nat
  cstate :: chunked_state

definition decode_hex :: "char \<Rightarrow> int" where
  "decode_hex ch =
     (let c = int (byte_val ch)
      in if 48 \<le> c \<and> c \<le> 57 then c - 48
         else if 65 \<le> c \<and> c \<le> 70 then c - 65 + 10
         else if 97 \<le> c \<and> c \<le> 102 then c - 97 + 10
         else -1)"

text \<open>
  The scanning loops \<^verbatim>\<open>for (;; ++src)\<close>: \<open>seek stop buf src\<close> is the first position from \<open>src\<close>
  on that satisfies \<open>stop\<close>, or the end of the buffer (\<^verbatim>\<open>src == bufsz\<close>; \<^verbatim>\<open>src\<close> is never beyond).
\<close>

function seek :: "(char \<Rightarrow> bool) \<Rightarrow> bytes \<Rightarrow> nat \<Rightarrow> nat" where
  "seek stop buf src =
     (if length buf \<le> src then src
      else if stop (buf ! src) then src
      else seek stop buf (src + 1))"
  by pat_completeness auto
termination
  by (relation "measure (\<lambda>(stop, buf, src). length buf - src)") auto

declare seek.simps [simp del]

text \<open>The run of the decoder: its state, the buffer and the two positions.\<close>

record chunk_run =
  dec :: phr_chunked_decoder
  cbuf :: bytes
  csrc :: nat
  cdst :: nat

text \<open>How a case of the \<^verbatim>\<open>switch\<close> ends: on to the next state, or \<^verbatim>\<open>goto Exit\<close> / \<^verbatim>\<open>goto Complete\<close>.\<close>

datatype chunk_next = Go chunk_run | Exit int chunk_run | Complete chunk_run

function size_loop :: "chunk_run \<Rightarrow> chunk_next" where
  "size_loop s =
     (if length (cbuf s) \<le> csrc s then Exit (-2) s
      else let v = decode_hex (cbuf s ! csrc s); d = dec s
           in if v = -1 then
                (if hex_count d = 0 then Exit (-1) s
                 else Go (s\<lparr>dec := d\<lparr>hex_count := 0, cstate := CHUNKED_IN_CHUNK_EXT\<rparr>\<rparr>))
              else if hex_count d = 16 then Exit (-1) s
              else size_loop
                (s\<lparr>dec := d\<lparr>bytes_left_in_chunk := bytes_left_in_chunk d * 16 + of_int v,
                            hex_count := hex_count d + 1\<rparr>,
                   csrc := csrc s + 1\<rparr>))"
  by pat_completeness auto
termination
  by (relation "measure (\<lambda>s. length (cbuf s) - csrc s)") auto

declare size_loop.simps [simp del]

definition ext_case :: "chunk_run \<Rightarrow> chunk_next" where
  "ext_case s =
     (let src = seek (\<lambda>c. c = CHR 0x0A) (cbuf s) (csrc s); d = dec s
      in if length (cbuf s) \<le> src then Exit (-2) (s\<lparr>csrc := src\<rparr>)
         else if bytes_left_in_chunk d = 0 then
           (if consume_trailer d
            then Go (s\<lparr>csrc := src + 1, dec := d\<lparr>cstate := CHUNKED_IN_TRAILERS_LINE_HEAD\<rparr>\<rparr>)
            else Complete (s\<lparr>csrc := src + 1\<rparr>))
         else Go (s\<lparr>csrc := src + 1, dec := d\<lparr>cstate := CHUNKED_IN_CHUNK_DATA\<rparr>\<rparr>))"

definition data_case :: "chunk_run \<Rightarrow> chunk_next res" where
  "data_case s =
     (let d = dec s; avail = length (cbuf s) - csrc s; left = unat (bytes_left_in_chunk d)
      in if avail < left then
           bind_res (if cdst s \<noteq> csrc s then memmove (cbuf s) (cdst s) (csrc s) avail else Inr (cbuf s))
             (\<lambda>buf. Inr (Exit (-2)
                (s\<lparr>cbuf := buf, csrc := csrc s + avail, cdst := cdst s + avail,
                   dec := d\<lparr>bytes_left_in_chunk := bytes_left_in_chunk d - of_nat avail\<rparr>\<rparr>)))
         else
           bind_res (if cdst s \<noteq> csrc s then memmove (cbuf s) (cdst s) (csrc s) left else Inr (cbuf s))
             (\<lambda>buf. Inr (Go
                (s\<lparr>cbuf := buf, csrc := csrc s + left, cdst := cdst s + left,
                   dec := d\<lparr>bytes_left_in_chunk := 0, cstate := CHUNKED_IN_CHUNK_CRLF\<rparr>\<rparr>))))"

definition crlf_case :: "chunk_run \<Rightarrow> chunk_next" where
  "crlf_case s =
     (let src = seek (\<lambda>c. c \<noteq> CHR 0x0D) (cbuf s) (csrc s)
      in if length (cbuf s) \<le> src then Exit (-2) (s\<lparr>csrc := src\<rparr>)
         else if cbuf s ! src \<noteq> CHR 0x0A then Exit (-1) (s\<lparr>csrc := src\<rparr>)
         else Go (s\<lparr>csrc := src + 1, dec := (dec s)\<lparr>cstate := CHUNKED_IN_CHUNK_SIZE\<rparr>\<rparr>))"

definition head_case :: "chunk_run \<Rightarrow> chunk_next" where
  "head_case s =
     (let src = seek (\<lambda>c. c \<noteq> CHR 0x0D) (cbuf s) (csrc s)
      in if length (cbuf s) \<le> src then Exit (-2) (s\<lparr>csrc := src\<rparr>)
         else if cbuf s ! src = CHR 0x0A then Complete (s\<lparr>csrc := src + 1\<rparr>)
         else Go (s\<lparr>csrc := src + 1, dec := (dec s)\<lparr>cstate := CHUNKED_IN_TRAILERS_LINE_MIDDLE\<rparr>\<rparr>))"

definition middle_case :: "chunk_run \<Rightarrow> chunk_next" where
  "middle_case s =
     (let src = seek (\<lambda>c. c = CHR 0x0A) (cbuf s) (csrc s)
      in if length (cbuf s) \<le> src then Exit (-2) (s\<lparr>csrc := src\<rparr>)
         else Go (s\<lparr>csrc := src + 1, dec := (dec s)\<lparr>cstate := CHUNKED_IN_TRAILERS_LINE_HEAD\<rparr>\<rparr>))"

text \<open>
  The \<^verbatim>\<open>switch\<close>. Each case sets the state before it falls through or breaks, so falling through
  is entering the loop again with the new state.
\<close>

definition switch_case :: "chunk_run \<Rightarrow> chunk_next res" where
  "switch_case s =
     (case cstate (dec s) of
        CHUNKED_IN_CHUNK_SIZE \<Rightarrow> Inr (size_loop s)
      | CHUNKED_IN_CHUNK_EXT \<Rightarrow> Inr (ext_case s)
      | CHUNKED_IN_CHUNK_DATA \<Rightarrow> data_case s
      | CHUNKED_IN_CHUNK_CRLF \<Rightarrow> Inr (crlf_case s)
      | CHUNKED_IN_TRAILERS_LINE_HEAD \<Rightarrow> Inr (head_case s)
      | CHUNKED_IN_TRAILERS_LINE_MIDDLE \<Rightarrow> Inr (middle_case s))"

subsection \<open>Termination\<close>

definition state_rank :: "chunked_state \<Rightarrow> nat" where
  "state_rank st = (if st = CHUNKED_IN_CHUNK_SIZE \<or> st = CHUNKED_IN_CHUNK_DATA then 1 else 0)"

definition run_measure :: "chunk_run \<Rightarrow> nat" where
  "run_measure s = 2 * (length (cbuf s) - csrc s) + state_rank (cstate (dec s))"

lemma seek_ge: "src \<le> seek stop buf src"
  by (induction stop buf src rule: seek.induct) (subst seek.simps, force)

lemma seek_le: "src \<le> length buf \<Longrightarrow> seek stop buf src \<le> length buf"
  by (induction stop buf src rule: seek.induct) (subst seek.simps, force)

lemma memmove_length: "memmove buf dst src n = Inr buf' \<Longrightarrow> length buf' = length buf"
  by (auto simp: memmove_def bind_res_Inr_iff dest: mem_write_length)

lemma size_loop_Go:
  "size_loop s = Go s' \<Longrightarrow>
   csrc s \<le> csrc s' \<and> cbuf s' = cbuf s \<and> cdst s' = cdst s \<and> csrc s' < length (cbuf s') \<and>
   cstate (dec s') = CHUNKED_IN_CHUNK_EXT"
proof (induction s rule: size_loop.induct)
  case (1 s)
  note step = size_loop.simps [of s]
  show ?case
  proof (cases "length (cbuf s) \<le> csrc s")
    case True
    with "1.prems" step show ?thesis by simp
  next
    case in_buf: False
    show ?thesis
    proof (cases "decode_hex (cbuf s ! csrc s) = -1")
      case True
      with in_buf "1.prems" step show ?thesis by (auto simp: Let_def split: if_splits)
    next
      case False
      with in_buf "1.prems" step have "hex_count (dec s) \<noteq> 16"
        by (auto simp: Let_def split: if_splits)
      with in_buf False "1.IH" [OF in_buf refl refl False this] "1.prems" step show ?thesis
        by (auto simp: Let_def)
    qed
  qed
qed

lemma switch_case_measure:
  assumes "switch_case s = Inr (Go s')"
  shows "run_measure s' < run_measure s"
proof (cases "cstate (dec s)")
  case CHUNKED_IN_CHUNK_SIZE
  with assms have "size_loop s = Go s'" by (simp add: switch_case_def)
  from size_loop_Go [OF this] CHUNKED_IN_CHUNK_SIZE show ?thesis
    by (auto simp: run_measure_def state_rank_def)
next
  case CHUNKED_IN_CHUNK_EXT
  with assms seek_ge [of "csrc s" "\<lambda>c. c = CHR 0x0A" "cbuf s"] show ?thesis
    by (auto simp: switch_case_def ext_case_def run_measure_def state_rank_def Let_def split: if_splits)
next
  case CHUNKED_IN_CHUNK_DATA
  with assms show ?thesis
    by (auto simp: switch_case_def data_case_def run_measure_def state_rank_def Let_def
        bind_res_Inr_iff split: if_splits dest: memmove_length)
next
  case CHUNKED_IN_CHUNK_CRLF
  with assms seek_ge [of "csrc s" "\<lambda>c. c \<noteq> CHR 0x0D" "cbuf s"] show ?thesis
    by (auto simp: switch_case_def crlf_case_def run_measure_def state_rank_def Let_def split: if_splits)
next
  case CHUNKED_IN_TRAILERS_LINE_HEAD
  with assms seek_ge [of "csrc s" "\<lambda>c. c \<noteq> CHR 0x0D" "cbuf s"] show ?thesis
    by (auto simp: switch_case_def head_case_def run_measure_def state_rank_def Let_def split: if_splits)
next
  case CHUNKED_IN_TRAILERS_LINE_MIDDLE
  with assms seek_ge [of "csrc s" "\<lambda>c. c = CHR 0x0A" "cbuf s"] show ?thesis
    by (auto simp: switch_case_def middle_case_def run_measure_def state_rank_def Let_def split: if_splits)
qed

function decode_loop :: "chunk_run \<Rightarrow> (int \<times> chunk_run) res" where
  "decode_loop s =
     (case switch_case s of
        Inl e \<Rightarrow> Inl e
      | Inr (Go s') \<Rightarrow> decode_loop s'
      | Inr (Exit r s') \<Rightarrow> Inr (r, s')
      | Inr (Complete s') \<Rightarrow> Inr (int (length (cbuf s') - csrc s'), s'))"
  by pat_completeness auto
termination
  by (relation "measure run_measure") (auto intro: switch_case_measure)

declare decode_loop.simps [simp del]

text \<open>
  The function: \<open>buf\<close> holds the \<^verbatim>\<open>*bufsz\<close> bytes passed in. The result is the return value, the
  decoder, the rewritten buffer and the new \<^verbatim>\<open>*bufsz\<close>.
\<close>

definition phr_decode_chunked ::
  "phr_chunked_decoder \<Rightarrow> bytes \<Rightarrow> (int \<times> phr_chunked_decoder \<times> bytes \<times> nat) res" where
  "phr_decode_chunked d buf =
     bind_res (decode_loop \<lparr>dec = d, cbuf = buf, csrc = 0, cdst = 0\<rparr>) (\<lambda>(ret, s).
     bind_res (if cdst s \<noteq> csrc s
               then memmove (cbuf s) (cdst s) (csrc s) (length (cbuf s) - csrc s) else Inr (cbuf s))
       (\<lambda>b. Inr (ret, dec s, b, cdst s)))"

definition phr_decode_chunked_is_in_data :: "phr_chunked_decoder \<Rightarrow> bool" where
  "phr_decode_chunked_is_in_data d \<longleftrightarrow> cstate d = CHUNKED_IN_CHUNK_DATA"

subsection \<open>The specification: one byte at a time\<close>

datatype byte_step = Next phr_chunked_decoder bytes | Error | Done phr_chunked_decoder

definition ext_byte :: "phr_chunked_decoder \<Rightarrow> char \<Rightarrow> byte_step" where
  "ext_byte d c =
     (if c = CHR 0x0A then
        (if bytes_left_in_chunk d = 0 then
           (if consume_trailer d then Next (d\<lparr>cstate := CHUNKED_IN_TRAILERS_LINE_HEAD\<rparr>) []
            else Done d)
         else Next (d\<lparr>cstate := CHUNKED_IN_CHUNK_DATA\<rparr>) [])
      else Next d [])"

definition size_byte :: "phr_chunked_decoder \<Rightarrow> char \<Rightarrow> byte_step" where
  "size_byte d c =
     (let v = decode_hex c
      in if v = -1 then
           (if hex_count d = 0 then Error
            else ext_byte (d\<lparr>hex_count := 0, cstate := CHUNKED_IN_CHUNK_EXT\<rparr>) c)
         else if hex_count d = 16 then Error
         else Next (d\<lparr>bytes_left_in_chunk := bytes_left_in_chunk d * 16 + of_int v,
                       hex_count := hex_count d + 1\<rparr>) [])"

definition data_byte :: "phr_chunked_decoder \<Rightarrow> char \<Rightarrow> byte_step" where
  "data_byte d c =
     (if bytes_left_in_chunk d = 1
      then Next (d\<lparr>bytes_left_in_chunk := 0, cstate := CHUNKED_IN_CHUNK_CRLF\<rparr>) [c]
      else Next (d\<lparr>bytes_left_in_chunk := bytes_left_in_chunk d - 1\<rparr>) [c])"

definition byte_step :: "phr_chunked_decoder \<Rightarrow> char \<Rightarrow> byte_step" where
  "byte_step d c =
     (case cstate d of
        CHUNKED_IN_CHUNK_SIZE \<Rightarrow> size_byte d c
      | CHUNKED_IN_CHUNK_EXT \<Rightarrow> ext_byte d c
      | CHUNKED_IN_CHUNK_DATA \<Rightarrow> data_byte d c
      | CHUNKED_IN_CHUNK_CRLF \<Rightarrow>
          if c = CHR 0x0D then Next d []
          else if c = CHR 0x0A then Next (d\<lparr>cstate := CHUNKED_IN_CHUNK_SIZE\<rparr>) [] else Error
      | CHUNKED_IN_TRAILERS_LINE_HEAD \<Rightarrow>
          if c = CHR 0x0D then Next d []
          else if c = CHR 0x0A then Done d
          else Next (d\<lparr>cstate := CHUNKED_IN_TRAILERS_LINE_MIDDLE\<rparr>) []
      | CHUNKED_IN_TRAILERS_LINE_MIDDLE \<Rightarrow>
          if c = CHR 0x0A then Next (d\<lparr>cstate := CHUNKED_IN_TRAILERS_LINE_HEAD\<rparr>) [] else Next d [])"

text \<open>The result: return value, decoder, output, and the bytes not looked at.\<close>

fun decode_bytes ::
  "phr_chunked_decoder \<Rightarrow> bytes \<Rightarrow> bytes \<Rightarrow> int \<times> phr_chunked_decoder \<times> bytes \<times> bytes" where
  "decode_bytes d out [] = (-2, d, out, [])"
| "decode_bytes d out (c # cs) =
     (case byte_step d c of
        Error \<Rightarrow> (-1, d, out, c # cs)
      | Done d' \<Rightarrow> (int (length cs), d', out, cs)
      | Next d' ou \<Rightarrow> decode_bytes d' (out @ ou) cs)"

definition decoder_wf :: "phr_chunked_decoder \<Rightarrow> bool" where
  "decoder_wf d \<longleftrightarrow>
     (cstate d = CHUNKED_IN_CHUNK_DATA \<longrightarrow> bytes_left_in_chunk d \<noteq> 0) \<and>
     (cstate d = CHUNKED_IN_CHUNK_CRLF \<longrightarrow> bytes_left_in_chunk d = 0) \<and>
     (cstate d \<noteq> CHUNKED_IN_CHUNK_SIZE \<longrightarrow> hex_count d = 0) \<and>
     hex_count d \<le> 16 \<and>
     (cstate d = CHUNKED_IN_CHUNK_SIZE \<longrightarrow> unat (bytes_left_in_chunk d) < 16 ^ hex_count d)"

lemmas byte_step_defs = byte_step_def ext_byte_def size_byte_def data_byte_def

lemma decode_bytes_stay:
  "(\<And>c. c \<in> set pre \<Longrightarrow> byte_step d c = Next d []) \<Longrightarrow>
   decode_bytes d out (pre @ xs) = decode_bytes d out xs"
  by (induction pre) auto

lemma decode_bytes_data:
  "cstate d = CHUNKED_IN_CHUNK_DATA \<Longrightarrow> length xs \<le> unat (bytes_left_in_chunk d) \<Longrightarrow>
   bytes_left_in_chunk d \<noteq> 0 \<Longrightarrow>
   decode_bytes d out (xs @ ys) =
     decode_bytes
       (if length xs = unat (bytes_left_in_chunk d)
        then d\<lparr>bytes_left_in_chunk := 0, cstate := CHUNKED_IN_CHUNK_CRLF\<rparr>
        else d\<lparr>bytes_left_in_chunk := bytes_left_in_chunk d - of_nat (length xs)\<rparr>) (out @ xs) ys"
proof (induction xs arbitrary: d out)
  case Nil
  then show ?case by (auto simp: unat_eq_0)
next
  case (Cons x xs)
  let ?l = "bytes_left_in_chunk d"
  show ?case
  proof (cases "?l = 1")
    case True
    with Cons.prems show ?thesis by (simp add: byte_step_defs)
  next
    case False
    let ?d = "d\<lparr>bytes_left_in_chunk := ?l - 1\<rparr>"
    have u: "unat (?l - 1) = unat ?l - 1" using Cons.prems(3) by (simp add: unat_minus_one)
    have ne: "?l - 1 \<noteq> 0" using False by (simp add: diff_eq_eq)
    have "decode_bytes d out ((x # xs) @ ys) = decode_bytes ?d (out @ [x]) (xs @ ys)"
      using False Cons.prems by (simp add: byte_step_defs)
    also have "\<dots> = decode_bytes
       (if length xs = unat (?l - 1)
        then ?d\<lparr>bytes_left_in_chunk := 0, cstate := CHUNKED_IN_CHUNK_CRLF\<rparr>
        else ?d\<lparr>bytes_left_in_chunk := ?l - 1 - of_nat (length xs)\<rparr>) (out @ [x] @ xs) ys"
      using Cons.IH [of ?d "out @ [x]"] Cons.prems ne u by simp
    finally show ?thesis
      using u Cons.prems by (auto simp: diff_diff_eq)
  qed
qed

subsection \<open>Refinement\<close>

definition run_ok :: "chunk_run \<Rightarrow> bool" where
  "run_ok s \<longleftrightarrow> cdst s \<le> csrc s \<and> csrc s \<le> length (cbuf s) \<and> decoder_wf (dec s)"

definition run_out :: "chunk_run \<Rightarrow> bytes" where
  "run_out s = take (cdst s) (cbuf s)"

definition run_rest :: "chunk_run \<Rightarrow> bytes" where
  "run_rest s = drop (csrc s) (cbuf s)"

definition run_spec :: "chunk_run \<Rightarrow> int \<times> phr_chunked_decoder \<times> bytes \<times> bytes" where
  "run_spec s = decode_bytes (dec s) (run_out s) (run_rest s)"

fun simulates :: "chunk_run \<Rightarrow> chunk_next \<Rightarrow> bool" where
  "simulates s (Go s') \<longleftrightarrow> run_ok s' \<and> length (cbuf s') = length (cbuf s) \<and> run_spec s' = run_spec s"
| "simulates s (Exit r s') \<longleftrightarrow> run_ok s' \<and> length (cbuf s') = length (cbuf s) \<and>
     run_spec s = (r, dec s', run_out s', run_rest s')"
| "simulates s (Complete s') \<longleftrightarrow> run_ok s' \<and> length (cbuf s') = length (cbuf s) \<and>
     run_spec s = (int (length (run_rest s')), dec s', run_out s', run_rest s')"

lemmas run_defs = run_ok_def run_out_def run_rest_def run_spec_def

lemma seek_split:
  "src \<le> length buf \<Longrightarrow>
   \<exists>pre. drop src buf = pre @ drop (seek stop buf src) buf \<and> (\<forall>c \<in> set pre. \<not> stop c) \<and>
     (seek stop buf src < length buf \<longrightarrow> stop (buf ! seek stop buf src))"
proof (induction stop buf src rule: seek.induct)
  case (1 stop buf src)
  show ?case
  proof (cases "src < length buf \<and> \<not> stop (buf ! src)")
    case True
    with "1.IH" obtain pre where pre: "drop (src + 1) buf = pre @ drop (seek stop buf (src + 1)) buf"
      "\<forall>c \<in> set pre. \<not> stop c"
      "seek stop buf (src + 1) < length buf \<longrightarrow> stop (buf ! seek stop buf (src + 1))" by auto
    have "drop src buf = (buf ! src # pre) @ drop (seek stop buf (src + 1)) buf"
      using True pre(1) by (simp add: Cons_nth_drop_Suc [symmetric])
    with True pre(2,3) show ?thesis
      by (simp add: seek.simps [of stop buf src])
  next
    case False
    with "1.prems" show ?thesis by (auto simp: seek.simps [of stop buf src])
  qed
qed

lemma memmove_down:
  assumes "dst \<le> src" and "src + n \<le> length buf"
  obtains buf' where "memmove buf dst src n = Inr buf'" "length buf' = length buf"
    "take (dst + n) buf' = take dst buf @ take n (drop src buf)"
    "drop (src + n) buf' = drop (src + n) buf"
proof -
  let ?data = "take n (drop src buf)"
  have len: "length ?data = n" using assms(2) by simp
  obtain buf' where w: "mem_write buf dst ?data = Inr buf'"
    using mem_write_safe_iff [of buf dst ?data] assms len by auto
  have "drop (src + n) buf' = drop (src - dst) (drop (dst + n) buf')"
    using assms(1) by (simp add: add.commute add.left_commute)
  also have "\<dots> = drop (src - dst) (drop (dst + n) buf)" using mem_write_after [OF w] len by simp
  also have "\<dots> = drop (src + n) buf" using assms(1) by (simp add: add.commute add.left_commute)
  finally show thesis
    using that [of buf'] w mem_write_length [OF w] mem_write_prefix [OF w] assms(2) len
    by (simp add: memmove_def mem_read_def)
qed

lemma decode_hex_bounds: "decode_hex c \<noteq> -1 \<Longrightarrow> 0 \<le> decode_hex c \<and> decode_hex c < 16"
  by (auto simp: decode_hex_def Let_def split: if_splits)

text \<open>Sixteen digits at most: the multiplication by 16 cannot wrap around.\<close>

lemma size_step_exact:
  fixes l :: size_t
  assumes "unat l < 16 ^ h" and "h < 16" and "0 \<le> v" and "v < 16"
  shows "unat (l * 16 + of_int v) = unat l * 16 + nat v"
    and "unat (l * 16 + of_int v) < 16 ^ (h + 1)"
proof -
  have "(16 :: nat) ^ h \<le> 16 ^ 15" using assms(2) by (intro power_increasing) auto
  with assms(1) have l: "unat l < 16 ^ 15" by linarith
  have "(of_int v :: size_t) = of_nat (nat v)" using assms(3) by simp
  moreover have "nat v < 2 ^ 64" using assms(4) by simp
  ultimately have v: "unat (of_int v :: size_t) = nat v"
    by (simp only: unat_of_nat len_bit0 len_num1 take_bit_nat_eq_self) simp
  have "unat (l * 16) = unat l * 16"
    using l by (simp add: unat_word_ariths)
  then show eq: "unat (l * 16 + of_int v) = unat l * 16 + nat v"
    using l v assms(4) by (simp add: unat_word_ariths)
  have "unat l + 1 \<le> 16 ^ h" using assms(1) by simp
  then have "(unat l + 1) * 16 \<le> 16 ^ h * 16" by (rule mult_le_mono1)
  with eq assms(3,4) show "unat (l * 16 + of_int v) < 16 ^ (h + 1)" by simp
qed

lemma drop_nth_Cons: "i < length xs \<Longrightarrow> drop i xs = xs ! i # drop (Suc i) xs"
  by (simp add: Cons_nth_drop_Suc)

lemma ext_byte_not_Error [simp]: "ext_byte d c \<noteq> Error"
  by (simp add: ext_byte_def)

lemma size_loop_simulates:
  "run_ok s \<Longrightarrow> cstate (dec s) = CHUNKED_IN_CHUNK_SIZE \<Longrightarrow> simulates s (size_loop s)"
proof (induction s rule: size_loop.induct)
  case (1 s)
  note step = size_loop.simps [of s]
  let ?d = "dec s" and ?c = "cbuf s ! csrc s"
  show ?case
  proof (cases "length (cbuf s) \<le> csrc s")
    case True
    with "1.prems" step show ?thesis by (auto simp: run_defs)
  next
    case in_buf: False
    then have rest: "run_rest s = ?c # drop (Suc (csrc s)) (cbuf s)"
      by (simp add: run_rest_def drop_nth_Cons)
    show ?thesis
    proof (cases "decode_hex ?c = -1")
      case True
      let ?d' = "?d\<lparr>hex_count := 0, cstate := CHUNKED_IN_CHUNK_EXT\<rparr>"
      have "run_spec (s\<lparr>dec := ?d'\<rparr>) = run_spec s" if "hex_count ?d \<noteq> 0"
        using rest that True "1.prems"(2)
        by (simp add: run_defs byte_step_def size_byte_def split: byte_step.split)
      moreover have "run_ok (s\<lparr>dec := ?d'\<rparr>)"
        using "1.prems" by (simp add: run_ok_def decoder_wf_def)
      moreover have "run_spec s = (-1, ?d, run_out s, run_rest s)" if "hex_count ?d = 0"
        using rest that True "1.prems"(2) by (simp add: run_spec_def byte_step_def size_byte_def)
      ultimately show ?thesis
        using True in_buf "1.prems" step by (auto simp: Let_def)
    next
      case False
      note v = decode_hex_bounds [OF False]
      show ?thesis
      proof (cases "hex_count ?d = 16")
        case True
        then have "run_spec s = (-1, ?d, run_out s, run_rest s)"
          using rest False "1.prems"(2) by (simp add: run_spec_def byte_step_def size_byte_def)
        with True False in_buf "1.prems" step show ?thesis by (simp add: Let_def)
      next
        case hex: False
        let ?d' = "?d\<lparr>bytes_left_in_chunk := bytes_left_in_chunk ?d * 16 + of_int (decode_hex ?c),
                       hex_count := hex_count ?d + 1\<rparr>"
        let ?s' = "s\<lparr>dec := ?d', csrc := csrc s + 1\<rparr>"
        have ok: "run_ok ?s'"
          using "1.prems" in_buf v hex
            size_step_exact(2) [of "bytes_left_in_chunk ?d" "hex_count ?d" "decode_hex ?c"]
          by (auto simp: run_ok_def decoder_wf_def)
        have "run_spec ?s' = run_spec s"
          using rest hex False "1.prems"(2) by (simp add: run_defs byte_step_def size_byte_def)
        moreover have "simulates ?s' (size_loop ?s')"
          using "1.IH" [OF in_buf refl refl False hex] ok "1.prems"(2) by simp
        moreover have "size_loop s = size_loop ?s'"
          using step in_buf False hex by (simp add: Let_def)
        ultimately show ?thesis by (cases "size_loop ?s'") simp_all
      qed
    qed
  qed
qed

lemma seek_spec:
  assumes "run_ok s" and "src = seek stop (cbuf s) (csrc s)"
    and "\<And>c. \<not> stop c \<Longrightarrow> byte_step (dec s) c = Next (dec s) []"
  shows "run_spec s = decode_bytes (dec s) (run_out s) (drop src (cbuf s))"
    and "csrc s \<le> src" and "src \<le> length (cbuf s)"
    and "src < length (cbuf s) \<Longrightarrow> stop (cbuf s ! src)"
proof -
  obtain pre where pre: "run_rest s = pre @ drop src (cbuf s)" "\<forall>c \<in> set pre. \<not> stop c"
    and hit: "src < length (cbuf s) \<longrightarrow> stop (cbuf s ! src)"
    using seek_split [of "csrc s" "cbuf s" stop] assms(1,2) by (auto simp: run_defs)
  show "run_spec s = decode_bytes (dec s) (run_out s) (drop src (cbuf s))"
    unfolding run_spec_def pre(1) by (rule decode_bytes_stay) (use pre(2) assms(3) in blast)
  show "csrc s \<le> src" "src \<le> length (cbuf s)"
    using seek_ge [of "csrc s" stop "cbuf s"] seek_le [of "csrc s" "cbuf s" stop] assms(1,2)
    by (auto simp: run_ok_def)
  show "src < length (cbuf s) \<Longrightarrow> stop (cbuf s ! src)" using hit by blast
qed

text \<open>
  The cases that scan for a byte: what the automaton does at that byte decides.
\<close>

lemma seek_case_simulates:
  assumes "run_ok s" and src: "src = seek stop (cbuf s) (csrc s)"
    and stay: "\<And>c. \<not> stop c \<Longrightarrow> byte_step (dec s) c = Next (dec s) []"
  shows "length (cbuf s) \<le> src \<Longrightarrow> simulates s (Exit (-2) (s\<lparr>csrc := src\<rparr>))"
    and "src < length (cbuf s) \<Longrightarrow> byte_step (dec s) (cbuf s ! src) = Next d' [] \<Longrightarrow> decoder_wf d' \<Longrightarrow>
      simulates s (Go (s\<lparr>csrc := Suc src, dec := d'\<rparr>))"
    and "src < length (cbuf s) \<Longrightarrow> byte_step (dec s) (cbuf s ! src) = Done (dec s) \<Longrightarrow>
      simulates s (Complete (s\<lparr>csrc := Suc src\<rparr>))"
    and "src < length (cbuf s) \<Longrightarrow> byte_step (dec s) (cbuf s ! src) = Error \<Longrightarrow>
      simulates s (Exit (-1) (s\<lparr>csrc := src\<rparr>))"
proof -
  note sp = seek_spec [OF assms]
  note ok = assms(1)
  show "simulates s (Exit (-2) (s\<lparr>csrc := src\<rparr>))" if "length (cbuf s) \<le> src"
    using that sp(1-3) ok by (auto simp: run_ok_def run_out_def run_rest_def)
  assume lt: "src < length (cbuf s)"
  note hd = drop_nth_Cons [OF lt]
  show "simulates s (Go (s\<lparr>csrc := Suc src, dec := d'\<rparr>))"
    if "byte_step (dec s) (cbuf s ! src) = Next d' []" "decoder_wf d'"
    using that sp(1-3) ok lt hd by (auto simp: run_ok_def run_out_def run_rest_def) (simp add: run_defs)
  show "simulates s (Complete (s\<lparr>csrc := Suc src\<rparr>))"
    if "byte_step (dec s) (cbuf s ! src) = Done (dec s)"
    using that sp(1-3) ok lt hd by (auto simp: run_ok_def run_out_def run_rest_def)
  show "simulates s (Exit (-1) (s\<lparr>csrc := src\<rparr>))"
    if "byte_step (dec s) (cbuf s ! src) = Error"
    using that sp(1-3) ok lt hd by (auto simp: run_ok_def run_out_def run_rest_def)
qed

lemma ext_case_simulates:
  assumes ok: "run_ok s" and st: "cstate (dec s) = CHUNKED_IN_CHUNK_EXT"
  shows "simulates s (ext_case s)"
proof -
  define src where "src = seek (\<lambda>c. c = CHR 0x0A) (cbuf s) (csrc s)"
  have stay: "\<And>c. c \<noteq> CHR 0x0A \<Longrightarrow> byte_step (dec s) c = Next (dec s) []"
    using st by (simp add: byte_step_defs)
  note sim = seek_case_simulates [OF ok src_def stay]
  have hit: "src < length (cbuf s) \<Longrightarrow> cbuf s ! src = CHR 0x0A"
    using seek_spec(4) [OF ok src_def stay] by simp
  have wf: "decoder_wf (dec s)" "hex_count (dec s) = 0"
    using ok st by (auto simp: run_ok_def decoder_wf_def)
  show ?thesis
    unfolding ext_case_def src_def [symmetric] Let_def
    using st hit wf
    by (auto simp: byte_step_defs decoder_wf_def simp del: simulates.simps intro!: sim)
qed

lemma crlf_case_simulates:
  assumes ok: "run_ok s" and st: "cstate (dec s) = CHUNKED_IN_CHUNK_CRLF"
  shows "simulates s (crlf_case s)"
proof -
  define src where "src = seek (\<lambda>c. c \<noteq> CHR 0x0D) (cbuf s) (csrc s)"
  have stay: "\<And>c. \<not> c \<noteq> CHR 0x0D \<Longrightarrow> byte_step (dec s) c = Next (dec s) []"
    using st by (simp add: byte_step_defs)
  note sim = seek_case_simulates [OF ok src_def stay]
  have hit: "src < length (cbuf s) \<Longrightarrow> cbuf s ! src \<noteq> CHR 0x0D"
    using seek_spec(4) [OF ok src_def stay] by simp
  have wf: "hex_count (dec s) = 0" "bytes_left_in_chunk (dec s) = 0"
    using ok st by (auto simp: run_ok_def decoder_wf_def)
  show ?thesis
    unfolding crlf_case_def src_def [symmetric] Let_def
    using st hit wf
    by (auto simp: byte_step_defs decoder_wf_def simp del: simulates.simps intro!: sim)
qed

lemma head_case_simulates:
  assumes ok: "run_ok s" and st: "cstate (dec s) = CHUNKED_IN_TRAILERS_LINE_HEAD"
  shows "simulates s (head_case s)"
proof -
  define src where "src = seek (\<lambda>c. c \<noteq> CHR 0x0D) (cbuf s) (csrc s)"
  have stay: "\<And>c. \<not> c \<noteq> CHR 0x0D \<Longrightarrow> byte_step (dec s) c = Next (dec s) []"
    using st by (simp add: byte_step_defs)
  note sim = seek_case_simulates [OF ok src_def stay]
  have hit: "src < length (cbuf s) \<Longrightarrow> cbuf s ! src \<noteq> CHR 0x0D"
    using seek_spec(4) [OF ok src_def stay] by simp
  have wf: "hex_count (dec s) = 0" using ok st by (auto simp: run_ok_def decoder_wf_def)
  show ?thesis
    unfolding head_case_def src_def [symmetric] Let_def
    using st hit wf
    by (auto simp: byte_step_defs decoder_wf_def simp del: simulates.simps intro!: sim)
qed

lemma middle_case_simulates:
  assumes ok: "run_ok s" and st: "cstate (dec s) = CHUNKED_IN_TRAILERS_LINE_MIDDLE"
  shows "simulates s (middle_case s)"
proof -
  define src where "src = seek (\<lambda>c. c = CHR 0x0A) (cbuf s) (csrc s)"
  have stay: "\<And>c. c \<noteq> CHR 0x0A \<Longrightarrow> byte_step (dec s) c = Next (dec s) []"
    using st by (simp add: byte_step_defs)
  note sim = seek_case_simulates [OF ok src_def stay]
  have hit: "src < length (cbuf s) \<Longrightarrow> cbuf s ! src = CHR 0x0A"
    using seek_spec(4) [OF ok src_def stay] by simp
  have wf: "hex_count (dec s) = 0" using ok st by (auto simp: run_ok_def decoder_wf_def)
  show ?thesis
    unfolding middle_case_def src_def [symmetric] Let_def
    using st hit wf
    by (auto simp: byte_step_defs decoder_wf_def simp del: simulates.simps intro!: sim)
qed

lemma data_case_simulates:
  assumes ok: "run_ok s" and st: "cstate (dec s) = CHUNKED_IN_CHUNK_DATA"
  shows "\<exists>n. data_case s = Inr n \<and> simulates s n"
proof -
  let ?d = "dec s" and ?left = "unat (bytes_left_in_chunk (dec s))"
  define n where "n = min (length (cbuf s) - csrc s) ?left"
  have wf: "cdst s \<le> csrc s" "csrc s \<le> length (cbuf s)" "bytes_left_in_chunk ?d \<noteq> 0"
    "hex_count ?d = 0" using ok st by (auto simp: run_ok_def decoder_wf_def)
  then have bound: "csrc s + n \<le> length (cbuf s)" by (simp add: n_def)
  let ?mv = "if cdst s \<noteq> csrc s then memmove (cbuf s) (cdst s) (csrc s) n else Inr (cbuf s)"
  obtain b where b: "?mv = Inr b" "length b = length (cbuf s)"
    "take (cdst s + n) b = run_out s @ take n (run_rest s)" "drop (csrc s + n) b = drop (csrc s + n) (cbuf s)"
  proof (cases "cdst s = csrc s")
    case True
    then show thesis using that [of "cbuf s"] by (simp add: run_out_def run_rest_def take_add)
  next
    case False
    then show thesis
      using memmove_down [OF wf(1) bound] that by (auto simp: run_out_def run_rest_def)
  qed
  have rest: "run_rest s = take n (run_rest s) @ drop (csrc s + n) b"
    using append_take_drop_id [of n "run_rest s"] b(4) by (simp add: run_rest_def add.commute)
  have len: "length (take n (run_rest s)) = n" using bound by (simp add: run_rest_def)
  have spec: "run_spec s = decode_bytes
     (if n = ?left then ?d\<lparr>bytes_left_in_chunk := 0, cstate := CHUNKED_IN_CHUNK_CRLF\<rparr>
      else ?d\<lparr>bytes_left_in_chunk := bytes_left_in_chunk ?d - of_nat n\<rparr>)
     (take (cdst s + n) b) (drop (csrc s + n) b)"
    using decode_bytes_data [OF st, of "take n (run_rest s)" "run_out s" "drop (csrc s + n) b"]
      rest len wf(3) b(3) unfolding run_spec_def by (simp add: n_def)
  show ?thesis
  proof (cases "length (cbuf s) - csrc s < ?left")
    case True
    then have n: "n = length (cbuf s) - csrc s" "n < ?left" by (auto simp: n_def)
    have "bytes_left_in_chunk ?d - of_nat n \<noteq> 0"
    proof
      assume "bytes_left_in_chunk ?d - of_nat n = 0"
      then have "?left = unat (of_nat n :: size_t)" by (simp add: diff_eq_eq)
      also have "\<dots> = n" using n(2) unsigned_less [of "bytes_left_in_chunk ?d", where ?'a = nat]
        by (simp add: unat_of_nat take_bit_nat_eq_self)
      finally show False using n(2) by simp
    qed
    with True n b spec wf bound st show ?thesis
      by (auto simp: data_case_def Let_def run_ok_def run_out_def run_rest_def decoder_wf_def)
  next
    case False
    then have "n = ?left" by (simp add: n_def)
    with False b spec wf bound show ?thesis
      by (auto simp: data_case_def Let_def run_defs decoder_wf_def)
  qed
qed

lemma switch_case_simulates:
  assumes "run_ok s"
  shows "\<exists>n. switch_case s = Inr n \<and> simulates s n"
  using assms size_loop_simulates ext_case_simulates data_case_simulates crlf_case_simulates
    head_case_simulates middle_case_simulates
  by (cases "cstate (dec s)") (simp_all add: switch_case_def)

lemma decode_loop_refines:
  "run_ok s \<Longrightarrow>
   \<exists>r s'. decode_loop s = Inr (r, s') \<and> run_ok s' \<and> length (cbuf s') = length (cbuf s) \<and>
     run_spec s = (r, dec s', run_out s', run_rest s')"
proof (induction s rule: decode_loop.induct)
  case (1 s)
  from switch_case_simulates [OF "1.prems"] obtain n where n: "switch_case s = Inr n" "simulates s n"
    by blast
  show ?case
  proof (cases n)
    case (Go s')
    with n "1.IH" [OF n(1) Go] show ?thesis by (auto simp: decode_loop.simps [of s])
  next
    case (Exit r s')
    with n show ?thesis by (simp add: decode_loop.simps [of s])
  next
    case (Complete s')
    with n show ?thesis by (simp add: decode_loop.simps [of s] run_rest_def)
  qed
qed

lemma phr_decode_chunked_refines:
  assumes "decoder_wf d"
  shows "\<exists>ret d' buf' n rest.
     phr_decode_chunked d buf = Inr (ret, d', buf', n) \<and>
     decode_bytes d [] buf = (ret, d', take n buf', rest) \<and>
     rest = take (length rest) (drop n buf') \<and> decoder_wf d' \<and>
     length buf' = length buf \<and> n + length rest \<le> length buf"
proof -
  let ?s = "\<lparr>dec = d, cbuf = buf, csrc = 0, cdst = 0\<rparr>"
  have "run_ok ?s" using assms by (simp add: run_ok_def)
  from decode_loop_refines [OF this] obtain r s where s: "decode_loop ?s = Inr (r, s)" "run_ok s"
    "length (cbuf s) = length buf" "run_spec ?s = (r, dec s, run_out s, run_rest s)" by auto
  define k where "k = length (cbuf s) - csrc s"
  have wf: "cdst s \<le> csrc s" "csrc s + k \<le> length (cbuf s)" "length (run_rest s) = k" "decoder_wf (dec s)"
    using s(2) by (auto simp: run_ok_def k_def run_rest_def)
  let ?mv = "if cdst s \<noteq> csrc s then memmove (cbuf s) (cdst s) (csrc s) k else Inr (cbuf s)"
  obtain b where b: "?mv = Inr b" "length b = length (cbuf s)"
    "take (cdst s + k) b = run_out s @ take k (run_rest s)"
  proof (cases "cdst s = csrc s")
    case True
    then show thesis using that [of "cbuf s"] by (simp add: run_out_def run_rest_def take_add)
  next
    case False
    then show thesis
      using memmove_down [OF wf(1,2)] that by (auto simp: run_out_def run_rest_def)
  qed
  have out: "take (cdst s) b = run_out s"
  proof -
    have "take (cdst s) b = take (cdst s) (take (cdst s + k) b)" by simp
    also have "\<dots> = run_out s" using wf by (simp add: b(3) run_out_def)
    finally show ?thesis .
  qed
  have rest: "take k (drop (cdst s) b) = run_rest s"
  proof -
    have "take k (drop (cdst s) b) = drop (cdst s) (take (cdst s + k) b)" by (simp add: drop_take)
    also have "\<dots> = run_rest s" using wf by (simp add: b(3) run_out_def)
    finally show ?thesis .
  qed
  have "decode_bytes d [] buf = (r, dec s, take (cdst s) b, run_rest s)"
    using s(4) out by (simp add: run_spec_def run_out_def run_rest_def)
  moreover have "phr_decode_chunked d buf = Inr (r, dec s, b, cdst s)"
    using s(1) b(1) by (auto simp: phr_decode_chunked_def k_def split: if_splits)
  ultimately show ?thesis
    using rest wf s(3) b(2) by auto
qed

subsection \<open>Decoding in pieces, and the encoding\<close>

lemma decode_bytes_out:
  "decode_bytes d (out0 @ out) xs =
     (let (r, d', o', rest) = decode_bytes d out xs in (r, d', out0 @ o', rest))"
  by (induction d out xs rule: decode_bytes.induct) (auto split: byte_step.split)

lemma decode_bytes_append:
  "decode_bytes d out xs = (-2, d', out', rest) \<Longrightarrow>
   rest = [] \<and> decode_bytes d out (xs @ ys) = decode_bytes d' out' ys"
  by (induction d out xs rule: decode_bytes.induct) (auto split: byte_step.splits)

definition hex_char :: "nat \<Rightarrow> char" where
  "hex_char n = (if n < 10 then char_of (48 + n) else char_of (87 + n))"

fun to_hex :: "nat \<Rightarrow> bytes" where
  "to_hex n = (if n < 16 then [hex_char n] else to_hex (n div 16) @ [hex_char (n mod 16)])"

declare to_hex.simps [simp del]

definition encode_chunk :: "bytes \<Rightarrow> bytes" where
  "encode_chunk data = to_hex (length data) @ [CHR 0x0D, CHR 0x0A] @ data @ [CHR 0x0D, CHR 0x0A]"

text \<open>With \<open>trailer\<close>, the empty trailer section that ends the message belongs to the encoding.\<close>

definition encode_chunked :: "bool \<Rightarrow> bytes list \<Rightarrow> bytes" where
  "encode_chunked trailer chunks =
     concat (map encode_chunk chunks) @ [CHR ''0'', CHR 0x0D, CHR 0x0A] @
     (if trailer then [CHR 0x0D, CHR 0x0A] else [])"

text \<open>A zero-filled decoder, as the interface asks for.\<close>

definition fresh_decoder :: "bool \<Rightarrow> phr_chunked_decoder" where
  "fresh_decoder trailer = \<lparr>bytes_left_in_chunk = 0, consume_trailer = trailer, hex_count = 0,
     cstate = CHUNKED_IN_CHUNK_SIZE\<rparr>"

lemma fresh_decoder_wf: "decoder_wf (fresh_decoder t)"
  by (simp add: fresh_decoder_def decoder_wf_def)

lemma decode_hex_char: "n < 16 \<Longrightarrow> decode_hex (hex_char n) = int n"
  by (auto simp: decode_hex_def hex_char_def byte_val_def of_char_of Let_def)

lemma to_hex_length: "n < 16 ^ k \<Longrightarrow> 0 < k \<Longrightarrow> length (to_hex n) \<le> k"
proof (induction n arbitrary: k rule: to_hex.induct)
  case (1 n)
  show ?case
  proof (cases "n < 16")
    case True
    with "1.prems" show ?thesis by (simp add: to_hex.simps [of n])
  next
    case False
    obtain k' where k': "k = Suc k'" using "1.prems" by (cases k) auto
    moreover have "0 < k'" using False "1.prems"(1) k' by (cases k') auto
    ultimately have k: "k = Suc k'" "0 < k'" by auto
    with "1.prems" have "n div 16 < 16 ^ k'" by (simp add: less_mult_imp_div_less mult.commute)
    with "1.IH" [OF False, of k'] k False show ?thesis by (simp add: to_hex.simps [of n])
  qed
qed

lemma decode_to_hex:
  "n < 2 ^ 64 \<Longrightarrow> cstate d = CHUNKED_IN_CHUNK_SIZE \<Longrightarrow> bytes_left_in_chunk d = 0 \<Longrightarrow> hex_count d = 0 \<Longrightarrow>
   decode_bytes d out (to_hex n @ rest) =
     decode_bytes (d\<lparr>bytes_left_in_chunk := of_nat n, hex_count := length (to_hex n)\<rparr>) out rest"
proof (induction n arbitrary: rest rule: to_hex.induct)
  case (1 n)
  show ?case
  proof (cases "n < 16")
    case True
    with "1.prems" show ?thesis
      by (simp add: to_hex.simps [of n] byte_step_def size_byte_def decode_hex_char)
  next
    case False
    let ?q = "n div 16" and ?r = "n mod 16"
    have q: "?q < 2 ^ 64" using "1.prems"(1) by auto
    have "?q < 16 ^ 15" using "1.prems"(1) by (simp add: less_mult_imp_div_less)
    then have len: "length (to_hex ?q) \<le> 15" by (rule to_hex_length) simp
    have split: "(of_nat ?q * 16 + of_int (int ?r) :: size_t) = of_nat n"
    proof -
      have "(of_nat ?q * 16 + of_int (int ?r) :: size_t) = of_nat (?q * 16 + ?r)"
        unfolding of_nat_add of_nat_mult by simp
      then show ?thesis by (simp only: div_mult_mod_eq)
    qed
    have "decode_bytes d out (to_hex n @ rest) = decode_bytes d out (to_hex ?q @ hex_char ?r # rest)"
      using False by (simp add: to_hex.simps [of n])
    also have "\<dots> = decode_bytes (d\<lparr>bytes_left_in_chunk := of_nat ?q, hex_count := length (to_hex ?q)\<rparr>)
        out (hex_char ?r # rest)"
      using "1.IH" [OF False q "1.prems"(2-4)] by simp
    also have "\<dots> = decode_bytes (d\<lparr>bytes_left_in_chunk := of_nat n, hex_count := length (to_hex n)\<rparr>) out rest"
      using len False "1.prems"(2) split
      by (simp add: byte_step_def size_byte_def decode_hex_char to_hex.simps [of n])
    finally show ?thesis .
  qed
qed

lemma to_hex_nonempty: "0 < length (to_hex n)"
  by (subst to_hex.simps) simp

lemma decode_hex_CR [simp]: "decode_hex (CHR 0x0D) = -1"
  by (simp add: decode_hex_def byte_val_def)

lemma decode_chunk:
  assumes "data \<noteq> []" and "length data < 2 ^ 64"
  shows "decode_bytes (fresh_decoder t) out (encode_chunk data @ rest) =
         decode_bytes (fresh_decoder t) (out @ data) rest"
proof -
  let ?d = "fresh_decoder t"
  have u: "unat (of_nat (length data) :: size_t) = length data"
    using assms(2) by (simp add: unat_of_nat take_bit_nat_eq_self)
  then have ne: "(of_nat (length data) :: size_t) \<noteq> 0"
    using assms(1) by (metis length_0_conv unat_0)
  let ?e = "?d\<lparr>bytes_left_in_chunk := of_nat (length data), cstate := CHUNKED_IN_CHUNK_DATA\<rparr>"
  have "decode_bytes ?d out (encode_chunk data @ rest) =
      decode_bytes ?e out (data @ CHR 0x0D # CHR 0x0A # rest)"
    using decode_to_hex [OF assms(2), of ?d] to_hex_nonempty [of "length data"] ne
    by (simp add: encode_chunk_def fresh_decoder_def byte_step_defs)
  also have "\<dots> = decode_bytes (?e\<lparr>bytes_left_in_chunk := 0, cstate := CHUNKED_IN_CHUNK_CRLF\<rparr>)
      (out @ data) (CHR 0x0D # CHR 0x0A # rest)"
    using decode_bytes_data [of ?e data] u ne by simp
  also have "\<dots> = decode_bytes ?d (out @ data) rest"
    by (simp add: byte_step_def fresh_decoder_def)
  finally show ?thesis .
qed

lemma decode_encoded:
  "\<forall>c \<in> set chunks. c \<noteq> [] \<and> length c < 2 ^ 64 \<Longrightarrow>
   \<exists>d'. decode_bytes (fresh_decoder t) out (encode_chunked t chunks @ rest) =
     (int (length rest), d', out @ concat chunks, rest)"
proof (induction chunks arbitrary: out)
  case Nil
  have "decode_hex CHR ''0'' = 0" by (simp add: decode_hex_def byte_val_def)
  then show ?case by (simp add: encode_chunked_def fresh_decoder_def byte_step_defs)
next
  case (Cons c cs)
  then have "decode_bytes (fresh_decoder t) out (encode_chunked t (c # cs) @ rest) =
      decode_bytes (fresh_decoder t) (out @ c) (encode_chunked t cs @ rest)"
    by (simp add: encode_chunked_def decode_chunk)
  with Cons.IH [of "out @ c"] Cons.prems show ?case by auto
qed

subsection \<open>The properties of the decoder\<close>

text \<open>
  C13: the in-place decoder refines the byte-wise automaton. From every decoder state that calls
  can produce, \<^verbatim>\<open>phr_decode_chunked\<close> terminates without touching memory outside the buffer, its
  return value and new state are those of the automaton, the first \<^verbatim>\<open>*bufsz\<close> bytes of the buffer
  are the decoded data and the undecoded bytes follow them; the new state is again a valid one.
\<close>

theorem phr_decode_chunked_refinement:
  assumes "decoder_wf d"
  shows "\<exists>ret d' buf' n rest.
     phr_decode_chunked d buf = Inr (ret, d', buf', n) \<and>
     decode_bytes d [] buf = (ret, d', take n buf', rest) \<and>
     rest = take (length rest) (drop n buf') \<and> decoder_wf d' \<and>
     length buf' = length buf \<and> n + length rest \<le> length buf"
  using assms by (rule phr_decode_chunked_refines)

theorem phr_decode_chunked_refinement_witness:
  "\<exists>ret d' buf' n rest.
     phr_decode_chunked (fresh_decoder True) ''3'' = Inr (ret, d', buf', n) \<and>
     decode_bytes (fresh_decoder True) [] ''3'' = (ret, d', take n buf', rest) \<and>
     rest = take (length rest) (drop n buf') \<and> decoder_wf d' \<and>
     length buf' = length ''3'' \<and> n + length rest \<le> length ''3''"
  using phr_decode_chunked_refinement [of "fresh_decoder True" "''3''"]
  by (simp add: fresh_decoder_def decoder_wf_def)

text \<open>
  C14: decoding does not depend on how the network splits the data. When a first call consumed
  its buffer and asked for more, decoding the next buffer continues exactly as one call on the
  concatenation would have: same return value, same state, and the outputs concatenate.
\<close>

theorem phr_decode_chunked_incremental:
  assumes "decoder_wf d"
    and "phr_decode_chunked d xs = Inr (-2, d1, b1, n1)"
    and "phr_decode_chunked d1 ys = Inr (r, d2, b2, n2)"
  shows "\<exists>b n. phr_decode_chunked d (xs @ ys) = Inr (r, d2, b, n) \<and>
    take n b = take n1 b1 @ take n2 b2"
proof -
  from phr_decode_chunked_refines [OF assms(1), of xs] assms(2) obtain rest where
    x: "decode_bytes d [] xs = (-2, d1, take n1 b1, rest)" and wf1: "decoder_wf d1" by auto
  from phr_decode_chunked_refines [OF wf1, of ys] assms(3) obtain rest' where
    y: "decode_bytes d1 [] ys = (r, d2, take n2 b2, rest')" by auto
  have "decode_bytes d [] (xs @ ys) = (r, d2, take n1 b1 @ take n2 b2, rest')"
    using decode_bytes_append [OF x, of ys] decode_bytes_out [of d1 "take n1 b1" "[]" ys] y by simp
  with phr_decode_chunked_refines [OF assms(1), of "xs @ ys"] show ?thesis by auto
qed

theorem phr_decode_chunked_incremental_witness:
  "\<exists>b n. phr_decode_chunked (fresh_decoder False) (''3'' @ ''z'') =
      Inr (-2, (fresh_decoder False)\<lparr>bytes_left_in_chunk := 3, cstate := CHUNKED_IN_CHUNK_EXT\<rparr>, b, n) \<and>
    take n b = take 0 ''3'' @ take 0 ''z''"
proof (rule phr_decode_chunked_incremental)
  show "decoder_wf (fresh_decoder False)" by (rule fresh_decoder_wf)
  show "phr_decode_chunked (fresh_decoder False) ''3'' =
      Inr (-2, (fresh_decoder False)\<lparr>bytes_left_in_chunk := 3, hex_count := 1\<rparr>, ''3'', 0)"
    by code_simp
  show "phr_decode_chunked ((fresh_decoder False)\<lparr>bytes_left_in_chunk := 3, hex_count := 1\<rparr>) ''z'' =
      Inr (-2, (fresh_decoder False)\<lparr>bytes_left_in_chunk := 3, cstate := CHUNKED_IN_CHUNK_EXT\<rparr>, ''z'', 0)"
    by code_simp
qed

text \<open>
  C15: round trip. A sequence of non-empty chunks in chunked encoding, followed by anything, is
  decoded to the concatenation of the chunks; the return value is the number of bytes left over
  and those bytes stand right behind the decoded data.
\<close>

theorem phr_decode_chunked_roundtrip:
  assumes "\<forall>c \<in> set chunks. c \<noteq> [] \<and> length c < 2 ^ 64"
  shows "\<exists>d' b n. phr_decode_chunked (fresh_decoder t) (encode_chunked t chunks @ rest) =
      Inr (int (length rest), d', b, n) \<and>
    take n b = concat chunks \<and> take (length rest) (drop n b) = rest"
proof -
  from decode_encoded [OF assms, of t "[]" rest] obtain d' where
    "decode_bytes (fresh_decoder t) [] (encode_chunked t chunks @ rest) =
      (int (length rest), d', concat chunks, rest)" by auto
  with phr_decode_chunked_refines [OF fresh_decoder_wf, of t "encode_chunked t chunks @ rest"]
  show ?thesis by auto
qed

theorem phr_decode_chunked_roundtrip_witness:
  "\<exists>d' b n. phr_decode_chunked (fresh_decoder True) (encode_chunked True [''hello'', ''x''] @ ''GET'') =
      Inr (int (length ''GET''), d', b, n) \<and>
    take n b = concat [''hello'', ''x''] \<and> take (length ''GET'') (drop n b) = ''GET''"
  by (rule phr_decode_chunked_roundtrip) simp

end
