(* ===== verification/StdString.thy ===== *)
theory StdString
  imports Prelude
begin

text \<open>
  The parts of the C and C++ standard libraries the sources use on strings, as functions on byte
  lists: \<^verbatim>\<open>std::string::find\<close>, \<^verbatim>\<open>std::getline\<close> on a string stream, \<^verbatim>\<open>strchr\<close>, \<^verbatim>\<open>strrchr\<close>,
  \<^verbatim>\<open>strtok_r\<close>, \<^verbatim>\<open>atoi\<close>, \<^verbatim>\<open>std::to_string\<close> and the character classes of the C locale. \<open>None\<close>
  stands for \<^verbatim>\<open>npos\<close> and for the null pointer.
\<close>

subsection \<open>Character classes\<close>

definition isdigit :: "char \<Rightarrow> bool" where
  "isdigit c \<longleftrightarrow> 48 \<le> byte_val c \<and> byte_val c \<le> 57"

definition isspace :: "char \<Rightarrow> bool" where
  "isspace c \<longleftrightarrow> byte_val c = 32 \<or> (9 \<le> byte_val c \<and> byte_val c \<le> 13)"

definition tolower :: "char \<Rightarrow> char" where
  "tolower c = (if 65 \<le> byte_val c \<and> byte_val c \<le> 90 then char_of (byte_val c + 32) else c)"

definition toupper :: "char \<Rightarrow> char" where
  "toupper c = (if 97 \<le> byte_val c \<and> byte_val c \<le> 122 then char_of (byte_val c - 32) else c)"

lemma tolower_idem [simp]: "tolower (tolower c) = tolower c"
  by (auto simp: tolower_def byte_val_def of_char_of)

lemma toupper_idem [simp]: "toupper (toupper c) = toupper c"
  by (auto simp: toupper_def byte_val_def of_char_of)

text \<open>
  The bytes of text (no control character; those above 127 belong to UTF-8 sequences), decided
  on the bits of the byte so that string literals are checked by rewriting.
\<close>

fun istext :: "char \<Rightarrow> bool" where
  "istext (Char b0 b1 b2 b3 b4 b5 b6 b7) \<longleftrightarrow>
     b7 \<or> (b5 \<or> b6) \<and> \<not> (b0 \<and> b1 \<and> b2 \<and> b3 \<and> b4 \<and> b5 \<and> b6)"

lemma istext_byte_val: "istext c \<longleftrightarrow> 32 \<le> byte_val c \<and> byte_val c \<noteq> 127"
proof (cases c)
  case (Char b0 b1 b2 b3 b4 b5 b6 b7)
  show ?thesis
    unfolding Char byte_val_def istext.simps
    by (cases b7; cases b6; cases b5; cases b4; cases b3; cases b2; cases b1; cases b0) simp_all
qed

subsection \<open>Searching\<close>

function str_find :: "bytes \<Rightarrow> bytes \<Rightarrow> nat \<Rightarrow> nat option" where
  "str_find s pat pos =
     (if length s < pos + length pat then None
      else if take (length pat) (drop pos s) = pat then Some pos
      else str_find s pat (pos + 1))"
  by pat_completeness auto
termination
  by (relation "measure (\<lambda>(s, pat, pos). length s + 1 - pos)") auto

declare str_find.simps [simp del]

definition occurs_at :: "bytes \<Rightarrow> bytes \<Rightarrow> nat \<Rightarrow> bool" where
  "occurs_at s pat i \<longleftrightarrow> i + length pat \<le> length s \<and> take (length pat) (drop i s) = pat"

lemma str_find_Some:
  "str_find s pat pos = Some i \<Longrightarrow>
   pos \<le> i \<and> occurs_at s pat i \<and> (\<forall>j. pos \<le> j \<longrightarrow> j < i \<longrightarrow> \<not> occurs_at s pat j)"
proof (induction s pat pos rule: str_find.induct)
  case (1 s pat pos)
  show ?case
  proof (cases "\<not> length s < pos + length pat \<and> take (length pat) (drop pos s) \<noteq> pat")
    case True
    with "1.prems" have "str_find s pat (pos + 1) = Some i" by (simp add: str_find.simps [of s pat pos])
    with "1.IH" True have IH: "pos + 1 \<le> i" "occurs_at s pat i"
      "\<forall>j. pos + 1 \<le> j \<longrightarrow> j < i \<longrightarrow> \<not> occurs_at s pat j" by auto
    have "\<not> occurs_at s pat j" if "pos \<le> j" "j < i" for j
      using that IH(3) True by (cases "j = pos") (auto simp: occurs_at_def)
    with IH show ?thesis by auto
  next
    case False
    with "1.prems" show ?thesis
      by (auto simp: str_find.simps [of s pat pos] occurs_at_def split: if_splits)
  qed
qed

lemma str_find_None: "str_find s pat pos = None \<Longrightarrow> pos \<le> i \<Longrightarrow> \<not> occurs_at s pat i"
proof (induction s pat pos rule: str_find.induct)
  case (1 s pat pos)
  show ?case
  proof (cases "length s < pos + length pat")
    case True
    with "1.prems" show ?thesis by (auto simp: occurs_at_def)
  next
    case False
    with "1.prems" have "take (length pat) (drop pos s) \<noteq> pat" "str_find s pat (pos + 1) = None"
      by (auto simp: str_find.simps [of s pat pos] split: if_splits)
    with "1.IH" False "1.prems"(2) show ?thesis by (cases "i = pos") (auto simp: occurs_at_def)
  qed
qed

lemma str_find_first:
  assumes "pos \<le> i" "occurs_at s pat i" "\<And>j. pos \<le> j \<Longrightarrow> j < i \<Longrightarrow> \<not> occurs_at s pat j"
  shows "str_find s pat pos = Some i"
proof (cases "str_find s pat pos")
  case None
  with str_find_None [OF None assms(1)] assms(2) show ?thesis by simp
next
  case (Some k)
  from str_find_Some [OF this] assms show ?thesis
    using Some by (metis linorder_neqE_nat)
qed

lemma str_find_bound: "str_find s pat pos = Some i \<Longrightarrow> pos \<le> i \<and> i + length pat \<le> length s"
  by (drule str_find_Some) (simp add: occurs_at_def)

lemma str_find_prefix: "str_find (pat @ s) pat 0 = Some 0"
  by (subst str_find.simps) simp

text \<open>For evaluation, one pass over the string.\<close>

fun str_scan :: "bytes \<Rightarrow> bytes \<Rightarrow> nat \<Rightarrow> nat option" where
  "str_scan [] pat pos = (if pat = [] then Some pos else None)"
| "str_scan (c # cs) pat pos =
     (if prefix pat (c # cs) then Some pos else str_scan cs pat (Suc pos))"

lemma str_find_scan:
  "pos \<le> length s \<Longrightarrow> str_find s pat pos = str_scan (drop pos s) pat pos"
proof (induction s pat pos rule: str_find.induct)
  case (1 s pat pos)
  have pre: "prefix pat (drop pos s) \<longleftrightarrow>
      \<not> length s < pos + length pat \<and> take (length pat) (drop pos s) = pat"
    using "1.prems" by (auto simp: prefix_def not_less dest: arg_cong [of _ _ length])
      (metis append_take_drop_id)
  show ?case
  proof (cases "drop pos s")
    case Nil
    with "1.prems" show ?thesis
      by (subst str_find.simps) (cases pat, auto)
  next
    case (Cons c cs)
    then have lt: "pos < length s" and cs: "cs = drop (pos + 1) s"
      by (metis drop_all list.distinct(1) not_less) (metis Cons drop_Suc drop_tl list.sel(3) Suc_eq_plus1)
    then have *: "str_find s pat (pos + 1) = str_scan cs pat (Suc pos)"
      if "\<not> length s < pos + length pat" "take (length pat) (drop pos s) \<noteq> pat"
      using "1.IH" that lt by simp
    have "str_find s pat (pos + 1) = None \<and> str_scan cs pat (Suc pos) = None" if "length s < pos + length pat"
    proof -
      have "str_scan t pat n = None" if "length t < length pat" for t n
        using that by (induction t arbitrary: n) (auto dest: prefix_length_le)
      moreover have "length cs < length pat" using that cs lt by simp
      ultimately show ?thesis using that by (subst str_find.simps) simp
    qed
    with * pre Cons show ?thesis
      by (auto simp: str_find.simps [of s pat pos])
  qed
qed

lemma str_find_code [code]:
  "str_find s pat pos = (if pos \<le> length s then str_scan (drop pos s) pat pos else None)"
  by (simp add: str_find_scan) (subst str_find.simps, simp)

text \<open>Searching one character from the start splits the string at its first occurrence.\<close>

lemma str_find_char:
  "str_find s [c] 0 =
     (if c \<in> set s then Some (length (takeWhile (\<lambda>x. x \<noteq> c) s)) else None)"
proof (cases "c \<in> set s")
  case True
  let ?k = "length (takeWhile (\<lambda>x. x \<noteq> c) s)"
  have at: "occurs_at s [c] i \<longleftrightarrow> i < length s \<and> s ! i = c" for i
    by (auto simp: occurs_at_def take_Suc hd_drop_conv_nth)
  have "?k < length s"
    using True by (induction s) auto
  moreover from this have "s ! ?k = c" using nth_length_takeWhile [of "\<lambda>x. x \<noteq> c" s] by simp
  moreover have "s ! j \<noteq> c" if "j < ?k" for j
    using that nth_mem [OF that] takeWhile_nth [OF that] by (auto dest: set_takeWhileD)
  ultimately have "str_find s [c] 0 = Some ?k"
    by (intro str_find_first) (auto simp: at)
  with True show ?thesis by simp
next
  case False
  have "str_find s [c] 0 = None"
  proof (cases "str_find s [c] 0")
    case (Some i)
    from str_find_Some [OF this] have "take 1 (drop i s) = [c]" by (simp add: occurs_at_def)
    then have "c \<in> set (drop i s)" by (metis in_set_takeD list.set_intros(1))
    with False show ?thesis by (meson in_set_dropD)
  qed
  with False show ?thesis by simp
qed

subsection \<open>Splitting\<close>

text \<open>
  All the lines \<^verbatim>\<open>std::getline(iss, token, delim)\<close> yields: an exhausted stream yields none, so a
  final delimiter does not open another, empty, line.
\<close>

function getlines :: "char \<Rightarrow> bytes \<Rightarrow> bytes list" where
  "getlines delim [] = []"
| "getlines delim (c # cs) =
     takeWhile (\<lambda>x. x \<noteq> delim) (c # cs) # getlines delim (tl (dropWhile (\<lambda>x. x \<noteq> delim) (c # cs)))"
  by pat_completeness auto
termination
proof (relation "measure (\<lambda>(d, s). length s)", goal_cases)
  case (2 delim c cs)
  have "length (dropWhile (\<lambda>x. x \<noteq> delim) (c # cs)) \<le> length (c # cs)" by (rule length_dropWhile_le)
  then show ?case by (cases "dropWhile (\<lambda>x. x \<noteq> delim) (c # cs)") auto
qed simp

text \<open>All the tokens of \<^verbatim>\<open>strtok_r\<close> with a single delimiter: empty tokens are skipped.\<close>

definition strtok_all :: "char \<Rightarrow> bytes \<Rightarrow> bytes list" where
  "strtok_all delim s = filter (\<lambda>t. t \<noteq> []) (getlines delim s)"

text \<open>The C string at the start of an array: the bytes before the first NUL.\<close>

definition c_str :: "bytes \<Rightarrow> bytes" where
  "c_str mem = takeWhile (\<lambda>c. c \<noteq> CHR 0x00) mem"

text \<open>
  A function of the C library that is handed such an array reads up to its NUL; without one it reads behind the
  array.
\<close>

definition c_string :: "bytes \<Rightarrow> bytes res" where
  "c_string mem = (if CHR 0x00 \<in> set mem then Inr (c_str mem) else Inl Undefined)"

text \<open>\<^verbatim>\<open>strchr\<close> and \<^verbatim>\<open>strrchr\<close> on a C string: the index of the first, the last occurrence.\<close>

definition strchr :: "bytes \<Rightarrow> char \<Rightarrow> nat option" where
  "strchr s c = str_find s [c] 0"

definition strrchr :: "bytes \<Rightarrow> char \<Rightarrow> nat option" where
  "strrchr s c = map_option (\<lambda>i. length s - 1 - i) (str_find (rev s) [c] 0)"

lemma getlines_nodelim: "x \<in> set (getlines d s) \<Longrightarrow> d \<notin> set x"
  by (induction d s rule: getlines.induct) (auto dest: set_takeWhileD split: if_splits)

text \<open>Joining with the delimiter and splitting again.\<close>

fun join :: "char \<Rightarrow> bytes list \<Rightarrow> bytes" where
  "join d [] = []"
| "join d [x] = x"
| "join d (x # y # xs) = x @ d # join d (y # xs)"

lemma split_at_delim:
  "d \<notin> set x \<Longrightarrow> takeWhile (\<lambda>y. y \<noteq> d) (x @ d # r) = x \<and> dropWhile (\<lambda>y. y \<noteq> d) (x @ d # r) = d # r"
  by (induction x) auto

lemma getlines_single: "x \<noteq> [] \<Longrightarrow> d \<notin> set x \<Longrightarrow> getlines d x = [x]"
proof (cases x)
  case (Cons c cs)
  moreover assume "d \<notin> set x"
  ultimately have "takeWhile (\<lambda>x. x \<noteq> d) (c # cs) = c # cs" "dropWhile (\<lambda>x. x \<noteq> d) (c # cs) = []"
    by (auto simp: takeWhile_eq_all_conv dropWhile_eq_Nil_conv simp del: takeWhile.simps dropWhile.simps)
  with Cons show ?thesis by simp
qed simp

lemma getlines_Cons: "d \<notin> set x \<Longrightarrow> getlines d (x @ d # rest) = x # getlines d rest"
proof (cases x)
  case (Cons c cs)
  moreover assume "d \<notin> set x"
  ultimately show ?thesis using split_at_delim [of d x rest] by simp
qed simp

lemma getlines_join:
  "\<forall>x \<in> set xs. x \<noteq> [] \<and> d \<notin> set x \<Longrightarrow> getlines d (join d xs) = xs"
  by (induction d xs rule: join.induct) (auto simp: getlines_single getlines_Cons)

lemma strtok_join:
  "\<forall>x \<in> set xs. x \<noteq> [] \<and> d \<notin> set x \<Longrightarrow> strtok_all d (join d xs) = xs"
  by (simp add: strtok_all_def getlines_join)

subsection \<open>Numbers\<close>

text \<open>\<^verbatim>\<open>std::to_string\<close> of an unsigned number, also what \<^verbatim>\<open>ostream <<\<close> writes for one.\<close>

fun to_string :: "nat \<Rightarrow> bytes" where
  "to_string n =
     (if n < 10 then [char_of (48 + n)] else to_string (n div 10) @ [char_of (48 + n mod 10)])"

declare to_string.simps [simp del]

definition digit_val :: "char \<Rightarrow> nat" where
  "digit_val c = byte_val c - 48"

definition dec_val :: "bytes \<Rightarrow> nat" where
  "dec_val s = fold (\<lambda>c v. v * 10 + digit_val c) s 0"

lemma isdigit_char_of [simp]: "n < (10 :: nat) \<Longrightarrow> isdigit (char_of (48 + n))"
  by (simp add: isdigit_def byte_val_def of_char_of)

lemma digit_val_char_of [simp]: "n < (10 :: nat) \<Longrightarrow> digit_val (char_of (48 + n)) = n"
  by (simp add: digit_val_def byte_val_def of_char_of)

lemma to_string_digits: "c \<in> set (to_string n) \<Longrightarrow> isdigit c"
proof (induction n rule: to_string.induct)
  case (1 n)
  then show ?case by (cases "n < 10") (auto simp: to_string.simps [of n])
qed

lemma to_string_nonempty [simp]: "to_string n \<noteq> []"
  by (subst to_string.simps) simp

lemma dec_val_snoc [simp]: "dec_val (s @ [c]) = dec_val s * 10 + digit_val c"
  by (simp add: dec_val_def)

lemma dec_val_to_string [simp]: "dec_val (to_string n) = n"
proof (induction n rule: to_string.induct)
  case (1 n)
  show ?case
  proof (cases "n < 10")
    case True
    then show ?thesis by (simp add: to_string.simps [of n] dec_val_def)
  next
    case False
    have "dec_val (to_string n) = dec_val (to_string (n div 10)) * 10 + n mod 10"
      using False by (simp add: to_string.simps [of n])
    with "1.IH" [OF False] show ?thesis by simp
  qed
qed

text \<open>
  \<^verbatim>\<open>atoi\<close>: leading white space, an optional sign, then digits. As in glibc it is \<^verbatim>\<open>strtol\<close>, which
  saturates at the bounds of \<^verbatim>\<open>long\<close>, converted to the 32-bit \<^verbatim>\<open>int\<close>.
\<close>

definition int32 :: "int \<Rightarrow> int" where
  "int32 v = (v + 2 ^ 31) mod 2 ^ 32 - 2 ^ 31"

definition strtol :: "bytes \<Rightarrow> int" where
  "strtol s =
     (let t = dropWhile isspace s;
          neg = (t \<noteq> [] \<and> hd t = CHR ''-'');
          u = (if t \<noteq> [] \<and> (hd t = CHR ''-'' \<or> hd t = CHR ''+'') then tl t else t);
          v = int (dec_val (takeWhile isdigit u))
      in max (- (2 ^ 63)) (min (2 ^ 63 - 1) (if neg then - v else v)))"

definition atoi :: "bytes \<Rightarrow> int" where
  "atoi s = int32 (strtol (c_str s))"

lemma int32_id: "- (2 ^ 31) \<le> v \<Longrightarrow> v < 2 ^ 31 \<Longrightarrow> int32 v = v"
  by (simp add: int32_def)

lemma isdigit_not_space: "isdigit c \<Longrightarrow> \<not> isspace c"
  by (auto simp: isdigit_def isspace_def)

lemma isdigit_not_sign: "isdigit c \<Longrightarrow> c \<noteq> CHR ''-'' \<and> c \<noteq> CHR ''+'' \<and> c \<noteq> CHR 0x00"
  by (auto simp: isdigit_def byte_val_def)

text \<open>A decimal number below the bound of \<^verbatim>\<open>int\<close> is read back.\<close>

lemma atoi_to_string:
  assumes "n < 2 ^ 31"
  shows "atoi (to_string n) = int n"
proof -
  have dig: "\<forall>c \<in> set (to_string n). isdigit c" using to_string_digits by blast
  obtain c cs where s: "to_string n = c # cs" by (cases "to_string n") auto
  have "c_str (to_string n) = to_string n"
    unfolding c_str_def using dig isdigit_not_sign by (auto simp: takeWhile_eq_all_conv)
  moreover have "dropWhile isspace (to_string n) = to_string n"
    using dig isdigit_not_space by (simp add: s)
  moreover have tw: "takeWhile isdigit (to_string n) = to_string n"
    using dig by (simp add: takeWhile_eq_all_conv)
  moreover have "hd (to_string n) \<noteq> CHR ''-''" "hd (to_string n) \<noteq> CHR ''+''"
    using dig isdigit_not_sign [of c] by (auto simp: s)
  ultimately have "strtol (c_str (to_string n)) = int n"
    using assms by (simp add: strtol_def Let_def tw)
  then show ?thesis using assms by (simp add: atoi_def int32_id)
qed

end
