(* ===== verification/Request.thy ===== *)
theory Request
  imports StdString
begin

text \<open>
  The request object (\<^verbatim>\<open>request/request.h\<close>, \<^verbatim>\<open>request/request.cpp\<close>). Its two hash maps are maps,
  \<^verbatim>\<open>headers.at(key)\<close> is a lookup that may throw. Setters and getters that only move one field
  are the record's update and selector; the operations below are the ones that do more.
\<close>

type_synonym string_map = "bytes \<rightharpoonup> bytes"

record Request =
  req_fd :: int
  fullUri :: bytes
  uri :: bytes
  req_method :: bytes
  req_body :: bytes
  req_headers :: string_map
  req_params :: string_map
  headerAccept :: bool
  bodyAccept :: bool
  bodyExists :: bool
  closingConnect :: bool
  maxOutputBufferLength :: nat

text \<open>
  \<^verbatim>\<open>requestFactory\<close>: \<open>None\<close> when the allocation fails. The constructor leaves the descriptor and
  the length limit uninitialised; they are the arguments \<open>fd0\<close> and \<open>max0\<close>.
\<close>

definition requestFactory :: "bool \<Rightarrow> int \<Rightarrow> nat \<Rightarrow> Request option" where
  "requestFactory alloc fd0 max0 =
     (if alloc then
        Some \<lparr>req_fd = fd0, fullUri = [], uri = [], req_method = [], req_body = [],
              req_headers = Map.empty, req_params = Map.empty, headerAccept = False,
              bodyAccept = False, bodyExists = False, closingConnect = False,
              maxOutputBufferLength = max0\<rparr>
      else None)"

definition Request_clear :: "Request \<Rightarrow> Request" where
  "Request_clear r = r\<lparr>headerAccept := False, bodyAccept := False, bodyExists := False,
     fullUri := [], uri := [], req_method := [], req_body := [],
     req_headers := Map.empty, req_params := Map.empty\<rparr>"

definition requestCopyFactory :: "bool \<Rightarrow> Request \<Rightarrow> Request option" where
  "requestCopyFactory alloc src = (if alloc then Some src else None)"

text \<open>\<^verbatim>\<open>getHeaderRef\<close> and \<^verbatim>\<open>getHeader\<close>.\<close>

definition getHeaderRef :: "bytes \<Rightarrow> Request \<Rightarrow> bytes res" where
  "getHeaderRef key r = (case req_headers r key of None \<Rightarrow> Inl Out_of_range | Some v \<Rightarrow> Inr v)"

definition addHeader :: "bytes \<Rightarrow> bytes \<Rightarrow> Request \<Rightarrow> Request" where
  "addHeader key value r = r\<lparr>req_headers := (req_headers r)(key \<mapsto> value)\<rparr>"

definition addParam :: "bytes \<Rightarrow> bytes \<Rightarrow> Request \<Rightarrow> Request" where
  "addParam key value r = r\<lparr>req_params := (req_params r)(key \<mapsto> value)\<rparr>"

text \<open>
  \<^verbatim>\<open>setBody(const char *, size_t n)\<close> builds a \<^verbatim>\<open>std::string\<close> of \<open>n\<close> bytes from the array \<open>mem\<close>
  at offset \<open>off\<close>: it throws when \<open>n\<close> exceeds what a string can hold (\<^verbatim>\<open>max_size\<close> of the 64-bit
  library), and reads outside the array when fewer than \<open>n\<close> bytes are there.
\<close>

definition string_max_size :: nat where
  "string_max_size = 2 ^ 63 - 1"

definition setBody :: "bytes \<Rightarrow> nat \<Rightarrow> size_t \<Rightarrow> Request \<Rightarrow> Request res" where
  "setBody mem off n r =
     (if string_max_size < unat n then Inl Length_error
      else bind_res (mem_read mem off (unat n)) (\<lambda>b. Inr (r\<lparr>req_body := b\<rparr>)))"

lemma getHeaderRef_addHeader:
  "getHeaderRef k (addHeader k' v r) = (if k = k' then Inr v else getHeaderRef k r)"
  by (simp add: getHeaderRef_def addHeader_def)

lemma getHeaderRef_error: "getHeaderRef k r = Inl e \<Longrightarrow> e = Out_of_range"
  by (auto simp: getHeaderRef_def split: option.splits)

text \<open>The state in which a connection waits for its next request.\<close>

definition request_idle :: "Request \<Rightarrow> bool" where
  "request_idle r \<longleftrightarrow> \<not> headerAccept r \<and> \<not> bodyAccept r \<and> \<not> bodyExists r \<and>
     fullUri r = [] \<and> uri r = [] \<and> req_method r = [] \<and> req_body r = [] \<and>
     req_headers r = Map.empty \<and> req_params r = Map.empty"

lemma requestFactory_idle: "requestFactory a f m = Some r \<Longrightarrow> request_idle r \<and> \<not> closingConnect r"
  by (auto simp: requestFactory_def request_idle_def split: if_splits)

lemma Request_clear_idle: "request_idle (Request_clear r)"
  by (simp add: Request_clear_def request_idle_def)

lemma Request_clear_keeps:
  "req_fd (Request_clear r) = req_fd r" "closingConnect (Request_clear r) = closingConnect r"
  "maxOutputBufferLength (Request_clear r) = maxOutputBufferLength r"
  by (simp_all add: Request_clear_def)

end
