(* ===== verification/Multipart.thy ===== *)
theory Multipart
  imports Request
begin

text \<open>
  Multipart forms: \<^verbatim>\<open>trimCharacters\<close> and \<^verbatim>\<open>multipartFormData\<close> of \<^verbatim>\<open>server/utils.cpp\<close> and the object
  that holds one field (\<^verbatim>\<open>multipart/MultipartFormDataObject.h\<close>).
\<close>

record MultipartFormDataObject =
  mp_data :: bytes
  mp_name :: bytes
  mp_filename :: bytes
  mp_contentType :: bytes

text \<open>
  \<^verbatim>\<open>trimCharacters\<close>: two iterators move towards each other while they stand on one of the
  characters, but never past each other, so one character always remains. On an empty vector
  \<^verbatim>\<open>src.end() - 1\<close> is undefined.
\<close>

fun trim_start :: "bytes \<Rightarrow> bytes \<Rightarrow> bytes" where
  "trim_start chars [] = []"
| "trim_start chars [x] = [x]"
| "trim_start chars (x # y # ys) =
     (if x \<in> set chars then trim_start chars (y # ys) else x # y # ys)"

definition trimCharacters :: "bytes \<Rightarrow> bytes \<Rightarrow> bytes res" where
  "trimCharacters src chars =
     (if src = [] then Inl Undefined
      else Inr (rev (trim_start chars (rev (trim_start chars src)))))"

definition quote_space :: bytes where
  "quote_space = [CHR 0x22, CHR '' '']"

text \<open>
  The value of \<^verbatim>\<open>name=\<close> or \<^verbatim>\<open>filename=\<close>: the characters after the key up to white space, a
  semicolon or the end of the body.
\<close>

definition form_attribute :: "bytes \<Rightarrow> bytes \<Rightarrow> nat \<Rightarrow> bytes res" where
  "form_attribute body key pos =
     (case str_find body key pos of
        None \<Rightarrow> Inr []
      | Some p \<Rightarrow>
          let characters = takeWhile (\<lambda>c. \<not> isspace c \<and> c \<noteq> CHR '';'') (drop (p + length key) body)
          in if characters = [] then Inr [] else trimCharacters characters quote_space)"

definition form_content_type :: "bytes \<Rightarrow> nat \<Rightarrow> bytes res" where
  "form_content_type body pos =
     (case str_find body ''Content-Type:'' pos of
        None \<Rightarrow> Inr []
      | Some p \<Rightarrow>
          let characters = takeWhile (\<lambda>c. c \<noteq> CHR 0x0A \<and> c \<noteq> CHR 0x0D)
                (drop (p + length ''Content-Type:'') body)
          in if characters = [] then Inr [] else trimCharacters characters quote_space)"

definition CRLFCRLF :: bytes where
  "CRLFCRLF = [CHR 0x0D, CHR 0x0A, CHR 0x0D, CHR 0x0A]"

text \<open>\<^verbatim>\<open>std::copy(begin + data + 4, begin + end - 2, ...)\<close>: undefined when the range is reversed.\<close>

definition form_data :: "bytes \<Rightarrow> nat option \<Rightarrow> nat option \<Rightarrow> bytes res" where
  "form_data body position_data pos' =
     (case (position_data, pos') of
        (Some d, Some e) \<Rightarrow>
          if d + 4 + 2 \<le> e then Inr (take (e - 2 - (d + 4)) (drop (d + 4) body)) else Inl Undefined
      | _ \<Rightarrow> Inr [])"

text \<open>\<^verbatim>\<open>emplace\<close> keeps an entry that is already there.\<close>

definition emplace :: "bytes \<Rightarrow> 'v \<Rightarrow> (bytes \<rightharpoonup> 'v) \<Rightarrow> (bytes \<rightharpoonup> 'v)" where
  "emplace k v m = (if m k = None then m(k \<mapsto> v) else m)"

text \<open>
  The body of the loop for the part that starts at the boundary found at \<open>pos\<close>: the field, if
  it has a name, and the position of the next boundary.
\<close>

definition form_part ::
  "bytes \<Rightarrow> bytes \<Rightarrow> nat \<Rightarrow> (MultipartFormDataObject \<times> nat option) res" where
  "form_part boundary body pos =
     (let start = pos + length boundary
      in bind_res (form_attribute body ''name='' start) (\<lambda>name.
         bind_res (form_attribute body ''filename='' start) (\<lambda>file_name.
         bind_res (form_content_type body start) (\<lambda>content_type.
         let pos' = str_find body boundary start
         in bind_res (form_data body (str_find body CRLFCRLF start) pos') (\<lambda>data.
              Inr (\<lparr>mp_data = data, mp_name = name, mp_filename = file_name,
                    mp_contentType = content_type\<rparr>, pos'))))))"

lemma form_part_next:
  "form_part boundary body pos = Inr (f, pos') \<Longrightarrow>
   pos' = str_find body boundary (pos + length boundary)"
  by (auto simp: form_part_def Let_def bind_res_Inr_iff)

text \<open>
  The loop. A boundary is never empty when it is reached (the caller has returned before), so
  the next position is behind the current one.
\<close>

function form_loop ::
  "bytes \<Rightarrow> bytes \<Rightarrow> nat option \<Rightarrow> (bytes \<rightharpoonup> MultipartFormDataObject) \<Rightarrow>
   (bytes \<rightharpoonup> MultipartFormDataObject) res" where
  "form_loop boundary body None flds = Inr flds"
| "form_loop boundary body (Some pos) flds =
     (if boundary = [] \<or> \<not> pos < length body then Inr flds
      else if str_find body ''Content-Disposition: form-data'' (pos + length boundary) = None
      then Inr flds
      else
        (case form_part boundary body pos of
           Inl e \<Rightarrow> Inl e
         | Inr (f, pos') \<Rightarrow>
             form_loop boundary body pos'
               (if mp_name f \<noteq> [] then emplace (mp_name f) f flds else flds)))"
  by pat_completeness auto

termination
proof (relation "measure (\<lambda>(boundary, body, p, flds). case p of None \<Rightarrow> 0 | Some pos \<Rightarrow> length body + 1 - pos)",
    goal_cases)
  case (2 boundary body pos flds x f pos')
  then have "pos' = str_find body boundary (pos + length boundary)"
    by (auto dest: form_part_next)
  then have "pos' = Some i \<Longrightarrow> pos < i \<and> i \<le> length body" for i
    using 2(1) str_find_bound [of body boundary "pos + length boundary" i] by (cases boundary) auto
  with 2(1) show ?case by (cases pos') auto
qed simp

definition multipartFormData :: "Request \<Rightarrow> (bytes \<rightharpoonup> MultipartFormDataObject) res" where
  "multipartFormData request =
     (case getHeaderRef ''content-type'' request of
        Inl e \<Rightarrow> Inr Map.empty
      | Inr content_type \<Rightarrow>
          (case str_find content_type ''boundary='' 0 of
             None \<Rightarrow> Inr Map.empty
           | Some pos \<Rightarrow>
               if str_find content_type ''multipart/form-data'' 0 = None then Inr Map.empty
               else
                 let boundary = drop (pos + length ''boundary='') content_type
                 in if boundary = [] then Inr Map.empty
                    else form_loop boundary (req_body request)
                           (str_find (req_body request) boundary 0) Map.empty))"


subsection \<open>Searching in concatenations\<close>

lemma occurs_at_shift: "occurs_at (x @ s) pat (length x + i) \<longleftrightarrow> occurs_at s pat i"
  by (simp add: occurs_at_def)

lemma str_find_shift:
  "str_find (x @ s) pat (length x) = map_option ((+) (length x)) (str_find s pat 0)"
proof (cases "str_find s pat 0")
  case None
  have "str_find (x @ s) pat (length x) = None"
  proof (cases "str_find (x @ s) pat (length x)")
    case (Some j)
    then have "occurs_at (x @ s) pat (length x + (j - length x))"
      using str_find_Some [OF Some] by simp
    then have "occurs_at s pat (j - length x)" by (simp only: occurs_at_shift)
    with str_find_None [OF None, of "j - length x"] show ?thesis by simp
  qed
  with None show ?thesis by simp
next
  case (Some i)
  then have i: "occurs_at s pat i" "\<And>j. j < i \<Longrightarrow> \<not> occurs_at s pat j"
    using str_find_Some [OF Some] by auto
  have "str_find (x @ s) pat (length x) = Some (length x + i)"
  proof (rule str_find_first)
    show "occurs_at (x @ s) pat (length x + i)" using i(1) by (simp add: occurs_at_shift)
    fix j assume "length x \<le> j" "j < length x + i"
    then have "\<not> occurs_at s pat (j - length x)" using i(2) by simp
    with \<open>length x \<le> j\<close> show "\<not> occurs_at (x @ s) pat j"
      using occurs_at_shift [of x s pat "j - length x"] by simp
  qed simp
  with Some show ?thesis by simp
qed

text \<open>A character that is not in the pattern separates the search.\<close>

lemma occurs_at_sep:
  assumes "c \<notin> set pat" "occurs_at (x @ c # y) pat i"
  shows "i + length pat \<le> length x \<or> length x < i"
proof (rule ccontr)
  assume "\<not> ?thesis"
  then have k: "i \<le> length x" "length x - i < length pat" by auto
  have occ: "take (length pat) (drop i (x @ c # y)) = pat" "i + length pat \<le> length (x @ c # y)"
    using assms(2) by (auto simp: occurs_at_def)
  have "take (length pat) (drop i (x @ c # y)) ! (length x - i) = (x @ c # y) ! (i + (length x - i))"
    using k occ(2) by (simp only: nth_take nth_drop)
  also have "\<dots> = c" using k(1) by simp
  finally have "pat ! (length x - i) = c" using occ(1) by simp
  with assms(1) k(2) show False using nth_mem by blast
qed

lemma occurs_at_left: "i + length pat \<le> length x \<Longrightarrow> occurs_at (x @ y) pat i \<longleftrightarrow> occurs_at x pat i"
  by (simp add: occurs_at_def)

lemma str_find_prefix_None: "str_find s pat 0 = None \<longleftrightarrow> (\<forall>i. \<not> occurs_at s pat i)"
  using str_find_None [of s pat 0] str_find_Some [of s pat 0] by (cases "str_find s pat 0") auto

lemma str_find_sep:
  assumes "c \<notin> set pat" "str_find x pat 0 = None"
  shows "str_find (x @ c # y) pat 0 = map_option ((+) (length x + 1)) (str_find y pat 0)"
proof -
  have no: "\<not> occurs_at (x @ c # y) pat i" if "i \<le> length x" for i
    using occurs_at_sep [OF assms(1), of x y i] that assms(2) occurs_at_left [of i pat x "c # y"]
    by (auto simp: str_find_prefix_None)
  have "str_find (x @ c # y) pat 0 = str_find ((x @ [c]) @ y) pat (length (x @ [c]))"
  proof (cases "str_find ((x @ [c]) @ y) pat (length (x @ [c]))")
    case None
    have "\<not> occurs_at (x @ c # y) pat i" for i
      using no [of i] str_find_None [OF None, of i] by (cases "i \<le> length x") auto
    with None show ?thesis by (simp add: str_find_prefix_None)
  next
    case (Some i)
    have "str_find (x @ c # y) pat 0 = Some i"
    proof (rule str_find_first)
      show "occurs_at (x @ c # y) pat i" using str_find_Some [OF Some] by simp
      fix j assume "j < i"
      then show "\<not> occurs_at (x @ c # y) pat j"
        using no [of j] str_find_Some [OF Some] by (cases "j \<le> length x") auto
    qed simp
    with Some show ?thesis by simp
  qed
  then show ?thesis using str_find_shift [of "x @ [c]" y pat] by simp
qed

lemma str_find_extend:
  assumes "str_find x pat 0 = Some i"
  shows "str_find (x @ y) pat 0 = Some i"
proof (rule str_find_first)
  note i = str_find_Some [OF assms]
  have b: "i + length pat \<le> length x" using i by (simp add: occurs_at_def)
  then show "occurs_at (x @ y) pat i" using i by (simp add: occurs_at_left)
  fix j assume "j < i"
  then show "\<not> occurs_at (x @ y) pat j" using i b occurs_at_left [of j pat x y] by auto
qed simp

subsection \<open>Forms and their rendering\<close>

text \<open>Reading a part does not depend on what precedes it.\<close>

lemma drop_shift: "drop (length x + n) (x @ s) = drop n s"
  by simp

lemma form_attribute_shift: "form_attribute (x @ s) key (length x) = form_attribute s key 0"
  by (cases "str_find s key 0")
    (simp_all add: form_attribute_def str_find_shift add.assoc drop_shift del: drop_append)

lemma form_content_type_shift: "form_content_type (x @ s) (length x) = form_content_type s 0"
  unfolding form_content_type_def str_find_shift
  by (cases "str_find s ''Content-Type:'' 0")
    (simp_all only: option.map option.case add.assoc drop_shift)

lemma form_data_shift:
  "form_data (x @ s) (map_option ((+) (length x)) d) (map_option ((+) (length x)) e) = form_data s d e"
proof (cases "d = None \<or> e = None")
  case False
  then obtain i j where "d = Some i" "e = Some j" by auto
  moreover have "take (length x + j - 2 - (length x + i + 4)) (drop (length x + i + 4) (x @ s)) =
      take (j - 2 - (i + 4)) (drop (i + 4) s)" if "i + 6 \<le> j"
    using that drop_shift [of x "i + 4" s] by (simp add: add.assoc)
  ultimately show ?thesis by (simp add: form_data_def)
qed (auto simp: form_data_def split: option.splits)

definition part_object :: "bytes \<Rightarrow> bytes \<Rightarrow> MultipartFormDataObject res" where
  "part_object boundary s =
     bind_res (form_attribute s ''name='' 0) (\<lambda>name.
     bind_res (form_attribute s ''filename='' 0) (\<lambda>file_name.
     bind_res (form_content_type s 0) (\<lambda>content_type.
     bind_res (form_data s (str_find s CRLFCRLF 0) (str_find s boundary 0)) (\<lambda>data.
       Inr \<lparr>mp_data = data, mp_name = name, mp_filename = file_name, mp_contentType = content_type\<rparr>))))"

lemma form_part_shift:
  "form_part boundary (x @ boundary @ s) (length x) =
     bind_res (part_object boundary s) (\<lambda>f.
       Inr (f, map_option ((+) (length (x @ boundary))) (str_find s boundary 0)))"
proof -
  have "form_part boundary ((x @ boundary) @ s) (length x) =
     bind_res (part_object boundary s) (\<lambda>f.
       Inr (f, map_option ((+) (length (x @ boundary))) (str_find s boundary 0)))"
    unfolding form_part_def part_object_def Let_def length_append [symmetric]
      form_attribute_shift form_content_type_shift str_find_shift form_data_shift
    by (simp add: bind_res_def split: sum.split)
  then show ?thesis by simp
qed

text \<open>
  One part as it follows a boundary: the disposition with name and file name, the type, a blank
  line and the data. \<open>dashes\<close> is what stands between the line break after the data and the
  string that the \<^verbatim>\<open>Content-Type\<close> header gives as boundary.
\<close>

definition form_headers :: "MultipartFormDataObject \<Rightarrow> bytes" where
  "form_headers f =
     [CHR 0x0D, CHR 0x0A] @ ''Content-Disposition: form-data; name='' @ [CHR 0x22] @ mp_name f @
     [CHR 0x22] @ ''; filename='' @ [CHR 0x22] @ mp_filename f @ [CHR 0x22, CHR 0x0D, CHR 0x0A] @
     ''Content-Type: '' @ mp_contentType f"

definition render_field :: "bytes \<Rightarrow> MultipartFormDataObject \<Rightarrow> bytes" where
  "render_field dashes f = form_headers f @ CRLFCRLF @ mp_data f @ [CHR 0x0D, CHR 0x0A] @ dashes"

definition attribute_ok :: "bytes \<Rightarrow> bool" where
  "attribute_ok v \<longleftrightarrow> v \<noteq> [] \<and> list_all (\<lambda>c. \<not> isspace c \<and> c \<noteq> CHR '';'' \<and> c \<noteq> CHR 0x22) v \<and>
     str_find v ''filename='' 0 = None \<and> str_find v ''Content-Type:'' 0 = None"

definition content_type_ok :: "bytes \<Rightarrow> bool" where
  "content_type_ok v \<longleftrightarrow> v \<noteq> [] \<and> list_all (\<lambda>c. c \<noteq> CHR 0x0D \<and> c \<noteq> CHR 0x0A) v \<and>
     hd v \<notin> set quote_space \<and> last v \<notin> set quote_space"

definition field_ok :: "bytes \<Rightarrow> bytes \<Rightarrow> MultipartFormDataObject \<Rightarrow> bool" where
  "field_ok boundary dashes f \<longleftrightarrow>
     attribute_ok (mp_name f) \<and> attribute_ok (mp_filename f) \<and> content_type_ok (mp_contentType f) \<and>
     str_find (render_field dashes f @ boundary) boundary 0 = Some (length (render_field dashes f))"

subsection \<open>Reading a rendered part\<close>

lemma trim_start_id: "s \<noteq> [] \<Longrightarrow> hd s \<notin> set chars \<Longrightarrow> trim_start chars s = s"
  by (induction chars s rule: trim_start.induct) auto

lemma trimCharacters_ends:
  assumes "v \<noteq> []" "hd v \<notin> set chars" "last v \<notin> set chars" "a \<in> set chars" "b \<in> set chars"
  shows "trimCharacters (a # v @ [b]) chars = Inr v" and "trimCharacters (a # v) chars = Inr v"
proof -
  have front: "trim_start chars (a # v @ t) = v @ t" for t
    using assms(1,2,4) trim_start_id [of "v @ t" chars] by (cases v) auto
  have "trim_start chars (b # rev v) = rev v"
    using assms(1,3,5) trim_start_id [of "rev v" chars] by (cases "rev v") (auto simp: hd_rev)
  moreover have "trim_start chars (rev v) = rev v"
    using assms(1,3) by (intro trim_start_id) (auto simp: hd_rev)
  ultimately show "trimCharacters (a # v @ [b]) chars = Inr v" "trimCharacters (a # v) chars = Inr v"
    using front [of "[b]"] front [of "[]"] by (simp_all add: trimCharacters_def)
qed


lemma isspace_CRLF [simp]: "isspace CHR 0x0D" "isspace CHR 0x0A"
  by (simp_all add: isspace_def byte_val_def)

lemma attribute_okD:
  assumes "attribute_ok v"
  shows "v \<noteq> []" "c \<in> set v \<Longrightarrow> \<not> isspace c \<and> c \<noteq> CHR '';'' \<and> c \<noteq> CHR 0x22"
    "hd v \<notin> set quote_space" "last v \<notin> set quote_space" "c \<in> set v \<Longrightarrow> c \<noteq> CHR 0x0D \<and> c \<noteq> CHR 0x0A"
proof -
  show v: "v \<noteq> []" and c: "c \<in> set v \<Longrightarrow> \<not> isspace c \<and> c \<noteq> CHR '';'' \<and> c \<noteq> CHR 0x22" for c
    using assms by (auto simp: attribute_ok_def list_all_iff)
  have "isspace CHR '' ''" by (simp add: isspace_def byte_val_def)
  then show "hd v \<notin> set quote_space" "last v \<notin> set quote_space"
    using v c [of "hd v"] c [of "last v"] by (auto simp: quote_space_def)
  show "c \<in> set v \<Longrightarrow> c \<noteq> CHR 0x0D \<and> c \<noteq> CHR 0x0A" using c [of c] by auto
qed

lemma form_attribute_quoted:
  assumes "str_find (u @ key @ [CHR 0x22] @ v @ [CHR 0x22, e] @ w) key 0 = Some (length u)"
    and "attribute_ok v" "isspace e \<or> e = CHR '';''"
  shows "form_attribute (u @ key @ [CHR 0x22] @ v @ [CHR 0x22, e] @ w) key 0 = Inr v"
proof -
  note v = attribute_okD [OF assms(2)]
  have q: "\<not> isspace CHR 0x22" "CHR 0x22 \<in> set quote_space"
    by (simp_all add: isspace_def byte_val_def quote_space_def)
  have "takeWhile (\<lambda>c. \<not> isspace c \<and> c \<noteq> CHR '';'') ((CHR 0x22 # v @ [CHR 0x22]) @ e # w) =
      (CHR 0x22 # v @ [CHR 0x22]) @ takeWhile (\<lambda>c. \<not> isspace c \<and> c \<noteq> CHR '';'') (e # w)"
    by (rule takeWhile_append2) (use v(2) q in auto)
  then have "takeWhile (\<lambda>c. \<not> isspace c \<and> c \<noteq> CHR '';'')
      (drop (length u + length key) (u @ key @ [CHR 0x22] @ v @ [CHR 0x22, e] @ w)) = CHR 0x22 # v @ [CHR 0x22]"
    using assms(3) by auto
  with trimCharacters_ends(1) [OF v(1,3,4) q(2) q(2)] show ?thesis
    by (simp only: form_attribute_def assms(1) option.case Let_def) simp
qed

lemma str_find_sep_first:
  "c \<notin> set pat \<Longrightarrow> pat \<noteq> [] \<Longrightarrow> str_find (c # y) pat 0 = map_option Suc (str_find y pat 0)"
proof -
  assume "c \<notin> set pat" "pat \<noteq> []"
  moreover from this have "str_find [] pat 0 = None" by (subst str_find.simps) simp
  moreover have "(+) (length [] + 1) = Suc" by auto
  ultimately show ?thesis using str_find_sep [of c pat "[]" y] by simp
qed

lemma str_find_skip:
  "\<forall>c \<in> set x. c \<notin> set pat \<Longrightarrow> pat \<noteq> [] \<Longrightarrow>
   str_find (x @ y) pat 0 = map_option ((+) (length x)) (str_find y pat 0)"
  by (induction x; cases "str_find y pat 0") (auto simp: str_find_sep_first)

definition disposition :: bytes where
  "disposition = [CHR 0x0D, CHR 0x0A] @ ''Content-Disposition: form-data''"

lemma form_headers_split:
  "form_headers f = (disposition @ ''; '') @ ''name='' @ [CHR 0x22] @ mp_name f @
     [CHR 0x22] @ ''; '' @ ''filename='' @ [CHR 0x22] @ mp_filename f @ [CHR 0x22, CHR 0x0D, CHR 0x0A] @
     ''Content-Type:'' @ '' '' @ mp_contentType f"
  by (simp add: form_headers_def disposition_def)

lemma disposition_finds:
  "str_find disposition ''name='' 0 = None"
  "str_find (disposition @ ''; name='') ''filename='' 0 = None"
  "str_find (disposition @ ''; name='') ''Content-Type:'' 0 = None"
  "str_find ''; filename='' ''Content-Type:'' 0 = None"
  "str_find disposition ''Content-Disposition: form-data'' 0 = Some 2"
  by code_simp+

lemma find_name:
  "str_find (form_headers f @ t) ''name='' 0 = Some (length (disposition @ ''; ''))"
proof -
  have "str_find (disposition @ CHR '';'' # CHR '' '' # ''name='' @ r) ''name='' 0 =
      Some (length disposition + 2)" for r
    using str_find_sep [OF _ disposition_finds(1), of "CHR '';''" "CHR '' '' # ''name='' @ r"]
      str_find_sep_first [of "CHR '' ''" "''name=''" "''name='' @ r"] str_find_prefix [of "''name=''" r]
    by simp
  then show ?thesis unfolding form_headers_split by simp
qed

lemma find_filename:
  assumes "attribute_ok (mp_name f)"
  shows "str_find (form_headers f @ t) ''filename='' 0 =
    Some (length (disposition @ ''; name='' @ [CHR 0x22] @ mp_name f @ [CHR 0x22] @ ''; ''))"
proof -
  have n: "str_find (mp_name f) ''filename='' 0 = None" using assms by (simp add: attribute_ok_def)
  have "str_find ((disposition @ ''; name='') @ CHR 0x22 # mp_name f @ CHR 0x22 # CHR '';'' # CHR '' '' # ''filename='' @ r)
      ''filename='' 0 = Some (length (disposition @ ''; name='') + length (mp_name f) + 4)" for r
    using str_find_sep [OF _ disposition_finds(2), of "CHR 0x22"]
      str_find_sep [OF _ n, of "CHR 0x22" "CHR '';'' # CHR '' '' # ''filename='' @ r"]
      str_find_sep_first [of "CHR '';''" "''filename=''" "CHR '' '' # ''filename='' @ r"]
      str_find_sep_first [of "CHR '' ''" "''filename=''" "''filename='' @ r"]
      str_find_prefix [of "''filename=''" r]
    by simp
  then show ?thesis unfolding form_headers_split by simp
qed

lemma find_content_type:
  assumes "attribute_ok (mp_name f)" "attribute_ok (mp_filename f)"
  shows "str_find (form_headers f @ t) ''Content-Type:'' 0 =
    Some (length (disposition @ ''; name='' @ [CHR 0x22] @ mp_name f @ [CHR 0x22] @ ''; filename='' @
      [CHR 0x22] @ mp_filename f @ [CHR 0x22, CHR 0x0D, CHR 0x0A]))"
proof -
  have n: "str_find (mp_name f) ''Content-Type:'' 0 = None" "str_find (mp_filename f) ''Content-Type:'' 0 = None"
    using assms by (simp_all add: attribute_ok_def)
  let ?r = "CHR 0x0D # CHR 0x0A # ''Content-Type:'' @ '' '' @ mp_contentType f @ t"
  have r: "str_find ?r ''Content-Type:'' 0 = Some 2"
    using str_find_sep_first [of "CHR 0x0D" "''Content-Type:''"] str_find_sep_first [of "CHR 0x0A" "''Content-Type:''"]
      str_find_prefix [of "''Content-Type:''" "'' '' @ mp_contentType f @ t"] by simp
  have "str_find ((disposition @ ''; name='') @ CHR 0x22 # mp_name f @ CHR 0x22 # ''; filename='' @ CHR 0x22 #
      mp_filename f @ CHR 0x22 # ?r) ''Content-Type:'' 0 =
      Some (length (disposition @ ''; name='') + length (mp_name f) + length (mp_filename f) + 17)"
    using str_find_sep [OF _ disposition_finds(3), of "CHR 0x22"]
      str_find_sep [OF _ n(1), of "CHR 0x22"] str_find_sep [OF _ disposition_finds(4), of "CHR 0x22"]
      str_find_sep [OF _ n(2), of "CHR 0x22" ?r] r
    by simp
  then show ?thesis unfolding form_headers_split by simp
qed

lemma find_blank_line:
  assumes "attribute_ok (mp_name f)" "attribute_ok (mp_filename f)" "content_type_ok (mp_contentType f)"
  shows "str_find (form_headers f @ CRLFCRLF @ t) CRLFCRLF 0 = Some (length (form_headers f))"
proof -
  let ?x1 = "''ontent-Disposition: form-data; name='' @ [CHR 0x22] @ mp_name f @ [CHR 0x22] @
      ''; filename='' @ [CHR 0x22] @ mp_filename f @ [CHR 0x22]"
  let ?x2 = "''ontent-Type: '' @ mp_contentType f"
  have sets: "set CRLFCRLF = {CHR 0x0D, CHR 0x0A}" "CRLFCRLF \<noteq> []"
    by (auto simp: CRLFCRLF_def)
  have start: "str_find [CHR 0x0D, CHR 0x0A] CRLFCRLF 0 = None" by code_simp
  have free: "\<forall>c \<in> set ?x1. c \<notin> set CRLFCRLF" "\<forall>c \<in> set ?x2. c \<notin> set CRLFCRLF"
    using attribute_okD(5) [OF assms(1)] attribute_okD(5) [OF assms(2)] assms(3)
    by (auto simp: sets content_type_ok_def list_all_iff)
  have s2: "str_find (?x2 @ CRLFCRLF @ t) CRLFCRLF 0 = Some (length ?x2)"
    using str_find_skip [OF free(2) sets(2), of "CRLFCRLF @ t"] str_find_prefix [of CRLFCRLF t] by simp
  have s1: "str_find ([CHR 0x0D, CHR 0x0A] @ CHR ''C'' # ?x2 @ CRLFCRLF @ t) CRLFCRLF 0 = Some (3 + length ?x2)"
    using str_find_sep [OF _ start, of "CHR ''C''" "?x2 @ CRLFCRLF @ t"] s2 by (simp add: sets)
  have s0: "str_find (?x1 @ [CHR 0x0D, CHR 0x0A] @ CHR ''C'' # ?x2 @ CRLFCRLF @ t) CRLFCRLF 0 =
      Some (length ?x1 + (3 + length ?x2))"
    using str_find_skip [OF free(1) sets(2)] s1 by simp
  have "str_find ([CHR 0x0D, CHR 0x0A] @ CHR ''C'' # ?x1 @ [CHR 0x0D, CHR 0x0A] @ CHR ''C'' # ?x2 @ CRLFCRLF @ t)
      CRLFCRLF 0 = Some (3 + (length ?x1 + (3 + length ?x2)))"
    using str_find_sep [OF _ start, of "CHR ''C''"] s0 by (simp add: sets)
  then show ?thesis by (simp add: form_headers_def)
qed

lemma form_content_type_render:
  assumes "attribute_ok (mp_name f)" "attribute_ok (mp_filename f)" "content_type_ok (mp_contentType f)"
  shows "form_content_type (form_headers f @ CHR 0x0D # t) 0 = Inr (mp_contentType f)"
proof -
  let ?p = "\<lambda>c. c \<noteq> CHR 0x0A \<and> c \<noteq> CHR 0x0D"
  let ?u = "disposition @ ''; name='' @ [CHR 0x22] @ mp_name f @ [CHR 0x22] @ ''; filename='' @
      [CHR 0x22] @ mp_filename f @ [CHR 0x22, CHR 0x0D, CHR 0x0A]"
  have ct: "mp_contentType f \<noteq> []" "\<forall>c \<in> set (mp_contentType f). ?p c"
    "hd (mp_contentType f) \<notin> set quote_space" "last (mp_contentType f) \<notin> set quote_space"
    using assms(3) by (auto simp: content_type_ok_def list_all_iff)
  have "form_headers f @ CHR 0x0D # t = ?u @ ''Content-Type:'' @ (CHR '' '' # mp_contentType f) @ CHR 0x0D # t"
    by (simp add: form_headers_split)
  then have "drop (length ?u + length ''Content-Type:'') (form_headers f @ CHR 0x0D # t) =
      (CHR '' '' # mp_contentType f) @ CHR 0x0D # t"
    by (simp only: drop_append drop_shift) simp
  moreover have "takeWhile ?p ((CHR '' '' # mp_contentType f) @ CHR 0x0D # t) = CHR '' '' # mp_contentType f"
    using ct(2) takeWhile_append2 [of "CHR '' '' # mp_contentType f" ?p "CHR 0x0D # t"] by simp
  moreover have "trimCharacters (CHR '' '' # mp_contentType f) quote_space = Inr (mp_contentType f)"
    by (rule trimCharacters_ends(2) [OF ct(1,3,4), where b = "CHR '' ''"]) (simp_all add: quote_space_def)
  ultimately show ?thesis
    by (simp only: form_content_type_def find_content_type [OF assms(1,2)] option.case Let_def) simp
qed

text \<open>The data found: everything up to two bytes before the boundary string.\<close>

definition kept_data :: "bytes \<Rightarrow> MultipartFormDataObject \<Rightarrow> bytes" where
  "kept_data dashes f =
     take (length (mp_data f @ [CHR 0x0D, CHR 0x0A] @ dashes) - 2) (mp_data f @ [CHR 0x0D, CHR 0x0A] @ dashes)"

lemma part_object_render:
  assumes "field_ok boundary dashes f"
  shows "part_object boundary (render_field dashes f @ boundary @ t) = Inr (f\<lparr>mp_data := kept_data dashes f\<rparr>)"
proof -
  have ok: "attribute_ok (mp_name f)" "attribute_ok (mp_filename f)" "content_type_ok (mp_contentType f)"
    and b: "str_find (render_field dashes f @ boundary) boundary 0 = Some (length (render_field dashes f))"
    using assms by (auto simp: field_ok_def)
  let ?t = "CRLFCRLF @ mp_data f @ [CHR 0x0D, CHR 0x0A] @ dashes @ boundary @ t"
  have s: "render_field dashes f @ boundary @ t = form_headers f @ ?t"
    by (simp add: render_field_def)
  have nm: "form_attribute (form_headers f @ ?t) ''name='' 0 = Inr (mp_name f)"
  proof -
    let ?w = "'' filename='' @ [CHR 0x22] @ mp_filename f @ [CHR 0x22, CHR 0x0D, CHR 0x0A] @
        ''Content-Type: '' @ mp_contentType f @ ?t"
    have eq: "form_headers f @ ?t = (disposition @ ''; '') @ ''name='' @ [CHR 0x22] @ mp_name f @ [CHR 0x22, CHR '';''] @ ?w"
      by (simp add: form_headers_split)
    show ?thesis
      unfolding eq by (rule form_attribute_quoted) (use find_name [of f ?t] ok(1) in \<open>simp_all only: eq\<close>, simp_all)
  qed
  have fn: "form_attribute (form_headers f @ ?t) ''filename='' 0 = Inr (mp_filename f)"
  proof -
    let ?u = "disposition @ ''; name='' @ [CHR 0x22] @ mp_name f @ [CHR 0x22] @ ''; ''"
    have eq: "form_headers f @ ?t = ?u @ ''filename='' @ [CHR 0x22] @ mp_filename f @ [CHR 0x22, CHR 0x0D] @
        (CHR 0x0A # ''Content-Type: '' @ mp_contentType f @ ?t)"
      by (simp add: form_headers_split)
    show ?thesis
      unfolding eq
      by (rule form_attribute_quoted) (use find_filename [OF ok(1), of ?t] ok(2) in \<open>simp_all only: eq\<close>, simp_all)
  qed
  have ct: "form_content_type (form_headers f @ ?t) 0 = Inr (mp_contentType f)"
    using form_content_type_render [OF ok] by (simp add: CRLFCRLF_def)
  have bl: "str_find (form_headers f @ ?t) CRLFCRLF 0 = Some (length (form_headers f))"
    by (rule find_blank_line [OF ok])
  have bd: "str_find (form_headers f @ ?t) boundary 0 = Some (length (render_field dashes f))"
    using str_find_extend [OF b, of t] unfolding s [symmetric] by simp
  have "form_data (form_headers f @ ?t) (Some (length (form_headers f))) (Some (length (render_field dashes f))) =
      Inr (kept_data dashes f)"
    using take_append [of "length dashes" "CHR 0x0D # CHR 0x0A # dashes" "boundary @ t"]
    by (simp add: form_data_def render_field_def kept_data_def CRLFCRLF_def)
  with nm fn ct bl bd show ?thesis unfolding s part_object_def by simp
qed

subsection \<open>The whole form\<close>

definition render_form :: "bytes \<Rightarrow> bytes \<Rightarrow> MultipartFormDataObject list \<Rightarrow> bytes" where
  "render_form boundary dashes fs = concat (map (\<lambda>f. boundary @ render_field dashes f) fs) @ boundary"

lemma find_disposition: "str_find (render_field d f @ t) ''Content-Disposition: form-data'' 0 = Some 2"
proof -
  have "render_field d f @ t = disposition @ ''; name='' @ [CHR 0x22] @ mp_name f @
     [CHR 0x22] @ ''; filename='' @ [CHR 0x22] @ mp_filename f @ [CHR 0x22, CHR 0x0D, CHR 0x0A] @
     ''Content-Type: '' @ mp_contentType f @ CRLFCRLF @ mp_data f @ [CHR 0x0D, CHR 0x0A] @ d @ t"
    by (simp add: render_field_def form_headers_def disposition_def)
  then show ?thesis using str_find_extend [OF disposition_finds(5)] by simp
qed

lemma form_loop_render:
  assumes "boundary \<noteq> []" "str_find tail ''Content-Disposition: form-data'' 0 = None"
  shows "\<forall>f \<in> set fs. field_ok boundary dashes f \<Longrightarrow>
    form_loop boundary (x @ render_form boundary dashes fs @ tail) (Some (length x)) m =
    Inr (fold (\<lambda>f m. emplace (mp_name f) (f\<lparr>mp_data := kept_data dashes f\<rparr>) m) fs m)"
proof (induction fs arbitrary: x m)
  case Nil
  have "str_find ((x @ boundary) @ tail) ''Content-Disposition: form-data'' (length (x @ boundary)) = None"
    unfolding str_find_shift using assms(2) by simp
  then show ?case by (simp add: render_form_def)
next
  case (Cons f fs)
  let ?r = "render_form boundary dashes fs @ tail"
  let ?body = "x @ boundary @ render_field dashes f @ ?r"
  have ok: "field_ok boundary dashes f" using Cons.prems by simp
  then have name: "mp_name f \<noteq> []" by (simp add: field_ok_def attribute_ok_def)
  obtain r' where r': "?r = boundary @ r'"
    by (cases fs) (simp_all add: render_form_def)
  have body: "x @ render_form boundary dashes (f # fs) @ tail = ?body" by (simp add: render_form_def)
  have disp: "str_find ((x @ boundary) @ render_field dashes f @ ?r) ''Content-Disposition: form-data''
      (length (x @ boundary)) \<noteq> None"
    unfolding str_find_shift using find_disposition by simp
  have b: "str_find (render_field dashes f @ ?r) boundary 0 = Some (length (render_field dashes f))"
    using str_find_extend [of "render_field dashes f @ boundary" boundary _ r'] ok unfolding r'
    by (simp add: field_ok_def)
  have part: "form_part boundary ?body (length x) =
      Inr (f\<lparr>mp_data := kept_data dashes f\<rparr>, Some (length (x @ boundary @ render_field dashes f)))"
    using form_part_shift [of boundary x "render_field dashes f @ ?r"] part_object_render [OF ok, of r'] b
    unfolding r' by (simp add: add.assoc)
  have "form_loop boundary ?body (Some (length x)) m =
      form_loop boundary ?body (Some (length (x @ boundary @ render_field dashes f)))
        (emplace (mp_name f) (f\<lparr>mp_data := kept_data dashes f\<rparr>) m)"
    using assms(1) disp part name unfolding form_loop.simps(2) [of boundary ?body "length x" m]
    by (auto simp del: form_loop.simps)
  also have "?body = (x @ boundary @ render_field dashes f) @ ?r" by simp
  finally show ?case unfolding body
    using Cons.IH [of "x @ boundary @ render_field dashes f"] Cons.prems by (simp del: form_loop.simps)
qed

lemma fold_emplace:
  "fold (\<lambda>f m. emplace (g f) (h f) m) fs m = m ++ map_of (map (\<lambda>f. (g f, h f)) fs) |` (- dom m)"
proof (induction fs arbitrary: m)
  case (Cons f fs)
  show ?case
    unfolding fold_Cons comp_def Cons.IH
    by (rule ext) (auto simp: emplace_def map_add_def restrict_map_def split: option.splits)
qed (simp add: restrict_map_def map_add_def fun_eq_iff)

text \<open>
  C22: round trip of multipart forms. For every list of fields with proper names, file names and
  types whose content does not contain the boundary, the body made of the boundary string and
  the rendered fields is parsed back to these fields (the first of two with the same name). The
  data of a field is what lies between its blank line and two bytes before the next boundary
  string: exactly the data when the delimiter line is the boundary string itself, but the data
  and a line break when it is \<^verbatim>\<open>--\<close> and the boundary string, as RFC 2046 prescribes.
\<close>

theorem multipartFormData_roundtrip:
  assumes "req_headers req ''content-type'' = Some (''multipart/form-data; boundary='' @ boundary)"
    and "boundary \<noteq> []" "req_body req = dashes @ render_form boundary dashes fs @ tail"
    and "str_find (dashes @ boundary) boundary 0 = Some (length dashes)"
    and "list_all (field_ok boundary dashes) fs"
    and "str_find tail ''Content-Disposition: form-data'' 0 = None"
  shows "multipartFormData req =
      Inr (map_of (map (\<lambda>f. (mp_name f, f\<lparr>mp_data := kept_data dashes f\<rparr>)) fs)) \<and>
    (\<forall>f. kept_data [] f = mp_data f \<and> kept_data ''--'' f = mp_data f @ [CHR 0x0D, CHR 0x0A])"
proof
  let ?h = "''multipart/form-data; boundary='' @ boundary"
  have h1: "str_find ?h ''boundary='' 0 = Some 21"
  proof -
    have "str_find ''multipart/form-data; boundary='' ''boundary='' 0 = Some 21" by code_simp
    from str_find_extend [OF this] show ?thesis by simp
  qed
  have h2: "str_find ?h ''multipart/form-data'' 0 = Some 0"
    using str_find_prefix [of "''multipart/form-data''" "''; boundary='' @ boundary"] by simp
  obtain r' where r': "render_form boundary dashes fs @ tail = boundary @ r'"
    by (cases fs) (simp_all add: render_form_def)
  have first: "str_find (req_body req) boundary 0 = Some (length dashes)"
    using str_find_extend [OF assms(4), of r'] assms(3) r' by simp
  have "form_loop boundary (req_body req) (Some (length dashes)) Map.empty =
      Inr (fold (\<lambda>f m. emplace (mp_name f) (f\<lparr>mp_data := kept_data dashes f\<rparr>) m) fs Map.empty)"
    unfolding assms(3) using form_loop_render [OF assms(2,6)] assms(5) by (simp add: list_all_iff)
  then show "multipartFormData req =
      Inr (map_of (map (\<lambda>f. (mp_name f, f\<lparr>mp_data := kept_data dashes f\<rparr>)) fs))"
    using assms(1,2) h1 h2 first
    by (simp add: multipartFormData_def getHeaderRef_def fold_emplace restrict_map_def)
  show "\<forall>f. kept_data [] f = mp_data f \<and> kept_data ''--'' f = mp_data f @ [CHR 0x0D, CHR 0x0A]"
    by (simp add: kept_data_def)
qed

definition sample_field :: MultipartFormDataObject where
  "sample_field = \<lparr>mp_data = ''123'', mp_name = ''field'', mp_filename = ''a.txt'', mp_contentType = ''text/plain''\<rparr>"

definition form_request :: "bytes \<Rightarrow> bytes \<Rightarrow> Request" where
  "form_request boundary body = the (requestFactory True 5 0)\<lparr>req_body := body,
     req_headers := [''content-type'' \<mapsto> ''multipart/form-data; boundary='' @ boundary]\<rparr>"

theorem multipartFormData_roundtrip_witness:
  "multipartFormData (form_request ''XyZ'' (''--'' @ render_form ''XyZ'' ''--'' [sample_field] @ ''--'')) =
   Inr [''field'' \<mapsto> sample_field\<lparr>mp_data := [CHR ''1'', CHR ''2'', CHR ''3'', CHR 0x0D, CHR 0x0A]\<rparr>]"
proof -
  have "multipartFormData (form_request ''XyZ'' (''--'' @ render_form ''XyZ'' ''--'' [sample_field] @ ''--'')) =
      Inr (map_of (map (\<lambda>f. (mp_name f, f\<lparr>mp_data := kept_data ''--'' f\<rparr>)) [sample_field]))"
  proof (rule multipartFormData_roundtrip [THEN conjunct1])
    show "str_find (''--'' @ ''XyZ'') ''XyZ'' 0 = Some (length ''--'')" by code_simp
    show "list_all (field_ok ''XyZ'' ''--'') [sample_field]" by code_simp
    show "str_find ''--'' ''Content-Disposition: form-data'' 0 = None" by code_simp
  qed (simp_all add: form_request_def)
  then show ?thesis by (simp add: kept_data_def sample_field_def)
qed

definition leaking_body :: bytes where
  "leaking_body = ''--b'' @ [CHR 0x0D, CHR 0x0A] @ ''Content-Disposition: form-data; name=x'' @ CRLFCRLF @ ''1'' @
     [CHR 0x0D, CHR 0x0A] @ ''--b'' @ render_field [] sample_field @ ''--b''"

definition reversed_body :: bytes where
  "reversed_body = ''--b'' @ [CHR 0x0D, CHR 0x0A] @ ''Content-Disposition: form-data; name=x'' @
     [CHR 0x0D, CHR 0x0A] @ ''--b'' @ CRLFCRLF"

text \<open>
  Attributes leak from one part into another. The searches for \<^verbatim>\<open>filename=\<close> and
  \<^verbatim>\<open>Content-Type:\<close> do not stop at the end of a part, so a plain field that precedes an uploaded
  file is given the file's name and type; and a part without a blank line before the next
  boundary makes \<^verbatim>\<open>std::copy\<close> run over a reversed range.
\<close>

theorem multipartFormData_leaks:
  "(case multipartFormData (form_request ''--b'' leaking_body) of
      Inr m \<Rightarrow> m ''x'' = Some \<lparr>mp_data = ''1'', mp_name = ''x'', mp_filename = ''a.txt'', mp_contentType = ''text/plain''\<rparr> \<and>
        m ''field'' = Some sample_field
    | Inl e \<Rightarrow> False) \<and>
   multipartFormData (form_request ''--b'' reversed_body) = Inl Undefined"
proof
  show "case multipartFormData (form_request ''--b'' leaking_body) of
      Inr m \<Rightarrow> m ''x'' = Some \<lparr>mp_data = ''1'', mp_name = ''x'', mp_filename = ''a.txt'', mp_contentType = ''text/plain''\<rparr> \<and>
        m ''field'' = Some sample_field
    | Inl e \<Rightarrow> False" by code_simp
  have "case multipartFormData (form_request ''--b'' reversed_body) of Inl Undefined \<Rightarrow> True | _ \<Rightarrow> False"
    by code_simp
  then show "multipartFormData (form_request ''--b'' reversed_body) = Inl Undefined"
    by (auto split: sum.splits cxx_error.splits)
qed

end
