(* ===== verification/ResponseStates.thy ===== *)
theory ResponseStates
  imports StdString
begin

text \<open>
  The status codes and reason phrases (\<^verbatim>\<open>response/response-states.h\<close>): the whole table in the
  order of the header, in two parts, and the constants the rest of the program names.
\<close>

type_synonym response_state = "int \<times> bytes"

definition ResponseState_success :: "response_state list" where
  "ResponseState_success =
    [(100, ''Continue''),
     (101, ''Switching protocols''),
     (102, ''Processing''),
     (200, ''OK''),
     (201, ''Created''),
     (202, ''Accepted''),
     (203, ''Authoritative Information''),
     (204, ''No Content''),
     (205, ''Reset Content''),
     (206, ''Partial Content''),
     (207, ''Multi - Status''),
     (208, ''Already Reported''),
     (226, ''IM Used''),
     (300, ''Multiple Choices''),
     (301, ''Moved Permanently''),
     (302, ''Moved Temporarily''),
     (302, ''Found''),
     (303, ''See Other''),
     (304, ''Not Modified''),
     (305, ''Use Proxy''),
     (307, ''Temporary Redirect''),
     (308, ''Permanent Redirect'')]"

definition ResponseState_errors :: "response_state list" where
  "ResponseState_errors =
    [(400, ''Bad Request''),
     (401, ''Unauthorized''),
     (402, ''Payment Required''),
     (403, ''Forbidden''),
     (404, ''Not Found''),
     (405, ''Method Not Allowed''),
     (406, ''Not Acceptable''),
     (407, ''Proxy Authentication Required''),
     (408, ''Request Timeout''),
     (409, ''Conflict''),
     (410, ''Gone''),
     (411, ''Length Required''),
     (412, ''Precondition Failed''),
     (413, ''Payload Too Large''),
     (414, ''URI Too Long''),
     (415, ''Unsupported Media Type''),
     (416, ''Range Not Satisfiable''),
     (417, ''Expectation Failed''),
     (418, ''I'' @ [CHR 0xE2] @ [CHR 0x80] @ [CHR 0x99] @ ''m a teapot''),
     (419, ''Authentication Timeout''),
     (421, ''Misdirected Request''),
     (422, ''Unprocessable Entity''),
     (423, ''Locked''),
     (424, ''Failed Dependency''),
     (426, ''Upgrade Required''),
     (428, ''Precondition Required''),
     (429, ''Too Many Requests''),
     (431, ''Request Header Fields Too Large''),
     (449, ''Retry With''),
     (451, ''Unavailable For Legal Reasons''),
     (499, ''Client Closed Request''),
     (500, ''Internal Server Error''),
     (501, ''Not Implemented''),
     (502, ''Bad Gateway''),
     (503, ''Service Unavailable''),
     (504, ''Gateway Timeout''),
     (505, ''HTTP Version Not Supported''),
     (506, ''Variant Also Negotiates''),
     (507, ''Insufficient Storage''),
     (508, ''Loop Detected''),
     (509, ''Bandwidth Limit Exceeded''),
     (510, ''Not Extended''),
     (511, ''Network Authentication Required''),
     (520, ''Unknown Error''),
     (521, ''Web Server Is Down''),
     (522, ''Connection Timed Out''),
     (523, ''Origin Is Unreachable''),
     (524, ''A Timeout Occurred''),
     (525, ''SSL Handshake Failed''),
     (526, ''Invalid SSL Certificate'')]"

definition RESPONSE_STATE_OK :: response_state where
  "RESPONSE_STATE_OK = (200, ''OK'')"

definition RESPONSE_STATE_PARTIAL_CONTENT :: response_state where
  "RESPONSE_STATE_PARTIAL_CONTENT = (206, ''Partial Content'')"

definition RESPONSE_STATE_FORBIDDEN :: response_state where
  "RESPONSE_STATE_FORBIDDEN = (403, ''Forbidden'')"

definition RESPONSE_STATE_NOT_FOUND :: response_state where
  "RESPONSE_STATE_NOT_FOUND = (404, ''Not Found'')"

definition RESPONSE_STATE_METHOD_REQUEST_TIMEOUT :: response_state where
  "RESPONSE_STATE_METHOD_REQUEST_TIMEOUT = (408, ''Request Timeout'')"

definition RESPONSE_STATE_PAYLOAD_TOO_LARGE :: response_state where
  "RESPONSE_STATE_PAYLOAD_TOO_LARGE = (413, ''Payload Too Large'')"

definition RESPONSE_STATE_RANGE_NOT_SATISFIABLE :: response_state where
  "RESPONSE_STATE_RANGE_NOT_SATISFIABLE = (416, ''Range Not Satisfiable'')"

definition RESPONSE_STATE_SERVICE_UNAVAILABLE :: response_state where
  "RESPONSE_STATE_SERVICE_UNAVAILABLE = (503, ''Service Unavailable'')"

lemmas state_defs = RESPONSE_STATE_OK_def RESPONSE_STATE_PARTIAL_CONTENT_def RESPONSE_STATE_FORBIDDEN_def RESPONSE_STATE_NOT_FOUND_def RESPONSE_STATE_METHOD_REQUEST_TIMEOUT_def RESPONSE_STATE_PAYLOAD_TOO_LARGE_def RESPONSE_STATE_RANGE_NOT_SATISFIABLE_def RESPONSE_STATE_SERVICE_UNAVAILABLE_def

text \<open>Every code has three digits and every phrase is text, so every status line parses.\<close>

definition state_ok :: "response_state \<Rightarrow> bool" where
  "state_ok st \<longleftrightarrow> 100 \<le> fst st \<and> fst st \<le> 599 \<and> list_all istext (snd st)"

lemma ResponseState_success_ok: "list_all state_ok ResponseState_success"
  by (simp add: ResponseState_success_def state_ok_def)

lemma ResponseState_errors_ok: "list_all state_ok ResponseState_errors"
  by (simp add: ResponseState_errors_def state_ok_def)

lemma used_states_in_table:
  "RESPONSE_STATE_OK \<in> set ResponseState_success"
  "RESPONSE_STATE_PARTIAL_CONTENT \<in> set ResponseState_success"
  "RESPONSE_STATE_FORBIDDEN \<in> set ResponseState_errors"
  "RESPONSE_STATE_NOT_FOUND \<in> set ResponseState_errors"
  "RESPONSE_STATE_METHOD_REQUEST_TIMEOUT \<in> set ResponseState_errors"
  "RESPONSE_STATE_PAYLOAD_TOO_LARGE \<in> set ResponseState_errors"
  "RESPONSE_STATE_RANGE_NOT_SATISFIABLE \<in> set ResponseState_errors"
  "RESPONSE_STATE_SERVICE_UNAVAILABLE \<in> set ResponseState_errors"
  by (simp_all add: ResponseState_success_def ResponseState_errors_def state_defs)

lemma used_states_ok:
  "state_ok RESPONSE_STATE_OK" "state_ok RESPONSE_STATE_PARTIAL_CONTENT"
  "state_ok RESPONSE_STATE_FORBIDDEN" "state_ok RESPONSE_STATE_NOT_FOUND"
  "state_ok RESPONSE_STATE_METHOD_REQUEST_TIMEOUT" "state_ok RESPONSE_STATE_PAYLOAD_TOO_LARGE"
  "state_ok RESPONSE_STATE_RANGE_NOT_SATISFIABLE" "state_ok RESPONSE_STATE_SERVICE_UNAVAILABLE"
  using used_states_in_table ResponseState_success_ok ResponseState_errors_ok
  by (auto simp: list_all_iff)

end
