(* ===== verification/MimeTypes.thy ===== *)
theory MimeTypes
  imports StdString
begin

text \<open>
  Content types (\<^verbatim>\<open>mime/types.h\<close>, \<^verbatim>\<open>mime/types.cpp\<close>): the table of the constants, by name, the
  constants the program uses, and the map from file extensions built by
  \<^verbatim>\<open>generateMimeTypesMap\<close>.
\<close>

definition MimeType :: "(bytes \<times> bytes) list" where
  "MimeType =
    [(''MIME_TYPE_APPLICATION_ATOM'', ''application/atom+xml''),
     (''MIME_TYPE_APPLICATION_EDI_X12'', ''application/EDI-X12''),
     (''MIME_TYPE_APPLICATION_EDIFACT'', ''application/EDIFACT''),
     (''MIME_TYPE_APPLICATION_JSON'', ''application/json; charset=utf-8''),
     (''MIME_TYPE_APPLICATION_JAVASCRIPT'', ''application/javascript''),
     (''MIME_TYPE_APPLICATION_OCTET_STREAM'', ''application/octet-stream''),
     (''MIME_TYPE_APPLICATION_OGG'', ''application/ogg''),
     (''MIME_TYPE_APPLICATION_PDF'', ''application/pdf; charset=utf-8''),
     (''MIME_TYPE_APPLICATION_POSTSCRIPT'', ''application/postscript''),
     (''MIME_TYPE_APPLICATION_SOAP'', ''application/soap+xml''),
     (''MIME_TYPE_APPLICATION_FONT_WOFF'', ''application/font-woff''),
     (''MIME_TYPE_APPLICATION_XHTML'', ''application/xhtml+xml''),
     (''MIME_TYPE_APPLICATION_DTD'', ''application/xml-dtd''),
     (''MIME_TYPE_APPLICATION_XOP'', ''application/xop+xml''),
     (''MIME_TYPE_APPLICATION_ZIP'', ''application/zip''),
     (''MIME_TYPE_APPLICATION_GZIP'', ''application/gzip''),
     (''MIME_TYPE_APPLICATION_BITTORRENT'', ''application/x-bittorrent''),
     (''MIME_TYPE_APPLICATION_TEX'', ''application/x-tex''),
     (''MIME_TYPE_APPLICATION_XML'', ''application/xml; charset=utf-8''),
     (''MIME_TYPE_AUDIO_MULAW'', ''audio/basic''),
     (''MIME_TYPE_AUDIO_LINEAR_PCM'', ''audio/L24''),
     (''MIME_TYPE_AUDIO_MP4'', ''audio/mp4''),
     (''MIME_TYPE_AUDIO_AAC'', ''audio/aac''),
     (''MIME_TYPE_AUDIO_MP3'', ''audio/mpeg''),
     (''MIME_TYPE_AUDIO_OGG'', ''audio/ogg''),
     (''MIME_TYPE_AUDIO_VORBIS'', ''audio/vorbis''),
     (''MIME_TYPE_AUDIO_WINDOWS_MEDIA_AUDIO'', ''audio/x-ms-wma''),
     (''MIME_TYPE_AUDIO_WINDOWS_MEDIA_AUDIO_2'', ''audio/x-ms-wax''),
     (''MIME_TYPE_AUDIO_REAL_AUDO'', ''audio/vnd.rn-realaudio''),
     (''MIME_TYPE_AUDIO_WAV'', ''audio/vnd.wave''),
     (''MIME_TYPE_AUDIO_WEBM'', ''audio/webm''),
     (''MIME_TYPE_IMAGE_GIF'', ''image/gif''),
     (''MIME_TYPE_IMAGE_JPEG'', ''image/jpeg''),
     (''MIME_TYPE_IMAGE_PJPEG'', ''image/pjpeg''),
     (''MIME_TYPE_IMAGE_PNG'', ''image/png''),
     (''MIME_TYPE_IMAGE_SVG'', ''image/svg+xml''),
     (''MIME_TYPE_IMAGE_TIFF'', ''image/tiff''),
     (''MIME_TYPE_IMAGE_ICO'', ''image/vnd.microsoft.icon''),
     (''MIME_TYPE_IMAGE_WBMP'', ''image/vnd.wap.wbmp''),
     (''MIME_TYPE_IMAGE_WEBP'', ''image/webp''),
     (''MIME_TYPE_MESSAGE_HTTP'', ''message/http''),
     (''MIME_TYPE_MESSAGE_IMDN'', ''message/imdn+xml''),
     (''MIME_TYPE_MESSAGE_EMAIL'', ''message/partial''),
     (''MIME_TYPE_MESSAGE_EMAIL_2'', ''message/rfc822''),
     (''MIME_TYPE_MODEL_EXAMPLE'', ''model/example''),
     (''MIME_TYPE_MODEL_IGS'', ''model/iges''),
     (''MIME_TYPE_MODEL_MSH'', ''model/mesh''),
     (''MIME_TYPE_MODEL_WRL'', ''model/vrml''),
     (''MIME_TYPE_X3D_ISO'', ''model/x3d+binary''),
     (''MIME_TYPE_X3D_ISO_2'', ''model/x3d+vrml''),
     (''MIME_TYPE_X3D_ISO_3'', ''model/x3d+xml''),
     (''MIME_TYPE_MULTIPART_MIXED'', ''multipart/mixed''),
     (''MIME_TYPE_MULTIPART_ALTERNATIVE'', ''multipart/alternative''),
     (''MIME_TYPE_MULTIPART_RELATED'', ''multipart/related''),
     (''MIME_TYPE_MULTIPART_WEB_FORM'', ''multipart/form-data''),
     (''MIME_TYPE_MULTIPART_SIGNED'', ''multipart/signed''),
     (''MIME_TYPE_MULTIPART_ENCRYPTED'', ''multipart/encrypted''),
     (''MIME_TYPE_MULTIPART_BYTES_RANGES'', ''multipart/byteranges; boundary=3d6b6a416f9b5''),
     (''MIME_TYPE_TEXT_CMD'', ''text/cmd''),
     (''MIME_TYPE_TEXT_CSS'', ''text/css''),
     (''MIME_TYPE_TEXT_CSV'', ''text/csv''),
     (''MIME_TYPE_TEXT_HTML'', ''text/html; charset=utf-8''),
     (''MIME_TYPE_TEXT_JAVASCRIPT'', ''text/javascript''),
     (''MIME_TYPE_TEXT_PLAIN'', ''text/plain''),
     (''MIME_TYPE_TEXT_PHP'', ''text/php''),
     (''MIME_TYPE_TEXT_XML'', ''text/xml''),
     (''MIME_TYPE_TEXT_MARKDOWN'', ''text/markdown''),
     (''MIME_TYPE_TEXT_CACHE_MANIFEST'', ''text/cache-manifest''),
     (''MIME_TYPE_VIDEO_MPEG'', ''video/mpeg''),
     (''MIME_TYPE_VIDEO_MP4'', ''video/mp4''),
     (''MIME_TYPE_VIDEO_OGG'', ''video/ogg''),
     (''MIME_TYPE_VIDEO_QUICKTIME'', ''video/quicktime''),
     (''MIME_TYPE_VIDEO_WEBM'', ''video/webm''),
     (''MIME_TYPE_VIDEO_WINDOWS_MEDIA_VIDEO'', ''video/x-ms-wmv''),
     (''MIME_TYPE_VIDEO_FLV'', ''video/x-flv''),
     (''MIME_TYPE_VIDEO_GPP'', ''video/3gpp''),
     (''MIME_TYPE_VIDEO_GPP2'', ''video/3gpp2''),
     (''MIME_TYPE_VND_OPEN_DOCUMENT_TEXT'', ''application/vnd.oasis.opendocument.text''),
     (''MIME_TYPE_VND_OPEN_DOCUMENT_SPREADSHEET'', ''application/vnd.oasis.opendocument.spreadsheet''),
     (''MIME_TYPE_VND_OPEN_DOCUMENT_PRESENTATION'', ''application/vnd.oasis.opendocument.presentation''),
     (''MIME_TYPE_VND_OPEN_DOCUMENT_GRAPHICS'', ''application/vnd.oasis.opendocument.graphics''),
     (''MIME_TYPE_VND_MICROSOFT_EXCEL'', ''application/vnd.ms-excel''),
     (''MIME_TYPE_VND_MICROSOFT_EXCEL_2007'', ''application/vnd.openxmlformats-officedocument.spreadsheetml.sheet''),
     (''MIME_TYPE_VND_MICROSOFT_POWERPOINT'', ''application/vnd.ms-powerpoint''),
     (''MIME_TYPE_VND_MICROSOFT_POWERPOINT_2007'', ''application/vnd.openxmlformats-officedocument.presentationml.presentation''),
     (''MIME_TYPE_VND_MICROSOFT_WORD'', ''application/msword''),
     (''MIME_TYPE_VND_MICROSOFT_WORD_2007'', ''application/vnd.openxmlformats-officedocument.wordprocessingml.document''),
     (''MIME_TYPE_VND_MOZILLA_XUL'', ''application/vnd.mozilla.xul+xml''),
     (''MIME_TYPE_VND_KML'', ''application/vnd.google-earth.kml+xml''),
     (''MIME_TYPE_X_FORM_ENCODED_DATA'', ''application/x-www-form-urlencoded''),
     (''MIME_TYPE_X_DVI'', ''application/x-dvi''),
     (''MIME_TYPE_X_LATEX'', ''application/x-latex''),
     (''MIME_TYPE_X_TRUE_TYPE'', ''application/x-font-ttf''),
     (''MIME_TYPE_X_ADOBE_FLASH'', ''application/x-shockwave-flash''),
     (''MIME_TYPE_X_STUFFIT'', ''application/x-stuffit''),
     (''MIME_TYPE_X_RAR'', ''application/x-rar-compressed''),
     (''MIME_TYPE_X_TARBALL'', ''application/x-tar''),
     (''MIME_TYPE_X_JQUERY'', ''text/x-jquery-tmpl''),
     (''MIME_TYPE_X_PKCS_P12'', ''application/x-pkcs12''),
     (''MIME_TYPE_X_PKCS_PFX'', ''application/x-pkcs12''),
     (''MIME_TYPE_X_PKCS_P7B'', ''application/x-pkcs7-certificates''),
     (''MIME_TYPE_X_PKCS_SPC'', ''application/x-pkcs7-certificates''),
     (''MIME_TYPE_X_PKCS_P7R'', ''application/x-pkcs7-certreqresp''),
     (''MIME_TYPE_X_PKCS_P7C'', ''application/x-pkcs7-mime''),
     (''MIME_TYPE_X_PKCS_P7M'', ''application/x-pkcs7-mime''),
     (''MIME_TYPE_X_PKCS_P7S'', ''application/x-pkcs7-signature'')]"

definition MIME_TYPE_APPLICATION_JSON :: bytes where
  "MIME_TYPE_APPLICATION_JSON = ''application/json; charset=utf-8''"

definition MIME_TYPE_APPLICATION_JAVASCRIPT :: bytes where
  "MIME_TYPE_APPLICATION_JAVASCRIPT = ''application/javascript''"

definition MIME_TYPE_APPLICATION_OCTET_STREAM :: bytes where
  "MIME_TYPE_APPLICATION_OCTET_STREAM = ''application/octet-stream''"

definition MIME_TYPE_APPLICATION_PDF :: bytes where
  "MIME_TYPE_APPLICATION_PDF = ''application/pdf; charset=utf-8''"

definition MIME_TYPE_APPLICATION_FONT_WOFF :: bytes where
  "MIME_TYPE_APPLICATION_FONT_WOFF = ''application/font-woff''"

definition MIME_TYPE_APPLICATION_XML :: bytes where
  "MIME_TYPE_APPLICATION_XML = ''application/xml; charset=utf-8''"

definition MIME_TYPE_IMAGE_JPEG :: bytes where
  "MIME_TYPE_IMAGE_JPEG = ''image/jpeg''"

definition MIME_TYPE_IMAGE_PNG :: bytes where
  "MIME_TYPE_IMAGE_PNG = ''image/png''"

definition MIME_TYPE_IMAGE_SVG :: bytes where
  "MIME_TYPE_IMAGE_SVG = ''image/svg+xml''"

definition MIME_TYPE_MULTIPART_BYTES_RANGES :: bytes where
  "MIME_TYPE_MULTIPART_BYTES_RANGES = ''multipart/byteranges; boundary=3d6b6a416f9b5''"

definition MIME_TYPE_TEXT_CSS :: bytes where
  "MIME_TYPE_TEXT_CSS = ''text/css''"

definition MIME_TYPE_TEXT_HTML :: bytes where
  "MIME_TYPE_TEXT_HTML = ''text/html; charset=utf-8''"

definition MIME_TYPE_TEXT_PLAIN :: bytes where
  "MIME_TYPE_TEXT_PLAIN = ''text/plain''"

lemmas mime_defs =
  MIME_TYPE_APPLICATION_JSON_def
  MIME_TYPE_APPLICATION_JAVASCRIPT_def
  MIME_TYPE_APPLICATION_OCTET_STREAM_def
  MIME_TYPE_APPLICATION_PDF_def
  MIME_TYPE_APPLICATION_FONT_WOFF_def
  MIME_TYPE_APPLICATION_XML_def
  MIME_TYPE_IMAGE_JPEG_def
  MIME_TYPE_IMAGE_PNG_def
  MIME_TYPE_IMAGE_SVG_def
  MIME_TYPE_MULTIPART_BYTES_RANGES_def
  MIME_TYPE_TEXT_CSS_def
  MIME_TYPE_TEXT_HTML_def
  MIME_TYPE_TEXT_PLAIN_def

definition generateMimeTypesMap :: "bytes \<rightharpoonup> bytes" where
  "generateMimeTypesMap =
     [''css'' \<mapsto> MIME_TYPE_TEXT_CSS,
      ''html'' \<mapsto> MIME_TYPE_TEXT_HTML,
      ''jpg'' \<mapsto> MIME_TYPE_IMAGE_JPEG,
      ''png'' \<mapsto> MIME_TYPE_IMAGE_PNG,
      ''json'' \<mapsto> MIME_TYPE_APPLICATION_JSON,
      ''jpeg'' \<mapsto> MIME_TYPE_IMAGE_JPEG,
      ''js'' \<mapsto> MIME_TYPE_APPLICATION_JAVASCRIPT,
      ''woff2'' \<mapsto> MIME_TYPE_APPLICATION_FONT_WOFF,
      ''svg'' \<mapsto> MIME_TYPE_IMAGE_SVG]"

lemma mime_text: "list_all (\<lambda>(n, t). t \<noteq> [] \<and> list_all istext t) MimeType"
  by (simp add: MimeType_def)

text \<open>Every type the map can answer with is one of the constants of the table.\<close>

lemma used_mime_in_table:
  "list_all (\<lambda>t. t \<in> set (map snd MimeType))
     [MIME_TYPE_APPLICATION_JSON, MIME_TYPE_APPLICATION_JAVASCRIPT,
      MIME_TYPE_APPLICATION_OCTET_STREAM, MIME_TYPE_APPLICATION_PDF,
      MIME_TYPE_APPLICATION_FONT_WOFF, MIME_TYPE_APPLICATION_XML, MIME_TYPE_IMAGE_JPEG,
      MIME_TYPE_IMAGE_PNG, MIME_TYPE_IMAGE_SVG, MIME_TYPE_MULTIPART_BYTES_RANGES,
      MIME_TYPE_TEXT_CSS, MIME_TYPE_TEXT_HTML, MIME_TYPE_TEXT_PLAIN]"
  by (simp add: MimeType_def mime_defs)

lemma generateMimeTypesMap_in_table:
  "generateMimeTypesMap ext = Some t \<Longrightarrow> t \<in> set (map snd MimeType)"
  using used_mime_in_table by (auto simp: generateMimeTypesMap_def list_all_iff split: if_splits)

end
