(* ===== verification/Response.thy ===== *)
theory Response
  imports Pico_Grammar ResponseStates MimeTypes "HOL-Library.AList" "HOL-Library.Multiset"
begin

text \<open>
  Responses (\<^verbatim>\<open>response/response-base.h\<close>, \<^verbatim>\<open>response/response-base.cpp\<close> and the classes derived
  from \<^verbatim>\<open>ResponseBase\<close>): the record, its operations, the formatting of the header into a
  4096-byte array and the responses the program builds. The result is read back with the
  response parser.
\<close>

subsection \<open>printf and strftime\<close>

datatype printf_arg = Arg_d int | Arg_s bytes

definition int_to_string :: "int \<Rightarrow> bytes" where
  "int_to_string i = (if i < 0 then CHR ''-'' # to_string (nat (- i)) else to_string (nat i))"

text \<open>
  The conversions \<^verbatim>\<open>%d\<close> and \<^verbatim>\<open>%s\<close> of \<^verbatim>\<open>snprintf\<close>; a missing argument, one of the wrong type
  and any other conversion are undefined.
\<close>

fun printf :: "bytes \<Rightarrow> printf_arg list \<Rightarrow> bytes res" where
  "printf [] args = Inr []"
| "printf (c # f) args =
     (if c \<noteq> CHR ''%'' then bind_res (printf f args) (\<lambda>s. Inr (c # s))
      else (case f of
              [] \<Rightarrow> Inl Undefined
            | t # f' \<Rightarrow>
                (case args of
                   [] \<Rightarrow> Inl Undefined
                 | Arg_d i # as \<Rightarrow>
                     if t = CHR ''d'' then bind_res (printf f' as) (\<lambda>s. Inr (int_to_string i @ s))
                     else Inl Undefined
                 | Arg_s v # as \<Rightarrow>
                     if t = CHR ''s'' then bind_res (printf f' as) (\<lambda>s. Inr (c_str v @ s))
                     else Inl Undefined)))"

text \<open>\<^verbatim>\<open>snprintf(buffer, n, ...)\<close> keeps the first \<open>n - 1\<close> bytes and adds the NUL.\<close>

definition snprintf :: "nat \<Rightarrow> bytes \<Rightarrow> printf_arg list \<Rightarrow> bytes res" where
  "snprintf n f args = bind_res (printf f args) (\<lambda>s. Inr (take (n - 1) s @ [CHR 0x00]))"

text \<open>The broken-down local time and its format \<^verbatim>\<open>%Y-%m-%d %H:%M:%S\<close>.\<close>

record tm =
  tm_year :: nat
  tm_mon :: nat
  tm_mday :: nat
  tm_hour :: nat
  tm_min :: nat
  tm_sec :: nat

definition two_digits :: "nat \<Rightarrow> bytes" where
  "two_digits n = (if n < 10 then CHR ''0'' # to_string n else to_string n)"

definition strftime :: "tm \<Rightarrow> bytes" where
  "strftime t = to_string (tm_year t + 1900) @ ''-'' @ two_digits (tm_mon t + 1) @ ''-'' @
     two_digits (tm_mday t) @ '' '' @ two_digits (tm_hour t) @ '':'' @ two_digits (tm_min t) @
     '':'' @ two_digits (tm_sec t)"

subsection \<open>The response object\<close>

type_synonym header_map = "(bytes \<times> bytes) list"

record ResponseBase =
  resp_header :: bytes
  resp_body :: bytes
  resp_code :: int
  codeMsg :: bytes
  mimeType :: bytes
  compress :: bool
  m_headers :: header_map

definition ResponseBase_new ::
  "int \<Rightarrow> bytes \<Rightarrow> bytes \<Rightarrow> bytes \<Rightarrow> bool \<Rightarrow> ResponseBase" where
  "ResponseBase_new c m mime b z =
     \<lparr>resp_header = [], resp_body = b, resp_code = c, codeMsg = m, mimeType = mime,
      compress = z, m_headers = []\<rparr>"

definition ResponseBase_empty :: "int \<Rightarrow> bytes \<Rightarrow> bytes \<Rightarrow> bool \<Rightarrow> ResponseBase" where
  "ResponseBase_empty c m mime z = ResponseBase_new c m mime [] z"

text \<open>
  The move constructor: the moved members, but not \<open>m_headers\<close>, which starts empty. The second
  \<^verbatim>\<open>std::move(src.header)\<close> moves from a string already moved from, so the header text is lost
  as well (the moved-from string is empty).
\<close>

definition ResponseBase_move :: "ResponseBase \<Rightarrow> ResponseBase" where
  "ResponseBase_move src =
     (let r = \<lparr>resp_header = [], resp_body = [], resp_code = resp_code src, codeMsg = codeMsg src,
               mimeType = mimeType src, compress = compress src, m_headers = []\<rparr>;
          r1 = r\<lparr>resp_header := resp_header src\<rparr>; src1 = src\<lparr>resp_header := []\<rparr>;
          r2 = r1\<lparr>resp_body := resp_body src1\<rparr>
      in r2\<lparr>resp_header := resp_header src1\<rparr>)"

text \<open>
  The move assignment: \<open>same\<close> tells whether both sides are the same object. Otherwise it
  executes \<^verbatim>\<open>delete this\<close> and then writes to the members.
\<close>

definition ResponseBase_move_assign ::
  "bool \<Rightarrow> ResponseBase \<Rightarrow> ResponseBase \<Rightarrow> ResponseBase res" where
  "ResponseBase_move_assign same this src = (if same then Inr this else Inl Undefined)"

definition ResponseBase_setBody :: "bytes \<Rightarrow> ResponseBase \<Rightarrow> ResponseBase" where
  "ResponseBase_setBody b r = r\<lparr>resp_body := b\<rparr>"

definition ResponseBase_addHeader :: "bytes \<Rightarrow> bytes \<Rightarrow> ResponseBase \<Rightarrow> ResponseBase" where
  "ResponseBase_addHeader k v r = r\<lparr>m_headers := AList.update k v (m_headers r)\<rparr>"

definition setCode :: "int \<Rightarrow> ResponseBase \<Rightarrow> ResponseBase" where
  "setCode c r = r\<lparr>resp_code := c\<rparr>"

definition setCodeMsg :: "bytes \<Rightarrow> ResponseBase \<Rightarrow> ResponseBase" where
  "setCodeMsg m r = r\<lparr>codeMsg := m\<rparr>"

definition setMimeType :: "bytes \<Rightarrow> ResponseBase \<Rightarrow> ResponseBase" where
  "setMimeType m r = r\<lparr>mimeType := m\<rparr>"

lemmas response_setters [simp] =
  ResponseBase_setBody_def ResponseBase_addHeader_def setCode_def setCodeMsg_def setMimeType_def

subsection \<open>Formatting\<close>

text \<open>
  What \<^verbatim>\<open>prepareResponse\<close> takes from its surroundings: the two static members, the local time
  and the order in which the \<^verbatim>\<open>std::unordered_map\<close> of headers is iterated.
\<close>

record resp_env =
  SERVER_IP :: bytes
  SERVER_PORT :: int
  local_time :: tm
  map_order :: "header_map \<Rightarrow> header_map"

definition VERSION_APPLICATION :: bytes where
  "VERSION_APPLICATION = ''1.1.0''"

definition CRLF :: bytes where
  "CRLF = [CR, LF]"

definition HEADER :: bytes where
  "HEADER = ''HTTP/1.1 %d %s'' @ CRLF @ ''Host: %s:%d'' @ CRLF @ ''Server: onyxup/%s'' @ CRLF @
     ''Connection: Keep-Alive'' @ CRLF @ ''Date: %s'' @ CRLF @ ''Accept-Ranges: bytes'' @ CRLF @
     ''Content-Type: %s%s'' @ CRLF @ CRLF"

definition extra_headers :: "header_map \<Rightarrow> bytes" where
  "extra_headers hs = concat (map (\<lambda>(k, v). CRLF @ k @ '': '' @ v) hs)"

definition header_args :: "resp_env \<Rightarrow> ResponseBase \<Rightarrow> printf_arg list" where
  "header_args env r =
     [Arg_d (resp_code r), Arg_s (codeMsg r), Arg_s (SERVER_IP env), Arg_d (SERVER_PORT env),
      Arg_s VERSION_APPLICATION, Arg_s (strftime (local_time env)), Arg_s (mimeType r),
      Arg_s (extra_headers (map_order env (m_headers r)))]"

definition prepareResponse :: "resp_env \<Rightarrow> ResponseBase \<Rightarrow> (bytes \<times> ResponseBase) res" where
  "prepareResponse env r =
     bind_res (snprintf 4096 HEADER (header_args env r)) (\<lambda>buffer.
       let h = c_str buffer in Inr (h @ resp_body r, r\<lparr>resp_header := h\<rparr>))"

definition toString :: "resp_env \<Rightarrow> ResponseBase \<Rightarrow> (bytes \<times> ResponseBase) res" where
  "toString env r = prepareResponse env r"

subsection \<open>The responses of the program\<close>

definition response_of :: "response_state \<Rightarrow> bytes \<Rightarrow> bytes \<Rightarrow> bool \<Rightarrow> ResponseBase" where
  "response_of st mime b z = ResponseBase_new (fst st) (snd st) mime b z"

text \<open>
  The pages for 403 and 404 embed the same picture as a base64 literal of 176,932 characters,
  the argument \<open>logo\<close>. In both literals \<^verbatim>\<open>alt=""\<close> is two adjacent string literals, so the text
  has \<^verbatim>\<open>alt=\<close> without a value.
\<close>

definition page_403_404 :: "bytes \<Rightarrow> bytes \<Rightarrow> bytes \<Rightarrow> bytes" where
  "page_403_404 title caption logo =
     ''<html><head><title>'' @ title @ ''</title></head><body bgcolor='' @ [CHR 0x22] @ ''white'' @
     [CHR 0x22] @ ''><center><h1>'' @ caption @ ''</h1></center><hr><center><img src='' @
     [CHR 0x22] @ ''data:image/jpg;base64,'' @ logo @ [CHR 0x22] @
     '' alt= /></center><center>onyxup</center></body></html>''"

definition page_plain :: "bytes \<Rightarrow> bytes" where
  "page_plain caption =
     ''<html><head><title>413</title></head><body bgcolor='' @ [CHR 0x22] @ ''white'' @
     [CHR 0x22] @ ''><center><h1>'' @ caption @
     ''</h1></center><center>onyxup</center></body></html>''"

definition Response403 :: "bytes \<Rightarrow> ResponseBase" where
  "Response403 logo = response_of RESPONSE_STATE_FORBIDDEN MIME_TYPE_TEXT_HTML
     (page_403_404 ''403'' ''ACCESS IS DENIED 403'' logo) False"

definition Response404 :: "bytes \<Rightarrow> ResponseBase" where
  "Response404 logo = response_of RESPONSE_STATE_NOT_FOUND MIME_TYPE_TEXT_HTML
     (page_403_404 ''404'' ''PAGE NOT FOUND 404'' logo) False"

definition Response408 :: ResponseBase where
  "Response408 = response_of RESPONSE_STATE_METHOD_REQUEST_TIMEOUT MIME_TYPE_TEXT_HTML
     (page_plain ''Request Timeout'') False"

definition Response413 :: ResponseBase where
  "Response413 = response_of RESPONSE_STATE_PAYLOAD_TOO_LARGE MIME_TYPE_TEXT_HTML
     (page_plain ''Payload Too Large 413'') False"

definition Response503 :: ResponseBase where
  "Response503 = response_of RESPONSE_STATE_SERVICE_UNAVAILABLE MIME_TYPE_TEXT_HTML
     (page_plain ''Service Temporarily Unavailable 503'') False"

definition ResponseJson :: "bytes \<Rightarrow> bool \<Rightarrow> ResponseBase" where
  "ResponseJson b z = response_of RESPONSE_STATE_OK MIME_TYPE_APPLICATION_JSON b z"

definition ResponsePDF :: "bytes \<Rightarrow> bool \<Rightarrow> ResponseBase" where
  "ResponsePDF b z = response_of RESPONSE_STATE_OK MIME_TYPE_APPLICATION_PDF b z"

definition ResponseXML :: "bytes \<Rightarrow> bool \<Rightarrow> ResponseBase" where
  "ResponseXML b z = response_of RESPONSE_STATE_OK MIME_TYPE_APPLICATION_XML b z"

definition ResponsePlain :: "bytes \<Rightarrow> bool \<Rightarrow> ResponseBase" where
  "ResponsePlain b z = response_of RESPONSE_STATE_OK MIME_TYPE_TEXT_PLAIN b z"

text \<open>
  Files: \<open>fs\<close> is the content of the files that can be opened. \<^verbatim>\<open>ResponseFile\<close> reads all the
  bytes, \<^verbatim>\<open>ResponseHtml\<close> line by line, writing the lines without their terminators.
\<close>

type_synonym file_system = "bytes \<Rightarrow> bytes option"

definition binary_file_reader :: "file_system \<Rightarrow> bytes \<Rightarrow> bytes" where
  "binary_file_reader fs nm = (case fs (c_str nm) of None \<Rightarrow> [] | Some content \<Rightarrow> content)"

definition html_file_reader :: "file_system \<Rightarrow> bytes \<Rightarrow> bytes" where
  "html_file_reader fs nm =
     (case fs (c_str nm) of None \<Rightarrow> [] | Some content \<Rightarrow> concat (getlines LF content))"

definition ResponseFile :: "file_system \<Rightarrow> bytes \<Rightarrow> bool \<Rightarrow> ResponseBase" where
  "ResponseFile fs file z =
     ResponseBase_addHeader ''Content-Transfer-Encoding'' ''binary''
       (ResponseBase_addHeader ''Content-Description'' ''File Transfer''
         (ResponseBase_setBody (binary_file_reader fs file)
           (ResponseBase_empty (fst RESPONSE_STATE_OK) (snd RESPONSE_STATE_OK)
              MIME_TYPE_APPLICATION_OCTET_STREAM z)))"

definition ResponseHtml :: "file_system \<Rightarrow> bytes \<Rightarrow> bool \<Rightarrow> ResponseBase" where
  "ResponseHtml fs html_file z =
     ResponseBase_setBody (html_file_reader fs html_file)
       (ResponseBase_empty (fst RESPONSE_STATE_OK) (snd RESPONSE_STATE_OK) MIME_TYPE_TEXT_HTML z)"

subsection \<open>Reading a response back\<close>

definition render_response :: "phr_response \<Rightarrow> bytes" where
  "render_response p =
     ''HTTP/1.'' @ [digit_char (resp_minor_version p), SP] @ int_to_string (status p) @ [SP] @
     msg p @ [CR, LF] @ concat (map render_header (resp_headers p)) @ [CR, LF]"

definition wf_response :: "nat \<Rightarrow> phr_response \<Rightarrow> bool" where
  "wf_response max_headers p \<longleftrightarrow>
     0 \<le> resp_minor_version p \<and> resp_minor_version p \<le> 9 \<and> 100 \<le> status p \<and> status p \<le> 999 \<and>
     (\<forall>c \<in> set (msg p). \<not> is_ctl c) \<and>
     length (resp_headers p) \<le> max_headers \<and> wf_headers 0 (resp_headers p)"

lemma to_string_three:
  assumes "100 \<le> n" "n < 1000"
  shows "to_string n = map digit_char [int (n div 100), int (n div 10 mod 10), int (n mod 10)]"
proof -
  have "\<not> n < 10" "\<not> n div 10 < 10" "n div 10 div 10 < 10" "n div 10 div 10 = n div 100"
    using assms by (auto simp: div_mult2_eq [symmetric])
  then show ?thesis
    by (simp add: to_string.simps [of n] to_string.simps [of "n div 10"]
        to_string.simps [of "n div 100"] digit_char_def)
qed

lemma byte_val_literals: "byte_val CHR ''0'' = 48" "byte_val CHR ''9'' = 57"
  by (simp_all add: byte_val_def)

lemma PARSE_INT_digit:
  assumes "0 \<le> d" "d \<le> 9"
  shows "PARSE_INT k (digit_char d # rest) = Parsed (k * d, rest)"
proof -
  have "int (48 + nat d) - int 48 = d" using assms(1) by linarith
  moreover have "\<not> (48 + nat d < 48 \<or> 57 < 48 + nat d)" using assms by linarith
  ultimately show ?thesis
    unfolding PARSE_INT_def list.case byte_val_literals digit_char_val [OF assms]
    by (simp only: if_False)
qed

lemma PARSE_INT_3_render:
  assumes "100 \<le> s" "s \<le> 999"
  shows "PARSE_INT_3 (int_to_string s @ rest) = Parsed (s, rest)"
proof -
  define n where "n = nat s"
  have n: "100 \<le> n" "n < 1000" "s = int n" using assms by (auto simp: n_def)
  have digits: "n div 100 < 10" "n div 10 mod 10 < 10" "n mod 10 < 10" using n(2) by auto
  have "n div 100 = n div 10 div 10" by (simp add: div_mult2_eq [symmetric])
  then have "100 * (n div 100) + 10 * (n div 10 mod 10) + n mod 10 = n"
    using div_mult_mod_eq [of n 10] div_mult_mod_eq [of "n div 10" 10] by linarith
  then have "int (100 * (n div 100) + 10 * (n div 10 mod 10) + n mod 10) = int n" by (rule arg_cong)
  then have sum: "100 * int (n div 100) + 10 * int (n div 10 mod 10) + int (n mod 10) = int n"
    by (simp only: of_nat_add of_nat_mult of_nat_numeral)
  have str: "int_to_string s =
      [digit_char (int (n div 100)), digit_char (int (n div 10 mod 10)), digit_char (int (n mod 10))]"
    using to_string_three [OF n(1,2)] by (simp add: int_to_string_def n(3))
  show ?thesis
    unfolding str PARSE_INT_3_def using digits sum
    by (simp add: PARSE_INT_digit n(3) del: of_nat_mod of_nat_div zdiv_int zmod_int)
qed

lemma parse_response_render:
  assumes "wf_response m p"
  shows "parse_response sse m (render_response p @ body) = Parsed (p, body)"
proof -
  obtain v s t hs where p: "p = \<lparr>resp_minor_version = v, status = s, msg = t, resp_headers = hs\<rparr>"
    by (cases p) auto
  have v: "0 \<le> v" "v \<le> 9" and s: "100 \<le> s" "s \<le> 999" and t: "\<forall>c \<in> set t. \<not> is_ctl c"
    and hs: "length hs \<le> m" "wf_headers 0 hs"
    using assms by (auto simp: p wf_response_def)
  let ?r4 = "concat (map render_header hs) @ CR # LF # body"
  let ?r3 = "t @ CR # LF # ?r4"
  let ?r2 = "int_to_string s @ SP # ?r3"
  have buf: "render_response p @ body = ''HTTP/1.'' @ digit_char v # SP # ?r2"
    by (simp add: render_response_def p)
  have s1: "parse_http_version (''HTTP/1.'' @ digit_char v # SP # ?r2) = Parsed (v, SP # ?r2)"
    by (rule parse_http_version_render [OF v])
  have s2: "PARSE_INT_3 ?r2 = Parsed (s, SP # ?r3)" by (rule PARSE_INT_3_render [OF s])
  have s3: "get_token_to_eol sse ?r3 = Parsed (t, ?r4)"
    using eol_spec_render [OF t, of ?r4] by (simp add: get_token_to_eol_eq_spec)
  have s4: "parse_headers sse m 0 ?r4 = Parsed (hs, body)"
    using parse_headers_render [OF hs(2), of m sse body] hs(1) by simp
  have "\<not> length ?r2 < 4"
    using s to_string_three [of "nat s"] by (simp add: int_to_string_def)
  then show ?thesis
    unfolding buf parse_response_def s1
    by (simp add: s2 s3 s4 expect_space_def EXPECT_CHAR_NO_CHECK_def p)
qed

subsection \<open>The header a response is formatted to\<close>

definition named :: "bytes \<times> bytes \<Rightarrow> phr_header" where
  "named kv = \<lparr>name = Some (fst kv), hvalue = snd kv\<rparr>"

definition standard_headers :: "resp_env \<Rightarrow> ResponseBase \<Rightarrow> header_map" where
  "standard_headers env r =
     [(''Host'', SERVER_IP env @ '':'' @ int_to_string (SERVER_PORT env)),
      (''Server'', ''onyxup/1.1.0''), (''Connection'', ''Keep-Alive''),
      (''Date'', strftime (local_time env)), (''Accept-Ranges'', ''bytes''),
      (''Content-Type'', mimeType r)]"

text \<open>What a client should read from the response.\<close>

definition response_message :: "resp_env \<Rightarrow> ResponseBase \<Rightarrow> phr_response" where
  "response_message env r =
     \<lparr>resp_minor_version = 1, status = resp_code r, msg = codeMsg r,
      resp_headers = map named (standard_headers env r @ map_order env (m_headers r))\<rparr>"

definition plain_value :: "bytes \<Rightarrow> bool" where
  "plain_value v \<longleftrightarrow> wf_value v \<and> (v = [] \<or> \<not> is_blank (hd v))"

definition response_ok :: "resp_env \<Rightarrow> ResponseBase \<Rightarrow> bool" where
  "response_ok env r \<longleftrightarrow>
     100 \<le> resp_code r \<and> resp_code r \<le> 999 \<and> (\<forall>c \<in> set (codeMsg r). \<not> is_ctl c) \<and>
     (\<forall>c \<in> set (SERVER_IP env). \<not> is_ctl c \<and> \<not> is_blank c) \<and> plain_value (mimeType r) \<and>
     (\<forall>(k, v) \<in> set (m_headers r). k \<noteq> [] \<and> (\<forall>c \<in> set k. \<not> name_stop c) \<and> plain_value v)"

lemma c_str_id: "\<forall>c \<in> set v. \<not> is_ctl c \<Longrightarrow> c_str v = v"
proof -
  have "is_ctl CHR 0x00" by (simp add: is_ctl_def byte_val_def)
  moreover assume "\<forall>c \<in> set v. \<not> is_ctl c"
  ultimately show "c_str v = v" by (auto simp: c_str_def takeWhile_eq_all_conv)
qed


text \<open>The text \<^verbatim>\<open>snprintf\<close> would write into an array without bound.\<close>

definition full_header :: "resp_env \<Rightarrow> ResponseBase \<Rightarrow> bytes" where
  "full_header env r =
     ''HTTP/1.1 '' @ int_to_string (resp_code r) @ '' '' @ c_str (codeMsg r) @ CRLF @
     ''Host: '' @ c_str (SERVER_IP env) @ '':'' @ int_to_string (SERVER_PORT env) @ CRLF @
     ''Server: onyxup/1.1.0'' @ CRLF @ ''Connection: Keep-Alive'' @ CRLF @
     ''Date: '' @ c_str (strftime (local_time env)) @ CRLF @ ''Accept-Ranges: bytes'' @ CRLF @
     ''Content-Type: '' @ c_str (mimeType r) @
     c_str (extra_headers (map_order env (m_headers r))) @ CRLF @ CRLF"

lemma printf_HEADER: "printf HEADER (header_args env r) = Inr (full_header env r)"
  by (simp add: HEADER_def header_args_def full_header_def CRLF_def VERSION_APPLICATION_def c_str_def)

lemma c_str_no_NUL: "CHR 0x00 \<notin> set v \<Longrightarrow> c_str v = v"
  by (auto simp: c_str_def takeWhile_eq_all_conv)

lemma c_str_terminated: "CHR 0x00 \<notin> set v \<Longrightarrow> c_str (v @ [CHR 0x00]) = v"
  by (simp add: c_str_def takeWhile_append takeWhile_eq_all_conv)

lemma NUL_notin_c_str [simp]: "CHR 0x00 \<notin> set (c_str v)"
  by (auto simp: c_str_def dest: set_takeWhileD)

lemma NUL_notin_to_string [simp]: "CHR 0x00 \<notin> set (to_string n)"
  using to_string_digits isdigit_not_sign by blast

lemma NUL_notin_int_to_string [simp]: "CHR 0x00 \<notin> set (int_to_string i)"
  by (simp add: int_to_string_def)

lemma NUL_notin_full_header [simp]: "CHR 0x00 \<notin> set (full_header env r)"
  by (simp add: full_header_def CRLF_def)

text \<open>Formatting always succeeds; the header is cut after 4095 bytes.\<close>

lemma prepareResponse_eq:
  "prepareResponse env r =
     Inr (take 4095 (full_header env r) @ resp_body r,
          r\<lparr>resp_header := take 4095 (full_header env r)\<rparr>)"
proof -
  have "CHR 0x00 \<notin> set (take 4095 (full_header env r))"
    using in_set_takeD [of "CHR 0x00" 4095 "full_header env r"] by auto
  then have "c_str (take 4095 (full_header env r) @ [CHR 0x00]) = take 4095 (full_header env r)"
    by (rule c_str_terminated)
  then show ?thesis by (simp add: prepareResponse_def snprintf_def printf_HEADER Let_def)
qed

lemma digit_plain: "isdigit c \<Longrightarrow> \<not> is_ctl c \<and> \<not> is_blank c"
proof -
  assume "isdigit c"
  then have "48 \<le> byte_val c" "byte_val c \<le> 57" by (auto simp: isdigit_def)
  then show ?thesis by (auto simp: is_ctl_def is_blank_def byte_val_def)
qed

lemma to_string_plain: "c \<in> set (to_string n) \<Longrightarrow> \<not> is_ctl c \<and> \<not> is_blank c"
  using to_string_digits digit_plain by blast

lemma int_to_string_plain: "c \<in> set (int_to_string i) \<Longrightarrow> \<not> is_ctl c \<and> \<not> is_blank c"
  using to_string_plain
  by (auto simp: int_to_string_def is_ctl_def is_blank_def byte_val_def split: if_splits)

lemma int_to_string_nonempty [simp]: "int_to_string i \<noteq> []"
  by (simp add: int_to_string_def)


lemma extra_headers_render:
  "extra_headers hs @ CRLF = CRLF @ concat (map render_header (map named hs))"
  by (induction hs) (auto simp: extra_headers_def render_header_def named_def CRLF_def)

definition header_ok :: "bytes \<times> bytes \<Rightarrow> bool" where
  "header_ok kv \<longleftrightarrow> fst kv \<noteq> [] \<and> (\<forall>c \<in> set (fst kv). \<not> name_stop c) \<and> plain_value (snd kv)"

lemma wf_header_named: "wf_header n (named kv) \<longleftrightarrow> header_ok kv"
  by (auto simp: wf_header_def named_def header_ok_def plain_value_def)

lemma wf_headers_named: "wf_headers n (map named hs) \<longleftrightarrow> list_all header_ok hs"
  by (induction hs arbitrary: n) (auto simp: wf_header_named)

lemma plain_value_text:
  "\<forall>c \<in> set v. \<not> is_ctl c \<and> \<not> is_blank c \<Longrightarrow> plain_value v"
  by (cases v) (auto simp: plain_value_def wf_value_def)

lemma two_digits_plain: "c \<in> set (two_digits n) \<Longrightarrow> \<not> is_ctl c \<and> \<not> is_blank c"
  using to_string_plain [of c n] by (auto simp: two_digits_def is_ctl_def is_blank_def byte_val_def split: if_splits)

lemma two_digits_nonempty [simp]: "two_digits n \<noteq> []"
  by (simp add: two_digits_def)

lemma strftime_plain: "plain_value (strftime t)"
proof -
  have sep: "\<not> is_ctl CHR ''-''" "\<not> is_ctl CHR '':''" "\<not> is_ctl CHR '' ''"
    by (simp_all add: is_ctl_def byte_val_def)
  have "hd (strftime t) \<in> set (to_string (tm_year t + 1900))"
    by (simp add: strftime_def)
  moreover have "last (strftime t) \<in> set (two_digits (tm_sec t))"
    by (simp add: strftime_def)
  moreover have "\<forall>c \<in> set (strftime t). \<not> is_ctl c"
    using two_digits_plain to_string_plain sep by (auto simp: strftime_def)
  ultimately show ?thesis
    using two_digits_plain to_string_plain by (auto simp: plain_value_def wf_value_def)
qed

lemma name_ok_literals:
  "list_all (\<lambda>n. n \<noteq> [] \<and> list_all (\<lambda>c. \<not> name_stop c) n)
     [''Host'', ''Server'', ''Connection'', ''Date'', ''Accept-Ranges'', ''Content-Type'']"
  by code_simp

lemma value_ok_literals: "plain_value ''onyxup/1.1.0''" "plain_value ''Keep-Alive''" "plain_value ''bytes''"
  by code_simp+

lemma standard_headers_ok:
  assumes "response_ok env r"
  shows "list_all header_ok (standard_headers env r)"
proof -
  have colon: "\<not> is_ctl CHR '':''" "\<not> is_blank CHR '':''"
    by (simp_all add: is_ctl_def is_blank_def byte_val_def)
  have "plain_value (SERVER_IP env @ '':'' @ int_to_string (SERVER_PORT env))"
    by (rule plain_value_text) (use assms int_to_string_plain colon in \<open>auto simp: response_ok_def\<close>)
  moreover have "plain_value (mimeType r)" using assms by (simp add: response_ok_def)
  ultimately show ?thesis
    using name_ok_literals value_ok_literals strftime_plain [of "local_time env"]
    by (simp add: standard_headers_def header_ok_def list_all_iff)
qed

lemma response_message_wf:
  assumes "response_ok env r" "set (map_order env (m_headers r)) = set (m_headers r)"
    and "length (map_order env (m_headers r)) + 6 \<le> m"
  shows "wf_response m (response_message env r)"
proof -
  have "list_all header_ok (map_order env (m_headers r))"
    using assms(1,2) by (auto simp: response_ok_def header_ok_def list_all_iff)
  with standard_headers_ok [OF assms(1)] have
    "wf_headers 0 (map named (standard_headers env r @ map_order env (m_headers r)))"
    by (simp only: wf_headers_named list_all_append simp_thms)
  moreover have "length (standard_headers env r) = 6" by (simp add: standard_headers_def)
  ultimately show ?thesis
    using assms(1,3) by (simp add: wf_response_def response_message_def response_ok_def)
qed


lemma extra_headers_no_NUL:
  assumes "list_all header_ok hs"
  shows "CHR 0x00 \<notin> set (extra_headers hs)"
proof -
  have stop: "name_stop CHR 0x00" "is_ctl CHR 0x00" by code_simp+
  have "CHR 0x00 \<notin> set k \<and> CHR 0x00 \<notin> set v" if "(k, v) \<in> set hs" for k v
    using assms that stop by (fastforce simp: list_all_iff header_ok_def plain_value_def wf_value_def)
  then show ?thesis by (fastforce simp: extra_headers_def CRLF_def)
qed

lemma full_header_render:
  assumes "response_ok env r" "set (map_order env (m_headers r)) = set (m_headers r)"
  shows "full_header env r = render_response (response_message env r)"
proof -
  let ?hs = "map_order env (m_headers r)"
  have "list_all header_ok ?hs"
    using assms by (auto simp: response_ok_def header_ok_def list_all_iff)
  then have "c_str (extra_headers ?hs) = extra_headers ?hs"
    by (intro c_str_no_NUL extra_headers_no_NUL)
  then have extra: "c_str (extra_headers ?hs) @ CRLF @ CRLF =
      CRLF @ concat (map render_header (map named ?hs)) @ CRLF"
    using extra_headers_render [of ?hs] by (metis append.assoc)
  have "c_str (codeMsg r) = codeMsg r" "c_str (mimeType r) = mimeType r"
    "c_str (SERVER_IP env) = SERVER_IP env" "c_str (strftime (local_time env)) = strftime (local_time env)"
    using assms(1) strftime_plain [of "local_time env"]
    by (auto simp: response_ok_def plain_value_def wf_value_def intro!: c_str_id)
  moreover have "digit_char 1 = CHR ''1''" by code_simp
  ultimately show ?thesis
    unfolding full_header_def extra
    by (simp add: render_response_def response_message_def standard_headers_def named_def
        render_header_def CRLF_def)
qed

lemma prepareResponse_parses:
  assumes "response_ok env r"
    and "mset (map_order env (m_headers r)) = mset (m_headers r)"
    and "length (full_header env r) \<le> 4095" and "length (m_headers r) + 6 \<le> m"
  shows "\<exists>text r'. prepareResponse env r = Inr (text, r') \<and>
     phr_parse_response sse text m 0 = Parsed (response_message env r, length (resp_header r')) \<and>
     drop (length (resp_header r')) text = resp_body r"
proof -
  have ord: "set (map_order env (m_headers r)) = set (m_headers r)"
    "length (map_order env (m_headers r)) = length (m_headers r)"
    using assms(2) by (metis set_mset_mset, metis size_mset)
  have "wf_response m (response_message env r)"
    using response_message_wf [OF assms(1) ord(1)] ord(2) assms(4) by simp
  from parse_response_render [OF this, of sse "resp_body r"] show ?thesis
    using assms(3) full_header_render [OF assms(1) ord(1)]
    by (simp add: prepareResponse_eq phr_parse_response_def entry_def)
qed

text \<open>
  C18: a formatted response is what its fields say. When the header fits in the 4096-byte array
  and code, phrase, address, type and headers are free of control bytes, the text produced is
  accepted by the response parser: version 1.1, the code and phrase of the object, the six
  standard headers followed by every added header once (in the iteration order of the hash
  map), and exactly the body follows the header.
\<close>

theorem prepareResponse_roundtrip:
  assumes "response_ok env r"
    and "mset (map_order env (m_headers r)) = mset (m_headers r)"
    and "length (full_header env r) \<le> 4095" and "length (m_headers r) + 6 \<le> m"
  shows "\<exists>text r'. prepareResponse env r = Inr (text, r') \<and>
     phr_parse_response sse text m 0 = Parsed (response_message env r, length (resp_header r')) \<and>
     drop (length (resp_header r')) text = resp_body r"
  using assms by (rule prepareResponse_parses)

definition sample_env :: resp_env where
  "sample_env = \<lparr>SERVER_IP = ''127.0.0.1'', SERVER_PORT = 8080,
     local_time = \<lparr>tm_year = 119, tm_mon = 8, tm_mday = 10, tm_hour = 9, tm_min = 5, tm_sec = 30\<rparr>,
     map_order = rev\<rparr>"

definition sample_response :: ResponseBase where
  "sample_response = ResponseBase_addHeader ''Content-Length'' ''2'' (ResponseJson ''{}'' False)"

theorem prepareResponse_roundtrip_witness:
  "\<exists>text r'. prepareResponse sample_env sample_response = Inr (text, r') \<and>
     phr_parse_response True text 100 0 =
       Parsed (response_message sample_env sample_response, length (resp_header r')) \<and>
     drop (length (resp_header r')) text = resp_body sample_response"
proof (rule prepareResponse_roundtrip)
  show "response_ok sample_env sample_response" by code_simp
  show "length (full_header sample_env sample_response) \<le> 4095"
    by (simp add: full_header_def sample_env_def sample_response_def ResponseJson_def response_of_def
        ResponseBase_new_def mime_defs state_defs CRLF_def extra_headers_def c_str_def int_to_string_def
        strftime_def two_digits_def to_string.simps)
  show "mset (map_order sample_env (m_headers sample_response)) = mset (m_headers sample_response)"
    by (simp add: sample_env_def)
  show "length (m_headers sample_response) + 6 \<le> 100" by code_simp
qed

text \<open>
  A header that does not fit is cut. Whatever the fields, at most 4095 header bytes precede
  the body; when the full header is longer, the text is its first 4095 bytes followed at once by
  the body, so the blank line that ends a header is missing.
\<close>

theorem prepareResponse_truncates:
  assumes "4095 < length (full_header env r)"
  shows "prepareResponse env r =
      Inr (take 4095 (full_header env r) @ resp_body r, r\<lparr>resp_header := take 4095 (full_header env r)\<rparr>) \<and>
    length (take 4095 (full_header env r)) = 4095"
  using assms by (simp add: prepareResponse_eq)

definition long_response :: ResponseBase where
  "long_response =
     ResponseBase_new 200 (replicate 5000 CHR ''x'') MIME_TYPE_TEXT_PLAIN ''body'' False"

theorem prepareResponse_truncates_witness:
  "prepareResponse sample_env long_response =
      Inr (take 4095 (full_header sample_env long_response) @ resp_body long_response,
           long_response\<lparr>resp_header := take 4095 (full_header sample_env long_response)\<rparr>) \<and>
    length (take 4095 (full_header sample_env long_response)) = 4095"
proof (rule prepareResponse_truncates)
  have "codeMsg long_response = replicate 5000 CHR ''x''"
    unfolding long_response_def ResponseBase_new_def by (simp only: ResponseBase.select_convs)
  moreover have "c_str (replicate 5000 CHR ''x'') = replicate 5000 CHR ''x''"
    by (rule c_str_no_NUL) (simp only: in_set_replicate, simp)
  ultimately have "length (c_str (codeMsg long_response)) = 5000" by (simp only: length_replicate)
  then show "4095 < length (full_header sample_env long_response)"
    unfolding full_header_def length_append by linarith
qed

text \<open>
  Moving a response keeps code, phrase, type, compression flag and body but loses every
  header that was added before, and the move assignment between two objects is undefined; this
  holds of every response, so the headers of a \<^verbatim>\<open>ResponseFile\<close> survive only copies.
\<close>

theorem ResponseBase_move_loses_headers:
  "m_headers (ResponseBase_move r) = [] \<and> resp_header (ResponseBase_move r) = [] \<and>
   ResponseBase_move r = r\<lparr>m_headers := [], resp_header := []\<rparr> \<and>
   ResponseBase_move_assign False this r = Inl Undefined \<and>
   m_headers (ResponseFile fs f z) =
     [(''Content-Description'', ''File Transfer''), (''Content-Transfer-Encoding'', ''binary'')]"
  by (simp add: ResponseBase_move_def ResponseBase_move_assign_def ResponseFile_def
      ResponseBase_empty_def ResponseBase_new_def)

text \<open>The HTML reader loses exactly the line feeds of the file.\<close>

lemma filter_takeWhile_neq: "filter (\<lambda>y. y \<noteq> d) (takeWhile (\<lambda>y. y \<noteq> d) s) = takeWhile (\<lambda>y. y \<noteq> d) s"
  by (induction s) auto

lemma concat_getlines: "concat (getlines d s) = filter (\<lambda>y. y \<noteq> d) s"
proof (induction d s rule: getlines.induct)
  case (2 d c cs)
  let ?s = "c # cs"
  have "filter (\<lambda>y. y \<noteq> d) ?s =
      filter (\<lambda>y. y \<noteq> d) (takeWhile (\<lambda>y. y \<noteq> d) ?s @ dropWhile (\<lambda>y. y \<noteq> d) ?s)"
    by (simp only: takeWhile_dropWhile_id)
  also have "\<dots> = takeWhile (\<lambda>y. y \<noteq> d) ?s @ filter (\<lambda>y. y \<noteq> d) (dropWhile (\<lambda>y. y \<noteq> d) ?s)"
    by (simp only: filter_append filter_takeWhile_neq)
  also have "filter (\<lambda>y. y \<noteq> d) (dropWhile (\<lambda>y. y \<noteq> d) ?s) =
      filter (\<lambda>y. y \<noteq> d) (tl (dropWhile (\<lambda>y. y \<noteq> d) ?s))"
    using hd_dropWhile [of "\<lambda>y. y \<noteq> d" ?s] by (cases "dropWhile (\<lambda>y. y \<noteq> d) ?s") auto
  finally show ?case using "2.IH" by (simp only: getlines.simps concat.simps)
qed simp

lemma html_file_reader_eq:
  "fs (c_str nm) = Some content \<Longrightarrow> html_file_reader fs nm = filter (\<lambda>c. c \<noteq> LF) content"
  by (simp add: html_file_reader_def concat_getlines)

end
