(* ===== verification/Task.thy ===== *)
theory Task
  imports Request Response
begin

text \<open>
  Tasks and routes (\<^verbatim>\<open>task/task.h\<close>, \<^verbatim>\<open>task/task.cpp\<close>, \<^verbatim>\<open>route/route.h\<close>) with the parts of
  \<^verbatim>\<open>server/server.cpp\<close> that build and look them up: \<^verbatim>\<open>addRoute\<close> and \<^verbatim>\<open>dispatcher\<close>.

  A handler is code of the application. It reads the request and may change whatever it shares
  with other handlers, the type \<open>'w\<close>. POSIX regular expressions are arguments: \<open>'re\<close> is the
  compiled form.
\<close>

datatype EnumTaskType = LOCAL_TASK | STATIC_RESOURCES_TASK | JSON_RPC_TASK

type_synonym 'w handler = "Request \<Rightarrow> 'w \<Rightarrow> (ResponseBase \<times> 'w) res"

record 'w Task =
  task_fd :: int
  task_request :: "Request option"
  task_handler :: "'w handler option"
  task_type :: EnumTaskType
  responseData :: bytes
  timePoint :: nat
  task_code :: int

text \<open>
  \<^verbatim>\<open>taskFactory\<close>: \<open>garbage\<close> supplies the members the defaulted constructor leaves
  indeterminate (descriptor, type, code); the function object and the string start empty, the
  time point at the epoch.
\<close>

definition taskFactory :: "bool \<Rightarrow> int \<times> EnumTaskType \<times> int \<Rightarrow> 'w Task option" where
  "taskFactory alloc garbage =
     (if alloc then
        Some \<lparr>task_fd = fst garbage, task_request = None, task_handler = None,
              task_type = fst (snd garbage), responseData = [], timePoint = 0,
              task_code = snd (snd garbage)\<rparr>
      else None)"

record ('w, 're) Route =
  route_method :: bytes
  pregex :: 're
  route_handler :: "'w handler"
  route_type :: EnumTaskType

definition Route_new ::
  "(bytes \<Rightarrow> 're option) \<Rightarrow> bytes \<Rightarrow> bytes \<Rightarrow> 'w handler \<Rightarrow> EnumTaskType \<Rightarrow> ('w, 're) Route res" where
  "Route_new regcomp method regex hdl type =
     (case regcomp (c_str regex) of
        None \<Rightarrow> Inl OnyxupException
      | Some re \<Rightarrow> Inr \<lparr>route_method = method, pregex = re, route_handler = hdl, route_type = type\<rparr>)"

text \<open>\<^verbatim>\<open>addRoute\<close>: a \<^verbatim>\<open>GET\<close> route also answers \<^verbatim>\<open>HEAD\<close>.\<close>

definition addRoute ::
  "(bytes \<Rightarrow> 're option) \<Rightarrow> bytes \<Rightarrow> bytes \<Rightarrow> 'w handler \<Rightarrow> EnumTaskType \<Rightarrow>
   ('w, 're) Route list \<Rightarrow> ('w, 're) Route list res" where
  "addRoute regcomp method regex hdl type routes =
     (let methodToUpperCase = map toupper method
      in bind_res (Route_new regcomp methodToUpperCase regex hdl type) (\<lambda>r.
         if methodToUpperCase = ''GET''
         then bind_res (Route_new regcomp ''HEAD'' regex hdl type) (\<lambda>h. Inr (routes @ [r, h]))
         else Inr (routes @ [r])))"

text \<open>The loop of the dispatcher over the routes.\<close>

fun find_route ::
  "('re \<Rightarrow> bytes \<Rightarrow> bool) \<Rightarrow> Request \<Rightarrow> ('w, 're) Route list \<Rightarrow> ('w, 're) Route option" where
  "find_route regexec req [] = None"
| "find_route regexec req (r # rs) =
     (if route_method r = req_method req \<and> regexec (pregex r) (c_str (fullUri req)) then Some r
      else find_route regexec req rs)"

definition dispatcher ::
  "('re \<Rightarrow> bytes \<Rightarrow> bool) \<Rightarrow> bool \<Rightarrow> 'w Task option \<Rightarrow> ('w, 're) Route list \<Rightarrow> Request \<Rightarrow> 'w Task option" where
  "dispatcher regexec copy_alloc fresh routes request =
     (case requestCopyFactory copy_alloc request of
        None \<Rightarrow> None
      | Some req \<Rightarrow>
          (case fresh of
             None \<Rightarrow> None
           | Some task \<Rightarrow>
               (case find_route regexec req routes of
                  None \<Rightarrow> None
                | Some r \<Rightarrow>
                    Some (task\<lparr>task_type := route_type r, task_request := Some req,
                               task_handler := Some (route_handler r)\<rparr>))))"

subsection \<open>The first matching route wins\<close>

definition route_matches :: "('re \<Rightarrow> bytes \<Rightarrow> bool) \<Rightarrow> Request \<Rightarrow> ('w, 're) Route \<Rightarrow> bool" where
  "route_matches regexec req r \<longleftrightarrow>
     route_method r = req_method req \<and> regexec (pregex r) (c_str (fullUri req))"

lemma find_route_find: "find_route regexec req rs = find (route_matches regexec req) rs"
  by (induction rs) (auto simp: route_matches_def)

lemma find_Some_split:
  "find P xs = Some x \<longleftrightarrow> (\<exists>pre post. xs = pre @ x # post \<and> (\<forall>y \<in> set pre. \<not> P y) \<and> P x)"
proof (induction xs)
  case (Cons a xs)
  show ?case
  proof (cases "P a")
    case True
    then show ?thesis by (auto simp: Cons_eq_append_conv intro: exI [of _ "[]"])
  next
    case False
    have "(\<exists>pre post. a # xs = pre @ x # post \<and> (\<forall>y \<in> set pre. \<not> P y) \<and> P x) \<longleftrightarrow>
        (\<exists>pre post. xs = pre @ x # post \<and> (\<forall>y \<in> set pre. \<not> P y) \<and> P x)" (is "?l \<longleftrightarrow> ?r")
    proof
      show "?l \<Longrightarrow> ?r" using False by (auto simp: Cons_eq_append_conv)
      assume ?r
      then obtain pre post where "a # xs = (a # pre) @ x # post" "\<forall>y \<in> set (a # pre). \<not> P y" "P x"
        using False by auto
      then show ?l by blast
    qed
    with False Cons show ?thesis by simp
  qed
qed simp

lemma find_route_append:
  "find_route regexec req (rs @ rs') =
     (case find_route regexec req rs of None \<Rightarrow> find_route regexec req rs' | Some r \<Rightarrow> Some r)"
  by (induction rs) auto

text \<open>
  Registering a route. After \<^verbatim>\<open>addRoute\<close> has returned, every request that an earlier route
  answers is still answered by it; every other request whose target matches the new expression
  and whose method is the given one in upper case is answered by the new handler, and so is
  \<^verbatim>\<open>HEAD\<close> when the method is \<^verbatim>\<open>GET\<close> in any spelling; all others still find no route.
\<close>

theorem addRoute_dispatch:
  assumes "addRoute regcomp method regex hdl type routes = Inr routes'"
    and "regcomp (c_str regex) = Some re"
  shows "find_route regexec req routes' =
    (case find_route regexec req routes of
       Some r \<Rightarrow> Some r
     | None \<Rightarrow>
         if regexec re (c_str (fullUri req)) \<and>
            (req_method req = map toupper method \<or>
             map toupper method = ''GET'' \<and> req_method req = ''HEAD'')
         then Some \<lparr>route_method = req_method req, pregex = re, route_handler = hdl, route_type = type\<rparr>
         else None)"
  using assms
  by (auto simp: addRoute_def Route_new_def Let_def find_route_append split: if_splits option.splits)

definition prefix_regcomp :: "bytes \<Rightarrow> bytes option" where
  "prefix_regcomp s = (if s = [] then None else Some s)"

definition prefix_regexec :: "bytes \<Rightarrow> bytes \<Rightarrow> bool" where
  "prefix_regexec re s = (take (length re) s = re)"

definition plain_handler :: "unit handler" where
  "plain_handler req w = Inr (ResponsePlain ''ok'' False, w)"

definition sample_Request :: Request where
  "sample_Request = the (requestFactory True 5 0)\<lparr>fullUri := ''/plain?a=1'', req_method := ''HEAD''\<rparr>"

theorem addRoute_dispatch_witness:
  "\<exists>routes'. addRoute prefix_regcomp ''get'' ''/plain'' plain_handler LOCAL_TASK [] = Inr routes' \<and>
     find_route prefix_regexec sample_Request routes' =
       Some \<lparr>route_method = ''HEAD'', pregex = ''/plain'', route_handler = plain_handler, route_type = LOCAL_TASK\<rparr>"
proof -
  have up: "toupper CHR ''g'' = CHR ''G''" "toupper CHR ''e'' = CHR ''E''" "toupper CHR ''t'' = CHR ''T''"
    by code_simp+
  have rc: "prefix_regcomp (c_str ''/plain'') = Some ''/plain''" by (simp add: prefix_regcomp_def c_str_def)
  then obtain routes' where r: "addRoute prefix_regcomp ''get'' ''/plain'' plain_handler LOCAL_TASK [] = Inr routes'"
    by (simp add: addRoute_def Route_new_def up Let_def)
  from addRoute_dispatch [OF r rc, of prefix_regexec sample_Request] r up show ?thesis
    by (simp add: sample_Request_def requestFactory_def prefix_regexec_def c_str_def)
qed

text \<open>
  C26: the dispatcher. It yields a task exactly when both allocations succeed and some route
  matches; the task then carries an unchanged copy of the request and the handler and type of the
  first matching route.
\<close>

theorem dispatcher_correct:
  "dispatcher regexec copy_alloc fresh routes request = Some task \<longleftrightarrow>
     copy_alloc \<and> (\<exists>t r pre post. fresh = Some t \<and> routes = pre @ r # post \<and>
       (\<forall>x \<in> set pre. \<not> route_matches regexec request x) \<and> route_matches regexec request r \<and>
       task = t\<lparr>task_type := route_type r, task_request := Some request,
                task_handler := Some (route_handler r)\<rparr>)" (is "?lhs \<longleftrightarrow> ?rhs")
proof
  assume "dispatcher regexec copy_alloc fresh routes request = Some task"
  then obtain t r where "copy_alloc" "fresh = Some t" "find_route regexec request routes = Some r"
    "task = t\<lparr>task_type := route_type r, task_request := Some request,
                task_handler := Some (route_handler r)\<rparr>"
    by (auto simp: dispatcher_def requestCopyFactory_def split: option.splits if_splits)
  then show "?rhs" unfolding find_route_find find_Some_split by blast
next
  assume "?rhs"
  then obtain t r where "copy_alloc" "fresh = Some t" "find (route_matches regexec request) routes = Some r"
    "task = t\<lparr>task_type := route_type r, task_request := Some request,
                task_handler := Some (route_handler r)\<rparr>"
    unfolding find_Some_split by blast
  then show "dispatcher regexec copy_alloc fresh routes request = Some task"
    by (simp add: dispatcher_def requestCopyFactory_def find_route_find)
qed

definition sample_Route :: "(unit, bytes) Route" where
  "sample_Route = \<lparr>route_method = ''HEAD'', pregex = ''/plain'', route_handler = plain_handler,
     route_type = LOCAL_TASK\<rparr>"

definition sample_Task :: "unit Task" where
  "sample_Task = the (taskFactory True (5, JSON_RPC_TASK, 0))"

theorem dispatcher_correct_witness:
  "dispatcher prefix_regexec True (Some sample_Task) [sample_Route\<lparr>route_method := ''GET''\<rparr>, sample_Route]
     sample_Request =
   Some (sample_Task\<lparr>task_type := LOCAL_TASK, task_request := Some sample_Request,
     task_handler := Some plain_handler\<rparr>)"
proof -
  have m: "route_matches prefix_regexec sample_Request sample_Route"
    "\<not> route_matches prefix_regexec sample_Request (sample_Route\<lparr>route_method := ''GET''\<rparr>)"
    by (simp_all add: route_matches_def sample_Request_def sample_Route_def requestFactory_def
        prefix_regexec_def c_str_def)
  show ?thesis
    unfolding dispatcher_correct
    by (intro conjI TrueI exI [of _ sample_Task] exI [of _ sample_Route] exI [of _ "[]"]
        exI [of _ "[sample_Route\<lparr>route_method := ''GET''\<rparr>]"])
      (simp_all add: m, simp add: sample_Route_def)
qed

end
