(* ===== verification/Static.thy ===== *)
theory Static
  imports Task
begin

text \<open>
  Static resources: \<^verbatim>\<open>defaultStaticResourcesCallback\<close> of \<^verbatim>\<open>server/server.cpp\<close> with the two static
  members it reads and the cache it writes. The file system is an argument.
\<close>

record static_config =
  pathToStaticResources :: bytes
  isCachedStaticResources :: bool
  mimeTypesMap :: "bytes \<rightharpoonup> bytes"

type_synonym resource_cache = "bytes \<rightharpoonup> ResponseBase"

text \<open>
  The extension: what follows the last dot of the full target, at most nine characters, copied
  with its NUL into \<^verbatim>\<open>char content_type_key[10]\<close>.
\<close>

definition content_type_key :: "bytes \<Rightarrow> bytes option" where
  "content_type_key target =
     (case strrchr (c_str target) CHR ''.'' of
        None \<Rightarrow> None
      | Some i \<Rightarrow>
          let ext = drop (i + 1) (c_str target)
          in if length ext > 10 - 1 then None else Some ext)"

text \<open>\<^verbatim>\<open>snprintf(path_to_file, 120, "%s%s", ...)\<close>, read back as a C string.\<close>

definition path_to_file :: "static_config \<Rightarrow> bytes \<Rightarrow> bytes" where
  "path_to_file cfg target =
     (case snprintf 120 ''%s%s'' [Arg_s (pathToStaticResources cfg), Arg_s target] of
        Inl e \<Rightarrow> []
      | Inr buf \<Rightarrow> c_str buf)"

definition read_resource ::
  "file_system \<Rightarrow> bytes \<Rightarrow> static_config \<Rightarrow> bytes \<Rightarrow> Request \<Rightarrow> resource_cache \<Rightarrow>
   ResponseBase \<times> resource_cache" where
  "read_resource fs logo cfg mime request cache =
     (case fs (path_to_file cfg (uri request)) of
        None \<Rightarrow> (Response404 logo, cache)
      | Some buf \<Rightarrow>
          let response = response_of RESPONSE_STATE_OK mime buf False
          in (response, cache(uri request \<mapsto> response)))"

definition defaultStaticResourcesCallback ::
  "file_system \<Rightarrow> bytes \<Rightarrow> static_config \<Rightarrow> Request \<Rightarrow> resource_cache \<Rightarrow>
   ResponseBase \<times> resource_cache" where
  "defaultStaticResourcesCallback fs logo cfg request cache =
     (case content_type_key (fullUri request) of
        None \<Rightarrow> (Response404 logo, cache)
      | Some key \<Rightarrow>
          (case mimeTypesMap cfg key of
             None \<Rightarrow> (Response404 logo, cache)
           | Some mime \<Rightarrow>
               if isCachedStaticResources cfg then
                 (case cache (uri request) of
                    None \<Rightarrow> read_resource fs logo cfg (c_str mime) request cache
                  | Some response \<Rightarrow> (response, cache))
               else read_resource fs logo cfg (c_str mime) request cache))"

subsection \<open>The cache is transparent\<close>

lemma path_to_file_eq:
  "path_to_file cfg target = take 119 (c_str (pathToStaticResources cfg) @ c_str target)"
proof -
  let ?s = "c_str (pathToStaticResources cfg) @ c_str target"
  have "printf ''%s%s'' [Arg_s (pathToStaticResources cfg), Arg_s target] = Inr ?s" by simp
  then have "snprintf 120 ''%s%s'' [Arg_s (pathToStaticResources cfg), Arg_s target] =
      Inr (take 119 ?s @ [CHR 0x00])"
    by (simp add: snprintf_def del: printf.simps take_append)
  moreover have "CHR 0x00 \<notin> set (take 119 ?s)"
    using in_set_takeD [of "CHR 0x00" 119 ?s] by auto
  then have "c_str (take 119 ?s @ [CHR 0x00]) = take 119 ?s" by (rule c_str_terminated)
  ultimately show ?thesis by (simp add: path_to_file_def del: take_append printf.simps)
qed

text \<open>Every cached response is what reading its file gives, with some type.\<close>

definition cache_inv :: "file_system \<Rightarrow> static_config \<Rightarrow> resource_cache \<Rightarrow> bool" where
  "cache_inv fs cfg cache \<longleftrightarrow>
     (\<forall>u r. cache u = Some r \<longrightarrow>
        (\<exists>mime buf. fs (path_to_file cfg u) = Some buf \<and> r = response_of RESPONSE_STATE_OK mime buf False))"

lemma cache_invD:
  assumes "cache_inv fs cfg cache" "cache u = Some r"
  obtains mime buf where "fs (path_to_file cfg u) = Some buf"
    "r = response_of RESPONSE_STATE_OK mime buf False"
  using assms unfolding cache_inv_def by blast

lemma cache_inv_empty: "cache_inv fs cfg Map.empty"
  by (simp add: cache_inv_def)

lemma read_resource_inv:
  "cache_inv fs cfg cache \<Longrightarrow> cache_inv fs cfg (snd (read_resource fs logo cfg mime request cache))"
  by (auto simp: read_resource_def cache_inv_def Let_def split: option.split)

lemma callback_inv:
  "cache_inv fs cfg cache \<Longrightarrow>
   cache_inv fs cfg (snd (defaultStaticResourcesCallback fs logo cfg request cache))"
  using read_resource_inv [of fs cfg cache logo _ request]
  by (auto simp: defaultStaticResourcesCallback_def split: option.split)

text \<open>
  C27: what the cache changes. As long as the files do not change, the invariant of the cache is kept by every call,
  and the call with the cache answers like the call that reads the file, with the same code, phrase, body, added
  headers and flag for compression. Only the content type may differ: it is the one of the cached response, that is
  the one of the request that first loaded the resource, when the resource is cached and the extension of the
  target is known, and that of the call without the cache otherwise. A cached entry is never replaced by a call with
  the cache.
\<close>

theorem static_cache_transparent:
  assumes "cache_inv fs cfg cache"
    and "defaultStaticResourcesCallback fs logo (cfg\<lparr>isCachedStaticResources := True\<rparr>) request cache = (r, cache')"
    and "defaultStaticResourcesCallback fs logo (cfg\<lparr>isCachedStaticResources := False\<rparr>) request cache = (q, cache'')"
  shows "r = q\<lparr>mimeType := mimeType r\<rparr> \<and>
    mimeType r =
      (case (Option.bind (content_type_key (fullUri request)) (mimeTypesMap cfg), cache (uri request)) of
         (Some _, Some cached) \<Rightarrow> mimeType cached
       | _ \<Rightarrow> mimeType q) \<and>
    cache_inv fs cfg cache' \<and> cache_inv fs cfg cache'' \<and> cache \<subseteq>\<^sub>m cache'"
proof -
  have cfg: "cache_inv fs (cfg\<lparr>isCachedStaticResources := b\<rparr>) c \<longleftrightarrow> cache_inv fs cfg c" for b c
    by (simp add: cache_inv_def path_to_file_eq)
  have inv: "cache_inv fs cfg (snd (defaultStaticResourcesCallback fs logo (cfg\<lparr>isCachedStaticResources := b\<rparr>) request cache))" for b
    using callback_inv [of fs "cfg\<lparr>isCachedStaticResources := b\<rparr>" cache logo request] assms(1) cfg by blast
  show ?thesis
  proof (cases "cache (uri request)")
    case None
    then show ?thesis using assms(2,3) inv [of True] inv [of False]
      by (auto simp: defaultStaticResourcesCallback_def read_resource_def path_to_file_eq map_le_def Let_def
          split: option.splits)
  next
    case (Some c)
    from cache_invD [OF assms(1) this] obtain mime buf where
      "fs (path_to_file cfg (uri request)) = Some buf" "c = response_of RESPONSE_STATE_OK mime buf False" .
    with Some assms(2,3) inv [of True] inv [of False] show ?thesis
      by (auto simp: defaultStaticResourcesCallback_def read_resource_def path_to_file_eq response_of_def
          ResponseBase_new_def Let_def split: option.splits)
  qed
qed

definition sample_static :: static_config where
  "sample_static = \<lparr>pathToStaticResources = ''/www'', isCachedStaticResources = True,
     mimeTypesMap = generateMimeTypesMap\<rparr>"

definition sample_fs :: file_system where
  "sample_fs = [''/www/a.css'' \<mapsto> ''p { }'']"

definition get_request :: "bytes \<Rightarrow> bytes \<Rightarrow> Request" where
  "get_request target full = the (requestFactory True 5 0)\<lparr>req_method := ''GET'', uri := target, fullUri := full\<rparr>"

text \<open>The style sheet, first asked for with a query that ends in another extension.\<close>

definition sample_cache :: resource_cache where
  "sample_cache = snd (defaultStaticResourcesCallback sample_fs [] sample_static (get_request ''/a.css'' ''/a.css?b.js'') Map.empty)"

theorem static_cache_transparent_witness:
  "let r = fst (defaultStaticResourcesCallback sample_fs [] (sample_static\<lparr>isCachedStaticResources := True\<rparr>)
         (get_request ''/a.css'' ''/a.css'') sample_cache);
       q = fst (defaultStaticResourcesCallback sample_fs [] (sample_static\<lparr>isCachedStaticResources := False\<rparr>)
         (get_request ''/a.css'' ''/a.css'') sample_cache)
   in r = q\<lparr>mimeType := mimeType r\<rparr> \<and> resp_body r = ''p { }'' \<and> mimeType r = ''application/javascript'' \<and> mimeType q = ''text/css''"
proof -
  let ?req = "get_request ''/a.css'' ''/a.css''"
  let ?call = "\<lambda>b. defaultStaticResourcesCallback sample_fs [] (sample_static\<lparr>isCachedStaticResources := b\<rparr>) ?req sample_cache"
  have inv: "cache_inv sample_fs sample_static sample_cache"
    unfolding sample_cache_def by (rule callback_inv [OF cache_inv_empty])
  have "fst (?call True) = (fst (?call False))\<lparr>mimeType := mimeType (fst (?call True))\<rparr>"
    by (rule static_cache_transparent [OF inv surjective_pairing surjective_pairing, THEN conjunct1])
  moreover have "resp_body (fst (?call True)) = ''p { }''" "mimeType (fst (?call True)) = ''application/javascript''"
    "mimeType (fst (?call False)) = ''text/css''" by code_simp+
  ultimately show ?thesis by (simp add: Let_def)
qed

text \<open>
  What is served. A body with code 200 is always the content of the one file whose path is
  the configured directory followed by the target, cut after 119 bytes (a target is not
  normalised: \<^verbatim>\<open>..\<close> is kept), and only for a known extension; the extension is that of the full
  target, so \<^verbatim>\<open>/a.css?v=1.0\<close> is answered with 404.
\<close>

theorem static_serves_file:
  assumes "cache_inv fs cfg cache"
    and "defaultStaticResourcesCallback fs logo cfg request cache = (r, cache')" "resp_code r = 200"
  shows "fs (take 119 (c_str (pathToStaticResources cfg) @ c_str (uri request))) = Some (resp_body r) \<and>
    (\<exists>key mime. content_type_key (fullUri request) = Some key \<and> mimeTypesMap cfg key = Some mime)"
proof -
  have "fs (path_to_file cfg (uri request)) = Some (resp_body r)" if "cache (uri request) = Some r"
    using cache_invD [OF assms(1) that] by (metis response_of_def ResponseBase_new_def ResponseBase.select_convs(2))
  with assms(2,3) show ?thesis
    unfolding path_to_file_eq [symmetric]
    by (auto simp: defaultStaticResourcesCallback_def read_resource_def Response404_def response_of_def
        ResponseBase_new_def state_defs Let_def split: option.splits if_splits)
qed

theorem static_serves_file_witness:
  "sample_fs (take 119 (c_str (pathToStaticResources sample_static) @ c_str ''/a.css'')) = Some ''p { }'' \<and>
   (\<exists>key mime. content_type_key ''/a.css'' = Some key \<and> mimeTypesMap sample_static key = Some mime) \<and>
   resp_code (fst (defaultStaticResourcesCallback sample_fs [] sample_static
     (get_request ''/a.css'' ''/a.css?v=1.0'') Map.empty)) = 404"
proof -
  let ?req = "get_request ''/a.css'' ''/a.css''"
  have eq: "uri ?req = ''/a.css''" "fullUri ?req = ''/a.css''" by (simp_all add: get_request_def)
  obtain r c where rc: "defaultStaticResourcesCallback sample_fs [] sample_static ?req Map.empty = (r, c)" by force
  have "resp_code (fst (defaultStaticResourcesCallback sample_fs [] sample_static ?req Map.empty)) = 200"
    "resp_body (fst (defaultStaticResourcesCallback sample_fs [] sample_static ?req Map.empty)) = ''p { }''"
    by code_simp+
  then have r: "resp_code r = 200" "resp_body r = ''p { }''" by (simp_all add: rc)
  moreover have "resp_code (fst (defaultStaticResourcesCallback sample_fs [] sample_static
      (get_request ''/a.css'' ''/a.css?v=1.0'') Map.empty)) = 404" by code_simp
  ultimately show ?thesis
    using static_serves_file [OF cache_inv_empty rc r(1)] unfolding eq by simp
qed

end
