(* ===== verification/Buffer.thy ===== *)
theory Buffer
  imports Prelude
begin

text \<open>
  The per-connection buffer (\<^verbatim>\<open>buffer/buffer.h\<close>, \<^verbatim>\<open>buffer/buffer.cpp\<close>): two heap arrays, the
  fill position of the input array, the read position of the output array and the number of
  bytes still to be sent.
\<close>

record Buffer =
  inputBuffer :: bytes
  outputBuffer :: bytes
  posOutputBuffer :: nat
  posInputBuffer :: nat
  numberBytesToSend :: nat
  inputBufferLength :: nat
  outputBufferLength :: nat

text \<open>
  \<^verbatim>\<open>bufferFactory\<close>: \<open>obj\<close> tells whether \<^verbatim>\<open>new (std::nothrow) Buffer\<close> succeeds, \<open>inp\<close> and
  \<open>out\<close> are what the allocator returns for the two arrays (\<open>None\<close> is the null pointer; the
  bytes of a fresh array are arbitrary, only their number is fixed by the request).
\<close>

definition bufferFactory ::
  "bool \<Rightarrow> bytes option \<Rightarrow> bytes option \<Rightarrow> nat \<Rightarrow> nat \<Rightarrow> Buffer option" where
  "bufferFactory obj inp out in_len out_len =
     (if obj then
        (case (inp, out) of
           (Some i, Some ou) \<Rightarrow>
             Some \<lparr>inputBuffer = i, outputBuffer = ou, posOutputBuffer = 0, posInputBuffer = 0,
                   numberBytesToSend = 0, inputBufferLength = in_len,
                   outputBufferLength = out_len\<rparr>
         | _ \<Rightarrow> None)
      else None)"

definition Buffer_clear :: "Buffer \<Rightarrow> Buffer" where
  "Buffer_clear b = b\<lparr>posOutputBuffer := 0, posInputBuffer := 0, numberBytesToSend := 0\<rparr>"

definition addDataToInputBuffer :: "bytes \<Rightarrow> Buffer \<Rightarrow> Buffer res" where
  "addDataToInputBuffer data b =
     bind_res (mem_write (inputBuffer b) (posInputBuffer b) data)
       (\<lambda>mem. Inr (b\<lparr>inputBuffer := mem, posInputBuffer := posInputBuffer b + length data\<rparr>))"

definition addDataToOutputBuffer :: "bytes \<Rightarrow> Buffer \<Rightarrow> Buffer res" where
  "addDataToOutputBuffer data b =
     bind_res (mem_write (outputBuffer b) (posOutputBuffer b) data)
       (\<lambda>mem. Inr (b\<lparr>outputBuffer := mem,
                     numberBytesToSend := numberBytesToSend b + length data\<rparr>))"

definition setPosOutputBuffer :: "nat \<Rightarrow> Buffer \<Rightarrow> Buffer" where
  "setPosOutputBuffer pos b = b\<lparr>posOutputBuffer := pos\<rparr>"

definition setBytesToSend :: "nat \<Rightarrow> Buffer \<Rightarrow> Buffer" where
  "setBytesToSend n b = b\<lparr>numberBytesToSend := n\<rparr>"

text \<open>
  The positions of a well-formed buffer stay inside its arrays. \<open>inputContent\<close> is what the
  parser is handed, \<open>pendingOutput\<close> the window that \<^verbatim>\<open>send\<close> transmits from.
\<close>

definition buffer_wf :: "Buffer \<Rightarrow> bool" where
  "buffer_wf b \<longleftrightarrow>
     length (inputBuffer b) = inputBufferLength b \<and>
     length (outputBuffer b) = outputBufferLength b \<and>
     posInputBuffer b \<le> inputBufferLength b \<and>
     posOutputBuffer b + numberBytesToSend b \<le> outputBufferLength b"

definition inputContent :: "Buffer \<Rightarrow> bytes" where
  "inputContent b = take (posInputBuffer b) (inputBuffer b)"

definition pendingOutput :: "Buffer \<Rightarrow> bytes" where
  "pendingOutput b = take (numberBytesToSend b) (drop (posOutputBuffer b) (outputBuffer b))"

text \<open>
  The step of the event loop after \<^verbatim>\<open>send\<close> returned \<open>n\<close>: the two setters in the order the code
  calls them. The subtraction is on \<^verbatim>\<open>size_t\<close>; \<^verbatim>\<open>send\<close> never reports more than it was given.
\<close>

definition consumeOutput :: "nat \<Rightarrow> Buffer \<Rightarrow> Buffer" where
  "consumeOutput n b =
     (let b1 = setBytesToSend (numberBytesToSend b - n) b
      in setPosOutputBuffer (posOutputBuffer b1 + n) b1)"

lemmas buffer_defs = buffer_wf_def inputContent_def pendingOutput_def

subsection \<open>Well-formedness\<close>

lemma bufferFactory_wf:
  assumes "bufferFactory obj inp out in_len out_len = Some b"
    and "\<And>i. inp = Some i \<Longrightarrow> length i = in_len"
    and "\<And>u. out = Some u \<Longrightarrow> length u = out_len"
  shows "buffer_wf b \<and> inputContent b = [] \<and> pendingOutput b = []"
  using assms by (auto simp: bufferFactory_def buffer_defs split: if_splits option.splits)

lemma bufferFactory_lengths:
  "bufferFactory obj inp out in_len out_len = Some b \<Longrightarrow>
   inputBufferLength b = in_len \<and> outputBufferLength b = out_len"
  by (auto simp: bufferFactory_def split: if_splits option.splits)

lemma Buffer_clear_wf [simp]: "buffer_wf b \<Longrightarrow> buffer_wf (Buffer_clear b)"
  by (simp add: buffer_wf_def Buffer_clear_def)

lemma Buffer_clear_simps [simp]:
  "posInputBuffer (Buffer_clear b) = 0"
  "posOutputBuffer (Buffer_clear b) = 0"
  "numberBytesToSend (Buffer_clear b) = 0"
  "inputBufferLength (Buffer_clear b) = inputBufferLength b"
  "outputBufferLength (Buffer_clear b) = outputBufferLength b"
  "inputBuffer (Buffer_clear b) = inputBuffer b"
  "outputBuffer (Buffer_clear b) = outputBuffer b"
  by (simp_all add: Buffer_clear_def)

lemma Buffer_clear_content [simp]:
  "inputContent (Buffer_clear b) = []" "pendingOutput (Buffer_clear b) = []"
  by (simp_all add: buffer_defs)

lemma addDataToInputBuffer_ok:
  assumes "buffer_wf b" and "posInputBuffer b + length data \<le> inputBufferLength b"
  obtains b' where "addDataToInputBuffer data b = Inr b'" "buffer_wf b'"
    "inputContent b' = inputContent b @ data"
    "posInputBuffer b' = posInputBuffer b + length data"
    "inputBufferLength b' = inputBufferLength b"
    "pendingOutput b' = pendingOutput b"
proof -
  from assms obtain mem where mem: "mem_write (inputBuffer b) (posInputBuffer b) data = Inr mem"
    using mem_write_safe_iff [of "inputBuffer b" "posInputBuffer b" data]
    by (auto simp: buffer_wf_def)
  show thesis
  proof (rule that)
    show "addDataToInputBuffer data b =
      Inr (b\<lparr>inputBuffer := mem, posInputBuffer := posInputBuffer b + length data\<rparr>)"
      by (simp add: addDataToInputBuffer_def mem)
  qed (use assms mem mem_write_length [OF mem] mem_write_prefix [OF mem]
       in \<open>auto simp: buffer_defs\<close>)
qed

lemma addDataToOutputBuffer_ok:
  assumes "buffer_wf b" and "posOutputBuffer b + length data \<le> outputBufferLength b"
    and "numberBytesToSend b = 0"
  obtains b' where "addDataToOutputBuffer data b = Inr b'" "buffer_wf b'"
    "pendingOutput b' = data" "inputContent b' = inputContent b"
    "posInputBuffer b' = posInputBuffer b"
    "outputBufferLength b' = outputBufferLength b"
    "inputBufferLength b' = inputBufferLength b"
    "inputBuffer b' = inputBuffer b"
    "posOutputBuffer b' = posOutputBuffer b" "numberBytesToSend b' = length data"
proof -
  from assms obtain mem where mem: "mem_write (outputBuffer b) (posOutputBuffer b) data = Inr mem"
    using mem_write_safe_iff [of "outputBuffer b" "posOutputBuffer b" data]
    by (auto simp: buffer_wf_def)
  show thesis
  proof (rule that)
    show "addDataToOutputBuffer data b =
      Inr (b\<lparr>outputBuffer := mem, numberBytesToSend := numberBytesToSend b + length data\<rparr>)"
      by (simp add: addDataToOutputBuffer_def mem)
  qed (use assms mem mem_write_length [OF mem] mem_write_same [OF mem]
       in \<open>auto simp: buffer_defs\<close>)
qed

lemma consumeOutput_wf:
  "buffer_wf b \<Longrightarrow> n \<le> numberBytesToSend b \<Longrightarrow> buffer_wf (consumeOutput n b)"
  by (simp add: buffer_wf_def consumeOutput_def setBytesToSend_def setPosOutputBuffer_def Let_def)

lemma consumeOutput_pending:
  "pendingOutput (consumeOutput n b) = drop n (pendingOutput b)"
  by (simp add: pendingOutput_def consumeOutput_def setBytesToSend_def setPosOutputBuffer_def
      Let_def drop_take add.commute)

subsection \<open>The input side as an append-only byte stream\<close>

text \<open>
  What the receive path relies on: as long as there is room, adding appends. The law about a
  whole sequence of reads is proved once from that.
\<close>

locale byte_stream =
  fixes add :: "bytes \<Rightarrow> 'b \<Rightarrow> 'b res"
    and content :: "'b \<Rightarrow> bytes"
    and capacity :: "'b \<Rightarrow> nat"
    and invar :: "'b \<Rightarrow> bool"
  assumes add_ok: "invar b \<Longrightarrow> length (content b) + length d \<le> capacity b \<Longrightarrow>
      \<exists>b'. add d b = Inr b' \<and> invar b' \<and> content b' = content b @ d \<and> capacity b' = capacity b"
begin

primrec add_all :: "bytes list \<Rightarrow> 'b \<Rightarrow> 'b res" where
  "add_all [] b = Inr b"
| "add_all (d # ds) b = bind_res (add d b) (add_all ds)"

lemma add_all_ok:
  "invar b \<Longrightarrow> length (content b) + length (concat ds) \<le> capacity b \<Longrightarrow>
   \<exists>b'. add_all ds b = Inr b' \<and> invar b' \<and> content b' = content b @ concat ds"
proof (induction ds arbitrary: b)
  case Nil
  then show ?case by simp
next
  case (Cons d ds)
  then obtain b1 where "add d b = Inr b1" "invar b1" "content b1 = content b @ d"
    "capacity b1 = capacity b"
    using add_ok [of b d] by auto
  with Cons.prems Cons.IH [of b1] show ?case by simp
qed

end

interpretation input_stream: byte_stream addDataToInputBuffer inputContent inputBufferLength buffer_wf
proof
  fix b :: Buffer and d :: bytes
  assume wf: "buffer_wf b" and room: "length (inputContent b) + length d \<le> inputBufferLength b"
  then have "posInputBuffer b + length d \<le> inputBufferLength b"
    by (simp add: buffer_defs)
  with wf show "\<exists>b'. addDataToInputBuffer d b = Inr b' \<and> buffer_wf b' \<and>
      inputContent b' = inputContent b @ d \<and> inputBufferLength b' = inputBufferLength b"
    by (rule addDataToInputBuffer_ok) blast
qed

text \<open>The reads of one connection, in order, as the event loop stores them.\<close>

primrec receiveAll :: "bytes list \<Rightarrow> Buffer \<Rightarrow> Buffer res" where
  "receiveAll [] b = Inr b"
| "receiveAll (d # ds) b = bind_res (addDataToInputBuffer d b) (receiveAll ds)"

lemma receiveAll_eq: "receiveAll ds = input_stream.add_all ds"
  by (induction ds) (rule ext, simp)+

end
