(* ===== verification/Statistics.thy ===== *)
theory Statistics
  imports Buffer Request Response
begin

text \<open>
  The statistics page (\<^verbatim>\<open>services/statistics/StatisticsService.h\<close> and \<^verbatim>\<open>.cpp\<close>). The service keeps
  counters of type \<^verbatim>\<open>unsigned long long\<close> and reads the two arrays of the server; they are
  arguments of the operations that look at them (\<open>None\<close> is the null pointer).
\<close>

type_synonym ull = "64 word"

record StatisticsService =
  totalNumberConnectionsAccepted :: ull
  totalNumberConnectionsProcessed :: ull
  totalNumberClientRequests :: ull
  currentNumberReadRequests :: ull
  currentNumberWriteRequests :: ull
  currentNumberWaitRequests :: ull
  currentNumberTasks :: ull
  buffersAndRequestsLength :: nat

definition StatisticsService_new :: "nat \<Rightarrow> StatisticsService" where
  "StatisticsService_new n =
     \<lparr>totalNumberConnectionsAccepted = 0, totalNumberConnectionsProcessed = 0,
      totalNumberClientRequests = 0, currentNumberReadRequests = 0, currentNumberWriteRequests = 0,
      currentNumberWaitRequests = 0, currentNumberTasks = 0, buffersAndRequestsLength = n\<rparr>"

definition addTotalNumberConnectionsAccepted :: "StatisticsService \<Rightarrow> StatisticsService" where
  "addTotalNumberConnectionsAccepted s =
     s\<lparr>totalNumberConnectionsAccepted := totalNumberConnectionsAccepted s + 1\<rparr>"

definition addTotalNumberConnectionsProcessed :: "StatisticsService \<Rightarrow> StatisticsService" where
  "addTotalNumberConnectionsProcessed s =
     s\<lparr>totalNumberConnectionsProcessed := totalNumberConnectionsProcessed s + 1\<rparr>"

definition addTotalNumberClientRequests :: "StatisticsService \<Rightarrow> StatisticsService" where
  "addTotalNumberClientRequests s =
     s\<lparr>totalNumberClientRequests := totalNumberClientRequests s + 1\<rparr>"

text \<open>The argument is an \<^verbatim>\<open>int\<close>; a negative one wraps around.\<close>

definition setCurrentNumberTasks :: "int \<Rightarrow> StatisticsService \<Rightarrow> StatisticsService" where
  "setCurrentNumberTasks n s = s\<lparr>currentNumberTasks := of_int n\<rparr>"

subsection \<open>Counting connections\<close>

text \<open>The loop of the three counts: \<open>test i\<close> decides for index \<open>i\<close>, the counter is incremented.\<close>

fun count_loop :: "(nat \<Rightarrow> bool) \<Rightarrow> nat \<Rightarrow> nat \<Rightarrow> ull \<Rightarrow> ull" where
  "count_loop test i 0 counter = counter"
| "count_loop test i (Suc k) counter =
     count_loop test (i + 1) k (if test i then counter + 1 else counter)"

definition is_reading :: "Buffer option list \<Rightarrow> Request option list \<Rightarrow> nat \<Rightarrow> bool" where
  "is_reading bufs reqs i =
     (case (reqs ! i, bufs ! i) of
        (Some r, Some b) \<Rightarrow> \<not> headerAccept r \<and> posInputBuffer b > 0
      | _ \<Rightarrow> False)"

definition is_writing :: "Buffer option list \<Rightarrow> Request option list \<Rightarrow> nat \<Rightarrow> bool" where
  "is_writing bufs reqs i =
     (case (reqs ! i, bufs ! i) of
        (Some r, Some b) \<Rightarrow> headerAccept r \<and> posOutputBuffer b > 0
      | _ \<Rightarrow> False)"

definition computeCurrentNumberReadRequests ::
  "Buffer option list \<Rightarrow> Request option list \<Rightarrow> StatisticsService \<Rightarrow> StatisticsService" where
  "computeCurrentNumberReadRequests bufs reqs s =
     s\<lparr>currentNumberReadRequests :=
         count_loop (is_reading bufs reqs) 0 (buffersAndRequestsLength s) 0\<rparr>"

definition computeCurrentNumberWriteRequests ::
  "Buffer option list \<Rightarrow> Request option list \<Rightarrow> StatisticsService \<Rightarrow> StatisticsService" where
  "computeCurrentNumberWriteRequests bufs reqs s =
     s\<lparr>currentNumberWriteRequests :=
         count_loop (is_writing bufs reqs) 0 (buffersAndRequestsLength s) 0\<rparr>"

definition computeCurrentNumberWaitRequests ::
  "Request option list \<Rightarrow> StatisticsService \<Rightarrow> StatisticsService" where
  "computeCurrentNumberWaitRequests reqs s =
     s\<lparr>currentNumberWaitRequests :=
         count_loop (\<lambda>i. reqs ! i \<noteq> None) 0 (buffersAndRequestsLength s) 0 -
         currentNumberReadRequests s - currentNumberWriteRequests s\<rparr>"

subsection \<open>The page\<close>

definition stat_prefix :: bytes where
  "stat_prefix =
     ''<!DOCTYPE html>'' @ [CHR 0x0A] @ ''<html lang='' @ [CHR 0x22] @ ''en'' @ [CHR 0x22] @
     ''>'' @ [CHR 0x0A] @ ''<head>'' @ [CHR 0x0A] @ ''    <meta charset='' @ [CHR 0x22] @
     ''UTF-8'' @ [CHR 0x22] @ ''>'' @ [CHR 0x0A] @ ''    <title>onyxup status page</title>'' @
     [CHR 0x0A] @ ''    <h3>'' @
     [CHR 0xD0, CHR 0xA1, CHR 0xD1, CHR 0x82, CHR 0xD0, CHR 0xB0, CHR 0xD1, CHR 0x82,
      CHR 0xD0, CHR 0xB8, CHR 0xD1, CHR 0x81, CHR 0xD1, CHR 0x82, CHR 0xD0, CHR 0xB8,
      CHR 0xD0, CHR 0xBA, CHR 0xD0, CHR 0xB0] @
     '' '' @
     [CHR 0xD1, CHR 0x80, CHR 0xD0, CHR 0xB0, CHR 0xD0, CHR 0xB1, CHR 0xD0, CHR 0xBE,
      CHR 0xD1, CHR 0x82, CHR 0xD1, CHR 0x8B] @
     '' '' @
     [CHR 0xD1, CHR 0x81, CHR 0xD0, CHR 0xB5, CHR 0xD1, CHR 0x80, CHR 0xD0, CHR 0xB2,
      CHR 0xD0, CHR 0xB5, CHR 0xD1, CHR 0x80, CHR 0xD0, CHR 0xB0] @
     ''</h3>'' @ [CHR 0x0A] @ ''<style>'' @ [CHR 0x0A] @ ''table {'' @ [CHR 0x0A] @
     ''border-spacing: 10px;'' @ [CHR 0x0A] @ ''color: white;'' @ [CHR 0x0A] @ ''}'' @ [CHR 0x0A] @
     ''</style>'' @ [CHR 0x0A] @ ''</head>'' @ [CHR 0x0A] @ ''<body>'' @ [CHR 0x0A]"

definition stat_suffix :: bytes where
  "stat_suffix =
     ''</body>'' @ [CHR 0x0A] @ ''</html>''"

definition stat_text_1 :: bytes where
  "stat_text_1 =
     ''<hr/>'' @ [CHR 0x0A] @ ''<p>'' @ [CHR 0x0A] @ ''<b>'' @
     [CHR 0xD0, CHR 0xA7, CHR 0xD0, CHR 0xB8, CHR 0xD1, CHR 0x81, CHR 0xD0, CHR 0xBB,
      CHR 0xD0, CHR 0xBE] @
     '' '' @
     [CHR 0xD0, CHR 0xB0, CHR 0xD0, CHR 0xBA, CHR 0xD1, CHR 0x82, CHR 0xD0, CHR 0xB8,
      CHR 0xD0, CHR 0xB2, CHR 0xD0, CHR 0xBD, CHR 0xD1, CHR 0x8B, CHR 0xD1, CHR 0x85] @
     '' '' @
     [CHR 0xD0, CHR 0xBA, CHR 0xD0, CHR 0xBB, CHR 0xD0, CHR 0xB8, CHR 0xD0, CHR 0xB5,
      CHR 0xD0, CHR 0xBD, CHR 0xD1, CHR 0x82, CHR 0xD1, CHR 0x81, CHR 0xD0, CHR 0xBA,
      CHR 0xD0, CHR 0xB8, CHR 0xD1, CHR 0x85] @
     '' '' @
     [CHR 0xD1, CHR 0x81, CHR 0xD0, CHR 0xBE, CHR 0xD0, CHR 0xB5, CHR 0xD0, CHR 0xB4,
      CHR 0xD0, CHR 0xB8, CHR 0xD0, CHR 0xBD, CHR 0xD0, CHR 0xB5, CHR 0xD0, CHR 0xBD,
      CHR 0xD0, CHR 0xB8, CHR 0xD0, CHR 0xB9] @
     '' = ''"

definition stat_text_2 :: bytes where
  "stat_text_2 =
     ''</b>'' @ [CHR 0x0A] @ ''</p>'' @ [CHR 0x0A] @ ''<hr/>'' @ [CHR 0x0A] @ ''<p>'' @
     [CHR 0x0A] @ ''<table width='' @ [CHR 0x22] @ ''500px'' @ [CHR 0x22] @ '' bgcolor='' @
     [CHR 0x22] @ ''#FFA500'' @ [CHR 0x22] @ ''>'' @ [CHR 0x0A] @ ''<tr>'' @ [CHR 0x0A] @
     ''<td><b>'' @
     [CHR 0xD0, CHR 0x9E, CHR 0xD0, CHR 0xB1, CHR 0xD1, CHR 0x89, CHR 0xD0, CHR 0xB5,
      CHR 0xD0, CHR 0xB5] @
     '' '' @
     [CHR 0xD0, CHR 0xBA, CHR 0xD0, CHR 0xBE, CHR 0xD0, CHR 0xBB, CHR 0xD0, CHR 0xB8,
      CHR 0xD1, CHR 0x87, CHR 0xD0, CHR 0xB5, CHR 0xD1, CHR 0x81, CHR 0xD1, CHR 0x82,
      CHR 0xD0, CHR 0xB2, CHR 0xD0, CHR 0xBE] @
     '' '' @
     [CHR 0xD0, CHR 0xBF, CHR 0xD1, CHR 0x80, CHR 0xD0, CHR 0xB8, CHR 0xD0, CHR 0xBD,
      CHR 0xD1, CHR 0x8F, CHR 0xD1, CHR 0x82, CHR 0xD1, CHR 0x8B, CHR 0xD1, CHR 0x85] @
     '' '' @
     [CHR 0xD0, CHR 0xBF, CHR 0xD0, CHR 0xBE, CHR 0xD0, CHR 0xB4, CHR 0xD0, CHR 0xBA,
      CHR 0xD0, CHR 0xBB, CHR 0xD1, CHR 0x8E, CHR 0xD1, CHR 0x87, CHR 0xD0, CHR 0xB5,
      CHR 0xD0, CHR 0xBD, CHR 0xD0, CHR 0xB8, CHR 0xD0, CHR 0xB9] @
     ''</b></td>'' @ [CHR 0x0A] @ ''<td><b>''"

definition stat_text_3 :: bytes where
  "stat_text_3 =
     ''</b></td>'' @ [CHR 0x0A] @ ''</tr>'' @ [CHR 0x0A] @ ''<tr>'' @ [CHR 0x0A] @ ''<td><b>'' @
     [CHR 0xD0, CHR 0x9E, CHR 0xD0, CHR 0xB1, CHR 0xD1, CHR 0x89, CHR 0xD0, CHR 0xB5,
      CHR 0xD0, CHR 0xB5] @
     '' '' @
     [CHR 0xD0, CHR 0xBA, CHR 0xD0, CHR 0xBE, CHR 0xD0, CHR 0xBB, CHR 0xD0, CHR 0xB8,
      CHR 0xD1, CHR 0x87, CHR 0xD0, CHR 0xB5, CHR 0xD1, CHR 0x81, CHR 0xD1, CHR 0x82,
      CHR 0xD0, CHR 0xB2, CHR 0xD0, CHR 0xBE] @
     '' '' @
     [CHR 0xD0, CHR 0xBE, CHR 0xD0, CHR 0xB1, CHR 0xD1, CHR 0x80, CHR 0xD0, CHR 0xB0,
      CHR 0xD0, CHR 0xB1, CHR 0xD0, CHR 0xBE, CHR 0xD1, CHR 0x82, CHR 0xD0, CHR 0xB0,
      CHR 0xD0, CHR 0xBD, CHR 0xD0, CHR 0xBD, CHR 0xD1, CHR 0x8B, CHR 0xD1, CHR 0x85] @
     '' '' @
     [CHR 0xD0, CHR 0xBF, CHR 0xD0, CHR 0xBE, CHR 0xD0, CHR 0xB4, CHR 0xD0, CHR 0xBA,
      CHR 0xD0, CHR 0xBB, CHR 0xD1, CHR 0x8E, CHR 0xD1, CHR 0x87, CHR 0xD0, CHR 0xB5,
      CHR 0xD0, CHR 0xBD, CHR 0xD0, CHR 0xB8, CHR 0xD0, CHR 0xB9] @
     ''</b></td>'' @ [CHR 0x0A] @ ''<td><b>''"

definition stat_text_4 :: bytes where
  "stat_text_4 =
     ''</b></td>'' @ [CHR 0x0A] @ ''</tr>'' @ [CHR 0x0A] @ ''<tr>'' @ [CHR 0x0A] @ ''<td><b>'' @
     [CHR 0xD0, CHR 0xA1, CHR 0xD1, CHR 0x83, CHR 0xD0, CHR 0xBC, CHR 0xD0, CHR 0xBC,
      CHR 0xD0, CHR 0xB0, CHR 0xD1, CHR 0x80, CHR 0xD0, CHR 0xBD, CHR 0xD0, CHR 0xBE,
      CHR 0xD0, CHR 0xB5] @
     '' '' @
     [CHR 0xD1, CHR 0x87, CHR 0xD0, CHR 0xB8, CHR 0xD1, CHR 0x81, CHR 0xD0, CHR 0xBB,
      CHR 0xD0, CHR 0xBE] @
     '' '' @
     [CHR 0xD0, CHR 0xBA, CHR 0xD0, CHR 0xBB, CHR 0xD0, CHR 0xB8, CHR 0xD0, CHR 0xB5,
      CHR 0xD0, CHR 0xBD, CHR 0xD1, CHR 0x82, CHR 0xD1, CHR 0x81, CHR 0xD0, CHR 0xBA,
      CHR 0xD0, CHR 0xB8, CHR 0xD1, CHR 0x85] @
     '' '' @
     [CHR 0xD0, CHR 0xB7, CHR 0xD0, CHR 0xB0, CHR 0xD0, CHR 0xBF, CHR 0xD1, CHR 0x80,
      CHR 0xD0, CHR 0xBE, CHR 0xD1, CHR 0x81, CHR 0xD0, CHR 0xBE, CHR 0xD0, CHR 0xB2] @
     ''</b></td>'' @ [CHR 0x0A] @ ''<td><b>''"

definition stat_text_5 :: bytes where
  "stat_text_5 =
     ''</b></td>'' @ [CHR 0x0A] @ ''</tr>'' @ [CHR 0x0A] @ ''</p>'' @ [CHR 0x0A] @ ''<p>'' @
     [CHR 0x0A] @ ''<table width='' @ [CHR 0x22] @ ''500px'' @ [CHR 0x22] @ '' bgcolor='' @
     [CHR 0x22] @ ''#32CD32'' @ [CHR 0x22] @ ''>'' @ [CHR 0x0A] @ ''<tr>'' @ [CHR 0x0A] @
     ''<td><b>'' @
     [CHR 0xD0, CHR 0xA2, CHR 0xD0, CHR 0xB5, CHR 0xD0, CHR 0xBA, CHR 0xD1, CHR 0x83,
      CHR 0xD1, CHR 0x89, CHR 0xD0, CHR 0xB5, CHR 0xD0, CHR 0xB5] @
     '' '' @
     [CHR 0xD1, CHR 0x87, CHR 0xD0, CHR 0xB8, CHR 0xD1, CHR 0x81, CHR 0xD0, CHR 0xBB,
      CHR 0xD0, CHR 0xBE] @
     '' '' @
     [CHR 0xD0, CHR 0xB7, CHR 0xD0, CHR 0xB0, CHR 0xD0, CHR 0xBF, CHR 0xD1, CHR 0x80,
      CHR 0xD0, CHR 0xBE, CHR 0xD1, CHR 0x81, CHR 0xD0, CHR 0xBE, CHR 0xD0, CHR 0xB2] @
     '' '' @
     [CHR 0xD1, CHR 0x87, CHR 0xD1, CHR 0x82, CHR 0xD0, CHR 0xB5, CHR 0xD0, CHR 0xBD,
      CHR 0xD0, CHR 0xB8, CHR 0xD1, CHR 0x8F] @
     ''</b></td>'' @ [CHR 0x0A] @ ''<td><b>''"

definition stat_text_6 :: bytes where
  "stat_text_6 =
     ''</b></td>'' @ [CHR 0x0A] @ ''</tr>'' @ [CHR 0x0A] @ ''<tr>'' @ [CHR 0x0A] @ ''<td><b>'' @
     [CHR 0xD0, CHR 0xA2, CHR 0xD0, CHR 0xB5, CHR 0xD0, CHR 0xBA, CHR 0xD1, CHR 0x83,
      CHR 0xD1, CHR 0x89, CHR 0xD0, CHR 0xB5, CHR 0xD0, CHR 0xB5] @
     '' '' @
     [CHR 0xD1, CHR 0x87, CHR 0xD0, CHR 0xB8, CHR 0xD1, CHR 0x81, CHR 0xD0, CHR 0xBB,
      CHR 0xD0, CHR 0xBE] @
     '' '' @
     [CHR 0xD0, CHR 0xB7, CHR 0xD0, CHR 0xB0, CHR 0xD0, CHR 0xBF, CHR 0xD1, CHR 0x80,
      CHR 0xD0, CHR 0xBE, CHR 0xD1, CHR 0x81, CHR 0xD0, CHR 0xBE, CHR 0xD0, CHR 0xB2] @
     '' '' @
     [CHR 0xD0, CHR 0xB7, CHR 0xD0, CHR 0xB0, CHR 0xD0, CHR 0xBF, CHR 0xD0, CHR 0xB8,
      CHR 0xD1, CHR 0x81, CHR 0xD0, CHR 0xB8] @
     ''</b></td>'' @ [CHR 0x0A] @ ''<td><b>''"

definition stat_text_7 :: bytes where
  "stat_text_7 =
     ''</b></td>'' @ [CHR 0x0A] @ ''</tr>'' @ [CHR 0x0A] @ ''<tr>'' @ [CHR 0x0A] @ ''<td><b>'' @
     [CHR 0xD0, CHR 0xA2, CHR 0xD0, CHR 0xB5, CHR 0xD0, CHR 0xBA, CHR 0xD1, CHR 0x83,
      CHR 0xD1, CHR 0x89, CHR 0xD0, CHR 0xB5, CHR 0xD0, CHR 0xB5] @
     '' '' @
     [CHR 0xD1, CHR 0x87, CHR 0xD0, CHR 0xB8, CHR 0xD1, CHR 0x81, CHR 0xD0, CHR 0xBB,
      CHR 0xD0, CHR 0xBE] @
     '' '' @
     [CHR 0xD0, CHR 0xBE, CHR 0xD1, CHR 0x82, CHR 0xD0, CHR 0xBA, CHR 0xD1, CHR 0x80,
      CHR 0xD1, CHR 0x8B, CHR 0xD1, CHR 0x82, CHR 0xD1, CHR 0x8B, CHR 0xD1, CHR 0x85] @
     '' '' @
     [CHR 0xD0, CHR 0xB1, CHR 0xD0, CHR 0xB5, CHR 0xD0, CHR 0xB7, CHR 0xD0, CHR 0xB4,
      CHR 0xD0, CHR 0xB5, CHR 0xD0, CHR 0xB9, CHR 0xD1, CHR 0x81, CHR 0xD1, CHR 0x82,
      CHR 0xD0, CHR 0xB2, CHR 0xD1, CHR 0x83, CHR 0xD1, CHR 0x8E, CHR 0xD1, CHR 0x89,
      CHR 0xD0, CHR 0xB8, CHR 0xD1, CHR 0x85] @
     '' '' @
     [CHR 0xD1, CHR 0x81, CHR 0xD0, CHR 0xBE, CHR 0xD0, CHR 0xB5, CHR 0xD0, CHR 0xB4,
      CHR 0xD0, CHR 0xB8, CHR 0xD0, CHR 0xBD, CHR 0xD0, CHR 0xB5, CHR 0xD0, CHR 0xBD,
      CHR 0xD0, CHR 0xB8, CHR 0xD0, CHR 0xB9] @
     ''</b></td>'' @ [CHR 0x0A] @ ''<td><b>''"

definition stat_text_8 :: bytes where
  "stat_text_8 =
     ''</b></td>'' @ [CHR 0x0A] @ ''</tr>'' @ [CHR 0x0A] @ ''<tr>'' @ [CHR 0x0A] @ ''<td><b>'' @
     [CHR 0xD0, CHR 0xA2, CHR 0xD0, CHR 0xB5, CHR 0xD0, CHR 0xBA, CHR 0xD1, CHR 0x83,
      CHR 0xD1, CHR 0x89, CHR 0xD0, CHR 0xB5, CHR 0xD0, CHR 0xB5] @
     '' '' @
     [CHR 0xD1, CHR 0x87, CHR 0xD0, CHR 0xB8, CHR 0xD1, CHR 0x81, CHR 0xD0, CHR 0xBB,
      CHR 0xD0, CHR 0xBE] @
     '' '' @
     [CHR 0xD0, CHR 0xB7, CHR 0xD0, CHR 0xB0, CHR 0xD0, CHR 0xB4, CHR 0xD0, CHR 0xB0,
      CHR 0xD1, CHR 0x87] @
     '' '' @ [CHR 0xD0, CHR 0xB2] @ '' '' @
     [CHR 0xD0, CHR 0xBE, CHR 0xD1, CHR 0x87, CHR 0xD0, CHR 0xB5, CHR 0xD1, CHR 0x80,
      CHR 0xD0, CHR 0xB5, CHR 0xD0, CHR 0xB4, CHR 0xD0, CHR 0xB8] @
     '' '' @
     [CHR 0xD0, CHR 0xB2, CHR 0xD0, CHR 0xBE, CHR 0xD1, CHR 0x80, CHR 0xD0, CHR 0xBA,
      CHR 0xD0, CHR 0xB5, CHR 0xD1, CHR 0x80, CHR 0xD0, CHR 0xBE, CHR 0xD0, CHR 0xB2] @
     ''</b></td>'' @ [CHR 0x0A] @ ''<td><b>''"

definition stat_text_9 :: bytes where
  "stat_text_9 =
     ''</b></td>'' @ [CHR 0x0A] @ ''</tr>'' @ [CHR 0x0A] @ ''</p>'' @ [CHR 0x0A]"

text \<open>A number as \<^verbatim>\<open>os << counter\<close> writes it.\<close>

definition ull_text :: "ull \<Rightarrow> bytes" where
  "ull_text w = to_string (unat w)"

definition stat_page :: "StatisticsService \<Rightarrow> bytes" where
  "stat_page s =
     stat_prefix @ stat_text_1 @ ''1'' @ stat_text_2 @
     ull_text (totalNumberConnectionsAccepted s) @ stat_text_3 @
     ull_text (totalNumberConnectionsProcessed s) @ stat_text_4 @
     ull_text (totalNumberClientRequests s) @ stat_text_5 @
     ull_text (currentNumberReadRequests s) @ stat_text_6 @
     ull_text (currentNumberWriteRequests s) @ stat_text_7 @
     ull_text (currentNumberWaitRequests s) @ stat_text_8 @
     ull_text (currentNumberTasks s) @ stat_text_9 @
     stat_suffix"

definition StatisticsService_callback ::
  "Buffer option list \<Rightarrow> Request option list \<Rightarrow> StatisticsService \<Rightarrow>
   ResponseBase \<times> StatisticsService" where
  "StatisticsService_callback bufs reqs s =
     (let s1 = computeCurrentNumberReadRequests bufs reqs s;
          s2 = computeCurrentNumberWriteRequests bufs reqs s1;
          s3 = computeCurrentNumberWaitRequests reqs s2
      in (response_of RESPONSE_STATE_OK MIME_TYPE_TEXT_HTML (stat_page s3) False, s3))"

subsection \<open>The counts\<close>

lemma count_loop_card:
  "count_loop test i k counter = counter + of_nat (card {j. i \<le> j \<and> j < i + k \<and> test j})"
proof (induction k arbitrary: i counter)
  case 0
  have "{j. i \<le> j \<and> j < i \<and> test j} = {}" by auto
  then have c: "card {j. i \<le> j \<and> j < i \<and> test j} = 0" by (simp only: card.empty)
  show ?case by (simp add: c)
next
  case (Suc k)
  have set: "{j. i \<le> j \<and> j < i + Suc k \<and> test j} =
      (if test i then insert i {j. i + 1 \<le> j \<and> j < i + 1 + k \<and> test j}
       else {j. i + 1 \<le> j \<and> j < i + 1 + k \<and> test j})"
    by (auto simp: le_eq_less_or_eq)
  have "finite {j. i + 1 \<le> j \<and> j < i + 1 + k \<and> test j}" by simp
  then show ?case
    unfolding count_loop.simps Suc.IH set by auto
qed

text \<open>
  The three current counts partition the open connections. After the callback has run, the
  number of waiting connections is the number of slots that hold a request and are neither
  reading nor writing; the two subtractions on unsigned numbers never wrap around, whatever the
  arrays hold.
\<close>

theorem statistics_partition:
  assumes "n < 2 ^ 64" and "s' = snd (StatisticsService_callback bufs reqs s)"
    and "n = buffersAndRequestsLength s"
  shows "unat (currentNumberReadRequests s') = card {i. i < n \<and> is_reading bufs reqs i} \<and>
    unat (currentNumberWriteRequests s') = card {i. i < n \<and> is_writing bufs reqs i} \<and>
    unat (currentNumberWaitRequests s') =
      card {i. i < n \<and> reqs ! i \<noteq> None \<and> \<not> is_reading bufs reqs i \<and> \<not> is_writing bufs reqs i} \<and>
    unat (currentNumberReadRequests s') + unat (currentNumberWriteRequests s') +
      unat (currentNumberWaitRequests s') = card {i. i < n \<and> reqs ! i \<noteq> None}"
proof -
  let ?R = "{i. i < n \<and> is_reading bufs reqs i}"
  let ?W = "{i. i < n \<and> is_writing bufs reqs i}"
  let ?A = "{i. i < n \<and> reqs ! i \<noteq> None}"
  let ?I = "{i. i < n \<and> reqs ! i \<noteq> None \<and> \<not> is_reading bufs reqs i \<and> \<not> is_writing bufs reqs i}"
  have count: "count_loop test 0 n 0 = of_nat (card {i. i < n \<and> test i})" for test
    by (simp add: count_loop_card)
  have split: "?A = ?R \<union> (?W \<union> ?I)" "?R \<inter> (?W \<union> ?I) = {}" "?W \<inter> ?I = {}"
    by (auto simp: is_reading_def is_writing_def split: option.splits)
  have cardA: "card ?A = card ?R + (card ?W + card ?I)"
    unfolding split(1) using split(2,3) by (simp add: card_Un_disjoint)
  have "card ?A \<le> n" using card_mono [of "{..<n}" ?A] by auto
  then have small: "card ?R < 2 ^ 64" "card ?W < 2 ^ 64" "card ?I < 2 ^ 64"
    using cardA assms(1) by auto
  have "currentNumberReadRequests s' = of_nat (card ?R)" "currentNumberWriteRequests s' = of_nat (card ?W)"
    "currentNumberWaitRequests s' = of_nat (card ?A) - of_nat (card ?R) - of_nat (card ?W)"
    by (simp_all add: assms(2,3) StatisticsService_callback_def computeCurrentNumberReadRequests_def
        computeCurrentNumberWriteRequests_def computeCurrentNumberWaitRequests_def count [unfolded assms(3)] Let_def)
  moreover have "(of_nat (card ?A) - of_nat (card ?R) - of_nat (card ?W) :: ull) = of_nat (card ?I)"
    unfolding cardA by simp
  ultimately show ?thesis
    using small cardA by (simp add: unat_of_nat)
qed

theorem statistics_partition_witness:
  "\<exists>s'. s' = snd (StatisticsService_callback [None, None] [None, Some (the (requestFactory True 5 0))]
       (StatisticsService_new 2)) \<and>
     unat (currentNumberReadRequests s') + unat (currentNumberWriteRequests s') +
       unat (currentNumberWaitRequests s') = 1"
proof -
  let ?reqs = "[None, Some (the (requestFactory True 5 0))]"
  let ?s = "snd (StatisticsService_callback [None, None] ?reqs (StatisticsService_new 2))"
  have "{i. i < 2 \<and> ?reqs ! i \<noteq> None} = {1}" by (auto simp: less_2_cases_iff)
  then have "card {i. i < 2 \<and> ?reqs ! i \<noteq> None} = 1" by simp
  with statistics_partition [of 2 ?s "[None, None]" ?reqs "StatisticsService_new 2"] show ?thesis
    by (simp add: StatisticsService_new_def)
qed

end
