(* ===== verification/Json_Utf8.thy ===== *)
theory Json_Utf8
  imports StdString
begin

text \<open>
  UTF-8, as the JSON library (\<^verbatim>\<open>json/json.hpp\<close>) has to handle it: the encoding of scalar values as a
  reference, the well-formed byte sequences of the standard, and the agreement of the two. Bytes are
  their values here.
\<close>

type_synonym octets = "nat list"

definition octets_of :: "bytes \<Rightarrow> octets" where
  "octets_of s = map byte_val s"

lemma octets_of_simps [simp]:
  "octets_of [] = []" "octets_of (c # s) = byte_val c # octets_of s" "octets_of (s @ t) = octets_of s @ octets_of t"
  "length (octets_of s) = length s"
  by (simp_all add: octets_of_def)

lemma octets_of_inject [simp]: "octets_of s = octets_of t \<longleftrightarrow> s = t"
  by (auto simp: octets_of_def inj_map_eq_map inj_def)

subsection \<open>Encoding\<close>

definition scalar_value :: "nat \<Rightarrow> bool" where
  "scalar_value cp \<longleftrightarrow> cp < 0xD800 \<or> (0xE000 \<le> cp \<and> cp \<le> 0x10FFFF)"

definition utf8_encode :: "nat \<Rightarrow> octets" where
  "utf8_encode cp =
     (if cp < 0x80 then [cp]
      else if cp < 0x800 then [0xC0 + cp div 64, 0x80 + cp mod 64]
      else if cp < 0x10000 then [0xE0 + cp div 4096, 0x80 + cp div 64 mod 64, 0x80 + cp mod 64]
      else [0xF0 + cp div 262144, 0x80 + cp div 4096 mod 64, 0x80 + cp div 64 mod 64, 0x80 + cp mod 64])"

subsection \<open>Well-formed sequences\<close>

text \<open>The ranges of the bytes that follow a leading byte.\<close>

definition follow_ranges :: "nat \<Rightarrow> (nat \<times> nat) list option" where
  "follow_ranges b =
     (if b < 0x80 then Some []
      else if b < 0xC2 then None
      else if b < 0xE0 then Some [(0x80, 0xBF)]
      else if b = 0xE0 then Some [(0xA0, 0xBF), (0x80, 0xBF)]
      else if b = 0xED then Some [(0x80, 0x9F), (0x80, 0xBF)]
      else if b < 0xF0 then Some [(0x80, 0xBF), (0x80, 0xBF)]
      else if b = 0xF0 then Some [(0x90, 0xBF), (0x80, 0xBF), (0x80, 0xBF)]
      else if b < 0xF4 then Some [(0x80, 0xBF), (0x80, 0xBF), (0x80, 0xBF)]
      else if b = 0xF4 then Some [(0x80, 0x8F), (0x80, 0xBF), (0x80, 0xBF)]
      else None)"

fun in_ranges :: "(nat \<times> nat) list \<Rightarrow> octets \<Rightarrow> bool" where
  "in_ranges [] bs \<longleftrightarrow> True"
| "in_ranges (r # rs) [] \<longleftrightarrow> False"
| "in_ranges (r # rs) (b # bs) \<longleftrightarrow> fst r \<le> b \<and> b \<le> snd r \<and> in_ranges rs bs"

function utf8_valid :: "octets \<Rightarrow> bool" where
  "utf8_valid [] \<longleftrightarrow> True"
| "utf8_valid (b # bs) \<longleftrightarrow>
     (case follow_ranges b of
        None \<Rightarrow> False
      | Some rs \<Rightarrow> in_ranges rs bs \<and> utf8_valid (drop (length rs) bs))"
  by pat_completeness auto
termination by (relation "measure length") auto

lemma in_ranges_length: "in_ranges rs bs \<Longrightarrow> length rs \<le> length bs"
  by (induction rs bs rule: in_ranges.induct) auto

lemma in_ranges_append: "in_ranges rs bs \<Longrightarrow> in_ranges rs (bs @ cs)"
  by (induction rs bs rule: in_ranges.induct) auto

lemma in_ranges_take: "in_ranges rs (take (length rs) bs) \<longleftrightarrow> in_ranges rs bs"
  by (induction rs bs rule: in_ranges.induct) auto

subsection \<open>The two agree\<close>

definition well_formed :: "octets \<Rightarrow> bool" where
  "well_formed s \<longleftrightarrow>
     (case s of
        [] \<Rightarrow> False
      | b # bs \<Rightarrow>
          (case follow_ranges b of
             None \<Rightarrow> False
           | Some rs \<Rightarrow> length rs = length bs \<and> in_ranges rs bs))"

lemma utf8_encode_well_formed:
  assumes "scalar_value cp"
  shows "well_formed (utf8_encode cp)"
proof -
  consider "cp < 0x80" | "0x80 \<le> cp" "cp < 0x800" | "0x800 \<le> cp" "cp < 0x10000"
    | "0x10000 \<le> cp" "cp \<le> 0x10FFFF" using assms by (force simp: scalar_value_def)
  then show ?thesis
  proof cases
    case 1
    then show ?thesis by (simp add: utf8_encode_def follow_ranges_def well_formed_def)
  next
    case 2
    then have "2 \<le> cp div 64" "cp div 64 < 32" by auto
    with 2 show ?thesis by (simp add: utf8_encode_def follow_ranges_def well_formed_def)
  next
    case 3
    define a where "a = cp div 4096"
    define m where "m = cp div 64 mod 64"
    have "cp div 64 = a * 64 + m" by (simp add: a_def m_def div_mult2_eq [of cp 64 64, simplified])
    moreover have "cp = cp div 64 * 64 + cp mod 64" by simp
    ultimately have cp: "cp = a * 4096 + m * 64 + cp mod 64" by (simp only: add_mult_distrib mult.assoc)
    have cp': "cp mod 64 < 64" "m < 64" by (simp_all add: m_def)
    have a: "a < 16" "a = 0 \<Longrightarrow> 32 \<le> m" "m < 64" using 3 cp cp' by linarith+
    have a13: "m < 32" if "a = 13"
    proof (rule ccontr)
      assume "\<not> m < 32"
      then have "0xD800 \<le> cp" using cp cp' that by linarith
      moreover have "cp < 0xE000" using cp cp' that by linarith
      ultimately show False using assms by (simp add: scalar_value_def)
    qed
    have "utf8_encode cp = [0xE0 + a, 0x80 + m, 0x80 + cp mod 64]"
      using 3 by (simp add: utf8_encode_def a_def m_def)
    with a a13 show ?thesis by (auto simp: follow_ranges_def well_formed_def)
  next
    case 4
    define a where "a = cp div 262144"
    define m where "m = cp div 4096 mod 64"
    have "cp div 4096 = a * 64 + m" by (simp add: a_def m_def div_mult2_eq [of cp 4096 64, simplified])
    moreover have "cp = cp div 4096 * 4096 + cp mod 4096" by simp
    ultimately have cp: "cp = a * 262144 + m * 4096 + cp mod 4096" by (simp only: add_mult_distrib mult.assoc)
    have cp': "cp mod 4096 < 4096" "m < 64" by (simp_all add: m_def)
    have a: "a < 5" "a = 0 \<Longrightarrow> 16 \<le> m" "a = 4 \<Longrightarrow> m < 16" "m < 64" using 4 cp cp' by linarith+
    have "utf8_encode cp = [0xF0 + a, 0x80 + m, 0x80 + cp div 64 mod 64, 0x80 + cp mod 64]"
      using 4 by (simp add: utf8_encode_def a_def m_def)
    with a show ?thesis by (auto simp: follow_ranges_def well_formed_def)
  qed
qed

text \<open>The scalar value of a well-formed sequence.\<close>

fun utf8_value :: "octets \<Rightarrow> nat" where
  "utf8_value [b] = b"
| "utf8_value [b, c] = (b - 0xC0) * 64 + (c - 0x80)"
| "utf8_value [b, c, d] = (b - 0xE0) * 4096 + (c - 0x80) * 64 + (d - 0x80)"
| "utf8_value [b, c, d, e] = (b - 0xF0) * 262144 + (c - 0x80) * 4096 + (d - 0x80) * 64 + (e - 0x80)"
| "utf8_value bs = 0"

lemma well_formed_cases:
  assumes "well_formed s"
  obtains (one) b where "s = [b]" "b < 0x80"
    | (two) b c where "s = [b, c]" "0xC2 \<le> b" "b < 0xE0" "0x80 \<le> c" "c < 0xC0"
    | (three) b c d where "s = [b, c, d]" "0xE0 \<le> b" "b < 0xF0" "0x80 \<le> c" "c < 0xC0"
        "b = 0xE0 \<Longrightarrow> 0xA0 \<le> c" "b = 0xED \<Longrightarrow> c < 0xA0" "0x80 \<le> d" "d < 0xC0"
    | (four) b c d e where "s = [b, c, d, e]" "0xF0 \<le> b" "b < 0xF5" "0x80 \<le> c" "c < 0xC0"
        "b = 0xF0 \<Longrightarrow> 0x90 \<le> c" "b = 0xF4 \<Longrightarrow> c < 0x90" "0x80 \<le> d" "d < 0xC0" "0x80 \<le> e" "e < 0xC0"
proof -
  obtain b bs rs where s: "s = b # bs" "follow_ranges b = Some rs" "length rs = length bs" "in_ranges rs bs"
    using assms by (auto simp: well_formed_def split: list.splits option.splits)
  show thesis
  proof (cases bs)
    case Nil
    with s show thesis by (intro one) (auto simp: follow_ranges_def split: if_splits)
  next
    case (Cons c cs)
    note c = this
    show thesis
    proof (cases cs)
      case Nil
      with s c show thesis by (intro two [of b c]) (auto simp: follow_ranges_def split: if_splits)
    next
      case (Cons d ds)
      note d = this
      show thesis
      proof (cases ds)
        case Nil
        with s c d show thesis by (intro three [of b c d]) (auto simp: follow_ranges_def split: if_splits)
      next
        case (Cons e es)
        with s c d show thesis by (intro four [of b c d e]) (auto simp: follow_ranges_def split: if_splits)
      qed
    qed
  qed
qed

lemma digits64: "b < (64 :: nat) \<Longrightarrow> (a * 64 + b) div 64 = a" "b < (64 :: nat) \<Longrightarrow> (a * 64 + b) mod 64 = b"
  by simp_all

lemma utf8_value_encode:
  assumes "well_formed s"
  shows "scalar_value (utf8_value s) \<and> utf8_encode (utf8_value s) = s"
  using assms
proof (cases rule: well_formed_cases)
  case (one b)
  then show ?thesis by (simp add: scalar_value_def utf8_encode_def)
next
  case (two b c)
  define x y where "x = b - 0xC0" and "y = c - 0x80"
  have "b = 0xC0 + x" "c = 0x80 + y" "2 \<le> x" "x < 32" "y < 64" using two by (auto simp: x_def y_def)
  with two(1) show ?thesis by (simp add: scalar_value_def utf8_encode_def)
next
  case (three b c d)
  define x y z where "x = b - 0xE0" and "y = c - 0x80" and "z = d - 0x80"
  have eqs: "b = 0xE0 + x" "c = 0x80 + y" "d = 0x80 + z" and
    lim: "x < 16" "y < 64" "z < 64" "x = 0 \<Longrightarrow> 32 \<le> y" "x = 13 \<Longrightarrow> y < 32"
    using three(2-5,8,9) three(6,7) by (simp_all add: x_def y_def z_def) linarith+
  define v where "v = x * 4096 + y * 64 + z"
  have v: "v = (x * 64 + y) * 64 + z" by (simp add: v_def)
  have "v div 4096 = x" "v div 64 mod 64 = y" "v mod 64 = z"
    unfolding v using lim(1-3) div_mult2_eq [of "(x * 64 + y) * 64 + z" 64 64] by (simp_all only: digits64) simp_all
  moreover have "0x800 \<le> v" using lim(3,4) by (cases "x = 0") (simp_all add: v_def)
  moreover have "v < 0x10000" using lim(1-3) by (simp add: v_def)
  moreover have "v < 0xD800 \<or> 0xE000 \<le> v"
  proof (cases "x = 13")
    case True
    with lim(5) lim(3) have "y * 64 + z < 2048" by linarith
    with True show ?thesis by (simp add: v_def)
  next
    case False
    then consider "x \<le> 12" | "14 \<le> x" by linarith
    then show ?thesis using lim(2,3) by cases (simp_all add: v_def)
  qed
  ultimately show ?thesis using three(1) eqs by (simp add: scalar_value_def utf8_encode_def v_def)
next
  case (four b c d e)
  define x y z w where "x = b - 0xF0" and "y = c - 0x80" and "z = d - 0x80" and "w = e - 0x80"
  have eqs: "b = 0xF0 + x" "c = 0x80 + y" "d = 0x80 + z" "e = 0x80 + w" and
    lim: "x < 5" "y < 64" "z < 64" "w < 64" "x = 0 \<Longrightarrow> 16 \<le> y" "x = 4 \<Longrightarrow> y < 16"
    using four(2-5,8-11) four(6,7) by (simp_all add: x_def y_def z_def w_def) linarith+
  define v where "v = x * 262144 + y * 4096 + z * 64 + w"
  have v: "v = ((x * 64 + y) * 64 + z) * 64 + w" by (simp add: v_def)
  have d: "v div 64 = (x * 64 + y) * 64 + z" "v mod 64 = w" unfolding v using lim(4) by (simp_all only: digits64)
  have "v div 4096 = v div 64 div 64" "v div 262144 = v div 64 div 64 div 64"
    by (simp_all flip: div_mult2_eq)
  then have "v div 262144 = x" "v div 4096 mod 64 = y" "v div 64 mod 64 = z" "v mod 64 = w"
    using lim(1-4) d by (simp_all only: digits64)
  moreover have "0x10000 \<le> v" using lim by (cases "x = 0") (simp_all add: v_def)
  moreover have "v \<le> 0x10FFFF" using lim by (cases "x = 4") (simp_all add: v_def)
  ultimately show ?thesis using four(1) eqs by (simp add: scalar_value_def utf8_encode_def v_def)
qed

lemma utf8_valid_append [simp]:
  assumes "well_formed w"
  shows "utf8_valid (w @ s) \<longleftrightarrow> utf8_valid s"
proof -
  obtain b bs rs where "w = b # bs" "follow_ranges b = Some rs" "length rs = length bs" "in_ranges rs bs"
    using assms by (auto simp: well_formed_def split: list.splits option.splits)
  then show ?thesis by (simp add: in_ranges_append)
qed

lemma utf8_valid_split:
  assumes "utf8_valid s" "s \<noteq> []"
  obtains w r where "s = w @ r" "well_formed w" "utf8_valid r"
proof -
  obtain b bs where s: "s = b # bs" using assms(2) by (cases s) auto
  with assms(1) obtain rs where rs: "follow_ranges b = Some rs" "in_ranges rs bs" "utf8_valid (drop (length rs) bs)"
    by (auto split: option.splits)
  have "well_formed (b # take (length rs) bs)"
    using rs(1,2) in_ranges_length [OF rs(2)] by (simp add: well_formed_def in_ranges_take)
  with s rs(3) show thesis by (intro that [of "b # take (length rs) bs" "drop (length rs) bs"]) simp_all
qed

lemma utf8_valid_induct [consumes 1, case_names Nil Cons]:
  assumes "utf8_valid s"
    and "P []"
    and "\<And>w r. well_formed w \<Longrightarrow> utf8_valid r \<Longrightarrow> P r \<Longrightarrow> P (w @ r)"
  shows "P s"
  using assms(1)
proof (induction s rule: length_induct)
  case (1 s)
  show ?case
  proof (cases "s = []")
    case False
    with 1(2) obtain w r where s: "s = w @ r" "well_formed w" "utf8_valid r" by (rule utf8_valid_split)
    then have "length r < length s" by (cases w) (simp_all add: well_formed_def)
    with 1(1) s assms(3) show ?thesis by blast
  qed (simp add: assms(2))
qed

text \<open>The well-formed strings are exactly the encodings of sequences of scalar values.\<close>

lemma utf8_valid_iff:
  "utf8_valid s \<longleftrightarrow> (\<exists>cs. list_all scalar_value cs \<and> s = concat (map utf8_encode cs))"
proof
  assume "utf8_valid s"
  then show "\<exists>cs. list_all scalar_value cs \<and> s = concat (map utf8_encode cs)"
  proof (induction rule: utf8_valid_induct)
    case Nil
    show ?case by (intro exI [of _ "[]"]) simp
  next
    case (Cons w r)
    then obtain cs where "list_all scalar_value cs" "r = concat (map utf8_encode cs)" by blast
    with utf8_value_encode [OF Cons(1)] show ?case by (intro exI [of _ "utf8_value w # cs"]) simp
  qed
next
  assume "\<exists>cs. list_all scalar_value cs \<and> s = concat (map utf8_encode cs)"
  then obtain cs where "list_all scalar_value cs" "s = concat (map utf8_encode cs)" by blast
  then show "utf8_valid s"
    by (induction cs arbitrary: s) (simp_all add: utf8_encode_well_formed)
qed

end
