(* ===== verification/Json_Value.thy ===== *)
theory Json_Value
  imports Json_Utf8 "HOL-Library.Char_ord" "HOL-Library.List_Lexorder"
begin

text \<open>
  The values of the JSON library (\<^verbatim>\<open>basic_json\<close> of \<^verbatim>\<open>json/json.hpp\<close>), its exceptions and the accessors
  the program uses. An object is a \<^verbatim>\<open>std::map\<close>: its entries in the order of the keys, which compares
  bytes as unsigned. The floating-point type is a type variable; what the C library does with it is the
  record \<open>float_ops\<close>.
\<close>

record 'f float_ops =
  strtod :: "bytes \<Rightarrow> 'f"
  isfinite :: "'f \<Rightarrow> bool"
  float_to_int :: "'f \<Rightarrow> int option"
  float_to_chars :: "'f \<Rightarrow> bytes"

datatype 'f json =
    JNull
  | JObject "(bytes \<times> 'f json) list"
  | JArray "'f json list"
  | JString bytes
  | JBoolean bool
  | JInteger int
  | JUnsigned nat
  | JFloat 'f
  | JDiscarded

definition type_name :: "'f json \<Rightarrow> bytes" where
  "type_name j =
     (case j of
        JNull \<Rightarrow> ''null''
      | JObject _ \<Rightarrow> ''object''
      | JArray _ \<Rightarrow> ''array''
      | JString _ \<Rightarrow> ''string''
      | JBoolean _ \<Rightarrow> ''boolean''
      | JDiscarded \<Rightarrow> ''discarded''
      | _ \<Rightarrow> ''number'')"

subsection \<open>Exceptions\<close>

record position_t =
  chars_read_total :: nat
  chars_read_current_line :: nat
  lines_read :: nat

definition exception_name :: "bytes \<Rightarrow> nat \<Rightarrow> bytes" where
  "exception_name ename ident = ''[json.exception.'' @ ename @ ''.'' @ to_string ident @ ''] ''"

definition position_string :: "position_t \<Rightarrow> bytes" where
  "position_string pos =
     '' at line '' @ to_string (lines_read pos + 1) @ '', column '' @ to_string (chars_read_current_line pos)"

definition parse_error_create :: "nat \<Rightarrow> position_t \<Rightarrow> bytes \<Rightarrow> cxx_error" where
  "parse_error_create ident pos what_arg =
     Json_exception ident (exception_name ''parse_error'' ident @ ''parse error'' @ position_string pos @ '': '' @ what_arg)"

definition type_error_create :: "nat \<Rightarrow> bytes \<Rightarrow> cxx_error" where
  "type_error_create ident what_arg = Json_exception ident (exception_name ''type_error'' ident @ what_arg)"

definition out_of_range_create :: "nat \<Rightarrow> bytes \<Rightarrow> cxx_error" where
  "out_of_range_create ident what_arg = Json_exception ident (exception_name ''out_of_range'' ident @ what_arg)"

definition is_json_exception :: "cxx_error \<Rightarrow> bool" where
  "is_json_exception e = (case e of Json_exception _ _ \<Rightarrow> True | _ \<Rightarrow> False)"

lemma is_json_exception_simps [simp]:
  "is_json_exception (parse_error_create n p w)" "is_json_exception (type_error_create n w)"
  "is_json_exception (out_of_range_create n w)" "\<not> is_json_exception Undefined"
  by (simp_all add: is_json_exception_def parse_error_create_def type_error_create_def out_of_range_create_def)

subsection \<open>Objects\<close>

text \<open>\<^verbatim>\<open>std::map::operator[]\<close>: a new key gets the default value, null.\<close>

fun object_index :: "bytes \<Rightarrow> (bytes \<times> 'f json) list \<Rightarrow> (bytes \<times> 'f json) list" where
  "object_index k [] = [(k, JNull)]"
| "object_index k ((a, v) # m) =
     (if k < a then (k, JNull) # (a, v) # m
      else if k = a then (a, v) # m
      else (a, v) # object_index k m)"

definition object_ok :: "(bytes \<times> 'f json) list \<Rightarrow> bool" where
  "object_ok m \<longleftrightarrow> sorted_wrt (<) (map fst m)"

lemma object_index_keys: "set (map fst (object_index k m)) = insert k (set (map fst m))"
  by (induction k m rule: object_index.induct) auto

lemma object_index_ok: "object_ok m \<Longrightarrow> object_ok (object_index k m)"
proof (induction k m rule: object_index.induct)
  case (2 k a v m)
  then show ?case
    using object_index_keys [of k m] by (auto simp: object_ok_def)
qed (simp add: object_ok_def)

lemma object_index_old: "object_ok m \<Longrightarrow> k \<in> fst ` set m \<Longrightarrow> object_index k m = m"
  by (induction k m rule: object_index.induct) (fastforce simp: object_ok_def)+

lemma object_index_new:
  "object_ok m \<Longrightarrow> k \<notin> fst ` set m \<Longrightarrow> map_of (object_index k m) = (map_of m)(k \<mapsto> JNull)"
  by (induction k m rule: object_index.induct) (auto simp: object_ok_def fun_eq_iff)

lemma object_index_last:
  "(\<And>a. a \<in> fst ` set m \<Longrightarrow> a < k) \<Longrightarrow> object_index k m = m @ [(k, JNull)]"
  by (induction k m rule: object_index.induct) force+

subsection \<open>Accessors\<close>

definition json_find :: "bytes \<Rightarrow> 'f json \<Rightarrow> 'f json option" where
  "json_find key j = (case j of JObject m \<Rightarrow> map_of m key | _ \<Rightarrow> None)"

text \<open>
  \<^verbatim>\<open>operator[]\<close> with a string: null becomes an empty object, and a missing key is added. The result is
  the changed value and the element.
\<close>

definition json_subscript :: "bytes \<Rightarrow> 'f json \<Rightarrow> ('f json \<times> 'f json) res" where
  "json_subscript key j =
     (let j1 = (case j of JNull \<Rightarrow> JObject [] | _ \<Rightarrow> j)
      in case j1 of
           JObject m \<Rightarrow>
             let m1 = object_index key m
             in Inr (JObject m1, case map_of m1 key of None \<Rightarrow> JNull | Some v \<Rightarrow> v)
         | _ \<Rightarrow> Inl (type_error_create 305
                  (''cannot use operator[] with a string argument with '' @ type_name j1)))"

text \<open>
  The conversions \<^verbatim>\<open>get<int>\<close>, \<^verbatim>\<open>get<bool>\<close> and \<^verbatim>\<open>get<std::string>\<close>. An integer is reduced to 32 bits; the conversion of a
  floating-point number drops its fraction and is undefined when the rest is no \<^verbatim>\<open>int\<close> (\<open>float_to_int\<close> is then \<open>None\<close>).
\<close>

definition get_int :: "'f float_ops \<Rightarrow> 'f json \<Rightarrow> int res" where
  "get_int fl j =
     (case j of
        JUnsigned n \<Rightarrow> Inr (int32 (int n))
      | JInteger i \<Rightarrow> Inr (int32 i)
      | JFloat f \<Rightarrow> (case float_to_int fl f of None \<Rightarrow> Inl Undefined | Some i \<Rightarrow> Inr i)
      | JBoolean b \<Rightarrow> Inr (if b then 1 else 0)
      | _ \<Rightarrow> Inl (type_error_create 302 (''type must be number, but is '' @ type_name j)))"

definition get_bool :: "'f json \<Rightarrow> bool res" where
  "get_bool j =
     (case j of
        JBoolean b \<Rightarrow> Inr b
      | _ \<Rightarrow> Inl (type_error_create 302 (''type must be boolean, but is '' @ type_name j)))"

definition get_string :: "'f json \<Rightarrow> bytes res" where
  "get_string j =
     (case j of
        JString s \<Rightarrow> Inr s
      | _ \<Rightarrow> Inl (type_error_create 302 (''type must be string, but is '' @ type_name j)))"

text \<open>What \<^verbatim>\<open>operator[]\<close> yields for a key that \<^verbatim>\<open>find\<close> finds, and that it does not change the others.\<close>

lemma json_subscript_found:
  assumes "json_find key j = Some v" and "\<And>m. j = JObject m \<Longrightarrow> object_ok m"
  shows "json_subscript key j = Inr (j, v)"
proof -
  obtain m where m: "j = JObject m" "map_of m key = Some v"
    using assms(1) by (auto simp: json_find_def split: json.splits)
  then have "key \<in> fst ` set m" by (metis domI dom_map_of_conv_image_fst)
  with m assms(2) show ?thesis by (simp add: json_subscript_def object_index_old)
qed

subsection \<open>Well-formed values\<close>

text \<open>
  The invariant of values that a parser or a program may build: keys in strict order, text in UTF-8,
  numbers within 64 bits, nothing discarded, floating-point numbers finite.
\<close>

fun json_wf :: "'f float_ops \<Rightarrow> 'f json \<Rightarrow> bool" where
  "json_wf fl JNull \<longleftrightarrow> True"
| "json_wf fl (JObject m) \<longleftrightarrow>
     object_ok m \<and> (\<forall>kv \<in> set m. utf8_valid (octets_of (fst kv)) \<and> json_wf fl (snd kv))"
| "json_wf fl (JArray js) \<longleftrightarrow> (\<forall>j \<in> set js. json_wf fl j)"
| "json_wf fl (JString s) \<longleftrightarrow> utf8_valid (octets_of s)"
| "json_wf fl (JBoolean b) \<longleftrightarrow> True"
| "json_wf fl (JInteger i) \<longleftrightarrow> - (2 ^ 63) \<le> i \<and> i < 2 ^ 63"
| "json_wf fl (JUnsigned n) \<longleftrightarrow> n < 2 ^ 64"
| "json_wf fl (JFloat f) \<longleftrightarrow> isfinite fl f"
| "json_wf fl JDiscarded \<longleftrightarrow> False"

end
