(* ===== verification/Json_Lexer.thy ===== *)
theory Json_Lexer
  imports Json_Value
begin

text \<open>
  The lexer of the JSON library (\<^verbatim>\<open>detail::lexer\<close> of \<^verbatim>\<open>json/json.hpp\<close>) over the input adapter for a buffer.
  \<open>current\<close> is an \<^verbatim>\<open>int_type\<close>: the value of a byte, or -1 at the end of the input. The counters of the
  position are the numbers they count; an input of \<open>2 ^ 64\<close> bytes does not exist.
\<close>

subsection \<open>State\<close>

datatype token_type =
    uninitialized | literal_true | literal_false | literal_null | value_string | value_unsigned_tok
  | value_integer_tok | value_float_tok | begin_array | begin_object | end_array | end_object
  | name_separator | value_separator | parse_error | end_of_input | literal_or_value

definition token_type_name :: "token_type \<Rightarrow> bytes" where
  "token_type_name t =
     (case t of
        uninitialized \<Rightarrow> ''<uninitialized>''
      | literal_true \<Rightarrow> ''true literal''
      | literal_false \<Rightarrow> ''false literal''
      | literal_null \<Rightarrow> ''null literal''
      | value_string \<Rightarrow> ''string literal''
      | value_unsigned_tok \<Rightarrow> ''number literal''
      | value_integer_tok \<Rightarrow> ''number literal''
      | value_float_tok \<Rightarrow> ''number literal''
      | begin_array \<Rightarrow> [CHR 0x27] @ ''['' @ [CHR 0x27]
      | begin_object \<Rightarrow> [CHR 0x27] @ ''{'' @ [CHR 0x27]
      | end_array \<Rightarrow> [CHR 0x27] @ '']'' @ [CHR 0x27]
      | end_object \<Rightarrow> [CHR 0x27] @ ''}'' @ [CHR 0x27]
      | name_separator \<Rightarrow> [CHR 0x27] @ '':'' @ [CHR 0x27]
      | value_separator \<Rightarrow> [CHR 0x27] @ '','' @ [CHR 0x27]
      | parse_error \<Rightarrow> ''<parse error>''
      | end_of_input \<Rightarrow> ''end of input''
      | literal_or_value \<Rightarrow>
          [CHR 0x27] @ ''['' @ [CHR 0x27] @ '', '' @ [CHR 0x27] @ ''{'' @ [CHR 0x27] @ '', or a literal'')"

record 'f lexer =
  ia :: bytes
  current :: int
  next_unget :: bool
  position :: position_t
  token_string :: bytes
  token_buffer :: bytes
  error_message :: bytes
  value_integer :: int
  value_unsigned :: nat
  value_float :: 'f
  decimal_point_char :: char

abbreviation eof :: int where
  "eof \<equiv> - 1"

definition lexer_new :: "char \<Rightarrow> 'f \<Rightarrow> bytes \<Rightarrow> 'f lexer" where
  "lexer_new decimal_point zero input =
     \<lparr>ia = input, current = eof, next_unget = False,
      position = \<lparr>chars_read_total = 0, chars_read_current_line = 0, lines_read = 0\<rparr>,
      token_string = [], token_buffer = [], error_message = [], value_integer = 0, value_unsigned = 0,
      value_float = zero, decimal_point_char = decimal_point\<rparr>"

subsection \<open>Input management\<close>

definition to_char_type :: "int \<Rightarrow> char" where
  "to_char_type c = char_of (nat (c mod 256))"

definition lexer_reset :: "'f lexer \<Rightarrow> 'f lexer" where
  "lexer_reset l = l\<lparr>token_buffer := [], token_string := [to_char_type (current l)]\<rparr>"

definition get_character :: "'f lexer \<Rightarrow> 'f lexer" where
  "get_character l =
     (case ia l of
        [] \<Rightarrow> l\<lparr>current := eof\<rparr>
      | c # cs \<Rightarrow> l\<lparr>current := int (byte_val c), ia := cs\<rparr>)"

definition lexer_get :: "'f lexer \<Rightarrow> 'f lexer" where
  "lexer_get l =
     (let l1 = l\<lparr>position := (position l)\<lparr>chars_read_total := chars_read_total (position l) + 1,
                    chars_read_current_line := chars_read_current_line (position l) + 1\<rparr>\<rparr>;
          l2 = (if next_unget l1 then l1\<lparr>next_unget := False\<rparr> else get_character l1);
          l3 = (if current l2 \<noteq> eof then l2\<lparr>token_string := token_string l2 @ [to_char_type (current l2)]\<rparr> else l2)
      in if current l3 = 0x0A then
           l3\<lparr>position := (position l3)\<lparr>lines_read := lines_read (position l3) + 1, chars_read_current_line := 0\<rparr>\<rparr>
         else l3)"

definition lexer_unget :: "'f lexer \<Rightarrow> 'f lexer" where
  "lexer_unget l =
     (let p = position l;
          p1 = p\<lparr>chars_read_total := chars_read_total p - 1\<rparr>;
          p2 = (if chars_read_current_line p1 = 0 then
                  (if lines_read p1 > 0 then p1\<lparr>lines_read := lines_read p1 - 1\<rparr> else p1)
                else p1\<lparr>chars_read_current_line := chars_read_current_line p1 - 1\<rparr>);
          l1 = l\<lparr>next_unget := True, position := p2\<rparr>
      in if current l1 \<noteq> eof then l1\<lparr>token_string := butlast (token_string l1)\<rparr> else l1)"

definition lexer_add :: "int \<Rightarrow> 'f lexer \<Rightarrow> 'f lexer" where
  "lexer_add c l = l\<lparr>token_buffer := token_buffer l @ [to_char_type c]\<rparr>"

definition lexer_fail :: "bytes \<Rightarrow> 'f lexer \<Rightarrow> token_type \<times> 'f lexer" where
  "lexer_fail msg l = (parse_error, l\<lparr>error_message := msg\<rparr>)"

text \<open>What is left of the input, as the values \<open>lexer_get\<close> will return.\<close>

definition lexer_rest :: "'f lexer \<Rightarrow> int list" where
  "lexer_rest l =
     (if next_unget l \<and> current l \<noteq> eof then [current l] else []) @ map (int \<circ> byte_val) (ia l)"

lemma get_fields [simp]:
  "\<not> next_unget (lexer_get l)"
  "ia (lexer_get l) = (if next_unget l then ia l else tl (ia l))"
  "current (lexer_get l) =
     (if next_unget l then current l else case ia l of [] \<Rightarrow> eof | c # _ \<Rightarrow> int (byte_val c))"
  "token_buffer (lexer_get l) = token_buffer l"
  "decimal_point_char (lexer_get l) = decimal_point_char l"
  "chars_read_total (position (lexer_get l)) = chars_read_total (position l) + 1"
  by (simp_all add: lexer_get_def get_character_def Let_def split: list.split)

lemma unget_fields [simp]:
  "next_unget (lexer_unget l)" "ia (lexer_unget l) = ia l" "current (lexer_unget l) = current l"
  "token_buffer (lexer_unget l) = token_buffer l"
  "chars_read_total (position (lexer_unget l)) = chars_read_total (position l) - 1"
  "decimal_point_char (lexer_unget l) = decimal_point_char l"
  by (simp_all add: lexer_unget_def Let_def)

text \<open>In these terms \<open>lexer_get\<close> takes the head of what is left.\<close>

definition lexer_ok :: "'f lexer \<Rightarrow> bool" where
  "lexer_ok l \<longleftrightarrow> - 1 \<le> current l \<and> current l < 256 \<and> (next_unget l \<and> current l = eof \<longrightarrow> ia l = [])"

lemma get_ok [simp]: "lexer_ok l \<Longrightarrow> lexer_ok (lexer_get l)"
  by (auto simp: lexer_ok_def split: list.splits)

lemma get_current: "lexer_ok l \<Longrightarrow> current (lexer_get l) = (case lexer_rest l of [] \<Rightarrow> eof | c # _ \<Rightarrow> c)"
  by (auto simp: lexer_rest_def lexer_ok_def split: list.splits)

lemma get_rest: "lexer_ok l \<Longrightarrow> lexer_rest (lexer_get l) = tl (lexer_rest l)"
  by (auto simp: lexer_rest_def lexer_ok_def map_tl)

declare get_fields(3) [simp del]

lemma get_decreases:
  "current (lexer_get l) \<noteq> eof \<Longrightarrow> length (lexer_rest (lexer_get l)) < length (lexer_rest l)"
  by (auto simp: lexer_rest_def get_fields split: list.splits if_splits)

lemma get_not_longer: "length (lexer_rest (lexer_get l)) \<le> length (lexer_rest l)"
  by (simp add: lexer_rest_def)

lemma unget_get_rest: "lexer_rest (lexer_unget (lexer_get l)) = lexer_rest l"
  by (auto simp: lexer_rest_def get_fields split: list.splits)

lemma add_rest [simp]: "lexer_rest (lexer_add c l) = lexer_rest l" "current (lexer_add c l) = current l"
  by (simp_all add: lexer_add_def lexer_rest_def)

lemma message_rest [simp]: "lexer_rest (l\<lparr>error_message := msg\<rparr>) = lexer_rest l"
  by (simp add: lexer_rest_def)

subsection \<open>Strings\<close>

fun codepoint_loop :: "nat list \<Rightarrow> int \<Rightarrow> 'f lexer \<Rightarrow> int \<times> 'f lexer" where
  "codepoint_loop [] codepoint l = (codepoint, l)"
| "codepoint_loop (factor # factors) codepoint l =
     (let l1 = lexer_get l; c = current l1
      in if 0x30 \<le> c \<and> c \<le> 0x39 then codepoint_loop factors (codepoint + push_bit factor (c - 0x30)) l1
         else if 0x41 \<le> c \<and> c \<le> 0x46 then codepoint_loop factors (codepoint + push_bit factor (c - 0x37)) l1
         else if 0x61 \<le> c \<and> c \<le> 0x66 then codepoint_loop factors (codepoint + push_bit factor (c - 0x57)) l1
         else (- 1, l1))"

definition get_codepoint :: "'f lexer \<Rightarrow> int \<times> 'f lexer" where
  "get_codepoint l = codepoint_loop [12, 8, 4, 0] 0 l"

fun range_loop :: "(int \<times> int) list \<Rightarrow> 'f lexer \<Rightarrow> bool \<times> 'f lexer" where
  "range_loop [] l = (True, l)"
| "range_loop ((lo, hi) # ranges) l =
     (let l1 = lexer_get l
      in if lo \<le> current l1 \<and> current l1 \<le> hi then range_loop ranges (lexer_add (current l1) l1)
         else (False, l1\<lparr>error_message := ''invalid string: ill-formed UTF-8 byte''\<rparr>))"

definition next_byte_in_range :: "(int \<times> int) list \<Rightarrow> 'f lexer \<Rightarrow> bool \<times> 'f lexer" where
  "next_byte_in_range ranges l = range_loop ranges (lexer_add (current l) l)"

text \<open>The names of the control characters, and those with an escape of their own.\<close>

definition control_names :: "bytes list" where
  "control_names =
     [''NUL'', ''SOH'', ''STX'', ''ETX'', ''EOT'', ''ENQ'', ''ACK'', ''BEL'', ''BS'', ''HT'', ''LF'', ''VT'',
      ''FF'', ''CR'', ''SO'', ''SI'', ''DLE'', ''DC1'', ''DC2'', ''DC3'', ''DC4'', ''NAK'', ''SYN'', ''ETB'',
      ''CAN'', ''EM'', ''SUB'', ''ESC'', ''FS'', ''GS'', ''RS'', ''US'']"

definition hex_digit :: "nat \<Rightarrow> char" where
  "hex_digit n = (if n < 10 then char_of (48 + n) else char_of (55 + n))"

definition control_message :: "nat \<Rightarrow> bytes" where
  "control_message n =
     (let code = ''00'' @ [hex_digit (n div 16), hex_digit (n mod 16)]
      in ''invalid string: control character U+'' @ code @ '' ('' @ control_names ! n @
         '') must be escaped to '' @ [CHR 0x5C] @ ''u'' @ code @
         (if n = 8 then '' or '' @ [CHR 0x5C] @ ''b''
          else if n = 9 then '' or '' @ [CHR 0x5C] @ ''t''
          else if n = 10 then '' or '' @ [CHR 0x5C] @ ''n''
          else if n = 12 then '' or '' @ [CHR 0x5C] @ ''f''
          else if n = 13 then '' or '' @ [CHR 0x5C] @ ''r''
          else []))"

text \<open>The bytes of a code point, most significant first.\<close>

definition add_codepoint :: "int \<Rightarrow> 'f lexer \<Rightarrow> 'f lexer" where
  "add_codepoint codepoint l =
     (if codepoint < 0x80 then lexer_add codepoint l
      else if codepoint \<le> 0x7FF then
        lexer_add (or 0x80 (and codepoint 0x3F)) (lexer_add (or 0xC0 (drop_bit 6 codepoint)) l)
      else if codepoint \<le> 0xFFFF then
        lexer_add (or 0x80 (and codepoint 0x3F))
          (lexer_add (or 0x80 (and (drop_bit 6 codepoint) 0x3F)) (lexer_add (or 0xE0 (drop_bit 12 codepoint)) l))
      else
        lexer_add (or 0x80 (and codepoint 0x3F))
          (lexer_add (or 0x80 (and (drop_bit 6 codepoint) 0x3F))
            (lexer_add (or 0x80 (and (drop_bit 12 codepoint) 0x3F)) (lexer_add (or 0xF0 (drop_bit 18 codepoint)) l))))"

definition msg_hex :: bytes where
  "msg_hex = ''invalid string: '' @ [CHR 0x27, CHR 0x5C] @ ''u'' @ [CHR 0x27] @ '' must be followed by 4 hex digits''"

definition msg_low_surrogate :: bytes where
  "msg_low_surrogate = ''invalid string: surrogate U+DC00..U+DFFF must be followed by U+DC00..U+DFFF''"

definition msg_high_surrogate :: bytes where
  "msg_high_surrogate = ''invalid string: surrogate U+DC00..U+DFFF must follow U+D800..U+DBFF''"

text \<open>
  One iteration of a scan: the token it returns, or \<open>None\<close> when the loop goes on. Below, the part behind
  \<^verbatim>\<open>\u\<close>.
\<close>

definition unicode_escape :: "'f lexer \<Rightarrow> token_type option \<times> 'f lexer" where
  "unicode_escape l =
     (let (codepoint1, l1) = get_codepoint l
      in if codepoint1 = - 1 then apfst Some (lexer_fail msg_hex l1)
         else if 0xD800 \<le> codepoint1 \<and> codepoint1 \<le> 0xDBFF then
           (let l2 = lexer_get l1
            in if current l2 = 0x5C then
                 (let l3 = lexer_get l2
                  in if current l3 = 0x75 then
                       (let (codepoint2, l4) = get_codepoint l3
                        in if codepoint2 = - 1 then apfst Some (lexer_fail msg_hex l4)
                           else if 0xDC00 \<le> codepoint2 \<and> codepoint2 \<le> 0xDFFF then
                             (None, add_codepoint (push_bit 10 codepoint1 + codepoint2 - 0x35FDC00) l4)
                           else apfst Some (lexer_fail msg_low_surrogate l4))
                     else apfst Some (lexer_fail msg_low_surrogate l3))
               else apfst Some (lexer_fail msg_low_surrogate l2))
         else if 0xDC00 \<le> codepoint1 \<and> codepoint1 \<le> 0xDFFF then apfst Some (lexer_fail msg_high_surrogate l1)
         else (None, add_codepoint codepoint1 l1))"

definition string_escape :: "'f lexer \<Rightarrow> token_type option \<times> 'f lexer" where
  "string_escape l =
     (let l1 = lexer_get l; c = current l1
      in if c = 0x22 then (None, lexer_add 0x22 l1)
         else if c = 0x5C then (None, lexer_add 0x5C l1)
         else if c = 0x2F then (None, lexer_add 0x2F l1)
         else if c = 0x62 then (None, lexer_add 0x08 l1)
         else if c = 0x66 then (None, lexer_add 0x0C l1)
         else if c = 0x6E then (None, lexer_add 0x0A l1)
         else if c = 0x72 then (None, lexer_add 0x0D l1)
         else if c = 0x74 then (None, lexer_add 0x09 l1)
         else if c = 0x75 then unicode_escape l1
         else apfst Some (lexer_fail ''invalid string: forbidden character after backslash'' l1))"

definition string_range :: "(int \<times> int) list \<Rightarrow> 'f lexer \<Rightarrow> token_type option \<times> 'f lexer" where
  "string_range ranges l =
     (let (ok, l1) = next_byte_in_range ranges l in (if ok then None else Some parse_error, l1))"

definition string_plain :: "'f lexer \<Rightarrow> token_type option \<times> 'f lexer" where
  "string_plain l = (None, lexer_add (current l) l)"

definition string_multibyte :: "'f lexer \<Rightarrow> token_type option \<times> 'f lexer" where
  "string_multibyte l =
     (let c = current l
      in if 0xC2 \<le> c \<and> c \<le> 0xDF then string_range [(0x80, 0xBF)] l
         else if c = 0xE0 then string_range [(0xA0, 0xBF), (0x80, 0xBF)] l
         else if 0xE1 \<le> c \<and> c \<le> 0xEC \<or> c = 0xEE \<or> c = 0xEF then string_range [(0x80, 0xBF), (0x80, 0xBF)] l
         else if c = 0xED then string_range [(0x80, 0x9F), (0x80, 0xBF)] l
         else if c = 0xF0 then string_range [(0x90, 0xBF), (0x80, 0xBF), (0x80, 0xBF)] l
         else if 0xF1 \<le> c \<and> c \<le> 0xF3 then string_range [(0x80, 0xBF), (0x80, 0xBF), (0x80, 0xBF)] l
         else if c = 0xF4 then string_range [(0x80, 0x8F), (0x80, 0xBF), (0x80, 0xBF)] l
         else apfst Some (lexer_fail ''invalid string: ill-formed UTF-8 byte'' l))"

definition string_step :: "'f lexer \<Rightarrow> token_type option \<times> 'f lexer" where
  "string_step l =
     (let l1 = lexer_get l; c = current l1
      in if c = eof then apfst Some (lexer_fail ''invalid string: missing closing quote'' l1)
         else if c = 0x22 then (Some value_string, l1)
         else if c = 0x5C then string_escape l1
         else if c \<le> 0x1F then apfst Some (lexer_fail (control_message (nat c)) l1)
         else if c \<le> 0x7F then string_plain l1
         else string_multibyte l1)"

lemmas string_step_defs = string_step_def string_plain_def string_multibyte_def

text \<open>Every iteration that goes on has consumed a byte.\<close>

lemma codepoint_not_longer: "codepoint_loop fs cp l = (v, l') \<Longrightarrow> length (lexer_rest l') \<le> length (lexer_rest l)"
proof (induction fs cp l rule: codepoint_loop.induct)
  case (2 f fs cp l)
  then show ?case using get_not_longer [of l] by (fastforce simp: Let_def split: if_splits)
qed simp

lemma range_not_longer: "range_loop rs l = (ok, l') \<Longrightarrow> length (lexer_rest l') \<le> length (lexer_rest l)"
proof (induction rs l rule: range_loop.induct)
  case (2 lo hi rs l)
  then show ?case using get_not_longer [of l] by (fastforce simp: Let_def split: if_splits)
qed simp

lemma add_codepoint_rest [simp]: "lexer_rest (add_codepoint c l) = lexer_rest l"
  by (simp add: add_codepoint_def)

lemma lexer_fail_simps [simp]:
  "fst (lexer_fail msg l) = parse_error" "lexer_rest (snd (lexer_fail msg l)) = lexer_rest l"
  by (simp_all add: lexer_fail_def lexer_rest_def)

lemma unicode_escape_not_longer:
  "length (lexer_rest (snd (unicode_escape l))) \<le> length (lexer_rest l)"
proof -
  obtain c1 l1 where 1: "get_codepoint l = (c1, l1)" by fastforce
  obtain c2 l4 where 2: "get_codepoint (lexer_get (lexer_get l1)) = (c2, l4)" by fastforce
  have "length (lexer_rest l1) \<le> length (lexer_rest l)"
    "length (lexer_rest l4) \<le> length (lexer_rest (lexer_get (lexer_get l1)))"
    using codepoint_not_longer 1 2 unfolding get_codepoint_def by blast+
  then show ?thesis
    using get_not_longer [of l1] get_not_longer [of "lexer_get l1"]
    by (simp add: unicode_escape_def 1 2 Let_def)
qed

lemma string_escape_not_longer:
  "length (lexer_rest (snd (string_escape l))) \<le> length (lexer_rest l)"
  using get_not_longer [of l] unicode_escape_not_longer [of "lexer_get l"]
  by (simp add: string_escape_def Let_def)

lemma string_range_not_longer: "length (lexer_rest (snd (string_range rs l))) \<le> length (lexer_rest l)"
proof -
  obtain ok l1 where "range_loop rs (lexer_add (current l) l) = (ok, l1)" by fastforce
  with range_not_longer [OF this] show ?thesis by (simp add: string_range_def next_byte_in_range_def)
qed

lemma string_step_decreases:
  "string_step l = (None, l') \<Longrightarrow> length (lexer_rest l') < length (lexer_rest l)"
proof -
  assume step: "string_step l = (None, l')"
  then have "current (lexer_get l) \<noteq> eof" by (auto simp: string_step_defs lexer_fail_def Let_def)
  then have "length (lexer_rest (lexer_get l)) < length (lexer_rest l)" by (rule get_decreases)
  moreover have "length (lexer_rest (snd (string_step l))) \<le> length (lexer_rest (lexer_get l))"
    using string_escape_not_longer [of "lexer_get l"] string_range_not_longer [of _ "lexer_get l"]
    by (simp add: string_step_defs Let_def)
  ultimately show ?thesis using step by simp
qed

function string_loop :: "'f lexer \<Rightarrow> token_type \<times> 'f lexer" where
  "string_loop l =
     (case string_step l of
        (Some t, l1) \<Rightarrow> (t, l1)
      | (None, l1) \<Rightarrow> string_loop l1)"
  by pat_completeness auto
termination by (relation "measure (\<lambda>l. length (lexer_rest l))") (auto dest: string_step_decreases [OF sym])

declare string_loop.simps [simp del]

definition scan_string :: "'f lexer \<Rightarrow> token_type \<times> 'f lexer" where
  "scan_string l = string_loop (lexer_reset l)"

subsection \<open>Numbers\<close>

text \<open>The labels of the state machine; \<open>number_type\<close> is set on entering a label.\<close>

datatype number_state =
    scan_number_minus | scan_number_zero | scan_number_any1 | scan_number_decimal1 | scan_number_decimal2
  | scan_number_exponent | scan_number_sign | scan_number_any2

datatype 'f number_next =
    Goto number_state "'f lexer"
  | Scan_number_done "'f lexer"
  | Number_error bytes "'f lexer"

definition is_digit_val :: "int \<Rightarrow> bool" where
  "is_digit_val c \<longleftrightarrow> 0x30 \<le> c \<and> c \<le> 0x39"

definition is_exponent_val :: "int \<Rightarrow> bool" where
  "is_exponent_val c \<longleftrightarrow> c = 0x65 \<or> c = 0x45"

definition goto_add :: "number_state \<Rightarrow> 'f lexer \<Rightarrow> 'f number_next" where
  "goto_add st l = Goto st (lexer_add (current l) l)"

definition goto_point :: "'f lexer \<Rightarrow> 'f number_next" where
  "goto_point l = Goto scan_number_decimal1 (l\<lparr>token_buffer := token_buffer l @ [decimal_point_char l]\<rparr>)"

definition msg_minus :: bytes where
  "msg_minus = ''invalid number; expected digit after '' @ [CHR 0x27] @ ''-'' @ [CHR 0x27]"

definition msg_point :: bytes where
  "msg_point = ''invalid number; expected digit after '' @ [CHR 0x27] @ ''.'' @ [CHR 0x27]"

definition msg_exponent :: bytes where
  "msg_exponent = ''invalid number; expected '' @ [CHR 0x27] @ ''+'' @ [CHR 0x27] @ '', '' @
     [CHR 0x27] @ ''-'' @ [CHR 0x27] @ '', or digit after exponent''"

definition msg_sign :: bytes where
  "msg_sign = ''invalid number; expected digit after exponent sign''"

definition number_int_step :: "number_state \<Rightarrow> 'f lexer \<Rightarrow> 'f number_next" where
  "number_int_step st l =
     (let c = current l
      in case st of
           scan_number_minus \<Rightarrow>
             if c = 0x30 then goto_add scan_number_zero l
             else if is_digit_val c then goto_add scan_number_any1 l
             else Number_error msg_minus l
         | scan_number_zero \<Rightarrow>
             if c = 0x2E then goto_point l
             else if is_exponent_val c then goto_add scan_number_exponent l
             else Scan_number_done l
         | _ \<Rightarrow>
             if is_digit_val c then goto_add scan_number_any1 l
             else if c = 0x2E then goto_point l
             else if is_exponent_val c then goto_add scan_number_exponent l
             else Scan_number_done l)"

definition number_float_step :: "number_state \<Rightarrow> 'f lexer \<Rightarrow> 'f number_next" where
  "number_float_step st l =
     (let c = current l
      in case st of
           scan_number_decimal1 \<Rightarrow>
             if is_digit_val c then goto_add scan_number_decimal2 l
             else Number_error msg_point l
         | scan_number_decimal2 \<Rightarrow>
             if is_digit_val c then goto_add scan_number_decimal2 l
             else if is_exponent_val c then goto_add scan_number_exponent l
             else Scan_number_done l
         | scan_number_exponent \<Rightarrow>
             if c = 0x2B \<or> c = 0x2D then goto_add scan_number_sign l
             else if is_digit_val c then goto_add scan_number_any2 l
             else Number_error msg_exponent l
         | scan_number_sign \<Rightarrow>
             if is_digit_val c then goto_add scan_number_any2 l
             else Number_error msg_sign l
         | _ \<Rightarrow>
             if is_digit_val c then goto_add scan_number_any2 l
             else Scan_number_done l)"

definition number_step :: "number_state \<Rightarrow> 'f lexer \<Rightarrow> 'f number_next" where
  "number_step st l =
     (if st \<in> {scan_number_minus, scan_number_zero, scan_number_any1} then number_int_step st (lexer_get l)
      else number_float_step st (lexer_get l))"

lemmas number_step_defs = number_step_def number_int_step_def number_float_step_def

definition enter_type :: "number_state \<Rightarrow> token_type \<Rightarrow> token_type" where
  "enter_type st t =
     (case st of
        scan_number_minus \<Rightarrow> value_integer_tok
      | scan_number_decimal1 \<Rightarrow> value_float_tok
      | scan_number_exponent \<Rightarrow> value_float_tok
      | _ \<Rightarrow> t)"

lemma number_step_decreases:
  "number_step st l = Goto st' l' \<Longrightarrow> length (lexer_rest l') < length (lexer_rest l)"
proof -
  assume step: "number_step st l = Goto st' l'"
  have "current (lexer_get l) \<noteq> eof"
  proof
    assume "current (lexer_get l) = eof"
    with step show False
      by (cases st) (simp_all add: number_step_defs is_digit_val_def is_exponent_val_def Let_def)
  qed
  then have "length (lexer_rest (lexer_get l)) < length (lexer_rest l)" by (rule get_decreases)
  moreover have "lexer_rest l' = lexer_rest (lexer_get l)"
    using step by (cases st)
      (auto simp: number_step_defs goto_add_def goto_point_def Let_def lexer_rest_def lexer_add_def split: if_splits)
  ultimately show ?thesis by simp
qed

text \<open>
  The conversion at \<^verbatim>\<open>scan_number_done\<close>: \<^verbatim>\<open>strtoull\<close> and \<^verbatim>\<open>strtoll\<close> set \<^verbatim>\<open>errno\<close> when the number does not fit;
  then it becomes a floating-point number.
\<close>

definition number_done :: "'f float_ops \<Rightarrow> token_type \<Rightarrow> 'f lexer \<Rightarrow> token_type \<times> 'f lexer" where
  "number_done fl number_type l0 =
     (let l = lexer_unget l0; buf = token_buffer l
      in if number_type = value_unsigned_tok \<and> dec_val buf < 2 ^ 64 then
           (value_unsigned_tok, l\<lparr>value_unsigned := dec_val buf\<rparr>)
         else if number_type = value_integer_tok \<and> dec_val (tl buf) \<le> 2 ^ 63 then
           (value_integer_tok, l\<lparr>value_integer := - int (dec_val (tl buf))\<rparr>)
         else (value_float_tok, l\<lparr>value_float := strtod fl buf\<rparr>))"

function number_loop ::
  "'f float_ops \<Rightarrow> token_type \<Rightarrow> number_state \<Rightarrow> 'f lexer \<Rightarrow> token_type \<times> 'f lexer" where
  "number_loop fl number_type st l =
     (case number_step st l of
        Goto st' l1 \<Rightarrow> number_loop fl (enter_type st' number_type) st' l1
      | Scan_number_done l1 \<Rightarrow> number_done fl number_type l1
      | Number_error msg l1 \<Rightarrow> lexer_fail msg l1)"
  by pat_completeness auto
termination
  by (relation "measure (\<lambda>(fl, t, st, l). length (lexer_rest l))") (auto dest: number_step_decreases)

declare number_loop.simps [simp del]

definition scan_number :: "'f float_ops \<Rightarrow> 'f lexer \<Rightarrow> token_type \<times> 'f lexer" where
  "scan_number fl l0 =
     (let l = lexer_reset l0; c = current l; l1 = lexer_add c l
      in if c = 0x2D then number_loop fl value_integer_tok scan_number_minus l1
         else if c = 0x30 then number_loop fl value_unsigned_tok scan_number_zero l1
         else number_loop fl value_unsigned_tok scan_number_any1 l1)"

subsection \<open>Tokens\<close>

fun literal_loop :: "bytes \<Rightarrow> token_type \<Rightarrow> 'f lexer \<Rightarrow> token_type \<times> 'f lexer" where
  "literal_loop [] return_type l = (return_type, l)"
| "literal_loop (x # xs) return_type l =
     (let l1 = lexer_get l
      in if current l1 \<noteq> int (byte_val x) then lexer_fail ''invalid literal'' l1
         else literal_loop xs return_type l1)"

definition scan_literal :: "bytes \<Rightarrow> token_type \<Rightarrow> 'f lexer \<Rightarrow> token_type \<times> 'f lexer" where
  "scan_literal literal_text return_type l = literal_loop (tl literal_text) return_type l"

definition skip_bom :: "'f lexer \<Rightarrow> bool \<times> 'f lexer" where
  "skip_bom l =
     (let l1 = lexer_get l
      in if current l1 = 0xEF then
           (let l2 = lexer_get l1
            in if current l2 = 0xBB then (let l3 = lexer_get l2 in (current l3 = 0xBF, l3)) else (False, l2))
         else (True, lexer_unget l1))"

definition is_space_val :: "int \<Rightarrow> bool" where
  "is_space_val c \<longleftrightarrow> c = 0x20 \<or> c = 0x09 \<or> c = 0x0A \<or> c = 0x0D"

function skip_spaces :: "'f lexer \<Rightarrow> 'f lexer" where
  "skip_spaces l = (let l1 = lexer_get l in if is_space_val (current l1) then skip_spaces l1 else l1)"
  by pat_completeness auto
termination
  by (relation "measure (\<lambda>l. length (lexer_rest l))") (auto simp: is_space_val_def intro!: get_decreases)

declare skip_spaces.simps [simp del]

definition scan_token :: "'f float_ops \<Rightarrow> 'f lexer \<Rightarrow> token_type \<times> 'f lexer" where
  "scan_token fl l =
     (let c = current l
      in if c = 0x5B then (begin_array, l)
         else if c = 0x5D then (end_array, l)
         else if c = 0x7B then (begin_object, l)
         else if c = 0x7D then (end_object, l)
         else if c = 0x3A then (name_separator, l)
         else if c = 0x2C then (value_separator, l)
         else if c = 0x74 then scan_literal ''true'' literal_true l
         else if c = 0x66 then scan_literal ''false'' literal_false l
         else if c = 0x6E then scan_literal ''null'' literal_null l
         else if c = 0x22 then scan_string l
         else if c = 0x2D \<or> is_digit_val c then scan_number fl l
         else if c = 0 \<or> c = eof then (end_of_input, l)
         else lexer_fail ''invalid literal'' l)"

definition scan :: "'f float_ops \<Rightarrow> 'f lexer \<Rightarrow> token_type \<times> 'f lexer" where
  "scan fl l0 =
     (let (ok, l) = (if chars_read_total (position l0) = 0 then skip_bom l0 else (True, l0))
      in if \<not> ok then lexer_fail ''invalid BOM; must be 0xEF 0xBB 0xBF if given'' l
         else scan_token fl (skip_spaces l))"

text \<open>Scanning consumes input, except at its end.\<close>

lemma number_done_rest: "lexer_rest (snd (number_done fl t l)) = lexer_rest (lexer_unget l)"
  by (simp add: number_done_def Let_def lexer_rest_def)

lemma number_step_rest:
  "case number_step st l of Goto st' l1 \<Rightarrow> True | Scan_number_done l1 \<Rightarrow> l1 = lexer_get l | Number_error msg l1 \<Rightarrow> l1 = lexer_get l"
  for l :: "'f lexer"
  by (cases st) (simp_all add: number_step_defs goto_add_def goto_point_def Let_def)

lemma number_loop_not_longer:
  "length (lexer_rest (snd (number_loop fl t st l))) \<le> length (lexer_rest l)"
proof (induction fl t st l rule: number_loop.induct)
  case (1 fl t st l)
  show ?case
  proof (cases "number_step st l")
    case (Goto st' l1)
    with 1 [OF Goto] number_step_decreases [OF Goto] show ?thesis by (simp add: number_loop.simps [of fl t st l])
  next
    case (Scan_number_done l1)
    with number_step_rest [of l st] show ?thesis
      by (simp add: number_loop.simps [of fl t st l] number_done_rest unget_get_rest)
  next
    case (Number_error msg l1)
    with number_step_rest [of l st] get_not_longer [of l] show ?thesis
      by (simp add: number_loop.simps [of fl t st l])
  qed
qed

lemma reset_rest [simp]: "lexer_rest (lexer_reset l) = lexer_rest l" "current (lexer_reset l) = current l"
  by (simp_all add: lexer_reset_def lexer_rest_def)

lemma string_step_not_longer: "length (lexer_rest (snd (string_step l))) \<le> length (lexer_rest l)"
  using get_not_longer [of l] string_escape_not_longer [of "lexer_get l"] string_range_not_longer [of _ "lexer_get l"]
  by (auto simp: string_step_defs Let_def intro: order_trans)

lemma string_loop_not_longer: "length (lexer_rest (snd (string_loop l))) \<le> length (lexer_rest l)"
proof (induction l rule: string_loop.induct)
  case (1 l)
  then show ?case
    using string_step_not_longer [of l] string_step_decreases [of l]
    by (subst string_loop.simps) (fastforce split: prod.split option.split)
qed

lemma literal_loop_not_longer: "length (lexer_rest (snd (literal_loop xs t l))) \<le> length (lexer_rest l)"
proof (induction xs t l rule: literal_loop.induct)
  case (2 x xs t l)
  then show ?case using get_not_longer [of l] by (fastforce simp: Let_def)
qed simp

lemma scan_token_not_longer: "length (lexer_rest (snd (scan_token fl l))) \<le> length (lexer_rest l)"
proof -
  have "length (lexer_rest (snd (scan_literal x t l))) \<le> length (lexer_rest l)" for x t
    using literal_loop_not_longer by (simp add: scan_literal_def)
  moreover have "length (lexer_rest (snd (scan_string l))) \<le> length (lexer_rest l)"
    using string_loop_not_longer [of "lexer_reset l"] by (simp add: scan_string_def)
  moreover have "length (lexer_rest (snd (scan_number fl l))) \<le> length (lexer_rest l)"
    using number_loop_not_longer [of fl _ _ "lexer_add (current l) (lexer_reset l)"]
    unfolding scan_number_def Let_def reset_rest by auto
  ultimately show ?thesis by (simp add: scan_token_def Let_def)
qed

lemma skip_spaces_current:
  "current (skip_spaces l) \<noteq> eof \<Longrightarrow> length (lexer_rest (skip_spaces l)) < length (lexer_rest l)"
proof (induction l rule: skip_spaces.induct)
  case (1 l)
  then show ?case
    using get_decreases [of l] by (subst (asm) (2) skip_spaces.simps, subst skip_spaces.simps)
      (fastforce simp: Let_def is_space_val_def split: if_splits)
qed

lemma skip_spaces_not_longer: "length (lexer_rest (skip_spaces l)) \<le> length (lexer_rest l)"
proof (induction l rule: skip_spaces.induct)
  case (1 l)
  then show ?case using get_not_longer [of l] by (subst skip_spaces.simps) (fastforce simp: Let_def)
qed

lemma skip_bom_not_longer: "length (lexer_rest (snd (skip_bom l))) \<le> length (lexer_rest l)"
  using get_not_longer [of l] get_not_longer [of "lexer_get l"] get_not_longer [of "lexer_get (lexer_get l)"]
  by (simp add: skip_bom_def Let_def unget_get_rest)

lemma scan_not_longer: "length (lexer_rest (snd (scan fl l))) \<le> length (lexer_rest l)"
  using skip_bom_not_longer [of l] scan_token_not_longer [of fl "skip_spaces _"] skip_spaces_not_longer
  by (fastforce simp: scan_def split: prod.splits intro: order_trans)

lemma scan_decreases:
  assumes "fst (scan fl l) \<noteq> end_of_input"
  shows "length (lexer_rest (snd (scan fl l))) < length (lexer_rest l)"
proof -
  obtain ok l1 where l1: "(if chars_read_total (position l) = 0 then skip_bom l else (True, l)) = (ok, l1)" by fastforce
  have le: "length (lexer_rest l1) \<le> length (lexer_rest l)"
    using skip_bom_not_longer [of l] l1 by (auto split: if_splits)
  show ?thesis
  proof (cases ok)
    case True
    with l1 assms have "current (skip_spaces l1) \<noteq> eof" by (auto simp: scan_def scan_token_def Let_def is_digit_val_def)
    with skip_spaces_current [of l1] scan_token_not_longer [of fl "skip_spaces l1"] le True l1
    show ?thesis by (simp add: scan_def)
  next
    case False
    with l1 have "snd (skip_bom l) = l1" "\<not> fst (skip_bom l)" "snd (scan fl l) = l1\<lparr>error_message :=
      ''invalid BOM; must be 0xEF 0xBB 0xBF if given''\<rparr>"
      by (auto simp: scan_def lexer_fail_def split: if_splits)
    moreover from this have "current (lexer_get l) = 0xEF" by (auto simp: skip_bom_def Let_def split: if_splits)
    then have "length (lexer_rest (lexer_get l)) < length (lexer_rest l)" by (intro get_decreases) simp
    moreover have "\<not> fst (skip_bom l) \<Longrightarrow> length (lexer_rest (snd (skip_bom l))) \<le> length (lexer_rest (lexer_get l))"
      using get_not_longer [of "lexer_get l"] get_not_longer [of "lexer_get (lexer_get l)"]
      by (auto simp: skip_bom_def Let_def split: if_splits)
    ultimately show ?thesis by simp
  qed
qed

subsection \<open>Diagnostics\<close>

definition escaped_char :: "char \<Rightarrow> bytes" where
  "escaped_char c =
     (if byte_val c \<le> 0x1F then ''<U+00'' @ [hex_digit (byte_val c div 16), hex_digit (byte_val c mod 16)] @ ''>''
      else [c])"

definition get_token_string :: "'f lexer \<Rightarrow> bytes" where
  "get_token_string l = concat (map escaped_char (token_string l))"

end
