(* ===== verification/Json_Strings.thy ===== *)
theory Json_Strings
  imports Json_Lexer
begin

text \<open>
  The string literals the lexer of the JSON library accepts, and the text they stand for: a grammar of the
  characters of a literal over bytes, and the proof that \<^verbatim>\<open>scan_string\<close> accepts exactly its literals.
\<close>

subsection \<open>Literals\<close>

definition hex_value :: "nat \<Rightarrow> nat option" where
  "hex_value b =
     (if 0x30 \<le> b \<and> b \<le> 0x39 then Some (b - 0x30)
      else if 0x41 \<le> b \<and> b \<le> 0x46 then Some (b - 0x37)
      else if 0x61 \<le> b \<and> b \<le> 0x66 then Some (b - 0x57)
      else None)"

fun hex_number :: "nat \<Rightarrow> octets \<Rightarrow> nat option" where
  "hex_number n [] = Some n"
| "hex_number n (b # bs) = (case hex_value b of None \<Rightarrow> None | Some d \<Rightarrow> hex_number (16 * n + d) bs)"

definition hex4 :: "octets \<Rightarrow> nat \<Rightarrow> bool" where
  "hex4 bs cp \<longleftrightarrow> length bs = 4 \<and> hex_number 0 bs = Some cp"

definition simple_escapes :: "(nat \<times> nat) list" where
  "simple_escapes =
     [(0x22, 0x22), (0x5C, 0x5C), (0x2F, 0x2F), (0x62, 0x08), (0x66, 0x0C), (0x6E, 0x0A), (0x72, 0x0D), (0x74, 0x09)]"

inductive string_char :: "octets \<Rightarrow> octets \<Rightarrow> bool" where
  plain: "well_formed w \<Longrightarrow> 0x20 \<le> hd w \<Longrightarrow> hd w \<noteq> 0x22 \<Longrightarrow> hd w \<noteq> 0x5C \<Longrightarrow> string_char w w"
| escape: "(c, d) \<in> set simple_escapes \<Longrightarrow> string_char [0x5C, c] [d]"
| unicode: "hex4 h cp \<Longrightarrow> scalar_value cp \<Longrightarrow> string_char (0x5C # 0x75 # h) (utf8_encode cp)"
| surrogates: "hex4 h hi \<Longrightarrow> 0xD800 \<le> hi \<Longrightarrow> hi < 0xDC00 \<Longrightarrow> hex4 h' lo \<Longrightarrow> 0xDC00 \<le> lo \<Longrightarrow> lo < 0xE000 \<Longrightarrow>
    string_char (0x5C # 0x75 # h @ 0x5C # 0x75 # h')
      (utf8_encode (0x10000 + (hi - 0xD800) * 0x400 + (lo - 0xDC00)))"

inductive string_chars :: "octets \<Rightarrow> octets \<Rightarrow> bool" where
  Nil: "string_chars [] []"
| Cons: "string_char a x \<Longrightarrow> string_chars b y \<Longrightarrow> string_chars (a @ b) (x @ y)"

lemma utf8_valid_append_valid: "utf8_valid s \<Longrightarrow> utf8_valid (s @ t) \<longleftrightarrow> utf8_valid t"
  by (induction rule: utf8_valid_induct) simp_all

lemma utf8_valid_well_formed: "well_formed w \<Longrightarrow> utf8_valid w"
  using utf8_valid_append [of w "[]"] by simp

lemma string_char_valid: "string_char a x \<Longrightarrow> utf8_valid x"
proof (induction rule: string_char.induct)
  case (plain w)
  then show ?case by (simp add: utf8_valid_well_formed)
next
  case (escape c d)
  then show ?case by (auto simp: simple_escapes_def follow_ranges_def)
next
  case (unicode h cp)
  then show ?case by (simp add: utf8_valid_well_formed utf8_encode_well_formed)
next
  case (surrogates h hi h' lo)
  then have "scalar_value (0x10000 + (hi - 0xD800) * 0x400 + (lo - 0xDC00))" unfolding scalar_value_def by linarith
  then show ?case by (simp add: utf8_valid_well_formed utf8_encode_well_formed)
qed

lemma string_chars_valid: "string_chars a x \<Longrightarrow> utf8_valid x"
  by (induction rule: string_chars.induct) (simp_all add: string_char_valid utf8_valid_append_valid)

subsection \<open>Reading\<close>

text \<open>
  \<open>reads l bs x l'\<close>: on the way from \<open>l\<close> to \<open>l'\<close> the bytes \<open>bs\<close> of the input were consumed and \<open>x\<close> was
  appended to the token buffer.
\<close>

definition left_octets :: "'f lexer \<Rightarrow> octets" where
  "left_octets l = map nat (lexer_rest l)"

definition reads :: "'f lexer \<Rightarrow> octets \<Rightarrow> octets \<Rightarrow> 'f lexer \<Rightarrow> bool" where
  "reads l bs x l' \<longleftrightarrow>
     lexer_ok l' \<and> left_octets l = bs @ left_octets l' \<and>
     octets_of (token_buffer l') = octets_of (token_buffer l) @ x \<and>
     chars_read_total (position l) \<le> chars_read_total (position l') \<and>
     decimal_point_char l' = decimal_point_char l"

lemma reads_trans: "reads l bs x l1 \<Longrightarrow> reads l1 bs' x' l2 \<Longrightarrow> reads l (bs @ bs') (x @ x') l2"
  by (simp add: reads_def)

lemma reads_refl: "lexer_ok l \<Longrightarrow> reads l [] [] l"
  by (simp add: reads_def)

lemma reads_ok: "reads l bs x l' \<Longrightarrow> lexer_ok l'"
  by (simp add: reads_def)

lemma rest_range: "lexer_ok l \<Longrightarrow> c \<in> set (lexer_rest l) \<Longrightarrow> 0 \<le> c \<and> c < 256"
  by (auto simp: lexer_rest_def lexer_ok_def split: if_splits)

lemma get_current_left:
  assumes "lexer_ok l"
  shows "current (lexer_get l) = (case left_octets l of [] \<Rightarrow> eof | b # _ \<Rightarrow> int b)"
  using assms rest_range [OF assms] by (auto simp: get_current left_octets_def split: list.split)

lemma left_octets_bound: "lexer_ok l \<Longrightarrow> b \<in> set (left_octets l) \<Longrightarrow> b < 256"
  using rest_range [of l] by (fastforce simp: left_octets_def)

lemma get_reads:
  assumes "lexer_ok l"
  shows "reads l (take 1 (left_octets l)) [] (lexer_get l)"
  using assms by (cases "lexer_rest l") (simp_all add: reads_def left_octets_def get_rest)

lemma get_reads_byte:
  assumes "lexer_ok l" "left_octets l = b # bs"
  shows "reads l [b] [] (lexer_get l)" "current (lexer_get l) = int b" "left_octets (lexer_get l) = bs" "b < 256"
  using get_reads [OF assms(1)] get_current_left [OF assms(1)] left_octets_bound [OF assms(1)] assms(2)
  by (auto simp: reads_def)

lemma get_reads_current:
  assumes "lexer_ok l" "current (lexer_get l) \<noteq> eof"
  shows "reads l [nat (current (lexer_get l))] [] (lexer_get l)"
    "0 \<le> current (lexer_get l)" "current (lexer_get l) < 256"
proof -
  obtain b bs where "left_octets l = b # bs" using assms by (cases "left_octets l") (auto simp: get_current_left)
  from get_reads_byte [OF assms(1) this] show "reads l [nat (current (lexer_get l))] [] (lexer_get l)"
    "0 \<le> current (lexer_get l)" "current (lexer_get l) < 256" by simp_all
qed

lemma to_char_type_val: "0 \<le> c \<Longrightarrow> c < 256 \<Longrightarrow> byte_val (to_char_type c) = nat c"
  by (simp add: to_char_type_def byte_val_def of_char_of)

lemma add_reads:
  assumes "lexer_ok l" "0 \<le> c" "c < 256"
  shows "reads l [] [nat c] (lexer_add c l)"
  using assms by (simp add: reads_def left_octets_def to_char_type_val lexer_ok_def)
    (simp add: lexer_add_def lexer_rest_def to_char_type_val)

subsection \<open>Code points\<close>

fun factors :: "nat \<Rightarrow> nat list" where
  "factors 0 = []"
| "factors (Suc k) = 4 * k # factors k"

lemma get_codepoint_factors: "get_codepoint l = codepoint_loop (factors 4) (int (0 * 16 ^ 4)) l"
proof -
  have "factors 4 = [12, 8, 4, 0]" by (simp add: eval_nat_numeral)
  then show ?thesis by (simp add: get_codepoint_def)
qed

lemma codepoint_loop_digit:
  "codepoint_loop (factors (Suc k)) (int (n * 16 ^ Suc k)) l =
     (case (if current (lexer_get l) < 0 then None else hex_value (nat (current (lexer_get l)))) of
        None \<Rightarrow> (- 1, lexer_get l)
      | Some d \<Rightarrow> codepoint_loop (factors k) (int ((16 * n + d) * 16 ^ k)) (lexer_get l))"
proof -
  have "(2 :: int) ^ (4 * k) = 16 ^ k" using power_mult [of "2 :: int" 4 k] by simp
  then have "int (n * 16 ^ Suc k) + push_bit (4 * k) (int d) = int ((16 * n + d) * 16 ^ k)" for d
    by (simp only: push_bit_eq_mult) (simp add: algebra_simps)
  note this [of "nat (current (lexer_get l) - 0x30)"] this [of "nat (current (lexer_get l) - 0x37)"]
    this [of "nat (current (lexer_get l) - 0x57)"]
  then show ?thesis
    by (auto simp: hex_value_def Let_def nat_diff_distrib nat_le_iff le_nat_iff simp del: of_nat_mult of_nat_add of_nat_power)
qed

lemma codepoint_loop_sound:
  assumes "codepoint_loop (factors k) (int (n * 16 ^ k)) l = (v, l')" "lexer_ok l" "v \<noteq> - 1"
  shows "\<exists>bs m. v = int m \<and> length bs = k \<and> hex_number n bs = Some m \<and> reads l bs [] l'"
  using assms
proof (induction k arbitrary: n l)
  case 0
  then show ?case by (auto intro: reads_refl)
next
  case (Suc k)
  let ?c = "current (lexer_get l)"
  from Suc.prems obtain d where c: "?c \<ge> 0" "hex_value (nat ?c) = Some d"
    and loop: "codepoint_loop (factors k) (int ((16 * n + d) * 16 ^ k)) (lexer_get l) = (v, l')"
    by (auto simp only: codepoint_loop_digit split: option.splits if_splits)
  then have get: "reads l [nat ?c] [] (lexer_get l)" using get_reads_current [OF Suc.prems(2)] by simp
  from Suc.IH [OF loop reads_ok [OF get] Suc.prems(3)] obtain bs m where "v = int m" "length bs = k"
    "hex_number (16 * n + d) bs = Some m" "reads (lexer_get l) bs [] l'" by blast
  with reads_trans [OF get this(4)] c(2) show ?case by (intro exI [of _ "nat ?c # bs"]) simp
qed

lemma codepoint_loop_complete:
  assumes "hex_number n bs = Some m" "left_octets l = bs @ r" "lexer_ok l"
  shows "\<exists>l'. codepoint_loop (factors (length bs)) (int (n * 16 ^ length bs)) l = (int m, l') \<and> reads l bs [] l'"
  using assms
proof (induction bs arbitrary: n l)
  case (Cons b bs)
  then obtain d where d: "hex_value b = Some d" "hex_number (16 * n + d) bs = Some m" by (auto split: option.splits)
  have get: "reads l [b] [] (lexer_get l)" "current (lexer_get l) = int b" "left_octets (lexer_get l) = bs @ r"
    using get_reads_byte [OF Cons.prems(3)] Cons.prems(2) by auto
  from Cons.IH [OF d(2) get(3) reads_ok [OF get(1)]] obtain l' where l':
    "codepoint_loop (factors (length bs)) (int ((16 * n + d) * 16 ^ length bs)) (lexer_get l) = (int m, l')"
    "reads (lexer_get l) bs [] l'" by blast
  show ?case
    using reads_trans [OF get(1) l'(2)] l'(1) d(1) get(2)
    unfolding list.size(4) add_Suc_right add_0_right codepoint_loop_digit by auto
qed (auto intro: reads_refl)

lemma get_codepoint_sound:
  assumes "get_codepoint l = (v, l')" "lexer_ok l" "v \<noteq> - 1"
  shows "\<exists>h cp. v = int cp \<and> hex4 h cp \<and> reads l h [] l'"
  using codepoint_loop_sound [of 4 0 l v l'] assms unfolding get_codepoint_factors hex4_def by auto

lemma get_codepoint_complete:
  assumes "hex4 h cp" "left_octets l = h @ r" "lexer_ok l"
  shows "\<exists>l'. get_codepoint l = (int cp, l') \<and> reads l h [] l'"
  using codepoint_loop_complete [of 0 h cp l r] assms unfolding get_codepoint_factors hex4_def by auto

lemma hex_number_bound: "hex_number n bs = Some m \<Longrightarrow> m < (n + 1) * 16 ^ length bs"
proof (induction bs arbitrary: n)
  case (Cons b bs)
  then obtain d where d': "hex_value b = Some d" and d: "hex_number (16 * n + d) bs = Some m"
    by (auto split: option.splits)
  from d' have "d < 16" by (auto simp: hex_value_def split: if_splits)
  have "m < (16 * n + d + 1) * 16 ^ length bs" using Cons.IH [OF d] .
  also have "\<dots> \<le> (16 * (n + 1)) * 16 ^ length bs" using \<open>d < 16\<close> by (intro mult_right_mono) simp_all
  finally show ?case by (simp add: algebra_simps)
qed simp

lemma hex4_bound: "hex4 h cp \<Longrightarrow> cp < 0x10000"
  using hex_number_bound [of 0 h cp] by (simp add: hex4_def)

subsection \<open>The bytes of a code point\<close>

lemma or_shifted: "0 \<le> y \<Longrightarrow> y < 2 ^ n \<Longrightarrow> or (push_bit n k) y = push_bit n k + (y :: int)"
proof -
  assume "0 \<le> y" "y < 2 ^ n"
  then have "take_bit n y = y" by (simp add: take_bit_int_eq_self)
  then show ?thesis using concat_bit_eq [of n y k] concat_bit_def [of n y k] by (simp add: or.commute add.commute)
qed

lemma leading_bits:
  "0 \<le> y \<Longrightarrow> y < 64 \<Longrightarrow> or 0x80 y = 0x80 + (y :: int)"
  "0 \<le> y \<Longrightarrow> y < 32 \<Longrightarrow> or 0xC0 y = 0xC0 + (y :: int)"
  "0 \<le> y \<Longrightarrow> y < 16 \<Longrightarrow> or 0xE0 y = 0xE0 + (y :: int)"
  "0 \<le> y \<Longrightarrow> y < 8 \<Longrightarrow> or 0xF0 y = 0xF0 + (y :: int)"
  using or_shifted [of y 6 2] or_shifted [of y 5 6] or_shifted [of y 4 14] or_shifted [of y 3 30]
  by (simp_all add: push_bit_eq_mult)

lemma low_six_bits: "and y 0x3F = y mod (64 :: int)"
  using take_bit_eq_mask [of 6 y] by (simp add: mask_eq_exp_minus_1 take_bit_eq_mod)

lemma codepoint_bits:
  "drop_bit 6 (int y) = int (y div 64)" "drop_bit 12 (int y) = int (y div 4096)" "drop_bit 18 (int y) = int (y div 262144)"
  "or 0x80 (and (int y) 0x3F) = int (0x80 + y mod 64)"
  "y < 32 \<Longrightarrow> or 0xC0 (int y) = int (0xC0 + y)" "y < 16 \<Longrightarrow> or 0xE0 (int y) = int (0xE0 + y)"
  "y < 8 \<Longrightarrow> or 0xF0 (int y) = int (0xF0 + y)"
  by (simp_all add: drop_bit_eq_div low_six_bits leading_bits zdiv_int zmod_int)

lemma add_reads2:
  assumes "reads l bs x l'" "c < 256"
  shows "reads l bs (x @ [c]) (lexer_add (int c) l')"
  using reads_trans [OF assms(1) add_reads [OF reads_ok [OF assms(1)], of "int c"]] assms(2) by simp

lemma add_codepoint_reads:
  assumes "lexer_ok l" "cp \<le> 0x10FFFF"
  shows "reads l [] (utf8_encode cp) (add_codepoint (int cp) l)"
proof -
  note start = add_reads2 [OF reads_refl [OF assms(1)]]
  have mod: "0x80 + y mod 64 < (256 :: nat)" for y :: nat
    using pos_mod_bound [of 64 "int y"] by (simp add: trans_less_add1)
  consider "cp < 0x80" | "0x80 \<le> cp" "cp < 0x800" | "0x800 \<le> cp" "cp < 0x10000" | "0x10000 \<le> cp" by linarith
  then show ?thesis
  proof cases
    case 1
    then show ?thesis using start [of cp] by (simp add: add_codepoint_def utf8_encode_def)
  next
    case 2
    then have lim: "cp div 64 < 32" by auto
    with 2 show ?thesis
      using add_reads2 [OF start mod, of "0xC0 + cp div 64" cp]
      by (simp add: add_codepoint_def utf8_encode_def codepoint_bits del: of_nat_add)
  next
    case 3
    then have "cp div 4096 < 16" by auto
    with 3 show ?thesis
      using add_reads2 [OF add_reads2 [OF start mod] mod, of "0xE0 + cp div 4096" "cp div 64" cp]
      by (simp add: add_codepoint_def utf8_encode_def codepoint_bits del: of_nat_add)
  next
    case 4
    have "cp div 262144 < 8" using assms(2) by auto
    with 4 show ?thesis
      using add_reads2 [OF add_reads2 [OF add_reads2 [OF start mod] mod] mod,
          of "0xF0 + cp div 262144" "cp div 4096" "cp div 64" cp]
      by (simp add: add_codepoint_def utf8_encode_def codepoint_bits del: of_nat_add)
  qed
qed

subsection \<open>Sequences of bytes\<close>

abbreviation int_ranges :: "(nat \<times> nat) list \<Rightarrow> (int \<times> int) list" where
  "int_ranges rs \<equiv> map (\<lambda>(lo, hi). (int lo, int hi)) rs"

lemma range_loop_sound:
  assumes "range_loop (int_ranges rs) l = (True, l')" "lexer_ok l"
  shows "\<exists>bs. length bs = length rs \<and> in_ranges rs bs \<and> reads l bs bs l'"
  using assms
proof (induction rs arbitrary: l)
  case (Cons r rs)
  obtain lo hi where r: "r = (lo, hi)" by fastforce
  let ?l1 = "lexer_get l"
  define b where "b = nat (current ?l1)"
  have c: "int lo \<le> current ?l1" "current ?l1 \<le> int hi"
    and loop: "range_loop (int_ranges rs) (lexer_add (current ?l1) ?l1) = (True, l')"
    using Cons.prems(1) by (auto simp: r Let_def split: if_splits)
  then have get: "reads l [b] [] ?l1" and b: "current ?l1 = int b" "b < 256"
    using get_reads_current [OF Cons.prems(2)] by (auto simp: b_def)
  have add: "reads l [b] [b] (lexer_add (current ?l1) ?l1)" using add_reads2 [OF get b(2)] b(1) by simp
  from Cons.IH [OF loop reads_ok [OF add]] obtain bs where "length bs = length rs" "in_ranges rs bs"
    "reads (lexer_add (current ?l1) ?l1) bs bs l'" by blast
  with reads_trans [OF add this(3)] b c show ?case by (intro exI [of _ "b # bs"]) (simp add: r)
qed (auto intro: reads_refl)

lemma range_loop_complete:
  assumes "in_ranges rs bs" "length bs = length rs" "left_octets l = bs @ r" "lexer_ok l"
  shows "\<exists>l'. range_loop (int_ranges rs) l = (True, l') \<and> reads l bs bs l'"
  using assms
proof (induction rs bs arbitrary: l rule: in_ranges.induct)
  case (3 rng rs b bs)
  note get = get_reads_byte [OF 3(5), of b "bs @ r"]
  have get: "reads l [b] [] (lexer_get l)" "current (lexer_get l) = int b" "left_octets (lexer_get l) = bs @ r" "b < 256"
    using get 3(4) by simp_all
  have add: "reads l [b] [b] (lexer_add (int b) (lexer_get l))" using add_reads2 [OF get(1,4)] by simp
  have "left_octets (lexer_add (int b) (lexer_get l)) = bs @ r" using get(3) by (simp add: left_octets_def)
  with 3(1) [of "lexer_add (int b) (lexer_get l)"] 3(2,3) reads_ok [OF add] obtain l' where
    "range_loop (int_ranges rs) (lexer_add (int b) (lexer_get l)) = (True, l')"
    "reads (lexer_add (int b) (lexer_get l)) bs bs l'" by auto
  with reads_trans [OF add this(2)] 3(2) get(2) show ?case by (auto simp: Let_def case_prod_unfold)
qed (auto intro: reads_refl)

lemma string_range_sound:
  assumes "string_range (int_ranges rs) l = (None, l')" "lexer_ok l" "current l = int b" "b < 256"
  shows "\<exists>bs. length bs = length rs \<and> in_ranges rs bs \<and> reads l bs (b # bs) l'"
proof -
  have add: "reads l [] [b] (lexer_add (current l) l)" using add_reads [OF assms(2), of "int b"] assms(3,4) by simp
  have "range_loop (int_ranges rs) (lexer_add (current l) l) = (True, l')"
    using assms(1) by (auto simp: string_range_def next_byte_in_range_def split: prod.splits if_splits)
  from range_loop_sound [OF this reads_ok [OF add]] reads_trans [OF add] show ?thesis by force
qed

lemma string_range_complete:
  assumes "in_ranges rs bs" "length bs = length rs" "left_octets l = bs @ r" "lexer_ok l" "current l = int b" "b < 256"
  shows "\<exists>l'. string_range (int_ranges rs) l = (None, l') \<and> reads l bs (b # bs) l'"
proof -
  have add: "reads l [] [b] (lexer_add (current l) l)" using add_reads [OF assms(4), of "int b"] assms(5,6) by simp
  have "left_octets (lexer_add (current l) l) = bs @ r" using assms(3) by (simp add: left_octets_def)
  from range_loop_complete [OF assms(1,2) this reads_ok [OF add]] reads_trans [OF add] show ?thesis
    by (force simp: string_range_def next_byte_in_range_def)
qed

subsection \<open>Escapes\<close>

lemma unicode_escape_sound:
  assumes "unicode_escape l = (None, l')" "lexer_ok l"
  shows "\<exists>a x. string_char (0x5C # 0x75 # a) x \<and> reads l a x l'"
proof -
  obtain v l1 where v: "get_codepoint l = (v, l1)" by fastforce
  with assms have "v \<noteq> - 1" by (auto simp: unicode_escape_def lexer_fail_def)
  from get_codepoint_sound [OF v assms(2) this] obtain h cp where h: "v = int cp" "hex4 h cp" "reads l h [] l1" by blast
  show ?thesis
  proof (cases "0xD800 \<le> cp \<and> cp \<le> 0xDBFF")
    case False
    then have sc: "cp < 0xD800 \<or> 0xDFFF < cp" and l': "l' = add_codepoint (int cp) l1"
      using assms(1) v h(1) by (auto simp: unicode_escape_def lexer_fail_def split: if_splits)
    with hex4_bound [OF h(2)] have "scalar_value cp" by (auto simp: scalar_value_def)
    moreover have "reads l h (utf8_encode cp) l'"
      using reads_trans [OF h(3) add_codepoint_reads [OF reads_ok [OF h(3)], of cp]] hex4_bound [OF h(2)] l' by simp
    ultimately show ?thesis using h(2) by (auto intro: unicode)
  next
    case True
    let ?l2 = "lexer_get l1" and ?l3 = "lexer_get (lexer_get l1)"
    obtain w l4 where w: "get_codepoint ?l3 = (w, l4)" by fastforce
    from True assms(1) v h(1) w have c: "current ?l2 = 0x5C" "current ?l3 = 0x75" "w \<noteq> - 1"
      and lo: "0xDC00 \<le> w" "w \<le> 0xDFFF" and l': "l' = add_codepoint (push_bit 10 v + w - 0x35FDC00) l4"
      by (auto simp: unicode_escape_def lexer_fail_def Let_def split: if_splits)
    have get2: "reads l1 [0x5C] [] ?l2" using get_reads_current(1) [OF reads_ok [OF h(3)]] c(1) by simp
    have get3: "reads ?l2 [0x75] [] ?l3" using get_reads_current(1) [OF reads_ok [OF get2]] c(2) by simp
    from get_codepoint_sound [OF w reads_ok [OF get3] c(3)] obtain h' cp' where
      h': "w = int cp'" "hex4 h' cp'" "reads ?l3 h' [] l4" by blast
    define z where "z = 0x10000 + (cp - 0xD800) * 0x400 + (cp' - 0xDC00)"
    have z: "push_bit 10 v + w - 0x35FDC00 = int z" "z \<le> 0x10FFFF"
      using True lo h(1) h'(1) by (auto simp: z_def push_bit_eq_mult)
    have "reads l (h @ [0x5C] @ [0x75] @ h') (utf8_encode z) l'"
      using reads_trans [OF h(3) reads_trans [OF get2 reads_trans [OF get3 reads_trans [OF h'(3)
        add_codepoint_reads [OF reads_ok [OF h'(3)] z(2)]]]]] l' z(1) by simp
    moreover have "string_char (0x5C # 0x75 # h @ 0x5C # 0x75 # h') (utf8_encode z)"
      unfolding z_def using True lo h h' by (intro surrogates) auto
    ultimately have "string_char (0x5C # 0x75 # (h @ [0x5C] @ [0x75] @ h')) (utf8_encode z) \<and>
      reads l (h @ [0x5C] @ [0x75] @ h') (utf8_encode z) l'" by simp
    then show ?thesis by blast
  qed
qed

lemma unicode_escape_complete:
  assumes "hex4 h cp" "scalar_value cp" "left_octets l = h @ r" "lexer_ok l"
  shows "\<exists>l'. unicode_escape l = (None, l') \<and> reads l h (utf8_encode cp) l'"
proof -
  from get_codepoint_complete [OF assms(1,3,4)] obtain l1 where l1: "get_codepoint l = (int cp, l1)" "reads l h [] l1"
    by blast
  have "reads l h (utf8_encode cp) (add_codepoint (int cp) l1)"
    using reads_trans [OF l1(2) add_codepoint_reads [OF reads_ok [OF l1(2)], of cp]] hex4_bound [OF assms(1)] by simp
  moreover have "\<not> (0xD800 \<le> cp \<and> cp \<le> 0xDBFF)" "\<not> (0xDC00 \<le> cp \<and> cp \<le> 0xDFFF)"
    using assms(2) by (auto simp: scalar_value_def)
  ultimately show ?thesis using l1(1) by (auto simp: unicode_escape_def)
qed

lemma unicode_escape_surrogates:
  assumes "hex4 h hi" "0xD800 \<le> hi" "hi < 0xDC00" "hex4 h' lo" "0xDC00 \<le> lo" "lo < 0xE000"
    and "left_octets l = h @ 0x5C # 0x75 # h' @ r" "lexer_ok l"
  shows "\<exists>l'. unicode_escape l = (None, l') \<and>
    reads l (h @ 0x5C # 0x75 # h') (utf8_encode (0x10000 + (hi - 0xD800) * 0x400 + (lo - 0xDC00))) l'"
proof -
  from get_codepoint_complete [OF assms(1,7,8)] obtain l1 where l1: "get_codepoint l = (int hi, l1)" "reads l h [] l1"
    by blast
  then have left: "left_octets l1 = 0x5C # 0x75 # h' @ r" using assms(7) by (simp add: reads_def)
  note get2 = get_reads_byte [OF reads_ok [OF l1(2)] left]
  note get3 = get_reads_byte [OF reads_ok [OF get2(1)] get2(3)]
  from get_codepoint_complete [OF assms(4) get3(3) reads_ok [OF get3(1)]] obtain l4 where
    l4: "get_codepoint (lexer_get (lexer_get l1)) = (int lo, l4)" "reads (lexer_get (lexer_get l1)) h' [] l4" by blast
  define z where "z = 0x10000 + (hi - 0xD800) * 0x400 + (lo - 0xDC00)"
  have z: "push_bit 10 (int hi) + int lo - 0x35FDC00 = int z" "z \<le> 0x10FFFF"
    using assms(2,3,5,6) by (auto simp: z_def push_bit_eq_mult)
  have "reads l (h @ [0x5C] @ [0x75] @ h') (utf8_encode z) (add_codepoint (int z) l4)"
    using reads_trans [OF l1(2) reads_trans [OF get2(1) reads_trans [OF get3(1) reads_trans [OF l4(2)
      add_codepoint_reads [OF reads_ok [OF l4(2)] z(2)]]]]] by simp
  with l1(1) l4(1) get2(2) get3(2) assms(2,3,5,6) z(1) show ?thesis
    unfolding z_def [symmetric] by (simp add: unicode_escape_def Let_def)
qed

lemma string_escape_sound:
  assumes "string_escape l = (None, l')" "lexer_ok l"
  shows "\<exists>a x. string_char (0x5C # a) x \<and> reads l a x l'"
proof -
  let ?l1 = "lexer_get l"
  define c where "c = nat (current ?l1)"
  from assms(1) have ne: "current ?l1 \<noteq> eof" by (auto simp: string_escape_def lexer_fail_def Let_def)
  then have get: "reads l [c] [] ?l1" and c: "current ?l1 = int c"
    using get_reads_current [OF assms(2)] by (auto simp: c_def)
  show ?thesis
  proof (cases "c = 0x75")
    case True
    with assms(1) c have "unicode_escape ?l1 = (None, l')" by (simp add: string_escape_def)
    from unicode_escape_sound [OF this reads_ok [OF get]] obtain a x where
      "string_char (0x5C # 0x75 # a) x" "reads ?l1 a x l'" by blast
    with reads_trans [OF get this(2)] True show ?thesis by auto
  next
    case False
    then obtain d where d: "(c, d) \<in> set simple_escapes" "l' = lexer_add (int d) ?l1"
      using assms(1) c by (auto simp: string_escape_def simple_escapes_def lexer_fail_def Let_def split: if_splits)
    from d(1) have "d < 256" by (auto simp: simple_escapes_def)
    from add_reads2 [OF get this] d escape [OF d(1)] show ?thesis by auto
  qed
qed

lemma string_escape_complete:
  assumes "(c, d) \<in> set simple_escapes" "left_octets l = c # r" "lexer_ok l"
  shows "\<exists>l'. string_escape l = (None, l') \<and> reads l [c] [d] l'"
proof -
  note get = get_reads_byte [OF assms(3,2)]
  from assms(1) have "d < 256" by (auto simp: simple_escapes_def)
  moreover have "string_escape l = (None, lexer_add (int d) (lexer_get l))"
    using assms(1) get(2) by (auto simp: simple_escapes_def string_escape_def)
  ultimately show ?thesis using add_reads2 [OF get(1)] by auto
qed

subsection \<open>Strings\<close>

text \<open>A byte from 0x80 on starts a sequence of the ranges that the standard gives for it.\<close>

lemma string_step_multibyte:
  assumes "current (lexer_get l) = int b" "0x80 \<le> b" "b < 256"
  shows "string_step l =
    (case follow_ranges b of
       None \<Rightarrow> apfst Some (lexer_fail ''invalid string: ill-formed UTF-8 byte'' (lexer_get l))
     | Some rs \<Rightarrow> string_range (int_ranges rs) (lexer_get l))"
proof -
  consider "b < 0xC2" | "0xC2 \<le> b" "b < 0xE0" | "b = 0xE0" | "0xE0 < b" "b < 0xED" | "b = 0xED" | "0xED < b" "b < 0xF0"
    | "b = 0xF0" | "0xF0 < b" "b < 0xF4" | "b = 0xF4" | "0xF4 < b" by linarith
  then show ?thesis using assms by cases (auto simp: string_step_defs follow_ranges_def Let_def)
qed

lemma string_step_sound:
  assumes "string_step l = (None, l')" "lexer_ok l"
  shows "\<exists>a x. string_char a x \<and> reads l a x l'"
proof -
  let ?l1 = "lexer_get l"
  define b where "b = nat (current ?l1)"
  from assms(1) have ne: "current ?l1 \<noteq> eof" by (auto simp: string_step_defs lexer_fail_def Let_def)
  then have get: "reads l [b] [] ?l1" and c: "current ?l1 = int b" "b < 256"
    using get_reads_current [OF assms(2)] by (auto simp: b_def)
  consider (esc) "b = 0x5C" | (multi) "0x80 \<le> b" | (one) "b \<noteq> 0x5C" "b < 0x80" by linarith
  then show ?thesis
  proof cases
    case esc
    with assms(1) c have "string_escape ?l1 = (None, l')" by (simp add: string_step_defs)
    from string_escape_sound [OF this reads_ok [OF get]] obtain a x where
      "string_char (0x5C # a) x" "reads ?l1 a x l'" by blast
    with reads_trans [OF get this(2)] esc show ?thesis by auto
  next
    case multi
    with assms(1) string_step_multibyte [OF c(1) _ c(2)] obtain rs where
      rs: "follow_ranges b = Some rs" "string_range (int_ranges rs) ?l1 = (None, l')"
      by (auto simp: lexer_fail_def split: option.splits)
    from string_range_sound [OF rs(2) reads_ok [OF get] c] obtain bs where
      bs: "length bs = length rs" "in_ranges rs bs" "reads ?l1 bs (b # bs) l'" by blast
    with rs multi have "string_char (b # bs) (b # bs)" by (intro plain) (simp_all add: well_formed_def)
    with reads_trans [OF get bs(3)] show ?thesis by auto
  next
    case one
    with assms(1) c have "0x20 \<le> b" "b \<noteq> 0x22" "l' = lexer_add (int b) ?l1"
      by (auto simp: string_step_defs lexer_fail_def Let_def split: if_splits)
    with one add_reads2 [OF get c(2)] have "string_char [b] [b]" "reads l [b] [b] l'"
      by (auto intro: plain simp: well_formed_def follow_ranges_def)
    then show ?thesis by blast
  qed
qed

lemma string_step_complete:
  assumes "string_char a x" "left_octets l = a @ r" "lexer_ok l"
  shows "\<exists>l'. string_step l = (None, l') \<and> reads l a x l'"
  using assms
proof (induction rule: string_char.induct)
  case (plain w)
  then obtain b bs rs where w: "w = b # bs" "follow_ranges b = Some rs" "length rs = length bs" "in_ranges rs bs"
    by (auto simp: well_formed_def split: list.splits option.splits)
  note get = get_reads_byte [OF plain(6), of b "bs @ r"]
  have get: "reads l [b] [] (lexer_get l)" "current (lexer_get l) = int b" "left_octets (lexer_get l) = bs @ r" "b < 256"
    using get plain(5) w(1) by simp_all
  show ?case
  proof (cases "b < 0x80")
    case True
    with w have "bs = []" by (simp add: follow_ranges_def)
    moreover have "string_step l = (None, lexer_add (int b) (lexer_get l))"
      using True plain(2-4) get(2) w(1) by (simp add: string_step_defs)
    ultimately show ?thesis using add_reads2 [OF get(1,4)] w(1) by simp
  next
    case False
    from string_range_complete [OF w(4) w(3) [symmetric] get(3) reads_ok [OF get(1)] get(2,4)] obtain l' where
      "string_range (int_ranges rs) (lexer_get l) = (None, l')" "reads (lexer_get l) bs (b # bs) l'" by blast
    with string_step_multibyte [OF get(2) _ get(4)] False w(1,2) reads_trans [OF get(1) this(2)] show ?thesis by simp
  qed
next
  case (escape c d)
  then have left: "left_octets l = 0x5C # c # r" by simp
  note get = get_reads_byte [OF escape(3) left]
  from string_escape_complete [OF escape(1) get(3) reads_ok [OF get(1)]] obtain l' where
    "string_escape (lexer_get l) = (None, l')" "reads (lexer_get l) [c] [d] l'" by blast
  with reads_trans [OF get(1) this(2)] get(2) show ?case by (simp add: string_step_defs)
next
  case (unicode h cp)
  then have left: "left_octets l = 0x5C # 0x75 # h @ r" by simp
  note get = get_reads_byte [OF unicode(4) left]
  note get2 = get_reads_byte [OF reads_ok [OF get(1)] get(3)]
  from unicode_escape_complete [OF unicode(1,2) get2(3) reads_ok [OF get2(1)]] obtain l' where
    "unicode_escape (lexer_get (lexer_get l)) = (None, l')" "reads (lexer_get (lexer_get l)) h (utf8_encode cp) l'" by blast
  with reads_trans [OF get(1) reads_trans [OF get2(1) this(2)]] get(2) get2(2) show ?case
    by (simp add: string_step_defs string_escape_def)
next
  case (surrogates h hi h' lo)
  then have left: "left_octets l = 0x5C # 0x75 # h @ 0x5C # 0x75 # h' @ r" by simp
  note get = get_reads_byte [OF surrogates(8) left]
  note get2 = get_reads_byte [OF reads_ok [OF get(1)] get(3)]
  let ?x = "utf8_encode (0x10000 + (hi - 0xD800) * 0x400 + (lo - 0xDC00))"
  from unicode_escape_surrogates [OF surrogates(1-6) get2(3) reads_ok [OF get2(1)]] obtain l' where
    "unicode_escape (lexer_get (lexer_get l)) = (None, l')"
    "reads (lexer_get (lexer_get l)) (h @ 0x5C # 0x75 # h') ?x l'" by blast
  with reads_trans [OF get(1) reads_trans [OF get2(1) this(2)]] get(2) get2(2) show ?case
    by (simp add: string_step_defs string_escape_def)
qed

lemma string_step_quote:
  assumes "lexer_ok l"
  shows "string_step l = (Some value_string, l') \<longleftrightarrow> l' = lexer_get l \<and> current l' = 0x22"
proof -
  have "fst (unicode_escape l) \<noteq> Some value_string" for l :: "'a lexer"
    by (auto simp: unicode_escape_def Let_def lexer_fail_def split: prod.split)
  then have "fst (string_escape l) \<noteq> Some value_string" for l :: "'a lexer"
    by (auto simp: string_escape_def Let_def lexer_fail_def)
  then have "string_escape l \<noteq> (Some value_string, l')" for l l' :: "'a lexer" by (metis fst_conv)
  moreover have "string_range rs l \<noteq> (Some value_string, l')" for rs and l l' :: "'a lexer"
    by (auto simp: string_range_def split: prod.split)
  ultimately show ?thesis by (auto simp: string_step_defs Let_def lexer_fail_def)
qed

lemma string_step_token:
  assumes "string_step l = (Some t, l')"
  shows "t = value_string \<or> t = parse_error"
proof (rule ccontr)
  assume "\<not> (t = value_string \<or> t = parse_error)"
  then have ne: "t \<noteq> value_string" "t \<noteq> parse_error" by auto
  then have "fst (unicode_escape l) \<noteq> Some t" for l :: "'a lexer"
    by (auto simp: unicode_escape_def Let_def lexer_fail_def split: prod.split)
  with ne have "fst (string_escape l) \<noteq> Some t" for l :: "'a lexer"
    by (auto simp: string_escape_def Let_def lexer_fail_def)
  moreover have "fst (string_range rs l) \<noteq> Some t" for rs and l :: "'a lexer"
    using ne by (auto simp: string_range_def split: prod.split)
  ultimately have "fst (string_step l) \<noteq> Some t" using ne by (auto simp: string_step_defs Let_def lexer_fail_def)
  with assms show False by simp
qed

lemma string_loop_token: "fst (string_loop l) = value_string \<or> fst (string_loop l) = parse_error"
proof (induction l rule: string_loop.induct)
  case (1 l)
  then show ?case by (auto simp: string_loop.simps [of l] dest: string_step_token split: prod.split option.split)
qed

lemma string_loop_sound:
  assumes "string_loop l = (value_string, l')" "lexer_ok l"
  shows "\<exists>a x. string_chars a x \<and> reads l (a @ [0x22]) x l'"
  using assms
proof (induction l rule: string_loop.induct)
  case (1 l)
  obtain r l1 where step: "string_step l = (r, l1)" by fastforce
  show ?case
  proof (cases r)
    case None
    from string_step_sound [OF step [unfolded None] 1(3)] obtain a x where ax: "string_char a x" "reads l a x l1" by blast
    have "string_loop l1 = (value_string, l')" using 1(2) step None by (simp add: string_loop.simps [of l])
    from 1(1) [OF step [symmetric] None this reads_ok [OF ax(2)]] obtain b y where
      "string_chars b y" "reads l1 (b @ [0x22]) y l'" by blast
    then have "string_chars (a @ b) (x @ y) \<and> reads l ((a @ b) @ [0x22]) (x @ y) l'"
      using reads_trans [OF ax(2), of "b @ [0x22]" y l'] string_chars.Cons [OF ax(1)] by simp
    then show ?thesis by blast
  next
    case (Some t)
    then have "string_step l = (Some value_string, l')" using 1(2) step by (simp add: string_loop.simps [of l])
    then have "l' = lexer_get l" "current (lexer_get l) = 0x22" using string_step_quote [OF 1(3)] by auto
    with get_reads_current(1) [OF 1(3)] have "reads l ([] @ [0x22]) [] l'" by simp
    with string_chars.Nil show ?thesis by blast
  qed
qed

lemma string_loop_complete:
  assumes "string_chars a x" "left_octets l = a @ 0x22 # r" "lexer_ok l"
  shows "\<exists>l'. string_loop l = (value_string, l') \<and> reads l (a @ [0x22]) x l'"
  using assms
proof (induction arbitrary: l rule: string_chars.induct)
  case Nil
  then have left: "left_octets l = 0x22 # r" by simp
  note get = get_reads_byte [OF Nil(2) left]
  with string_step_quote [OF Nil(2), of "lexer_get l"] show ?case by (simp add: string_loop.simps [of l])
next
  case (Cons a x b y)
  then have left: "left_octets l = a @ b @ 0x22 # r" by simp
  from string_step_complete [OF Cons(1) left Cons(5)] obtain l1 where
    l1: "string_step l = (None, l1)" "reads l a x l1" by blast
  then have "left_octets l1 = b @ 0x22 # r" using left by (simp add: reads_def)
  from Cons(3) [OF this reads_ok [OF l1(2)]] obtain l' where "string_loop l1 = (value_string, l')"
    "reads l1 (b @ [0x22]) y l'" by blast
  with reads_trans [OF l1(2) this(2)] l1(1) show ?case by (simp add: string_loop.simps [of l])
qed

lemma reset_fields [simp]:
  "left_octets (lexer_reset l) = left_octets l" "token_buffer (lexer_reset l) = []" "lexer_ok (lexer_reset l) = lexer_ok l"
  "position (lexer_reset l) = position l" "decimal_point_char (lexer_reset l) = decimal_point_char l"
  by (simp_all add: left_octets_def lexer_reset_def lexer_ok_def lexer_rest_def)

definition consumes :: "'f lexer \<Rightarrow> octets \<Rightarrow> octets \<Rightarrow> 'f lexer \<Rightarrow> bool" where
  "consumes l bs x l' \<longleftrightarrow>
     lexer_ok l' \<and> left_octets l = bs @ left_octets l' \<and> octets_of (token_buffer l') = x \<and>
     chars_read_total (position l) \<le> chars_read_total (position l') \<and>
     decimal_point_char l' = decimal_point_char l"

lemma reads_reset: "reads (lexer_reset l) bs x l' \<longleftrightarrow> consumes l bs x l'"
  by (auto simp: reads_def consumes_def)

lemma scan_string_sound:
  "scan_string l = (value_string, l') \<Longrightarrow> lexer_ok l \<Longrightarrow> \<exists>a x. string_chars a x \<and> consumes l (a @ [0x22]) x l'"
  using string_loop_sound [of "lexer_reset l" l'] by (simp add: scan_string_def reads_reset)

lemma scan_string_complete:
  "string_chars a x \<Longrightarrow> left_octets l = a @ 0x22 # r \<Longrightarrow> lexer_ok l \<Longrightarrow>
     \<exists>l'. scan_string l = (value_string, l') \<and> consumes l (a @ [0x22]) x l'"
  using string_loop_complete [of a x "lexer_reset l" r] by (simp add: scan_string_def reads_reset)

text \<open>
  \<^verbatim>\<open>scan_string\<close> accepts exactly the string literals of JSON and yields the text they stand for: plain
  characters in well-formed UTF-8 without control characters, the eight short escapes, \<^verbatim>\<open>\uXXXX\<close> for a scalar
  value and a pair of surrogates for one beyond the basic plane, encoded in UTF-8.
\<close>

theorem scan_string_correct:
  assumes "lexer_ok l"
  shows "(\<exists>l'. scan_string l = (value_string, l') \<and> octets_of (token_buffer l') = x \<and> left_octets l' = r) \<longleftrightarrow>
    (\<exists>a. string_chars a x \<and> left_octets l = a @ 0x22 # r)"
proof
  assume "\<exists>l'. scan_string l = (value_string, l') \<and> octets_of (token_buffer l') = x \<and> left_octets l' = r"
  then obtain l' where l': "scan_string l = (value_string, l')" "octets_of (token_buffer l') = x" "left_octets l' = r"
    by blast
  from scan_string_sound [OF l'(1) assms] l'(2,3) show "\<exists>a. string_chars a x \<and> left_octets l = a @ 0x22 # r"
    by (auto simp: consumes_def)
next
  assume "\<exists>a. string_chars a x \<and> left_octets l = a @ 0x22 # r"
  then obtain a where a: "string_chars a x" "left_octets l = a @ 0x22 # r" by blast
  from scan_string_complete [OF a assms] a(2)
  show "\<exists>l'. scan_string l = (value_string, l') \<and> octets_of (token_buffer l') = x \<and> left_octets l' = r"
    by (auto simp: consumes_def)
qed

theorem scan_string_correct_witness:
  "\<exists>l'. scan_string (lexer_new CHR ''.'' (0 :: nat) (''a'' @ [CHR 0x5C] @ ''n'' @ [CHR 0x22])) = (value_string, l') \<and>
     octets_of (token_buffer l') = [0x61, 0x0A] \<and> left_octets l' = []"
proof -
  let ?l = "lexer_new CHR ''.'' (0 :: nat) (''a'' @ [CHR 0x5C] @ ''n'' @ [CHR 0x22])"
  have l: "lexer_ok ?l" "left_octets ?l = [0x61, 0x5C, 0x6E] @ 0x22 # []"
    by (simp_all add: lexer_new_def left_octets_def lexer_rest_def lexer_ok_def byte_val_def)
  have "string_char [0x61] [0x61]" by (intro plain) (simp_all add: well_formed_def follow_ranges_def)
  moreover have "string_char [0x5C, 0x6E] [0x0A]" by (intro escape) (simp add: simple_escapes_def)
  ultimately have "string_chars ([0x61] @ [0x5C, 0x6E] @ []) ([0x61] @ [0x0A] @ [])"
    by (intro string_chars.intros)
  with scan_string_correct [OF l(1), of "[0x61, 0x0A]" "[]"] l(2) show ?thesis by auto
qed

end
