(* ===== verification/Json_Parser.thy ===== *)
theory Json_Parser
  imports Json_Lexer
begin

text \<open>
  The parser of the JSON library (\<^verbatim>\<open>detail::parser\<close> and \<^verbatim>\<open>detail::json_sax_dom_parser\<close> of \<^verbatim>\<open>json/json.hpp\<close>),
  without a callback. The parser is a loop with a stack of booleans; the document is built in place, through
  pointers into it. A pointer is represented by the path from the root to the element, so a pointer that dangles
  because a vector has moved its elements is not represented; the arrays and objects that \<open>ref_stack\<close> points to lie on one
  path, and only the innermost one grows, which is why the code can keep them.
  Stacks have their top at the head.
\<close>

subsection \<open>The document\<close>

datatype path_step = At nat | Key bytes

type_synonym path = "path_step list"

primrec json_at :: "path \<Rightarrow> 'f json \<Rightarrow> 'f json option" where
  "json_at [] j = Some j"
| "json_at (s # p) j =
     (case (s, j) of
        (At i, JArray js) \<Rightarrow> if i < length js then json_at p (js ! i) else None
      | (Key k, JObject m) \<Rightarrow> (case map_of m k of None \<Rightarrow> None | Some v \<Rightarrow> json_at p v)
      | _ \<Rightarrow> None)"

primrec json_modify :: "path \<Rightarrow> ('f json \<Rightarrow> 'f json) \<Rightarrow> 'f json \<Rightarrow> 'f json" where
  "json_modify [] f j = f j"
| "json_modify (s # p) f j =
     (case (s, j) of
        (At i, JArray js) \<Rightarrow> JArray (js[i := json_modify p f (js ! i)])
      | (Key k, JObject m) \<Rightarrow> JObject (map (\<lambda>(a, v). (a, if a = k then json_modify p f v else v)) m)
      | _ \<Rightarrow> j)"

record 'f dom =
  root :: "'f json"
  ref_stack :: "path list"
  object_element :: "path option"
  errored :: bool

definition dom_new :: "'f dom" where
  "dom_new = \<lparr>root = JNull, ref_stack = [], object_element = None, errored = False\<rparr>"

definition array_add :: "'f json \<Rightarrow> 'f json \<Rightarrow> 'f json" where
  "array_add v j = (case j of JArray js \<Rightarrow> JArray (js @ [v]) | _ \<Rightarrow> j)"

definition handle_value :: "'f json \<Rightarrow> 'f dom \<Rightarrow> (path \<times> 'f dom) res" where
  "handle_value v d =
     (case ref_stack d of
        [] \<Rightarrow> Inr ([], d\<lparr>root := v\<rparr>)
      | back # _ \<Rightarrow>
          (case json_at back (root d) of
             Some (JArray js) \<Rightarrow>
               Inr (back @ [At (length js)], d\<lparr>root := json_modify back (array_add v) (root d)\<rparr>)
           | Some (JObject m) \<Rightarrow>
               (case object_element d of
                  None \<Rightarrow> Inl Undefined
                | Some e \<Rightarrow> Inr (e, d\<lparr>root := json_modify e (\<lambda>_. v) (root d)\<rparr>))
           | _ \<Rightarrow> Inl Undefined))"

definition sax_value :: "'f json \<Rightarrow> 'f dom \<Rightarrow> 'f dom res" where
  "sax_value v d = bind_res (handle_value v d) (\<lambda>(_, d1). Inr d1)"

text \<open>\<^verbatim>\<open>start_object\<close> and \<^verbatim>\<open>start_array\<close>, called with an unknown number of elements.\<close>

definition sax_start :: "'f json \<Rightarrow> 'f dom \<Rightarrow> 'f dom res" where
  "sax_start v d = bind_res (handle_value v d) (\<lambda>(p, d1). Inr (d1\<lparr>ref_stack := p # ref_stack d1\<rparr>))"

definition object_touch :: "bytes \<Rightarrow> 'f json \<Rightarrow> 'f json" where
  "object_touch k j = (case j of JObject m \<Rightarrow> JObject (object_index k m) | _ \<Rightarrow> j)"

definition sax_key :: "bytes \<Rightarrow> 'f dom \<Rightarrow> 'f dom res" where
  "sax_key val d =
     (case ref_stack d of
        [] \<Rightarrow> Inl Undefined
      | back # _ \<Rightarrow>
          (case json_at back (root d) of
             Some (JObject m) \<Rightarrow>
               Inr (d\<lparr>root := json_modify back (object_touch val) (root d),
                      object_element := Some (back @ [Key val])\<rparr>)
           | _ \<Rightarrow> Inl Undefined))"

definition sax_end :: "'f dom \<Rightarrow> 'f dom res" where
  "sax_end d = (case ref_stack d of [] \<Rightarrow> Inl Undefined | _ # ps \<Rightarrow> Inr (d\<lparr>ref_stack := ps\<rparr>))"

definition sax_parse_error :: "bool \<Rightarrow> cxx_error \<Rightarrow> 'f dom \<Rightarrow> 'f dom res" where
  "sax_parse_error allow_exceptions ex d = (if allow_exceptions then Inl ex else Inr (d\<lparr>errored := True\<rparr>))"

subsection \<open>The parser\<close>

record 'f parser =
  m_lexer :: "'f lexer"
  last_token :: token_type

definition get_token :: "'f float_ops \<Rightarrow> 'f parser \<Rightarrow> 'f parser" where
  "get_token fl p = (let (t, l) = scan fl (m_lexer p) in \<lparr>m_lexer = l, last_token = t\<rparr>)"

definition parser_new :: "'f float_ops \<Rightarrow> 'f lexer \<Rightarrow> 'f parser" where
  "parser_new fl l = get_token fl \<lparr>m_lexer = l, last_token = uninitialized\<rparr>"

definition exception_message :: "token_type \<Rightarrow> bytes \<Rightarrow> 'f parser \<Rightarrow> bytes" where
  "exception_message expected context p =
     ''syntax error '' @
     (if context \<noteq> [] then ''while parsing '' @ context @ '' '' else []) @ ''- '' @
     (if last_token p = parse_error
      then error_message (m_lexer p) @ ''; last read: '' @ [CHR 0x27] @ get_token_string (m_lexer p) @ [CHR 0x27]
      else ''unexpected '' @ token_type_name (last_token p)) @
     (if expected \<noteq> uninitialized then ''; expected '' @ token_type_name expected else [])"

definition syntax_error :: "token_type \<Rightarrow> bytes \<Rightarrow> 'f parser \<Rightarrow> cxx_error" where
  "syntax_error expected context p =
     parse_error_create 101 (position (m_lexer p)) (exception_message expected context p)"

record 'f parse_state =
  p_parser :: "'f parser"
  p_dom :: "'f dom"
  states :: "bool list"
  skip_to_state_evaluation :: bool

text \<open>What an iteration ends with; \<open>Parsed_value\<close> is a \<^verbatim>\<open>break\<close> out of the switch.\<close>

datatype 'f parse_next =
    Parse_continue "'f parse_state"
  | Parse_return bool "'f parse_state"
  | Parsed_value "'f parse_state"

definition next_token :: "'f float_ops \<Rightarrow> 'f parse_state \<Rightarrow> 'f parse_state" where
  "next_token fl s = s\<lparr>p_parser := get_token fl (p_parser s)\<rparr>"

abbreviation token :: "'f parse_state \<Rightarrow> token_type" where
  "token s \<equiv> last_token (p_parser s)"

definition parse_fail ::
  "bool \<Rightarrow> (token_type \<times> bytes) \<Rightarrow> 'f parse_state \<Rightarrow> 'f parse_next res" where
  "parse_fail allow_exceptions expected s =
     bind_res (sax_parse_error allow_exceptions (syntax_error (fst expected) (snd expected) (p_parser s)) (p_dom s))
       (\<lambda>d. Inr (Parse_return False (s\<lparr>p_dom := d\<rparr>)))"

definition with_dom :: "('f dom \<Rightarrow> 'f dom res) \<Rightarrow> 'f parse_state \<Rightarrow> ('f parse_state \<Rightarrow> 'f parse_next res) \<Rightarrow> 'f parse_next res" where
  "with_dom f s k = bind_res (f (p_dom s)) (\<lambda>d. k (s\<lparr>p_dom := d\<rparr>))"

text \<open>A key, its separator and the first token of its value.\<close>

definition parse_key :: "'f float_ops \<Rightarrow> bool \<Rightarrow> (bool list \<Rightarrow> bool list) \<Rightarrow> 'f parse_state \<Rightarrow> 'f parse_next res" where
  "parse_key fl allow_exceptions push s =
     (if token s \<noteq> value_string then parse_fail allow_exceptions (value_string, ''object key'') s
      else with_dom (sax_key (token_buffer (m_lexer (p_parser s)))) s (\<lambda>s1.
        let s2 = next_token fl s1
        in if token s2 \<noteq> name_separator then parse_fail allow_exceptions (name_separator, ''object separator'') s2
           else Inr (Parse_continue (next_token fl (s2\<lparr>states := push (states s2)\<rparr>)))))"

definition parse_value :: "'f float_ops \<Rightarrow> bool \<Rightarrow> 'f parse_state \<Rightarrow> 'f parse_next res" where
  "parse_value fl allow_exceptions s =
     (let l = m_lexer (p_parser s); done_value = (\<lambda>v. with_dom (sax_value v) s (\<lambda>s1. Inr (Parsed_value s1)))
      in case token s of
           begin_object \<Rightarrow>
             with_dom (sax_start (JObject [])) s (\<lambda>s1.
               let s2 = next_token fl s1
               in if token s2 = end_object then with_dom sax_end s2 (\<lambda>s3. Inr (Parsed_value s3))
                  else parse_key fl allow_exceptions (Cons False) s2)
         | begin_array \<Rightarrow>
             with_dom (sax_start (JArray [])) s (\<lambda>s1.
               let s2 = next_token fl s1
               in if token s2 = end_array then with_dom sax_end s2 (\<lambda>s3. Inr (Parsed_value s3))
                  else Inr (Parse_continue (s2\<lparr>states := True # states s2\<rparr>)))
         | value_float_tok \<Rightarrow>
             if \<not> isfinite fl (value_float l) then
               bind_res (sax_parse_error allow_exceptions
                   (out_of_range_create 406 (''number overflow parsing '' @ [CHR 0x27] @ get_token_string l @ [CHR 0x27]))
                   (p_dom s))
                 (\<lambda>d. Inr (Parse_return False (s\<lparr>p_dom := d\<rparr>)))
             else done_value (JFloat (value_float l))
         | literal_false \<Rightarrow> done_value (JBoolean False)
         | literal_null \<Rightarrow> done_value JNull
         | literal_true \<Rightarrow> done_value (JBoolean True)
         | value_integer_tok \<Rightarrow> done_value (JInteger (value_integer l))
         | value_string \<Rightarrow> done_value (JString (token_buffer l))
         | value_unsigned_tok \<Rightarrow> done_value (JUnsigned (value_unsigned l))
         | parse_error \<Rightarrow> parse_fail allow_exceptions (uninitialized, ''value'') s
         | _ \<Rightarrow> parse_fail allow_exceptions (literal_or_value, ''value'') s)"

definition close_container :: "'f parse_state \<Rightarrow> 'f parse_next res" where
  "close_container s =
     with_dom sax_end s (\<lambda>s1.
       Inr (Parse_continue (s1\<lparr>states := tl (states s1), skip_to_state_evaluation := True\<rparr>)))"

definition parse_follow :: "'f float_ops \<Rightarrow> bool \<Rightarrow> 'f parse_state \<Rightarrow> 'f parse_next res" where
  "parse_follow fl allow_exceptions s =
     (case states s of
        [] \<Rightarrow> Inr (Parse_return True s)
      | True # _ \<Rightarrow>
          (let s1 = next_token fl s
           in if token s1 = value_separator then Inr (Parse_continue (next_token fl s1))
              else if token s1 = end_array then close_container s1
              else parse_fail allow_exceptions (end_array, ''array'') s1)
      | False # _ \<Rightarrow>
          (let s1 = next_token fl s
           in if token s1 = value_separator then parse_key fl allow_exceptions id (next_token fl s1)
              else if token s1 = end_object then close_container s1
              else parse_fail allow_exceptions (end_object, ''object'') s1))"

definition parse_step :: "'f float_ops \<Rightarrow> bool \<Rightarrow> 'f parse_state \<Rightarrow> 'f parse_next res" where
  "parse_step fl allow_exceptions s =
     (if skip_to_state_evaluation s then parse_follow fl allow_exceptions (s\<lparr>skip_to_state_evaluation := False\<rparr>)
      else bind_res (parse_value fl allow_exceptions s) (\<lambda>n.
        case n of Parsed_value s1 \<Rightarrow> parse_follow fl allow_exceptions s1 | _ \<Rightarrow> Inr n))"

text \<open>
  Every iteration that goes on has read a token, and the token at the end of the input stops the next
  one.
\<close>

definition parse_measure :: "'f parse_state \<Rightarrow> nat" where
  "parse_measure s =
     2 * length (lexer_rest (m_lexer (p_parser s))) + (if token s = end_of_input then 0 else 1)"

abbreviation parser_rest :: "'f parser \<Rightarrow> nat" where
  "parser_rest p \<equiv> length (lexer_rest (m_lexer p))"

abbreviation parse_input :: "'f parse_state \<Rightarrow> nat" where
  "parse_input s \<equiv> parser_rest (p_parser s)"

lemma get_token_fields:
  "m_lexer (get_token fl p) = snd (scan fl (m_lexer p))" "last_token (get_token fl p) = fst (scan fl (m_lexer p))"
  by (simp_all add: get_token_def Let_def case_prod_unfold)

lemma get_token_not_longer: "parser_rest (get_token fl p) \<le> parser_rest p"
  by (simp add: get_token_fields scan_not_longer)

lemma get_token_decreases: "last_token (get_token fl p) \<noteq> end_of_input \<Longrightarrow> parser_rest (get_token fl p) < parser_rest p"
  by (simp add: get_token_fields scan_decreases)

lemma next_token_fields [simp]:
  "p_parser (next_token fl s) = get_token fl (p_parser s)" "p_dom (next_token fl s) = p_dom s"
  "states (next_token fl s) = states s"
  "skip_to_state_evaluation (next_token fl s) = skip_to_state_evaluation s"
  by (simp_all add: next_token_def)

lemma parse_fail_result: "parse_fail al e s = Inr n \<Longrightarrow> \<exists>s'. n = Parse_return False s'"
  by (auto simp: parse_fail_def bind_res_Inr_iff)

lemma with_dom_result:
  "with_dom f s k = Inr n \<longleftrightarrow> (\<exists>d. f (p_dom s) = Inr d \<and> k (s\<lparr>p_dom := d\<rparr>) = Inr n)"
  by (auto simp: with_dom_def bind_res_Inr_iff)

lemma parse_key_continue:
  "parse_key fl al push s = Inr (Parse_continue s') \<Longrightarrow>
     parser_rest (get_token fl (p_parser s)) < parse_input s \<and> p_parser s' = get_token fl (get_token fl (p_parser s))"
  using get_token_decreases [of fl "p_parser s"]
  by (auto simp: parse_key_def with_dom_result Let_def dest: parse_fail_result split: if_splits)

lemma parse_key_decreases:
  assumes "parse_key fl al push s = Inr (Parse_continue s')"
  shows "parse_input s' < parse_input s"
  using parse_key_continue [OF assms] get_token_not_longer [of fl "get_token fl (p_parser s)"] by auto

lemma close_container_parser: "close_container s = Inr (Parse_continue s') \<Longrightarrow> p_parser s' = p_parser s"
  by (auto simp: close_container_def with_dom_result)

lemma parse_follow_decreases:
  assumes "parse_follow fl al s = Inr (Parse_continue s')"
  shows "parse_input s' < parse_input s"
proof -
  let ?p1 = "get_token fl (p_parser s)"
  have "last_token ?p1 \<noteq> end_of_input" "parse_input s' \<le> parser_rest ?p1"
    using assms get_token_not_longer [of fl ?p1] close_container_parser [of "next_token fl s" s']
      parse_key_decreases [of fl al id "next_token fl (next_token fl s)" s']
    by (auto simp: parse_follow_def Let_def dest: parse_fail_result split: list.splits bool.splits if_splits)
  with get_token_decreases [of fl "p_parser s"] show ?thesis by simp
qed

lemma parse_value_continue:
  assumes "parse_value fl al s = Inr (Parse_continue s')"
  shows "parse_input s' < parser_rest (get_token fl (p_parser s)) \<or>
    token s = begin_array \<and> p_parser s' = get_token fl (p_parser s)"
proof -
  have *: "parse_input s' < parse_input (next_token fl s\<lparr>p_dom := d\<rparr>)"
    if "parse_key fl al (Cons False) (next_token fl (s\<lparr>p_dom := d\<rparr>)) = Inr (Parse_continue s')" for d
    using parse_key_decreases [OF that] by simp
  show ?thesis using assms
    by (cases "token s") (auto simp: parse_value_def with_dom_result bind_res_Inr_iff Let_def
      dest: parse_fail_result * split: if_splits)
qed

lemma parse_value_done:
  assumes "parse_value fl al s = Inr (Parsed_value s')"
  shows "p_parser s' = p_parser s \<or> p_parser s' = get_token fl (p_parser s)"
proof -
  have *: "parse_key fl al f s1 \<noteq> Inr (Parsed_value s')" for f s1
    by (auto simp: parse_key_def with_dom_result Let_def dest: parse_fail_result)
  show ?thesis using assms
    by (cases "token s") (auto simp: parse_value_def with_dom_result bind_res_Inr_iff Let_def *
      dest: parse_fail_result split: if_splits)
qed

lemma parse_step_decreases:
  assumes "parse_step fl al s = Inr (Parse_continue s')"
  shows "parse_measure s' < parse_measure s"
proof -
  have less: "parse_input s' < parse_input s \<Longrightarrow> ?thesis" by (simp add: parse_measure_def)
  consider (skip) "parse_follow fl al (s\<lparr>skip_to_state_evaluation := False\<rparr>) = Inr (Parse_continue s')"
    | (more) "parse_value fl al s = Inr (Parse_continue s')"
    | (follow) s1 where "parse_value fl al s = Inr (Parsed_value s1)" "parse_follow fl al s1 = Inr (Parse_continue s')"
    using assms by (cases "parse_value fl al s")
      (auto simp: parse_step_def split: if_splits parse_next.split_asm)
  then show ?thesis
  proof cases
    case skip
    from parse_follow_decreases [OF this] show ?thesis by (intro less) simp
  next
    case more
    from parse_value_continue [OF this] show ?thesis
    proof
      assume "parse_input s' < parser_rest (get_token fl (p_parser s))"
      with get_token_not_longer [of fl "p_parser s"] show ?thesis by (intro less) simp
    next
      assume *: "token s = begin_array \<and> p_parser s' = get_token fl (p_parser s)"
      with get_token_not_longer [of fl "p_parser s"] get_token_decreases [of fl "p_parser s"] show ?thesis
        by (cases "token s' = end_of_input") (auto simp: parse_measure_def)
    qed
  next
    case follow
    from parse_value_done [OF follow(1)] parse_follow_decreases [OF follow(2)]
      get_token_not_longer [of fl "p_parser s"] show ?thesis by (intro less) auto
  qed
qed

function sax_parse_internal :: "'f float_ops \<Rightarrow> bool \<Rightarrow> 'f parse_state \<Rightarrow> (bool \<times> 'f parse_state) res" where
  "sax_parse_internal fl allow_exceptions s =
     (case parse_step fl allow_exceptions s of
        Inl e \<Rightarrow> Inl e
      | Inr (Parse_continue s1) \<Rightarrow> sax_parse_internal fl allow_exceptions s1
      | Inr (Parse_return b s1) \<Rightarrow> Inr (b, s1)
      | Inr (Parsed_value s1) \<Rightarrow> Inr (False, s1))"
  by pat_completeness auto
termination
  by (relation "measure (\<lambda>(fl, al, s). parse_measure s)") (auto dest: parse_step_decreases)

declare sax_parse_internal.simps [simp del]

definition parser_parse :: "'f float_ops \<Rightarrow> bool \<Rightarrow> bool \<Rightarrow> 'f parser \<Rightarrow> 'f json res" where
  "parser_parse fl allow_exceptions strict p =
     bind_res (sax_parse_internal fl allow_exceptions
         \<lparr>p_parser = p, p_dom = dom_new, states = [], skip_to_state_evaluation = False\<rparr>) (\<lambda>(_, s).
       let s1 = (if strict then next_token fl s else s)
       in bind_res
            (if strict \<and> token s1 \<noteq> end_of_input
             then sax_parse_error allow_exceptions (syntax_error end_of_input ''value'' (p_parser s1)) (p_dom s1)
             else Inr (p_dom s1))
            (\<lambda>d. Inr (if errored d then JDiscarded else root d)))"

text \<open>\<^verbatim>\<open>basic_json::parse\<close>.\<close>

definition json_parse :: "'f float_ops \<Rightarrow> char \<Rightarrow> bool \<Rightarrow> bytes \<Rightarrow> 'f json res" where
  "json_parse fl decimal_point allow_exceptions input =
     parser_parse fl allow_exceptions True (parser_new fl (lexer_new decimal_point (strtod fl ''0'') input))"

end
