(* ===== verification/Json_Grammar.thy ===== *)
theory Json_Grammar
  imports Json_Parser
begin

text \<open>
  What the parser of the JSON library accepts. The reference is the grammar of JSON texts over tokens,
  with the value a text denotes; between the two stands a pushdown machine that keeps the open arrays and
  objects as frames. The loop of the parser simulates the machine, and the machine accepts exactly the
  texts of the grammar.
\<close>

subsection \<open>Tokens and grammar\<close>

datatype 'f tok =
    TTrue | TFalse | TNull | TString bytes | TUnsigned nat | TInteger int | TFloat 'f
  | TBegin_array | TBegin_object | TEnd_array | TEnd_object | TColon | TComma | TError | TEnd

definition tok_of :: "token_type \<Rightarrow> 'f lexer \<Rightarrow> 'f tok" where
  "tok_of t l =
     (case t of
        literal_true \<Rightarrow> TTrue
      | literal_false \<Rightarrow> TFalse
      | literal_null \<Rightarrow> TNull
      | value_string \<Rightarrow> TString (token_buffer l)
      | value_unsigned_tok \<Rightarrow> TUnsigned (value_unsigned l)
      | value_integer_tok \<Rightarrow> TInteger (value_integer l)
      | value_float_tok \<Rightarrow> TFloat (value_float l)
      | begin_array \<Rightarrow> TBegin_array
      | begin_object \<Rightarrow> TBegin_object
      | end_array \<Rightarrow> TEnd_array
      | end_object \<Rightarrow> TEnd_object
      | name_separator \<Rightarrow> TColon
      | value_separator \<Rightarrow> TComma
      | end_of_input \<Rightarrow> TEnd
      | _ \<Rightarrow> TError)"

definition final_tok :: "'f tok \<Rightarrow> bool" where
  "final_tok t \<longleftrightarrow> (case t of TError \<Rightarrow> True | TEnd \<Rightarrow> True | _ \<Rightarrow> False)"

lemma final_tok_simps [simp]:
  "final_tok TError" "final_tok TEnd" "\<not> final_tok TTrue" "\<not> final_tok TFalse" "\<not> final_tok TNull"
  "\<not> final_tok (TString s)" "\<not> final_tok (TUnsigned n)" "\<not> final_tok (TInteger i)" "\<not> final_tok (TFloat f)"
  "\<not> final_tok TBegin_array" "\<not> final_tok TBegin_object" "\<not> final_tok TEnd_array" "\<not> final_tok TEnd_object"
  "\<not> final_tok TColon" "\<not> final_tok TComma"
  by (simp_all add: final_tok_def)

text \<open>The tokens of the input up to its end or the first error.\<close>

function json_tokens :: "'f float_ops \<Rightarrow> 'f lexer \<Rightarrow> 'f tok list" where
  "json_tokens fl l =
     (let t = fst (scan fl l); l1 = snd (scan fl l)
      in if final_tok (tok_of t l1) then [tok_of t l1] else tok_of t l1 # json_tokens fl l1)"
  by pat_completeness auto
termination
proof (relation "measure (\<lambda>(fl, l). length (lexer_rest l))")
  fix fl :: "'f float_ops" and l l1 :: "'f lexer" and t
  assume "t = fst (scan fl l)" "l1 = snd (scan fl l)" "\<not> final_tok (tok_of t l1)"
  then have "fst (scan fl l) \<noteq> end_of_input" by (auto simp: tok_of_def)
  with \<open>l1 = snd (scan fl l)\<close> show "((fl, l1), (fl, l)) \<in> measure (\<lambda>(fl, l). length (lexer_rest l))"
    using scan_decreases by auto
qed simp

declare json_tokens.simps [simp del]

fun commas :: "'f tok list list \<Rightarrow> 'f tok list" where
  "commas [] = []"
| "commas [t] = t"
| "commas (t # u # ts) = t @ TComma # commas (u # ts)"

definition object_set :: "bytes \<Rightarrow> 'f json \<Rightarrow> (bytes \<times> 'f json) list \<Rightarrow> (bytes \<times> 'f json) list" where
  "object_set k v m = map (\<lambda>(a, w). (a, if a = k then v else w)) (object_index k m)"

definition members :: "(bytes \<times> 'f json) list \<Rightarrow> (bytes \<times> 'f json) list" where
  "members kvs = fold (\<lambda>(k, v). object_set k v) kvs []"

definition scalar_json :: "'f float_ops \<Rightarrow> 'f tok \<Rightarrow> 'f json option" where
  "scalar_json fl t =
     (case t of
        TTrue \<Rightarrow> Some (JBoolean True)
      | TFalse \<Rightarrow> Some (JBoolean False)
      | TNull \<Rightarrow> Some JNull
      | TString s \<Rightarrow> Some (JString s)
      | TUnsigned n \<Rightarrow> Some (JUnsigned n)
      | TInteger i \<Rightarrow> Some (JInteger i)
      | TFloat f \<Rightarrow> if isfinite fl f then Some (JFloat f) else None
      | _ \<Rightarrow> None)"

inductive json_text :: "'f float_ops \<Rightarrow> 'f tok list \<Rightarrow> 'f json \<Rightarrow> bool" for fl where
  scalar: "scalar_json fl t = Some j \<Longrightarrow> json_text fl [t] j"
| array: "list_all2 (json_text fl) tss js \<Longrightarrow>
    json_text fl (TBegin_array # commas tss @ [TEnd_array]) (JArray js)"
| object: "list_all2 (\<lambda>ts kv. \<exists>vs. ts = TString (fst kv) # TColon # vs \<and> json_text fl vs (snd kv)) tss kvs \<Longrightarrow>
    json_text fl (TBegin_object # commas tss @ [TEnd_object]) (JObject (members kvs))"

subsection \<open>The pushdown machine\<close>

text \<open>
  An open array with the elements read so far, or an open object with its members so far and the key
  whose value comes next. The first frame is the innermost.
\<close>

datatype 'f frame = Array_frame "'f json list" | Object_frame "(bytes \<times> 'f json) list" bytes

datatype 'f config =
    Value "'f frame list" "'f tok list"
  | Follow "'f frame list" "'f json" "'f tok list"

definition pda_key :: "'f tok list \<Rightarrow> (bytes \<Rightarrow> 'f tok list \<Rightarrow> 'f config) \<Rightarrow> 'f config option" where
  "pda_key ts c =
     (case ts of
        TString k # ts1 \<Rightarrow> (case ts1 of TColon # ts2 \<Rightarrow> Some (c k ts2) | _ \<Rightarrow> None)
      | _ \<Rightarrow> None)"

definition pda_array :: "'f frame list \<Rightarrow> 'f tok list \<Rightarrow> 'f config option" where
  "pda_array F ts =
     (case ts of
        TEnd_array # ts1 \<Rightarrow> Some (Follow F (JArray []) ts1)
      | _ \<Rightarrow> Some (Value (Array_frame [] # F) ts))"

definition pda_object :: "'f frame list \<Rightarrow> 'f tok list \<Rightarrow> 'f config option" where
  "pda_object F ts =
     (case ts of
        TEnd_object # ts1 \<Rightarrow> Some (Follow F (JObject []) ts1)
      | _ \<Rightarrow> pda_key ts (\<lambda>k. Value (Object_frame [] k # F)))"

definition pda_value :: "'f float_ops \<Rightarrow> 'f frame list \<Rightarrow> 'f tok list \<Rightarrow> 'f config option" where
  "pda_value fl F ts =
     (case ts of
        [] \<Rightarrow> None
      | t # ts1 \<Rightarrow>
          (case t of
             TBegin_array \<Rightarrow> pda_array F ts1
           | TBegin_object \<Rightarrow> pda_object F ts1
           | _ \<Rightarrow> map_option (\<lambda>v. Follow F v ts1) (scalar_json fl t)))"

definition pda_follow :: "'f frame \<Rightarrow> 'f frame list \<Rightarrow> 'f json \<Rightarrow> 'f tok list \<Rightarrow> 'f config option" where
  "pda_follow f F v ts =
     (case f of
        Array_frame js \<Rightarrow>
          (case ts of
             TComma # ts1 \<Rightarrow> Some (Value (Array_frame (js @ [v]) # F) ts1)
           | TEnd_array # ts1 \<Rightarrow> Some (Follow F (JArray (js @ [v])) ts1)
           | _ \<Rightarrow> None)
      | Object_frame m k \<Rightarrow>
          (case ts of
             TComma # ts1 \<Rightarrow> pda_key ts1 (\<lambda>k'. Value (Object_frame (object_set k v m) k' # F))
           | TEnd_object # ts1 \<Rightarrow> Some (Follow F (JObject (object_set k v m)) ts1)
           | _ \<Rightarrow> None))"

lemma pda_key_iff: "pda_key ts c = Some c' \<longleftrightarrow> (\<exists>k ts'. ts = TString k # TColon # ts' \<and> c' = c k ts')"
  by (auto simp: pda_key_def split: list.split tok.split)

lemma pda_value_iff:
  "pda_value fl F ts = Some c \<longleftrightarrow>
     (\<exists>ts'. ts = TBegin_array # TEnd_array # ts' \<and> c = Follow F (JArray []) ts') \<or>
     (\<exists>ts'. ts = TBegin_array # ts' \<and> (\<forall>ts''. ts' \<noteq> TEnd_array # ts'') \<and> c = Value (Array_frame [] # F) ts') \<or>
     (\<exists>ts'. ts = TBegin_object # TEnd_object # ts' \<and> c = Follow F (JObject []) ts') \<or>
     (\<exists>k ts'. ts = TBegin_object # TString k # TColon # ts' \<and> c = Value (Object_frame [] k # F) ts') \<or>
     (\<exists>t v ts'. ts = t # ts' \<and> scalar_json fl t = Some v \<and> c = Follow F v ts')"
proof (cases ts)
  case (Cons t ts')
  have "pda_array F ts' = Some c \<longleftrightarrow>
     (\<exists>ts''. ts' = TEnd_array # ts'' \<and> c = Follow F (JArray []) ts'') \<or>
     ((\<forall>ts''. ts' \<noteq> TEnd_array # ts'') \<and> c = Value (Array_frame [] # F) ts')"
    by (cases ts') (auto simp: pda_array_def split: tok.split)
  moreover have "pda_object F ts' = Some c \<longleftrightarrow>
     (\<exists>ts''. ts' = TEnd_object # ts'' \<and> c = Follow F (JObject []) ts'') \<or>
     (\<exists>k ts''. ts' = TString k # TColon # ts'' \<and> c = Value (Object_frame [] k # F) ts'')"
    by (cases ts') (auto simp: pda_object_def pda_key_def split: tok.split list.split)
  ultimately show ?thesis using Cons by (cases t) (auto simp: pda_value_def scalar_json_def)
qed (simp add: pda_value_def)

lemma pda_follow_iff:
  "pda_follow (Array_frame js) F v ts = Some c \<longleftrightarrow>
     (\<exists>ts'. ts = TComma # ts' \<and> c = Value (Array_frame (js @ [v]) # F) ts') \<or>
     (\<exists>ts'. ts = TEnd_array # ts' \<and> c = Follow F (JArray (js @ [v])) ts')"
  "pda_follow (Object_frame m k) F v ts = Some c \<longleftrightarrow>
     (\<exists>k' ts'. ts = TComma # TString k' # TColon # ts' \<and> c = Value (Object_frame (object_set k v m) k' # F) ts') \<or>
     (\<exists>ts'. ts = TEnd_object # ts' \<and> c = Follow F (JObject (object_set k v m)) ts')"
  by (cases ts; auto simp: pda_follow_def pda_key_def split: tok.split list.split)+

fun pda_step :: "'f float_ops \<Rightarrow> 'f config \<Rightarrow> 'f config option" where
  "pda_step fl (Value F ts) = pda_value fl F ts"
| "pda_step fl (Follow [] v ts) = None"
| "pda_step fl (Follow (f # F) v ts) = pda_follow f F v ts"

fun config_tokens :: "'f config \<Rightarrow> 'f tok list" where
  "config_tokens (Value F ts) = ts"
| "config_tokens (Follow F v ts) = ts"

lemma pda_step_consumes:
  assumes "pda_step fl c = Some c'"
  shows "length (config_tokens c') < length (config_tokens c)"
proof (cases c)
  case (Value F ts)
  with assms show ?thesis by (auto simp: pda_value_iff)
next
  case (Follow F v ts)
  with assms obtain f F' where "F = f # F'" "pda_follow f F' v ts = Some c'" by (cases F) auto
  with Follow show ?thesis by (cases f) (auto simp: pda_follow_iff)
qed

text \<open>The value the machine accepts, with the tokens behind it.\<close>

function pda_run :: "'f float_ops \<Rightarrow> 'f config \<Rightarrow> ('f json \<times> 'f tok list) option" where
  "pda_run fl c =
     (case pda_step fl c of
        Some c' \<Rightarrow> pda_run fl c'
      | None \<Rightarrow> (case c of Follow [] v ts \<Rightarrow> Some (v, ts) | _ \<Rightarrow> None))"
  by pat_completeness auto
termination
  by (relation "measure (\<lambda>(fl, c). length (config_tokens c))") (auto dest: pda_step_consumes simp del: pda_step.simps)

declare pda_run.simps [simp del]

lemma pda_run_simps [simp]:
  "pda_run fl (Follow [] v ts) = Some (v, ts)"
  "pda_run fl (Value F ts) = (case pda_value fl F ts of None \<Rightarrow> None | Some c \<Rightarrow> pda_run fl c)"
  "pda_run fl (Follow (f # F) v ts) = (case pda_follow f F v ts of None \<Rightarrow> None | Some c \<Rightarrow> pda_run fl c)"
  by (subst pda_run.simps, simp split: option.split)+

subsection \<open>The machine accepts the grammar\<close>

lemma commas_snoc: "commas (tss @ [ts]) = concat (map (\<lambda>t. t @ [TComma]) tss) @ ts"
  by (induction tss rule: commas.induct) simp_all

lemma members_snoc: "members (kvs @ [(k, v)]) = object_set k v (members kvs)"
  by (simp add: members_def)

lemma json_text_head:
  assumes "json_text fl ts j"
  obtains t ts' where "ts = t # ts'" "t \<noteq> TEnd_array"
  using assms
proof cases
  case (scalar t)
  then show thesis by (intro that [of t "[]"]) (auto simp: scalar_json_def)
qed auto

text \<open>The tokens read for an open frame, and for a stack of them.\<close>

abbreviation member_text :: "'f float_ops \<Rightarrow> 'f tok list \<Rightarrow> bytes \<times> 'f json \<Rightarrow> bool" where
  "member_text fl ts kv \<equiv> \<exists>vs. ts = TString (fst kv) # TColon # vs \<and> json_text fl vs (snd kv)"

fun opens :: "'f float_ops \<Rightarrow> 'f frame \<Rightarrow> 'f tok list \<Rightarrow> bool" where
  "opens fl (Array_frame js) ts \<longleftrightarrow>
     (\<exists>tss. ts = TBegin_array # concat (map (\<lambda>t. t @ [TComma]) tss) \<and> list_all2 (json_text fl) tss js)"
| "opens fl (Object_frame m k) ts \<longleftrightarrow>
     (\<exists>tss kvs. ts = TBegin_object # concat (map (\<lambda>t. t @ [TComma]) tss) @ [TString k, TColon] \<and>
        list_all2 (member_text fl) tss kvs \<and> m = members kvs)"

primrec opened :: "'f float_ops \<Rightarrow> 'f frame list \<Rightarrow> 'f tok list \<Rightarrow> bool" where
  "opened fl [] ts \<longleftrightarrow> ts = []"
| "opened fl (f # F) ts \<longleftrightarrow> (\<exists>us vs. ts = us @ vs \<and> opened fl F us \<and> opens fl f vs)"

primrec consumed :: "'f float_ops \<Rightarrow> 'f config \<Rightarrow> 'f tok list \<Rightarrow> bool" where
  "consumed fl (Value F rest) ts \<longleftrightarrow> opened fl F ts"
| "consumed fl (Follow F v rest) ts \<longleftrightarrow> (\<exists>us vs. ts = us @ vs \<and> opened fl F us \<and> json_text fl vs v)"

lemma opened_more:
  "opened fl F us \<Longrightarrow> opens fl f vs \<Longrightarrow> opened fl (f # F) (us @ vs)"
  by auto

lemma consumed_follow:
  "opened fl F us \<Longrightarrow> json_text fl vs v \<Longrightarrow> consumed fl (Follow F v rest) (us @ vs)"
  by auto

lemma json_text_empty: "json_text fl [TBegin_array, TEnd_array] (JArray [])"
  "json_text fl [TBegin_object, TEnd_object] (JObject [])"
  using array [of fl "[]" "[]"] object [of fl "[]" "[]"] by (simp_all add: members_def)

lemma opens_array_close:
  assumes "opens fl (Array_frame js) us" "json_text fl vs v"
  shows "json_text fl (us @ vs @ [TEnd_array]) (JArray (js @ [v]))"
proof -
  obtain tss where "us = TBegin_array # concat (map (\<lambda>t. t @ [TComma]) tss)" "list_all2 (json_text fl) tss js"
    using assms(1) by auto
  moreover from this assms(2) have "list_all2 (json_text fl) (tss @ [vs]) (js @ [v])"
    by (simp add: list_all2_appendI)
  ultimately show ?thesis using array [of fl "tss @ [vs]" "js @ [v]"] by (simp add: commas_snoc)
qed

lemma opens_object_close:
  assumes "opens fl (Object_frame m k) us" "json_text fl vs v"
  shows "json_text fl (us @ vs @ [TEnd_object]) (JObject (object_set k v m))"
proof -
  obtain tss kvs where us: "us = TBegin_object # concat (map (\<lambda>t. t @ [TComma]) tss) @ [TString k, TColon]"
    and "list_all2 (member_text fl) tss kvs" "m = members kvs"
    using assms(1) by auto
  with assms(2) have "list_all2 (member_text fl) (tss @ [TString k # TColon # vs]) (kvs @ [(k, v)])"
    by (simp add: list_all2_appendI)
  from object [OF this] us show ?thesis by (simp add: commas_snoc members_snoc \<open>m = members kvs\<close>)
qed

lemma opens_array_more:
  "opens fl (Array_frame js) us \<Longrightarrow> json_text fl vs v \<Longrightarrow> opens fl (Array_frame (js @ [v])) (us @ vs @ [TComma])"
  by (fastforce intro: list_all2_appendI exI [of _ "_ @ [vs]"])

lemma opens_object_more:
  assumes "opens fl (Object_frame m k) us" "json_text fl vs v"
  shows "opens fl (Object_frame (object_set k v m) k') (us @ vs @ [TComma, TString k', TColon])"
proof -
  obtain tss kvs where us: "us = TBegin_object # concat (map (\<lambda>t. t @ [TComma]) tss) @ [TString k, TColon]"
    and "list_all2 (member_text fl) tss kvs" "m = members kvs"
    using assms(1) by auto
  with assms(2) show ?thesis
    by (auto intro!: exI [of _ "tss @ [TString k # TColon # vs]"] exI [of _ "kvs @ [(k, v)]"]
        simp: members_snoc list_all2_appendI)
qed

lemma consumed_step:
  assumes "consumed fl c ts" "pda_step fl c = Some c'"
  shows "\<exists>us. config_tokens c = us @ config_tokens c' \<and> consumed fl c' (ts @ us)"
proof (cases c)
  case (Value F rest)
  with assms have F: "opened fl F ts" and step: "pda_value fl F rest = Some c'" by auto
  have follow: "c' = Follow F v rest' \<Longrightarrow> rest = us @ rest' \<Longrightarrow> json_text fl us v \<Longrightarrow> ?thesis" for v us rest'
    using Value consumed_follow [OF F, of us v rest'] by auto
  from step show ?thesis unfolding pda_value_iff
  proof (elim disjE exE conjE)
    fix rest' assume "rest = TBegin_array # TEnd_array # rest'" "c' = Follow F (JArray []) rest'"
    then show ?thesis by (intro follow [OF _ _ json_text_empty(1)]) auto
  next
    fix rest' assume "rest = TBegin_array # rest'" "c' = Value (Array_frame [] # F) rest'"
    with Value F opened_more [of fl F ts "Array_frame []" "[TBegin_array]"] show ?thesis by simp
  next
    fix rest' assume "rest = TBegin_object # TEnd_object # rest'" "c' = Follow F (JObject []) rest'"
    then show ?thesis by (intro follow [OF _ _ json_text_empty(2)]) auto
  next
    fix k rest' assume "rest = TBegin_object # TString k # TColon # rest'" "c' = Value (Object_frame [] k # F) rest'"
    with Value F opened_more [of fl F ts "Object_frame [] k" "[TBegin_object, TString k, TColon]"]
    show ?thesis by (force simp: members_def)
  next
    fix t v rest' assume "rest = t # rest'" "scalar_json fl t = Some v" "c' = Follow F v rest'"
    then show ?thesis by (intro follow [OF _ _ scalar]) auto
  qed
next
  case (Follow F v rest)
  with assms(2) obtain f F' where f: "F = f # F'" "pda_follow f F' v rest = Some c'" by (cases F) auto
  with Follow assms(1) obtain us1 us2 vs where ts: "ts = us1 @ us2 @ vs" "opened fl F' us1" "opens fl f us2"
    "json_text fl vs v" by auto
  show ?thesis
  proof (cases f)
    case (Array_frame js)
    with f(2) Follow ts show ?thesis
      using opened_more [OF ts(2) opens_array_more [of fl js us2 vs v]]
        consumed_follow [OF ts(2) opens_array_close [of fl js us2 vs v]]
      by (auto simp: pda_follow_iff simp del: opened.simps opens.simps consumed.simps(2))
  next
    case (Object_frame m k)
    with f(2) Follow ts show ?thesis
      using opened_more [OF ts(2) opens_object_more [of fl m k us2 vs v]]
        consumed_follow [OF ts(2) opens_object_close [of fl m k us2 vs v]]
      by (auto simp: pda_follow_iff simp del: opened.simps opens.simps consumed.simps(2))
  qed
qed

lemma pda_run_sound:
  assumes "pda_run fl c = Some (v, rest)" "consumed fl c ts"
  shows "\<exists>us. config_tokens c = us @ rest \<and> json_text fl (ts @ us) v"
  using assms
proof (induction fl c arbitrary: ts rule: pda_run.induct)
  case (1 fl c)
  show ?case
  proof (cases "pda_step fl c")
    case None
    with 1(2,3) show ?thesis by (auto simp: pda_run.simps [of fl c] split: config.splits list.splits)
  next
    case (Some c')
    from consumed_step [OF 1(3) this] obtain us where us: "config_tokens c = us @ config_tokens c'"
      "consumed fl c' (ts @ us)" by blast
    with 1(1) [OF Some _ us(2)] 1(2) Some show ?thesis by (auto simp: pda_run.simps [of fl c])
  qed
qed

lemma pda_run_elements:
  assumes "list_all2 (\<lambda>ts j. json_text fl ts j \<and> (\<forall>F rest. pda_run fl (Value F (ts @ rest)) = pda_run fl (Follow F j rest)))
      tss js" and "tss \<noteq> []"
  shows "pda_run fl (Value (Array_frame is # F) (commas tss @ TEnd_array # rest)) =
    pda_run fl (Follow F (JArray (is @ js)) rest)"
  using assms
proof (induction tss arbitrary: js "is" rule: commas.induct)
  case (2 t)
  then obtain j where "js = [j]" "pda_run fl (Value F (t @ rest)) = pda_run fl (Follow F j rest)" for F rest
    by (auto simp: list_all2_Cons1)
  then show ?case by (simp add: pda_follow_def del: pda_run_simps(2))
next
  case (3 t u ts)
  then obtain j js' where js: "js = j # js'"
    and run: "pda_run fl (Value F (t @ rest)) = pda_run fl (Follow F j rest)" for F rest
    by (auto simp: list_all2_Cons1)
  with 3 show ?case using 3(1) [of js' "is @ [j]"] by (simp add: run pda_follow_def del: pda_run_simps(2))
qed simp

lemma pda_run_members:
  assumes "list_all2 (\<lambda>ts kv. \<exists>vs. ts = TString (fst kv) # TColon # vs \<and> json_text fl vs (snd kv) \<and>
        (\<forall>F rest. pda_run fl (Value F (vs @ rest)) = pda_run fl (Follow F (snd kv) rest))) tss kvs" and "tss \<noteq> []"
  shows "\<exists>k vs. commas tss = TString k # TColon # vs \<and>
    pda_run fl (Value (Object_frame m k # F) (vs @ TEnd_object # rest)) =
    pda_run fl (Follow F (JObject (fold (\<lambda>(k, v). object_set k v) kvs m)) rest)"
  using assms
proof (induction tss arbitrary: kvs m rule: commas.induct)
  case (2 t)
  then obtain k v vs where "kvs = [(k, v)]" "t = TString k # TColon # vs"
    and "pda_run fl (Value F (vs @ rest)) = pda_run fl (Follow F v rest)" for F rest
    by (fastforce simp: list_all2_Cons1)
  then show ?case by (simp add: pda_follow_def del: pda_run_simps(2))
next
  case (3 t u ts)
  then obtain k v vs kvs' where kvs: "kvs = (k, v) # kvs'" and t: "t = TString k # TColon # vs"
    and run: "pda_run fl (Value F (vs @ rest)) = pda_run fl (Follow F v rest)" for F rest
    by (fastforce simp: list_all2_Cons1)
  from 3(1) [of kvs' "object_set k v m"] 3(2) kvs obtain k' vs' where k': "commas (u # ts) = TString k' # TColon # vs'"
    and *: "pda_run fl (Value (Object_frame (object_set k v m) k' # F) (vs' @ TEnd_object # rest)) =
    pda_run fl (Follow F (JObject (fold (\<lambda>(k, v). object_set k v) kvs' (object_set k v m))) rest)"
    by auto
  then show ?case by (simp add: kvs t k' run pda_follow_def pda_key_def del: pda_run_simps(2))
qed simp

lemma pda_run_complete:
  "json_text fl ts j \<Longrightarrow> pda_run fl (Value F (ts @ rest)) = pda_run fl (Follow F j rest)"
proof (induction arbitrary: F rest rule: json_text.induct)
  case (scalar t j)
  then have "pda_value fl F ([t] @ rest) = Some (Follow F j rest)" unfolding pda_value_iff by auto
  then show ?case by simp
next
  case (array tss js)
  show ?case
  proof (cases tss)
    case Nil
    with array show ?thesis by (simp add: pda_value_def pda_array_def)
  next
    case (Cons t tss')
    with array have "json_text fl t (hd js)" by (auto simp: list_all2_Cons1)
    then obtain x xs where "commas tss = x # xs" "x \<noteq> TEnd_array"
      using Cons by (cases tss') (auto elim: json_text_head)
    then have "pda_value fl F ((TBegin_array # commas tss @ [TEnd_array]) @ rest) =
        Some (Value (Array_frame [] # F) (commas tss @ TEnd_array # rest))"
      unfolding pda_value_iff by auto
    with pda_run_elements [OF array, of "[]" F rest] Cons show ?thesis
      unfolding pda_run_simps(2) [of _ _ "(_ # _) @ _"] by simp
  qed
next
  case (object tss kvs)
  show ?case
  proof (cases "tss = []")
    case True
    with object show ?thesis by (simp add: pda_value_def pda_object_def members_def)
  next
    case False
    from pda_run_members [OF object False, of "[]" F rest] obtain k vs where k: "commas tss = TString k # TColon # vs"
      and *: "pda_run fl (Value (Object_frame [] k # F) (vs @ TEnd_object # rest)) = pda_run fl (Follow F (JObject (members kvs)) rest)"
      by (auto simp: members_def)
    from k have "pda_value fl F ((TBegin_object # commas tss @ [TEnd_object]) @ rest) =
        Some (Value (Object_frame [] k # F) (vs @ TEnd_object # rest))"
      unfolding pda_value_iff by auto
    with * show ?thesis unfolding pda_run_simps(2) [of _ _ "(_ # _) @ _"] by simp
  qed
qed

lemma pda_run_grammar:
  "pda_run fl (Value [] ts) = Some (j, rest) \<longleftrightarrow> (\<exists>us. ts = us @ rest \<and> json_text fl us j)"
  using pda_run_sound [of fl "Value [] ts" j rest "[]"] pda_run_complete [of fl _ j "[]" rest]
  by (auto simp del: pda_run_simps(2))

end
