(* ===== verification/Json_Numbers.thy ===== *)
theory Json_Numbers
  imports Json_Strings Json_Grammar
begin

text \<open>
  The numbers the lexer of the JSON library accepts: the grammar of the standard, the automaton behind the
  labels and jumps of \<^verbatim>\<open>scan_number\<close>, their equivalence, and that the scan takes the longest run of the
  automaton.
\<close>

subsection \<open>Grammar\<close>

definition digit_octet :: "nat \<Rightarrow> bool" where
  "digit_octet b \<longleftrightarrow> 0x30 \<le> b \<and> b \<le> 0x39"

definition json_digits :: "octets \<Rightarrow> bool" where
  "json_digits bs \<longleftrightarrow> bs \<noteq> [] \<and> list_all digit_octet bs"

definition json_int :: "octets \<Rightarrow> bool" where
  "json_int bs \<longleftrightarrow> bs = [0x30] \<or> (json_digits bs \<and> hd bs \<noteq> 0x30)"

definition json_frac :: "octets \<Rightarrow> bool" where
  "json_frac bs \<longleftrightarrow> bs = [] \<or> (\<exists>ds. bs = 0x2E # ds \<and> json_digits ds)"

definition json_exp :: "octets \<Rightarrow> bool" where
  "json_exp bs \<longleftrightarrow> bs = [] \<or>
     (\<exists>e s ds. bs = e # s @ ds \<and> e \<in> {0x65, 0x45} \<and> s \<in> {[], [0x2B], [0x2D]} \<and> json_digits ds)"

definition json_number :: "octets \<Rightarrow> bool" where
  "json_number bs \<longleftrightarrow>
     (\<exists>m i f x. bs = m @ i @ f @ x \<and> m \<in> {[], [0x2D]} \<and> json_int i \<and> json_frac f \<and> json_exp x)"

subsection \<open>Automaton\<close>

definition number_delta :: "number_state \<Rightarrow> nat \<Rightarrow> number_state option" where
  "number_delta st b =
     (case st of
        scan_number_minus \<Rightarrow>
          if b = 0x30 then Some scan_number_zero else if digit_octet b then Some scan_number_any1 else None
      | scan_number_zero \<Rightarrow>
          if b = 0x2E then Some scan_number_decimal1
          else if b = 0x65 \<or> b = 0x45 then Some scan_number_exponent else None
      | scan_number_any1 \<Rightarrow>
          if digit_octet b then Some scan_number_any1 else if b = 0x2E then Some scan_number_decimal1
          else if b = 0x65 \<or> b = 0x45 then Some scan_number_exponent else None
      | scan_number_decimal1 \<Rightarrow> if digit_octet b then Some scan_number_decimal2 else None
      | scan_number_decimal2 \<Rightarrow>
          if digit_octet b then Some scan_number_decimal2
          else if b = 0x65 \<or> b = 0x45 then Some scan_number_exponent else None
      | scan_number_exponent \<Rightarrow>
          if b = 0x2B \<or> b = 0x2D then Some scan_number_sign
          else if digit_octet b then Some scan_number_any2 else None
      | scan_number_sign \<Rightarrow> if digit_octet b then Some scan_number_any2 else None
      | scan_number_any2 \<Rightarrow> if digit_octet b then Some scan_number_any2 else None)"

definition number_final :: "number_state \<Rightarrow> bool" where
  "number_final st \<longleftrightarrow> st \<in> {scan_number_zero, scan_number_any1, scan_number_decimal2, scan_number_any2}"

fun number_run :: "number_state \<Rightarrow> octets \<Rightarrow> number_state option" where
  "number_run st [] = Some st"
| "number_run st (b # bs) = (case number_delta st b of None \<Rightarrow> None | Some st' \<Rightarrow> number_run st' bs)"

definition number_start :: "nat \<Rightarrow> number_state option" where
  "number_start b =
     (if b = 0x2D then Some scan_number_minus
      else if b = 0x30 then Some scan_number_zero
      else if digit_octet b then Some scan_number_any1 else None)"

fun number_accepts :: "number_state \<Rightarrow> octets \<Rightarrow> bool" where
  "number_accepts st [] \<longleftrightarrow> number_final st"
| "number_accepts st (b # bs) \<longleftrightarrow> (case number_delta st b of None \<Rightarrow> False | Some st' \<Rightarrow> number_accepts st' bs)"

lemma number_accepts_run: "number_accepts st bs \<longleftrightarrow> (\<exists>st'. number_run st bs = Some st' \<and> number_final st')"
  by (induction st bs rule: number_accepts.induct) (auto split: option.splits)

subsection \<open>The languages of the states\<close>

lemma accepts_any2: "number_accepts scan_number_any2 bs \<longleftrightarrow> list_all digit_octet bs"
  by (induction bs) (simp_all add: number_delta_def number_final_def)

lemma accepts_sign: "number_accepts scan_number_sign bs \<longleftrightarrow> json_digits bs"
  by (cases bs) (simp_all add: number_delta_def number_final_def accepts_any2 json_digits_def)

lemma digit_octet_not [simp]: "\<not> digit_octet 0x2B" "\<not> digit_octet 0x2D" "\<not> digit_octet 0x2E" "\<not> digit_octet 0x65"
  "\<not> digit_octet 0x45"
  by (simp_all add: digit_octet_def)

lemma split_Cons2:
  "(\<exists>u v. b # bs = u @ v \<and> P u v) \<longleftrightarrow> P [] (b # bs) \<or> (\<exists>u v. bs = u @ v \<and> P (b # u) v)"
  by (auto simp: Cons_eq_append_conv)

lemma accepts_exponent:
  "number_accepts scan_number_exponent bs \<longleftrightarrow> (\<exists>s ds. bs = s @ ds \<and> s \<in> {[], [0x2B], [0x2D]} \<and> json_digits ds)"
proof (cases bs)
  case Nil
  then show ?thesis by (simp add: number_final_def json_digits_def)
next
  case (Cons b bs')
  show ?thesis
  proof (cases "b = 0x2B \<or> b = 0x2D")
    case True
    then have "number_accepts scan_number_exponent bs \<longleftrightarrow> json_digits bs'"
      using Cons by (simp add: number_delta_def accepts_sign)
    with True show ?thesis unfolding Cons split_Cons2 by (auto simp: json_digits_def)
  next
    case False
    then have "number_accepts scan_number_exponent bs \<longleftrightarrow> json_digits bs"
      using Cons by (simp add: number_delta_def accepts_any2 json_digits_def)
    with False Cons show ?thesis by auto
  qed
qed

lemma accepts_exponent_char:
  "e \<in> {0x65, 0x45} \<Longrightarrow> json_exp (e # bs) \<longleftrightarrow> number_accepts scan_number_exponent bs"
  by (auto simp: json_exp_def accepts_exponent)

lemma json_exp_head: "json_exp (b # bs) \<Longrightarrow> b \<in> {0x65, 0x45}"
  by (auto simp: json_exp_def)

lemma exp_not_digit: "digit_octet b \<Longrightarrow> \<not> json_exp (b # bs)" "digit_octet b \<Longrightarrow> \<not> json_frac (b # bs)"
  by (auto simp: json_frac_def dest: json_exp_head)

lemma split_Cons3:
  "(\<exists>u v w. b # bs = u @ v @ w \<and> P u v w) \<longleftrightarrow>
     (\<exists>v w. b # bs = v @ w \<and> P [] v w) \<or> (\<exists>u v w. bs = u @ v @ w \<and> P (b # u) v w)"
  (is "?l = ?r")
proof
  assume ?l
  then obtain u v w where "b # bs = u @ v @ w" "P u v w" by blast
  then show ?r by (cases u) auto
next
  assume ?r
  then show ?l by (metis append_Cons append_Nil)
qed

lemma accepts_decimal2:
  "number_accepts scan_number_decimal2 bs \<longleftrightarrow> (\<exists>ds x. bs = ds @ x \<and> list_all digit_octet ds \<and> json_exp x)"
proof (induction bs)
  case Nil
  then show ?case by (simp add: number_final_def json_exp_def)
next
  case (Cons b bs)
  show ?case
  proof (cases "digit_octet b")
    case True
    then have "number_accepts scan_number_decimal2 (b # bs) \<longleftrightarrow> (\<exists>ds x. bs = ds @ x \<and> list_all digit_octet ds \<and> json_exp x)"
      using Cons.IH by (simp add: number_delta_def)
    with True show ?thesis unfolding split_Cons2 by (simp add: exp_not_digit)
  next
    case False
    then have "number_accepts scan_number_decimal2 (b # bs) \<longleftrightarrow> json_exp (b # bs)"
      using accepts_exponent_char [of b bs] json_exp_head [of b bs] by (auto simp: number_delta_def)
    with False show ?thesis unfolding split_Cons2 by simp
  qed
qed

lemma accepts_decimal1:
  "number_accepts scan_number_decimal1 bs \<longleftrightarrow> (\<exists>ds x. bs = ds @ x \<and> json_digits ds \<and> json_exp x)"
proof (cases bs)
  case Nil
  then show ?thesis by (simp add: number_final_def json_digits_def)
next
  case (Cons b bs')
  then have "number_accepts scan_number_decimal1 bs \<longleftrightarrow>
      digit_octet b \<and> (\<exists>ds x. bs' = ds @ x \<and> list_all digit_octet ds \<and> json_exp x)"
    by (simp add: number_delta_def accepts_decimal2)
  with Cons show ?thesis unfolding Cons split_Cons2 by (auto simp: json_digits_def)
qed

lemma accepts_zero:
  "number_accepts scan_number_zero bs \<longleftrightarrow> (\<exists>f x. bs = f @ x \<and> json_frac f \<and> json_exp x)"
proof (cases bs)
  case Nil
  then show ?thesis by (simp add: number_final_def json_exp_def json_frac_def)
next
  case (Cons b bs')
  show ?thesis
  proof (cases "b = 0x2E")
    case True
    then have "number_accepts scan_number_zero bs \<longleftrightarrow> (\<exists>ds x. bs' = ds @ x \<and> json_digits ds \<and> json_exp x)"
      using Cons by (simp add: number_delta_def accepts_decimal1)
    with True Cons show ?thesis by (auto simp: json_frac_def Cons_eq_append_conv dest: json_exp_head)
  next
    case False
    then have "number_accepts scan_number_zero bs \<longleftrightarrow> json_exp bs"
      using Cons accepts_exponent_char [of b bs'] json_exp_head [of b bs'] by (auto simp: number_delta_def)
    with False Cons show ?thesis by (auto simp: json_frac_def)
  qed
qed

lemma accepts_any1:
  "number_accepts scan_number_any1 bs \<longleftrightarrow>
     (\<exists>ds f x. bs = ds @ f @ x \<and> list_all digit_octet ds \<and> json_frac f \<and> json_exp x)"
proof (induction bs)
  case Nil
  then show ?case by (simp add: number_final_def json_exp_def json_frac_def)
next
  case (Cons b bs)
  show ?case
  proof (cases "digit_octet b")
    case True
    then have "number_accepts scan_number_any1 (b # bs) \<longleftrightarrow>
        (\<exists>ds f x. bs = ds @ f @ x \<and> list_all digit_octet ds \<and> json_frac f \<and> json_exp x)"
      using Cons.IH by (simp add: number_delta_def)
    with True show ?thesis unfolding split_Cons3 split_Cons2 by (simp add: exp_not_digit)
  next
    case False
    then have "number_accepts scan_number_any1 (b # bs) \<longleftrightarrow> number_accepts scan_number_zero (b # bs)"
      by (simp add: number_delta_def)
    with False show ?thesis unfolding accepts_zero split_Cons3 by simp
  qed
qed

lemma accepts_minus:
  "number_accepts scan_number_minus bs \<longleftrightarrow> (\<exists>i f x. bs = i @ f @ x \<and> json_int i \<and> json_frac f \<and> json_exp x)"
proof (cases bs)
  case Nil
  then show ?thesis by (simp add: number_final_def json_int_def json_digits_def)
next
  case (Cons b bs')
  show ?thesis
  proof (cases "b = 0x30")
    case True
    then have "number_accepts scan_number_minus bs \<longleftrightarrow> (\<exists>f x. bs' = f @ x \<and> json_frac f \<and> json_exp x)"
      using Cons by (simp add: number_delta_def accepts_zero)
    with True show ?thesis unfolding Cons split_Cons3 split_Cons2 by (auto simp: json_int_def json_digits_def)
  next
    case False
    then have "number_accepts scan_number_minus bs \<longleftrightarrow>
        digit_octet b \<and> (\<exists>ds f x. bs' = ds @ f @ x \<and> list_all digit_octet ds \<and> json_frac f \<and> json_exp x)"
      using Cons by (simp add: number_delta_def accepts_any1)
    with False show ?thesis unfolding Cons split_Cons3 split_Cons2 by (auto simp: json_int_def json_digits_def)
  qed
qed

text \<open>The automaton accepts the numbers of the grammar.\<close>

lemma number_automaton:
  "json_number bs \<longleftrightarrow>
     (case bs of
        [] \<Rightarrow> False
      | b # bs' \<Rightarrow> (case number_start b of None \<Rightarrow> False | Some st \<Rightarrow> number_accepts st bs'))"
proof -
  have minus: "json_number bs \<longleftrightarrow> number_accepts scan_number_minus bs \<or> (\<exists>bs'. bs = 0x2D # bs' \<and> number_accepts scan_number_minus bs')"
    unfolding json_number_def accepts_minus by auto (metis append_Nil, metis append_Cons append_Nil)
  show ?thesis unfolding minus
    by (cases bs) (auto simp: number_start_def number_delta_def number_final_def split: option.splits)
qed

subsection \<open>The scan runs the automaton\<close>

definition localized :: "char \<Rightarrow> nat \<Rightarrow> nat" where
  "localized dp b = (if b = 0x2E then byte_val dp else b)"

lemma localized_other [simp]: "b \<noteq> 0x2E \<Longrightarrow> localized dp b = b"
  by (simp add: localized_def)

fun number_kind :: "number_state \<Rightarrow> token_type \<Rightarrow> octets \<Rightarrow> token_type" where
  "number_kind st t [] = t"
| "number_kind st t (b # bs) =
     (case number_delta st b of None \<Rightarrow> t | Some st' \<Rightarrow> number_kind st' (enter_type st' t) bs)"

lemma number_step_delta:
  assumes "current (lexer_get l) = int b"
  shows "number_step st l =
    (case number_delta st b of
       Some st' \<Rightarrow> Goto st' (if b = 0x2E then (lexer_get l)\<lparr>token_buffer := token_buffer (lexer_get l) @ [decimal_point_char l]\<rparr>
                         else lexer_add (int b) (lexer_get l))
     | None \<Rightarrow> if number_final st then Scan_number_done (lexer_get l)
               else Number_error (case st of scan_number_minus \<Rightarrow> msg_minus | scan_number_decimal1 \<Rightarrow> msg_point
                      | scan_number_exponent \<Rightarrow> msg_exponent | _ \<Rightarrow> msg_sign) (lexer_get l))"
proof -
  have digit: "is_digit_val (int b) \<longleftrightarrow> digit_octet b" by (simp add: is_digit_val_def digit_octet_def)
  show ?thesis
    by (cases st) (simp_all add: number_step_defs number_delta_def number_final_def goto_add_def goto_point_def
        is_exponent_val_def digit assms)
qed

lemma number_step_end:
  assumes "current (lexer_get l) = eof"
  shows "number_step st l =
    (if number_final st then Scan_number_done (lexer_get l)
     else Number_error (case st of scan_number_minus \<Rightarrow> msg_minus | scan_number_decimal1 \<Rightarrow> msg_point
            | scan_number_exponent \<Rightarrow> msg_exponent | _ \<Rightarrow> msg_sign) (lexer_get l))"
  using assms
  by (cases st) (simp_all add: number_step_defs number_final_def is_digit_val_def is_exponent_val_def)

lemma point_reads:
  assumes "lexer_ok l"
  shows "reads l [] [byte_val c] (l\<lparr>token_buffer := token_buffer l @ [c]\<rparr>)"
  using assms by (simp add: reads_def lexer_ok_def left_octets_def lexer_rest_def)

lemma number_loop_run:
  assumes "number_run st bs = Some st'" "left_octets l = bs @ r" "lexer_ok l"
  shows "\<exists>l'. reads l bs (map (localized (decimal_point_char l)) bs) l' \<and>
    number_loop fl t st l = number_loop fl (number_kind st t bs) st' l'"
  using assms
proof (induction bs arbitrary: st t l)
  case Nil
  then show ?case by (auto intro: reads_refl)
next
  case (Cons b bs)
  from Cons.prems(1) obtain st1 where st1: "number_delta st b = Some st1" "number_run st1 bs = Some st'"
    by (auto split: option.splits)
  have left: "left_octets l = b # (bs @ r)" using Cons.prems(2) by simp
  note get = get_reads_byte [OF Cons.prems(3) left]
  define l1 where "l1 = (if b = 0x2E then (lexer_get l)\<lparr>token_buffer := token_buffer (lexer_get l) @ [decimal_point_char l]\<rparr>
                         else lexer_add (int b) (lexer_get l))"
  have step: "number_step st l = Goto st1 l1" using number_step_delta [OF get(2)] st1(1) by (simp add: l1_def)
  have reads: "reads l [b] [localized (decimal_point_char l) b] l1"
    using reads_trans [OF get(1) point_reads [OF reads_ok [OF get(1)], of "decimal_point_char l"]] add_reads2 [OF get(1,4)]
    by (auto simp: l1_def localized_def)
  have dp: "decimal_point_char l1 = decimal_point_char l" by (simp add: l1_def lexer_add_def)
  have "left_octets l1 = bs @ r" using reads left by (simp add: reads_def)
  from Cons.IH [OF st1(2) this reads_ok [OF reads], of "enter_type st1 t"] obtain l' where
    "reads l1 bs (map (localized (decimal_point_char l1)) bs) l'"
    "number_loop fl (enter_type st1 t) st1 l1 = number_loop fl (number_kind st1 (enter_type st1 t) bs) st' l'" by blast
  with reads_trans [OF reads this(1)] st1(1) step dp show ?case
    by (auto simp: number_loop.simps [of fl t st l])
qed

definition stops :: "number_state \<Rightarrow> octets \<Rightarrow> bool" where
  "stops st r \<longleftrightarrow> r = [] \<or> number_delta st (hd r) = None"

lemma number_loop_stops:
  assumes "stops st (left_octets l)" "lexer_ok l"
  shows "number_final st \<Longrightarrow> number_loop fl t st l = number_done fl t (lexer_get l)"
    and "\<not> number_final st \<Longrightarrow> fst (number_loop fl t st l) = parse_error"
proof -
  have "number_final st \<and> number_step st l = Scan_number_done (lexer_get l) \<or>
      \<not> number_final st \<and> (\<exists>msg. number_step st l = Number_error msg (lexer_get l))"
  proof (cases "left_octets l")
    case Nil
    then have "current (lexer_get l) = eof" using get_current_left [OF assms(2)] by simp
    from number_step_end [OF this, of st] show ?thesis by simp
  next
    case (Cons b bs)
    from number_step_delta [OF get_reads_byte(2) [OF assms(2) Cons], of st] assms(1) Cons
    show ?thesis by (simp add: stops_def)
  qed
  then show "number_final st \<Longrightarrow> number_loop fl t st l = number_done fl t (lexer_get l)"
    "\<not> number_final st \<Longrightarrow> fst (number_loop fl t st l) = parse_error"
    by (auto simp: number_loop.simps [of fl t st l])
qed

text \<open>Every input has a longest run.\<close>

lemma longest_run: "\<exists>bs r st'. s = bs @ r \<and> number_run st bs = Some st' \<and> stops st' r"
proof (induction s arbitrary: st)
  case Nil
  show ?case by (simp add: stops_def)
next
  case (Cons b s)
  show ?case
  proof (cases "number_delta st b")
    case None
    then have "b # s = [] @ b # s \<and> number_run st [] = Some st \<and> stops st (b # s)" by (simp add: stops_def)
    then show ?thesis by blast
  next
    case (Some st1)
    from Cons.IH [of st1] obtain bs r st' where "s = bs @ r" "number_run st1 bs = Some st'" "stops st' r" by blast
    with Some have "b # s = (b # bs) @ r \<and> number_run st (b # bs) = Some st' \<and> stops st' r" by simp
    then show ?thesis by blast
  qed
qed

subsection \<open>The value of a number\<close>

definition number_type :: "octets \<Rightarrow> token_type" where
  "number_type bs =
     (if list_ex (\<lambda>b. b = 0x2E \<or> b = 0x65 \<or> b = 0x45) bs then value_float_tok
      else if hd bs = 0x2D then value_integer_tok else value_unsigned_tok)"

text \<open>Integers that do not fit into 64 bits become floating-point numbers.\<close>

definition number_tok :: "'f float_ops \<Rightarrow> char \<Rightarrow> octets \<Rightarrow> 'f tok" where
  "number_tok fl dp bs =
     (let buf = map (char_of \<circ> localized dp) bs
      in if number_type bs = value_unsigned_tok \<and> dec_val buf < 2 ^ 64 then TUnsigned (dec_val buf)
         else if number_type bs = value_integer_tok \<and> dec_val (tl buf) \<le> 2 ^ 63 then TInteger (- int (dec_val (tl buf)))
         else TFloat (strtod fl buf))"

lemma number_kind_type:
  "number_run st bs = Some st' \<Longrightarrow>
     number_kind st t bs = (if list_ex (\<lambda>b. b = 0x2E \<or> b = 0x65 \<or> b = 0x45) bs then value_float_tok else t)"
proof (induction bs arbitrary: st t)
  case (Cons b bs)
  then obtain st1 where st1: "number_delta st b = Some st1" "number_run st1 bs = Some st'" by (auto split: option.splits)
  then have "enter_type st1 t = (if b = 0x2E \<or> b = 0x65 \<or> b = 0x45 then value_float_tok else t)"
    by (cases st) (auto simp: number_delta_def enter_type_def split: if_splits)
  with Cons.IH [OF st1(2)] st1(1) show ?case by simp
qed simp

lemma octets_of_chars: "octets_of s = x \<Longrightarrow> s = map char_of x"
  by (induction s arbitrary: x) (auto simp: byte_val_def)

lemma unget_get_ok: "lexer_ok l \<Longrightarrow> lexer_ok (lexer_unget (lexer_get l))"
  using get_current [of l] by (auto simp: lexer_ok_def get_fields split: list.splits if_splits)

lemma value_updates [simp]:
  "lexer_ok (l\<lparr>value_unsigned := n\<rparr>) = lexer_ok l" "left_octets (l\<lparr>value_unsigned := n\<rparr>) = left_octets l"
  "lexer_ok (l\<lparr>value_integer := i\<rparr>) = lexer_ok l" "left_octets (l\<lparr>value_integer := i\<rparr>) = left_octets l"
  "lexer_ok (l\<lparr>value_float := f\<rparr>) = lexer_ok l" "left_octets (l\<lparr>value_float := f\<rparr>) = left_octets l"
  by (simp_all add: lexer_ok_def left_octets_def lexer_rest_def)

lemma number_done_tok:
  assumes "octets_of (token_buffer l) = map (localized dp) bs" "t = number_type bs" "lexer_ok l"
  shows "\<exists>t' l'. number_done fl t (lexer_get l) = (t', l') \<and> t' \<noteq> parse_error \<and> tok_of t' l' = number_tok fl dp bs \<and>
    lexer_ok l' \<and> left_octets l' = left_octets l \<and> position l' = position (lexer_unget (lexer_get l)) \<and>
    decimal_point_char l' = decimal_point_char l"
proof -
  have "token_buffer l = map (char_of \<circ> localized dp) bs" using octets_of_chars [OF assms(1)] by simp
  moreover have "lexer_ok (lexer_unget (lexer_get l))" using unget_get_ok [OF assms(3)] .
  moreover have "left_octets (lexer_unget (lexer_get l)) = left_octets l" by (simp add: left_octets_def unget_get_rest)
  ultimately show ?thesis using assms(2)
    by (auto simp: number_done_def number_tok_def tok_of_def Let_def)
qed

lemma scan_number_run:
  assumes "lexer_ok l" "current l = int b" "number_start b = Some st" "left_octets l = bs @ r"
    "number_run st bs = Some st'" "stops st' r"
  shows "number_final st' \<Longrightarrow> \<exists>t' l'. scan_number fl l = (t', l') \<and> t' \<noteq> parse_error \<and>
      tok_of t' l' = number_tok fl (decimal_point_char l) (b # bs) \<and> lexer_ok l' \<and> left_octets l' = r \<and>
      chars_read_total (position l) \<le> chars_read_total (position l') \<and>
    decimal_point_char l' = decimal_point_char l"
    and "\<not> number_final st' \<Longrightarrow> fst (scan_number fl l) = parse_error"
proof -
  define l0 where "l0 = lexer_add (current (lexer_reset l)) (lexer_reset l)"
  define t where "t = (if b = 0x2D then value_integer_tok else value_unsigned_tok)"
  have b: "b < 256" "b \<noteq> 0x2E" using assms(2,3) by (auto simp: number_start_def digit_octet_def split: if_splits)
  have scan: "scan_number fl l = number_loop fl t st l0"
    using assms(2,3) by (auto simp: scan_number_def number_start_def t_def l0_def Let_def split: if_splits)
  have l0: "reads (lexer_reset l) [] [b] l0" using add_reads [of "lexer_reset l" "int b"] assms(1,2) b(1) by (simp add: l0_def)
  have dp: "decimal_point_char l0 = decimal_point_char l" by (simp add: l0_def lexer_add_def lexer_reset_def)
  have "left_octets l0 = bs @ r" using l0 assms(4) by (simp add: reads_def)
  from number_loop_run [OF assms(5) this reads_ok [OF l0], of fl t] obtain l1 where
    l1: "reads l0 bs (map (localized (decimal_point_char l)) bs) l1"
    "number_loop fl t st l0 = number_loop fl (number_kind st t bs) st' l1" by (auto simp: dp)
  note reads = reads_trans [OF l0 l1(1)]
  then have left: "left_octets l1 = r" using assms(4) by (simp add: reads_def)
  have stop: "stops st' (left_octets l1)" using assms(6) left by simp
  note loop = number_loop_stops [OF stop reads_ok [OF l1(1)], of fl "number_kind st t bs"]
  show "fst (scan_number fl l) = parse_error" if "\<not> number_final st'" using loop(2) [OF that] scan l1(2) by simp
  assume final: "number_final st'"
  have buf: "octets_of (token_buffer l1) = map (localized (decimal_point_char l)) (b # bs)"
    using reads b(2) by (simp add: reads_def)
  have kind: "number_kind st t bs = number_type (b # bs)"
    unfolding number_kind_type [OF assms(5)] using assms(3)
    by (auto simp: number_type_def t_def number_start_def digit_octet_def split: if_splits)
  from number_done_tok [OF buf kind reads_ok [OF l1(1)], of fl] loop(1) [OF final] scan l1(2) reads left
  show "\<exists>t' l'. scan_number fl l = (t', l') \<and> t' \<noteq> parse_error \<and>
      tok_of t' l' = number_tok fl (decimal_point_char l) (b # bs) \<and> lexer_ok l' \<and> left_octets l' = r \<and>
      chars_read_total (position l) \<le> chars_read_total (position l') \<and>
    decimal_point_char l' = decimal_point_char l"
    by (auto simp: reads_def)
qed

lemma scan_number_sound:
  assumes "lexer_ok l" "current l = int b" "number_start b \<noteq> None" "scan_number fl l = (t, l')" "t \<noteq> parse_error"
  shows "\<exists>bs. left_octets l = bs @ left_octets l' \<and> json_number (b # bs) \<and>
    tok_of t l' = number_tok fl (decimal_point_char l) (b # bs) \<and> lexer_ok l' \<and>
    chars_read_total (position l) \<le> chars_read_total (position l') \<and>
    decimal_point_char l' = decimal_point_char l"
proof -
  obtain st where st: "number_start b = Some st" using assms(3) by blast
  obtain bs r st' where run: "left_octets l = bs @ r" "number_run st bs = Some st'" "stops st' r"
    using longest_run by blast
  note scan = scan_number_run [OF assms(1,2) st run, of fl]
  with assms(4,5) have "number_final st'" by auto
  moreover from this run(2) st have "json_number (b # bs)" by (auto simp: number_automaton number_accepts_run)
  ultimately show ?thesis using scan(1) assms(4) run(1) by auto
qed

definition number_delimiter :: "octets \<Rightarrow> bool" where
  "number_delimiter r \<longleftrightarrow> r = [] \<or> \<not> (digit_octet (hd r) \<or> hd r \<in> {0x2E, 0x65, 0x45})"

lemma number_delimiter_stops: "number_delimiter r \<Longrightarrow> number_final st \<Longrightarrow> stops st r"
  by (auto simp: number_delimiter_def number_final_def stops_def number_delta_def)

lemma scan_number_complete:
  assumes "lexer_ok l" "current l = int b" "json_number (b # bs)" "left_octets l = bs @ r" "number_delimiter r"
  shows "\<exists>t l'. scan_number fl l = (t, l') \<and> t \<noteq> parse_error \<and>
    tok_of t l' = number_tok fl (decimal_point_char l) (b # bs) \<and> lexer_ok l' \<and> left_octets l' = r \<and>
    chars_read_total (position l) \<le> chars_read_total (position l') \<and>
    decimal_point_char l' = decimal_point_char l"
proof -
  from assms(3) obtain st st' where "number_start b = Some st" "number_run st bs = Some st'" "number_final st'"
    by (auto simp: number_automaton number_accepts_run split: option.splits)
  with scan_number_run(1) [OF assms(1,2) this(1) assms(4) this(2)] number_delimiter_stops [OF assms(5)]
  show ?thesis by blast
qed

text \<open>
  Where no character follows that could continue a number, \<^verbatim>\<open>scan_number\<close> succeeds exactly on the numbers
  of the JSON grammar (no leading zero, digits after the point and in the exponent), consumes all of the
  number and yields its value: an unsigned or a negative integer when it fits into 64 bits, else a
  floating-point number.
\<close>

theorem scan_number_correct:
  assumes "lexer_ok l" "current l = int b" "number_start b \<noteq> None" "number_delimiter r"
  shows "(\<exists>t l'. scan_number fl l = (t, l') \<and> t \<noteq> parse_error \<and> tok_of t l' = k \<and> left_octets l' = r) \<longleftrightarrow>
    (\<exists>bs. left_octets l = bs @ r \<and> json_number (b # bs) \<and> k = number_tok fl (decimal_point_char l) (b # bs))"
proof
  assume "\<exists>t l'. scan_number fl l = (t, l') \<and> t \<noteq> parse_error \<and> tok_of t l' = k \<and> left_octets l' = r"
  then obtain t l' where l': "scan_number fl l = (t, l')" "t \<noteq> parse_error" "tok_of t l' = k" "left_octets l' = r" by blast
  from scan_number_sound [OF assms(1-3) l'(1,2)] l'(3,4)
  show "\<exists>bs. left_octets l = bs @ r \<and> json_number (b # bs) \<and> k = number_tok fl (decimal_point_char l) (b # bs)" by auto
next
  assume "\<exists>bs. left_octets l = bs @ r \<and> json_number (b # bs) \<and> k = number_tok fl (decimal_point_char l) (b # bs)"
  then obtain bs where bs: "left_octets l = bs @ r" "json_number (b # bs)" "k = number_tok fl (decimal_point_char l) (b # bs)"
    by blast
  from scan_number_complete [OF assms(1,2) bs(2,1) assms(4), of fl] bs(3)
  show "\<exists>t l'. scan_number fl l = (t, l') \<and> t \<noteq> parse_error \<and> tok_of t l' = k \<and> left_octets l' = r" by auto
qed

theorem scan_number_correct_witness:
  "let fl = \<lparr>strtod = length, isfinite = (\<lambda>n. n < 400), float_to_int = (\<lambda>n. Some (int n)), float_to_chars = (\<lambda>n. replicate n CHR ''1'')\<rparr>;
       l = (lexer_new CHR ''.'' 0 ''2,'')\<lparr>current := 0x31\<rparr>
   in \<exists>t l'. scan_number fl l = (t, l') \<and> t \<noteq> parse_error \<and> tok_of t l' = TUnsigned 12 \<and> left_octets l' = [0x2C]"
proof -
  let ?fl = "\<lparr>strtod = length, isfinite = (\<lambda>n. n < 400), float_to_int = (\<lambda>n. Some (int n)), float_to_chars = (\<lambda>n. replicate n CHR ''1'')\<rparr>"
  let ?l = "(lexer_new CHR ''.'' (0 :: nat) ''2,'')\<lparr>current := 0x31\<rparr>"
  have l: "left_octets ?l = [0x32] @ [0x2C]" "lexer_ok ?l" "decimal_point_char ?l = CHR ''.''"
    by (simp_all add: lexer_new_def left_octets_def lexer_rest_def lexer_ok_def byte_val_def)
  have "json_number [0x31, 0x32]"
    by (simp add: number_automaton number_start_def digit_octet_def number_delta_def number_final_def)
  moreover have "TUnsigned 12 = number_tok ?fl CHR ''.'' [0x31, 0x32]"
    by (simp add: number_tok_def number_type_def localized_def dec_val_def digit_val_def byte_val_def of_char_of)
  moreover have "current ?l = int 0x31" "number_start 0x31 \<noteq> None" "number_delimiter [0x2C]"
    by (simp_all add: number_start_def digit_octet_def number_delimiter_def)
  ultimately show ?thesis
    using scan_number_correct [OF l(2), of "0x31" "[0x2C]" ?fl "TUnsigned 12"] l(1,3) unfolding Let_def by auto
qed

end
