(* ===== verification/Json_Parser_Correct.thy ===== *)
theory Json_Parser_Correct
  imports Json_Grammar
begin

text \<open>
  The loop of the parser, with the document it builds through pointers, simulates the pushdown machine;
  so \<^verbatim>\<open>basic_json::parse\<close> returns a value exactly when the tokens of the input are a text of the grammar
  that denotes it, and otherwise reports one of two errors.
\<close>

subsection \<open>Frames in the document\<close>

definition frame_json :: "'f frame \<Rightarrow> 'f json \<Rightarrow> 'f json" where
  "frame_json f c = (case f of Array_frame js \<Rightarrow> JArray (js @ [c]) | Object_frame m k \<Rightarrow> JObject (object_set k c m))"

definition frame_step :: "'f frame \<Rightarrow> path_step" where
  "frame_step f = (case f of Array_frame js \<Rightarrow> At (length js) | Object_frame m k \<Rightarrow> Key k)"

primrec plug :: "'f frame list \<Rightarrow> 'f json \<Rightarrow> 'f json" where
  "plug [] c = c"
| "plug (f # F) c = plug F (frame_json f c)"

primrec path_of :: "'f frame list \<Rightarrow> path" where
  "path_of [] = []"
| "path_of (f # F) = path_of F @ [frame_step f]"

primrec refs :: "'f frame list \<Rightarrow> path list" where
  "refs [] = []"
| "refs (f # F) = path_of F # refs F"

lemma json_at_append: "json_at (p @ q) j = (case json_at p j of None \<Rightarrow> None | Some i \<Rightarrow> json_at q i)"
  by (induction p arbitrary: j) (auto split: path_step.split json.split option.split)

lemma json_modify_append: "json_modify (p @ q) f j = json_modify p (json_modify q f) j"
  by (induction p arbitrary: j) (auto split: path_step.split json.split)

lemma map_of_set_values: "map_of (map (\<lambda>(a, w). (a, if a = k then v else w)) m) k = (if k \<in> fst ` set m then Some v else None)"
  by (induction m) auto

lemma object_set_lookup: "map_of (object_set k v m) k = Some v"
  using object_index_keys [of k m] by (simp add: object_set_def map_of_set_values)

lemma object_set_again:
  "map (\<lambda>(a, w). (a, if a = k then f w else w)) (object_set k v m) = object_set k (f v) m"
  by (simp add: object_set_def case_prod_unfold)

lemma frame_at: "json_at [frame_step f] (frame_json f c) = Some c"
  by (cases f) (simp_all add: frame_step_def frame_json_def object_set_lookup)

lemma frame_modify: "json_modify [frame_step f] g (frame_json f c) = frame_json f (g c)"
  by (cases f) (simp_all add: frame_step_def frame_json_def object_set_again)

lemma json_at_plug: "json_at (path_of F) (plug F c) = Some c"
  by (induction F arbitrary: c) (simp_all add: json_at_append frame_at del: json_at.simps(2))

lemma json_modify_plug: "json_modify (path_of F) g (plug F c) = plug F (g c)"
  by (induction F arbitrary: g c) (simp_all add: json_modify_append frame_modify del: json_modify.simps(2))

text \<open>The document when the next value goes into the innermost frame, and when a value has just been put there.\<close>

definition before_value :: "'f frame list \<Rightarrow> 'f dom \<Rightarrow> bool" where
  "before_value F d \<longleftrightarrow>
     ref_stack d = refs F \<and> \<not> errored d \<and>
     (case F of
        [] \<Rightarrow> True
      | Array_frame js # G \<Rightarrow> root d = plug G (JArray js)
      | Object_frame m k # G \<Rightarrow>
          root d = plug G (JObject (object_index k m)) \<and> object_element d = Some (path_of F))"

definition after_value :: "'f frame list \<Rightarrow> 'f json \<Rightarrow> 'f dom \<Rightarrow> bool" where
  "after_value F v d \<longleftrightarrow> ref_stack d = refs F \<and> \<not> errored d \<and> root d = plug F v"

lemma handle_value_frames:
  assumes "before_value F d"
  shows "handle_value v d = Inr (path_of F, d\<lparr>root := plug F v\<rparr>)"
proof (cases F)
  case Nil
  with assms show ?thesis by (simp add: before_value_def handle_value_def)
next
  case (Cons f G)
  show ?thesis
  proof (cases f)
    case (Array_frame js)
    with assms Cons show ?thesis
      by (simp add: before_value_def handle_value_def json_at_plug json_modify_plug array_add_def
          frame_json_def frame_step_def)
  next
    case (Object_frame m k)
    with assms Cons show ?thesis
      by (simp add: before_value_def handle_value_def json_at_plug json_modify_append json_modify_plug
          frame_json_def frame_step_def object_set_def cong: if_cong)
  qed
qed

lemma sax_value_frames: "before_value F d \<Longrightarrow> \<exists>d'. sax_value v d = Inr d' \<and> after_value F v d'"
  by (simp add: sax_value_def handle_value_frames after_value_def) (simp add: before_value_def)

lemma sax_start_array: "before_value F d \<Longrightarrow> \<exists>d'. sax_start (JArray []) d = Inr d' \<and> before_value (Array_frame [] # F) d'"
  by (simp add: sax_start_def handle_value_frames) (simp add: before_value_def)

text \<open>An object is open, before a key or its end.\<close>

definition in_object :: "'f frame list \<Rightarrow> (bytes \<times> 'f json) list \<Rightarrow> 'f dom \<Rightarrow> bool" where
  "in_object F m d \<longleftrightarrow> ref_stack d = path_of F # refs F \<and> \<not> errored d \<and> root d = plug F (JObject m)"

lemma sax_start_object: "before_value F d \<Longrightarrow> \<exists>d'. sax_start (JObject []) d = Inr d' \<and> in_object F [] d'"
  by (simp add: sax_start_def handle_value_frames) (simp add: before_value_def in_object_def)

lemma after_value_object: "after_value (Object_frame m k # F) v d \<longleftrightarrow> in_object F (object_set k v m) d"
  by (simp add: after_value_def in_object_def frame_json_def)

lemma after_value_array: "after_value (Array_frame js # F) v d \<Longrightarrow> before_value (Array_frame (js @ [v]) # F) d"
  by (simp add: after_value_def before_value_def frame_json_def)

lemma sax_key_frames: "in_object F m d \<Longrightarrow> \<exists>d'. sax_key k d = Inr d' \<and> before_value (Object_frame m k # F) d'"
  by (simp add: in_object_def sax_key_def json_at_plug json_modify_plug object_touch_def before_value_def frame_step_def)

lemma sax_end_object: "in_object F m d \<Longrightarrow> \<exists>d'. sax_end d = Inr d' \<and> after_value F (JObject m) d'"
  by (simp add: in_object_def sax_end_def after_value_def)

lemma sax_end_array: "before_value (Array_frame js # F) d \<Longrightarrow> \<exists>d'. sax_end d = Inr d' \<and> after_value F (JArray js) d'"
  by (simp add: before_value_def sax_end_def after_value_def)

subsection \<open>The simulation\<close>

abbreviation parser_tok :: "'f parser \<Rightarrow> 'f tok" where
  "parser_tok p \<equiv> tok_of (last_token p) (m_lexer p)"

abbreviation ahead :: "'f float_ops \<Rightarrow> 'f parser \<Rightarrow> 'f tok list" where
  "ahead fl p \<equiv> json_tokens fl (m_lexer p)"

definition tokens_from :: "'f float_ops \<Rightarrow> 'f parser \<Rightarrow> 'f tok list" where
  "tokens_from fl p = (if final_tok (parser_tok p) then [parser_tok p] else parser_tok p # ahead fl p)"

lemma ahead_get_token: "ahead fl p = tokens_from fl (get_token fl p)"
  by (subst json_tokens.simps) (simp add: tokens_from_def get_token_fields Let_def)

primrec sim :: "'f float_ops \<Rightarrow> 'f config \<Rightarrow> 'f parse_state \<Rightarrow> bool" where
  "sim fl (Value F ts) s \<longleftrightarrow>
     \<not> skip_to_state_evaluation s \<and> states s = map (\<lambda>f. case f of Array_frame _ \<Rightarrow> True | _ \<Rightarrow> False) F \<and>
     before_value F (p_dom s) \<and> ts = tokens_from fl (p_parser s)"
| "sim fl (Follow F v ts) s \<longleftrightarrow>
     skip_to_state_evaluation s \<and> states s = map (\<lambda>f. case f of Array_frame _ \<Rightarrow> True | _ \<Rightarrow> False) F \<and>
     after_value F v (p_dom s) \<and> ts = ahead fl (p_parser s)"

definition parse_ids :: "nat set" where
  "parse_ids = {101, 406}"

definition step_rejects :: "bool \<Rightarrow> 'f parse_next res \<Rightarrow> bool" where
  "step_rejects al r \<longleftrightarrow>
     (if al then \<exists>n\<in>parse_ids. \<exists>msg. r = Inl (Json_exception n msg)
      else \<exists>s. r = Inr (Parse_return False s) \<and> errored (p_dom s))"

definition run_rejects :: "bool \<Rightarrow> (bool \<times> 'f parse_state) res \<Rightarrow> bool" where
  "run_rejects al r \<longleftrightarrow>
     (if al then \<exists>n\<in>parse_ids. \<exists>msg. r = Inl (Json_exception n msg)
      else \<exists>s. r = Inr (False, s) \<and> errored (p_dom s))"

lemma parse_fail_rejects [simp]: "step_rejects al (parse_fail al e s)"
  by (simp add: step_rejects_def parse_fail_def sax_parse_error_def syntax_error_def parse_error_create_def parse_ids_def)

lemma run_rejects_step: "step_rejects al (parse_step fl al s) \<Longrightarrow> run_rejects al (sax_parse_internal fl al s)"
  by (subst sax_parse_internal.simps) (auto simp: step_rejects_def run_rejects_def split: if_splits)

lemma run_continue: "parse_step fl al s = Inr (Parse_continue s') \<Longrightarrow> sax_parse_internal fl al s = sax_parse_internal fl al s'"
  by (subst sax_parse_internal.simps) simp

lemma run_value_continue:
  "parse_value fl al s = Inr (Parse_continue s') \<Longrightarrow> \<not> skip_to_state_evaluation s \<Longrightarrow>
     sax_parse_internal fl al s = sax_parse_internal fl al s'"
  by (rule run_continue) (simp add: parse_step_def)

text \<open>A value that is complete goes on like one whose container has just been closed.\<close>

lemma run_parsed:
  assumes "parse_value fl al s = Inr (Parsed_value s')" "\<not> skip_to_state_evaluation s" "\<not> skip_to_state_evaluation s'"
  shows "sax_parse_internal fl al s = sax_parse_internal fl al (s'\<lparr>skip_to_state_evaluation := True\<rparr>)"
proof -
  have "s'\<lparr>skip_to_state_evaluation := False\<rparr> = s'" using assms(3) by (cases s') simp
  then have "parse_follow fl al (s'\<lparr>skip_to_state_evaluation := False\<rparr>) = parse_follow fl al s'" by (rule arg_cong)
  with assms have "parse_step fl al s = parse_step fl al (s'\<lparr>skip_to_state_evaluation := True\<rparr>)"
    by (simp add: parse_step_def)
  then show ?thesis by (subst (1 2) sax_parse_internal.simps) simp
qed

lemma parse_value_scalar:
  "scalar_json fl (parser_tok (p_parser s)) = Some v \<Longrightarrow>
     parse_value fl al s = with_dom (sax_value v) s (\<lambda>s1. Inr (Parsed_value s1))"
  by (cases "token s") (auto simp: tok_of_def scalar_json_def parse_value_def Let_def split: if_splits)

lemma parse_value_rejects:
  assumes "scalar_json fl (parser_tok (p_parser s)) = None" "token s \<noteq> begin_array" "token s \<noteq> begin_object"
  shows "step_rejects al (parse_value fl al s)"
proof (cases "token s = value_float_tok")
  case True
  with assms show ?thesis
    by (auto simp: tok_of_def scalar_json_def parse_value_def Let_def step_rejects_def sax_parse_error_def
        out_of_range_create_def parse_ids_def split: if_splits)
next
  case False
  with assms show ?thesis by (cases "token s") (auto simp: tok_of_def scalar_json_def parse_value_def Let_def)
qed

lemma value_step_rejects: "step_rejects al (parse_value fl al s) \<Longrightarrow> \<not> skip_to_state_evaluation s \<Longrightarrow> step_rejects al (parse_step fl al s)"
  by (auto simp: parse_step_def step_rejects_def split: if_splits)

lemma tok_of_simps:
  "tok_of t l = TBegin_array \<longleftrightarrow> t = begin_array" "tok_of t l = TBegin_object \<longleftrightarrow> t = begin_object"
  "tok_of t l = TEnd_array \<longleftrightarrow> t = end_array" "tok_of t l = TEnd_object \<longleftrightarrow> t = end_object"
  "tok_of t l = TComma \<longleftrightarrow> t = value_separator" "tok_of t l = TColon \<longleftrightarrow> t = name_separator"
  "tok_of t l = TString k \<longleftrightarrow> t = value_string \<and> k = token_buffer l" "tok_of t l = TEnd \<longleftrightarrow> t = end_of_input"
  by (auto simp: tok_of_def split: token_type.splits)

lemma tokens_from_head: "\<exists>us. tokens_from fl p = parser_tok p # us"
  "tokens_from fl p = t # us \<Longrightarrow> parser_tok p = t"
  by (auto simp: tokens_from_def split: if_splits)

lemma tokens_from_more: "\<not> final_tok t \<Longrightarrow> tokens_from fl p = t # us \<longleftrightarrow> parser_tok p = t \<and> us = ahead fl p"
  by (auto simp: tokens_from_def)

lemma tokens_from_next:
  "parser_tok p = t \<Longrightarrow> \<not> final_tok t \<Longrightarrow> tokens_from fl p = t # tokens_from fl (get_token fl p)"
  by (simp add: tokens_from_def ahead_get_token)

lemma next_token_dom: "next_token fl (s\<lparr>p_dom := d\<rparr>) = next_token fl s\<lparr>p_dom := d\<rparr>"
  by (simp add: next_token_def)

lemma key_step:
  assumes "in_object F m (p_dom s)" "\<not> skip_to_state_evaluation s"
    and "push (states s) = False # map (\<lambda>f. case f of Array_frame _ \<Rightarrow> True | _ \<Rightarrow> False) F"
  shows "case pda_key (tokens_from fl (p_parser s)) (\<lambda>k. Value (Object_frame m k # F)) of
      Some c \<Rightarrow> \<exists>s'. parse_key fl al push s = Inr (Parse_continue s') \<and> sim fl c s'
    | None \<Rightarrow> step_rejects al (parse_key fl al push s)"
proof (cases "token s = value_string")
  case False
  then have "parse_key fl al push s = parse_fail al (value_string, ''object key'') s" by (simp add: parse_key_def)
  moreover obtain us where "tokens_from fl (p_parser s) = parser_tok (p_parser s) # us" using tokens_from_head by blast
  then have "pda_key (tokens_from fl (p_parser s)) c = None" for c :: "bytes \<Rightarrow> 'a tok list \<Rightarrow> 'a config"
    using False by (cases "token s") (simp_all add: pda_key_def tok_of_def)
  ultimately show ?thesis by simp
next
  case True
  let ?k = "token_buffer (m_lexer (p_parser s))" and ?q = "get_token fl (p_parser s)"
  have ts: "tokens_from fl (p_parser s) = TString ?k # tokens_from fl ?q"
    using True by (intro tokens_from_next) (simp_all add: tok_of_simps)
  from sax_key_frames [OF assms(1)] obtain d where d: "sax_key ?k (p_dom s) = Inr d"
    "before_value (Object_frame m ?k # F) d" by blast
  show ?thesis
  proof (cases "last_token ?q = name_separator")
    case sep: True
    then have "tokens_from fl ?q = TColon # tokens_from fl (get_token fl ?q)"
      by (intro tokens_from_next) (simp_all add: tok_of_simps)
    with ts have "pda_key (tokens_from fl (p_parser s)) (\<lambda>k. Value (Object_frame m k # F)) =
        Some (Value (Object_frame m ?k # F) (tokens_from fl (get_token fl ?q)))"
      by (simp add: pda_key_iff)
    with True sep d assms(2,3) show ?thesis by (simp add: parse_key_def with_dom_def Let_def)
  next
    case False
    obtain us where "tokens_from fl ?q = parser_tok ?q # us" using tokens_from_head by blast
    then have "pda_key (tokens_from fl (p_parser s)) (\<lambda>k. Value (Object_frame m k # F)) = None"
      using False ts by (cases "last_token ?q") (simp_all add: pda_key_def tok_of_def)
    with True False d show ?thesis by (simp add: parse_key_def with_dom_def Let_def)
  qed
qed

abbreviation is_array_frame :: "'f frame \<Rightarrow> bool" where
  "is_array_frame f \<equiv> case f of Array_frame _ \<Rightarrow> True | _ \<Rightarrow> False"

lemma array_step:
  assumes "sim fl (Value F ts) s" "token s = begin_array"
  shows "case pda_value fl F ts of
      Some c \<Rightarrow> \<exists>s'. sim fl c s' \<and> sax_parse_internal fl al s = sax_parse_internal fl al s'
    | None \<Rightarrow> False"
proof -
  let ?q = "get_token fl (p_parser s)"
  have F: "\<not> skip_to_state_evaluation s" "states s = map is_array_frame F" "before_value F (p_dom s)"
    and ts: "ts = TBegin_array # tokens_from fl ?q"
    using assms by (simp_all add: tokens_from_def tok_of_simps(1) [THEN iffD2] ahead_get_token)
  from sax_start_array [OF F(3)] obtain d where d: "sax_start (JArray []) (p_dom s) = Inr d"
    "before_value (Array_frame [] # F) d" by blast
  show ?thesis
  proof (cases "last_token ?q = end_array")
    case True
    then have "tokens_from fl ?q = TEnd_array # ahead fl ?q" by (simp add: tokens_from_more tok_of_simps)
    then have "pda_value fl F ts = Some (Follow F (JArray []) (ahead fl ?q))" unfolding pda_value_iff ts by simp
    moreover from sax_end_array [OF d(2)] obtain d' where d': "sax_end d = Inr d'" "after_value F (JArray []) d'" by blast
    then have "parse_value fl al s = Inr (Parsed_value (next_token fl s\<lparr>p_dom := d'\<rparr>))"
      using assms(2) True d by (simp add: parse_value_def with_dom_def Let_def next_token_def)
    from run_parsed [OF this] F d' have "sim fl (Follow F (JArray []) (ahead fl ?q))
        (next_token fl s\<lparr>p_dom := d', skip_to_state_evaluation := True\<rparr>) \<and>
      sax_parse_internal fl al s =
      sax_parse_internal fl al (next_token fl s\<lparr>p_dom := d', skip_to_state_evaluation := True\<rparr>)" by simp
    ultimately show ?thesis by (simp only: option.case) blast
  next
    case False
    then have "\<forall>us. tokens_from fl ?q \<noteq> TEnd_array # us" by (auto simp: tokens_from_more tok_of_simps)
    then have "pda_value fl F ts = Some (Value (Array_frame [] # F) (tokens_from fl ?q))"
      unfolding pda_value_iff ts by simp
    moreover have "parse_step fl al s = Inr (Parse_continue (next_token fl s\<lparr>p_dom := d, states := True # states s\<rparr>))"
      using assms(2) False d F(1) by (simp add: parse_step_def parse_value_def with_dom_def Let_def next_token_def)
    from run_continue [OF this] F d have "sim fl (Value (Array_frame [] # F) (tokens_from fl ?q))
        (next_token fl s\<lparr>p_dom := d, states := True # states s\<rparr>) \<and>
      sax_parse_internal fl al s =
      sax_parse_internal fl al (next_token fl s\<lparr>p_dom := d, states := True # states s\<rparr>)" by simp
    ultimately show ?thesis by (simp only: option.case) blast
  qed
qed

lemma object_step:
  assumes "sim fl (Value F ts) s" "token s = begin_object"
  shows "case pda_value fl F ts of
      Some c \<Rightarrow> \<exists>s'. sim fl c s' \<and> sax_parse_internal fl al s = sax_parse_internal fl al s'
    | None \<Rightarrow> run_rejects al (sax_parse_internal fl al s)"
proof -
  let ?q = "get_token fl (p_parser s)"
  have F: "\<not> skip_to_state_evaluation s" "states s = map is_array_frame F" "before_value F (p_dom s)"
    and ts: "ts = TBegin_object # tokens_from fl ?q"
    using assms by (simp_all add: tokens_from_def tok_of_simps(2) [THEN iffD2] ahead_get_token)
  from sax_start_object [OF F(3)] obtain d where d: "sax_start (JObject []) (p_dom s) = Inr d" "in_object F [] d" by blast
  show ?thesis
  proof (cases "last_token ?q = end_object")
    case True
    then have "tokens_from fl ?q = TEnd_object # ahead fl ?q" by (simp add: tokens_from_more tok_of_simps)
    then have "pda_value fl F ts = Some (Follow F (JObject []) (ahead fl ?q))" unfolding pda_value_iff ts by simp
    moreover from sax_end_object [OF d(2)] obtain d' where d': "sax_end d = Inr d'" "after_value F (JObject []) d'" by blast
    then have "parse_value fl al s = Inr (Parsed_value (next_token fl s\<lparr>p_dom := d'\<rparr>))"
      using assms(2) True d by (simp add: parse_value_def with_dom_def Let_def next_token_dom)
    from run_parsed [OF this] F d' have "sim fl (Follow F (JObject []) (ahead fl ?q))
        (next_token fl s\<lparr>p_dom := d', skip_to_state_evaluation := True\<rparr>) \<and>
      sax_parse_internal fl al s =
      sax_parse_internal fl al (next_token fl s\<lparr>p_dom := d', skip_to_state_evaluation := True\<rparr>)" by simp
    ultimately show ?thesis by (simp only: option.case) blast
  next
    case False
    let ?s = "next_token fl s\<lparr>p_dom := d\<rparr>"
    have "pda_value fl F ts = pda_key (tokens_from fl ?q) (\<lambda>k. Value (Object_frame [] k # F))"
      using False tokens_from_head(1) [of fl ?q]
      by (auto simp: ts pda_value_def pda_object_def tok_of_simps split: tok.split)
    moreover have "parse_value fl al s = parse_key fl al (Cons False) ?s"
      using assms(2) False d by (simp add: parse_value_def with_dom_def Let_def next_token_dom)
    ultimately show ?thesis
      using key_step [where F = F and m = "[]" and s = ?s and push = "Cons False" and fl = fl and al = al] F d(2) value_step_rejects [of al fl s]
      by (auto intro!: run_rejects_step split: option.splits) (blast intro: run_value_continue)
  qed
qed

lemma value_step:
  assumes "sim fl (Value F ts) s"
  shows "case pda_value fl F ts of
      Some c \<Rightarrow> \<exists>s'. sim fl c s' \<and> sax_parse_internal fl al s = sax_parse_internal fl al s'
    | None \<Rightarrow> run_rejects al (sax_parse_internal fl al s)"
proof -
  consider (arr) "token s = begin_array" | (obj) "token s = begin_object"
    | (plain) v where "scalar_json fl (parser_tok (p_parser s)) = Some v"
    | (bad) "scalar_json fl (parser_tok (p_parser s)) = None" "token s \<noteq> begin_array" "token s \<noteq> begin_object"
    by fastforce
  then show ?thesis
  proof cases
    case arr
    from array_step [OF assms this] show ?thesis by (auto split: option.splits)
  next
    case obj
    from object_step [OF assms this] show ?thesis .
  next
    case plain
    then have "\<not> final_tok (parser_tok (p_parser s))" by (auto simp: scalar_json_def final_tok_def split: tok.splits)
    with assms have F: "\<not> skip_to_state_evaluation s" "states s = map is_array_frame F" "before_value F (p_dom s)"
      and ts: "ts = parser_tok (p_parser s) # ahead fl (p_parser s)"
      by (simp_all add: tokens_from_def)
    from plain have "pda_value fl F ts = Some (Follow F v (ahead fl (p_parser s)))" unfolding pda_value_iff ts by auto
    moreover from sax_value_frames [OF F(3)] obtain d where d: "sax_value v (p_dom s) = Inr d" "after_value F v d" by blast
    with parse_value_scalar [OF plain] have "parse_value fl al s = Inr (Parsed_value (s\<lparr>p_dom := d\<rparr>))"
      by (simp add: with_dom_def)
    from run_parsed [OF this] F d have "sim fl (Follow F v (ahead fl (p_parser s)))
        (s\<lparr>p_dom := d, skip_to_state_evaluation := True\<rparr>) \<and>
      sax_parse_internal fl al s = sax_parse_internal fl al (s\<lparr>p_dom := d, skip_to_state_evaluation := True\<rparr>)" by simp
    ultimately show ?thesis by (simp only: option.case) blast
  next
    case bad
    obtain us where "ts = parser_tok (p_parser s) # us" using assms tokens_from_head(1) by auto
    with bad have "pda_value fl F ts = None"
      by (cases "parser_tok (p_parser s)") (auto simp: pda_value_def scalar_json_def tok_of_simps)
    with run_rejects_step [OF value_step_rejects [OF parse_value_rejects [OF bad]]] assms show ?thesis by simp
  qed
qed

lemma close_step:
  assumes "sax_end (p_dom s) = Inr d" "after_value F v d" "states s = b # map is_array_frame F"
    and "parse_step fl al s0 = close_container s"
  shows "\<exists>s'. sim fl (Follow F v (ahead fl (p_parser s))) s' \<and> sax_parse_internal fl al s0 = sax_parse_internal fl al s'"
proof -
  let ?s' = "s\<lparr>p_dom := d, states := map is_array_frame F, skip_to_state_evaluation := True\<rparr>"
  have "parse_step fl al s0 = Inr (Parse_continue ?s')"
    using assms by (simp add: close_container_def with_dom_def)
  from run_continue [OF this] assms(2) show ?thesis by (intro exI [of _ ?s']) simp
qed

lemma array_follow_step:
  assumes "sim fl (Follow (Array_frame js # F) v ts) s"
  shows "case pda_follow (Array_frame js) F v ts of
      Some c \<Rightarrow> \<exists>s'. sim fl c s' \<and> sax_parse_internal fl al s = sax_parse_internal fl al s'
    | None \<Rightarrow> run_rejects al (sax_parse_internal fl al s)"
proof -
  let ?q = "get_token fl (p_parser s)" and ?s = "s\<lparr>skip_to_state_evaluation := False\<rparr>"
  have F: "skip_to_state_evaluation s" "states s = True # map is_array_frame F"
    and ts: "ts = tokens_from fl ?q" and d: "before_value (Array_frame (js @ [v]) # F) (p_dom s)"
    using assms by (simp_all add: ahead_get_token after_value_array)
  obtain us where us: "ts = parser_tok ?q # us" using ts tokens_from_head(1) by auto
  have step: "parse_step fl al s = parse_follow fl al ?s" using F(1) by (simp add: parse_step_def)
  consider (comma) "last_token ?q = value_separator" | (close) "last_token ?q = end_array"
    | (other) "last_token ?q \<noteq> value_separator" "last_token ?q \<noteq> end_array" by blast
  then show ?thesis
  proof cases
    case comma
    then have "ts = TComma # tokens_from fl (get_token fl ?q)" unfolding ts
      by (intro tokens_from_next) (simp_all add: tok_of_simps)
    then have "pda_follow (Array_frame js) F v ts = Some (Value (Array_frame (js @ [v]) # F) (tokens_from fl (get_token fl ?q)))"
      by (simp add: pda_follow_iff)
    moreover have "parse_step fl al s = Inr (Parse_continue (next_token fl (next_token fl ?s)))"
      using comma F step by (simp add: parse_follow_def Let_def)
    from run_continue [OF this] F d have "sim fl (Value (Array_frame (js @ [v]) # F) (tokens_from fl (get_token fl ?q)))
       (next_token fl (next_token fl ?s)) \<and>
      sax_parse_internal fl al s = sax_parse_internal fl al (next_token fl (next_token fl ?s))" by simp
    ultimately show ?thesis by (simp only: option.case) blast
  next
    case close
    then have "ts = TEnd_array # ahead fl ?q" unfolding ts by (simp add: tokens_from_more tok_of_simps)
    then have "pda_follow (Array_frame js) F v ts = Some (Follow F (JArray (js @ [v])) (ahead fl ?q))"
      by (simp add: pda_follow_iff)
    moreover from sax_end_array [OF d] obtain d' where "sax_end (p_dom s) = Inr d'" "after_value F (JArray (js @ [v])) d'"
      by blast
    with close F step have "\<exists>s'. sim fl (Follow F (JArray (js @ [v])) (ahead fl (p_parser (next_token fl ?s)))) s' \<and>
        sax_parse_internal fl al s = sax_parse_internal fl al s'"
      by (intro close_step [of _ d' F _ True]) (simp_all add: parse_follow_def Let_def)
    ultimately show ?thesis by simp
  next
    case other
    then have "pda_follow (Array_frame js) F v ts = None"
      using us by (cases "last_token ?q") (simp_all add: pda_follow_def tok_of_def)
    moreover have "step_rejects al (parse_step fl al s)" using other F step by (simp add: parse_follow_def Let_def)
    ultimately show ?thesis by (simp add: run_rejects_step)
  qed
qed

lemma object_follow_step:
  assumes "sim fl (Follow (Object_frame m k # F) v ts) s"
  shows "case pda_follow (Object_frame m k) F v ts of
      Some c \<Rightarrow> \<exists>s'. sim fl c s' \<and> sax_parse_internal fl al s = sax_parse_internal fl al s'
    | None \<Rightarrow> run_rejects al (sax_parse_internal fl al s)"
proof -
  let ?q = "get_token fl (p_parser s)" and ?s = "s\<lparr>skip_to_state_evaluation := False\<rparr>" and ?m = "object_set k v m"
  have F: "skip_to_state_evaluation s" "states s = False # map is_array_frame F"
    and ts: "ts = tokens_from fl ?q" and d: "in_object F ?m (p_dom s)"
    using assms by (simp_all add: ahead_get_token after_value_object)
  obtain us where us: "ts = parser_tok ?q # us" using ts tokens_from_head(1) by auto
  have step: "parse_step fl al s = parse_follow fl al ?s" using F(1) by (simp add: parse_step_def)
  consider (comma) "last_token ?q = value_separator" | (close) "last_token ?q = end_object"
    | (other) "last_token ?q \<noteq> value_separator" "last_token ?q \<noteq> end_object" by blast
  then show ?thesis
  proof cases
    case comma
    let ?s2 = "next_token fl (next_token fl ?s)"
    from comma have "ts = TComma # tokens_from fl (get_token fl ?q)" unfolding ts
      by (intro tokens_from_next) (simp_all add: tok_of_simps)
    then have "pda_follow (Object_frame m k) F v ts =
        pda_key (tokens_from fl (p_parser ?s2)) (\<lambda>k'. Value (Object_frame ?m k' # F))"
      by (simp add: pda_follow_def)
    moreover have "parse_step fl al s = parse_key fl al id ?s2" using comma F step by (simp add: parse_follow_def Let_def)
    ultimately show ?thesis
      using key_step [where F = F and m = ?m and s = ?s2 and push = id and fl = fl and al = al] F d
      by (auto intro!: run_rejects_step split: option.splits) (blast intro: run_continue)
  next
    case close
    then have "ts = TEnd_object # ahead fl ?q" unfolding ts by (simp add: tokens_from_more tok_of_simps)
    then have "pda_follow (Object_frame m k) F v ts = Some (Follow F (JObject ?m) (ahead fl ?q))"
      by (simp add: pda_follow_iff)
    moreover from sax_end_object [OF d] obtain d' where "sax_end (p_dom s) = Inr d'" "after_value F (JObject ?m) d'"
      by blast
    with close F step have "\<exists>s'. sim fl (Follow F (JObject ?m) (ahead fl (p_parser (next_token fl ?s)))) s' \<and>
        sax_parse_internal fl al s = sax_parse_internal fl al s'"
      by (intro close_step [of _ d' F _ False]) (simp_all add: parse_follow_def Let_def)
    ultimately show ?thesis by simp
  next
    case other
    then have "pda_follow (Object_frame m k) F v ts = None"
      using us by (cases "last_token ?q") (simp_all add: pda_follow_def tok_of_def)
    moreover have "step_rejects al (parse_step fl al s)" using other F step by (simp add: parse_follow_def Let_def)
    ultimately show ?thesis by (simp add: run_rejects_step)
  qed
qed

lemma sim_step:
  assumes "sim fl c s" "\<And>v ts. c \<noteq> Follow [] v ts"
  shows "case pda_step fl c of
      Some c' \<Rightarrow> \<exists>s'. sim fl c' s' \<and> sax_parse_internal fl al s = sax_parse_internal fl al s'
    | None \<Rightarrow> run_rejects al (sax_parse_internal fl al s)"
proof (cases c)
  case (Value F ts)
  with value_step assms(1) show ?thesis by (simp del: sim.simps)
next
  case (Follow F v ts)
  with assms(2) obtain f G where "F = f # G" by (cases F) auto
  with array_follow_step object_follow_step assms(1) Follow show ?thesis by (cases f) (simp_all del: sim.simps)
qed

lemma pda_simulates:
  assumes "sim fl c s"
  shows "case pda_run fl c of
      None \<Rightarrow> run_rejects al (sax_parse_internal fl al s)
    | Some (v, ts) \<Rightarrow> \<exists>s'. sax_parse_internal fl al s = Inr (True, s') \<and> root (p_dom s') = v \<and>
        \<not> errored (p_dom s') \<and> ahead fl (p_parser s') = ts"
  using assms
proof (induction fl c arbitrary: s rule: pda_run.induct)
  case (1 fl c)
  consider (accept) v ts where "c = Follow [] v ts" | (step) "\<And>v ts. c \<noteq> Follow [] v ts" by blast
  then show ?case
  proof cases
    case accept
    then have "parse_step fl al s = Inr (Parse_return True (s\<lparr>skip_to_state_evaluation := False\<rparr>))"
      using 1(2) by (simp add: parse_step_def parse_follow_def)
    with accept 1(2) show ?thesis by (subst sax_parse_internal.simps) (simp add: after_value_def)
  next
    case step
    show ?thesis
    proof (cases "pda_step fl c")
      case None
      with step have "pda_run fl c = None" by (auto simp: pda_run.simps [of fl c] split: config.split list.split)
      with sim_step [OF 1(2) step, of al] None show ?thesis by simp
    next
      case (Some c')
      with sim_step [OF 1(2) step, of al] obtain s' where s': "sim fl c' s'" "sax_parse_internal fl al s = sax_parse_internal fl al s'" by auto
      from 1(1) [OF Some s'(1)] Some show ?thesis unfolding s'(2) by (simp add: pda_run.simps [of fl c])
    qed
  qed
qed

subsection \<open>Parsing a text\<close>

abbreviation start_lexer :: "'f float_ops \<Rightarrow> char \<Rightarrow> bytes \<Rightarrow> 'f lexer" where
  "start_lexer fl dp input \<equiv> lexer_new dp (strtod fl ''0'') input"

lemma json_parse_run:
  "case pda_run fl (Value [] (json_tokens fl (start_lexer fl dp input))) of
     Some (v, ts) \<Rightarrow>
       if ts = [TEnd] then json_parse fl dp al input = Inr v
       else if al then \<exists>msg. json_parse fl dp al input = Inl (Json_exception 101 msg)
       else json_parse fl dp al input = Inr JDiscarded
   | None \<Rightarrow>
       if al then \<exists>n\<in>parse_ids. \<exists>msg. json_parse fl dp al input = Inl (Json_exception n msg)
       else json_parse fl dp al input = Inr JDiscarded"
proof -
  let ?l = "start_lexer fl dp input"
  let ?s = "\<lparr>p_parser = parser_new fl ?l, p_dom = dom_new, states = [], skip_to_state_evaluation = False\<rparr>"
  have "json_tokens fl ?l = tokens_from fl (parser_new fl ?l)"
    using ahead_get_token [of fl "\<lparr>m_lexer = ?l, last_token = uninitialized\<rparr>"] by (simp add: parser_new_def)
  then have "sim fl (Value [] (json_tokens fl ?l)) ?s" by (simp add: before_value_def dom_new_def)
  note run = pda_simulates [OF this, of al]
  have final: "ts = [TEnd] \<longleftrightarrow> last_token (get_token fl p) = end_of_input" if "ts = ahead fl p" for ts and p :: "'a parser"
    using that tok_of_simps(8) [of "last_token (get_token fl p)"] by (auto simp: ahead_get_token tokens_from_def)
  show ?thesis
  proof (cases "pda_run fl (Value [] (json_tokens fl ?l))")
    case None
    with run show ?thesis
      by (auto simp: run_rejects_def json_parse_def parser_parse_def Let_def sax_parse_error_def split: if_splits)
  next
    case (Some r)
    then obtain v ts s' where r: "r = (v, ts)" "sax_parse_internal fl al ?s = Inr (True, s')" "root (p_dom s') = v"
      "\<not> errored (p_dom s')" "ts = ahead fl (p_parser s')"
      using run by (cases r) auto
    with Some final [OF r(5)] show ?thesis
      by (auto simp: json_parse_def parser_parse_def Let_def sax_parse_error_def syntax_error_def parse_error_create_def)
  qed
qed

end
