(* ===== verification/Json_Tokens.thy ===== *)
theory Json_Tokens
  imports Json_Numbers Json_Parser_Correct
begin

text \<open>
  From bytes to tokens: the lexemes of JSON, and that the lexer splits its input into them. With the
  grammar this gives the language of \<^verbatim>\<open>basic_json::parse\<close> over the bytes of its input.
\<close>

subsection \<open>Lexemes\<close>

definition space_octet :: "nat \<Rightarrow> bool" where
  "space_octet b \<longleftrightarrow> b = 0x20 \<or> b = 0x09 \<or> b = 0x0A \<or> b = 0x0D"

definition punctuation :: "(nat \<times> 'f tok) list" where
  "punctuation =
     [(0x5B, TBegin_array), (0x5D, TEnd_array), (0x7B, TBegin_object), (0x7D, TEnd_object), (0x3A, TColon), (0x2C, TComma)]"

definition literals :: "(octets \<times> 'f tok) list" where
  "literals = [(octets_of ''true'', TTrue), (octets_of ''false'', TFalse), (octets_of ''null'', TNull)]"

inductive lexeme :: "'f float_ops \<Rightarrow> char \<Rightarrow> octets \<Rightarrow> 'f tok \<Rightarrow> bool" for fl dp where
  punct: "(b, k) \<in> set punctuation \<Longrightarrow> lexeme fl dp [b] k"
| literal: "(bs, k) \<in> set literals \<Longrightarrow> lexeme fl dp bs k"
| string: "string_chars a (octets_of s) \<Longrightarrow> lexeme fl dp (0x22 # a @ [0x22]) (TString s)"
| number: "json_number bs \<Longrightarrow> lexeme fl dp bs (number_tok fl dp bs)"

text \<open>
  A text that splits into the given tokens; it ends at the end of the input or at a NUL byte, whatever
  follows that.
\<close>

inductive lexed :: "'f float_ops \<Rightarrow> char \<Rightarrow> 'f tok list \<Rightarrow> octets \<Rightarrow> bool" for fl dp where
  finish: "list_all space_octet ws \<Longrightarrow> r = [] \<or> hd r = 0 \<Longrightarrow> lexed fl dp [] (ws @ r)"
| more: "list_all space_octet ws \<Longrightarrow> lexeme fl dp bs k \<Longrightarrow> lexed fl dp ts r \<Longrightarrow> lexed fl dp (k # ts) (ws @ bs @ r)"

definition without_bom :: "octets \<Rightarrow> octets" where
  "without_bom bs = (if take 3 bs = [0xEF, 0xBB, 0xBF] then drop 3 bs else bs)"

lemma json_number_head: "json_number (b # bs) \<Longrightarrow> b = 0x2D \<or> digit_octet b" "\<not> json_number []"
  by (auto simp: number_automaton number_start_def digit_octet_def split: if_splits)

lemma lexeme_head:
  assumes "lexeme fl dp bs k"
  obtains b bs' where "bs = b # bs'" "\<not> space_octet b" "b \<noteq> 0" "b \<noteq> 0xEF"
  using assms
proof cases
  case (punct b)
  then show thesis by (intro that [of b "[]"]) (auto simp: punctuation_def space_octet_def)
next
  case literal
  then have "hd bs \<in> {0x74, 0x66, 0x6E}" "bs \<noteq> []" by (auto simp: literals_def byte_val_def)
  then show thesis by (intro that [of "hd bs" "tl bs"]) (auto simp: space_octet_def)
next
  case (string a s)
  then show thesis by (intro that [of "0x22" "a @ [0x22]"]) (auto simp: space_octet_def)
next
  case number
  then obtain b bs' where "bs = b # bs'" using json_number_head(2) by (cases bs) auto
  with number json_number_head(1) [of b bs'] show thesis by (intro that) (auto simp: space_octet_def digit_octet_def)
qed

subsection \<open>Spaces\<close>

lemma skip_spaces_left:
  assumes "lexer_ok l"
  shows "lexer_ok (skip_spaces l)" (is "?A")
    and "current (skip_spaces l) = (case dropWhile space_octet (left_octets l) of [] \<Rightarrow> eof | b # _ \<Rightarrow> int b)" (is "?B")
    and "left_octets (skip_spaces l) = tl (dropWhile space_octet (left_octets l))" (is "?C")
    and "chars_read_total (position l) < chars_read_total (position (skip_spaces l))" (is "?D")
    and "decimal_point_char (skip_spaces l) = decimal_point_char l" (is "?E")
proof -
  have "?A \<and> ?B \<and> ?C \<and> ?D \<and> ?E" using assms
  proof (induction l rule: skip_spaces.induct)
    case (1 l)
    let ?l1 = "lexer_get l"
    have get: "lexer_ok ?l1" "decimal_point_char ?l1 = decimal_point_char l"
      "chars_read_total (position ?l1) = chars_read_total (position l) + 1" using 1(2) by simp_all
    have val: "is_space_val (int b) \<longleftrightarrow> space_octet b" for b
      by (auto simp: is_space_val_def space_octet_def)
    show ?case
    proof (cases "left_octets l")
      case Nil
      then have "current ?l1 = eof" "left_octets ?l1 = []"
        using get_current_left [OF 1(2)] get_reads [OF 1(2)] by (simp_all add: reads_def)
      then show ?thesis using get Nil by (simp add: skip_spaces.simps [of l] is_space_val_def Let_def)
    next
      case (Cons b bs)
      note byte = get_reads_byte [OF 1(2) Cons]
      show ?thesis
      proof (cases "space_octet b")
        case True
        with byte val have "is_space_val (current ?l1)" by simp
        with 1(1) [OF refl this get(1)] get byte Cons True show ?thesis by (simp add: skip_spaces.simps [of l] Let_def)
      next
        case False
        with byte val have "\<not> is_space_val (current ?l1)" by simp
        with get byte Cons False show ?thesis by (simp add: skip_spaces.simps [of l] Let_def)
      qed
    qed
  qed
  then show ?A ?B ?C ?D ?E by blast+
qed

subsection \<open>One token\<close>

lemma literal_loop_sound:
  assumes "literal_loop xs t l = (t', l')" "lexer_ok l" "t' \<noteq> parse_error"
  shows "t' = t \<and> reads l (octets_of xs) [] l'"
  using assms
proof (induction xs t l rule: literal_loop.induct)
  case (1 t l)
  then show ?case by (auto intro: reads_refl)
next
  case (2 x xs t l)
  then have c: "current (lexer_get l) = int (byte_val x)" by (auto simp: Let_def lexer_fail_def split: if_splits)
  with get_reads_current(1) [OF 2(3)] have get: "reads l [byte_val x] [] (lexer_get l)" by simp
  from 2(1) [OF refl _ _ reads_ok [OF get] 2(4)] 2(2) c have "t' = t \<and> reads (lexer_get l) (octets_of xs) [] l'"
    by (simp add: Let_def)
  with reads_trans [OF get, of "octets_of xs" "[]"] show ?case by simp
qed

lemma literal_loop_complete:
  assumes "left_octets l = octets_of xs @ r" "lexer_ok l"
  shows "\<exists>l'. literal_loop xs t l = (t, l') \<and> reads l (octets_of xs) [] l'"
  using assms
proof (induction xs arbitrary: l)
  case Nil
  then show ?case by (auto intro: reads_refl)
next
  case (Cons x xs)
  then have left: "left_octets l = byte_val x # octets_of xs @ r" by simp
  note get = get_reads_byte [OF Cons.prems(2) left]
  from Cons.IH [OF get(3) reads_ok [OF get(1)]] obtain l' where "literal_loop xs t (lexer_get l) = (t, l')"
    "reads (lexer_get l) (octets_of xs) [] l'" by blast
  with reads_trans [OF get(1) this(2)] get(2) show ?case by (simp add: Let_def)
qed

text \<open>The lexer has consumed \<open>bs\<close>, whatever is in the token buffer.\<close>

definition takes :: "'f lexer \<Rightarrow> octets \<Rightarrow> 'f lexer \<Rightarrow> bool" where
  "takes l bs l' \<longleftrightarrow>
     lexer_ok l' \<and> left_octets l = bs @ left_octets l' \<and>
     chars_read_total (position l) \<le> chars_read_total (position l') \<and> decimal_point_char l' = decimal_point_char l"

lemma takes_intros: "reads l bs x l' \<Longrightarrow> takes l bs l'" "consumes l bs x l' \<Longrightarrow> takes l bs l'" "lexer_ok l \<Longrightarrow> takes l [] l"
  by (simp_all add: takes_def reads_def consumes_def)

lemma scan_number_takes:
  assumes "lexer_ok l" "current l = int b" "number_start b \<noteq> None" "scan_number fl l = (t, l')" "t \<noteq> parse_error"
  shows "\<exists>bs. takes l bs l' \<and> json_number (b # bs) \<and> tok_of t l' = number_tok fl (decimal_point_char l) (b # bs)"
  using scan_number_sound [OF assms] by (auto simp: takes_def)

lemma literal_tok:
  assumes "scan_literal xs t l = (t', l')" "lexer_ok l" "t' \<noteq> parse_error"
  shows "t' = t \<and> takes l (octets_of (tl xs)) l'"
  using literal_loop_sound [of "tl xs" t l t' l'] assms by (auto simp: scan_literal_def intro: takes_intros)

lemma number_start_val: "number_start b \<noteq> None \<longleftrightarrow> b = 0x2D \<or> is_digit_val (int b)"
  by (auto simp: number_start_def digit_octet_def is_digit_val_def)

lemma scan_token_sound:
  assumes "scan_token fl l = (t, l')" "lexer_ok l" "current l = int b" "\<not> final_tok (tok_of t l')"
  shows "\<exists>bs. takes l bs l' \<and> lexeme fl (decimal_point_char l) (b # bs) (tok_of t l')"
proof -
  have t: "t \<noteq> parse_error" "t \<noteq> end_of_input" using assms(4) by (auto simp: tok_of_def)
  consider (punct) "b \<in> {0x5B, 0x5D, 0x7B, 0x7D, 0x3A, 0x2C}" | (lit) "b \<in> {0x74, 0x66, 0x6E}" | (str) "b = 0x22"
    | (num) "number_start b \<noteq> None" "\<not> b \<in> {0x5B, 0x5D, 0x7B, 0x7D, 0x3A, 0x2C, 0x74, 0x66, 0x6E, 0x22}"
    | (other) "\<not> b \<in> {0x5B, 0x5D, 0x7B, 0x7D, 0x3A, 0x2C, 0x74, 0x66, 0x6E, 0x22}" "number_start b = None"
    by auto
  then show ?thesis
  proof cases
    case punct
    with assms(1,3) have "l' = l" "(b, tok_of t l') \<in> set punctuation"
      by (auto simp: punctuation_def scan_token_def tok_of_def)
    with assms(2) show ?thesis by (auto intro: takes_intros lexeme.punct)
  next
    case lit
    then obtain xs t0 where xs: "scan_literal xs t0 l = (t, l')" "b # octets_of (tl xs) = octets_of xs"
      "(octets_of xs, tok_of t0 l') \<in> set literals"
      using assms(1,3) by (auto simp: scan_token_def literals_def tok_of_def byte_val_def octets_of_def)
    from literal_tok [OF xs(1) assms(2) t(1)] xs(2,3) show ?thesis
      by (intro exI [of _ "octets_of (tl xs)"]) (simp add: lexeme.literal)
  next
    case str
    have "t = value_string"
      using assms(1,3) str t(1) string_loop_token [of "lexer_reset l"] by (auto simp: scan_token_def scan_string_def)
    with str assms(1,3) have "scan_string l = (value_string, l')" by (simp add: scan_token_def)
    from scan_string_sound [OF this assms(2)] obtain a x where ax: "string_chars a x" "consumes l (a @ [0x22]) x l'" by blast
    with str \<open>t = value_string\<close> show ?thesis
      by (intro exI [of _ "a @ [0x22]"]) (auto simp: tok_of_def consumes_def intro!: lexeme.string takes_intros(2))
  next
    case num
    with assms(1,3) have "scan_number fl l = (t, l')"
      using number_start_val [of b] by (auto simp: scan_token_def)
    from scan_number_takes [OF assms(2,3) num(1) this t(1)] show ?thesis by (metis lexeme.number)
  next
    case other
    with assms(1,3) t show ?thesis using number_start_val [of b]
      by (auto simp: scan_token_def lexer_fail_def split: if_splits)
  qed
qed

lemma scan_token_end:
  assumes "scan_token fl l = (t, l')" "lexer_ok l" "t = end_of_input"
  shows "current l = 0 \<or> current l = eof"
proof (rule ccontr)
  assume c: "\<not> (current l = 0 \<or> current l = eof)"
  then obtain b where b: "current l = int b" using assms(2) by (cases "current l") (auto simp: lexer_ok_def)
  have literal: "fst (literal_loop xs t0 l) = t0 \<or> fst (literal_loop xs t0 l) = parse_error" for xs t0 l
    by (induction xs t0 l rule: literal_loop.induct) (auto simp: Let_def)
  have number: "fst (number_loop fl t0 st l) \<noteq> end_of_input" for t0 st l
  proof (induction fl t0 st l rule: number_loop.induct)
    case (1 fl t0 st l)
    then show ?case
      by (cases "number_step st l") (simp_all add: number_loop.simps [of fl t0 st l] number_done_def Let_def)
  qed
  have "fst (scan_literal xs t0 l) \<noteq> end_of_input" if "t0 \<noteq> end_of_input" for xs t0
    using literal [of "tl xs" t0 l] that by (auto simp: scan_literal_def)
  moreover have "fst (scan_string l) \<noteq> end_of_input" using string_loop_token [of "lexer_reset l"] by (auto simp: scan_string_def)
  moreover have "fst (scan_number fl l) \<noteq> end_of_input" using number by (simp add: scan_number_def Let_def)
  ultimately have "fst (scan_token fl l) \<noteq> end_of_input" using c by (simp add: scan_token_def Let_def)
  with assms show False by simp
qed

lemma number_tok_kind: "final_tok (number_tok fl dp bs) = False" "number_tok fl dp bs \<noteq> TString s"
  by (simp_all add: number_tok_def Let_def)

definition number_like :: "'f tok \<Rightarrow> bool" where
  "number_like k \<longleftrightarrow> (case k of TUnsigned _ \<Rightarrow> True | TInteger _ \<Rightarrow> True | TFloat _ \<Rightarrow> True | _ \<Rightarrow> False)"

lemma number_tok_like [simp]: "number_like (number_tok fl dp bs)"
  by (simp add: number_tok_def number_like_def Let_def)

lemma scan_token_complete:
  assumes "lexeme fl (decimal_point_char l) (b # bs) k" "lexer_ok l" "current l = int b" "left_octets l = bs @ r"
    and "number_like k \<Longrightarrow> number_delimiter r"
  shows "\<exists>t l'. scan_token fl l = (t, l') \<and> tok_of t l' = k \<and> takes l bs l'"
  using assms(1)
proof cases
  case punct
  with assms(2,3) show ?thesis by (auto simp: punctuation_def scan_token_def tok_of_def intro: takes_intros)
next
  case literal
  then obtain xs t where xs: "scan_token fl l = scan_literal xs t l" "b # bs = octets_of xs" "\<And>l'. tok_of t l' = k"
    using assms(3) by (auto simp: literals_def scan_token_def tok_of_def byte_val_def octets_of_def)
  then have "bs = octets_of (tl xs)" by (cases xs) auto
  with literal_loop_complete [OF _ assms(2), of "tl xs" r t] assms(4) xs show ?thesis
    by (auto simp: scan_literal_def intro: takes_intros)
next
  case (string a s)
  then have "left_octets l = a @ 0x22 # r" using assms(4) by simp
  from scan_string_complete [OF string(4) this assms(2)] obtain l' where
    "scan_string l = (value_string, l')" "consumes l (a @ [0x22]) (octets_of s) l'" by blast
  with string(1-3) assms(3) show ?thesis
    by (auto simp: scan_token_def tok_of_def consumes_def takes_def)
next
  case number
  with assms(5) have "number_delimiter r" by simp
  from scan_number_complete [OF assms(2,3) number(2) assms(4) this, of fl] number(1)
  obtain t l' where "scan_number fl l = (t, l')" "tok_of t l' = k" "takes l bs l'"
    using assms(4) by (auto simp: takes_def)
  moreover have "scan_token fl l = scan_number fl l"
    using json_number_head(1) [OF number(2)] assms(3) by (auto simp: scan_token_def is_digit_val_def digit_octet_def)
  ultimately show ?thesis by auto
qed

subsection \<open>The whole input\<close>

abbreviation plain_scan :: "'f float_ops \<Rightarrow> 'f lexer \<Rightarrow> bool" where
  "plain_scan fl l \<equiv> scan fl l = scan_token fl (skip_spaces l)"

lemma scan_later: "0 < chars_read_total (position l) \<Longrightarrow> plain_scan fl l"
  by (simp add: scan_def)

lemma dropWhile_spaces: "list_all space_octet ws \<Longrightarrow> r = [] \<or> \<not> space_octet (hd r) \<Longrightarrow> dropWhile space_octet (ws @ r) = r"
  by (induction ws) (cases r; auto)+

lemma list_all_takeWhile: "list_all P (takeWhile P xs)"
  by (induction xs) auto

lemma tokens_lexed:
  assumes "json_tokens fl l = ts @ [TEnd]" "lexer_ok l" "plain_scan fl l"
  shows "lexed fl (decimal_point_char l) ts (left_octets l)"
  using assms
proof (induction fl l arbitrary: ts rule: json_tokens.induct)
  case (1 fl l)
  let ?l1 = "skip_spaces l" and ?ws = "takeWhile space_octet (left_octets l)" and ?r = "dropWhile space_octet (left_octets l)"
  note skip = skip_spaces_left [OF 1(3)]
  obtain t l2 where scan: "scan fl l = (t, l2)" "scan_token fl ?l1 = (t, l2)" using 1(4) by fastforce
  have left: "left_octets l = ?ws @ ?r" by simp
  show ?case
  proof (cases "final_tok (tok_of t l2)")
    case True
    with 1(2) scan(1) have "tok_of t l2 = TEnd" "ts = []" by (simp_all add: json_tokens.simps [of fl l])
    then have "t = end_of_input" by (simp add: tok_of_simps)
    with scan_token_end [OF scan(2) skip(1)] have "current ?l1 = 0 \<or> current ?l1 = eof" by simp
    then have "?r = [] \<or> hd ?r = 0" using skip(2) by (cases ?r) auto
    from lexed.finish [OF list_all_takeWhile this, of fl "decimal_point_char l" "left_octets l"] \<open>ts = []\<close>
    show ?thesis by simp
  next
    case False
    with 1(2) scan(1) obtain ts' where ts: "ts = tok_of t l2 # ts'" "json_tokens fl l2 = ts' @ [TEnd]"
      by (cases ts) (simp_all add: json_tokens.simps [of fl l])
    have "current ?l1 \<noteq> eof" using False scan(2) by (auto simp: scan_token_def is_digit_val_def tok_of_def)
    then obtain b r where r: "?r = b # r" "current ?l1 = int b" "left_octets ?l1 = r" using skip(2,3) by (cases ?r) auto
    from scan_token_sound [OF scan(2) skip(1) r(2) False] obtain bs where
      bs: "takes ?l1 bs l2" "lexeme fl (decimal_point_char l) (b # bs) (tok_of t l2)" using skip(5) by auto
    have "lexed fl (decimal_point_char l2) ts' (left_octets l2)"
      using bs(1) skip(4) by (intro 1(1) [of t l2]) (use scan(1) False ts(2) in \<open>auto simp: takes_def intro!: scan_later\<close>)
    then have "lexed fl (decimal_point_char l) ts' (left_octets l2)" using bs(1) skip(5) by (simp add: takes_def)
    then have "lexed fl (decimal_point_char l) (tok_of t l2 # ts') (?ws @ (b # bs) @ left_octets l2)"
      by (rule lexed.more [OF list_all_takeWhile bs(2)])
    moreover have "left_octets l = ?ws @ (b # bs) @ left_octets l2" using left r bs(1) by (simp add: takes_def)
    ultimately show ?thesis by (simp only: ts(1))
  qed
qed

text \<open>In a text of the grammar a comma or a closing bracket follows a number.\<close>

definition closes :: "'f tok \<Rightarrow> bool" where
  "closes k \<longleftrightarrow> (case k of TComma \<Rightarrow> True | TEnd_array \<Rightarrow> True | TEnd_object \<Rightarrow> True | _ \<Rightarrow> False)"

abbreviation separated :: "'f tok list \<Rightarrow> bool" where
  "separated ts \<equiv> successively (\<lambda>a b. number_like a \<longrightarrow> closes b) ts"

lemma separated_commas:
  "list_all separated tss \<Longrightarrow> closes k \<Longrightarrow> separated (commas tss @ [k])"
  by (induction tss rule: commas.induct)
    (auto simp: successively_append_iff closes_def number_like_def successively_Cons)

lemma json_text_separated: "json_text fl ts j \<Longrightarrow> separated ts"
proof (induction rule: json_text.induct)
  case (array tss js)
  then have "list_all separated tss" by (auto simp: list_all2_conv_all_nth list_all_length)
  from separated_commas [OF this, of TEnd_array] show ?case by (simp add: closes_def successively_Cons number_like_def)
next
  case (object tss kvs)
  then have "list_all separated tss"
    by (fastforce simp: list_all2_conv_all_nth list_all_length successively_Cons number_like_def)
  from separated_commas [OF this, of TEnd_object] show ?case by (simp add: closes_def successively_Cons number_like_def)
qed simp

lemma lexed_delimiter:
  assumes "lexed fl dp ts r" "ts = [] \<or> closes (hd ts)"
  shows "number_delimiter r"
  using assms
proof cases
  case (finish ws r')
  then show ?thesis
    by (cases ws) (auto simp: number_delimiter_def digit_octet_def space_octet_def)
next
  case (more ws bs k ts' r')
  with assms(2) have "closes k" by simp
  with more(4) obtain b where "bs = [b]" "b \<in> {0x2C, 0x5D, 0x7D}"
    by cases (auto simp: closes_def punctuation_def literals_def number_tok_def Let_def split: if_splits)
  with more show ?thesis by (cases ws) (auto simp: number_delimiter_def digit_octet_def space_octet_def)
qed

lemma lexed_tokens:
  assumes "lexed fl dp ts bs" "separated ts" "lexer_ok l" "left_octets l = bs" "decimal_point_char l = dp" "plain_scan fl l"
  shows "json_tokens fl l = ts @ [TEnd]"
  using assms
proof (induction arbitrary: l rule: lexed.induct)
  case (finish ws r)
  from finish(1,2) have "dropWhile space_octet (ws @ r) = r" by (intro dropWhile_spaces) (auto simp: space_octet_def)
  with skip_spaces_left(2) [OF finish(4)] finish(2,5) have "current (skip_spaces l) = eof \<or> current (skip_spaces l) = 0"
    by (auto split: list.splits)
  then have "scan fl l = (end_of_input, skip_spaces l)" using finish(7) by (auto simp: scan_token_def is_digit_val_def)
  then show ?case by (simp add: json_tokens.simps [of fl l] tok_of_def)
next
  case (more ws bs k ts r)
  note skip = skip_spaces_left [OF more(6)]
  obtain b bs' where b: "bs = b # bs'" "\<not> space_octet b" using more(2) by (rule lexeme_head)
  with more(1,7) have "dropWhile space_octet (left_octets l) = b # bs' @ r"
    by (simp add: dropWhile_spaces)
  with skip have l1: "current (skip_spaces l) = int b" "left_octets (skip_spaces l) = bs' @ r" by simp_all
  have "number_like k \<Longrightarrow> number_delimiter r"
    using more(5) by (intro lexed_delimiter [OF more(3)]) (cases ts, auto simp: successively_Cons)
  from scan_token_complete [of fl "skip_spaces l" b bs' k r, OF _ skip(1) l1 this] more(2,8) b(1) skip(5) obtain t l2 where
    l2: "scan_token fl (skip_spaces l) = (t, l2)" "tok_of t l2 = k" "takes (skip_spaces l) bs' l2" by auto
  have "\<not> final_tok k" using more(2) by cases (auto simp: punctuation_def literals_def number_tok_kind)
  moreover have "json_tokens fl l2 = ts @ [TEnd]"
  proof (rule more(4))
    show "separated ts" using more(5) by (auto simp: successively_Cons)
    show "lexer_ok l2" "left_octets l2 = r" "decimal_point_char l2 = dp" using l2(3) l1(2) skip(5) more(8) by (simp_all add: takes_def)
    show "plain_scan fl l2" using l2(3) skip(4) by (intro scan_later) (simp add: takes_def)
  qed
  ultimately show ?case using l2 more(9) by (simp add: json_tokens.simps [of fl l])
qed

subsection \<open>The start of the input\<close>

lemma get_unget_get: "lexer_get (lexer_unget (lexer_get l)) = lexer_get l"
proof -
  define l1 where "l1 = (if next_unget l then l\<lparr>next_unget := False\<rparr> else get_character l)"
  have "\<not> next_unget l1" "position l1 = position l"
    by (simp_all add: l1_def get_character_def split: list.split)
  moreover have "lexer_get l = l1\<lparr>
      token_string := (if current l1 \<noteq> eof then token_string l1 @ [to_char_type (current l1)] else token_string l1),
      position := (let p = (position l)\<lparr>chars_read_total := chars_read_total (position l) + 1,
                    chars_read_current_line := chars_read_current_line (position l) + 1\<rparr>
        in if current l1 = 0x0A then p\<lparr>lines_read := lines_read (position l) + 1, chars_read_current_line := 0\<rparr> else p)\<rparr>"
    by (cases l) (simp add: lexer_get_def l1_def get_character_def Let_def split: list.split)
  ultimately show ?thesis
    unfolding lexer_get_def [of "lexer_unget (lexer_get l)"]
    by (cases "current l1 = 0x0A"; cases "current l1 = eof") (simp_all add: lexer_unget_def Let_def)
qed

lemma skip_spaces_again: "skip_spaces (lexer_unget (lexer_get l)) = skip_spaces l"
  by (subst (1 2) skip_spaces.simps) (simp add: get_unget_get)

lemma scan_start_plain:
  assumes "lexer_ok l" "take 1 (left_octets l) \<noteq> [0xEF]"
  shows "plain_scan fl l"
proof (cases "chars_read_total (position l) = 0")
  case True
  have "current (lexer_get l) \<noteq> 0xEF" using assms(2) get_current_left [OF assms(1)] by (auto split: list.splits)
  then have "skip_bom l = (True, lexer_unget (lexer_get l))" by (simp add: skip_bom_def Let_def)
  with True show ?thesis by (simp add: scan_def skip_spaces_again)
qed (simp add: scan_later)

lemma scan_start_bom:
  assumes "lexer_ok l" "chars_read_total (position l) = 0" "left_octets l = 0xEF # 0xBB # 0xBF # r"
  shows "\<exists>l'. json_tokens fl l = json_tokens fl l' \<and> lexer_ok l' \<and> left_octets l' = r \<and> plain_scan fl l' \<and>
    decimal_point_char l' = decimal_point_char l"
proof -
  note g1 = get_reads_byte [OF assms(1,3)]
  note g2 = get_reads_byte [OF reads_ok [OF g1(1)] g1(3)]
  note g3 = get_reads_byte [OF reads_ok [OF g2(1)] g2(3)]
  let ?l = "lexer_get (lexer_get (lexer_get l))"
  have plain: "plain_scan fl ?l" by (intro scan_later) simp
  have "skip_bom l = (True, ?l)" using g1(2) g2(2) g3(2) by (simp add: skip_bom_def Let_def)
  then have "scan fl l = scan fl ?l" using plain assms(2) by (simp add: scan_def)
  then have "json_tokens fl l = json_tokens fl ?l" by (simp add: json_tokens.simps [of fl l] json_tokens.simps [of fl ?l])
  with plain reads_ok [OF g3(1)] g3(3) show ?thesis by (intro exI [of _ ?l]) simp
qed

lemma scan_start_bad:
  assumes "lexer_ok l" "chars_read_total (position l) = 0" "take 1 (left_octets l) = [0xEF]"
    "take 3 (left_octets l) \<noteq> [0xEF, 0xBB, 0xBF]"
  shows "json_tokens fl l = [TError]"
proof -
  obtain r where left: "left_octets l = 0xEF # r" using assms(3) by (cases "left_octets l") auto
  note g1 = get_reads_byte [OF assms(1) left]
  note c2 = get_current_left [OF reads_ok [OF g1(1)]]
  have "\<not> fst (skip_bom l)"
  proof (cases "current (lexer_get (lexer_get l)) = 0xBB")
    case True
    then obtain r' where r: "left_octets (lexer_get l) = 0xBB # r'" using c2 by (auto split: list.splits)
    note g2 = get_reads_byte [OF reads_ok [OF g1(1)] r]
    have "take 1 r' \<noteq> [0xBF]" using assms(4) left r g1(3) by (cases r') (auto simp: numeral_eq_Suc)
    then have "current (lexer_get (lexer_get (lexer_get l))) \<noteq> 0xBF"
      using get_current_left [OF reads_ok [OF g2(1)]] g2(3) by (auto split: list.splits)
    with True g1(2) show ?thesis by (simp add: skip_bom_def Let_def)
  next
    case False
    with g1(2) show ?thesis by (simp add: skip_bom_def Let_def)
  qed
  then have "fst (scan fl l) = parse_error" using assms(2) by (simp add: scan_def case_prod_unfold)
  then show ?thesis by (simp add: json_tokens.simps [of fl l] tok_of_def)
qed

lemma lexed_head: "lexed fl dp ts r \<Longrightarrow> take 1 r \<noteq> [0xEF]"
proof (induction rule: lexed.induct)
  case (finish ws r)
  then show ?case by (cases ws; cases r) (auto simp: space_octet_def)
next
  case (more ws bs k ts r)
  obtain b bs' where "bs = b # bs'" "b \<noteq> 0xEF" using more(2) by (rule lexeme_head)
  with more(1) show ?case by (cases ws) (auto simp: space_octet_def)
qed

theorem json_tokens_lexed:
  assumes "separated ts"
  shows "json_tokens fl (start_lexer fl dp input) = ts @ [TEnd] \<longleftrightarrow> lexed fl dp ts (without_bom (octets_of input))"
proof -
  let ?l = "start_lexer fl dp input"
  have l: "lexer_ok ?l" "chars_read_total (position ?l) = 0" "left_octets ?l = octets_of input" "decimal_point_char ?l = dp"
    by (simp_all add: lexer_new_def lexer_ok_def left_octets_def lexer_rest_def octets_of_def)
  consider (plain) "take 1 (octets_of input) \<noteq> [0xEF]" | (bom) "take 3 (octets_of input) = [0xEF, 0xBB, 0xBF]"
    | (bad) "take 1 (octets_of input) = [0xEF]" "take 3 (octets_of input) \<noteq> [0xEF, 0xBB, 0xBF]" by blast
  then show ?thesis
  proof cases
    case plain
    then have "without_bom (octets_of input) = octets_of input" by (cases "octets_of input") (auto simp: without_bom_def)
    with scan_start_plain [OF l(1), of fl] plain l assms tokens_lexed [OF _ l(1)] lexed_tokens [of fl dp ts] show ?thesis
      by auto
  next
    case bom
    then have left: "left_octets ?l = 0xEF # 0xBB # 0xBF # drop 3 (octets_of input)"
      using append_take_drop_id [of 3 "octets_of input"] l(3) by simp
    from scan_start_bom [OF l(1,2) left, of fl] obtain l' where
      "json_tokens fl ?l = json_tokens fl l'" "lexer_ok l'" "left_octets l' = drop 3 (octets_of input)"
      "plain_scan fl l'" "decimal_point_char l' = dp" using l(4) by auto
    with bom assms tokens_lexed [of fl l' ts] lexed_tokens [of fl dp ts _ l'] show ?thesis
      by (auto simp: without_bom_def)
  next
    case bad
    with scan_start_bad [OF l(1,2), of fl] l(3) have "json_tokens fl ?l \<noteq> ts @ [TEnd]" by (cases ts) auto
    moreover have "without_bom (octets_of input) = octets_of input" using bad by (simp add: without_bom_def)
    with bad lexed_head [of fl dp ts "octets_of input"] have "\<not> lexed fl dp ts (without_bom (octets_of input))" by auto
    ultimately show ?thesis by simp
  qed
qed

subsection \<open>Values\<close>

definition tok_ok :: "'f tok \<Rightarrow> bool" where
  "tok_ok k \<longleftrightarrow>
     (case k of
        TString s \<Rightarrow> utf8_valid (octets_of s)
      | TUnsigned n \<Rightarrow> n < 2 ^ 64
      | TInteger i \<Rightarrow> - (2 ^ 63) \<le> i \<and> i < 2 ^ 63
      | _ \<Rightarrow> True)"

lemma lexeme_ok: "lexeme fl dp bs k \<Longrightarrow> tok_ok k"
proof (induction rule: lexeme.induct)
  case (string a s)
  then show ?case using string_chars_valid by (simp add: tok_ok_def)
next
  case (number bs)
  have "- (2 ^ 63) \<le> - int n \<and> - int n < 2 ^ 63" if "n \<le> 2 ^ 63" for n
    using that of_nat_le_iff [of n "2 ^ 63", where ?'a = int] by simp
  then show ?case by (simp add: tok_ok_def number_tok_def Let_def)
qed (auto simp: punctuation_def literals_def tok_ok_def)

lemma lexed_ok: "lexed fl dp ts bs \<Longrightarrow> list_all tok_ok ts"
  by (induction rule: lexed.induct) (simp_all add: lexeme_ok)

lemma object_set_keys: "set (map fst (object_set k v m)) = insert k (set (map fst m))" "map fst (object_set k v m) = map fst (object_index k m)"
proof -
  show "map fst (object_set k v m) = map fst (object_index k m)" by (simp add: object_set_def case_prod_unfold comp_def)
  then show "set (map fst (object_set k v m)) = insert k (set (map fst m))" using object_index_keys by metis
qed

lemma object_index_values: "kv \<in> set (object_index k m) \<Longrightarrow> kv \<in> set m \<or> kv = (k, JNull)"
  by (induction k m rule: object_index.induct) (auto split: if_splits)

lemma object_set_wf:
  assumes "json_wf fl (JObject m)" "utf8_valid (octets_of k)" "json_wf fl v"
  shows "json_wf fl (JObject (object_set k v m))"
proof -
  have "object_ok (object_set k v m)" using assms(1) object_index_ok [of m k] by (simp add: object_ok_def object_set_keys(2))
  moreover have "utf8_valid (octets_of (fst kv)) \<and> json_wf fl (snd kv)" if "kv \<in> set (object_set k v m)" for kv
    using that assms object_index_values [of _ k m] by (fastforce simp: object_set_def split: if_splits)
  ultimately show ?thesis by simp
qed

lemma members_wf:
  "list_all (\<lambda>kv. utf8_valid (octets_of (fst kv)) \<and> json_wf fl (snd kv)) kvs \<Longrightarrow> json_wf fl (JObject (members kvs))"
proof (induction kvs rule: rev_induct)
  case Nil
  show ?case by (simp add: members_def object_ok_def)
next
  case (snoc kv kvs)
  then show ?case by (cases kv) (simp add: members_snoc object_set_wf del: json_wf.simps(2))
qed

lemma commas_ok: "list_all P (commas tss) \<Longrightarrow> ts \<in> set tss \<Longrightarrow> list_all P ts"
  by (induction tss rule: commas.induct) auto

lemma json_text_wf: "json_text fl ts j \<Longrightarrow> list_all tok_ok ts \<Longrightarrow> json_wf fl j"
proof (induction rule: json_text.induct)
  case (scalar t j)
  then show ?case by (cases t) (auto simp: scalar_json_def tok_ok_def split: if_splits)
next
  case (array tss js)
  then have "list_all tok_ok ts" if "ts \<in> set tss" for ts using that commas_ok by auto
  with array(1) show ?case by (fastforce simp: list_all2_conv_all_nth in_set_conv_nth)
next
  case (object tss kvs)
  then have ok: "list_all tok_ok ts" if "ts \<in> set tss" for ts using that commas_ok by auto
  have "utf8_valid (octets_of (fst (kvs ! i))) \<and> json_wf fl (snd (kvs ! i))" if i: "i < length kvs" for i
  proof -
    from object(1) i obtain vs where vs: "tss ! i = TString (fst (kvs ! i)) # TColon # vs"
      "list_all tok_ok vs \<longrightarrow> json_wf fl (snd (kvs ! i))" "i < length tss"
      by (auto simp: list_all2_conv_all_nth)
    with ok [OF nth_mem [OF vs(3)]] show ?thesis by (simp add: tok_ok_def)
  qed
  then show ?case by (intro members_wf) (simp add: list_all_length)
qed

subsection \<open>Parsing\<close>

lemma json_parse_accepts:
  "json_parse fl dp True input = Inr j \<longleftrightarrow>
     (\<exists>ts. json_tokens fl (start_lexer fl dp input) = ts @ [TEnd] \<and> json_text fl ts j)"
proof -
  let ?ts = "json_tokens fl (start_lexer fl dp input)"
  have "json_parse fl dp True input = Inr j \<longleftrightarrow> pda_run fl (Value [] ?ts) = Some (j, [TEnd])"
    using json_parse_run [where fl = fl and dp = dp and input = input and al = True]
    by (cases "pda_run fl (Value [] ?ts)") (auto split: if_splits simp del: pda_run_simps)
  then show ?thesis by (simp only: pda_run_grammar)
qed

lemma json_parse_text:
  "json_parse fl dp True input = Inr j \<longleftrightarrow>
     (\<exists>ts. lexed fl dp ts (without_bom (octets_of input)) \<and> json_text fl ts j)"
  unfolding json_parse_accepts using json_tokens_lexed json_text_separated by blast

lemma json_parse_wf: "json_parse fl dp True input = Inr j \<Longrightarrow> json_wf fl j"
  unfolding json_parse_text using json_text_wf lexed_ok by blast

lemma json_parse_total:
  "(\<exists>j. json_parse fl dp True input = Inr j) \<or>
   (\<exists>n msg. (n = 101 \<or> n = 406) \<and> json_parse fl dp True input = Inl (Json_exception n msg))"
  using json_parse_run [where fl = fl and dp = dp and input = input and al = True]
  by (auto simp: parse_ids_def simp del: pda_run_simps split: option.splits if_splits)

text \<open>
  C29: \<^verbatim>\<open>basic_json::parse\<close> accepts exactly the JSON texts and returns the value they denote. Behind an optional
  byte order mark the input splits into lexemes with white space around them, and the tokens are a text of
  the grammar; a key that occurs twice keeps its last value. The text ends with the input or at a NUL byte.
\<close>

theorem json_parse_correct:
  "json_parse fl dp True input = Inr j \<longleftrightarrow>
     (\<exists>ts. lexed fl dp ts (without_bom (octets_of input)) \<and> json_text fl ts j)"
  by (rule json_parse_text)

text \<open>
  C30: parsing always ends, with a value or with one of two errors, a syntax error (101) or a number too large
  for a floating-point value (406); no other error of the library is thrown, in particular not the errors 102 and 103 that its
  documentation announces for surrogates and code points, which the code reports as 101. With
  exceptions switched off the same inputs give the same values and every error the discarded value.
\<close>

theorem json_parse_error:
  "case json_parse fl dp True input of
     Inr j \<Rightarrow> json_parse fl dp False input = Inr j
   | Inl e \<Rightarrow> (\<exists>msg. e = Json_exception 101 msg \<or> e = Json_exception 406 msg) \<and> json_parse fl dp False input = Inr JDiscarded"
  using json_parse_run [where fl = fl and dp = dp and input = input and al = True]
    json_parse_run [where fl = fl and dp = dp and input = input and al = False]
  by (auto simp: parse_ids_def simp del: pda_run_simps split: option.splits if_splits)

text \<open>
  C31: the values the parser returns are well-formed: the keys of every object are strictly sorted, every
  string and key is well-formed UTF-8, integers fit into 64 bits, floating-point numbers are finite.
\<close>

theorem json_parse_typed:
  assumes "json_parse fl dp True input = Inr j"
  shows "json_wf fl j"
  using json_parse_wf [OF assms] .

lemma json_parse_example: "json_parse fl dp True ''[null,true]'' = Inr (JArray [JNull, JBoolean True])"
proof -
  have lex: "lexed fl dp [] []" using finish [of "[]" "[]"] by simp
  have more: "lexeme fl dp bs k \<Longrightarrow> lexed fl dp ts r \<Longrightarrow> lexed fl dp (k # ts) (bs @ r)" for bs k ts r
    using more [of "[]"] by simp
  have "lexed fl dp [TBegin_array, TNull, TComma, TTrue, TEnd_array]
      ([0x5B] @ octets_of ''null'' @ [0x2C] @ octets_of ''true'' @ [0x5D] @ [])"
    by (intro more punct literal lex) (simp_all add: punctuation_def literals_def)
  then have "lexed fl dp [TBegin_array, TNull, TComma, TTrue, TEnd_array] (without_bom (octets_of ''[null,true]''))"
    by (simp add: without_bom_def byte_val_def)
  moreover have "json_text fl (TBegin_array # commas [[TNull], [TTrue]] @ [TEnd_array]) (JArray [JNull, JBoolean True])"
    by (intro array) (simp add: scalar scalar_json_def)
  ultimately show ?thesis by (auto simp: json_parse_text)
qed

theorem json_parse_typed_witness:
  "json_wf \<lparr>strtod = length, isfinite = (\<lambda>n. n < 400), float_to_int = (\<lambda>n. Some (int n)), float_to_chars = (\<lambda>n. replicate n CHR ''1'')\<rparr>
     (JArray [JNull, JBoolean True])"
  by (rule json_parse_typed [OF json_parse_example [where dp = "CHR ''.''"]])

end
