(* ===== verification/Config.thy ===== *)
theory Config
  imports Static Statistics Json_Tokens
begin

text \<open>
  The settings of the server: the static members with their defaults, the configuration file and
  the first half of the constructor of \<^verbatim>\<open>HttpServer\<close> (\<^verbatim>\<open>server/server.cpp\<close>), over the model of the JSON
  library. The constructor indexes the document with \<^verbatim>\<open>operator[]\<close>, which may change it; the document is
  therefore part of the state.
\<close>

text \<open>\<^verbatim>\<open>catch (json::exception &ex)\<close>: other errors go on.\<close>

definition catch_json :: "'a \<Rightarrow> cxx_error \<Rightarrow> 'a res" where
  "catch_json x e = (if is_json_exception e then Inr x else Inl e)"

definition parseConfigurationFile :: "'f float_ops \<Rightarrow> char \<Rightarrow> file_system \<Rightarrow> bytes \<Rightarrow> 'f json res" where
  "parseConfigurationFile fl dp fs filename =
     (case fs (c_str filename) of
        None \<Rightarrow> Inr JNull
      | Some buffer \<Rightarrow>
          (case json_parse fl dp True buffer of
             Inl e \<Rightarrow> catch_json JNull e
           | Inr settings \<Rightarrow> Inr settings))"

subsection \<open>The settings\<close>

record config =
  numberThreads :: size_t
  maxConnection :: size_t
  maxInputBufferLength :: size_t
  maxOutputBufferLength' :: size_t
  timeLimitRequestSeconds :: int
  limitLocalTasks :: int
  static_conf :: static_config
  isCompressStaticResources :: bool
  isStatisticsEnable :: bool
  statisticsUrl :: bytes

definition default_config :: "size_t \<Rightarrow> config" where
  "default_config n =
     \<lparr>numberThreads = n, maxConnection = 10000, maxInputBufferLength = 1024 * 1024 * 2,
      maxOutputBufferLength' = 1024 * 1024 * 75, timeLimitRequestSeconds = 60, limitLocalTasks = 100,
      static_conf = \<lparr>pathToStaticResources = [], isCachedStaticResources = True, mimeTypesMap = Map.empty\<rparr>,
      isCompressStaticResources = False, isStatisticsEnable = False,
      statisticsUrl = ''^/onyxup-status-page$''\<rparr>"

text \<open>\<^verbatim>\<open>settings[sec][key]\<close>: the changed document and the element.\<close>

definition json_subscript2 :: "bytes \<Rightarrow> bytes \<Rightarrow> 'f json \<Rightarrow> ('f json \<times> 'f json) res" where
  "json_subscript2 sec key settings =
     bind_res (json_subscript sec settings) (\<lambda>(settings1, section).
       bind_res (json_subscript key section) (\<lambda>(section1, j).
         Inr (json_modify [Key sec] (\<lambda>_. section1) settings1, j)))"

text \<open>
  One block \<^verbatim>\<open>try { if (section.find(key) != end) member = settings[sec][key].get<T>(); }\<close> for the copy
  \<open>section\<close> of a section.
\<close>

definition read_field ::
  "('f json \<Rightarrow> 'v res) \<Rightarrow> ('v \<Rightarrow> config \<Rightarrow> config) \<Rightarrow> bytes \<Rightarrow> bytes \<Rightarrow> 'f json \<Rightarrow>
   'f json \<times> config \<Rightarrow> ('f json \<times> config) res" where
  "read_field get upd sec key section sc =
     (case json_find key section of
        None \<Rightarrow> Inr sc
      | Some _ \<Rightarrow>
          (case json_subscript2 sec key (fst sc) of
             Inl e \<Rightarrow> catch_json sc e
           | Inr (settings, j) \<Rightarrow>
               (case get j of
                  Inl e \<Rightarrow> catch_json (settings, snd sc) e
                | Inr v \<Rightarrow> Inr (settings, upd v (snd sc)))))"

definition read_server :: "'f float_ops \<Rightarrow> 'f json \<Rightarrow> 'f json \<times> config \<Rightarrow> ('f json \<times> config) res" where
  "read_server fl section sc =
     (let field = (\<lambda>upd key. read_field (get_int fl) upd ''server'' key section)
      in bind_res (field (\<lambda>v c. c\<lparr>numberThreads := of_int v\<rparr>) ''threads'' sc)
           (\<lambda>s1. bind_res (field (\<lambda>v c. c\<lparr>maxConnection := of_int v\<rparr>) ''max_connection'' s1)
           (\<lambda>s2. bind_res (field (\<lambda>v c. c\<lparr>maxInputBufferLength := of_int v\<rparr>) ''max_input_length_buffer'' s2)
           (\<lambda>s3. bind_res (field (\<lambda>v c. c\<lparr>maxOutputBufferLength' := of_int v\<rparr>) ''max_output_length_buffer'' s3)
           (\<lambda>s4. bind_res (field (\<lambda>v c. c\<lparr>timeLimitRequestSeconds := v\<rparr>) ''time_limit_request_seconds'' s4)
           (\<lambda>s5. field (\<lambda>v c. c\<lparr>limitLocalTasks := v\<rparr>) ''limit_local_tasks'' s5))))))"

definition read_static :: "'f json \<Rightarrow> 'f json \<times> config \<Rightarrow> ('f json \<times> config) res" where
  "read_static section sc =
     bind_res (read_field get_string (\<lambda>v c. c\<lparr>static_conf := (static_conf c)\<lparr>pathToStaticResources := v\<rparr>\<rparr>)
         ''static-resources'' ''directory'' section sc)
       (\<lambda>s1. bind_res (read_field get_bool (\<lambda>v c. c\<lparr>isCompressStaticResources := v\<rparr>)
           ''static-resources'' ''compress'' section s1)
       (\<lambda>s2. read_field get_bool (\<lambda>v c. c\<lparr>static_conf := (static_conf c)\<lparr>isCachedStaticResources := v\<rparr>\<rparr>)
           ''static-resources'' ''cache'' section s2))"

text \<open>
  The block for statistics tests for the section but then indexes the whole document:
  \<^verbatim>\<open>settings["enable"]\<close> and \<^verbatim>\<open>settings["url"]\<close>.
\<close>

definition read_top :: "('f json \<Rightarrow> 'v res) \<Rightarrow> ('v \<Rightarrow> config \<Rightarrow> config) \<Rightarrow> bytes \<Rightarrow> 'f json \<times> config \<Rightarrow> ('f json \<times> config) res" where
  "read_top get upd key sc =
     (case json_subscript key (fst sc) of
        Inl e \<Rightarrow> catch_json sc e
      | Inr (settings, j) \<Rightarrow>
          (case get j of
             Inl e \<Rightarrow> catch_json (settings, snd sc) e
           | Inr v \<Rightarrow> Inr (settings, upd v (snd sc))))"

definition read_statistics :: "'f json \<times> config \<Rightarrow> ('f json \<times> config) res" where
  "read_statistics sc =
     bind_res (read_top get_bool (\<lambda>v c. c\<lparr>isStatisticsEnable := v\<rparr>) ''enable'' sc)
       (\<lambda>s1. read_top get_string (\<lambda>v c. c\<lparr>statisticsUrl := v\<rparr>) ''url'' s1)"

text \<open>\<^verbatim>\<open>if (settings.find(sec) != end) { json copy = settings[sec]; ... }\<close>.\<close>

definition read_section ::
  "bytes \<Rightarrow> ('f json \<Rightarrow> 'f json \<times> config \<Rightarrow> ('f json \<times> config) res) \<Rightarrow> 'f json \<times> config \<Rightarrow> ('f json \<times> config) res" where
  "read_section sec body sc =
     (case json_find sec (fst sc) of
        None \<Rightarrow> Inr sc
      | Some _ \<Rightarrow> bind_res (json_subscript sec (fst sc)) (\<lambda>(settings, section). body section (settings, snd sc)))"

definition read_settings :: "'f float_ops \<Rightarrow> 'f json \<times> config \<Rightarrow> ('f json \<times> config) res" where
  "read_settings fl sc =
     bind_res (read_section ''server'' (read_server fl) sc)
       (\<lambda>s1. bind_res (read_section ''static-resources'' read_static s1)
       (\<lambda>s2. case json_find ''statistics'' (fst s2) of None \<Rightarrow> Inr s2 | Some _ \<Rightarrow> read_statistics s2))"

text \<open>
  The allocations of the constructor: arrays of pointers by \<^verbatim>\<open>new[]\<close>, which throws \<^verbatim>\<open>std::bad_array_new_length\<close> (a
  \<^verbatim>\<open>std::bad_alloc\<close>) when the size in bytes is no \<^verbatim>\<open>ptrdiff_t\<close>, and vectors with elements of eight bytes, whose
  \<^verbatim>\<open>resize\<close> throws \<^verbatim>\<open>std::length_error\<close> in that case. \<open>granted\<close> tells whether there is memory.
\<close>

definition new_array :: "bool \<Rightarrow> size_t \<Rightarrow> unit res" where
  "new_array granted n = (if unat n < 2 ^ 60 \<and> granted then Inr () else Inl Bad_alloc)"

definition resize_vector :: "bool \<Rightarrow> size_t \<Rightarrow> unit res" where
  "resize_vector granted n =
     (if unat n \<ge> 2 ^ 60 then Inl Length_error else if granted then Inr () else Inl Bad_alloc)"

text \<open>
  The constructor up to the start of the threads: configuration, the arrays \<^verbatim>\<open>buffers\<close> and \<^verbatim>\<open>requests\<close>, the statistics
  service, \<^verbatim>\<open>aliveSockets\<close>, the type map, at least two threads and their pool. \<open>memory k\<close> tells whether the \<open>k\<close>-th of
  these allocations is granted. What the arrays then hold is in \<open>HttpServer_new\<close>.
\<close>

definition configure :: "(nat \<Rightarrow> bool) \<Rightarrow> 'f float_ops \<Rightarrow> char \<Rightarrow> file_system \<Rightarrow> size_t \<Rightarrow> config res" where
  "configure memory fl dp fs n =
     bind_res (parseConfigurationFile fl dp fs ''/var/onyxup/config.json'') (\<lambda>settings.
     bind_res (read_settings fl (settings, default_config n)) (\<lambda>(_, c1).
     bind_res (new_array (memory 0) (maxConnection c1)) (\<lambda>_.
     bind_res (new_array (memory 1) (maxConnection c1)) (\<lambda>_.
     bind_res (if memory 2 then Inr () else Inl Bad_alloc) (\<lambda>_.
     bind_res (resize_vector (memory 3) (maxConnection c1)) (\<lambda>_.
       let c2 = c1\<lparr>static_conf := (static_conf c1)\<lparr>mimeTypesMap := generateMimeTypesMap\<rparr>\<rparr>;
           c3 = (if numberThreads c2 < 2 then c2\<lparr>numberThreads := 2\<rparr> else c2)
       in bind_res (resize_vector (memory 4) (numberThreads c3)) (\<lambda>_. Inr c3)))))))"

subsection \<open>Opening the server socket\<close>

text \<open>
  The results of the system calls of the second half of the constructor, in order, and the
  descriptors it closes before it throws.
\<close>

record socket_env =
  sys_socket :: int
  sys_setsockopt :: int
  sys_nonblocking :: int
  sys_bind :: int
  sys_listen :: int
  sys_epoll_create :: int

definition open_socket :: "socket_env \<Rightarrow> (int \<times> int) res \<times> int list" where
  "open_socket e =
     (let fd = sys_socket e
      in if fd < 0 then (Inl OnyxupException, [])
         else if sys_setsockopt e < 0 then (Inl OnyxupException, [fd])
         else if sys_nonblocking e = - 1 then (Inl OnyxupException, [])
         else if sys_bind e < 0 then (Inl OnyxupException, [fd])
         else if sys_listen e < 0 then (Inl OnyxupException, [])
         else if sys_epoll_create e = - 1 then (Inl OnyxupException, [fd])
         else (Inr (fd, sys_epoll_create e), []))"

subsection \<open>Properties\<close>

definition opt_of :: "'a res \<Rightarrow> 'a option" where
  "opt_of r = (case r of Inl _ \<Rightarrow> None | Inr x \<Rightarrow> Some x)"

definition setting :: "('f json \<Rightarrow> 'v res) \<Rightarrow> bytes \<Rightarrow> bytes \<Rightarrow> 'f json \<Rightarrow> 'v option" where
  "setting get sec key settings =
     Option.bind (Option.bind (json_find sec settings) (json_find key)) (\<lambda>j. opt_of (get j))"

definition or_default :: "'v \<Rightarrow> 'v option \<Rightarrow> 'v" where
  "or_default d v = (case v of None \<Rightarrow> d | Some x \<Rightarrow> x)"

lemma case_option_same [simp]: "(case x of None \<Rightarrow> a | Some v \<Rightarrow> a) = a"
  by (cases x) simp_all

text \<open>The file yields null or a well-formed document; every error of the parser is caught.\<close>

lemma parseConfigurationFile_wf:
  obtains settings where "parseConfigurationFile fl dp fs f = Inr settings" "json_wf fl settings"
proof (cases "fs (c_str f)")
  case None
  then show thesis by (intro that [of JNull]) (simp_all add: parseConfigurationFile_def)
next
  case (Some buffer)
  show thesis
  proof (cases "json_parse fl dp True buffer")
    case (Inl e)
    with json_parse_total [of fl dp buffer] have "is_json_exception e" by (auto simp: is_json_exception_def)
    with Some Inl show thesis by (intro that [of JNull]) (simp_all add: parseConfigurationFile_def catch_json_def)
  next
    case (Inr j)
    with json_parse_wf [OF this] Some show thesis by (intro that [of j]) (simp_all add: parseConfigurationFile_def)
  qed
qed

definition only_json_errors :: "('f json \<Rightarrow> 'v res) \<Rightarrow> bool" where
  "only_json_errors get \<longleftrightarrow> (\<forall>j e. get j = Inl e \<longrightarrow> is_json_exception e)"

lemma getters_ok [simp]: "only_json_errors get_bool" "only_json_errors get_string"
  by (auto simp: only_json_errors_def get_bool_def get_string_def split: json.splits)

text \<open>A setting that is a floating-point number without a counterpart in \<^verbatim>\<open>int\<close>: its conversion is undefined.\<close>

definition no_int :: "'f float_ops \<Rightarrow> bytes \<Rightarrow> 'f json \<Rightarrow> bool" where
  "no_int fl key section = (case json_find key section of Some (JFloat f) \<Rightarrow> float_to_int fl f = None | _ \<Rightarrow> False)"

definition int_keys :: "bytes list" where
  "int_keys = [''threads'', ''max_connection'', ''max_input_length_buffer'', ''max_output_length_buffer'',
     ''time_limit_request_seconds'', ''limit_local_tasks'']"

lemma get_int_error:
  "get_int fl j = Inl e \<Longrightarrow> if (\<exists>f. j = JFloat f \<and> float_to_int fl f = None) then e = Undefined else is_json_exception e"
  by (auto simp: get_int_def split: json.splits option.splits)

lemma json_wf_find:
  assumes "json_wf fl j" "json_find k j = Some v"
  shows "json_wf fl v" "\<exists>m. j = JObject m \<and> object_ok m \<and> map_of m k = Some v"
proof -
  from assms obtain m where m: "j = JObject m" "map_of m k = Some v" by (auto simp: json_find_def split: json.splits)
  with assms(1) map_of_SomeD [OF m(2)] show "json_wf fl v" "\<exists>m. j = JObject m \<and> object_ok m \<and> map_of m k = Some v"
    by force+
qed

lemma json_modify_same:
  assumes "object_ok m" "map_of m k = Some v"
  shows "json_modify [Key k] (\<lambda>_. v) (JObject m) = JObject m"
proof -
  have "distinct (map fst m)" using assms(1) by (simp add: object_ok_def strict_sorted_iff)
  then have "a = k \<Longrightarrow> w = v" if "(a, w) \<in> set m" for a w using that assms(2) by (auto simp: map_of_eq_Some_iff)
  then have "map (\<lambda>(a, w). (a, if a = k then v else w)) m = map id m" by (intro map_cong) auto
  then show ?thesis by (simp cong: if_cong)
qed

lemma json_subscript2_found:
  assumes "json_wf fl settings" "json_find sec settings = Some section" "json_find key section = Some j"
  shows "json_subscript2 sec key settings = Inr (settings, j)"
proof -
  from json_wf_find [OF assms(1,2)] obtain m where m: "settings = JObject m" "object_ok m" "map_of m sec = Some section"
    and wf: "json_wf fl section" by auto
  have "json_subscript sec settings = Inr (settings, section)" using json_subscript_found [OF assms(2)] m by auto
  moreover from json_wf_find(2) [OF wf assms(3)] have "json_subscript key section = Inr (section, j)"
    using json_subscript_found [OF assms(3)] by auto
  moreover have "json_modify [Key sec] (\<lambda>_. section) settings = settings" using json_modify_same [OF m(2,3)] m(1) by simp
  ultimately show ?thesis by (simp add: json_subscript2_def)
qed

text \<open>A field that is read from its own section leaves the document as it is.\<close>

lemma read_field_eq:
  assumes "json_wf fl settings" "json_find sec settings = Some section" "only_json_errors get"
  shows "read_field get upd sec key section (settings, cfg) =
    Inr (settings, case Option.bind (json_find key section) (\<lambda>j. opt_of (get j)) of None \<Rightarrow> cfg | Some v \<Rightarrow> upd v cfg)"
proof (cases "json_find key section")
  case None
  then show ?thesis by (simp add: read_field_def)
next
  case (Some j)
  with json_subscript2_found [OF assms(1,2) Some] assms(3) show ?thesis
    by (auto simp: read_field_def opt_of_def catch_json_def only_json_errors_def split: sum.split)
qed

lemma read_int_eq:
  assumes "json_wf fl settings" "json_find sec settings = Some section"
  shows "read_field (get_int fl') upd sec key section (settings, cfg) =
    (if no_int fl' key section then Inl Undefined
     else Inr (settings, case Option.bind (json_find key section) (\<lambda>j. opt_of (get_int fl' j)) of None \<Rightarrow> cfg | Some v \<Rightarrow> upd v cfg))"
proof (cases "json_find key section")
  case None
  then show ?thesis by (simp add: read_field_def no_int_def)
next
  case (Some j)
  have bad: "no_int fl' key section \<longleftrightarrow> (\<exists>f. j = JFloat f \<and> float_to_int fl' f = None)"
    using Some by (auto simp: no_int_def split: json.splits)
  show ?thesis
  proof (cases "get_int fl' j")
    case (Inl e)
    with get_int_error [OF this] bad Some json_subscript2_found [OF assms Some] show ?thesis
      by (auto simp: read_field_def opt_of_def catch_json_def split: if_splits)
  next
    case (Inr v)
    then have "\<not> no_int fl' key section" unfolding bad by (auto simp: get_int_def split: option.splits)
    with Inr Some json_subscript2_found [OF assms Some] show ?thesis by (simp add: read_field_def opt_of_def)
  qed
qed

text \<open>What the blocks leave in the configuration.\<close>

definition update_field ::
  "('f json \<Rightarrow> 'v res) \<Rightarrow> ('v \<Rightarrow> config \<Rightarrow> config) \<Rightarrow> bytes \<Rightarrow> 'f json \<Rightarrow> config \<Rightarrow> config" where
  "update_field get upd key section cfg =
     (case Option.bind (json_find key section) (\<lambda>j. opt_of (get j)) of None \<Rightarrow> cfg | Some v \<Rightarrow> upd v cfg)"

definition server_part :: "'f float_ops \<Rightarrow> 'f json \<Rightarrow> config \<Rightarrow> config" where
  "server_part fl section cfg =
     update_field (get_int fl) (\<lambda>v c. c\<lparr>limitLocalTasks := v\<rparr>) ''limit_local_tasks'' section
     (update_field (get_int fl) (\<lambda>v c. c\<lparr>timeLimitRequestSeconds := v\<rparr>) ''time_limit_request_seconds'' section
     (update_field (get_int fl) (\<lambda>v c. c\<lparr>maxOutputBufferLength' := of_int v\<rparr>) ''max_output_length_buffer'' section
     (update_field (get_int fl) (\<lambda>v c. c\<lparr>maxInputBufferLength := of_int v\<rparr>) ''max_input_length_buffer'' section
     (update_field (get_int fl) (\<lambda>v c. c\<lparr>maxConnection := of_int v\<rparr>) ''max_connection'' section
     (update_field (get_int fl) (\<lambda>v c. c\<lparr>numberThreads := of_int v\<rparr>) ''threads'' section cfg)))))"

definition static_part :: "'f json \<Rightarrow> config \<Rightarrow> config" where
  "static_part section cfg =
     update_field get_bool (\<lambda>v c. c\<lparr>static_conf := (static_conf c)\<lparr>isCachedStaticResources := v\<rparr>\<rparr>) ''cache'' section
     (update_field get_bool (\<lambda>v c. c\<lparr>isCompressStaticResources := v\<rparr>) ''compress'' section
     (update_field get_string (\<lambda>v c. c\<lparr>static_conf := (static_conf c)\<lparr>pathToStaticResources := v\<rparr>\<rparr>) ''directory'' section
       cfg))"

lemma read_server_eq:
  "json_wf fl settings \<Longrightarrow> json_find ''server'' settings = Some section \<Longrightarrow>
     read_server fl' section (settings, cfg) =
       (if list_ex (\<lambda>key. no_int fl' key section) int_keys then Inl Undefined else Inr (settings, server_part fl' section cfg))"
  by (simp add: read_server_def read_int_eq server_part_def update_field_def Let_def int_keys_def)

lemma read_static_eq:
  "json_wf fl settings \<Longrightarrow> json_find ''static-resources'' settings = Some section \<Longrightarrow>
     read_static section (settings, cfg) = Inr (settings, static_part section cfg)"
  by (simp add: read_static_def read_field_eq static_part_def update_field_def)

lemma read_section_eq:
  assumes "json_wf fl settings"
    and "\<And>section. json_find sec settings = Some section \<Longrightarrow> body section (settings, cfg) = Inr (settings, g section cfg)"
  shows "read_section sec body (settings, cfg) =
    Inr (settings, case json_find sec settings of None \<Rightarrow> cfg | Some section \<Rightarrow> g section cfg)"
proof (cases "json_find sec settings")
  case (Some sc)
  with json_wf_find(2) [OF assms(1) Some] json_subscript_found [OF Some]
  have "json_subscript sec settings = Inr (settings, sc)" by auto
  with Some assms(2) show ?thesis by (simp add: read_section_def)
qed (simp add: read_section_def)

text \<open>
  \<^verbatim>\<open>settings["enable"]\<close> and \<^verbatim>\<open>settings["url"]\<close> add the keys they miss, with null, which is neither a boolean
  nor a string.
\<close>

lemma json_subscript_find:
  assumes "object_ok m"
  shows "\<exists>m'. json_subscript key (JObject m) = Inr (JObject m', or_default JNull (map_of m key)) \<and> object_ok m' \<and>
    (\<forall>k. k \<noteq> key \<longrightarrow> map_of m' k = map_of m k)"
proof (cases "key \<in> fst ` set m")
  case True
  then obtain v where "map_of m key = Some v" using weak_map_of_SomeI by fastforce
  with True assms show ?thesis by (simp add: json_subscript_def object_index_old or_default_def)
next
  case False
  then have "map_of m key = None" by (simp add: map_of_eq_None_iff)
  with False assms show ?thesis
    by (simp add: json_subscript_def object_index_new object_index_ok or_default_def)
qed

definition update_top :: "('f json \<Rightarrow> 'v res) \<Rightarrow> ('v \<Rightarrow> config \<Rightarrow> config) \<Rightarrow> 'f json option \<Rightarrow> config \<Rightarrow> config" where
  "update_top get upd j cfg = (case opt_of (get (or_default JNull j)) of None \<Rightarrow> cfg | Some v \<Rightarrow> upd v cfg)"

lemma read_top_eq:
  assumes "object_ok m" "only_json_errors get"
  shows "\<exists>m'. read_top get upd key (JObject m, cfg) = Inr (JObject m', update_top get upd (map_of m key) cfg) \<and>
    object_ok m' \<and> (\<forall>k. k \<noteq> key \<longrightarrow> map_of m' k = map_of m k)"
proof -
  from json_subscript_find [OF assms(1), of key] obtain m' where
    m': "json_subscript key (JObject m) = Inr (JObject m', or_default JNull (map_of m key))" "object_ok m'"
    "\<And>k. k \<noteq> key \<Longrightarrow> map_of m' k = map_of m k" by blast
  have "read_top get upd key (JObject m, cfg) = Inr (JObject m', update_top get upd (map_of m key) cfg)"
    using m'(1) assms(2)
    by (auto simp: read_top_def update_top_def opt_of_def catch_json_def only_json_errors_def split: sum.split)
  with m'(2,3) show ?thesis by blast
qed

definition statistics_part :: "'f json \<Rightarrow> config \<Rightarrow> config" where
  "statistics_part settings cfg =
     update_top get_string (\<lambda>v c. c\<lparr>statisticsUrl := v\<rparr>) (json_find ''url'' settings)
     (update_top get_bool (\<lambda>v c. c\<lparr>isStatisticsEnable := v\<rparr>) (json_find ''enable'' settings) cfg)"

lemma read_statistics_eq:
  assumes "object_ok m"
  shows "\<exists>m'. read_statistics (JObject m, cfg) = Inr (JObject m', statistics_part (JObject m) cfg)"
proof -
  from read_top_eq [OF assms, of get_bool "\<lambda>v c. c\<lparr>isStatisticsEnable := v\<rparr>" "''enable''" cfg] obtain m1 where
    m1: "read_top get_bool (\<lambda>v c. c\<lparr>isStatisticsEnable := v\<rparr>) ''enable'' (JObject m, cfg) =
      Inr (JObject m1, update_top get_bool (\<lambda>v c. c\<lparr>isStatisticsEnable := v\<rparr>) (map_of m ''enable'') cfg)"
    "object_ok m1" "map_of m1 ''url'' = map_of m ''url''" by auto
  from read_top_eq [OF m1(2), of get_string "\<lambda>v c. c\<lparr>statisticsUrl := v\<rparr>" "''url''"] m1(1,3) show ?thesis
    by (force simp: read_statistics_def statistics_part_def json_find_def)
qed

text \<open>The whole block of settings.\<close>

definition apply_settings :: "'f float_ops \<Rightarrow> 'f json \<Rightarrow> config \<Rightarrow> config" where
  "apply_settings fl settings cfg =
     (let c1 = (case json_find ''server'' settings of None \<Rightarrow> cfg | Some section \<Rightarrow> server_part fl section cfg);
          c2 = (case json_find ''static-resources'' settings of None \<Rightarrow> c1 | Some section \<Rightarrow> static_part section c1)
      in case json_find ''statistics'' settings of None \<Rightarrow> c2 | Some _ \<Rightarrow> statistics_part settings c2)"

text \<open>Some setting of the section \<^verbatim>\<open>server\<close> that has to be an integer has no counterpart in \<^verbatim>\<open>int\<close>.\<close>

definition unrepresentable :: "'f float_ops \<Rightarrow> 'f json \<Rightarrow> bool" where
  "unrepresentable fl settings =
     (case json_find ''server'' settings of None \<Rightarrow> False | Some section \<Rightarrow> list_ex (\<lambda>key. no_int fl key section) int_keys)"

lemma read_settings_eq:
  assumes "json_wf fl settings"
  shows "\<exists>settings'. read_settings fl (settings, cfg) =
    (if unrepresentable fl settings then Inl Undefined else Inr (settings', apply_settings fl settings cfg))"
proof (cases "unrepresentable fl settings")
  case True
  then obtain part where sec: "json_find ''server'' settings = Some part" "list_ex (\<lambda>key. no_int fl key part) int_keys"
    by (auto simp: unrepresentable_def split: option.splits)
  with json_wf_find(2) [OF assms sec(1)] json_subscript_found [OF sec(1)]
  have "json_subscript ''server'' settings = Inr (settings, part)" by auto
  with sec True show ?thesis by (simp add: read_settings_def read_section_def read_server_eq [OF assms])
next
  case False
  let ?c1 = "case json_find ''server'' settings of None \<Rightarrow> cfg | Some section \<Rightarrow> server_part fl section cfg"
  let ?c2 = "case json_find ''static-resources'' settings of None \<Rightarrow> ?c1 | Some section \<Rightarrow> static_part section ?c1"
  have "read_section ''server'' (read_server fl) (settings, cfg) = Inr (settings, ?c1)"
    by (rule read_section_eq [OF assms]) (use False in \<open>simp add: read_server_eq [OF assms] unrepresentable_def\<close>)
  moreover have "read_section ''static-resources'' read_static (settings, ?c1) = Inr (settings, ?c2)"
    by (rule read_section_eq [OF assms]) (rule read_static_eq [OF assms])
  moreover have "\<exists>settings'. read_statistics (settings, c) = Inr (settings', statistics_part settings c)"
    if "json_find ''statistics'' settings = Some x" for x c
    using json_wf_find(2) [OF assms that] read_statistics_eq by blast
  ultimately show ?thesis using False
    by (cases "json_find ''statistics'' settings") (simp_all add: read_settings_def apply_settings_def Let_def)
qed

text \<open>The configuration that the settings give, and what the allocations make of it.\<close>

definition final_config :: "'f float_ops \<Rightarrow> 'f json \<Rightarrow> size_t \<Rightarrow> config" where
  "final_config fl settings n =
     (let c1 = apply_settings fl settings (default_config n);
          c2 = c1\<lparr>static_conf := (static_conf c1)\<lparr>mimeTypesMap := generateMimeTypesMap\<rparr>\<rparr>
      in if numberThreads c2 < 2 then c2\<lparr>numberThreads := 2\<rparr> else c2)"

definition arrays_granted :: "(nat \<Rightarrow> bool) \<Rightarrow> config \<Rightarrow> bool" where
  "arrays_granted memory cfg \<longleftrightarrow> unat (maxConnection cfg) < 2 ^ 60 \<and> unat (numberThreads cfg) < 2 ^ 60 \<and> list_all memory [0 ..< 5]"

lemma configure_eq:
  assumes "parseConfigurationFile fl dp fs ''/var/onyxup/config.json'' = Inr settings" "json_wf fl settings"
  shows "configure memory fl dp fs n = Inl Undefined \<longleftrightarrow> unrepresentable fl settings"
    "\<not> unrepresentable fl settings \<Longrightarrow>
       configure memory fl dp fs n = Inr (final_config fl settings n) \<and> arrays_granted memory (final_config fl settings n) \<or>
       configure memory fl dp fs n \<in> {Inl Bad_alloc, Inl Length_error} \<and> \<not> arrays_granted memory (final_config fl settings n)"
proof -
  from read_settings_eq [OF assms(2), of "default_config n"] obtain settings' where
    rs: "read_settings fl (settings, default_config n) =
      (if unrepresentable fl settings then Inl Undefined else Inr (settings', apply_settings fl settings (default_config n)))"
    by blast
  have mem: "list_all memory [0 ..< 5] \<longleftrightarrow> memory 0 \<and> memory 1 \<and> memory 2 \<and> memory 3 \<and> memory 4"
    by (simp add: upt_rec numeral_eq_Suc)
  show granted: "configure memory fl dp fs n = Inr (final_config fl settings n) \<and> arrays_granted memory (final_config fl settings n) \<or>
       configure memory fl dp fs n \<in> {Inl Bad_alloc, Inl Length_error} \<and> \<not> arrays_granted memory (final_config fl settings n)"
    if "\<not> unrepresentable fl settings"
    using that
    by (auto simp: configure_def assms(1) rs new_array_def resize_vector_def final_config_def arrays_granted_def Let_def mem)
  have "configure memory fl dp fs n = Inl Undefined" if "unrepresentable fl settings"
    using that by (simp add: configure_def assms(1) rs)
  moreover have "unrepresentable fl settings" if "configure memory fl dp fs n = Inl Undefined"
    by (rule ccontr) (use granted that in auto)
  ultimately show "configure memory fl dp fs n = Inl Undefined \<longleftrightarrow> unrepresentable fl settings" by blast
qed

abbreviation value_of :: "('f json \<Rightarrow> 'v res) \<Rightarrow> bytes \<Rightarrow> 'f json \<Rightarrow> 'v option" where
  "value_of get key section \<equiv> Option.bind (json_find key section) (\<lambda>j. opt_of (get j))"

lemma server_part_fields:
  "numberThreads (server_part fl sec c) = or_default (numberThreads c) (map_option of_int (value_of (get_int fl) ''threads'' sec))"
  "maxConnection (server_part fl sec c) = or_default (maxConnection c) (map_option of_int (value_of (get_int fl) ''max_connection'' sec))"
  "maxInputBufferLength (server_part fl sec c) =
     or_default (maxInputBufferLength c) (map_option of_int (value_of (get_int fl) ''max_input_length_buffer'' sec))"
  "maxOutputBufferLength' (server_part fl sec c) =
     or_default (maxOutputBufferLength' c) (map_option of_int (value_of (get_int fl) ''max_output_length_buffer'' sec))"
  "timeLimitRequestSeconds (server_part fl sec c) =
     or_default (timeLimitRequestSeconds c) (value_of (get_int fl) ''time_limit_request_seconds'' sec)"
  "limitLocalTasks (server_part fl sec c) = or_default (limitLocalTasks c) (value_of (get_int fl) ''limit_local_tasks'' sec)"
  "static_conf (server_part fl sec c) = static_conf c"
  "isCompressStaticResources (server_part fl sec c) = isCompressStaticResources c"
  "isStatisticsEnable (server_part fl sec c) = isStatisticsEnable c"
  "statisticsUrl (server_part fl sec c) = statisticsUrl c"
  by (simp_all add: server_part_def update_field_def or_default_def split: option.split)

lemma static_part_fields:
  "pathToStaticResources (static_conf (static_part sec c)) =
     or_default (pathToStaticResources (static_conf c)) (value_of get_string ''directory'' sec)"
  "isCachedStaticResources (static_conf (static_part sec c)) =
     or_default (isCachedStaticResources (static_conf c)) (value_of get_bool ''cache'' sec)"
  "isCompressStaticResources (static_part sec c) =
     or_default (isCompressStaticResources c) (value_of get_bool ''compress'' sec)"
  "numberThreads (static_part sec c) = numberThreads c" "maxConnection (static_part sec c) = maxConnection c"
  "maxInputBufferLength (static_part sec c) = maxInputBufferLength c"
  "maxOutputBufferLength' (static_part sec c) = maxOutputBufferLength' c"
  "timeLimitRequestSeconds (static_part sec c) = timeLimitRequestSeconds c"
  "limitLocalTasks (static_part sec c) = limitLocalTasks c"
  "isStatisticsEnable (static_part sec c) = isStatisticsEnable c"
  "statisticsUrl (static_part sec c) = statisticsUrl c"
  by (simp_all add: static_part_def update_field_def or_default_def split: option.split)

lemma statistics_part_fields:
  "isStatisticsEnable (statistics_part settings c) =
     or_default (isStatisticsEnable c) (opt_of (get_bool (or_default JNull (json_find ''enable'' settings))))"
  "statisticsUrl (statistics_part settings c) =
     or_default (statisticsUrl c) (opt_of (get_string (or_default JNull (json_find ''url'' settings))))"
  "static_conf (statistics_part settings c) = static_conf c"
  "isCompressStaticResources (statistics_part settings c) = isCompressStaticResources c"
  "numberThreads (statistics_part settings c) = numberThreads c"
  "maxConnection (statistics_part settings c) = maxConnection c"
  "maxInputBufferLength (statistics_part settings c) = maxInputBufferLength c"
  "maxOutputBufferLength' (statistics_part settings c) = maxOutputBufferLength' c"
  "timeLimitRequestSeconds (statistics_part settings c) = timeLimitRequestSeconds c"
  "limitLocalTasks (statistics_part settings c) = limitLocalTasks c"
  by (simp_all add: statistics_part_def update_top_def Let_def or_default_def split: option.split)

lemmas section_fields = server_part_fields static_part_fields statistics_part_fields

definition configured :: "'f float_ops \<Rightarrow> 'f json \<Rightarrow> size_t \<Rightarrow> config \<Rightarrow> bool" where
  "configured fl settings n cfg \<longleftrightarrow>
    numberThreads cfg = max 2 (or_default n (map_option of_int (setting (get_int fl) ''server'' ''threads'' settings))) \<and>
    maxConnection cfg = or_default 10000 (map_option of_int (setting (get_int fl) ''server'' ''max_connection'' settings)) \<and>
    maxInputBufferLength cfg =
      or_default 2097152 (map_option of_int (setting (get_int fl) ''server'' ''max_input_length_buffer'' settings)) \<and>
    maxOutputBufferLength' cfg =
      or_default 78643200 (map_option of_int (setting (get_int fl) ''server'' ''max_output_length_buffer'' settings)) \<and>
    timeLimitRequestSeconds cfg = or_default 60 (setting (get_int fl) ''server'' ''time_limit_request_seconds'' settings) \<and>
    limitLocalTasks cfg = or_default 100 (setting (get_int fl) ''server'' ''limit_local_tasks'' settings) \<and>
    pathToStaticResources (static_conf cfg) = or_default [] (setting get_string ''static-resources'' ''directory'' settings) \<and>
    isCachedStaticResources (static_conf cfg) = or_default True (setting get_bool ''static-resources'' ''cache'' settings) \<and>
    isCompressStaticResources cfg = or_default False (setting get_bool ''static-resources'' ''compress'' settings)"

lemma apply_settings_fields:
  fixes settings :: "'f json" and fl :: "'f float_ops" and n :: size_t
  defines "r \<equiv> apply_settings fl settings (default_config n)"
  shows
    "numberThreads r = or_default n (map_option of_int (setting (get_int fl) ''server'' ''threads'' settings))"
    "maxConnection r = or_default 10000 (map_option of_int (setting (get_int fl) ''server'' ''max_connection'' settings))"
    "maxInputBufferLength r = or_default 2097152 (map_option of_int (setting (get_int fl) ''server'' ''max_input_length_buffer'' settings))"
    "maxOutputBufferLength' r = or_default 78643200 (map_option of_int (setting (get_int fl) ''server'' ''max_output_length_buffer'' settings))"
    "timeLimitRequestSeconds r = or_default 60 (setting (get_int fl) ''server'' ''time_limit_request_seconds'' settings)"
    "limitLocalTasks r = or_default 100 (setting (get_int fl) ''server'' ''limit_local_tasks'' settings)"
    "pathToStaticResources (static_conf r) = or_default [] (setting get_string ''static-resources'' ''directory'' settings)"
    "isCachedStaticResources (static_conf r) = or_default True (setting get_bool ''static-resources'' ''cache'' settings)"
    "isCompressStaticResources r = or_default False (setting get_bool ''static-resources'' ''compress'' settings)"
  unfolding r_def
  by (cases "json_find ''server'' settings"; cases "json_find ''static-resources'' settings";
      cases "json_find ''statistics'' settings";
      simp add: apply_settings_def Let_def section_fields setting_def; simp add: default_config_def or_default_def)+

text \<open>
  C28: the effective configuration. A missing file, a text that is not JSON and a value of the wrong type are no error.
  Every member of the sections \<^verbatim>\<open>server\<close> and \<^verbatim>\<open>static-resources\<close> is the value of its own key in the document that the
  file denotes when the key is there with a type that \<^verbatim>\<open>get\<close> converts, and the default otherwise, independently of
  all other keys; for the members of \<^verbatim>\<open>server\<close> these types are integers, reduced to 32 bits, floating-point numbers and
  booleans. There are never fewer than two threads. The constructor has two ways not to get there: a
  floating-point number without counterpart in \<^verbatim>\<open>int\<close> in the section \<^verbatim>\<open>server\<close>, whose conversion is undefined, and an
  allocation that throws, because there is no memory or because the number of connections or threads, to which a
  negative setting is converted, is too large for an array.
\<close>

theorem configure_correct:
  "\<exists>settings. parseConfigurationFile fl dp fs ''/var/onyxup/config.json'' = Inr settings \<and>
     (if unrepresentable fl settings then configure memory fl dp fs n = Inl Undefined
      else \<exists>cfg. configured fl settings n cfg \<and> 2 \<le> numberThreads cfg \<and>
        (if unat (maxConnection cfg) < 2 ^ 60 \<and> unat (numberThreads cfg) < 2 ^ 60 \<and> list_all memory [0 ..< 5]
         then configure memory fl dp fs n = Inr cfg
         else configure memory fl dp fs n \<in> {Inl Bad_alloc, Inl Length_error}))"
proof -
  obtain settings where s: "parseConfigurationFile fl dp fs ''/var/onyxup/config.json'' = Inr settings" "json_wf fl settings"
    by (rule parseConfigurationFile_wf)
  have "configured fl settings n (final_config fl settings n)" "2 \<le> numberThreads (final_config fl settings n)"
    by (auto simp: final_config_def configured_def apply_settings_fields Let_def max_def not_less)
  with s configure_eq [OF s, of memory n] show ?thesis unfolding arrays_granted_def by auto
qed

text \<open>
  Such a setting: with \<^verbatim>\<open>max_connection\<close> equal to \<open>-1\<close> the constructor throws, whatever memory there is.
\<close>

lemma configure_negative:
  assumes "parseConfigurationFile fl dp fs ''/var/onyxup/config.json'' = Inr settings" "\<not> unrepresentable fl settings"
    and "setting (get_int fl) ''server'' ''max_connection'' settings = Some (- 1)"
  shows "configure memory fl dp fs n \<in> {Inl Bad_alloc, Inl Length_error}"
proof -
  obtain settings' where s: "parseConfigurationFile fl dp fs ''/var/onyxup/config.json'' = Inr settings'" "json_wf fl settings'"
    by (rule parseConfigurationFile_wf)
  then have eq: "settings' = settings" using assms(1) by simp
  have "maxConnection (final_config fl settings n) = - 1"
    using assms(3) by (simp add: final_config_def apply_settings_fields Let_def or_default_def)
  then have "\<not> arrays_granted memory (final_config fl settings n)" by (simp add: arrays_granted_def unsigned_minus_1_eq_mask mask_eq_exp_minus_1)
  with configure_eq(2) [OF s, of memory n] assms(2) eq show ?thesis by blast
qed

text \<open>
  The section \<^verbatim>\<open>statistics\<close> has no effect by its own keys. Whatever it contains, the page
  stays disabled and its address stays the default unless the document has keys \<^verbatim>\<open>enable\<close> and
  \<^verbatim>\<open>url\<close> at its top level.
\<close>

theorem configure_statistics_ignored:
  assumes "parseConfigurationFile fl dp fs ''/var/onyxup/config.json'' = Inr settings"
    and "json_find ''enable'' settings = None" "json_find ''url'' settings = None"
    and "configure memory fl dp fs n = Inr cfg"
  shows "\<not> isStatisticsEnable cfg \<and> statisticsUrl cfg = ''^/onyxup-status-page$''"
proof -
  let ?r = "apply_settings fl settings (default_config n)"
  obtain settings' where s: "parseConfigurationFile fl dp fs ''/var/onyxup/config.json'' = Inr settings'" "json_wf fl settings'"
    by (rule parseConfigurationFile_wf)
  then have wf: "json_wf fl settings" using assms(1) by simp
  have "cfg = final_config fl settings n"
    using configure_eq [OF assms(1) wf, of memory n] assms(4) by auto
  moreover have "\<not> isStatisticsEnable ?r" "statisticsUrl ?r = ''^/onyxup-status-page$''"
    using assms(2,3)
    by (cases "json_find ''server'' settings"; cases "json_find ''static-resources'' settings";
      cases "json_find ''statistics'' settings";
      simp add: apply_settings_def Let_def section_fields get_bool_def get_string_def opt_of_def or_default_def;
      simp add: default_config_def)+
  ultimately show ?thesis by (simp add: final_config_def Let_def)
qed

text \<open>
  Opening the socket either yields the two descriptors or ends in the exception; every
  failing call is noticed, and the descriptors it gives are valid.
\<close>

theorem open_socket_correct:
  "(fst (open_socket e) = Inr (fd, epfd) \<longleftrightarrow>
      fd = sys_socket e \<and> epfd = sys_epoll_create e \<and> 0 \<le> fd \<and> 0 \<le> sys_setsockopt e \<and>
      sys_nonblocking e \<noteq> - 1 \<and> 0 \<le> sys_bind e \<and> 0 \<le> sys_listen e \<and> epfd \<noteq> - 1) \<and>
   (fst (open_socket e) = Inl err \<longrightarrow> err = OnyxupException) \<and>
   set (snd (open_socket e)) \<subseteq> {sys_socket e}"
  by (auto simp: open_socket_def Let_def)

theorem open_socket_correct_witness:
  "let e = \<lparr>sys_socket = 3, sys_setsockopt = 0, sys_nonblocking = 0, sys_bind = - 1, sys_listen = 0, sys_epoll_create = 4\<rparr>
   in fst (open_socket e) = Inl OnyxupException \<and> set (snd (open_socket e)) \<subseteq> {3}"
  using open_socket_correct [of "\<lparr>sys_socket = 3, sys_setsockopt = 0, sys_nonblocking = 0, sys_bind = - 1,
      sys_listen = 0, sys_epoll_create = 4\<rparr>" 3 4 OnyxupException]
  by (simp add: open_socket_def)

end
