(* ===== verification/Ranges.thy ===== *)
theory Ranges
  imports StdString "HOL-Library.Multiset"
begin

text \<open>
  Byte ranges: \<^verbatim>\<open>parseRangesRequest\<close> of \<^verbatim>\<open>server/utils.cpp\<close>. Offsets are \<^verbatim>\<open>size_t\<close>, so a decimal
  number wraps around modulo \<open>2 ^ 64\<close>. The parameter \<open>length\<close> of the code is the index of the
  last byte of the body; here it is called \<open>last\<close>.

  \<^verbatim>\<open>std::sort\<close> may order ranges with equal start as it likes: it is an argument, and what the
  standard promises of it is the locale \<open>range_sort\<close>.
\<close>

type_synonym range = "size_t \<times> size_t"

definition trimSpaces :: "bytes \<Rightarrow> bytes" where
  "trimSpaces src = filter (\<lambda>c. c \<noteq> CHR '' '') src"

text \<open>The loops \<^verbatim>\<open>value = value * 10 + (c - '0')\<close> with their test for a digit.\<close>

fun digits_value :: "size_t \<Rightarrow> bytes \<Rightarrow> size_t res" where
  "digits_value value [] = Inr value"
| "digits_value value (c # cs) =
     (if \<not> isdigit c then Inl OnyxupException
      else digits_value (value * 10 + of_nat (byte_val c - 48)) cs)"

text \<open>
  One token without its spaces. On an empty one \<^verbatim>\<open>token[token.size() - 1]\<close> indexes the string at
  \<^verbatim>\<open>SIZE_MAX\<close>.
\<close>

definition range_token :: "size_t \<Rightarrow> bytes \<Rightarrow> range res" where
  "range_token last_i tok =
     (if tok = [] then Inl Undefined
      else if last tok = CHR ''-'' then
        bind_res (digits_value 0 (butlast tok)) (\<lambda>value.
          if last_i < value then Inl OnyxupException else Inr (value, last_i))
      else if hd tok = CHR ''-'' then
        bind_res (digits_value 0 (tl tok)) (\<lambda>value.
          if last_i < value then Inl OnyxupException else Inr (last_i - value, last_i))
      else
        (case str_find tok ''-'' 0 of
           None \<Rightarrow> Inl OnyxupException
         | Some pos \<Rightarrow>
             bind_res (digits_value 0 (take pos tok)) (\<lambda>value_left.
             bind_res (digits_value 0 (drop (pos + 1) tok)) (\<lambda>value_right.
               if value_right < value_left \<or> last_i < value_right then Inl OnyxupException
               else Inr (value_left, value_right)))))"

fun range_tokens :: "size_t \<Rightarrow> bytes list \<Rightarrow> range list res" where
  "range_tokens last_i [] = Inr []"
| "range_tokens last_i (t # ts) =
     bind_res (range_token last_i (trimSpaces t)) (\<lambda>r.
     bind_res (range_tokens last_i ts) (\<lambda>rs. Inr (r # rs)))"

text \<open>The loop over the sorted ranges; the first one is not tested.\<close>

fun borders_ok :: "size_t \<Rightarrow> size_t \<Rightarrow> range list \<Rightarrow> bool" where
  "borders_ok last_i border [] \<longleftrightarrow> True"
| "borders_ok last_i border (r # rs) \<longleftrightarrow>
     \<not> (fst r < border \<or> last_i < snd r) \<and> borders_ok last_i (snd r) rs"

definition ranges_disjoint :: "size_t \<Rightarrow> range list \<Rightarrow> bool" where
  "ranges_disjoint last_i rs = (case rs of [] \<Rightarrow> True | r # rs' \<Rightarrow> borders_ok last_i (snd r) rs')"

definition parseRangesRequest ::
  "(range list \<Rightarrow> range list) \<Rightarrow> bytes \<Rightarrow> size_t \<Rightarrow> range list res" where
  "parseRangesRequest srt src last_i =
     (if last_i = 0 then Inl OnyxupException
      else
        (case str_find src ''bytes='' 0 of
           None \<Rightarrow> Inl OnyxupException
         | Some pos \<Rightarrow>
             bind_res (range_tokens last_i (getlines CHR '','' (drop (pos + 6) src))) (\<lambda>ranges.
               if ranges = [] then Inl OnyxupException
               else if ranges_disjoint last_i (srt ranges) then Inr (srt ranges)
               else Inl OnyxupException)))"

subsection \<open>The contract of the sort\<close>

locale range_sort =
  fixes srt :: "range list \<Rightarrow> range list"
  assumes srt_perm: "mset (srt xs) = mset xs"
    and srt_sorted: "sorted (map fst (srt xs))"
begin

lemma srt_set: "set (srt xs) = set xs"
  by (metis srt_perm set_mset_mset)

lemma srt_Nil_iff: "srt xs = [] \<longleftrightarrow> xs = []"
  by (metis srt_perm mset_zero_iff)

text \<open>On distinct starts in increasing order there is nothing to choose.\<close>

lemma srt_id:
  assumes "sorted_wrt (<) (map fst xs)"
  shows "srt xs = xs"
proof -
  have inj: "inj_on fst (set xs)" and "distinct (map fst xs)" and "sorted (map fst xs)"
    using assms by (auto simp: distinct_map strict_sorted_iff)
  have "mset (map fst (srt xs)) = mset (map fst xs)" by (simp add: srt_perm)
  then have "map fst (srt xs) = map fst xs"
    using properties_for_sort [of "map fst (srt xs)" "map fst xs"]
      properties_for_sort [of "map fst xs" "map fst xs"] srt_sorted \<open>sorted (map fst xs)\<close> by metis
  moreover have "inj_on fst (set (srt xs) \<union> set xs)" using inj by (simp add: srt_set)
  ultimately show ?thesis by (metis map_inj_on)
qed

end

text \<open>The insertion sort that \<^verbatim>\<open>std::sort\<close> runs on short sequences.\<close>

interpretation insertion: range_sort "sort_key fst"
  by unfold_locales simp_all

subsection \<open>Tokens\<close>

lemma digits_value_dec:
  "\<forall>c \<in> set s. isdigit c \<Longrightarrow>
   digits_value (of_nat n) s = Inr (of_nat (fold (\<lambda>c v. v * 10 + digit_val c) s n))"
proof (induction s arbitrary: n)
  case (Cons c s)
  have "(of_nat n * 10 + of_nat (byte_val c - 48) :: size_t) = of_nat (n * 10 + digit_val c)"
    by (simp add: digit_val_def)
  then have "digits_value (of_nat n) (c # s) = digits_value (of_nat (n * 10 + digit_val c)) s"
    using Cons.prems by (simp del: of_nat_add of_nat_mult)
  with Cons.IH [of "n * 10 + digit_val c"] Cons.prems show ?case by simp
qed simp

lemma digits_value_0: "\<forall>c \<in> set s. isdigit c \<Longrightarrow> digits_value 0 s = Inr (of_nat (dec_val s))"
  using digits_value_dec [of s 0] by (simp add: dec_val_def)

lemma digits_value_to_string [simp]: "digits_value 0 (to_string n) = Inr (of_nat n)"
  using digits_value_0 [of "to_string n"] to_string_digits by simp

lemma digits_value_error: "digits_value v s = Inl e \<Longrightarrow> e = OnyxupException"
  by (induction v s rule: digits_value.induct) (auto split: if_splits)

lemma range_token_bounds:
  assumes "range_token last_i tok = Inr (a, b)"
  shows "a \<le> b \<and> b \<le> last_i"
proof -
  have sub: "v \<le> w \<Longrightarrow> w - v \<le> w" for v w :: size_t
    by (rule word_sub_le)
  show ?thesis
    using assms
    by (auto simp: range_token_def bind_res_Inr_iff not_less split: if_splits option.splits
        intro: sub)
qed

lemma range_tokens_bounds:
  "range_tokens last_i ts = Inr rs \<Longrightarrow> (a, b) \<in> set rs \<Longrightarrow> a \<le> b \<and> b \<le> last_i"
proof (induction ts arbitrary: rs)
  case (Cons t ts)
  then obtain r rs' where r: "range_token last_i (trimSpaces t) = Inr r" "range_tokens last_i ts = Inr rs'"
    "rs = r # rs'" by (auto simp: bind_res_Inr_iff)
  with Cons show ?case using range_token_bounds [of last_i "trimSpaces t"] by (cases r) auto
qed simp

lemma range_token_error:
  "range_token last_i tok = Inl e \<Longrightarrow> e = OnyxupException \<or> (e = Undefined \<and> tok = [])"
  by (auto simp: range_token_def bind_res_Inl_iff split: if_splits option.splits
      dest: digits_value_error)

lemma range_tokens_error:
  "range_tokens last_i ts = Inl e \<Longrightarrow>
   e = OnyxupException \<or> (e = Undefined \<and> (\<exists>t \<in> set ts. trimSpaces t = []))"
  by (induction ts) (auto simp: bind_res_Inl_iff dest: range_token_error)

lemma digit_not_dash: "isdigit c \<Longrightarrow> c \<noteq> CHR ''-'' \<and> c \<noteq> CHR '' '' \<and> c \<noteq> CHR '',''"
  by (auto simp: isdigit_def byte_val_def)

lemma to_string_chars:
  "CHR ''-'' \<notin> set (to_string n)" "CHR '' '' \<notin> set (to_string n)" "CHR '','' \<notin> set (to_string n)"
  using to_string_digits [of _ n] digit_not_dash by auto

lemma trimSpaces_id: "CHR '' '' \<notin> set s \<Longrightarrow> trimSpaces s = s"
  by (auto simp: trimSpaces_def filter_id_conv)

text \<open>The three forms of a token, for any decimal numbers.\<close>

lemma range_token_from:
  "range_token last_i (to_string n @ ''-'') =
     (if last_i < of_nat n then Inl OnyxupException else Inr (of_nat n, last_i))"
  by (simp add: range_token_def)

lemma last_to_string [simp]: "last (to_string n) \<noteq> CHR ''-''" "hd (to_string n) \<noteq> CHR ''-''"
  by (metis to_string_chars(1) to_string_nonempty last_in_set)
    (metis to_string_chars(1) to_string_nonempty hd_in_set)

lemma range_token_suffix:
  "range_token last_i (''-'' @ to_string n) =
     (if last_i < of_nat n then Inl OnyxupException else Inr (last_i - of_nat n, last_i))"
  by (simp add: range_token_def)

lemma range_token_between:
  "range_token last_i (to_string a @ ''-'' @ to_string b) =
     (if (of_nat b :: size_t) < of_nat a \<or> last_i < of_nat b then Inl OnyxupException
      else Inr (of_nat a, of_nat b))"
proof -
  have "str_find (to_string a @ CHR ''-'' # to_string b) ''-'' 0 = Some (length (to_string a))"
    using split_at_delim [OF to_string_chars(1), of a "to_string b"] by (simp add: str_find_char)
  then show ?thesis by (simp add: range_token_def)
qed

subsection \<open>Ranges and their rendering\<close>

definition render_range :: "range \<Rightarrow> bytes" where
  "render_range r = to_string (unat (fst r)) @ ''-'' @ to_string (unat (snd r))"

definition render_ranges :: "range list \<Rightarrow> bytes" where
  "render_ranges rs = ''bytes='' @ join CHR '','' (map render_range rs)"

text \<open>Increasing ranges inside the body, each ending before the next begins (or sharing a byte).\<close>

fun ranges_ok :: "size_t \<Rightarrow> range list \<Rightarrow> bool" where
  "ranges_ok last_i [] \<longleftrightarrow> True"
| "ranges_ok last_i [r] \<longleftrightarrow> fst r \<le> snd r \<and> snd r \<le> last_i"
| "ranges_ok last_i (r # r' # rs) \<longleftrightarrow>
     fst r \<le> snd r \<and> snd r \<le> fst r' \<and> ranges_ok last_i (r' # rs)"

lemma ranges_ok_iff:
  "ranges_ok last_i (r # rs) \<longleftrightarrow>
     (\<forall>(a, b) \<in> set (r # rs). a \<le> b \<and> b \<le> last_i) \<and> ranges_disjoint last_i (r # rs)"
proof (induction rs arbitrary: r)
  case Nil
  then show ?case by (auto simp: ranges_disjoint_def)
next
  case (Cons r' rs)
  have "snd r \<le> last_i" if "snd r \<le> fst r'" "fst r' \<le> snd r'" "snd r' \<le> last_i"
    using that by (meson order_trans)
  with Cons [of r'] show ?case
    by (auto simp: ranges_disjoint_def not_less split: prod.splits)
qed

lemma range_tokens_render:
  "\<forall>(a, b) \<in> set rs. a \<le> b \<and> b \<le> last_i \<Longrightarrow> range_tokens last_i (map render_range rs) = Inr rs"
proof (induction rs)
  case (Cons r rs)
  obtain a b where r: "r = (a, b)" by force
  have "CHR '' '' \<notin> set (render_range r)"
    using to_string_chars(2) by (auto simp: render_range_def)
  then have "range_token last_i (trimSpaces (render_range r)) = Inr r"
    using Cons.prems range_token_between [of last_i "unat a" "unat b"]
    by (auto simp: trimSpaces_id render_range_def r not_less)
  with Cons show ?case by simp
qed simp

lemma render_range_ok: "render_range r \<noteq> [] \<and> CHR '','' \<notin> set (render_range r)"
  using to_string_chars(3) by (auto simp: render_range_def)

lemma parseRangesRequest_bounds:
  assumes "range_sort srt" and "parseRangesRequest srt src last_i = Inr rs"
  shows "rs \<noteq> [] \<and> (\<forall>(a, b) \<in> set rs. a \<le> b \<and> b \<le> last_i) \<and> ranges_ok last_i rs"
proof -
  from assms(2) obtain ts ranges where r: "range_tokens last_i ts = Inr ranges" "ranges \<noteq> []"
    "rs = srt ranges" "ranges_disjoint last_i rs"
    by (auto simp: parseRangesRequest_def bind_res_Inr_iff split: if_splits option.splits)
  have all: "\<forall>(a, b) \<in> set rs. a \<le> b \<and> b \<le> last_i"
    using range_tokens_bounds [OF r(1)] r(3) range_sort.srt_set [OF assms(1)] by auto
  moreover have "rs \<noteq> []" using r(2,3) range_sort.srt_Nil_iff [OF assms(1)] by simp
  ultimately show ?thesis using r(4) ranges_ok_iff by (cases rs) auto
qed

lemma parseRangesRequest_render:
  assumes "range_sort srt" and "rs \<noteq> []" and "last_i \<noteq> 0" and "ranges_ok last_i rs"
    and "sorted_wrt (<) (map fst rs)"
  shows "parseRangesRequest srt (render_ranges rs) last_i = Inr rs"
proof -
  obtain r rs' where r: "rs = r # rs'" using assms(2) by (cases rs) auto
  have all: "\<forall>(a, b) \<in> set rs. a \<le> b \<and> b \<le> last_i" and dis: "ranges_disjoint last_i rs"
    using assms(4) unfolding r ranges_ok_iff by auto
  have "getlines CHR '','' (join CHR '','' (map render_range rs)) = map render_range rs"
    using render_range_ok by (intro getlines_join) auto
  then have "range_tokens last_i (getlines CHR '','' (join CHR '','' (map render_range rs))) = Inr rs"
    using range_tokens_render [OF all] by simp
  moreover have "str_find (render_ranges rs) ''bytes='' 0 = Some 0"
    unfolding render_ranges_def by (rule str_find_prefix)
  moreover have "srt rs = rs" by (rule range_sort.srt_id [OF assms(1,5)])
  ultimately show ?thesis
    using assms(2,3) dis by (simp add: parseRangesRequest_def render_ranges_def)
qed

subsection \<open>Properties\<close>

text \<open>
  C21: what an accepted range header guarantees. Whatever the header, if \<^verbatim>\<open>parseRangesRequest\<close>
  returns, it returns at least one range, every range is non-empty and ends at or before the last
  byte, and the ranges are in increasing order, each starting no earlier than its predecessor
  ends; so every later access \<^verbatim>\<open>body[first..second]\<close> stays inside a body with that last index.
\<close>

theorem parseRangesRequest_sound:
  assumes "range_sort srt" and "parseRangesRequest srt src last_i = Inr rs"
  shows "rs \<noteq> [] \<and> (\<forall>(a, b) \<in> set rs. a \<le> b \<and> b \<le> last_i) \<and> ranges_ok last_i rs"
  using assms by (rule parseRangesRequest_bounds)

definition sample_ranges :: "range list" where
  "sample_ranges = [(10, 100), (120, 140)]"

theorem parseRangesRequest_sound_witness:
  "list_all (\<lambda>(a, b). a \<le> b \<and> b \<le> 20000) sample_ranges \<and> ranges_ok 20000 sample_ranges"
proof -
  have "parseRangesRequest (sort_key fst) ''bytes=120-140, 10-100'' 20000 = Inr sample_ranges"
    by code_simp
  from parseRangesRequest_sound [OF insertion.range_sort_axioms this] show ?thesis
    by (simp add: list_all_iff)
qed

text \<open>
  Round trip. Every sequence of ranges in increasing order with distinct starts that fits the
  body, written as \<^verbatim>\<open>bytes=a-b,c-d,...\<close>, is accepted and read back unchanged, whichever
  conforming sort the library uses.
\<close>

theorem parseRangesRequest_roundtrip:
  assumes "range_sort srt" and "rs \<noteq> []" and "last_i \<noteq> 0" and "ranges_ok last_i rs"
    and "sorted_wrt (<) (map fst rs)"
  shows "parseRangesRequest srt (render_ranges rs) last_i = Inr rs"
  using assms by (rule parseRangesRequest_render)

theorem parseRangesRequest_roundtrip_witness:
  "parseRangesRequest (sort_key fst) (render_ranges sample_ranges) 20000 = Inr sample_ranges"
  by (rule parseRangesRequest_roundtrip [OF insertion.range_sort_axioms])
    (simp_all add: sample_ranges_def)

text \<open>
  Where the parser of ranges is undefined. A failure is the exception the caller expects,
  unless one of the comma-separated items consists of spaces only: then the code indexes an empty
  string at \<^verbatim>\<open>SIZE_MAX\<close>. The second half shows that a client reaches this with \<^verbatim>\<open>bytes=,\<close>.
\<close>

theorem parseRangesRequest_failures:
  "(parseRangesRequest srt src last_i = Inl e \<longrightarrow>
      e = OnyxupException \<or>
      (e = Undefined \<and> (\<exists>pos. str_find src ''bytes='' 0 = Some pos \<and>
         (\<exists>t \<in> set (getlines CHR '','' (drop (pos + 6) src)). trimSpaces t = [])))) \<and>
   (last_i \<noteq> 0 \<longrightarrow> parseRangesRequest srt ''bytes=,'' last_i = Inl Undefined)"
proof (intro conjI impI)
  assume "parseRangesRequest srt src last_i = Inl e"
  then show "e = OnyxupException \<or>
      (e = Undefined \<and> (\<exists>pos. str_find src ''bytes='' 0 = Some pos \<and>
         (\<exists>t \<in> set (getlines CHR '','' (drop (pos + 6) src)). trimSpaces t = [])))"
    by (auto simp: parseRangesRequest_def bind_res_Inl_iff split: if_splits option.splits
        dest: range_tokens_error)
next
  assume "last_i \<noteq> 0"
  then show "parseRangesRequest srt ''bytes=,'' last_i = Inl Undefined"
    using str_find_prefix [of "''bytes=''" "'',''"]
    by (simp add: parseRangesRequest_def trimSpaces_def range_token_def)
qed

theorem parseRangesRequest_failures_witness:
  "parseRangesRequest (sort_key fst) ''bytes=200-100'' 20000 = Inl OnyxupException \<and>
   parseRangesRequest (sort_key fst) ''bytes=,'' 20000 = Inl Undefined"
proof -
  have "parseRangesRequest (sort_key fst) ''bytes=200-100'' 20000 = Inl OnyxupException" by code_simp
  with parseRangesRequest_failures [of "sort_key fst" "''bytes=200-100''" 20000 OnyxupException]
    parseRangesRequest_failures [of "sort_key fst" "''bytes=,''" 20000 Undefined]
  show ?thesis by simp
qed

text \<open>
  The three forms of a range, for all numbers, with their wrap-around. \<^verbatim>\<open>n-\<close> runs from \<open>n\<close>
  modulo \<open>2 ^ 64\<close> to the last byte; \<^verbatim>\<open>-n\<close> starts \<open>n\<close> before the last byte, that is, it selects
  \<open>n + 1\<close> bytes; \<^verbatim>\<open>a-b\<close> is taken as written. A number is refused only when its residue lies
  behind the last byte, so \<^verbatim>\<open>18446744073709551617-\<close> is accepted as \<^verbatim>\<open>1-\<close>.
\<close>

theorem range_token_forms:
  "range_token last_i (to_string n @ ''-'') =
     (if last_i < of_nat n then Inl OnyxupException else Inr (of_nat n, last_i)) \<and>
   range_token last_i (''-'' @ to_string n) =
     (if last_i < of_nat n then Inl OnyxupException else Inr (last_i - of_nat n, last_i)) \<and>
   range_token last_i (to_string n @ ''-'' @ to_string m) =
     (if (of_nat m :: size_t) < of_nat n \<or> last_i < of_nat m then Inl OnyxupException
      else Inr (of_nat n, of_nat m)) \<and>
   (of_nat (2 ^ 64 + n) :: size_t) = of_nat n"
  using range_token_from range_token_suffix range_token_between by simp

end
