(* ===== verification/Gzip.thy ===== *)
theory Gzip
  imports StdString
begin

text \<open>
  The gzip wrapper (\<^verbatim>\<open>gzip/compress.hpp\<close>, \<^verbatim>\<open>gzip/decompress.hpp\<close>, \<^verbatim>\<open>gzip/utils.hpp\<close>). zlib is not
  part of the sources: \<^verbatim>\<open>deflateInit2\<close>, \<^verbatim>\<open>deflate\<close>, \<^verbatim>\<open>inflateInit2\<close> and \<^verbatim>\<open>inflate\<close> are arguments.
  A stream state \<open>'z\<close> together with the unread input is handed to one call with the room left for
  output; the call returns the new state, the input it left and the bytes it wrote. The loops
  grow the output string around these calls; not returning is \<open>None\<close>.
\<close>

definition string_resize :: "bytes \<Rightarrow> nat \<Rightarrow> bytes" where
  "string_resize s n = take n s @ replicate (n - length s) CHR 0x00"

lemma length_string_resize [simp]: "length (string_resize s n) = n"
  by (simp add: string_resize_def)

lemma take_string_resize: "k \<le> n \<Longrightarrow> k \<le> length s \<Longrightarrow> take k (string_resize s n) = take k s"
  by (simp add: string_resize_def)

definition is_compressed :: "bytes \<Rightarrow> nat \<Rightarrow> bool" where
  "is_compressed data sz \<longleftrightarrow> sz > 2 \<and>
     ((byte_val (data ! 0) = 0x78 \<and>
       (byte_val (data ! 1) = 0x9C \<or> byte_val (data ! 1) = 0x01 \<or>
        byte_val (data ! 1) = 0xDA \<or> byte_val (data ! 1) = 0x5E)) \<or>
      (byte_val (data ! 0) = 0x1F \<and> byte_val (data ! 1) = 0x8B))"

subsection \<open>Compression\<close>

type_synonym 'z deflate_fn = "'z \<Rightarrow> bytes \<Rightarrow> nat \<Rightarrow> 'z \<times> bytes \<times> bytes"

partial_function (option) compress_loop ::
  "'z deflate_fn \<Rightarrow> nat \<Rightarrow> 'z \<Rightarrow> bytes \<Rightarrow> bytes \<Rightarrow> nat \<Rightarrow> bytes res option" where
  "compress_loop deflate sz z next_in outp size_compressed =
     (let increase = sz div 2 + 1024;
          output1 = (if length outp < size_compressed + increase
                     then string_resize outp (size_compressed + increase) else outp);
          avail_out = increase mod 2 ^ 32;
          (z', next_in', written) = deflate z next_in avail_out;
          avail_out' = avail_out - length written
      in case mem_write output1 size_compressed written of
           Inl e \<Rightarrow> Some (Inl e)
         | Inr output2 \<Rightarrow>
             (let size_compressed' = size_compressed + (increase - avail_out')
              in if avail_out' = 0
                 then compress_loop deflate sz z' next_in' output2 size_compressed'
                 else Some (Inr (string_resize output2 size_compressed'))))"

definition Compressor_compress ::
  "(int \<Rightarrow> 'z option) \<Rightarrow> 'z deflate_fn \<Rightarrow> nat \<Rightarrow> int \<Rightarrow> bytes \<Rightarrow> bytes \<Rightarrow> bytes res option" where
  "Compressor_compress deflateInit2 deflate max_bytes level outp data =
     (let sz = length data
      in if sz > max_bytes then Some (Inl Runtime_error)
         else case deflateInit2 level of
                None \<Rightarrow> Some (Inl Runtime_error)
              | Some z \<Rightarrow> compress_loop deflate sz z (take (sz mod 2 ^ 32) data) outp 0)"

definition gzip_compress ::
  "(int \<Rightarrow> 'z option) \<Rightarrow> 'z deflate_fn \<Rightarrow> bytes \<Rightarrow> bytes res option" where
  "gzip_compress deflateInit2 deflate data =
     Compressor_compress deflateInit2 deflate 2000000000 (- 1) [] data"

subsection \<open>Decompression\<close>

text \<open>
  \<^verbatim>\<open>inflate\<close> also returns its code; \<open>Z_ERROR\<close> carries the message \<^verbatim>\<open>inflate_s.msg\<close>, which may be
  the null pointer.
\<close>

datatype z_ret = Z_OK | Z_STREAM_END | Z_BUF_ERROR | Z_ERROR "bytes option"

type_synonym 'z inflate_fn = "'z \<Rightarrow> bytes \<Rightarrow> nat \<Rightarrow> 'z \<times> bytes \<times> bytes \<times> z_ret"

partial_function (option) decompress_loop ::
  "'z inflate_fn \<Rightarrow> nat \<Rightarrow> nat \<Rightarrow> 'z \<Rightarrow> bytes \<Rightarrow> bytes \<Rightarrow> nat \<Rightarrow> bytes res option" where
  "decompress_loop inflate max_bytes sz z next_in outp size_uncompressed =
     (let resize_to = (size_uncompressed + 2 * sz) mod 2 ^ 64
      in if resize_to > max_bytes then Some (Inl Runtime_error)
         else
           (let output1 = string_resize outp resize_to;
                avail_out = 2 * sz mod 2 ^ 32;
                (z', next_in', written, ret) = inflate z next_in avail_out;
                avail_out' = avail_out - length written
            in case mem_write output1 size_uncompressed written of
                 Inl e \<Rightarrow> Some (Inl e)
               | Inr output2 \<Rightarrow>
                   (case ret of
                      Z_ERROR (Some m) \<Rightarrow> Some (Inl Runtime_error)
                    | Z_ERROR None \<Rightarrow> Some (Inl Undefined)
                    | _ \<Rightarrow>
                        (let size_uncompressed' = size_uncompressed + (2 * sz - avail_out')
                         in if avail_out' = 0
                            then decompress_loop inflate max_bytes sz z' next_in' output2
                                   size_uncompressed'
                            else Some (Inr (string_resize output2 size_uncompressed'))))))"

definition Decompressor_decompress ::
  "'z option \<Rightarrow> 'z inflate_fn \<Rightarrow> nat \<Rightarrow> bytes \<Rightarrow> bytes \<Rightarrow> bytes res option" where
  "Decompressor_decompress inflateInit2 inflate max_bytes outp data =
     (let sz = length data
      in case inflateInit2 of
           None \<Rightarrow> Some (Inl Runtime_error)
         | Some z \<Rightarrow>
             if sz > max_bytes \<or> (sz * 2) mod 2 ^ 64 > max_bytes then Some (Inl Runtime_error)
             else decompress_loop inflate max_bytes sz z (take (sz mod 2 ^ 32) data) outp 0)"

definition gzip_decompress :: "'z option \<Rightarrow> 'z inflate_fn \<Rightarrow> bytes \<Rightarrow> bytes res option" where
  "gzip_decompress inflateInit2 inflate data =
     Decompressor_decompress inflateInit2 inflate 1000000000 [] data"

subsection \<open>What zlib promises\<close>

text \<open>
  \<open>enc z inp\<close> is the output a deflate stream has still to deliver once its input ends after
  \<open>inp\<close>. As the manual of zlib says of \<^verbatim>\<open>Z_FINISH\<close>, a call writes as much of it as fits and the
  next call goes on with the rest.
\<close>

definition deflate_spec :: "'z deflate_fn \<Rightarrow> ('z \<Rightarrow> bytes \<Rightarrow> bytes) \<Rightarrow> bool" where
  "deflate_spec deflate enc \<longleftrightarrow>
     (\<forall>z inp n z' inp' out. deflate z inp n = (z', inp', out) \<longrightarrow>
        out = take n (enc z inp) \<and> enc z' inp' = drop n (enc z inp))"

text \<open>
  For inflate, \<open>dec z inp\<close> is the output still to come from a valid stream; no call on it
  fails.
\<close>

definition inflate_spec :: "'z inflate_fn \<Rightarrow> ('z \<Rightarrow> bytes \<Rightarrow> bytes option) \<Rightarrow> bool" where
  "inflate_spec inflate dec \<longleftrightarrow>
     (\<forall>z inp n z' inp' out ret plain. inflate z inp n = (z', inp', out, ret) \<longrightarrow>
        dec z inp = Some plain \<longrightarrow>
        out = take n plain \<and> dec z' inp' = Some (drop n plain) \<and> (\<forall>m. ret \<noteq> Z_ERROR m))"

text \<open>A call that cannot make progress because there is no room reports \<^verbatim>\<open>Z_BUF_ERROR\<close>.\<close>

definition inflate_no_room :: "'z inflate_fn \<Rightarrow> bool" where
  "inflate_no_room inflate \<longleftrightarrow>
     (\<forall>z inp z' inp' out ret. inflate z inp 0 = (z', inp', out, ret) \<longrightarrow> out = [] \<and> ret = Z_BUF_ERROR)"

lemma compress_loop_correct:
  assumes "deflate_spec deflate enc" and "sz div 2 + 1024 < 2 ^ 32"
  shows "sc \<le> length outp \<Longrightarrow>
    compress_loop deflate sz z inp outp sc = Some (Inr (take sc outp @ enc z inp))"
proof (induction "length (enc z inp)" arbitrary: z inp outp sc rule: less_induct)
  case less
  define inc where "inc = sz div 2 + 1024"
  have inc: "inc mod 2 ^ 32 = inc" "0 < inc" using assms(2) by (auto simp: inc_def)
  obtain z' inp' out where d: "deflate z inp inc = (z', inp', out)" by (cases "deflate z inp inc") auto
  with assms(1) have out: "out = take inc (enc z inp)" "enc z' inp' = drop inc (enc z inp)"
    by (auto simp: deflate_spec_def)
  define output1 where "output1 = (if length outp < sc + inc then string_resize outp (sc + inc) else outp)"
  have o1: "sc + inc \<le> length output1" "take sc output1 = take sc outp"
    using less.prems by (auto simp: output1_def take_string_resize)
  have len: "length out = min inc (length (enc z inp))" by (simp add: out)
  then obtain output2 where o2: "mem_write output1 sc out = Inr output2"
    using mem_write_safe_iff [of output1 sc out] o1(1) by auto
  have step: "compress_loop deflate sz z inp outp sc =
      (if inc - length out = 0
       then compress_loop deflate sz z' inp' output2 (sc + length out)
       else Some (Inr (string_resize output2 (sc + length out))))"
    using o2 d len
    by (subst compress_loop.simps)
      (simp only: Let_def inc(1) inc_def [symmetric] output1_def [symmetric] prod.case sum.case, simp)
  have pre: "take (sc + length out) output2 = take sc outp @ out"
    using mem_write_prefix [OF o2] o1(2) by simp
  have bound: "sc + length out \<le> length output2"
    using mem_write_length [OF o2] o1(1) len by simp
  show ?case
  proof (cases "inc \<le> length (enc z inp)")
    case True
    then have shorter: "length (enc z' inp') < length (enc z inp)" using inc(2) out(2) by simp
    from True step len less.hyps [OF shorter bound] pre have
      "compress_loop deflate sz z inp outp sc = Some (Inr (take sc outp @ (out @ enc z' inp')))" by simp
    moreover have "out @ enc z' inp' = enc z inp" by (simp add: out)
    ultimately show ?thesis by simp
  next
    case False
    then have "out = enc z inp" by (simp add: out)
    then show ?thesis
      using False step len pre bound by (simp add: string_resize_def)
  qed
qed

lemma decompress_loop_correct:
  assumes "inflate_spec inflate dec" and "0 < sz" and "max_bytes < 2 ^ 32"
  shows "dec z inp = Some plain \<Longrightarrow> su \<le> length outp \<Longrightarrow>
    su + length plain + 2 * sz \<le> max_bytes \<Longrightarrow>
    decompress_loop inflate max_bytes sz z inp outp su = Some (Inr (take su outp @ plain))"
proof (induction "length plain" arbitrary: z inp outp su plain rule: less_induct)
  case less
  obtain z' inp' out ret where d: "inflate z inp (2 * sz) = (z', inp', out, ret)"
    by (cases "inflate z inp (2 * sz)") auto
  with assms(1) less.prems(1) have out: "out = take (2 * sz) plain" "dec z' inp' = Some (drop (2 * sz) plain)"
    and ret: "\<And>m. ret \<noteq> Z_ERROR m" by (auto simp: inflate_spec_def)
  have small: "2 * sz mod 2 ^ 32 = 2 * sz" "(su + 2 * sz) mod 2 ^ 64 = su + 2 * sz"
    "\<not> max_bytes < su + 2 * sz"
    using less.prems(3) assms(3) by auto
  define output1 where "output1 = string_resize outp (su + 2 * sz)"
  have o1: "length output1 = su + 2 * sz" "take su output1 = take su outp"
    using less.prems(2) by (auto simp: output1_def take_string_resize)
  have len: "length out = min (2 * sz) (length plain)" by (simp add: out)
  then obtain output2 where o2: "mem_write output1 su out = Inr output2"
    using mem_write_safe_iff [of output1 su out] o1(1) by auto
  have step: "decompress_loop inflate max_bytes sz z inp outp su =
      (if 2 * sz - length out = 0
       then decompress_loop inflate max_bytes sz z' inp' output2 (su + length out)
       else Some (Inr (string_resize output2 (su + length out))))"
    using o2 d len ret
    by (subst decompress_loop.simps)
      (simp only: Let_def small if_False output1_def [symmetric] prod.case sum.case,
       simp split: z_ret.split)
  have pre: "take (su + length out) output2 = take su outp @ out"
    using mem_write_prefix [OF o2] o1(2) by simp
  have bound: "su + length out \<le> length output2"
    using mem_write_length [OF o2] o1(1) len by simp
  show ?case
  proof (cases "2 * sz \<le> length plain")
    case True
    with step len pre less.prems(3) assms(2) less.hyps [OF _ out(2) bound] have
      "decompress_loop inflate max_bytes sz z inp outp su =
       Some (Inr (take su outp @ (out @ drop (2 * sz) plain)))" by simp
    moreover have "out @ drop (2 * sz) plain = plain" by (simp add: out)
    ultimately show ?thesis by simp
  next
    case False
    then have "out = plain" by (simp add: out)
    then show ?thesis
      using False step len pre bound by (simp add: string_resize_def)
  qed
qed

lemma gzip_compress_enc:
  assumes "deflate_spec deflate enc" "deflateInit2 (- 1) = Some z" "length data \<le> 2000000000"
  shows "gzip_compress deflateInit2 deflate data = Some (Inr (enc z data))"
proof -
  have "length data mod 2 ^ 32 = length data" "length data div 2 + 1024 < 2 ^ 32"
    using assms(3) by auto
  with compress_loop_correct [OF assms(1), of "length data" 0 "[]" z data] assms(2,3) show ?thesis
    by (simp add: gzip_compress_def Compressor_compress_def Let_def)
qed

lemma gzip_decompress_dec:
  assumes "inflate_spec inflate dec" "dec z data = Some plain"
    and "data \<noteq> []" "length plain + 2 * length data \<le> 1000000000"
  shows "gzip_decompress (Some z) inflate data = Some (Inr plain)"
proof -
  have "length data mod 2 ^ 32 = length data" "(length data * 2) mod 2 ^ 64 = length data * 2"
    using assms(4) by auto
  with decompress_loop_correct [OF assms(1) _ _ assms(2), of "length data" 1000000000 0 "[]"] assms(3,4)
  show ?thesis by (simp add: gzip_decompress_def Decompressor_decompress_def Let_def)
qed

text \<open>
  A stored format with the gzip magic number in front, to run the loops on: it satisfies what is
  asked of zlib.
\<close>

definition stored_deflate :: "bytes deflate_fn" where
  "stored_deflate z inp n = (drop n (z @ inp), [], take n (z @ inp))"

definition stored_inflate :: "bool inflate_fn" where
  "stored_inflate hdr inp n =
     (let p = (if hdr then drop 2 inp else inp)
      in if n = 0 then (hdr, inp, [], Z_BUF_ERROR)
         else (False, drop n p, take n p, if length p \<le> n then Z_STREAM_END else Z_OK))"

lemma stored_specs:
  "deflate_spec stored_deflate (\<lambda>z inp. z @ inp)"
  "inflate_spec stored_inflate (\<lambda>hdr inp. Some (if hdr then drop 2 inp else inp))"
  "inflate_no_room stored_inflate"
  by (auto simp: deflate_spec_def stored_deflate_def inflate_spec_def inflate_no_room_def
      stored_inflate_def Let_def numeral_2_eq_2)

text \<open>
  C23: compression returns, and returns the whole gzip stream. For every body up to two gigabytes
  the loop that grows the output in steps of \<open>size / 2 + 1024\<close> ends, never writes outside the
  string and yields exactly what zlib has to deliver; a larger body and a failing
  \<^verbatim>\<open>deflateInit2\<close> end in a runtime error.
\<close>

theorem gzip_compress_correct:
  assumes "deflate_spec deflate enc"
  shows "gzip_compress deflateInit2 deflate data =
    Some (if length data > 2000000000 then Inl Runtime_error
          else case deflateInit2 (- 1) of None \<Rightarrow> Inl Runtime_error | Some z \<Rightarrow> Inr (enc z data))"
proof (cases "deflateInit2 (- 1)")
  case (Some z)
  show ?thesis
  proof (cases "length data > 2000000000")
    case False
    with Some gzip_compress_enc [of deflate enc deflateInit2 z data, OF assms Some] show ?thesis by simp
  qed (simp add: gzip_compress_def Compressor_compress_def)
qed (simp add: gzip_compress_def Compressor_compress_def Let_def)

theorem gzip_compress_correct_witness:
  "gzip_compress (\<lambda>l. Some [CHR 0x1F, CHR 0x8B]) stored_deflate ''abc'' =
   Some (Inr [CHR 0x1F, CHR 0x8B, CHR ''a'', CHR ''b'', CHR ''c''])"
  using gzip_compress_correct [OF stored_specs(1), of "\<lambda>l. Some [CHR 0x1F, CHR 0x8B]" "''abc''"] by simp

text \<open>
  C24: what was compressed is decompressed to the same bytes, when inflating inverts deflating
  and the sizes stay below the limit of one gigabyte.
\<close>

theorem gzip_roundtrip:
  assumes "deflate_spec deflate enc" "inflate_spec inflate dec"
    and "deflateInit2 (- 1) = Some z" "dec y (enc z data) = Some data"
    and "enc z data \<noteq> []" "length data + 2 * length (enc z data) \<le> 1000000000"
  shows "\<exists>c. gzip_compress deflateInit2 deflate data = Some (Inr c) \<and>
    gzip_decompress (Some y) inflate c = Some (Inr data)"
  using gzip_compress_enc [of deflate enc deflateInit2 z data, OF assms(1,3)] gzip_decompress_dec [OF assms(2,4-6)] assms(6) by simp

theorem gzip_roundtrip_witness:
  "\<exists>c. gzip_compress (\<lambda>l. Some [CHR 0x1F, CHR 0x8B]) stored_deflate ''abc'' = Some (Inr c) \<and>
    gzip_decompress (Some True) stored_inflate c = Some (Inr ''abc'')"
  by (rule gzip_roundtrip [OF stored_specs(1,2), of _ "[CHR 0x1F, CHR 0x8B]"]) simp_all

lemma decompress_loop_empty:
  assumes "decompress_loop inflate max_bytes sz z inp outp su = Some r"
  shows "\<not> (inflate_no_room inflate \<and> sz = 0 \<and> su \<le> max_bytes \<and> max_bytes < 2 ^ 64)"
proof (rule decompress_loop.raw_induct [OF _ assms, where
      P = "\<lambda>inflate max_bytes sz z inp outp su r.
        \<not> (inflate_no_room inflate \<and> sz = 0 \<and> su \<le> max_bytes \<and> max_bytes < 2 ^ 64)"], rule notI, goal_cases)
  case (1 loop inflate max_bytes sz z inp outp su r)
  then have *: "inflate_no_room inflate" "sz = 0" "su \<le> max_bytes" "max_bytes < 2 ^ 64" by auto
  obtain z' inp' out ret where d: "inflate z inp 0 = (z', inp', out, ret)"
    by (cases "inflate z inp 0") auto
  with * have out: "out = []" "ret = Z_BUF_ERROR" by (auto simp: inflate_no_room_def)
  have "mem_write (string_resize outp su) su [] = Inr (string_resize outp su)"
    by (simp add: mem_write_def)
  with 1(2) * d out have "loop inflate max_bytes sz z' inp' (string_resize outp su) su = Some r"
    by (simp add: Let_def)
  with 1(1) * show False by blast
qed

text \<open>
  Decompressing an empty input never returns. The output grows by twice the input size, so
  \<^verbatim>\<open>inflate\<close> is called again and again without room and the loop condition always holds.
\<close>

theorem gzip_decompress_empty_diverges:
  assumes "inflate_no_room inflate"
  shows "gzip_decompress (Some z) inflate [] = None"
proof (cases "gzip_decompress (Some z) inflate []")
  case (Some r)
  then have "decompress_loop inflate 1000000000 0 z [] [] 0 = Some r"
    by (simp add: gzip_decompress_def Decompressor_decompress_def)
  from decompress_loop_empty [OF this] assms show ?thesis by simp
qed

theorem gzip_decompress_empty_diverges_witness:
  "gzip_decompress (Some True) stored_inflate [] = None"
  by (rule gzip_decompress_empty_diverges [OF stored_specs(3)])

text \<open>Compressed output is recognised by its first two bytes.\<close>

lemma is_compressed_gzip: "2 < n \<Longrightarrow> is_compressed (CHR 0x1F # CHR 0x8B # rest) n"
  by (simp add: is_compressed_def byte_val_def)

end
