(* ===== verification/Chains.thy ===== *)
theory Chains
  imports Task Ranges Gzip
begin

text \<open>
  The chain that prepares a response for sending (\<^verbatim>\<open>response/chains\<close>): HEAD, then ranges, then
  compression, then the plain case. Each \<^verbatim>\<open>execute\<close> is a function of its \<^verbatim>\<open>nextChain\<close>; \<open>None\<close> is
  the null pointer. A result \<open>None\<close> means that the call does not return, \<open>Some (Inl e)\<close> that it
  throws or is undefined.
\<close>

type_synonym 'w chain = "'w Task \<Rightarrow> ResponseBase \<Rightarrow> ResponseBase res option"

definition call_next :: "'w chain option \<Rightarrow> 'w chain" where
  "call_next next task response =
     (case next of None \<Rightarrow> Some (Inr response) | Some ch \<Rightarrow> ch task response)"

text \<open>\<^verbatim>\<open>task->getRequest()->getHeaderRef(key)\<close>, a null request being undefined.\<close>

definition task_header :: "bytes \<Rightarrow> 'w Task \<Rightarrow> bytes res" where
  "task_header key task =
     (case task_request task of None \<Rightarrow> Inl Undefined | Some req \<Rightarrow> getHeaderRef key req)"

subsection \<open>HEAD\<close>

definition prepareHeadResponse :: "ResponseBase \<Rightarrow> ResponseBase" where
  "prepareHeadResponse response =
     ResponseBase_setBody []
       (ResponseBase_addHeader ''Content-Length'' (to_string (length (resp_body response))) response)"

definition execute_Head :: "'w chain option \<Rightarrow> 'w chain" where
  "execute_Head next task response =
     (case task_request task of
        None \<Rightarrow> Some (Inl Undefined)
      | Some req \<Rightarrow>
          if req_method req = ''HEAD'' then Some (Inr (prepareHeadResponse response))
          else call_next next task response)"

subsection \<open>Ranges\<close>

text \<open>
  \<^verbatim>\<open>checkRequestRange\<close> and \<^verbatim>\<open>checkSupportGzipEncoding\<close> return true when the header names the
  unit or coding and false when there is no header; when the header is there without the word,
  control reaches the end of the function.
\<close>

definition header_mentions :: "bytes \<Rightarrow> bytes \<Rightarrow> 'w Task \<Rightarrow> bool res" where
  "header_mentions key word task =
     (case task_header key task of
        Inr v \<Rightarrow> if str_find v word 0 \<noteq> None then Inr True else Inl Undefined
      | Inl e \<Rightarrow> if e = Out_of_range then Inr False else Inl e)"

definition checkRequestRange :: "'w Task \<Rightarrow> bool res" where
  "checkRequestRange task = header_mentions ''range'' ''bytes'' task"

definition prepareRangeNotSatisfiableResponse :: "ResponseBase \<Rightarrow> ResponseBase" where
  "prepareRangeNotSatisfiableResponse response =
     (let os = ''*/'' @ to_string (length (resp_body response));
          r1 = setCode (fst RESPONSE_STATE_RANGE_NOT_SATISFIABLE) response;
          r2 = setCodeMsg (snd RESPONSE_STATE_RANGE_NOT_SATISFIABLE) r1;
          r3 = ResponseBase_addHeader ''Content-Range'' os r2
      in ResponseBase_setBody [] r3)"

text \<open>\<^verbatim>\<open>std::copy(begin + first, begin + second + 1, ...)\<close>.\<close>

definition copy_range :: "bytes \<Rightarrow> range \<Rightarrow> bytes res" where
  "copy_range src r =
     (let a = unat (fst r); b = unat (snd r) + 1
      in if a \<le> b \<and> b \<le> length src then Inr (take (b - a) (drop a src)) else Inl Undefined)"

definition content_range :: "range \<Rightarrow> nat \<Rightarrow> bytes" where
  "content_range r len =
     ''bytes '' @ to_string (unat (fst r)) @ ''-'' @ to_string (unat (snd r)) @ ''/'' @ to_string len"

definition range_part :: "bytes \<Rightarrow> bytes \<Rightarrow> range \<Rightarrow> bytes res" where
  "range_part mime src r =
     bind_res (copy_range src r) (\<lambda>body.
       Inr (''--3d6b6a416f9b5'' @ CRLF @ ''Content-Type: '' @ mime @ CRLF @
            ''Content-Range: '' @ content_range r (length src) @ CRLF @ CRLF @ body))"

fun range_parts :: "bytes \<Rightarrow> bytes \<Rightarrow> range list \<Rightarrow> bytes res" where
  "range_parts mime src [] = Inr []"
| "range_parts mime src [r] = range_part mime src r"
| "range_parts mime src (r # r' # rs) =
     bind_res (range_part mime src r) (\<lambda>p.
     bind_res (range_parts mime src (r' # rs)) (\<lambda>ps. Inr (p @ CRLF @ ps)))"

definition set_partial :: "ResponseBase \<Rightarrow> ResponseBase" where
  "set_partial response =
     setCodeMsg (snd RESPONSE_STATE_PARTIAL_CONTENT)
       (setCode (fst RESPONSE_STATE_PARTIAL_CONTENT) response)"

definition prepareRangeResponse :: "range list \<Rightarrow> ResponseBase \<Rightarrow> ResponseBase res" where
  "prepareRangeResponse ranges response =
     (if length ranges = 1 then
        bind_res (copy_range (resp_body response) (hd ranges)) (\<lambda>body.
          let r1 = set_partial response;
              r2 = ResponseBase_addHeader ''Content-Range''
                     (content_range (hd ranges) (length (resp_body response))) r1;
              r3 = ResponseBase_addHeader ''Content-Length'' (to_string (length body)) r2
          in Inr (ResponseBase_setBody body r3))
      else
        let content_type_body = mimeType response;
            r1 = setMimeType MIME_TYPE_MULTIPART_BYTES_RANGES (set_partial response)
        in bind_res (range_parts content_type_body (resp_body r1) ranges) (\<lambda>os.
             let r2 = ResponseBase_setBody os r1
             in Inr (ResponseBase_addHeader ''Content-Length'' (to_string (length (resp_body r2))) r2)))"

definition range_response ::
  "(range list \<Rightarrow> range list) \<Rightarrow> 'w Task \<Rightarrow> ResponseBase \<Rightarrow> ResponseBase res" where
  "range_response srt task response =
     (case bind_res (task_header ''range'' task) (\<lambda>src.
           bind_res (parseRangesRequest srt src (of_nat (length (resp_body response)) - 1))
             (\<lambda>ranges. prepareRangeResponse ranges response)) of
        Inr r \<Rightarrow> Inr r
      | Inl e \<Rightarrow>
          if e = OnyxupException then Inr (prepareRangeNotSatisfiableResponse response) else Inl e)"

definition execute_Range :: "(range list \<Rightarrow> range list) \<Rightarrow> 'w chain option \<Rightarrow> 'w chain" where
  "execute_Range srt next task response =
     (case checkRequestRange task of
        Inl e \<Rightarrow> Some (Inl e)
      | Inr True \<Rightarrow> Some (range_response srt task response)
      | Inr False \<Rightarrow> call_next next task response)"

subsection \<open>Compression and the plain case\<close>

definition checkSupportGzipEncoding :: "'w Task \<Rightarrow> bool res" where
  "checkSupportGzipEncoding task = header_mentions ''accept-encoding'' ''gzip'' task"

definition prepareCompressResponse ::
  "(bytes \<Rightarrow> bytes res option) \<Rightarrow> ResponseBase \<Rightarrow> ResponseBase res option" where
  "prepareCompressResponse gz response =
     (let r1 = ResponseBase_addHeader ''Content-Encoding'' ''gzip'' response
      in map_option (\<lambda>res. bind_res res (\<lambda>compressed_body.
           let r2 = ResponseBase_setBody compressed_body r1
           in Inr (ResponseBase_addHeader ''Content-Length'' (to_string (length (resp_body r2))) r2)))
         (gz (resp_body r1)))"

definition execute_Compress ::
  "(bytes \<Rightarrow> bytes res option) \<Rightarrow> bool \<Rightarrow> 'w chain option \<Rightarrow> 'w chain" where
  "execute_Compress gz compressStaticResources next task response =
     (case checkSupportGzipEncoding task of
        Inl e \<Rightarrow> Some (Inl e)
      | Inr b \<Rightarrow>
          if b \<and> compress response then prepareCompressResponse gz response
          else if task_type task = STATIC_RESOURCES_TASK \<and> compressStaticResources
          then prepareCompressResponse gz response
          else call_next next task response)"

definition prepareDefaultResponse :: "ResponseBase \<Rightarrow> ResponseBase" where
  "prepareDefaultResponse response =
     ResponseBase_addHeader ''Content-Length'' (to_string (length (resp_body response))) response"

definition execute_Default :: "'w chain option \<Rightarrow> 'w chain" where
  "execute_Default next task response = call_next next task (prepareDefaultResponse response)"

text \<open>
  The chain as \<^verbatim>\<open>tasksHandler\<close> links it. \<^verbatim>\<open>gzip::compress\<close> is the argument \<open>gz\<close>; it is
  instantiated with \<open>gzip_compress\<close> on the functions of zlib.
\<close>

definition prepare_chain ::
  "(range list \<Rightarrow> range list) \<Rightarrow> (bytes \<Rightarrow> bytes res option) \<Rightarrow> bool \<Rightarrow> 'w chain" where
  "prepare_chain srt gz flag =
     execute_Head (Some (execute_Range srt (Some (execute_Compress gz flag (Some (execute_Default None))))))"

subsection \<open>What the links do\<close>

definition resp_lookup :: "bytes \<Rightarrow> ResponseBase \<Rightarrow> bytes option" where
  "resp_lookup k r = map_of (m_headers r) k"

lemma resp_lookup_addHeader [simp]:
  "resp_lookup k (ResponseBase_addHeader k' v r) = (if k = k' then Some v else resp_lookup k r)"
  by (simp add: resp_lookup_def AList.update_conv)

lemma resp_lookup_setters [simp]:
  "resp_lookup k (ResponseBase_setBody b r) = resp_lookup k r"
  "resp_lookup k (setCode c r) = resp_lookup k r"
  "resp_lookup k (setCodeMsg m r) = resp_lookup k r"
  "resp_lookup k (setMimeType m r) = resp_lookup k r"
  by (simp_all add: resp_lookup_def)

lemma resp_fields [simp]:
  "resp_body (ResponseBase_addHeader k v r) = resp_body r"
  "resp_code (ResponseBase_addHeader k v r) = resp_code r"
  "resp_body (ResponseBase_setBody b r) = b"
  "resp_code (ResponseBase_setBody b r) = resp_code r"
  "resp_body (set_partial r) = resp_body r" "resp_code (set_partial r) = 206"
  "resp_body (setMimeType m r) = resp_body r" "resp_code (setMimeType m r) = resp_code r"
  "resp_lookup k (set_partial r) = resp_lookup k r" "mimeType (set_partial r) = mimeType r"
  by (simp_all add: set_partial_def state_defs resp_lookup_def)

declare response_setters [simp del]

definition declares_length :: "ResponseBase \<Rightarrow> bool" where
  "declares_length r \<longleftrightarrow> resp_lookup ''Content-Length'' r = Some (to_string (length (resp_body r)))"

lemma prepareRangeResponse_length:
  "prepareRangeResponse ranges r = Inr r' \<Longrightarrow> declares_length r' \<and> resp_code r' = 206"
  by (auto simp: prepareRangeResponse_def Let_def bind_res_Inr_iff declares_length_def split: if_splits)

lemma not_satisfiable:
  "resp_code (prepareRangeNotSatisfiableResponse r) = 416"
  "resp_body (prepareRangeNotSatisfiableResponse r) = []"
  "resp_lookup ''Content-Range'' (prepareRangeNotSatisfiableResponse r) =
     Some (''*/'' @ to_string (length (resp_body r)))"
  by (simp_all add: prepareRangeNotSatisfiableResponse_def Let_def state_defs setCode_def setCodeMsg_def)

lemma prepareCompressResponse_length:
  "prepareCompressResponse gz r = Some (Inr r') \<Longrightarrow>
   declares_length r' \<and> gz (resp_body r) = Some (Inr (resp_body r')) \<and>
   resp_lookup ''Content-Encoding'' r' = Some ''gzip''"
  by (auto simp: prepareCompressResponse_def Let_def bind_res_Inr_iff declares_length_def)

lemma range_response_result:
  "range_response srt task r = Inr r' \<Longrightarrow>
   declares_length r' \<and> resp_code r' = 206 \<or> r' = prepareRangeNotSatisfiableResponse r"
  using prepareRangeResponse_length
  by (auto simp: range_response_def bind_res_Inr_iff split: sum.splits if_splits)

lemma execute_Default_None: "execute_Default None task r = Some (Inr (prepareDefaultResponse r))"
  by (simp add: execute_Default_def call_next_def)

lemma prepareDefaultResponse_length: "declares_length (prepareDefaultResponse r)"
  by (simp add: prepareDefaultResponse_def declares_length_def)

text \<open>
  C16: the declared length is the length sent. Whenever the chain lets a response through, a
  response to \<^verbatim>\<open>HEAD\<close> has an empty body and declares the length the body had; every other response
  declares exactly the length of the body it carries (after slicing and compression), or it is
  a 416 with an empty body that names the full length in \<^verbatim>\<open>Content-Range\<close>.
\<close>

theorem chain_content_length:
  assumes "prepare_chain srt gz flag task r = Some (Inr r')" "task_request task = Some req"
  shows "if req_method req = ''HEAD''
    then resp_body r' = [] \<and> resp_lookup ''Content-Length'' r' = Some (to_string (length (resp_body r)))
    else declares_length r' \<or>
      resp_code r' = 416 \<and> resp_body r' = [] \<and>
      resp_lookup ''Content-Range'' r' = Some (''*/'' @ to_string (length (resp_body r)))"
proof (cases "req_method req = ''HEAD''")
  case True
  with assms show ?thesis
    by (auto simp: prepare_chain_def execute_Head_def prepareHeadResponse_def)
next
  case False
  with assms have run: "execute_Range srt (Some (execute_Compress gz flag (Some (execute_Default None)))) task r =
      Some (Inr r')"
    by (simp add: prepare_chain_def execute_Head_def call_next_def)
  then consider "range_response srt task r = Inr r'"
    | "prepareCompressResponse gz r = Some (Inr r')" | "r' = prepareDefaultResponse r"
    by (auto simp: execute_Range_def execute_Compress_def call_next_def execute_Default_None
        split: sum.splits bool.splits if_splits)
  then show ?thesis
  proof cases
    case 1
    with range_response_result [OF 1] False not_satisfiable [of r] show ?thesis by auto
  next
    case 2
    with prepareCompressResponse_length [OF 2] False show ?thesis by simp
  next
    case 3
    with prepareDefaultResponse_length [of r] False show ?thesis by simp
  qed
qed

definition range_request :: "bytes \<Rightarrow> Request" where
  "range_request v = the (requestFactory True 5 0)\<lparr>req_method := ''GET'', req_headers := [''range'' \<mapsto> v]\<rparr>"

definition task_for :: "Request \<Rightarrow> unit Task" where
  "task_for req = sample_Task\<lparr>task_type := LOCAL_TASK, task_request := Some req\<rparr>"

definition no_gzip :: "bytes \<Rightarrow> bytes res option" where
  "no_gzip b = Some (Inl Runtime_error)"

lemma task_for_simps [simp]: "task_request (task_for req) = Some req" "task_type (task_for req) = LOCAL_TASK"
  by (simp_all add: task_for_def)

lemma range_request_simps [simp]:
  "req_method (range_request v) = ''GET''" "req_headers (range_request v) = [''range'' \<mapsto> v]"
  by (simp_all add: range_request_def)

theorem chain_content_length_witness:
  "\<exists>r'. prepare_chain (sort_key fst) no_gzip False (task_for (range_request ''bytes=1-2'')) (ResponsePlain ''abcd'' False)
     = Some (Inr r') \<and> (declares_length r' \<or> resp_code r' = 416)"
proof -
  have "case prepare_chain (sort_key fst) no_gzip False (task_for (range_request ''bytes=1-2''))
      (ResponsePlain ''abcd'' False) of Some (Inr r') \<Rightarrow> True | _ \<Rightarrow> False"
    by code_simp
  then obtain r' where r': "prepare_chain (sort_key fst) no_gzip False (task_for (range_request ''bytes=1-2''))
      (ResponsePlain ''abcd'' False) = Some (Inr r')" by (auto split: option.splits sum.splits)
  from chain_content_length [OF this, of "range_request ''bytes=1-2''"] r' show ?thesis by auto
qed

subsection \<open>Range requests\<close>

text \<open>The bytes \<open>a..b\<close> of the body, both ends included.\<close>

definition slice :: "bytes \<Rightarrow> range \<Rightarrow> bytes" where
  "slice src r = map (\<lambda>i. src ! i) [unat (fst r) ..< unat (snd r) + 1]"

lemma copy_range_slice:
  assumes "fst r \<le> snd r" "unat (snd r) < length src"
  shows "copy_range src r = Inr (slice src r)"
proof -
  have "unat (fst r) \<le> unat (snd r)" using assms(1) by (simp add: word_le_nat_alt)
  with assms(2) show ?thesis
    by (auto simp: copy_range_def slice_def Let_def simp del: upt_Suc intro!: nth_equalityI)
qed

lemma last_index:
  assumes "src \<noteq> []" "length src < 2 ^ 64" "b \<le> (of_nat (length src) - 1 :: size_t)"
  shows "unat b < length src"
proof -
  have "unat (of_nat (length src) - 1 :: size_t) = length src - 1"
    using assms(1,2) by (subst unat_sub) (auto simp: word_le_nat_alt unat_of_nat Suc_le_eq)
  with assms(3) have "unat b \<le> length src - 1" by (simp add: word_le_nat_alt)
  with assms(1) show ?thesis by (cases src) auto
qed

lemma ranges_fit:
  assumes "src \<noteq> []" "length src < 2 ^ 64"
    and "\<forall>(a, b) \<in> set rs. a \<le> b \<and> b \<le> (of_nat (length src) - 1 :: size_t)"
  shows "\<forall>x \<in> set rs. fst x \<le> snd x \<and> unat (snd x) < length src"
  using assms(3) last_index [OF assms(1,2)] by fastforce

definition part_text :: "bytes \<Rightarrow> bytes \<Rightarrow> range \<Rightarrow> bytes" where
  "part_text mime src r =
     ''--3d6b6a416f9b5'' @ CRLF @ ''Content-Type: '' @ mime @ CRLF @
     ''Content-Range: '' @ content_range r (length src) @ CRLF @ CRLF @ slice src r"

fun join_crlf :: "bytes list \<Rightarrow> bytes" where
  "join_crlf [] = []"
| "join_crlf [p] = p"
| "join_crlf (p # q # ps) = p @ CRLF @ join_crlf (q # ps)"

lemma range_parts_text:
  "\<forall>r \<in> set rs. fst r \<le> snd r \<and> unat (snd r) < length src \<Longrightarrow>
   range_parts mime src rs = Inr (join_crlf (map (part_text mime src) rs))"
  by (induction mime src rs rule: range_parts.induct)
    (auto simp: range_part_def part_text_def copy_range_slice)

lemma checkRequestRange_render:
  "task_header ''range'' task = Inr v \<Longrightarrow> str_find v ''bytes'' 0 \<noteq> None \<Longrightarrow> checkRequestRange task = Inr True"
  by (simp add: checkRequestRange_def header_mentions_def)

lemma str_find_render_ranges: "str_find (render_ranges rs) ''bytes'' 0 = Some 0"
  using str_find_prefix [of "''bytes''" "''='' @ join CHR '','' (map render_range rs)"]
  by (simp add: render_ranges_def)

lemma chain_to_range:
  assumes "task_request task = Some req" "req_method req \<noteq> ''HEAD''" "req_headers req ''range'' = Some v"
    and "str_find v ''bytes'' 0 \<noteq> None"
  shows "prepare_chain srt gz flag task r = Some (range_response srt task r)"
    and "task_header ''range'' task = Inr v"
proof -
  show th: "task_header ''range'' task = Inr v"
    using assms(1,3) by (simp add: task_header_def getHeaderRef_def)
  show "prepare_chain srt gz flag task r = Some (range_response srt task r)"
    using assms(1,2) checkRequestRange_render [OF th assms(4)]
    by (simp add: prepare_chain_def execute_Head_def call_next_def execute_Range_def)
qed

text \<open>
  C17: a request for ranges is answered with those bytes. For every increasing list of ranges
  inside a body of at least two bytes, the answer is 206: one range gives exactly these bytes and
  their \<^verbatim>\<open>Content-Range\<close>; several give a \<^verbatim>\<open>multipart/byteranges\<close> body whose parts carry, in order,
  the original type, the position and exactly the bytes of each range.
\<close>

theorem chain_range_correct:
  assumes "range_sort srt" "task_request task = Some req" "req_method req \<noteq> ''HEAD''"
    and "req_headers req ''range'' = Some (render_ranges rs)"
    and "1 < length (resp_body r)" "length (resp_body r) < 2 ^ 64"
    and "rs \<noteq> []" "ranges_ok (of_nat (length (resp_body r)) - 1) rs" "sorted_wrt (<) (map fst rs)"
  shows "\<exists>r'. prepare_chain srt gz flag task r = Some (Inr r') \<and> resp_code r' = 206 \<and>
    declares_length r' \<and>
    (if length rs = 1
     then resp_body r' = slice (resp_body r) (hd rs) \<and>
          resp_lookup ''Content-Range'' r' = Some (content_range (hd rs) (length (resp_body r)))
     else resp_body r' = join_crlf (map (part_text (mimeType r) (resp_body r)) rs) \<and>
          mimeType r' = MIME_TYPE_MULTIPART_BYTES_RANGES)"
proof -
  let ?last = "of_nat (length (resp_body r)) - 1 :: size_t"
  have "?last \<noteq> 0"
  proof
    assume "?last = 0"
    then have "(of_nat (length (resp_body r)) :: size_t) = 1" by simp
    then have "unat (of_nat (length (resp_body r)) :: size_t) = unat (1 :: size_t)" by simp
    with assms(5,6) show False by (simp add: unat_of_nat)
  qed
  then have parse: "parseRangesRequest srt (render_ranges rs) ?last = Inr rs"
    using assms(1,7-9) by (intro parseRangesRequest_render)
  have fits: "\<forall>x \<in> set rs. fst x \<le> snd x \<and> unat (snd x) < length (resp_body r)"
  proof (rule ranges_fit)
    show "\<forall>(a, b) \<in> set rs. a \<le> b \<and> b \<le> ?last"
      using assms(7,8) ranges_ok_iff [of ?last "hd rs" "tl rs"] by simp
  qed (use assms(5,6) in auto)
  note to_range = chain_to_range(1) [OF assms(2-4), of srt gz flag r] chain_to_range(2) [OF assms(2-4)]
  have "range_response srt task r =
      (case prepareRangeResponse rs r of Inr r' \<Rightarrow> Inr r'
       | Inl e \<Rightarrow> if e = OnyxupException then Inr (prepareRangeNotSatisfiableResponse r) else Inl e)"
    using to_range(2) parse by (simp add: str_find_render_ranges range_response_def)
  moreover obtain r' where r': "prepareRangeResponse rs r = Inr r'"
    and body: "if length rs = 1
     then resp_body r' = slice (resp_body r) (hd rs) \<and>
          resp_lookup ''Content-Range'' r' = Some (content_range (hd rs) (length (resp_body r)))
     else resp_body r' = join_crlf (map (part_text (mimeType r) (resp_body r)) rs) \<and>
          mimeType r' = MIME_TYPE_MULTIPART_BYTES_RANGES"
  proof (cases "length rs = 1")
    case True
    then have "copy_range (resp_body r) (hd rs) = Inr (slice (resp_body r) (hd rs))"
      using fits assms(7) by (intro copy_range_slice) auto
    with True that show ?thesis by (auto simp: prepareRangeResponse_def Let_def)
  next
    case False
    with range_parts_text [OF fits, of "mimeType r"] that show ?thesis
      by (auto simp: prepareRangeResponse_def Let_def response_setters)
  qed
  ultimately have "range_response srt task r = Inr r'" by simp
  with to_range(1) prepareRangeResponse_length [OF r'] body show ?thesis
    by (simp add: str_find_render_ranges)
qed

theorem chain_range_correct_witness:
  "\<exists>r'. prepare_chain (sort_key fst) no_gzip False (task_for (range_request (render_ranges [(1, 2)])))
     (ResponsePlain ''abcd'' False) = Some (Inr r') \<and> resp_code r' = 206 \<and> resp_body r' = ''bc''"
proof -
  let ?r = "ResponsePlain ''abcd'' False"
  have b: "resp_body ?r = ''abcd''" by (simp add: ResponsePlain_def response_of_def ResponseBase_new_def)
  have s: "slice ''abcd'' (1, 2) = ''bc''" by code_simp
  show ?thesis
    using chain_range_correct [OF insertion.range_sort_axioms, of
        "task_for (range_request (render_ranges [(1, 2)]))" "range_request (render_ranges [(1, 2)])"
        "[(1, 2)]" ?r no_gzip False] s
    by (auto simp: b)
qed

subsection \<open>Where the chain is undefined, and where it is safe\<close>

text \<open>
  Three requests that lead to undefined behaviour, for every handler's response. A \<^verbatim>\<open>Range\<close>
  header without the word \<^verbatim>\<open>bytes\<close> and, when no range is asked for, an \<^verbatim>\<open>Accept-Encoding\<close> header
  without \<^verbatim>\<open>gzip\<close> make a check function end without a return value; any well-formed range on an
  empty body makes \<^verbatim>\<open>body.size() - 1\<close> wrap around to \<^verbatim>\<open>SIZE_MAX\<close>, so the range is accepted and
  bytes outside the body are copied.
\<close>

theorem chain_undefined:
  assumes "task_request task = Some req" "req_method req \<noteq> ''HEAD''"
  shows "(req_headers req ''range'' = Some v \<and> str_find v ''bytes'' 0 = None \<longrightarrow>
            prepare_chain srt gz flag task r = Some (Inl Undefined)) \<and>
    (req_headers req ''range'' = None \<and> req_headers req ''accept-encoding'' = Some v \<and>
       str_find v ''gzip'' 0 = None \<longrightarrow> prepare_chain srt gz flag task r = Some (Inl Undefined)) \<and>
    (range_sort srt \<and> req_headers req ''range'' = Some (render_ranges [(a, b)]) \<and> a \<le> b \<and>
       resp_body r = [] \<longrightarrow> prepare_chain srt gz flag task r = Some (Inl Undefined))"
proof (intro conjI impI)
  assume "req_headers req ''range'' = Some v \<and> str_find v ''bytes'' 0 = None"
  with assms show "prepare_chain srt gz flag task r = Some (Inl Undefined)"
    by (simp add: prepare_chain_def execute_Head_def call_next_def execute_Range_def
        checkRequestRange_def header_mentions_def task_header_def getHeaderRef_def)
next
  assume "req_headers req ''range'' = None \<and> req_headers req ''accept-encoding'' = Some v \<and>
    str_find v ''gzip'' 0 = None"
  with assms show "prepare_chain srt gz flag task r = Some (Inl Undefined)"
    by (simp add: prepare_chain_def execute_Head_def call_next_def execute_Range_def execute_Compress_def
        checkRequestRange_def checkSupportGzipEncoding_def header_mentions_def task_header_def
        getHeaderRef_def)
next
  assume *: "range_sort srt \<and> req_headers req ''range'' = Some (render_ranges [(a, b)]) \<and> a \<le> b \<and>
    resp_body r = []"
  then have h: "req_headers req ''range'' = Some (render_ranges [(a, b)])" by blast
  have "parseRangesRequest srt (render_ranges [(a, b)]) (- 1) = Inr [(a, b)]"
    using * by (intro parseRangesRequest_render) auto
  moreover have "copy_range [] (a, b) = Inl Undefined" by (simp add: copy_range_def Let_def)
  ultimately show "prepare_chain srt gz flag task r = Some (Inl Undefined)"
    using * chain_to_range(1) [OF assms h] chain_to_range(2) [OF assms h]
    by (simp add: range_response_def str_find_render_ranges prepareRangeResponse_def)
qed

theorem chain_undefined_witness:
  "prepare_chain (sort_key fst) no_gzip False (task_for (range_request (render_ranges [(0, 0)])))
     (ResponsePlain [] False) = Some (Inl Undefined)"
  using chain_undefined [of "task_for (range_request (render_ranges [(0, 0)]))"
      "range_request (render_ranges [(0, 0)])" _ "sort_key fst" no_gzip False "ResponsePlain [] False" 0 0]
    insertion.range_sort_axioms
  by (simp add: ResponsePlain_def response_of_def ResponseBase_new_def)

definition range_header_ok :: "Request \<Rightarrow> bool" where
  "range_header_ok req \<longleftrightarrow>
     (case req_headers req ''range'' of
        None \<Rightarrow> True
      | Some v \<Rightarrow> str_find v ''bytes'' 0 \<noteq> None \<and>
          (case str_find v ''bytes='' 0 of
             None \<Rightarrow> True
           | Some pos \<Rightarrow> list_all (\<lambda>t. trimSpaces t \<noteq> []) (getlines CHR '','' (drop (pos + 6) v))))"

definition encoding_header_ok :: "Request \<Rightarrow> bool" where
  "encoding_header_ok req \<longleftrightarrow>
     (case req_headers req ''accept-encoding'' of None \<Rightarrow> True | Some v \<Rightarrow> str_find v ''gzip'' 0 \<noteq> None)"

lemma prepareRangeResponse_total:
  assumes "\<forall>x \<in> set rs. fst x \<le> snd x \<and> unat (snd x) < length (resp_body r)" "rs \<noteq> []"
  shows "\<exists>r'. prepareRangeResponse rs r = Inr r'"
  using assms range_parts_text [OF assms(1), of "mimeType r"]
    copy_range_slice [of "hd rs" "resp_body r"]
  by (cases rs) (auto simp: prepareRangeResponse_def Let_def)

lemma range_response_total:
  assumes "range_sort srt" "resp_body r \<noteq> []" "length (resp_body r) < 2 ^ 64"
    and "task_header ''range'' task = Inr v"
    and "\<And>pos. str_find v ''bytes='' 0 = Some pos \<Longrightarrow>
      list_all (\<lambda>t. trimSpaces t \<noteq> []) (getlines CHR '','' (drop (pos + 6) v))"
  shows "\<exists>r'. range_response srt task r = Inr r'"
proof (cases "parseRangesRequest srt v (of_nat (length (resp_body r)) - 1)")
  case (Inl e)
  have "e = OnyxupException"
    using Inl assms(5)
    by (auto simp: parseRangesRequest_def bind_res_Inl_iff list_all_iff split: if_splits option.splits
        dest: range_tokens_error)
  with Inl assms(4) show ?thesis by (simp add: range_response_def)
next
  case (Inr rs)
  from parseRangesRequest_bounds [OF assms(1) Inr] ranges_fit [OF assms(2,3)]
  obtain r' where "prepareRangeResponse rs r = Inr r'" using prepareRangeResponse_total by blast
  with Inr assms(4) show ?thesis by (simp add: range_response_def)
qed

text \<open>
  On such headers the chain always delivers. If the body is not empty, a \<^verbatim>\<open>Range\<close> header
  mentions \<^verbatim>\<open>bytes\<close> and has no blank item, an \<^verbatim>\<open>Accept-Encoding\<close> header mentions \<^verbatim>\<open>gzip\<close>, and
  compression succeeds, then the chain returns a response: no exception escapes and nothing is
  undefined, whatever else the headers contain.
\<close>

theorem chain_total:
  assumes "range_sort srt" "task_request task = Some req"
    and "resp_body r \<noteq> []" "length (resp_body r) < 2 ^ 64"
    and "range_header_ok req" "encoding_header_ok req"
    and "gz (resp_body r) = Some (Inr c)"
  shows "\<exists>r'. prepare_chain srt gz flag task r = Some (Inr r')"
proof -
  let ?compress = "execute_Compress gz flag (Some (execute_Default None))"
  have th: "task_header k task = getHeaderRef k req" for k using assms(2) by (simp add: task_header_def)
  from assms(7) have "\<exists>r'. prepareCompressResponse gz r = Some (Inr r')"
    by (simp add: prepareCompressResponse_def Let_def)
  then have compress: "\<exists>r'. ?compress task r = Some (Inr r')"
    using assms(6) th [of "''accept-encoding''"]
    by (auto simp: execute_Compress_def checkSupportGzipEncoding_def header_mentions_def
        encoding_header_ok_def getHeaderRef_def call_next_def execute_Default_None split: option.splits)
  have "\<exists>r'. execute_Range srt (Some ?compress) task r = Some (Inr r')"
  proof (cases "req_headers req ''range''")
    case None
    with compress th [of "''range''"] show ?thesis
      by (simp add: execute_Range_def checkRequestRange_def header_mentions_def getHeaderRef_def call_next_def)
  next
    case (Some v)
    then have v: "task_header ''range'' task = Inr v" using th by (simp add: getHeaderRef_def)
    have "\<exists>r'. range_response srt task r = Inr r'"
      using assms(5) Some by (intro range_response_total [OF assms(1,3,4) v]) (simp add: range_header_ok_def)
    moreover have "checkRequestRange task = Inr True"
      using assms(5) Some v by (simp add: range_header_ok_def checkRequestRange_render)
    ultimately show ?thesis by (simp add: execute_Range_def)
  qed
  then show ?thesis using assms(2) by (simp add: prepare_chain_def execute_Head_def call_next_def)
qed

theorem chain_total_witness:
  "\<exists>r'. prepare_chain (sort_key fst) (gzip_compress (\<lambda>l. Some [CHR 0x1F, CHR 0x8B]) stored_deflate) True
     (task_for (range_request ''bytes=7-'')) (ResponsePlain ''abcd'' True) = Some (Inr r')"
proof (rule chain_total)
  show "range_sort (sort_key fst)" by (rule insertion.range_sort_axioms)
  show "task_request (task_for (range_request ''bytes=7-'')) = Some (range_request ''bytes=7-'')" by simp
  show "resp_body (ResponsePlain ''abcd'' True) \<noteq> []" "length (resp_body (ResponsePlain ''abcd'' True)) < 2 ^ 64"
    by (simp_all add: ResponsePlain_def response_of_def ResponseBase_new_def)
  show "range_header_ok (range_request ''bytes=7-'')" "encoding_header_ok (range_request ''bytes=7-'')"
    by code_simp+
  show "gzip_compress (\<lambda>l. Some [CHR 0x1F, CHR 0x8B]) stored_deflate (resp_body (ResponsePlain ''abcd'' True)) =
      Some (Inr ([CHR 0x1F, CHR 0x8B] @ ''abcd''))"
    by (subst gzip_compress_enc [OF stored_specs(1)]) (simp_all add: ResponsePlain_def response_of_def ResponseBase_new_def)
qed

end
