(* ===== verification/Queue.thy ===== *)
theory Queue
  imports Prelude
begin

text \<open>
  The thread-safe queue (\<^verbatim>\<open>queue/thread-safe-queue.h\<close>). Every operation holds the mutex from its
  first to its last access, so an operation is one step on the list of queued values; what
  several threads do is a sequence of such steps in some order. A call that has to wait for a
  value is not enabled on the empty queue.
\<close>

record 'a ThreadSafeQueue =
  queue :: "'a list"

definition queue_new :: "'a ThreadSafeQueue" where
  "queue_new = \<lparr>queue = []\<rparr>"

definition queue_push :: "'a \<Rightarrow> 'a ThreadSafeQueue \<Rightarrow> 'a ThreadSafeQueue" where
  "queue_push new_value q = q\<lparr>queue := queue q @ [new_value]\<rparr>"

definition queue_empty :: "'a ThreadSafeQueue \<Rightarrow> bool" where
  "queue_empty q \<longleftrightarrow> queue q = []"

definition queue_size :: "'a ThreadSafeQueue \<Rightarrow> nat" where
  "queue_size q = length (queue q)"

text \<open>\<^verbatim>\<open>wait_and_pop\<close>: \<open>None\<close> while the condition variable keeps the thread waiting.\<close>

definition wait_and_pop :: "'a ThreadSafeQueue \<Rightarrow> ('a \<times> 'a ThreadSafeQueue) option" where
  "wait_and_pop q =
     (case queue q of [] \<Rightarrow> None | v # vs \<Rightarrow> Some (v, q\<lparr>queue := vs\<rparr>))"

text \<open>\<^verbatim>\<open>try_pop(T& value)\<close>: the result, the new content of \<open>value\<close> and the queue.\<close>

definition try_pop :: "'a \<Rightarrow> 'a ThreadSafeQueue \<Rightarrow> bool \<times> 'a \<times> 'a ThreadSafeQueue" where
  "try_pop value q =
     (if queue q = [] then (False, value, q)
      else (True, hd (queue q), q\<lparr>queue := tl (queue q)\<rparr>))"

subsection \<open>The contract of a queue\<close>

text \<open>
  What producers and consumers rely on: a value pushed goes to the end, a value popped comes
  from the front, and a pop is possible exactly when something is queued.
\<close>

locale fifo =
  fixes content :: "'q \<Rightarrow> 'a list"
    and push :: "'a \<Rightarrow> 'q \<Rightarrow> 'q"
    and pop :: "'q \<Rightarrow> ('a \<times> 'q) option"
  assumes content_push: "content (push v q) = content q @ [v]"
    and pop_Some: "pop q = Some (v, q') \<Longrightarrow> content q = v # content q'"
    and pop_None: "pop q = None \<Longrightarrow> content q = []"
begin

text \<open>
  Any interleaving of pushes (\<open>Inl v\<close>) and of pops that got through (\<open>Inr v\<close>, with the value
  they returned).
\<close>

inductive run :: "'q \<Rightarrow> ('a + 'a) list \<Rightarrow> 'q \<Rightarrow> bool" where
  run_done: "run q [] q"
| run_push: "run (push v q) tr q' \<Longrightarrow> run q (Inl v # tr) q'"
| run_pop: "pop q = Some (v, q1) \<Longrightarrow> run q1 tr q' \<Longrightarrow> run q (Inr v # tr) q'"

definition pushed :: "('a + 'a) list \<Rightarrow> 'a list" where
  "pushed tr = concat (map (\<lambda>e. case e of Inl v \<Rightarrow> [v] | Inr v \<Rightarrow> []) tr)"

definition popped :: "('a + 'a) list \<Rightarrow> 'a list" where
  "popped tr = concat (map (\<lambda>e. case e of Inl v \<Rightarrow> [] | Inr v \<Rightarrow> [v]) tr)"

lemma run_conserves: "run q tr q' \<Longrightarrow> content q @ pushed tr = popped tr @ content q'"
  by (induction rule: run.induct) (auto simp: pushed_def popped_def content_push dest: pop_Some)

end

interpretation tsq: fifo queue queue_push wait_and_pop
  by unfold_locales (auto simp: queue_push_def wait_and_pop_def split: list.splits)

lemmas queue_run_simps = tsq.run.simps

lemma try_pop_wait_and_pop:
  "try_pop value q =
     (case wait_and_pop q of None \<Rightarrow> (False, value, q) | Some (v, q') \<Rightarrow> (True, v, q'))"
  by (cases "queue q") (simp_all add: try_pop_def wait_and_pop_def)

subsection \<open>Interleavings\<close>

text \<open>The steps of the threads as a function: \<open>None\<close> when a step in the list is not enabled.\<close>

datatype 'a queue_op = Push 'a | Wait_pop | Try_pop

fun queue_steps :: "'a queue_op list \<Rightarrow> 'a ThreadSafeQueue \<Rightarrow> ('a list \<times> 'a ThreadSafeQueue) option" where
  "queue_steps [] q = Some ([], q)"
| "queue_steps (Push v # ops) q = queue_steps ops (queue_push v q)"
| "queue_steps (Wait_pop # ops) q =
     (case wait_and_pop q of
        None \<Rightarrow> None
      | Some (v, q') \<Rightarrow> map_option (\<lambda>(out, q''). (v # out, q'')) (queue_steps ops q'))"
| "queue_steps (Try_pop # ops) q =
     (case try_pop undefined q of
        (False, _, q') \<Rightarrow> queue_steps ops q'
      | (True, v, q') \<Rightarrow> map_option (\<lambda>(out, q''). (v # out, q'')) (queue_steps ops q'))"

fun pushes :: "'a queue_op list \<Rightarrow> 'a list" where
  "pushes [] = []"
| "pushes (Push v # ops) = v # pushes ops"
| "pushes (Wait_pop # ops) = pushes ops"
| "pushes (Try_pop # ops) = pushes ops"

lemma queue_steps_run:
  "queue_steps ops q = Some (out, q') \<Longrightarrow>
   \<exists>tr. tsq.run q tr q' \<and> tsq.pushed tr = pushes ops \<and> tsq.popped tr = out"
proof (induction ops q arbitrary: out rule: queue_steps.induct)
  case (1 q)
  then show ?case by (auto intro!: exI [of _ "[]"] tsq.run_done simp: tsq.pushed_def tsq.popped_def)
next
  case (2 v ops q)
  then obtain tr where "tsq.run (queue_push v q) tr q'" "tsq.pushed tr = pushes ops" "tsq.popped tr = out"
    by auto
  then show ?case
    by (intro exI [of _ "Inl v # tr"]) (auto intro: tsq.run_push simp: tsq.pushed_def tsq.popped_def)
next
  case (3 ops q)
  then obtain v q1 out' where p: "wait_and_pop q = Some (v, q1)" "queue_steps ops q1 = Some (out', q')"
    "out = v # out'" by (auto split: option.splits)
  with "3.IH" [OF p(1) refl p(2)] obtain tr where
    "tsq.run q1 tr q'" "tsq.pushed tr = pushes ops" "tsq.popped tr = out'" by auto
  with p show ?case
    by (intro exI [of _ "Inr v # tr"]) (auto intro: tsq.run_pop simp: tsq.pushed_def tsq.popped_def)
next
  case (4 ops q)
  show ?case
  proof (cases "wait_and_pop q")
    case None
    then have tp: "try_pop undefined q = (False, undefined, q)" by (simp add: try_pop_wait_and_pop)
    with "4.prems" have "queue_steps ops q = Some (out, q')" by simp
    with "4.IH"(2) [OF tp [symmetric] _ refl] show ?thesis by simp
  next
    case (Some p)
    obtain v q1 where p: "p = (v, q1)" by force
    with Some "4.prems" obtain out' where o: "queue_steps ops q1 = Some (out', q')" "out = v # out'"
      by (auto simp: try_pop_wait_and_pop)
    have "try_pop undefined q = (True, v, q1)" using Some p by (simp add: try_pop_wait_and_pop)
    from "4.IH"(1) [OF this [symmetric] refl refl o(1)] obtain tr where
      "tsq.run q1 tr q'" "tsq.pushed tr = pushes ops" "tsq.popped tr = out'" by auto
    with Some p o(2) show ?thesis
      by (intro exI [of _ "Inr v # tr"]) (auto intro: tsq.run_pop simp: tsq.pushed_def tsq.popped_def)
  qed
qed

text \<open>
  C25: first in, first out under every interleaving. Whatever the order in which any number of
  threads push and pop, the values handed out so far, followed by those still queued, are the
  values that were queued at the start followed by those pushed, in the order of the pushes: no
  task is lost, duplicated or overtaken.
\<close>

theorem queue_fifo:
  assumes "queue_steps ops q = Some (out, q')"
  shows "queue q @ pushes ops = out @ queue q'"
proof -
  from queue_steps_run [OF assms] obtain tr where
    "tsq.run q tr q'" "tsq.pushed tr = pushes ops" "tsq.popped tr = out" by blast
  with tsq.run_conserves show ?thesis by metis
qed

theorem queue_fifo_witness:
  "queue queue_new @ pushes [Try_pop, Push (1::nat), Push 2, Wait_pop, Push 3] =
   [1] @ queue \<lparr>queue = [2, 3]\<rparr>"
proof (rule queue_fifo)
  show "queue_steps [Try_pop, Push (1::nat), Push 2, Wait_pop, Push 3] queue_new = Some ([1], \<lparr>queue = [2, 3]\<rparr>)"
    by (simp add: queue_new_def try_pop_def wait_and_pop_def queue_push_def)
qed

end
