(* ===== verification/Params.thy ===== *)
theory Params
  imports Request
begin

text \<open>
  Query strings and form bodies: \<^verbatim>\<open>parseParamsRequest\<close> and \<^verbatim>\<open>urlencoded\<close> of
  \<^verbatim>\<open>server/utils.cpp\<close>. Both split at \<^verbatim>\<open>&\<close> and then at the first \<^verbatim>\<open>=\<close>; they differ in which
  pairs they keep. The law they share, what a list of pairs leaves in a map, is in the locale
  \<open>pair_sink\<close>.
\<close>

subsection \<open>urlencoded\<close>

text \<open>The body of the loop over the tokens.\<close>

definition urlencoded_token :: "bytes \<Rightarrow> string_map \<Rightarrow> string_map" where
  "urlencoded_token token params =
     (case str_find token ''='' 0 of
        None \<Rightarrow> params
      | Some pos \<Rightarrow>
          let key = take pos token; value = drop (pos + 1) token
          in if key \<noteq> [] \<and> value \<noteq> [] then params(key \<mapsto> value) else params)"

definition urlencoded :: "bytes \<Rightarrow> string_map" where
  "urlencoded src = fold urlencoded_token (getlines CHR ''&'' src) Map.empty"

subsection \<open>parseParamsRequest\<close>

definition params_token :: "bytes \<Rightarrow> Request \<Rightarrow> Request" where
  "params_token token r =
     (case strchr token CHR ''='' of
        None \<Rightarrow> r
      | Some sep \<Rightarrow> addParam (take sep token) (drop (sep + 1) token) r)"

text \<open>
  \<^verbatim>\<open>c_str()\<close> of the target is its bytes and a NUL. \<open>alloc\<close> tells whether \<^verbatim>\<open>new (std::nothrow)\<close>
  succeeds; \<^verbatim>\<open>uri_len - (start - full_uri)\<close> is computed on \<^verbatim>\<open>size_t\<close>, and \<^verbatim>\<open>memcpy\<close> reads that many
  bytes after the question mark. \<^verbatim>\<open>strtok_r\<close>, \<^verbatim>\<open>strchr\<close> and \<^verbatim>\<open>strlen\<close> read the copy up to its NUL: a copy without
  one is read behind its end.
\<close>

definition parseParamsRequest :: "bool \<Rightarrow> Request \<Rightarrow> size_t \<Rightarrow> Request res" where
  "parseParamsRequest alloc r uri_len =
     (let mem = fullUri r @ [CHR 0x00]
      in bind_res (c_string mem) (\<lambda>full_uri.
           case strchr full_uri CHR ''?'' of
             None \<Rightarrow> Inr (r\<lparr>uri := fullUri r\<rparr>)
           | Some start \<Rightarrow>
               let r1 = r\<lparr>uri := take start (fullUri r)\<rparr>;
                   buf_params_len = uri_len - of_nat start
               in if alloc then
                    bind_res (mem_read mem (start + 1) (unat buf_params_len)) (\<lambda>buf_params.
                    bind_res (c_string buf_params) (\<lambda>text.
                      Inr (fold params_token (strtok_all CHR ''&'' text) r1)))
                  else Inr r1))"

subsection \<open>Pairs and their rendering\<close>

type_synonym pair = "bytes \<times> bytes"

definition render_pair :: "pair \<Rightarrow> bytes" where
  "render_pair kv = fst kv @ CHR ''='' # snd kv"

definition render_pairs :: "pair list \<Rightarrow> bytes" where
  "render_pairs kvs = join CHR ''&'' (map render_pair kvs)"

definition pair_ok :: "pair \<Rightarrow> bool" where
  "pair_ok kv \<longleftrightarrow> CHR ''='' \<notin> set (fst kv) \<and> CHR ''&'' \<notin> set (fst kv) \<and> CHR ''&'' \<notin> set (snd kv)"

lemma render_pair_ok: "pair_ok kv \<Longrightarrow> render_pair kv \<noteq> [] \<and> CHR ''&'' \<notin> set (render_pair kv)"
  by (auto simp: render_pair_def pair_ok_def)

lemma str_find_render_pair:
  "CHR ''='' \<notin> set (fst kv) \<Longrightarrow> str_find (render_pair kv) ''='' 0 = Some (length (fst kv))"
  using split_at_delim [of "CHR ''=''" "fst kv" "snd kv"] by (simp add: str_find_char render_pair_def)

text \<open>
  A component that consumes one pair at a time: its map after the pair is the map before with
  the pair stored, provided the component accepts the pair.
\<close>

locale pair_sink =
  fixes token :: "bytes \<Rightarrow> 's \<Rightarrow> 's"
    and contents :: "'s \<Rightarrow> string_map"
    and accepts :: "pair \<Rightarrow> bool"
  assumes accepts_ok: "accepts kv \<Longrightarrow> pair_ok kv"
    and token_pair: "accepts kv \<Longrightarrow> contents (token (render_pair kv) s) = (contents s)(fst kv \<mapsto> snd kv)"
begin

lemma fold_pairs:
  "\<forall>kv \<in> set kvs. accepts kv \<Longrightarrow>
   contents (fold token (map render_pair kvs) s) = contents s ++ map_of (rev kvs)"
proof (induction kvs arbitrary: s)
  case (Cons kv kvs)
  then have "contents (fold token (map render_pair (kv # kvs)) s) =
      contents (token (render_pair kv) s) ++ map_of (rev kvs)" by simp
  also have "\<dots> = (contents s)(fst kv \<mapsto> snd kv) ++ map_of (rev kvs)"
    using Cons.prems token_pair by simp
  also have "\<dots> = contents s ++ map_of (rev (kv # kvs))"
    by (simp add: map_of_append map_add_assoc [symmetric])
  finally show ?case .
qed simp

lemma fold_rendered:
  assumes "\<forall>kv \<in> set kvs. accepts kv"
  shows "contents (fold token (getlines CHR ''&'' (render_pairs kvs)) s) = contents s ++ map_of (rev kvs)"
    and "contents (fold token (strtok_all CHR ''&'' (render_pairs kvs)) s) = contents s ++ map_of (rev kvs)"
proof -
  have "\<forall>x \<in> set (map render_pair kvs). x \<noteq> [] \<and> CHR ''&'' \<notin> set x"
    using assms accepts_ok render_pair_ok by auto
  then show
    "contents (fold token (getlines CHR ''&'' (render_pairs kvs)) s) = contents s ++ map_of (rev kvs)"
    "contents (fold token (strtok_all CHR ''&'' (render_pairs kvs)) s) = contents s ++ map_of (rev kvs)"
    using fold_pairs [OF assms] by (simp_all add: render_pairs_def getlines_join strtok_join)
qed

end

definition full_pair :: "pair \<Rightarrow> bool" where
  "full_pair kv \<longleftrightarrow> pair_ok kv \<and> fst kv \<noteq> [] \<and> snd kv \<noteq> []"

interpretation form_sink: pair_sink urlencoded_token id full_pair
proof
  fix kv :: pair and s :: string_map
  assume kv: "full_pair kv"
  then show "pair_ok kv" by (simp add: full_pair_def)
  from kv show "id (urlencoded_token (render_pair kv) s) = (id s)(fst kv \<mapsto> snd kv)"
    by (simp add: urlencoded_token_def full_pair_def pair_ok_def str_find_render_pair Let_def)
      (simp add: render_pair_def)
qed

interpretation query_sink: pair_sink params_token req_params pair_ok
proof
  fix kv :: pair and s :: Request
  assume kv: "pair_ok kv"
  then show "pair_ok kv" .
  from kv show "req_params (params_token (render_pair kv) s) = (req_params s)(fst kv \<mapsto> snd kv)"
    by (simp add: params_token_def strchr_def pair_ok_def str_find_render_pair addParam_def)
      (simp add: render_pair_def)
qed

subsection \<open>Properties\<close>

lemma params_token_frame: "\<exists>m. params_token t r = r\<lparr>req_params := m\<rparr>"
  by (cases "strchr t CHR ''=''") (auto simp: params_token_def addParam_def intro: exI [of _ "req_params r"])

lemma fold_params_frame: "\<exists>m. fold params_token ts r = r\<lparr>req_params := m\<rparr>"
proof (induction ts arbitrary: r)
  case Nil
  show ?case by (auto intro: exI [of _ "req_params r"])
next
  case (Cons t ts)
  obtain m where "params_token t r = r\<lparr>req_params := m\<rparr>" using params_token_frame by blast
  with Cons.IH [of "params_token t r"] show ?case by auto
qed

lemma fold_params_eq: "fold params_token ts r = r\<lparr>req_params := req_params (fold params_token ts r)\<rparr>"
  using fold_params_frame [of ts r] by auto

lemma strchr_split:
  "c \<notin> set a \<Longrightarrow> strchr (a @ c # b) c = Some (length a)"
  using split_at_delim [of c a b] by (simp add: strchr_def str_find_char)

lemma strchr_none: "c \<notin> set a \<Longrightarrow> strchr a c = None"
  by (simp add: strchr_def str_find_char)

lemma strchr_bound: "strchr s c = Some i \<Longrightarrow> i < length s"
  unfolding strchr_def by (drule str_find_bound) simp

lemma c_str_append_NUL: "CHR 0x00 \<notin> set s \<Longrightarrow> c_str (s @ [CHR 0x00]) = s"
  using split_at_delim [of "CHR 0x00" s "[]"] by (simp add: c_str_def)

lemma c_str_length: "length (c_str m) \<le> length m"
  by (simp add: c_str_def length_takeWhile_le)

text \<open>The length computation of the code, for the length the event loop passes.\<close>

lemma params_len:
  assumes "start < n" and "n < 2 ^ 64"
  shows "unat ((of_nat n :: size_t) - of_nat start) = n - start"
proof -
  have un: "unat (of_nat n :: size_t) = n" "unat (of_nat start :: size_t) = start"
    using assms by (simp_all add: unat_of_nat take_bit_nat_eq_self)
  then have "(of_nat start :: size_t) \<le> of_nat n" using assms(1) by (simp add: word_le_nat_alt)
  then show ?thesis by (simp add: unat_sub un)
qed

lemma strchr_takeWhile: "strchr s c = Some i \<Longrightarrow> take i s = takeWhile (\<lambda>x. x \<noteq> c) s \<and> i < length s \<and> c \<in> set s"
proof -
  assume i: "strchr s c = Some i"
  then have "i = length (takeWhile (\<lambda>x. x \<noteq> c) s)" "c \<in> set s" by (auto simp: strchr_def str_find_char split: if_splits)
  with strchr_bound [OF i] show ?thesis by (simp add: takeWhile_eq_take [symmetric])
qed

lemma c_string_target: "c_string (s @ [CHR 0x00]) = Inr (c_str s)"
  by (cases "CHR 0x00 \<in> set s") (simp_all add: c_string_def c_str_def takeWhile_append1 takeWhile_tail takeWhile_append2)

text \<open>Before the NUL and before the first question mark the target and its C string agree.\<close>

lemma take_c_str: "i \<le> length (c_str s) \<Longrightarrow> take i (c_str s) = take i s"
proof -
  assume i: "i \<le> length (c_str s)"
  have "take i s = take i (c_str s @ dropWhile (\<lambda>c. c \<noteq> CHR 0x00) s)" by (simp add: c_str_def)
  with i show ?thesis by (simp only: take_append) simp
qed

lemma takeWhile_c_str: "c \<in> set (c_str s) \<Longrightarrow> takeWhile (\<lambda>x. x \<noteq> c) (c_str s) = takeWhile (\<lambda>x. x \<noteq> c) s"
  by (induction s) (auto simp: c_str_def)

text \<open>
  The result on every target: the copy of the query ends with the NUL of the target, because the length counts the
  question mark, which is not copied.
\<close>

lemma parseParamsRequest_result:
  assumes "length (fullUri r) < 2 ^ 64"
  shows "\<exists>m. parseParamsRequest alloc r (of_nat (length (fullUri r))) =
      Inr (r\<lparr>uri := (if CHR ''?'' \<in> set (c_str (fullUri r)) then takeWhile (\<lambda>c. c \<noteq> CHR ''?'') (fullUri r) else fullUri r),
             req_params := m\<rparr>) \<and>
    (alloc \<and> CHR ''?'' \<in> set (c_str (fullUri r)) \<or> m = req_params r)"
proof -
  let ?mem = "fullUri r @ [CHR 0x00]" and ?c = "c_str (fullUri r)"
  note cs = c_string_target [of "fullUri r"]
  show ?thesis
  proof (cases "strchr ?c CHR ''?''")
    case None
    then have "CHR ''?'' \<notin> set ?c" by (auto simp: strchr_def str_find_char split: if_splits)
    with None show ?thesis
      by (intro exI [of _ "req_params r"]) (simp add: parseParamsRequest_def Let_def cs)
  next
    case (Some start)
    note st = strchr_takeWhile [OF Some]
    have start: "start < length (fullUri r)" "take start (fullUri r) = takeWhile (\<lambda>c. c \<noteq> CHR ''?'') (fullUri r)"
      using st c_str_length [of "fullUri r"] take_c_str [of start "fullUri r"] takeWhile_c_str [of "CHR ''?''" "fullUri r"] by auto
    have copy: "drop (Suc start) ?mem = drop (Suc start) (fullUri r) @ [CHR 0x00]" using start(1) by simp
    let ?r1 = "r\<lparr>uri := take start (fullUri r)\<rparr>"
    obtain m where m: "fold params_token (strtok_all CHR ''&'' (c_str (drop (start + 1) (fullUri r)))) ?r1 = ?r1\<lparr>req_params := m\<rparr>"
      using fold_params_frame by blast
    have "parseParamsRequest alloc r (of_nat (length (fullUri r))) =
        Inr (?r1\<lparr>req_params := if alloc then m else req_params r\<rparr>)"
      using Some params_len [OF start(1) assms] start(1) m
      by (simp add: parseParamsRequest_def Let_def cs mem_read_def copy c_string_target del: drop_append)
    then show ?thesis using st start(2) by (intro exI [of _ "if alloc then m else req_params r"]) simp
  qed
qed

lemma parseParamsRequest_frame:
  assumes "length (fullUri r) < 2 ^ 64"
  shows "\<exists>u m. parseParamsRequest alloc r (of_nat (length (fullUri r))) = Inr (r\<lparr>uri := u, req_params := m\<rparr>)"
  using parseParamsRequest_result [OF assms, of alloc] by blast

text \<open>
  C19: reading the query string of a target is safe and total. With the length the event loop
  passes, \<^verbatim>\<open>parseParamsRequest\<close> reads neither behind the target nor behind its copy of the query, whatever bytes the
  target holds: the copy always ends with a NUL. The path becomes the target up to its first question mark, the
  whole target when it has none (before its first NUL), and nothing but the path and the parameters changes; the
  parameters only when there is a query and the copy could be allocated.
\<close>

theorem parseParamsRequest_safe:
  assumes "length (fullUri r) < 2 ^ 64"
  shows "\<exists>m. parseParamsRequest alloc r (of_nat (length (fullUri r))) =
      Inr (r\<lparr>uri := (if CHR ''?'' \<in> set (c_str (fullUri r)) then takeWhile (\<lambda>c. c \<noteq> CHR ''?'') (fullUri r) else fullUri r),
             req_params := m\<rparr>) \<and>
    (alloc \<and> CHR ''?'' \<in> set (c_str (fullUri r)) \<or> m = req_params r)"
  using assms by (rule parseParamsRequest_result)

definition sample_target :: Request where
  "sample_target = the (requestFactory True 3 0)\<lparr>fullUri := ''/p?a=1&b=''\<rparr>"

theorem parseParamsRequest_safe_witness:
  "\<exists>m. parseParamsRequest True sample_target (of_nat (length (fullUri sample_target))) =
      Inr (sample_target\<lparr>uri := ''/p'', req_params := m\<rparr>)"
proof -
  have "length (fullUri sample_target) < 2 ^ 64" "CHR ''?'' \<in> set (c_str (fullUri sample_target))"
    "takeWhile (\<lambda>c. c \<noteq> CHR ''?'') (fullUri sample_target) = ''/p''" by (simp_all add: sample_target_def c_str_def)
  with parseParamsRequest_safe [of sample_target True] show ?thesis by auto
qed

text \<open>
  C20: round trip of query parameters. For a path without question mark and pairs whose keys
  contain no \<^verbatim>\<open>=\<close> and \<^verbatim>\<open>&\<close> and whose values contain no \<^verbatim>\<open>&\<close> (values may be empty, may contain
  \<^verbatim>\<open>=\<close> and \<^verbatim>\<open>?\<close>), the target \<^verbatim>\<open>path?k1=v1&k2=v2...\<close> sets the path and adds exactly those pairs,
  a later pair overwriting an earlier one with the same key.
\<close>

theorem parseParamsRequest_roundtrip:
  assumes "fullUri r = base @ CHR ''?'' # render_pairs kvs"
    and "CHR ''?'' \<notin> set base" and "CHR 0x00 \<notin> set (fullUri r)"
    and "\<forall>kv \<in> set kvs. pair_ok kv" and "length (fullUri r) < 2 ^ 64"
  shows "parseParamsRequest True r (of_nat (length (fullUri r))) =
    Inr (r\<lparr>uri := base, req_params := req_params r ++ map_of (rev kvs)\<rparr>)"
proof -
  let ?q = "render_pairs kvs"
  have c: "c_string (fullUri r @ [CHR 0x00]) = Inr (fullUri r)" using c_str_append_NUL [OF assms(3)] by (simp add: c_string_def)
  have pos: "strchr (fullUri r) CHR ''?'' = Some (length base)"
    unfolding assms(1) by (rule strchr_split) (rule assms(2))
  have n: "unat ((of_nat (length (fullUri r)) :: size_t) - of_nat (length base)) = length ?q + 1"
    using params_len [of "length base" "length (fullUri r)"] assms(1,5) by simp
  have rd: "mem_read (fullUri r @ [CHR 0x00]) (length base + 1) (length ?q + 1) = Inr (?q @ [CHR 0x00])"
    by (simp add: mem_read_def assms(1))
  have cq: "c_string (?q @ [CHR 0x00]) = Inr ?q"
    using assms(1,3) c_str_append_NUL [of ?q] by (simp add: c_string_def)
  let ?r1 = "r\<lparr>uri := base\<rparr>"
  have "req_params (fold params_token (strtok_all CHR ''&'' ?q) ?r1) = req_params r ++ map_of (rev kvs)"
    using query_sink.fold_rendered(2) [OF assms(4), of ?r1] by simp
  then have "fold params_token (strtok_all CHR ''&'' ?q) ?r1 =
      ?r1\<lparr>req_params := req_params r ++ map_of (rev kvs)\<rparr>"
    by (metis fold_params_eq)
  with c pos n rd cq show ?thesis
    by (simp add: parseParamsRequest_def Let_def) (simp add: assms(1))
qed

theorem parseParamsRequest_roundtrip_witness:
  "parseParamsRequest True sample_target (of_nat (length (fullUri sample_target))) =
   Inr (sample_target\<lparr>uri := ''/p'',
     req_params := req_params sample_target ++ map_of (rev [(''a'', ''1''), (''b'', [])])\<rparr>)"
  by (rule parseParamsRequest_roundtrip)
    (simp_all add: sample_target_def requestFactory_def render_pairs_def render_pair_def pair_ok_def)

lemma urlencoded_token_sound:
  assumes "\<forall>k v. m k = Some v \<longrightarrow> full_pair (k, v)" and "CHR ''&'' \<notin> set t"
    and "urlencoded_token t m k = Some v"
  shows "full_pair (k, v)"
proof (cases "str_find t ''='' 0")
  case None
  with assms(1,3) show ?thesis by (simp add: urlencoded_token_def)
next
  case (Some pos)
  then have pos: "pos = length (takeWhile (\<lambda>x. x \<noteq> CHR ''='') t)"
    by (simp add: str_find_char split: if_splits)
  then have "take pos t = takeWhile (\<lambda>x. x \<noteq> CHR ''='') t" by (simp only: takeWhile_eq_take [symmetric])
  then have "CHR ''='' \<notin> set (take pos t)" by (auto dest: set_takeWhileD)
  moreover have "CHR ''&'' \<notin> set (take pos t)" "CHR ''&'' \<notin> set (drop (pos + 1) t)"
    using assms(2) by (auto dest: in_set_takeD in_set_dropD)
  ultimately show ?thesis
    using assms(1,3) Some
    by (auto simp: urlencoded_token_def full_pair_def pair_ok_def Let_def split: if_splits)
qed

lemma fold_urlencoded_sound:
  "\<forall>k v. m k = Some v \<longrightarrow> full_pair (k, v) \<Longrightarrow> \<forall>t \<in> set ts. CHR ''&'' \<notin> set t \<Longrightarrow>
   fold urlencoded_token ts m k = Some v \<Longrightarrow> full_pair (k, v)"
proof (induction ts arbitrary: m)
  case (Cons t ts)
  then have "\<forall>k v. urlencoded_token t m k = Some v \<longrightarrow> full_pair (k, v)"
    using urlencoded_token_sound by (meson list.set_intros(1))
  with Cons.IH [of "urlencoded_token t m"] Cons.prems show ?case by simp
qed simp

text \<open>
  Form bodies. The rendering of pairs with non-empty keys and values is read back by
  \<^verbatim>\<open>urlencoded\<close>; and of any body whatsoever only non-empty keys with non-empty values are kept,
  the key being free of \<^verbatim>\<open>=\<close> and \<^verbatim>\<open>&\<close>, the value free of \<^verbatim>\<open>&\<close>.
\<close>

theorem urlencoded_correct:
  "((\<forall>kv \<in> set kvs. full_pair kv) \<longrightarrow> urlencoded (render_pairs kvs) = map_of (rev kvs)) \<and>
   (urlencoded src k = Some v \<longrightarrow> full_pair (k, v))"
proof (intro conjI impI)
  assume "\<forall>kv \<in> set kvs. full_pair kv"
  from form_sink.fold_rendered(1) [OF this, of Map.empty] show
    "urlencoded (render_pairs kvs) = map_of (rev kvs)" by (simp add: urlencoded_def)
next
  assume "urlencoded src k = Some v"
  then show "full_pair (k, v)"
    unfolding urlencoded_def
    by (rule fold_urlencoded_sound [rotated 2]) (auto dest: getlines_nodelim)
qed

theorem urlencoded_correct_witness:
  "urlencoded (render_pairs [(''id'', ''1''), (''p'', ''2'')]) = map_of (rev [(''id'', ''1''), (''p'', ''2'')]) \<and>
   urlencoded ''id=1'' ''id'' = Some ''1'' \<and> full_pair (''id'', ''1'')"
proof -
  have "\<forall>kv \<in> set [(''id'', ''1''), (''p'', ''2'')]. full_pair kv"
    by (simp add: full_pair_def pair_ok_def)
  moreover have "urlencoded ''id=1'' ''id'' = Some ''1''" by code_simp
  ultimately show ?thesis
    using urlencoded_correct [of "[(''id'', ''1''), (''p'', ''2'')]" "''id=1''" "''id''" "''1''"] by blast
qed

end
