(* ===== verification/Server.thy ===== *)
theory Server
  imports Config Chains Queue Params
begin

text \<open>
  The server (\<^verbatim>\<open>server/server.h\<close>, \<^verbatim>\<open>server/server.cpp\<close>): the state of \<^verbatim>\<open>HttpServer\<close>, the operations
  of the event loop and of the worker threads.

  The operating system is outside: each operation takes what its system calls return. \<open>clock fd\<close>
  is what \<^verbatim>\<open>steady_clock::now()\<close> returns when it is read for descriptor \<open>fd\<close> in this step (in
  nanoseconds), \<open>ctl_ok fd i\<close> tells whether \<^verbatim>\<open>epoll_ctl\<close> succeeds in registering \<open>fd\<close> for \<open>i\<close>.
  Two components of the state belong to the kernel: the registrations of epoll, and the log of
  what was sent and closed. Every registration includes the error events, so an interest only
  says what else is reported. \<open>working\<close> holds the local variable \<^verbatim>\<open>task\<close> of each worker thread,
  \<open>compress_flag\<close> the flag with which each thread built its chain when the constructor started it.

  A subscript outside an array, the dereference of a null pointer and the use of a deleted object
  are \<open>Undefined\<close>.
\<close>

subsection \<open>State\<close>

datatype interest = For_input | For_output | For_errors

datatype kernel_call = Closed int | Sent_bytes int bytes

record ('w, 're) HttpServer =
  conf :: config
  listen_fd :: int
  buffers :: "Buffer option list"
  requests :: "Request option list"
  aliveSockets :: "nat list"
  routes :: "('w, 're) Route list"
  tasksQueue :: "'w Task ThreadSafeQueue"
  staticTasksQueue :: "'w Task ThreadSafeQueue"
  performedTasksQueue :: "'w Task ThreadSafeQueue"
  working :: "'w Task option list"
  compress_flag :: bool
  statisticsService :: StatisticsService
  counter_check_limit_time_request :: nat
  world :: 'w
  epoll :: "int \<rightharpoonup> interest"
  kernel_log :: "kernel_call list"

text \<open>The state the constructor leaves.\<close>

definition HttpServer_new :: "config \<Rightarrow> int \<Rightarrow> nat \<Rightarrow> 'w \<Rightarrow> ('w, 're) HttpServer" where
  "HttpServer_new cfg fd now w =
     (let n = unat (maxConnection cfg)
      in \<lparr>conf = cfg, listen_fd = fd, buffers = replicate n None, requests = replicate n None,
          aliveSockets = replicate n now, routes = [], tasksQueue = queue_new,
          staticTasksQueue = queue_new, performedTasksQueue = queue_new,
          working = replicate (unat (numberThreads cfg)) None,
          compress_flag = isCompressStaticResources cfg,
          statisticsService = StatisticsService_new n, counter_check_limit_time_request = 0,
          world = w, epoll = [fd \<mapsto> For_input], kernel_log = []\<rparr>)"

record srv_env =
  clock :: "int \<Rightarrow> nat"
  ctl_ok :: "int \<Rightarrow> interest \<Rightarrow> bool"
  page_env :: resp_env
  logo_404 :: bytes

definition in_range :: "int \<Rightarrow> 'a list \<Rightarrow> bool" where
  "in_range fd xs \<longleftrightarrow> 0 \<le> fd \<and> nat fd < length xs"

definition deref :: "'a option list \<Rightarrow> int \<Rightarrow> 'a res" where
  "deref xs fd =
     (if in_range fd xs then (case xs ! nat fd of None \<Rightarrow> Inl Undefined | Some x \<Rightarrow> Inr x)
      else Inl Undefined)"

definition set_buffer :: "int \<Rightarrow> Buffer option \<Rightarrow> ('w, 're) HttpServer \<Rightarrow> ('w, 're) HttpServer" where
  "set_buffer fd b s = s\<lparr>buffers := (buffers s)[nat fd := b]\<rparr>"

definition set_request :: "int \<Rightarrow> Request option \<Rightarrow> ('w, 're) HttpServer \<Rightarrow> ('w, 're) HttpServer" where
  "set_request fd r s = s\<lparr>requests := (requests s)[nat fd := r]\<rparr>"

definition set_alive :: "srv_env \<Rightarrow> int \<Rightarrow> ('w, 're) HttpServer \<Rightarrow> ('w, 're) HttpServer" where
  "set_alive env fd s = s\<lparr>aliveSockets := (aliveSockets s)[nat fd := clock env fd]\<rparr>"

definition map_stat ::
  "(StatisticsService \<Rightarrow> StatisticsService) \<Rightarrow> ('w, 're) HttpServer \<Rightarrow> ('w, 're) HttpServer" where
  "map_stat f s = s\<lparr>statisticsService := f (statisticsService s)\<rparr>"

definition log_call :: "kernel_call \<Rightarrow> ('w, 're) HttpServer \<Rightarrow> ('w, 're) HttpServer" where
  "log_call c s = s\<lparr>kernel_log := kernel_log s @ [c]\<rparr>"

text \<open>\<^verbatim>\<open>closeSocket\<close>: closing a descriptor also removes it from epoll.\<close>

definition closeSocket :: "int \<Rightarrow> ('w, 're) HttpServer \<Rightarrow> ('w, 're) HttpServer" where
  "closeSocket fd s = log_call (Closed fd) (s\<lparr>epoll := (epoll s)(fd := None)\<rparr>)"

definition set_interest :: "int \<Rightarrow> interest \<Rightarrow> ('w, 're) HttpServer \<Rightarrow> ('w, 're) HttpServer" where
  "set_interest fd i s = s\<lparr>epoll := (epoll s)(fd \<mapsto> i)\<rparr>"

subsection \<open>Closing and answering\<close>

definition closeAllSocketsAndClearData ::
  "srv_env \<Rightarrow> int \<Rightarrow> ('w, 're) HttpServer \<Rightarrow> ('w, 're) HttpServer res" where
  "closeAllSocketsAndClearData env fd s =
     (if in_range fd (buffers s) then
        Inr (map_stat addTotalNumberConnectionsProcessed
              (set_request fd None (set_buffer fd None (set_alive env fd (closeSocket fd s)))))
      else Inl Undefined)"

text \<open>A response with its length, as the event loop itself sends them (404, 408, 413, 503).\<close>

definition reply_text :: "srv_env \<Rightarrow> ResponseBase \<Rightarrow> bytes res" where
  "reply_text env response =
     bind_res (toString (page_env env)
         (ResponseBase_addHeader ''Content-Length'' (to_string (length (resp_body response))) response))
       (\<lambda>(str, _). Inr str)"

definition writeToOutputBuffer ::
  "srv_env \<Rightarrow> int \<Rightarrow> bytes \<Rightarrow> ('w, 're) HttpServer \<Rightarrow> (int \<times> ('w, 're) HttpServer) res" where
  "writeToOutputBuffer env fd data s =
     bind_res (deref (buffers s) fd) (\<lambda>buffer.
     bind_res
       (if of_nat (posOutputBuffer buffer) + of_nat (length data) \<ge> maxOutputBufferLength' (conf s) then
          bind_res (reply_text env Response413) (\<lambda>str.
          bind_res (addDataToOutputBuffer str (Buffer_clear buffer)) (\<lambda>b.
            Inr (fst RESPONSE_STATE_PAYLOAD_TOO_LARGE, b)))
        else
          bind_res (addDataToOutputBuffer data buffer) (\<lambda>b. Inr (fst RESPONSE_STATE_OK, b)))
       (\<lambda>(code, b).
          let s1 = set_buffer fd (Some b) s
          in if ctl_ok env fd For_output then Inr (code, set_interest fd For_output s1)
             else bind_res (closeAllSocketsAndClearData env fd s1) (\<lambda>s2. Inr (- 1, s2))))"

subsection \<open>The search for expired connections\<close>

text \<open>\<^verbatim>\<open>duration_cast<seconds>(now - alive).count() > limit\<close>; the cast truncates towards zero.\<close>

definition elapsed_seconds :: "nat \<Rightarrow> nat \<Rightarrow> int" where
  "elapsed_seconds now alive =
     (if alive \<le> now then int ((now - alive) div 10 ^ 9) else - int ((alive - now) div 10 ^ 9))"

definition check_limit ::
  "srv_env \<Rightarrow> nat \<Rightarrow> nat \<Rightarrow> ('w, 're) HttpServer \<Rightarrow> ('w, 're) HttpServer res" where
  "check_limit env now i s =
     (case requests s ! i of
        None \<Rightarrow> Inr s
      | Some r \<Rightarrow>
          if elapsed_seconds now (aliveSockets s ! i) > timeLimitRequestSeconds (conf s) then
            if fullUri r = [] then closeAllSocketsAndClearData env (req_fd r) s
            else
              bind_res (reply_text env (ResponseBase_move Response408)) (\<lambda>str.
              bind_res (writeToOutputBuffer env (req_fd r) str s) (\<lambda>(_, s1).
              bind_res (deref (requests s1) (int i)) (\<lambda>r1.
                let s2 = set_request (int i) (Some (r1\<lparr>closingConnect := True\<rparr>)) s1
                in if in_range (req_fd r1) (aliveSockets s2) then Inr (set_alive env (req_fd r1) s2)
                   else Inl Undefined)))
          else Inr s)"

fun check_limits ::
  "srv_env \<Rightarrow> nat \<Rightarrow> nat list \<Rightarrow> ('w, 're) HttpServer \<Rightarrow> ('w, 're) HttpServer res" where
  "check_limits env now [] s = Inr s"
| "check_limits env now (i # is) s = bind_res (check_limit env now i s) (check_limits env now is)"

text \<open>
  One hundred slots per iteration, then the counter moves on; the remainder by zero is undefined.
\<close>

definition sweep_window :: "nat \<Rightarrow> nat \<Rightarrow> nat list" where
  "sweep_window m c = [c ..< min m (c + 100)]"

definition sweep_next :: "nat \<Rightarrow> nat \<Rightarrow> nat" where
  "sweep_next m c = (c + 100) mod m"

definition sweep :: "srv_env \<Rightarrow> nat \<Rightarrow> ('w, 're) HttpServer \<Rightarrow> ('w, 're) HttpServer res" where
  "sweep env now s =
     (let c = counter_check_limit_time_request s; m = unat (maxConnection (conf s))
      in bind_res (check_limits env now (sweep_window m c) s) (\<lambda>s1.
         if m = 0 then Inl Undefined
         else Inr (s1\<lparr>counter_check_limit_time_request := sweep_next m c\<rparr>)))"

subsection \<open>Performed tasks\<close>

definition deliver_task ::
  "srv_env \<Rightarrow> 'w Task \<Rightarrow> ('w, 're) HttpServer \<Rightarrow> ('w, 're) HttpServer res" where
  "deliver_task env task s =
     (if \<not> in_range (task_fd task) (aliveSockets s) then Inl Undefined
      else if timePoint task = aliveSockets s ! nat (task_fd task) then
        bind_res (writeToOutputBuffer env (task_fd task) (responseData task) s) (\<lambda>(code, s1).
          if task_request task = None then Inl Undefined else Inr s1)
      else Inr s)"

text \<open>
  The loop \<^verbatim>\<open>while (!performedTasksQueue.empty())\<close>. The event loop is the only consumer, so every
  pop succeeds; tasks that workers push in the meantime are seen by the next iteration. \<open>env k\<close>
  is the environment when \<open>k\<close> tasks are left.
\<close>

primrec performed_loop ::
  "(nat \<Rightarrow> srv_env) \<Rightarrow> nat \<Rightarrow> ('w, 're) HttpServer \<Rightarrow> ('w, 're) HttpServer res" where
  "performed_loop env 0 s = Inr s"
| "performed_loop env (Suc n) s =
     (if queue_empty (performedTasksQueue s) then Inr s
      else
        (case try_pop undefined (performedTasksQueue s) of (popped, task, q) \<Rightarrow>
           if popped then
             bind_res (deliver_task (env n) task (s\<lparr>performedTasksQueue := q\<rparr>)) (performed_loop env n)
           else performed_loop env n s))"

definition performed :: "(nat \<Rightarrow> srv_env) \<Rightarrow> ('w, 're) HttpServer \<Rightarrow> ('w, 're) HttpServer res" where
  "performed env s = performed_loop env (queue_size (performedTasksQueue s)) s"

subsection \<open>Accepting a connection\<close>

record accept_env =
  conn_sock :: int
  nonblocking_ok :: bool
  new_buffer :: bool
  new_input :: "bytes option"
  new_output :: "bytes option"
  new_request :: bool
  stale_fd :: int
  stale_max :: nat

text \<open>\<^verbatim>\<open>(int) maxConnection - 1\<close> on 32 bits.\<close>

definition max_descriptor :: "('w, 're) HttpServer \<Rightarrow> int" where
  "max_descriptor s = int32 (uint (maxConnection (conf s))) - 1"

definition accept_connection ::
  "srv_env \<Rightarrow> accept_env \<Rightarrow> ('w, 're) HttpServer \<Rightarrow> ('w, 're) HttpServer res" where
  "accept_connection env a s =
     (let fd = conn_sock a
      in if fd > max_descriptor s \<or> fd = - 1 \<or> \<not> nonblocking_ok a \<or> \<not> ctl_ok env fd For_input then
           Inr (closeSocket fd s)
         else if \<not> in_range fd (buffers s) then Inl Undefined
         else
           let s1 = set_interest fd For_input s;
               s2 = (if isStatisticsEnable (conf s) then map_stat addTotalNumberConnectionsAccepted s1 else s1);
               s3 = set_alive env fd s2
           in case bufferFactory (new_buffer a) (new_input a) (new_output a)
                     (unat (maxInputBufferLength (conf s))) (unat (maxOutputBufferLength' (conf s))) of
                None \<Rightarrow> Inr (closeSocket fd (set_buffer fd None s3))
              | Some b \<Rightarrow>
                  let s4 = set_buffer fd (Some b) s3
                  in case requestFactory (new_request a) (stale_fd a) (stale_max a) of
                       None \<Rightarrow> Inr (set_buffer fd None (closeSocket fd (set_request fd None s4)))
                     | Some r \<Rightarrow>
                         Inr (set_request fd
                           (Some (r\<lparr>req_fd := fd, maxOutputBufferLength := unat (maxOutputBufferLength' (conf s))\<rparr>))
                           s4))"

subsection \<open>Reading\<close>

text \<open>
  What \<^verbatim>\<open>recv\<close> returns: \<open>-1\<close> (and whether \<^verbatim>\<open>errno\<close> says that the call would have blocked) or the
  bytes read, none when the peer has closed.
\<close>

datatype recv_result = Recv_error bool | Recv_data bytes

record read_env =
  received :: recv_result
  params_alloc :: bool
  copy_alloc :: bool
  task_alloc :: bool
  task_garbage :: "int \<times> EnumTaskType \<times> int"

definition too_large ::
  "srv_env \<Rightarrow> int \<Rightarrow> ('w, 're) HttpServer \<Rightarrow> ('w, 're) HttpServer res" where
  "too_large env fd s =
     bind_res (reply_text env Response413) (\<lambda>str.
     bind_res (writeToOutputBuffer env fd str s) (\<lambda>(_, s1).
     bind_res (deref (requests s1) fd) (\<lambda>r.
       Inr (set_request fd (Some (r\<lparr>closingConnect := True, headerAccept := True\<rparr>)) s1))))"

text \<open>
  The header of a request is stored once. A continuation line has a null name of length zero,
  which becomes the empty key.
\<close>

definition store_header :: "phr_header \<Rightarrow> Request \<Rightarrow> Request" where
  "store_header h r =
     addHeader (map tolower (case name h of None \<Rightarrow> [] | Some k \<Rightarrow> k)) (hvalue h) r"

definition content_length :: "Request \<Rightarrow> int res" where
  "content_length r = bind_res (getHeaderRef ''content-length'' r) (\<lambda>v. Inr (atoi v))"

definition accept_header :: "bool \<Rightarrow> phr_request \<Rightarrow> Request \<Rightarrow> Request res" where
  "accept_header alloc p request =
     (if headerAccept request then Inr request
      else
        let r1 = request\<lparr>headerAccept := True, fullUri := path p, req_method := rmethod p\<rparr>;
            r2 = fold store_header (headers p) r1
        in bind_res (parseParamsRequest alloc r2 (of_nat (length (path p)))) (\<lambda>r3.
             case content_length r3 of
               Inl e \<Rightarrow> Inr r3
             | Inr len \<Rightarrow> Inr (if len \<noteq> 0 then r3\<lparr>bodyExists := True\<rparr> else r3)))"

text \<open>
  The body: complete when the input ends exactly where the declared length says. The sum of the
  two \<^verbatim>\<open>int\<close> values, undefined when it is no \<^verbatim>\<open>int\<close>, is compared as a \<^verbatim>\<open>size_t\<close>, and the length is passed on as
  a \<^verbatim>\<open>size_t\<close>.
\<close>

definition sum_fits :: "int \<Rightarrow> int \<Rightarrow> bool" where
  "sum_fits n len \<longleftrightarrow> - (2 ^ 31) \<le> n + len \<and> n + len < 2 ^ 31"

definition accept_body :: "Buffer \<Rightarrow> int \<Rightarrow> int \<Rightarrow> Request \<Rightarrow> Request res" where
  "accept_body buffer n len request =
     (if len = 0 then Inr request
      else if \<not> sum_fits n len then Inl Undefined
      else if (of_nat (posInputBuffer buffer) :: size_t) = of_int (n + len) then
        setBody (inputBuffer buffer) (nat n) (of_int len) (request\<lparr>bodyAccept := True\<rparr>)
      else Inr request)"

definition addTask :: "'w Task \<Rightarrow> ('w, 're) HttpServer \<Rightarrow> ('w, 're) HttpServer" where
  "addTask task s =
     (if task_type task = LOCAL_TASK then s\<lparr>tasksQueue := queue_push task (tasksQueue s)\<rparr>
      else if task_type task = STATIC_RESOURCES_TASK then
        s\<lparr>staticTasksQueue := queue_push task (staticTasksQueue s)\<rparr>
      else s)"

text \<open>
  An answer of the event loop itself: the page is written, then the request is named in the log.
  When registering for output fails, \<^verbatim>\<open>writeToOutputBuffer\<close> has deleted that request.
\<close>

definition answer_page ::
  "srv_env \<Rightarrow> int \<Rightarrow> ResponseBase \<Rightarrow> ('w, 're) HttpServer \<Rightarrow> ('w, 're) HttpServer res" where
  "answer_page env fd response s =
     bind_res (reply_text env response) (\<lambda>str.
     bind_res (writeToOutputBuffer env fd str s) (\<lambda>(code, s1).
       if code = - 1 then Inl Undefined else Inr s1))"

definition dispatch_request ::
  "srv_env \<Rightarrow> ('re \<Rightarrow> bytes \<Rightarrow> bool) \<Rightarrow> read_env \<Rightarrow> int \<Rightarrow> Request \<Rightarrow>
   ('w, 're) HttpServer \<Rightarrow> ('w, 're) HttpServer res" where
  "dispatch_request env regexec e fd request s =
     bind_res
       (case dispatcher regexec (copy_alloc e) (taskFactory (task_alloc e) (task_garbage e))
               (routes s) request of
          Some t \<Rightarrow>
            let task = t\<lparr>task_fd := fd, timePoint := aliveSockets s ! nat fd\<rparr>
            in if task_type task = LOCAL_TASK then
                 if (of_nat (queue_size (tasksQueue s)) :: size_t) > of_int (limitLocalTasks (conf s)) then
                   answer_page env fd (ResponseBase_move Response503) s
                 else Inr (addTask task s)
               else if task_type task = STATIC_RESOURCES_TASK then Inr (addTask task s)
               else closeAllSocketsAndClearData env fd s
        | None \<Rightarrow> answer_page env fd (ResponseBase_move (Response404 (logo_404 env))) s)
       (\<lambda>s1. Inr (map_stat addTotalNumberClientRequests s1))"

text \<open>
  What happens once the parser has accepted a request of \<open>n\<close> bytes: the header is stored, the
  body awaited, then the descriptor is silenced and the request dispatched.
\<close>

definition got_request ::
  "srv_env \<Rightarrow> ('re \<Rightarrow> bytes \<Rightarrow> bool) \<Rightarrow> read_env \<Rightarrow> int \<Rightarrow> phr_request \<Rightarrow> int \<Rightarrow>
   ('w, 're) HttpServer \<Rightarrow> ('w, 're) HttpServer res" where
  "got_request env regexec e fd p n s =
     bind_res (deref (requests s) fd) (\<lambda>r0.
     bind_res (deref (buffers s) fd) (\<lambda>buffer.
     bind_res (accept_header (params_alloc e) p r0) (\<lambda>r1.
       let dispatch = (\<lambda>r s1.
             if ctl_ok env fd For_errors
             then dispatch_request env regexec e fd r (set_interest fd For_errors s1)
             else closeAllSocketsAndClearData env fd s1)
       in if bodyExists r1 then
            (case content_length r1 of
               Inl _ \<Rightarrow> closeAllSocketsAndClearData env fd (set_request fd (Some r1) s)
             | Inr len \<Rightarrow>
                 bind_res (accept_body buffer n len r1) (\<lambda>r2.
                   let s1 = set_request fd (Some r2) s
                   in if bodyAccept r2 then dispatch r2 s1 else Inr s1))
          else dispatch r1 (set_request fd (Some r1) s))))"

subsection \<open>Writing\<close>

datatype send_result = Send_error | Sent nat

definition finish_response ::
  "srv_env \<Rightarrow> int \<Rightarrow> ('w, 're) HttpServer \<Rightarrow> ('w, 're) HttpServer res" where
  "finish_response env fd s =
     bind_res (deref (requests s) fd) (\<lambda>r.
     bind_res (deref (buffers s) fd) (\<lambda>b.
       if closingConnect r then closeAllSocketsAndClearData env fd s
       else if getHeaderRef ''connection'' r = Inr ''Keep-Alive'' then
         let s1 = set_request fd (Some (Request_clear r)) (set_buffer fd (Some (Buffer_clear b)) s)
         in if ctl_ok env fd For_input then Inr (set_alive env fd (set_interest fd For_input s1))
            else closeAllSocketsAndClearData env fd s1
       else closeAllSocketsAndClearData env fd s))"

definition handle_output ::
  "srv_env \<Rightarrow> send_result \<Rightarrow> int \<Rightarrow> ('w, 're) HttpServer \<Rightarrow> ('w, 're) HttpServer res" where
  "handle_output env res fd s =
     bind_res (deref (buffers s) fd) (\<lambda>b.
     if numberBytesToSend b = 0 then Inr s
     else bind_res (deref (requests s) fd) (\<lambda>r.
     if \<not> headerAccept r \<or> (bodyExists r \<and> \<not> bodyAccept r) then Inr s
     else bind_res (mem_read (outputBuffer b) (posOutputBuffer b) (numberBytesToSend b)) (\<lambda>window.
     case res of
       Send_error \<Rightarrow> closeAllSocketsAndClearData env fd s
     | Sent n \<Rightarrow>
         let b1 = consumeOutput n b;
             s1 = set_buffer fd (Some b1) (log_call (Sent_bytes fd (take n window)) s)
         in if numberBytesToSend b1 = 0 then finish_response env fd s1 else Inr s1)))"

subsection \<open>Events\<close>

text \<open>
  The parser is handed one byte more than was received. Its result is converted to \<^verbatim>\<open>int\<close>; when
  it is none of the three cases the code goes on to the test for output.
\<close>

definition handle_input ::
  "srv_env \<Rightarrow> ('re \<Rightarrow> bytes \<Rightarrow> bool) \<Rightarrow> read_env \<Rightarrow>
   (('w, 're) HttpServer \<Rightarrow> ('w, 're) HttpServer res) \<Rightarrow> int \<Rightarrow>
   ('w, 're) HttpServer \<Rightarrow> ('w, 're) HttpServer res" where
  "handle_input env regexec e output fd s =
     (case received e of
        Recv_error blocked \<Rightarrow>
          if \<not> blocked then closeAllSocketsAndClearData env fd s
          else bind_res (deref (buffers s) fd) (\<lambda>b.
            if of_nat (posInputBuffer b) + (- 1) \<ge> maxInputBufferLength (conf s)
            then too_large env fd s
            else Inl Undefined)
      | Recv_data data \<Rightarrow>
          if data = [] then closeAllSocketsAndClearData env fd s
          else bind_res (deref (buffers s) fd) (\<lambda>b.
            if of_nat (posInputBuffer b) + of_nat (length data) \<ge> maxInputBufferLength (conf s)
            then too_large env fd s
            else bind_res (addDataToInputBuffer data b) (\<lambda>b1.
              let s1 = set_buffer fd (Some b1) s
              in bind_res (mem_read (inputBuffer b1) 0 (posInputBuffer b1 + 1)) (\<lambda>text.
                 case phr_parse_request False text 100 0 of
                   Parsed (p, n) \<Rightarrow>
                     if int32 (int n) > 0 then got_request env regexec e fd p (int32 (int n)) s1
                     else if int32 (int n) = - 2 then Inr s1
                     else if int32 (int n) = - 1 then closeAllSocketsAndClearData env fd s1
                     else output s1
                 | Incomplete \<Rightarrow> Inr s1
                 | Failed \<Rightarrow> closeAllSocketsAndClearData env fd s1
                 | Oob \<Rightarrow> Inl Undefined))))"

record event =
  event_fd :: int
  event_err :: bool
  event_in :: bool
  event_out :: bool

record event_env =
  ev_srv :: srv_env
  ev_accept :: accept_env
  ev_read :: read_env
  ev_send :: send_result

definition handle_event ::
  "('re \<Rightarrow> bytes \<Rightarrow> bool) \<Rightarrow> event \<Rightarrow> event_env \<Rightarrow>
   ('w, 're) HttpServer \<Rightarrow> ('w, 're) HttpServer res" where
  "handle_event regexec ev e s =
     (let fd = event_fd ev;
          output = (\<lambda>s. if event_out ev then handle_output (ev_srv e) (ev_send e) fd s else Inr s)
      in if event_err ev then closeAllSocketsAndClearData (ev_srv e) fd s
         else if fd = listen_fd s then accept_connection (ev_srv e) (ev_accept e) s
         else if event_in ev then handle_input (ev_srv e) regexec (ev_read e) output fd s
         else output s)"

fun handle_events ::
  "('re \<Rightarrow> bytes \<Rightarrow> bool) \<Rightarrow> (event \<times> event_env) list \<Rightarrow>
   ('w, 're) HttpServer \<Rightarrow> ('w, 're) HttpServer res" where
  "handle_events regexec [] s = Inr s"
| "handle_events regexec ((ev, e) # evs) s =
     bind_res (handle_event regexec ev e s) (handle_events regexec evs)"

subsection \<open>The two kinds of threads\<close>

text \<open>
  \<^verbatim>\<open>run\<close> before its loop. The handler of the statistics page is the argument \<open>stat\<close>: it is a
  lambda over the service object, run by a worker.
\<close>

definition run_start ::
  "(bytes \<Rightarrow> 're option) \<Rightarrow> 'w handler \<Rightarrow> ('w, 're) HttpServer \<Rightarrow> ('w, 're) HttpServer res" where
  "run_start regcomp stat s =
     (if isStatisticsEnable (conf s) then
        bind_res (addRoute regcomp ''GET'' (c_str (statisticsUrl (conf s))) stat LOCAL_TASK (routes s))
          (\<lambda>rs. Inr (s\<lparr>routes := rs\<rparr>))
      else Inr s)"

text \<open>One iteration of \<^verbatim>\<open>for (;;)\<close>; \<^verbatim>\<open>setCurrentNumberTasks\<close> takes an \<^verbatim>\<open>int\<close>.\<close>

definition count_tasks :: "('w, 're) HttpServer \<Rightarrow> ('w, 're) HttpServer" where
  "count_tasks s =
     (if isStatisticsEnable (conf s) then
        map_stat (setCurrentNumberTasks
          (int32 (int (queue_size (tasksQueue s) + queue_size (staticTasksQueue s))))) s
      else s)"

record iteration_env =
  it_now :: nat
  it_sweep :: srv_env
  it_performed :: "nat \<Rightarrow> srv_env"
  it_events :: "(event \<times> event_env) list"

definition run_iteration ::
  "('re \<Rightarrow> bytes \<Rightarrow> bool) \<Rightarrow> iteration_env \<Rightarrow>
   ('w, 're) HttpServer \<Rightarrow> ('w, 're) HttpServer res" where
  "run_iteration regexec it s =
     bind_res (sweep (it_sweep it) (it_now it) (count_tasks s)) (\<lambda>s1.
     bind_res (performed (it_performed it) s1) (\<lambda>s2.
       handle_events regexec (it_events it) s2))"

text \<open>
  \<^verbatim>\<open>tasksHandler(id)\<close>: thread 0 serves the static queue, the others the local one. The body of
  its loop is two steps of the thread: it takes a task, and later has worked on it and passes it
  on. \<open>None\<close> is a step that cannot be taken (nothing queued) or, for \<open>worker_finish\<close>, one that
  never ends.
\<close>

definition worker_take :: "nat \<Rightarrow> ('w, 're) HttpServer \<Rightarrow> ('w, 're) HttpServer option" where
  "worker_take i s =
     (if i < length (working s) \<and> working s ! i = None then
        if i \<noteq> 0 then
          map_option (\<lambda>(t, q). s\<lparr>tasksQueue := q, working := (working s)[i := Some t]\<rparr>)
            (wait_and_pop (tasksQueue s))
        else
          map_option (\<lambda>(t, q). s\<lparr>staticTasksQueue := q, working := (working s)[i := Some t]\<rparr>)
            (wait_and_pop (staticTasksQueue s))
      else None)"

definition work ::
  "resp_env \<Rightarrow> (range list \<Rightarrow> range list) \<Rightarrow> (bytes \<Rightarrow> bytes res option) \<Rightarrow> bool \<Rightarrow>
   'w Task \<Rightarrow> 'w \<Rightarrow> ('w Task \<times> 'w) res option" where
  "work env srt gz flag task w =
     (if task_type task = LOCAL_TASK \<or> task_type task = STATIC_RESOURCES_TASK then
        (case (task_handler task, task_request task) of
           (Some h, Some req) \<Rightarrow>
             (case h req w of
                Inl e \<Rightarrow> Some (Inl e)
              | Inr (response, w1) \<Rightarrow>
                  let t1 = task\<lparr>task_code := resp_code response\<rparr>
                  in (case prepare_chain srt gz flag t1 response of
                        None \<Rightarrow> None
                      | Some (Inl e) \<Rightarrow> Some (Inl e)
                      | Some (Inr response1) \<Rightarrow>
                          (case toString env response1 of
                             Inl e \<Rightarrow> Some (Inl e)
                           | Inr (str, _) \<Rightarrow> Some (Inr (t1\<lparr>responseData := str\<rparr>, w1)))))
         | _ \<Rightarrow> Some (Inl Undefined))
      else Some (Inr (task, w)))"

definition worker_finish ::
  "resp_env \<Rightarrow> (range list \<Rightarrow> range list) \<Rightarrow> (bytes \<Rightarrow> bytes res option) \<Rightarrow> nat \<Rightarrow>
   ('w, 're) HttpServer \<Rightarrow> ('w, 're) HttpServer res option" where
  "worker_finish env srt gz i s =
     (if i < length (working s) then
        (case working s ! i of
           None \<Rightarrow> None
         | Some task \<Rightarrow>
             (case work env srt gz (compress_flag s) task (world s) of
                None \<Rightarrow> None
              | Some (Inl e) \<Rightarrow> Some (Inl e)
              | Some (Inr (t1, w1)) \<Rightarrow>
                  Some (Inr (s\<lparr>performedTasksQueue := queue_push t1 (performedTasksQueue s),
                               working := (working s)[i := None], world := w1\<rparr>))))
      else None)"

subsection \<open>Settings changed while running\<close>

definition setTimeLimitRequestSeconds :: "int \<Rightarrow> config \<Rightarrow> config" where
  "setTimeLimitRequestSeconds limit c = c\<lparr>timeLimitRequestSeconds := limit\<rparr>"

definition setLimitLocalTasks :: "int \<Rightarrow> config \<Rightarrow> config" where
  "setLimitLocalTasks limit c = c\<lparr>limitLocalTasks := limit\<rparr>"

definition setCachedStaticResources :: "bool \<Rightarrow> config \<Rightarrow> config" where
  "setCachedStaticResources flag c = c\<lparr>static_conf := (static_conf c)\<lparr>isCachedStaticResources := flag\<rparr>\<rparr>"

definition setStatisticsEnable :: "bool \<Rightarrow> config \<Rightarrow> config" where
  "setStatisticsEnable flag c = c\<lparr>isStatisticsEnable := flag\<rparr>"

definition setStatisticsUrl :: "bytes \<Rightarrow> config \<Rightarrow> config" where
  "setStatisticsUrl url c = c\<lparr>statisticsUrl := url\<rparr>"

definition setMaxInputBufferLength :: "size_t \<Rightarrow> config \<Rightarrow> config" where
  "setMaxInputBufferLength len c = c\<lparr>maxInputBufferLength := len\<rparr>"

definition setMaxOutputBufferLength :: "size_t \<Rightarrow> config \<Rightarrow> config" where
  "setMaxOutputBufferLength len c = c\<lparr>maxOutputBufferLength' := len\<rparr>"

definition setPathToStaticResources :: "bytes \<Rightarrow> config \<Rightarrow> config" where
  "setPathToStaticResources p c = c\<lparr>static_conf := (static_conf c)\<lparr>pathToStaticResources := p\<rparr>\<rparr>"

definition setCompressStaticResources :: "bool \<Rightarrow> config \<Rightarrow> config" where
  "setCompressStaticResources flag c = c\<lparr>isCompressStaticResources := flag\<rparr>"

end
