(* ===== verification/Server_Safety.thy ===== *)
theory Server_Safety
  imports Server "HOL-Library.Multiset"
begin

text \<open>
  The invariant of the server and its preservation by every step of the event loop and of the
  worker threads.
\<close>

subsection \<open>The pages of the event loop\<close>

lemma reply_text_eq:
  "\<exists>str. reply_text env r = Inr str \<and> length str \<le> 4095 + length (resp_body r)"
  by (simp add: reply_text_def toString_def prepareResponse_eq ResponseBase_addHeader_def)

lemma resp_body_pages:
  "length (resp_body Response413) \<le> 200" "length (resp_body (ResponseBase_move Response408)) \<le> 200"
  "length (resp_body (ResponseBase_move Response503)) \<le> 200"
  "length (resp_body (ResponseBase_move (Response404 logo))) \<le> 300 + length logo"
  by (simp_all add: Response413_def Response408_def Response503_def Response404_def response_of_def
      ResponseBase_new_def page_plain_def page_403_404_def ResponseBase_move_def Let_def)

lemma page_413:
  obtains str where "reply_text env Response413 = Inr str" "length str < 8192"
  using reply_text_eq [of env Response413] resp_body_pages(1) by fastforce

subsection \<open>Limits\<close>

text \<open>
  The settings under which the theorems below hold: an output buffer that can hold the page for
  413, buffers the allocator can grant, descriptors that fit an \<^verbatim>\<open>int\<close>.
\<close>

definition conf_ok :: "config \<Rightarrow> bool" where
  "conf_ok c \<longleftrightarrow> unat (maxInputBufferLength c) < 2 ^ 62 \<and>
     8192 \<le> unat (maxOutputBufferLength' c) \<and> unat (maxOutputBufferLength' c) < 2 ^ 62 \<and>
     0 < unat (maxConnection c) \<and> unat (maxConnection c) < 2 ^ 31"

definition buf_ok :: "config \<Rightarrow> Buffer \<Rightarrow> bool" where
  "buf_ok c b \<longleftrightarrow> buffer_wf b \<and> inputBufferLength b = unat (maxInputBufferLength c) \<and>
     outputBufferLength b = unat (maxOutputBufferLength' c)"

definition buf_idle :: "Buffer \<Rightarrow> bool" where
  "buf_idle b \<longleftrightarrow> numberBytesToSend b = 0 \<and> posOutputBuffer b = 0"

lemma size_sum_less:
  assumes "x < 2 ^ 63" "y < 2 ^ 63"
  shows "(of_nat x + of_nat y :: size_t) \<ge> m \<longleftrightarrow> unat m \<le> x + y"
proof -
  have "x + y < 2 ^ 64" using assms by simp
  then have "unat (of_nat (x + y) :: size_t) = x + y"
    by (simp only: unat_of_nat) (simp add: take_bit_nat_eq_self)
  then show ?thesis by (simp only: of_nat_add [symmetric] word_le_nat_alt)
qed

subsection \<open>Writing an answer\<close>

definition written :: "srv_env \<Rightarrow> config \<Rightarrow> bytes \<Rightarrow> int \<times> bytes" where
  "written env c data =
     (if unat (maxOutputBufferLength' c) \<le> length data
      then (413, case reply_text env Response413 of Inr str \<Rightarrow> str | Inl _ \<Rightarrow> [])
      else (200, data))"

lemma addDataToOutputBuffer_idle:
  assumes "buf_ok c b" "buf_idle b" "length data \<le> unat (maxOutputBufferLength' c)"
  obtains b' where "addDataToOutputBuffer data b = Inr b'" "buf_ok c b'" "pendingOutput b' = data"
    "posOutputBuffer b' = 0" "numberBytesToSend b' = length data"
    "inputContent b' = inputContent b"
  using assms by (auto simp: buf_ok_def buf_idle_def elim!: addDataToOutputBuffer_ok [of b data])

lemma Buffer_clear_ok: "buf_ok c b \<Longrightarrow> buf_ok c (Buffer_clear b) \<and> buf_idle (Buffer_clear b)"
  by (simp add: buf_ok_def buf_idle_def)

text \<open>
  A write to an idle connection leaves exactly the answer pending, or the page for 413 when the answer is too
  long; then the descriptor is registered for output, or the connection is closed when that fails.
\<close>

lemma write_idle:
  assumes "conf_ok (conf s)" "deref (buffers s) fd = Inr b" "buf_ok (conf s) b" "buf_idle b"
    and "length data < 2 ^ 63"
  obtains b' where
    "writeToOutputBuffer env fd data s =
       (if ctl_ok env fd For_output
        then Inr (fst (written env (conf s) data), set_interest fd For_output (set_buffer fd (Some b') s))
        else bind_res (closeAllSocketsAndClearData env fd (set_buffer fd (Some b') s)) (\<lambda>s2. Inr (- 1, s2)))"
    "buf_ok (conf s) b'" "pendingOutput b' = snd (written env (conf s) data)"
    "numberBytesToSend b' = length (snd (written env (conf s) data))"
    "posOutputBuffer b' = 0"
proof -
  obtain str where str: "reply_text env Response413 = Inr str" "length str < 8192" by (rule page_413)
  have large: "of_nat (posOutputBuffer b) + of_nat (length data) \<ge> maxOutputBufferLength' (conf s) \<longleftrightarrow>
      unat (maxOutputBufferLength' (conf s)) \<le> length data"
    using assms(4,5) size_sum_less [of 0 "length data"] by (simp add: buf_idle_def)
  show thesis
  proof (cases "unat (maxOutputBufferLength' (conf s)) \<le> length data")
    case True
    from assms(3) have "buf_ok (conf s) (Buffer_clear b)" "buf_idle (Buffer_clear b)"
      using Buffer_clear_ok by blast+
    moreover have "length str \<le> unat (maxOutputBufferLength' (conf s))"
      using str assms(1) by (simp add: conf_ok_def)
    ultimately obtain b' where "addDataToOutputBuffer str (Buffer_clear b) = Inr b'"
      "buf_ok (conf s) b'" "pendingOutput b' = str" "posOutputBuffer b' = 0"
      "numberBytesToSend b' = length str"
      by (rule addDataToOutputBuffer_idle)
    with str large True assms(2) show thesis
      by (intro that [of b']) (simp_all add: writeToOutputBuffer_def written_def Let_def
          RESPONSE_STATE_PAYLOAD_TOO_LARGE_def)
  next
    case False
    with assms(3,4) obtain b' where "addDataToOutputBuffer data b = Inr b'" "buf_ok (conf s) b'"
      "pendingOutput b' = data" "posOutputBuffer b' = 0" "numberBytesToSend b' = length data"
      by (auto elim!: addDataToOutputBuffer_idle [of "conf s" b data])
    with large False assms(2) show thesis
      by (intro that [of b']) (simp_all add: writeToOutputBuffer_def written_def Let_def
          RESPONSE_STATE_OK_def)
  qed
qed

text \<open>
  A write while output is still pending: its length is added to the number of pending bytes, so the buffer must be as
  long as both, unless the size test of the code finds the text too large and clears the buffer first. That test does
  not count the pending bytes.
\<close>

definition output_fits :: "config \<Rightarrow> Buffer \<Rightarrow> nat \<Rightarrow> bool" where
  "output_fits c b len \<longleftrightarrow> unat (maxOutputBufferLength' c) \<le> posOutputBuffer b + len \<or>
     posOutputBuffer b + numberBytesToSend b + len \<le> unat (maxOutputBufferLength' c)"

lemma addDataToOutputBuffer_fits:
  assumes "buf_ok c b" "posOutputBuffer b + numberBytesToSend b + length data \<le> unat (maxOutputBufferLength' c)"
  obtains b' where "addDataToOutputBuffer data b = Inr b'" "buf_ok c b'"
proof -
  from assms obtain mem where mem: "mem_write (outputBuffer b) (posOutputBuffer b) data = Inr mem"
    using mem_write_safe_iff [of "outputBuffer b" "posOutputBuffer b" data] by (auto simp: buf_ok_def buffer_wf_def)
  with assms show thesis
    by (intro that [of "b\<lparr>outputBuffer := mem, numberBytesToSend := numberBytesToSend b + length data\<rparr>"])
      (auto simp: addDataToOutputBuffer_def buf_ok_def buffer_wf_def dest: mem_write_length)
qed

lemma write_fits:
  assumes "conf_ok (conf s)" "deref (buffers s) fd = Inr b" "buf_ok (conf s) b"
    and "output_fits (conf s) b (length data)" "length data < 2 ^ 63"
  obtains b' code where "buf_ok (conf s) b'"
    "writeToOutputBuffer env fd data s =
       (if ctl_ok env fd For_output then Inr (code, set_interest fd For_output (set_buffer fd (Some b') s))
        else bind_res (closeAllSocketsAndClearData env fd (set_buffer fd (Some b') s)) (\<lambda>s2. Inr (- 1, s2)))"
proof -
  obtain str where str: "reply_text env Response413 = Inr str" "length str < 8192" by (rule page_413)
  have "posOutputBuffer b < 2 ^ 63" using assms(1,3) by (auto simp: buf_ok_def buffer_wf_def conf_ok_def)
  then have large: "of_nat (posOutputBuffer b) + of_nat (length data) \<ge> maxOutputBufferLength' (conf s) \<longleftrightarrow>
      unat (maxOutputBufferLength' (conf s)) \<le> posOutputBuffer b + length data"
    using assms(5) by (rule size_sum_less)
  show thesis
  proof (cases "unat (maxOutputBufferLength' (conf s)) \<le> posOutputBuffer b + length data")
    case True
    have "buf_ok (conf s) (Buffer_clear b)" "buf_idle (Buffer_clear b)"
      using assms(3) Buffer_clear_ok by blast+
    moreover have "length str \<le> unat (maxOutputBufferLength' (conf s))"
      using str assms(1) by (simp add: conf_ok_def)
    ultimately obtain b' where "addDataToOutputBuffer str (Buffer_clear b) = Inr b'" "buf_ok (conf s) b'"
      by (rule addDataToOutputBuffer_idle)
    with str large True assms(2) show thesis
      by (intro that [of b']) (simp_all add: writeToOutputBuffer_def Let_def)
  next
    case False
    with assms(4) have "posOutputBuffer b + numberBytesToSend b + length data \<le> unat (maxOutputBufferLength' (conf s))"
      by (simp add: output_fits_def)
    with assms(3) obtain b' where "addDataToOutputBuffer data b = Inr b'" "buf_ok (conf s) b'"
      by (rule addDataToOutputBuffer_fits)
    with large False assms(2) show thesis
      by (intro that [of b']) (simp_all add: writeToOutputBuffer_def Let_def)
  qed
qed

subsection \<open>The invariant\<close>

text \<open>
  The tasks of the program: queued, in the hands of a worker, or performed. A ticket is what a
  task remembers of its connection, the descriptor and the time point; the ticket of a connection
  is current when the time point is the one of the descriptor.
\<close>

definition tasks :: "('w, 're) HttpServer \<Rightarrow> 'w Task multiset" where
  "tasks s = mset (queue (tasksQueue s)) + mset (queue (staticTasksQueue s)) +
     mset (queue (performedTasksQueue s)) + mset (List.map_filter (\<lambda>t. t) (working s))"

definition tickets :: "('w, 're) HttpServer \<Rightarrow> (int \<times> nat) multiset" where
  "tickets s = image_mset (\<lambda>t. (task_fd t, timePoint t)) (tasks s)"

definition current :: "('w, 're) HttpServer \<Rightarrow> int \<Rightarrow> nat" where
  "current s fd = count (tickets s) (fd, aliveSockets s ! nat fd)"

text \<open>
  The phases of a connection: while it is read, and while a task is under way, nothing is pending;
  at most one task is under way, and only in the silent phase.
\<close>

definition phase_ok :: "interest option \<Rightarrow> Buffer \<Rightarrow> nat \<Rightarrow> bool" where
  "phase_ok i b k =
     (case i of
        None \<Rightarrow> False
      | Some For_input \<Rightarrow> buf_idle b \<and> k = 0
      | Some For_errors \<Rightarrow> buf_idle b \<and> k \<le> 1
      | Some For_output \<Rightarrow> k = 0)"

definition slot_fine ::
  "config \<Rightarrow> bool \<Rightarrow> int \<Rightarrow> Buffer option \<Rightarrow> Request option \<Rightarrow> interest option \<Rightarrow> nat \<Rightarrow> bool" where
  "slot_fine c listening fd buffer request i k =
     (case (buffer, request) of
        (None, None) \<Rightarrow> (\<not> listening \<longrightarrow> i = None) \<and> k = 0
      | (Some b, Some r) \<Rightarrow> \<not> listening \<and> req_fd r = fd \<and> buf_ok c b \<and> phase_ok i b k
      | _ \<Rightarrow> False)"

definition slot_ok :: "('w, 're) HttpServer \<Rightarrow> int \<Rightarrow> bool" where
  "slot_ok s fd = slot_fine (conf s) (fd = listen_fd s) fd (buffers s ! nat fd) (requests s ! nat fd)
     (epoll s fd) (current s fd)"

definition task_ok :: "('w, 're) HttpServer \<Rightarrow> 'w Task \<Rightarrow> bool" where
  "task_ok s t \<longleftrightarrow> in_range (task_fd t) (buffers s) \<and> task_request t \<noteq> None \<and>
     timePoint t \<le> aliveSockets s ! nat (task_fd t)"

definition arrays_ok :: "('w, 're) HttpServer \<Rightarrow> bool" where
  "arrays_ok s \<longleftrightarrow> length (buffers s) = unat (maxConnection (conf s)) \<and>
     length (requests s) = length (buffers s) \<and> length (aliveSockets s) = length (buffers s) \<and>
     conf_ok (conf s) \<and> (\<forall>fd \<in> dom (epoll s). fd = listen_fd s \<or> in_range fd (buffers s))"

text \<open>
  \<open>inv_but fd\<close> is the invariant without the slot of \<open>fd\<close>, which an operation on that descriptor
  is about to set.
\<close>

definition inv_but :: "int \<Rightarrow> ('w, 're) HttpServer \<Rightarrow> bool" where
  "inv_but fd s \<longleftrightarrow> arrays_ok s \<and> in_range fd (buffers s) \<and> (\<forall>t \<in># tasks s. task_ok s t) \<and>
     (\<forall>x. in_range x (buffers s) \<and> x \<noteq> fd \<longrightarrow> slot_ok s x)"

definition srv_inv :: "('w, 're) HttpServer \<Rightarrow> bool" where
  "srv_inv s \<longleftrightarrow> arrays_ok s \<and> (\<forall>t \<in># tasks s. task_ok s t) \<and>
     (\<forall>x. in_range x (buffers s) \<longrightarrow> slot_ok s x)"

lemma srv_inv_iff: "in_range fd (buffers s) \<Longrightarrow> srv_inv s \<longleftrightarrow> inv_but fd s \<and> slot_ok s fd"
  by (auto simp: srv_inv_def inv_but_def)

lemmas set_defs = set_buffer_def set_request_def set_alive_def set_interest_def map_stat_def
  log_call_def closeSocket_def

text \<open>What the setters leave alone.\<close>

lemma setters_frame [simp]:
  "conf (set_buffer fd b s) = conf s" "conf (set_request fd r s) = conf s"
  "conf (set_alive env fd s) = conf s" "conf (set_interest fd i s) = conf s"
  "conf (map_stat f s) = conf s" "conf (log_call c s) = conf s" "conf (closeSocket fd s) = conf s"
  "listen_fd (set_buffer fd b s) = listen_fd s" "listen_fd (set_request fd r s) = listen_fd s"
  "listen_fd (set_alive env fd s) = listen_fd s" "listen_fd (set_interest fd i s) = listen_fd s"
  "listen_fd (map_stat f s) = listen_fd s" "listen_fd (log_call c s) = listen_fd s"
  "listen_fd (closeSocket fd s) = listen_fd s"
  "tasks (set_buffer fd b s) = tasks s" "tasks (set_request fd r s) = tasks s"
  "tasks (set_alive env fd s) = tasks s" "tasks (set_interest fd i s) = tasks s"
  "tasks (map_stat f s) = tasks s" "tasks (log_call c s) = tasks s" "tasks (closeSocket fd s) = tasks s"
  by (simp_all add: set_defs tasks_def)

lemma setters_arrays [simp]:
  "buffers (set_buffer fd b s) = (buffers s)[nat fd := b]" "buffers (set_request fd r s) = buffers s"
  "buffers (set_alive env fd s) = buffers s" "buffers (set_interest fd i s) = buffers s"
  "buffers (map_stat f s) = buffers s" "buffers (log_call c s) = buffers s"
  "buffers (closeSocket fd s) = buffers s"
  "requests (set_buffer fd b s) = requests s" "requests (set_request fd r s) = (requests s)[nat fd := r]"
  "requests (set_alive env fd s) = requests s" "requests (set_interest fd i s) = requests s"
  "requests (map_stat f s) = requests s" "requests (log_call c s) = requests s"
  "requests (closeSocket fd s) = requests s"
  "aliveSockets (set_buffer fd b s) = aliveSockets s" "aliveSockets (set_request fd r s) = aliveSockets s"
  "aliveSockets (set_alive env fd s) = (aliveSockets s)[nat fd := clock env fd]"
  "aliveSockets (set_interest fd i s) = aliveSockets s" "aliveSockets (map_stat f s) = aliveSockets s"
  "aliveSockets (log_call c s) = aliveSockets s" "aliveSockets (closeSocket fd s) = aliveSockets s"
  "epoll (set_buffer fd b s) = epoll s" "epoll (set_request fd r s) = epoll s"
  "epoll (set_alive env fd s) = epoll s" "epoll (set_interest fd i s) = (epoll s)(fd \<mapsto> i)"
  "epoll (map_stat f s) = epoll s" "epoll (log_call c s) = epoll s"
  "epoll (closeSocket fd s) = (epoll s)(fd := None)"
  by (simp_all add: set_defs)

lemma in_range_update [simp]: "in_range fd (xs[i := x]) = in_range fd xs"
  by (simp add: in_range_def)

lemma in_range_neq: "in_range x xs \<Longrightarrow> in_range fd ys \<Longrightarrow> x \<noteq> fd \<Longrightarrow> nat x \<noteq> nat fd"
  by (auto simp: in_range_def)

lemma in_range_nth_update [simp]: "in_range fd xs \<Longrightarrow> xs[nat fd := v] ! nat fd = v"
  by (simp add: in_range_def)

lemma current_setters [simp]:
  "current (set_buffer fd b s) x = current s x" "current (set_request fd r s) x = current s x"
  "current (set_interest fd i s) x = current s x" "current (map_stat f s) x = current s x"
  "current (log_call c s) x = current s x" "current (closeSocket fd s) x = current s x"
  by (simp_all add: current_def tickets_def)

lemma in_range_other [simp]:
  "in_range x xs \<Longrightarrow> in_range fd xs' \<Longrightarrow> x \<noteq> fd \<Longrightarrow> ys[nat fd := v] ! nat x = ys ! nat x"
  by (auto simp: in_range_def intro!: nth_list_update_neq)

lemma inv_but_setters [simp]:
  "inv_but fd (set_buffer fd b s) = inv_but fd s" "inv_but fd (set_request fd r s) = inv_but fd s"
  "inv_but fd (map_stat f s) = inv_but fd s" "inv_but fd (log_call c s) = inv_but fd s"
  by (auto simp: inv_but_def arrays_ok_def task_ok_def slot_ok_def)

lemma inv_but_interest: "inv_but fd s \<Longrightarrow> inv_but fd (set_interest fd i s)"
  by (auto simp: inv_but_def arrays_ok_def task_ok_def slot_ok_def)

lemma inv_but_closeSocket: "inv_but fd s \<Longrightarrow> inv_but fd (closeSocket fd s)"
  by (auto simp: inv_but_def arrays_ok_def task_ok_def slot_ok_def)

text \<open>
  The clock when it is read for a descriptor: not earlier than the time point of its slot, which is what
  \<^verbatim>\<open>steady_clock\<close> promises, and later than it while a task of that time point is under way.
\<close>

definition clock_ok :: "srv_env \<Rightarrow> ('w, 're) HttpServer \<Rightarrow> int \<Rightarrow> bool" where
  "clock_ok env s fd \<longleftrightarrow> aliveSockets s ! nat fd \<le> clock env fd \<and>
     (0 < current s fd \<longrightarrow> aliveSockets s ! nat fd < clock env fd)"

lemma clock_ok_setters [simp]:
  "clock_ok env (set_buffer fd b s) x = clock_ok env s x" "clock_ok env (set_request fd r s) x = clock_ok env s x"
  "clock_ok env (set_interest fd i s) x = clock_ok env s x" "clock_ok env (map_stat f s) x = clock_ok env s x"
  "clock_ok env (log_call c s) x = clock_ok env s x" "clock_ok env (closeSocket fd s) x = clock_ok env s x"
  by (simp_all add: clock_ok_def)

lemma inv_but_alive:
  assumes "inv_but fd s" "clock_ok env s fd"
  shows "inv_but fd (set_alive env fd s)" "current (set_alive env fd s) fd = 0"
proof -
  have fd: "in_range fd (buffers s)" "in_range fd (aliveSockets s)"
    using assms by (simp_all add: inv_but_def arrays_ok_def in_range_def)
  have other: "current (set_alive env fd s) x = current s x" if "in_range x (buffers s)" "x \<noteq> fd" for x
    using that fd by (simp add: current_def tickets_def)
  have "task_ok (set_alive env fd s) t" if "task_ok s t" for t
    using that assms(2) fd by (cases "task_fd t = fd") (auto simp: task_ok_def clock_ok_def)
  with assms(1) fd other show "inv_but fd (set_alive env fd s)"
    by (auto simp: inv_but_def arrays_ok_def slot_ok_def)
  show "current (set_alive env fd s) fd = 0"
  proof (cases "aliveSockets s ! nat fd < clock env fd")
    case True
    with assms have "\<forall>t \<in># tasks s. (task_fd t, timePoint t) \<noteq> (fd, clock env fd)"
      by (fastforce simp: inv_but_def task_ok_def)
    then show ?thesis using fd by (auto simp: current_def tickets_def count_eq_zero_iff)
  next
    case False
    with assms(2) have "clock env fd = aliveSockets s ! nat fd" "current s fd = 0" by (auto simp: clock_ok_def)
    then show ?thesis using fd by (simp add: current_def tickets_def)
  qed
qed

text \<open>A closed connection leaves an empty slot, whatever was in it before.\<close>

lemma closeAll_inv:
  assumes "inv_but fd s" "clock_ok env s fd"
  obtains s' where "closeAllSocketsAndClearData env fd s = Inr s'" "srv_inv s'"
    "buffers s' ! nat fd = None" "requests s' ! nat fd = None" "conf s' = conf s"
    "listen_fd s' = listen_fd s"
proof -
  let ?s = "map_stat addTotalNumberConnectionsProcessed
    (set_request fd None (set_buffer fd None (set_alive env fd (closeSocket fd s))))"
  have fd: "in_range fd (buffers s)" "in_range fd (requests s)"
    using assms by (simp_all add: inv_but_def arrays_ok_def in_range_def)
  have a: "inv_but fd (set_alive env fd (closeSocket fd s))"
      "current (set_alive env fd (closeSocket fd s)) fd = 0"
    using inv_but_alive [OF inv_but_closeSocket [OF assms(1)]] assms(2) by simp_all
  then have "slot_ok ?s fd" using fd by (simp add: slot_ok_def slot_fine_def)
  with a(1) fd have "srv_inv ?s" by (simp add: srv_inv_iff [of fd])
  with fd show thesis
    by (intro that [of ?s]) (simp_all add: closeAllSocketsAndClearData_def)
qed

text \<open>
  What a step asks of its environment: the clock is right for every descriptor, and the picture of the page for
  404 is a string the library can hold.
\<close>

definition env_ok :: "srv_env \<Rightarrow> ('w, 're) HttpServer \<Rightarrow> bool" where
  "env_ok env s \<longleftrightarrow> list_all (\<lambda>i. clock_ok env s (int i)) [0 ..< length (aliveSockets s)] \<and> length (logo_404 env) < 2 ^ 32"

lemma env_okD:
  assumes "env_ok env s" "in_range fd (aliveSockets s)"
  shows "clock_ok env s fd"
proof -
  have "nat fd \<in> set [0 ..< length (aliveSockets s)]" "int (nat fd) = fd"
    using assms(2) by (simp_all add: in_range_def)
  then show ?thesis using assms(1) unfolding env_ok_def list_all_iff by metis
qed

lemma deref_Inr: "deref xs fd = Inr x \<longleftrightarrow> in_range fd xs \<and> xs ! nat fd = Some x"
  by (simp add: deref_def split: option.split)

lemma inv_but_ranges:
  "inv_but fd s \<Longrightarrow> in_range fd (buffers s) \<and> in_range fd (requests s) \<and> in_range fd (aliveSockets s)"
  by (simp add: inv_but_def arrays_ok_def in_range_def)

text \<open>
  A page of the event loop on an idle connection without a task: the connection is then being written, or closed
  when it cannot be registered for output.
\<close>

lemma write_inv:
  assumes "inv_but fd s" "clock_ok env s fd" "buffers s ! nat fd = Some b" "requests s ! nat fd = Some r"
    and "buf_ok (conf s) b" "buf_idle b" "req_fd r = fd" "fd \<noteq> listen_fd s" "current s fd = 0"
    and "length data < 2 ^ 63"
  obtains (ok) b' where "ctl_ok env fd For_output" "writeToOutputBuffer env fd data s =
      Inr (fst (written env (conf s) data), set_interest fd For_output (set_buffer fd (Some b') s))"
    "buf_ok (conf s) b'" "srv_inv (set_interest fd For_output (set_buffer fd (Some b') s))"
    "pendingOutput b' = snd (written env (conf s) data)"
  | (failed) b' s' where "\<not> ctl_ok env fd For_output" "writeToOutputBuffer env fd data s = Inr (- 1, s')" "srv_inv s'"
    "closeAllSocketsAndClearData env fd (set_buffer fd (Some b') s) = Inr s'"
    "requests s' ! nat fd = None" "buffers s' ! nat fd = None"
    "pendingOutput b' = snd (written env (conf s) data)"
proof -
  note rng = inv_but_ranges [OF assms(1)]
  have "conf_ok (conf s)" using assms(1) by (simp add: inv_but_def arrays_ok_def)
  moreover have "deref (buffers s) fd = Inr b" using assms(3) rng by (simp add: deref_Inr)
  ultimately obtain b' where b': "writeToOutputBuffer env fd data s =
       (if ctl_ok env fd For_output
        then Inr (fst (written env (conf s) data), set_interest fd For_output (set_buffer fd (Some b') s))
        else bind_res (closeAllSocketsAndClearData env fd (set_buffer fd (Some b') s)) (\<lambda>s2. Inr (- 1, s2)))"
    "buf_ok (conf s) b'" "pendingOutput b' = snd (written env (conf s) data)"
    using assms by (auto elim!: write_idle [of s fd b data env])
  show thesis
  proof (cases "ctl_ok env fd For_output")
    case True
    have "srv_inv (set_interest fd For_output (set_buffer fd (Some b') s))"
      using rng assms b' inv_but_interest [of fd "set_buffer fd (Some b') s" For_output]
      by (simp add: srv_inv_iff [of fd] slot_ok_def slot_fine_def phase_ok_def)
    with True b' ok show thesis by simp
  next
    case False
    have "inv_but fd (set_buffer fd (Some b') s)" "clock_ok env (set_buffer fd (Some b') s) fd" using assms(1,2) by simp_all
    from closeAll_inv [OF this] obtain s' where "closeAllSocketsAndClearData env fd (set_buffer fd (Some b') s) = Inr s'"
      "srv_inv s'" "buffers s' ! nat fd = None" "requests s' ! nat fd = None" by metis
    with False b'(1,3) failed show thesis by simp
  qed
qed

subsection \<open>Every handler keeps the invariant\<close>

text \<open>
  The result of an operation: if there is a state it has the invariant, and under the condition \<open>safe\<close> the result is
  not undefined.
\<close>

definition keeps :: "bool \<Rightarrow> ('w, 're) HttpServer res \<Rightarrow> bool" where
  "keeps safe res = (case res of Inr s' \<Rightarrow> srv_inv s' | Inl e \<Rightarrow> safe \<longrightarrow> e \<noteq> Undefined)"

lemma keeps_simps [simp]: "keeps safe (Inr s) = srv_inv s" "keeps safe (Inl e) = (safe \<longrightarrow> e \<noteq> Undefined)"
  by (simp_all add: keeps_def)

lemma keeps_bind:
  "(safe \<Longrightarrow> r \<noteq> Inl Undefined) \<Longrightarrow> (\<And>x. r = Inr x \<Longrightarrow> keeps safe (f x)) \<Longrightarrow> keeps safe (bind_res r f)"
  by (cases r) auto

lemma keeps_closeAll:
  "inv_but fd s \<Longrightarrow> clock_ok env s fd \<Longrightarrow>
   keeps safe (closeAllSocketsAndClearData env fd s)"
  by (erule (1) closeAll_inv) simp

lemma srv_inv_but: "srv_inv s \<Longrightarrow> in_range fd (buffers s) \<Longrightarrow> inv_but fd s"
  by (simp add: srv_inv_iff [of fd])

lemma srv_inv_request:
  assumes "srv_inv s" "in_range fd (buffers s)" "requests s ! nat fd \<noteq> None" "req_fd r = fd"
  shows "srv_inv (set_request fd (Some r) s)"
proof -
  have "in_range fd (requests s)"
    using assms by (simp add: srv_inv_def arrays_ok_def in_range_def)
  with assms show ?thesis
    by (auto simp: srv_inv_iff [of fd] slot_ok_def slot_fine_def split: option.splits)
qed

lemma srv_inv_map_stat [simp]: "srv_inv (map_stat f s) = srv_inv s"
  by (auto simp: srv_inv_def arrays_ok_def task_ok_def slot_ok_def)

text \<open>A connection that is being read.\<close>

definition reading :: "('w, 're) HttpServer \<Rightarrow> int \<Rightarrow> Buffer \<Rightarrow> Request \<Rightarrow> bool" where
  "reading s fd b r \<longleftrightarrow> in_range fd (buffers s) \<and> buffers s ! nat fd = Some b \<and>
     requests s ! nat fd = Some r \<and> req_fd r = fd \<and> fd \<noteq> listen_fd s \<and> buf_ok (conf s) b \<and>
     buf_idle b \<and> current s fd = 0"

lemma reading_For_input:
  assumes "srv_inv s" "epoll s fd = Some For_input" "fd \<noteq> listen_fd s"
  obtains b r where "reading s fd b r"
proof -
  have fd: "in_range fd (buffers s)" using assms by (auto simp: srv_inv_def arrays_ok_def)
  with assms have "slot_ok s fd" by (simp add: srv_inv_def)
  with assms that fd show thesis
    by (auto simp: slot_ok_def slot_fine_def phase_ok_def reading_def split: option.splits)
qed

lemma write_reading:
  assumes "inv_but fd s" "clock_ok env s fd" "reading s fd b r" "length data < 2 ^ 63"
  obtains (ok) b' where "ctl_ok env fd For_output" "writeToOutputBuffer env fd data s =
      Inr (fst (written env (conf s) data), set_interest fd For_output (set_buffer fd (Some b') s))"
    "srv_inv (set_interest fd For_output (set_buffer fd (Some b') s))"
    "pendingOutput b' = snd (written env (conf s) data)"
  | (failed) b' s' where "\<not> ctl_ok env fd For_output" "writeToOutputBuffer env fd data s = Inr (- 1, s')" "srv_inv s'"
    "closeAllSocketsAndClearData env fd (set_buffer fd (Some b') s) = Inr s'"
    "requests s' ! nat fd = None" "buffers s' ! nat fd = None"
    "pendingOutput b' = snd (written env (conf s) data)"
proof -
  from assms(3) have slot: "buffers s ! nat fd = Some b" "requests s ! nat fd = Some r" "buf_ok (conf s) b"
    "buf_idle b" "req_fd r = fd" "fd \<noteq> listen_fd s" "current s fd = 0"
    by (simp_all add: reading_def)
  from assms(1,2) slot assms(4) show thesis
  proof (cases rule: write_inv)
    case (ok b')
    then show thesis by (intro that(1))
  next
    case (failed b' s')
    then show thesis by (intro that(2))
  qed
qed

lemma too_large_keeps:
  assumes "inv_but fd s" "clock_ok env s fd" "reading s fd b r" "safe \<Longrightarrow> ctl_ok env fd For_output"
  shows "keeps safe (too_large env fd s)"
proof -
  obtain str where str: "reply_text env Response413 = Inr str" "length str < 8192" by (rule page_413)
  then have "length str < 2 ^ 63" by simp
  from assms(1-3) this show ?thesis
  proof (cases rule: write_reading)
    case (ok b')
    let ?s1 = "set_interest fd For_output (set_buffer fd (Some b') s)"
    have "srv_inv (set_request fd (Some (r\<lparr>closingConnect := True, headerAccept := True\<rparr>)) ?s1)"
      using ok(3) assms(3) by (intro srv_inv_request) (simp_all add: reading_def)
    moreover have "deref (requests ?s1) fd = Inr r"
      using assms(1,3) inv_but_ranges [OF assms(1)] by (simp add: deref_Inr reading_def)
    ultimately show ?thesis by (simp add: too_large_def str ok(2))
  next
    case (failed b' s')
    then have "deref (requests s') fd = Inl Undefined" by (simp add: deref_def)
    with failed assms(4) str show ?thesis by (auto simp: too_large_def)
  qed
qed

lemma answer_page_keeps:
  assumes "inv_but fd s" "clock_ok env s fd" "reading s fd b r" "length (resp_body page) < 2 ^ 62"
    and "safe \<Longrightarrow> ctl_ok env fd For_output"
  shows "keeps safe (answer_page env fd page s)"
proof -
  obtain str where str: "reply_text env page = Inr str" "length str < 2 ^ 63"
    using reply_text_eq [of env page] assms(4) by fastforce
  from assms(1-3) str(2) show ?thesis
  proof (cases rule: write_reading)
    case (ok b')
    have "fst (written env (conf s) str) \<noteq> - 1" by (simp add: written_def)
    with ok str show ?thesis by (simp add: answer_page_def)
  next
    case (failed b' s')
    with assms(5) str show ?thesis by (auto simp: answer_page_def)
  qed
qed

lemma tasks_addTask:
  "task_type t = LOCAL_TASK \<or> task_type t = STATIC_RESOURCES_TASK \<Longrightarrow>
   tasks (addTask t s) = add_mset t (tasks s)"
  by (auto simp: addTask_def tasks_def queue_push_def)

lemma addTask_frame [simp]:
  "conf (addTask t s) = conf s" "listen_fd (addTask t s) = listen_fd s"
  "buffers (addTask t s) = buffers s" "requests (addTask t s) = requests s"
  "aliveSockets (addTask t s) = aliveSockets s" "epoll (addTask t s) = epoll s"
  by (simp_all add: addTask_def)

text \<open>A task for a connection that has none: its ticket becomes the current one.\<close>

lemma addTask_inv:
  assumes "srv_inv s" "reading s fd b r" "epoll s fd = Some For_errors"
    and "task_type t = LOCAL_TASK \<or> task_type t = STATIC_RESOURCES_TASK"
    and "task_fd t = fd" "timePoint t = aliveSockets s ! nat fd" "task_request t \<noteq> None"
  shows "srv_inv (addTask t s)"
proof -
  note t = tasks_addTask [OF assms(4), of s]
  have cur: "current (addTask t s) x = (if x = fd then 1 else current s x)"
    if "in_range x (buffers s)" for x
    using assms(2,5,6) that by (auto simp: current_def tickets_def t reading_def)
  have "task_ok (addTask t s) t"
    using assms(2,5-7) by (simp add: task_ok_def reading_def)
  moreover have "task_ok (addTask t s) u = task_ok s u" for u by (simp add: task_ok_def)
  ultimately have "\<forall>u \<in># tasks (addTask t s). task_ok (addTask t s) u"
    using assms(1) by (simp add: t srv_inv_def)
  moreover have "slot_ok (addTask t s) x" if "in_range x (buffers s)" for x
    using assms(1-3) that
    by (auto simp: cur slot_ok_def srv_inv_def slot_fine_def phase_ok_def reading_def)
  ultimately show ?thesis using assms(1) by (simp add: srv_inv_def arrays_ok_def)
qed

lemma dispatch_request_keeps:
  assumes "srv_inv s" "env_ok env s" "reading s fd b r" "epoll s fd = Some For_errors"
    and "safe \<Longrightarrow> ctl_ok env fd For_output"
  shows "keeps safe (dispatch_request env regexec e fd request s)"
proof -
  have but: "inv_but fd s" using assms(1,3) by (simp add: srv_inv_but reading_def)
  have clk: "clock_ok env s fd" using env_okD [OF assms(2)] inv_but_ranges [OF but] by blast
  have logo: "length (logo_404 env) < 2 ^ 32" using assms(2) by (simp add: env_ok_def)
  note pages = resp_body_pages(3) resp_body_pages(4) [of "logo_404 env"]
  have a503: "keeps safe (answer_page env fd (ResponseBase_move Response503) s)"
    using answer_page_keeps [OF but clk assms(3)] assms(5) pages by simp
  have a404: "keeps safe (answer_page env fd (ResponseBase_move (Response404 (logo_404 env))) s)"
    using answer_page_keeps [OF but clk assms(3)] assms(5) pages logo by simp
  have keeps_stat: "keeps safe (bind_res x (\<lambda>s1. Inr (map_stat f s1))) = keeps safe x" for x f
    by (cases x) simp_all
  show ?thesis
  proof (cases "dispatcher regexec (copy_alloc e) (taskFactory (task_alloc e) (task_garbage e)) (routes s) request")
    case None
    with a404 show ?thesis by (simp add: dispatch_request_def keeps_stat)
  next
    case (Some t)
    then have "task_request t \<noteq> None" by (auto simp: dispatcher_def split: option.splits)
    then have add: "srv_inv (addTask (t\<lparr>task_fd := fd, timePoint := aliveSockets s ! nat fd\<rparr>) s)"
      if "task_type t = LOCAL_TASK \<or> task_type t = STATIC_RESOURCES_TASK"
      using that by (intro addTask_inv [OF assms(1,3,4)]) simp_all
    show ?thesis
      using Some a503 add keeps_closeAll [OF but clk]
      by (simp add: dispatch_request_def keeps_stat Let_def)
  qed
qed

text \<open>The request that is stored keeps its descriptor.\<close>

lemma fold_store_header:
  "req_fd (fold store_header hs r) = req_fd r" "fullUri (fold store_header hs r) = fullUri r"
  by (induction hs arbitrary: r) (simp_all add: store_header_def addHeader_def)

lemma accept_header_ok:
  assumes "length (path p) < 2 ^ 64"
  obtains r' where "accept_header alloc p r = Inr r'" "req_fd r' = req_fd r"
proof -
  let ?r = "fold store_header (headers p)
    (r\<lparr>headerAccept := True, fullUri := path p, req_method := rmethod p\<rparr>)"
  have "fullUri ?r = path p" "req_fd ?r = req_fd r" by (simp_all add: fold_store_header)
  with parseParamsRequest_frame [of ?r alloc] assms obtain u m where
    "parseParamsRequest alloc ?r (of_nat (length (path p))) = Inr (?r\<lparr>uri := u, req_params := m\<rparr>)"
    by auto
  with that show thesis
    by (cases "headerAccept r"; cases "content_length (?r\<lparr>uri := u, req_params := m\<rparr>)")
      (simp_all add: accept_header_def fold_store_header Let_def)
qed

text \<open>
  The body: when the declared length leads exactly to the end of the input, it is read inside
  the buffer; a negative length is a length no string can have.
\<close>

lemma int32_range: "- (2 ^ 31) \<le> int32 v" "int32 v < 2 ^ 31"
  by (simp_all add: int32_def)

lemma size_of_neg_int:
  assumes "- (2 ^ 31) \<le> k" "k < 0"
  shows "uint (of_int k :: size_t) = k + 2 ^ 64"
proof -
  have "k mod 2 ^ 64 = (k + 2 ^ 64) mod 2 ^ 64" by simp
  also have "\<dots> = k + 2 ^ 64" using assms by (intro mod_pos_pos_trivial) simp_all
  finally show ?thesis by (simp add: uint_word_of_int)
qed

lemma size_of_pos_int: "0 \<le> k \<Longrightarrow> k < 2 ^ 31 \<Longrightarrow> uint (of_int k :: size_t) = k"
  by (simp add: uint_word_of_int)

lemma size_eq_int:
  assumes "(of_nat x :: size_t) = of_int v" "x < 2 ^ 62" "- (2 ^ 31) \<le> v" "v < 2 ^ 31"
  shows "v = int x"
proof -
  have "uint (of_nat x :: size_t) = int x"
    using assms(2) by (simp add: uint_nat unat_of_nat take_bit_nat_eq_self)
  then have x: "uint (of_int v :: size_t) = int x" using assms(1) by (simp only:)
  show ?thesis
  proof (cases "v < 0")
    case True
    with x size_of_neg_int [of v] assms(2,3) show ?thesis by simp
  next
    case False
    with x size_of_pos_int [of v] assms(4) show ?thesis by simp
  qed
qed

lemma accept_body_ok:
  assumes "0 < n" "- (2 ^ 31) \<le> len" "len < 2 ^ 31"
    and "posInputBuffer b < 2 ^ 62" "posInputBuffer b \<le> length (inputBuffer b)"
  shows "len = 0 \<or> sum_fits n len \<Longrightarrow> accept_body b n len r \<noteq> Inl Undefined"
    and "accept_body b n len r = Inr r' \<Longrightarrow> req_fd r' = req_fd r"
proof -
  show "accept_body b n len r \<noteq> Inl Undefined" if fits: "len = 0 \<or> sum_fits n len"
  proof (cases "len \<noteq> 0 \<and> (of_nat (posInputBuffer b) :: size_t) = of_int (n + len)")
    case True
    with assms fits have pos: "n + len = int (posInputBuffer b)" by (intro size_eq_int) (simp_all add: sum_fits_def)
    show ?thesis
    proof (cases "len < 0")
      case True
      then have "unat (of_int len :: size_t) = nat (len + 2 ^ 64)"
        using size_of_neg_int [of len] assms(2) by (simp add: unat_eq_nat_uint)
      with True assms(2) have "string_max_size < unat (of_int len :: size_t)"
        by (simp add: string_max_size_def)
      with fits show ?thesis by (auto simp: accept_body_def setBody_def)
    next
      case False
      then have "unat (of_int len :: size_t) = nat len"
        using size_of_pos_int [of len] assms(3) by (simp add: unat_eq_nat_uint)
      moreover have "nat n + nat len \<le> length (inputBuffer b)" using False pos assms(1,5) by linarith
      ultimately show ?thesis using assms(3) fits
        by (auto simp: accept_body_def setBody_def string_max_size_def mem_read_def)
    qed
  qed (use fits in \<open>auto simp: accept_body_def\<close>)
  show "req_fd r' = req_fd r" if "accept_body b n len r = Inr r'"
    using that by (auto simp: accept_body_def setBody_def bind_res_Inr_iff split: if_splits)
qed

text \<open>The target is a piece of the buffer that was parsed.\<close>

lemma token_spec_length: "token_spec buf = Parsed (t, rest) \<Longrightarrow> length t \<le> length buf \<and> length rest \<le> length buf"
  by (auto simp: token_spec_def length_takeWhile_le length_dropWhile_le split: list.splits if_splits)

lemma parse_request_path:
  assumes "parse_request sse m buf = Parsed (p, rest)"
  shows "length (path p) \<le> length buf"
proof -
  from assms obtain b0 mt b1 b2 where b0: "skip_empty_line buf = Parsed b0"
    and b1: "token_spec b0 = Parsed (mt, b1)" and b2: "token_spec (tl b1) = Parsed (path p, b2)"
    by (auto simp: parse_request_def bind_phr_Parsed_iff ADVANCE_TOKEN_eq_spec split: if_splits)
  have "length b0 \<le> length buf"
    using b0 by (auto simp: skip_empty_line_def EXPECT_CHAR_def EXPECT_CHAR_NO_CHECK_def split: list.splits if_splits)
  with token_spec_length [OF b1] token_spec_length [OF b2] show ?thesis by (simp, linarith)
qed

lemma phr_parse_request_path:
  "phr_parse_request sse buf m 0 = Parsed (p, n) \<Longrightarrow> length (path p) \<le> length buf"
  by (auto simp: phr_parse_request_def entry_def bind_phr_Parsed_iff dest: parse_request_path)

lemma reading_setters:
  "reading s fd b r \<Longrightarrow> reading (set_interest fd i s) fd b r"
  "reading s fd b r \<Longrightarrow> in_range fd (requests s) \<Longrightarrow> req_fd r' = fd \<Longrightarrow> reading (set_request fd (Some r') s) fd b r'"
  by (simp_all add: reading_def)

lemma env_ok_setters [simp]:
  "env_ok env (set_interest fd i s) = env_ok env s" "env_ok env (set_request fd r s) = env_ok env s"
  "env_ok env (set_buffer fd b s) = env_ok env s"
  by (simp_all add: env_ok_def)

lemma silence_keeps:
  assumes "inv_but fd s" "env_ok env s" "reading s fd b r" "safe \<Longrightarrow> ctl_ok env fd For_output"
  shows "keeps safe (if ctl_ok env fd For_errors
     then dispatch_request env regexec e fd r (set_interest fd For_errors s)
     else closeAllSocketsAndClearData env fd s)"
proof (cases "ctl_ok env fd For_errors")
  case True
  let ?s = "set_interest fd For_errors s"
  have rd: "reading ?s fd b r" using assms(3) by (rule reading_setters)
  then have "slot_ok ?s fd" by (simp add: slot_ok_def slot_fine_def phase_ok_def reading_def)
  then have "srv_inv ?s"
    using inv_but_interest [OF assms(1)] rd by (simp add: srv_inv_iff [of fd] reading_def)
  then have "keeps safe (dispatch_request env regexec e fd r ?s)"
    using assms(2,4) rd by (intro dispatch_request_keeps) simp_all
  with True show ?thesis by simp
next
  case False
  with keeps_closeAll [OF assms(1)] env_okD [OF assms(2)] inv_but_ranges [OF assms(1)]
  show ?thesis by simp
qed

lemma accept_body_reading:
  assumes "srv_inv s" "reading s fd b r" "0 < n" "content_length r1 = Inr len"
  shows "len = 0 \<or> sum_fits n len \<Longrightarrow> accept_body b n len r1 \<noteq> Inl Undefined"
    and "accept_body b n len r1 = Inr r' \<Longrightarrow> req_fd r' = req_fd r1"
proof -
  have "- (2 ^ 31) \<le> len" "len < 2 ^ 31"
    using assms(4) int32_range by (auto simp: content_length_def bind_res_Inr_iff atoi_def)
  moreover have "posInputBuffer b < 2 ^ 62" "posInputBuffer b \<le> length (inputBuffer b)"
    using assms(1,2) by (auto simp: reading_def buf_ok_def buffer_wf_def srv_inv_def arrays_ok_def conf_ok_def)
  ultimately show "len = 0 \<or> sum_fits n len \<Longrightarrow> accept_body b n len r1 \<noteq> Inl Undefined"
    "accept_body b n len r1 = Inr r' \<Longrightarrow> req_fd r' = req_fd r1"
    using accept_body_ok [OF assms(3)] by blast+
qed

text \<open>The declared length, if there is one, and the length of the header have a sum.\<close>

definition length_fits :: "bool \<Rightarrow> phr_request \<Rightarrow> int \<Rightarrow> Request \<Rightarrow> bool" where
  "length_fits alloc p n r =
     (case bind_res (accept_header alloc p r) content_length of
        Inl _ \<Rightarrow> True
      | Inr len \<Rightarrow> len = 0 \<or> sum_fits n len)"

lemma got_request_keeps:
  assumes "srv_inv s" "env_ok env s" "reading s fd b r" "epoll s fd = Some For_input"
    and "length (path p) < 2 ^ 64" "0 < n"
    and "safe \<Longrightarrow> ctl_ok env fd For_output" "safe \<Longrightarrow> length_fits (params_alloc e) p n r"
  shows "keeps safe (got_request env regexec e fd p n s)"
proof -
  have but: "inv_but fd s" using assms(1,3) by (simp add: srv_inv_but reading_def)
  note rng = inv_but_ranges [OF but]
  have d: "deref (requests s) fd = Inr r" "deref (buffers s) fd = Inr b"
    using assms(3) rng by (simp_all add: deref_Inr reading_def)
  obtain r1 where r1: "accept_header (params_alloc e) p r = Inr r1" "req_fd r1 = fd"
    using assms(3,5) accept_header_ok [of p "params_alloc e" r] by (auto simp: reading_def)
  have clk: "clock_ok env s fd" using env_okD [OF assms(2)] rng by blast
  have step: "inv_but fd (set_request fd (Some r') s)" "reading (set_request fd (Some r') s) fd b r'"
    "srv_inv (set_request fd (Some r') s)" if "req_fd r' = fd" for r'
    using that but rng assms(1,3) reading_setters(2) [OF assms(3)]
    by (auto intro!: srv_inv_request simp: reading_def)
  let ?go = "\<lambda>r2 s1. if ctl_ok env fd For_errors
     then dispatch_request env regexec e fd r2 (set_interest fd For_errors s1) else closeAllSocketsAndClearData env fd s1"
  have go: "keeps safe (?go r2 (set_request fd (Some r2) s))" if "req_fd r2 = fd" for r2
    using silence_keeps [OF step(1) [OF that] _ step(2) [OF that]] assms(2,7) by simp
  show ?thesis
  proof (cases "bodyExists r1")
    case False
    then show ?thesis using go [OF r1(2)] by (simp add: got_request_def d r1 Let_def)
  next
    case True
    show ?thesis
    proof (cases "content_length r1")
      case (Inl x)
      with True keeps_closeAll [OF step(1) [OF r1(2)]] clk show ?thesis
        by (simp add: got_request_def d r1 Let_def)
    next
      case (Inr len)
      note body = accept_body_reading [OF assms(1,3,6) Inr]
      have "keeps safe (bind_res (accept_body b n len r1) (\<lambda>r2.
          let s1 = set_request fd (Some r2) s in if bodyAccept r2 then ?go r2 s1 else Inr s1))"
      proof (rule keeps_bind)
        fix r2 assume "accept_body b n len r1 = Inr r2"
        with body(2) r1(2) have r2: "req_fd r2 = fd" by simp
        show "keeps safe (let s1 = set_request fd (Some r2) s in if bodyAccept r2 then ?go r2 s1 else Inr s1)"
          using go [OF r2] step(3) [OF r2] by (simp add: Let_def)
      next
        assume safe
        from assms(8) [OF this] r1(1) Inr have "len = 0 \<or> sum_fits n len" by (simp add: length_fits_def)
        then show "accept_body b n len r1 \<noteq> Inl Undefined" by (rule body(1))
      qed
      with True Inr show ?thesis by (simp add: got_request_def d r1 Let_def)
    qed
  qed
qed

end
