(* ===== verification/Server_Steps.thy ===== *)
theory Server_Steps
  imports Server_Safety
begin

text \<open>
  The steps of the server: what the kernel may report, the handlers for events, the search for
  expired connections, the delivery of performed tasks and the workers, each with the invariant;
  then the reachable states.
\<close>

subsection \<open>Output\<close>

lemma env_ok_log [simp]: "env_ok env (log_call c s) = env_ok env s"
  by (simp add: env_ok_def)

lemma slot_present:
  assumes "srv_inv s" "epoll s fd = Some i" "fd \<noteq> listen_fd s"
  obtains b r where "in_range fd (buffers s)" "buffers s ! nat fd = Some b"
    "requests s ! nat fd = Some r" "req_fd r = fd" "buf_ok (conf s) b"
    "phase_ok (Some i) b (current s fd)"
proof -
  have fd: "in_range fd (buffers s)" using assms by (auto simp: srv_inv_def arrays_ok_def)
  with assms have "slot_ok s fd" by (simp add: srv_inv_def)
  with assms that fd show thesis
    by (auto simp: slot_ok_def slot_fine_def split: option.splits)
qed

lemma finish_response_keeps:
  assumes "inv_but fd s" "clock_ok env s fd" "fd \<noteq> listen_fd s"
    and "buffers s ! nat fd = Some b" "requests s ! nat fd = Some r" "req_fd r = fd" "buf_ok (conf s) b"
  shows "keeps safe (finish_response env fd s)"
proof -
  note rng = inv_but_ranges [OF assms(1)]
  have d: "deref (requests s) fd = Inr r" "deref (buffers s) fd = Inr b"
    using assms(4,5) rng by (simp_all add: deref_Inr)
  let ?s1 = "set_request fd (Some (Request_clear r)) (set_buffer fd (Some (Buffer_clear b)) s)"
  let ?s2 = "set_alive env fd (set_interest fd For_input ?s1)"
  have b1: "inv_but fd ?s1" using assms(1) by simp
  then have "inv_but fd ?s2" "current ?s2 fd = 0"
    using inv_but_alive [OF inv_but_interest [OF b1, of For_input], of env] assms(2) by simp_all
  moreover have "slot_ok ?s2 fd"
    using calculation(2) rng assms Buffer_clear_ok [OF assms(7)]
    by (simp add: slot_ok_def slot_fine_def phase_ok_def Request_clear_keeps)
  ultimately have "srv_inv ?s2" using rng by (simp add: srv_inv_iff [of fd])
  moreover have "keeps safe (closeAllSocketsAndClearData env fd s)"
    "keeps safe (closeAllSocketsAndClearData env fd ?s1)"
    using keeps_closeAll [OF assms(1,2)] keeps_closeAll [OF b1] assms(2) by simp_all
  ultimately show ?thesis by (simp add: finish_response_def d Let_def)
qed

definition send_ok :: "send_result \<Rightarrow> int \<Rightarrow> ('w, 're) HttpServer \<Rightarrow> bool" where
  "send_ok res fd s =
     (case (res, deref (buffers s) fd) of
        (Sent n, Inr b) \<Rightarrow> n \<le> numberBytesToSend b
      | _ \<Rightarrow> True)"

lemma consumeOutput_ok: "buf_ok c b \<Longrightarrow> n \<le> numberBytesToSend b \<Longrightarrow> buf_ok c (consumeOutput n b)"
  using consumeOutput_wf [of b n]
  by (simp add: buf_ok_def consumeOutput_def setBytesToSend_def setPosOutputBuffer_def Let_def)

lemma handle_output_keeps:
  assumes "srv_inv s" "env_ok env s" "epoll s fd = Some For_output" "fd \<noteq> listen_fd s" "send_ok res fd s"
  shows "keeps safe (handle_output env res fd s)"
proof -
  from assms(1,3,4) obtain b r where p: "in_range fd (buffers s)" "buffers s ! nat fd = Some b"
    "requests s ! nat fd = Some r" "req_fd r = fd" "buf_ok (conf s) b"
    "phase_ok (Some For_output) b (current s fd)" by (rule slot_present)
  have but: "inv_but fd s" using assms(1) p(1) by (rule srv_inv_but)
  note rng = inv_but_ranges [OF but]
  have d: "deref (requests s) fd = Inr r" "deref (buffers s) fd = Inr b"
    using p rng by (simp_all add: deref_Inr)
  have clk: "clock_ok env s fd" using env_okD [OF assms(2)] rng by blast
  have win: "mem_read (outputBuffer b) (posOutputBuffer b) (numberBytesToSend b) = Inr (pendingOutput b)"
    using p(5) by (simp add: mem_read_def buf_ok_def buffer_wf_def pendingOutput_def)
  have sent: "keeps safe (let b1 = consumeOutput n b;
             s1 = set_buffer fd (Some b1) (log_call (Sent_bytes fd (take n (pendingOutput b))) s)
         in if numberBytesToSend b1 = 0 then finish_response env fd s1 else Inr s1)" if "res = Sent n" for n
  proof -
    let ?s1 = "set_buffer fd (Some (consumeOutput n b)) (log_call (Sent_bytes fd (take n (pendingOutput b))) s)"
    have n: "n \<le> numberBytesToSend b" using assms(5) that d by (simp add: send_ok_def)
    have ok: "buf_ok (conf s) (consumeOutput n b)" using p(5) n by (rule consumeOutput_ok)
    have "keeps safe (finish_response env fd ?s1)"
      using but clk p assms(4) ok by (intro finish_response_keeps [where b = "consumeOutput n b" and r = r]) simp_all
    moreover have "srv_inv ?s1"
      using but p ok assms(3,4) by (simp add: srv_inv_iff [of fd] slot_ok_def slot_fine_def phase_ok_def)
    ultimately show ?thesis by (simp add: Let_def)
  qed
  show ?thesis
    using sent assms(1) keeps_closeAll [OF but clk]
    by (cases res) (simp_all add: handle_output_def d win)
qed

subsection \<open>Input\<close>

definition recv_ok :: "recv_result \<Rightarrow> bool" where
  "recv_ok res = (case res of Recv_error blocked \<Rightarrow> True | Recv_data data \<Rightarrow> length data \<le> 4096)"

text \<open>
  When reading is defined: \<^verbatim>\<open>recv\<close> does not report that it would have blocked, the descriptor can be registered for output
  should a page be due, and the declared length of a request that is now complete fits an \<^verbatim>\<open>int\<close> together with its header.
\<close>

definition input_fits :: "read_env \<Rightarrow> int \<Rightarrow> ('w, 're) HttpServer \<Rightarrow> bool" where
  "input_fits e fd s =
     (case (received e, buffers s ! nat fd, requests s ! nat fd) of
        (Recv_data data, Some b, Some r) \<Rightarrow>
          (case addDataToInputBuffer data b of
             Inl _ \<Rightarrow> True
           | Inr b1 \<Rightarrow>
               (case phr_parse_request False (take (posInputBuffer b1 + 1) (inputBuffer b1)) 100 0 of
                  Parsed (p, n) \<Rightarrow> length_fits (params_alloc e) p (int32 (int n)) r
                | _ \<Rightarrow> True))
      | _ \<Rightarrow> True)"

definition input_safe :: "srv_env \<Rightarrow> read_env \<Rightarrow> int \<Rightarrow> ('w, 're) HttpServer \<Rightarrow> bool" where
  "input_safe env e fd s \<longleftrightarrow> received e \<noteq> Recv_error True \<and> ctl_ok env fd For_output \<and> input_fits e fd s"

lemma parsed_input_keeps:
  assumes "srv_inv s" "env_ok env s" "reading s fd b r" "epoll s fd = Some For_input"
    and "length msg_in < 2 ^ 62" "\<And>s'. output s' = Inr s'"
    and "safe \<Longrightarrow> ctl_ok env fd For_output"
    and "\<And>p n. safe \<Longrightarrow> phr_parse_request False msg_in 100 0 = Parsed (p, n) \<Longrightarrow> length_fits (params_alloc e) p (int32 (int n)) r"
  shows "keeps safe
    (case phr_parse_request False msg_in 100 0 of
       Parsed (p, n) \<Rightarrow>
         if int32 (int n) > 0 then got_request env regexec e fd p (int32 (int n)) s
         else if int32 (int n) = - 2 then Inr s
         else if int32 (int n) = - 1 then closeAllSocketsAndClearData env fd s
         else output s
     | Incomplete \<Rightarrow> Inr s
     | Failed \<Rightarrow> closeAllSocketsAndClearData env fd s
     | Oob \<Rightarrow> Inl Undefined)"
proof -
  have but: "inv_but fd s" using assms(1,3) by (simp add: srv_inv_but reading_def)
  have clk: "clock_ok env s fd" using env_okD [OF assms(2)] inv_but_ranges [OF but] by blast
  note close = keeps_closeAll [OF but clk]
  have noob: "phr_parse_request False msg_in 100 0 \<noteq> Oob"
    unfolding phr_parse_request_def by (intro entry_safe request_sp.safe) simp
  have got: "keeps safe (got_request env regexec e fd p (int32 (int n)) s)"
    if "phr_parse_request False msg_in 100 0 = Parsed (p, n)" "int32 (int n) > 0" for p n
    using phr_parse_request_path [OF that(1)] assms(5) that assms(2,4,7,8)
    by (intro got_request_keeps [OF assms(1) _ assms(3)]) simp_all
  show ?thesis using got close assms(1,6) noob by (auto split: phr.split prod.split)
qed

lemma handle_input_keeps:
  assumes "srv_inv s" "env_ok env s" "epoll s fd = Some For_input" "fd \<noteq> listen_fd s"
    and "recv_ok (received e)" "\<And>s'. output s' = Inr s'" "safe \<Longrightarrow> input_safe env e fd s"
  shows "keeps safe (handle_input env regexec e output fd s)"
proof -
  from assms(1,3,4) obtain b r where rd: "reading s fd b r" by (rule reading_For_input)
  have but: "inv_but fd s" using assms(1) rd by (simp add: srv_inv_but reading_def)
  note rng = inv_but_ranges [OF but]
  have clk: "clock_ok env s fd" using env_okD [OF assms(2)] rng by blast
  have d: "deref (buffers s) fd = Inr b" using rd rng by (simp add: deref_Inr reading_def)
  note close = keeps_closeAll [OF but clk]
  show ?thesis
  proof (cases "received e")
    case (Recv_error blocked)
    have "keeps safe (too_large env fd s)"
      using assms(7) by (intro too_large_keeps [OF but clk rd]) (simp add: input_safe_def)
    with Recv_error assms(7) close d show ?thesis by (auto simp: handle_input_def input_safe_def)
  next
    case (Recv_data data)
    have bok: "buf_ok (conf s) b" "conf_ok (conf s)"
      using rd but by (simp_all add: reading_def inv_but_def arrays_ok_def)
    have len: "posInputBuffer b < 2 ^ 63" "length data < 2 ^ 63"
      using bok Recv_data assms(5) by (auto simp: buf_ok_def buffer_wf_def conf_ok_def recv_ok_def)
    show ?thesis
    proof (cases "data = [] \<or> unat (maxInputBufferLength (conf s)) \<le> posInputBuffer b + length data")
      case True
      then show ?thesis
        using Recv_data close d too_large_keeps [OF but clk rd, of safe] assms(7) size_sum_less [OF len]
        by (auto simp: handle_input_def input_safe_def)
    next
      case False
      then obtain b1 where b1: "addDataToInputBuffer data b = Inr b1" "buffer_wf b1"
          "posInputBuffer b1 = posInputBuffer b + length data"
        using bok by (auto simp: buf_ok_def elim!: addDataToInputBuffer_ok [of b data])
      have eq: "inputBufferLength b1 = inputBufferLength b" "outputBufferLength b1 = outputBufferLength b"
        "numberBytesToSend b1 = numberBytesToSend b" "posOutputBuffer b1 = posOutputBuffer b"
        using b1(1) by (auto simp: addDataToInputBuffer_def bind_res_Inr_iff)
      let ?s1 = "set_buffer fd (Some b1) s"
      have rd1: "reading ?s1 fd b1 r"
        using rd b1(2) eq by (simp add: reading_def buf_ok_def buf_idle_def)
      have inv1: "srv_inv ?s1"
        using but rd1 assms(3) by (simp add: srv_inv_iff [of fd] slot_ok_def slot_fine_def phase_ok_def reading_def)
      have room: "posInputBuffer b1 + 1 \<le> length (inputBuffer b1)"
        using False b1 eq bok by (auto simp: buf_ok_def buffer_wf_def)
      define msg_in where "msg_in = take (posInputBuffer b1 + 1) (inputBuffer b1)"
      have msg_in: "mem_read (inputBuffer b1) 0 (posInputBuffer b1 + 1) = Inr msg_in" "length msg_in < 2 ^ 62"
        using room bok b1(2) eq by (simp_all add: mem_read_def msg_in_def buf_ok_def buffer_wf_def conf_ok_def)
      have fits: "length_fits (params_alloc e) p (int32 (int n)) r"
        if safe "phr_parse_request False msg_in 100 0 = Parsed (p, n)" for p n
        using assms(7) [OF that(1)] that(2) Recv_data rd b1(1) by (simp add: input_safe_def input_fits_def reading_def msg_in_def)
      show ?thesis
        using parsed_input_keeps [OF inv1 _ rd1 _ msg_in(2) assms(6), of env safe e regexec] assms(2,3,7) fits
          Recv_data False d b1(1) msg_in(1) size_sum_less [OF len, of "maxInputBufferLength (conf s)"]
        by (simp add: handle_input_def Let_def input_safe_def)
    qed
  qed
qed

subsection \<open>Accepting\<close>

definition accept_ok :: "accept_env \<Rightarrow> ('w, 're) HttpServer \<Rightarrow> bool" where
  "accept_ok a s \<longleftrightarrow> - 1 \<le> conn_sock a \<and> conn_sock a \<noteq> listen_fd s \<and> epoll s (conn_sock a) = None \<and>
     (case new_input a of None \<Rightarrow> True | Some i \<Rightarrow> length i = unat (maxInputBufferLength (conf s))) \<and>
     (case new_output a of None \<Rightarrow> True | Some u \<Rightarrow> length u = unat (maxOutputBufferLength' (conf s)))"

lemma srv_inv_close_unknown: "srv_inv s \<Longrightarrow> epoll s fd = None \<Longrightarrow> srv_inv (closeSocket fd s)"
  by (auto simp: srv_inv_def arrays_ok_def task_ok_def slot_ok_def)

lemma accept_descriptor:
  assumes "arrays_ok s" "fd \<le> max_descriptor s" "- 1 \<le> fd" "fd \<noteq> - 1"
  shows "in_range fd (buffers s)"
proof -
  obtain n where n: "unat (maxConnection (conf s)) = n" "length (buffers s) = n" "n < 2 ^ 31"
    using assms(1) by (simp add: arrays_ok_def conf_ok_def)
  have "uint (maxConnection (conf s)) = int n" by (simp only: uint_nat n)
  then have "max_descriptor s = int n - 1"
    using n(3) by (simp add: max_descriptor_def int32_id)
  with assms(2-4) n(2) show ?thesis by (simp add: in_range_def)
qed

lemma slot_empty:
  assumes "srv_inv s" "in_range fd (buffers s)" "epoll s fd = None"
  shows "buffers s ! nat fd = None \<and> requests s ! nat fd = None"
proof -
  have "slot_ok s fd" using assms by (simp add: srv_inv_def)
  with assms(3) show ?thesis by (auto simp: slot_ok_def slot_fine_def phase_ok_def split: option.splits)
qed

lemma connection_filled:
  assumes "inv_but fd s" "current s fd = 0" "epoll s fd = Some For_input" "fd \<noteq> listen_fd s"
    and "in_range fd (buffers s)" "req_fd r = fd"
    and "bufferFactory ok input output (unat (maxInputBufferLength (conf s)))
           (unat (maxOutputBufferLength' (conf s))) = Some b"
    and "case input of None \<Rightarrow> True | Some i \<Rightarrow> length i = unat (maxInputBufferLength (conf s))"
    and "case output of None \<Rightarrow> True | Some u \<Rightarrow> length u = unat (maxOutputBufferLength' (conf s))"
  shows "srv_inv (set_request fd (Some r) (set_buffer fd (Some b) s))"
proof -
  have "buffer_wf b" using assms(7-9) by (intro bufferFactory_wf [THEN conjunct1]) auto
  moreover have "buf_idle b" using assms(7) by (auto simp: bufferFactory_def buf_idle_def split: if_splits option.splits)
  ultimately show ?thesis
    using assms inv_but_ranges [OF assms(1)] bufferFactory_lengths [OF assms(7)]
    by (simp add: srv_inv_iff [of fd] slot_ok_def slot_fine_def phase_ok_def buf_ok_def)
qed

lemma accept_keeps:
  assumes "srv_inv s" "accept_ok a s" "env_ok env s"
  shows "keeps safe (accept_connection env a s)"
proof -
  define fd where "fd = conn_sock a"
  have a: "- 1 \<le> fd" "fd \<noteq> listen_fd s" "epoll s fd = None"
    using assms(2) by (simp_all add: accept_ok_def fd_def)
  show ?thesis
  proof (cases "fd > max_descriptor s \<or> fd = - 1 \<or> \<not> nonblocking_ok a \<or> \<not> ctl_ok env fd For_input")
    case True
    with srv_inv_close_unknown [OF assms(1) a(3)] show ?thesis
      by (simp add: accept_connection_def fd_def [symmetric] Let_def)
  next
    case False
    have rng: "in_range fd (buffers s)"
      using False a(1) assms(1) by (intro accept_descriptor) (simp_all add: srv_inv_def)
    note empty = slot_empty [OF assms(1) rng a(3)]
    have but: "inv_but fd s" using assms(1) rng by (rule srv_inv_but)
    note rngs = inv_but_ranges [OF but]
    have clk: "clock_ok env s fd" using env_okD [OF assms(3)] rngs by blast
    define s3 where "s3 = set_alive env fd
      (if isStatisticsEnable (conf s) then map_stat addTotalNumberConnectionsAccepted (set_interest fd For_input s)
       else set_interest fd For_input s)"
    have but0: "inv_but fd (if isStatisticsEnable (conf s)
        then map_stat addTotalNumberConnectionsAccepted (set_interest fd For_input s)
        else set_interest fd For_input s)"
      using inv_but_interest [OF but, of For_input] by simp
    have s3: "inv_but fd s3" "current s3 fd = 0" "conf s3 = conf s" "listen_fd s3 = listen_fd s"
      "buffers s3 = buffers s" "requests s3 = requests s" "epoll s3 fd = Some For_input"
      unfolding s3_def using inv_but_alive [OF but0, of env] clk by (auto split: if_splits)
    have gone: "srv_inv (closeSocket fd (set_buffer fd None s3))"
      using s3 rng inv_but_closeSocket [of fd "set_buffer fd None s3"] empty
      by (simp add: srv_inv_iff [of fd] slot_ok_def slot_fine_def)
    have gone2: "srv_inv (set_buffer fd None (closeSocket fd (set_request fd None (set_buffer fd (Some b) s3))))" for b
      using s3 rng rngs inv_but_closeSocket [of fd "set_request fd None (set_buffer fd (Some b) s3)"]
      by (simp add: srv_inv_iff [of fd] slot_ok_def slot_fine_def)
    have there: "srv_inv (set_request fd (Some r) (set_buffer fd (Some b) s3))"
      if "bufferFactory (new_buffer a) (new_input a) (new_output a)
          (unat (maxInputBufferLength (conf s))) (unat (maxOutputBufferLength' (conf s))) = Some b"
        "req_fd r = fd" for b r
      using assms(2) a(2) rng that unfolding accept_ok_def
      by (intro connection_filled [OF s3(1,2,7), of r "new_buffer a" "new_input a" "new_output a"])
         (simp_all add: s3 cong: option.case_cong)
    have step: "accept_connection env a s =
      (case bufferFactory (new_buffer a) (new_input a) (new_output a)
              (unat (maxInputBufferLength (conf s))) (unat (maxOutputBufferLength' (conf s))) of
         None \<Rightarrow> Inr (closeSocket fd (set_buffer fd None s3))
       | Some b \<Rightarrow>
           (case requestFactory (new_request a) (stale_fd a) (stale_max a) of
              None \<Rightarrow> Inr (set_buffer fd None (closeSocket fd (set_request fd None (set_buffer fd (Some b) s3))))
            | Some r \<Rightarrow> Inr (set_request fd (Some (r\<lparr>req_fd := fd,
                maxOutputBufferLength := unat (maxOutputBufferLength' (conf s))\<rparr>)) (set_buffer fd (Some b) s3))))"
      using False rng unfolding accept_connection_def s3_def fd_def Let_def
      by (simp only: if_False if_True not_True_eq_False not_False_eq_True simp_thms)
    show ?thesis
      unfolding step using gone gone2 there by (simp split: option.split)
  qed
qed

subsection \<open>Events\<close>

text \<open>
  What the kernel promises about an event: it is reported for a registered descriptor, input and
  output only when they were asked for; \<^verbatim>\<open>recv\<close> fills no more than the array it is given, \<^verbatim>\<open>send\<close> takes no more than it
  was given, \<^verbatim>\<open>accept\<close> returns a new descriptor. Any of these calls may fail.
\<close>

definition event_ok :: "event \<Rightarrow> event_env \<Rightarrow> ('w, 're) HttpServer \<Rightarrow> bool" where
  "event_ok ev e s \<longleftrightarrow> epoll s (event_fd ev) \<noteq> None \<and>
     (event_in ev \<longrightarrow> epoll s (event_fd ev) = Some For_input) \<and>
     (event_out ev \<longrightarrow> epoll s (event_fd ev) = Some For_output) \<and>
     env_ok (ev_srv e) s \<and> recv_ok (received (ev_read e)) \<and> send_ok (ev_send e) (event_fd ev) s \<and>
     (event_fd ev = listen_fd s \<longrightarrow> accept_ok (ev_accept e) s)"

text \<open>When handling an event is defined.\<close>

definition event_safe :: "event \<Rightarrow> event_env \<Rightarrow> ('w, 're) HttpServer \<Rightarrow> bool" where
  "event_safe ev e s \<longleftrightarrow> (event_err ev \<longrightarrow> in_range (event_fd ev) (buffers s)) \<and>
     (event_in ev \<and> \<not> event_err ev \<and> event_fd ev \<noteq> listen_fd s \<longrightarrow> input_safe (ev_srv e) (ev_read e) (event_fd ev) s)"

lemma handle_event_keeps:
  assumes "srv_inv s" "event_ok ev e s"
  shows "keeps (event_safe ev e s) (handle_event regexec ev e s)" (is "keeps ?safe _")
proof (cases "event_err ev")
  case True
  have "keeps ?safe (closeAllSocketsAndClearData (ev_srv e) (event_fd ev) s)"
  proof (cases "in_range (event_fd ev) (buffers s)")
    case True
    then have but: "inv_but (event_fd ev) s" using assms(1) by (intro srv_inv_but)
    moreover have "clock_ok (ev_srv e) s (event_fd ev)"
      using assms(2) env_okD inv_but_ranges [OF but] by (auto simp: event_ok_def)
    ultimately show ?thesis by (rule keeps_closeAll)
  next
    case False
    with \<open>event_err ev\<close> show ?thesis by (simp add: closeAllSocketsAndClearData_def event_safe_def)
  qed
  with True show ?thesis by (simp add: handle_event_def Let_def)
next
  case no_err: False
  show ?thesis
  proof (cases "event_fd ev = listen_fd s")
    case True
    with no_err show ?thesis using assms accept_keeps [of s "ev_accept e" "ev_srv e"]
      by (auto simp: handle_event_def event_ok_def Let_def)
  next
    case False
    have out: "keeps ?safe (handle_output (ev_srv e) (ev_send e) (event_fd ev) s)" if "event_out ev"
      using that assms False by (intro handle_output_keeps) (simp_all add: event_ok_def)
    have inp: "keeps ?safe (handle_input (ev_srv e) regexec (ev_read e) (\<lambda>s. Inr s) (event_fd ev) s)" if "event_in ev"
      using that assms False no_err by (intro handle_input_keeps) (simp_all add: event_ok_def event_safe_def)
    have excl: "\<not> event_out ev" if "event_in ev" using that assms(2) by (auto simp: event_ok_def)
    show ?thesis
    proof (cases "event_in ev")
      case True
      with excl inp no_err False show ?thesis by (simp add: handle_event_def Let_def)
    next
      case no: False
      with out no_err assms(1) False show ?thesis by (simp add: handle_event_def Let_def)
    qed
  qed
qed

subsection \<open>Performed tasks\<close>

lemma slot_fine_mono: "slot_fine c l fd b r i k \<Longrightarrow> k' \<le> k \<Longrightarrow> slot_fine c l fd b r i k'"
  by (auto simp: slot_fine_def phase_ok_def split: option.splits interest.splits)

lemma pop_performed:
  assumes "srv_inv s" "queue (performedTasksQueue s) = t # ts"
  defines "s0 \<equiv> s\<lparr>performedTasksQueue := performedTasksQueue s\<lparr>queue := ts\<rparr>\<rparr>"
  shows "srv_inv s0" "task_ok s0 t" "tasks s = add_mset t (tasks s0)"
proof -
  show tasks: "tasks s = add_mset t (tasks s0)" using assms(2) by (simp add: tasks_def s0_def)
  have frame: "conf s0 = conf s" "listen_fd s0 = listen_fd s" "buffers s0 = buffers s"
    "requests s0 = requests s" "aliveSockets s0 = aliveSockets s" "epoll s0 = epoll s"
    by (simp_all add: s0_def)
  have ok: "task_ok s0 u = task_ok s u" for u by (simp add: task_ok_def frame)
  show "task_ok s0 t" using assms(1) tasks by (simp add: srv_inv_def ok)
  have "current s0 x \<le> current s x" for x
    using tasks by (simp add: current_def tickets_def frame)
  then have "slot_ok s x \<Longrightarrow> slot_ok s0 x" for x
    by (auto simp: slot_ok_def frame intro: slot_fine_mono)
  then show "srv_inv s0"
    using assms(1) tasks by (simp add: srv_inv_def ok frame arrays_ok_def)
qed

text \<open>The connection of a current ticket is idle and waits for this task only.\<close>

lemma current_ticket:
  assumes "srv_inv s" "queue (performedTasksQueue s) = t # ts"
    and "timePoint t = aliveSockets s ! nat (task_fd t)"
  defines "s0 \<equiv> s\<lparr>performedTasksQueue := performedTasksQueue s\<lparr>queue := ts\<rparr>\<rparr>"
  obtains b r where "reading s0 (task_fd t) b r"
proof -
  let ?fd = "task_fd t"
  note pop = pop_performed [OF assms(1,2), folded s0_def]
  have frame: "conf s0 = conf s" "listen_fd s0 = listen_fd s" "buffers s0 = buffers s"
    "requests s0 = requests s" "aliveSockets s0 = aliveSockets s" "epoll s0 = epoll s"
    by (simp_all add: s0_def)
  have cur: "current s ?fd = Suc (current s0 ?fd)"
    using assms(3) by (simp add: current_def tickets_def pop(3) frame)
  have rng: "in_range ?fd (buffers s)" using pop(2) by (simp add: task_ok_def frame)
  with assms(1) have "slot_ok s ?fd" by (simp add: srv_inv_def)
  with cur that rng show thesis
    by (auto simp: slot_ok_def slot_fine_def phase_ok_def reading_def frame
        split: option.splits interest.splits)
qed

text \<open>
  What the delivery of a task leaves: the answer pending, the connection closed when it cannot be registered for
  output, or nothing changed when the time point is no longer that of the descriptor.
\<close>

lemma deliver_task_result:
  fixes s :: "('w, 're) HttpServer"
  assumes "srv_inv s" "queue (performedTasksQueue s) = t # ts"
    and "clock_ok env (s\<lparr>performedTasksQueue := performedTasksQueue s\<lparr>queue := ts\<rparr>\<rparr>) (task_fd t)"
    and "length (responseData t) < 2 ^ 63"
  defines "s0 \<equiv> s\<lparr>performedTasksQueue := performedTasksQueue s\<lparr>queue := ts\<rparr>\<rparr>"
  shows "\<exists>s'. deliver_task env t s0 = Inr s' \<and> srv_inv s' \<and> performedTasksQueue s' = performedTasksQueue s0 \<and>
     (if timePoint t \<noteq> aliveSockets s ! nat (task_fd t) then s' = s0
      else \<exists>b'. pendingOutput b' = snd (written env (conf s) (responseData t)) \<and>
        (if ctl_ok env (task_fd t) For_output
         then s' = set_interest (task_fd t) For_output (set_buffer (task_fd t) (Some b') s0)
         else closeAllSocketsAndClearData env (task_fd t) (set_buffer (task_fd t) (Some b') s0) = Inr s'))"
proof -
  note pop = pop_performed [OF assms(1,2), folded s0_def]
  have alive: "aliveSockets s0 = aliveSockets s" "conf s0 = conf s" by (simp_all add: s0_def)
  have rng: "in_range (task_fd t) (aliveSockets s0)" "task_request t \<noteq> None"
    using pop(1,2) by (simp_all add: task_ok_def srv_inv_def arrays_ok_def in_range_def)
  show ?thesis
  proof (cases "timePoint t = aliveSockets s ! nat (task_fd t)")
    case False
    with rng pop(1) show ?thesis by (simp add: deliver_task_def alive)
  next
    case True
    from current_ticket [OF assms(1,2) True] obtain b r where rd: "reading s0 (task_fd t) b r"
      unfolding s0_def by blast
    have but: "inv_but (task_fd t) s0" using pop(1) rd by (simp add: srv_inv_but reading_def)
    have queue: "performedTasksQueue (set_interest fd i (set_buffer fd x s0)) = performedTasksQueue s0"
      "closeAllSocketsAndClearData env fd (set_buffer fd x s0) = Inr s' \<Longrightarrow> performedTasksQueue s' = performedTasksQueue s0"
      for fd i x and s' :: "('w, 're) HttpServer"
      by (auto simp: set_defs closeAllSocketsAndClearData_def split: if_splits)
    from but assms(3) [folded s0_def] rd assms(4) show ?thesis
    proof (cases rule: write_reading)
      case (ok b')
      with True rng queue(1) show ?thesis by (auto simp: deliver_task_def alive)
    next
      case (failed b' s')
      with True rng queue(2) [OF failed(4)] alive show ?thesis
        by (auto simp: deliver_task_def intro!: exI [of _ s'] exI [of _ b'])
    qed
  qed
qed

text \<open>The delivery of all tasks; the clock is asked about the state each one meets.\<close>

primrec deliveries_ok :: "(nat \<Rightarrow> srv_env) \<Rightarrow> nat \<Rightarrow> ('w, 're) HttpServer \<Rightarrow> bool" where
  "deliveries_ok env 0 s = True"
| "deliveries_ok env (Suc n) s =
     (case queue (performedTasksQueue s) of
        [] \<Rightarrow> True
      | t # ts \<Rightarrow>
          let s0 = s\<lparr>performedTasksQueue := performedTasksQueue s\<lparr>queue := ts\<rparr>\<rparr>
          in clock_ok (env n) s0 (task_fd t) \<and> length (responseData t) \<le> string_max_size \<and>
             (case deliver_task (env n) t s0 of Inr s1 \<Rightarrow> deliveries_ok env n s1 | Inl _ \<Rightarrow> True))"

definition performed_ok :: "(nat \<Rightarrow> srv_env) \<Rightarrow> ('w, 're) HttpServer \<Rightarrow> bool" where
  "performed_ok env s = deliveries_ok env (queue_size (performedTasksQueue s)) s"

lemma performed_loop_inv:
  assumes "srv_inv s" "queue_size (performedTasksQueue s) = n" "deliveries_ok env n s"
  shows "\<exists>s'. performed_loop env n s = Inr s' \<and> srv_inv s' \<and> queue_empty (performedTasksQueue s')"
  using assms
proof (induction n arbitrary: s)
  case 0
  then show ?case by (simp add: queue_size_def queue_empty_def)
next
  case (Suc n)
  then obtain t ts where q: "queue (performedTasksQueue s) = t # ts" "length ts = n"
    by (auto simp: queue_size_def length_Suc_conv)
  let ?s0 = "s\<lparr>performedTasksQueue := performedTasksQueue s\<lparr>queue := ts\<rparr>\<rparr>"
  have ok: "clock_ok (env n) ?s0 (task_fd t)" "length (responseData t) < 2 ^ 63"
    using Suc.prems(3) q(1) by (simp_all add: Let_def string_max_size_def)
  from deliver_task_result [OF Suc.prems(1) q(1) ok] obtain s1 where
    s1: "deliver_task (env n) t ?s0 = Inr s1" "srv_inv s1" "performedTasksQueue s1 = performedTasksQueue ?s0" by blast
  moreover have "deliveries_ok env n s1" using Suc.prems(3) q(1) s1(1) by (simp add: Let_def)
  ultimately obtain s' where
    "performed_loop env n s1 = Inr s'" "srv_inv s'" "queue_empty (performedTasksQueue s')"
    using Suc.IH [of s1] q by (auto simp: queue_size_def)
  with s1(1) q(1) show ?case by (simp add: try_pop_def queue_empty_def)
qed

subsection \<open>Expired connections\<close>

definition expired :: "nat \<Rightarrow> ('w, 're) HttpServer \<Rightarrow> nat \<Rightarrow> bool" where
  "expired now s i \<longleftrightarrow> elapsed_seconds now (aliveSockets s ! i) > timeLimitRequestSeconds (conf s)"

text \<open>
  The page for 408 is written over the pending output, at its read position, and counted as further bytes to send;
  the size test of the code does not count the pending ones. \<open>page_fits\<close> says of one slot that the output buffer
  is as long as both together.
\<close>

definition page_fits :: "srv_env \<Rightarrow> nat \<Rightarrow> ('w, 're) HttpServer \<Rightarrow> nat \<Rightarrow> bool" where
  "page_fits env now s i =
     (case (requests s ! i, buffers s ! i, reply_text env (ResponseBase_move Response408)) of
        (Some r, Some b, Inr str) \<Rightarrow> expired now s i \<and> fullUri r \<noteq> [] \<longrightarrow> output_fits (conf s) b (length str)
      | _ \<Rightarrow> True)"

definition sweep_ok :: "srv_env \<Rightarrow> nat \<Rightarrow> ('w, 're) HttpServer \<Rightarrow> bool" where
  "sweep_ok env now s \<longleftrightarrow>
     list_all (\<lambda>i. clock_ok env s (int i) \<and> page_fits env now s i)
       (sweep_window (unat (maxConnection (conf s))) (counter_check_limit_time_request s))"

text \<open>When the search is defined: the code uses the request after a write that closed the connection.\<close>

definition sweep_safe :: "srv_env \<Rightarrow> ('w, 're) HttpServer \<Rightarrow> bool" where
  "sweep_safe env s \<longleftrightarrow>
     list_all (\<lambda>i. ctl_ok env (int i) For_output)
       (sweep_window (unat (maxConnection (conf s))) (counter_check_limit_time_request s))"

definition only_slot :: "nat \<Rightarrow> ('w, 're) HttpServer \<Rightarrow> ('w, 're) HttpServer \<Rightarrow> bool" where
  "only_slot i s s' \<longleftrightarrow> conf s' = conf s \<and> listen_fd s' = listen_fd s \<and> tasks s' = tasks s \<and>
     (\<forall>j. j \<noteq> i \<longrightarrow> aliveSockets s' ! j = aliveSockets s ! j \<and> buffers s' ! j = buffers s ! j \<and>
        requests s' ! j = requests s ! j)"

lemma only_slot_closeAll:
  "closeAllSocketsAndClearData env (int i) s = Inr s' \<Longrightarrow> only_slot i s s'"
  by (auto simp: closeAllSocketsAndClearData_def only_slot_def split: if_splits)

text \<open>A connection whose request header is complete is sent the page for 408.\<close>

lemma timeout_page_inv:
  assumes "srv_inv s" "in_range (int i) (buffers s)" "clock_ok env s (int i)" "page_fits env now s i"
    and "requests s ! i = Some r" "req_fd r = int i" "fullUri r \<noteq> []" "expired now s i"
    and "buffers s ! i = Some b" "buf_ok (conf s) b" "int i \<noteq> listen_fd s"
  obtains (ok) s' where "check_limit env now i s = Inr s'" "srv_inv s'" "only_slot i s s'"
  | (failed) "\<not> ctl_ok env (int i) For_output" "check_limit env now i s = Inl Undefined"
proof -
  have but: "inv_but (int i) s" using assms(1,2) by (rule srv_inv_but)
  note rngs = inv_but_ranges [OF but]
  obtain str where str: "reply_text env (ResponseBase_move Response408) = Inr str" "length str < 2 ^ 63"
    using reply_text_eq [of env "ResponseBase_move Response408"] resp_body_pages(2) by fastforce
  have "conf_ok (conf s)" using but by (simp add: inv_but_def arrays_ok_def)
  moreover have "deref (buffers s) (int i) = Inr b" using assms(2,9) by (simp add: deref_Inr)
  moreover have "output_fits (conf s) b (length str)" using assms(4,5,7-9) str(1) by (simp add: page_fits_def)
  ultimately obtain b' code where w: "buf_ok (conf s) b'" "writeToOutputBuffer env (int i) str s =
      (if ctl_ok env (int i) For_output then Inr (code, set_interest (int i) For_output (set_buffer (int i) (Some b') s))
       else bind_res (closeAllSocketsAndClearData env (int i) (set_buffer (int i) (Some b') s)) (\<lambda>s2. Inr (- 1, s2)))"
    using assms(10) str(2) write_fits [of s "int i" b str env] by metis
  show thesis
  proof (cases "ctl_ok env (int i) For_output")
    case True
    let ?s1 = "set_interest (int i) For_output (set_buffer (int i) (Some b') s)"
    let ?s2 = "set_request (int i) (Some (r\<lparr>closingConnect := True\<rparr>)) ?s1"
    let ?s3 = "set_alive env (int i) ?s2"
    have "inv_but (int i) ?s2" using inv_but_interest [of "int i" "set_buffer (int i) (Some b') s"] but by simp
    then have s3: "inv_but (int i) ?s3" "current ?s3 (int i) = 0"
      using inv_but_alive [of "int i" ?s2 env] assms(3) by simp_all
    have "slot_ok ?s3 (int i)"
      using s3(2) assms rngs w(1) in_range_nth_update [of "int i"]
      by (simp add: slot_ok_def slot_fine_def phase_ok_def in_range_def)
    then have "srv_inv ?s3" using s3(1) assms(2) by (simp add: srv_inv_iff [of "int i"])
    moreover have "deref (requests ?s1) (int i) = Inr r" using assms(5) rngs by (simp add: deref_Inr)
    then have "check_limit env now i s = Inr ?s3"
      using True assms str w(2) rngs by (simp add: check_limit_def expired_def Let_def)
    ultimately show thesis by (intro ok [of ?s3]) (simp_all add: only_slot_def)
  next
    case False
    have "inv_but (int i) (set_buffer (int i) (Some b') s)" "clock_ok env (set_buffer (int i) (Some b') s) (int i)"
      using but assms(3) by simp_all
    from closeAll_inv [OF this] obtain s' where
      "closeAllSocketsAndClearData env (int i) (set_buffer (int i) (Some b') s) = Inr s'" "requests s' ! i = None"
      by (metis nat_int)
    then have "check_limit env now i s = Inl Undefined"
      using False assms(5-8) str(1) w(2) by (simp add: check_limit_def expired_def deref_def)
    with False show thesis by (rule failed)
  qed
qed

lemma check_limit_inv:
  assumes "srv_inv s" "i < length (buffers s)" "clock_ok env s (int i)" "page_fits env now s i"
  obtains (ok) s' where "check_limit env now i s = Inr s'" "srv_inv s'" "only_slot i s s'"
    "\<And>r. requests s ! i = Some r \<Longrightarrow> expired now s i \<Longrightarrow> fullUri r = [] \<Longrightarrow> requests s' ! i = None"
  | (failed) "\<not> ctl_ok env (int i) For_output" "check_limit env now i s = Inl Undefined"
proof -
  have rng: "in_range (int i) (buffers s)" using assms(2) by (simp add: in_range_def)
  have but: "inv_but (int i) s" using assms(1) rng by (rule srv_inv_but)
  have slot: "slot_ok s (int i)" using assms(1) rng by (simp add: srv_inv_def)
  show thesis
  proof (cases "requests s ! i")
    case None
    then show thesis using assms(1) by (intro ok [of s]) (simp_all add: check_limit_def only_slot_def)
  next
    case (Some r)
    with slot obtain b where b: "buffers s ! i = Some b" "req_fd r = int i" "buf_ok (conf s) b"
      "int i \<noteq> listen_fd s" by (auto simp: slot_ok_def slot_fine_def split: option.splits)
    consider (young) "\<not> expired now s i" | (silent) "expired now s i" "fullUri r = []"
      | (late) "expired now s i" "fullUri r \<noteq> []" by blast
    then show thesis
    proof cases
      case young
      with Some show thesis using assms(1)
        by (intro ok [of s]) (simp_all add: check_limit_def expired_def only_slot_def)
    next
      case silent
      from closeAll_inv [OF but assms(3)] obtain s' where
        "closeAllSocketsAndClearData env (int i) s = Inr s'" "srv_inv s'" "requests s' ! i = None"
        by auto
      with silent Some b show thesis
        by (intro ok [of s']) (auto simp: check_limit_def expired_def only_slot_closeAll)
    next
      case late
      from assms(1) rng assms(3,4) Some b(2) late(2,1) b(1,3,4) show thesis
      proof (cases rule: timeout_page_inv)
        case (ok s')
        with late Some show thesis by (intro that(1)) simp_all
      qed (rule that(2))
    qed
  qed
qed

text \<open>The slots of the search are looked at one after the other and do not touch each other.\<close>

lemma only_slot_other:
  assumes "only_slot i s s'" "j \<noteq> i"
  shows "requests s' ! j = requests s ! j" "expired now s' j = expired now s j"
    "clock_ok env s' (int j) = clock_ok env s (int j)" "page_fits env now s' j = page_fits env now s j"
  using assms by (auto simp: only_slot_def expired_def clock_ok_def current_def tickets_def page_fits_def
      split: option.split sum.split)

lemma check_limits_inv:
  assumes "srv_inv s" "distinct is"
    and "\<forall>i \<in> set is. i < length (buffers s) \<and> clock_ok env s (int i) \<and> page_fits env now s i"
  shows "(check_limits env now is s = Inl Undefined \<and> (\<exists>i \<in> set is. \<not> ctl_ok env (int i) For_output)) \<or>
     (\<exists>s'. check_limits env now is s = Inr s' \<and> srv_inv s' \<and> conf s' = conf s \<and>
     (\<forall>i r. i \<in> set is \<and> requests s ! i = Some r \<and> expired now s i \<and> fullUri r = [] \<longrightarrow> requests s' ! i = None) \<and>
     (\<forall>i. i \<notin> set is \<longrightarrow> requests s' ! i = requests s ! i))"
  using assms
proof (induction "is" arbitrary: s)
  case (Cons i "is")
  then have "i < length (buffers s)" "clock_ok env s (int i)" "page_fits env now s i" by simp_all
  with Cons.prems(1) show ?case
  proof (cases rule: check_limit_inv)
    case (ok s1)
    note same = only_slot_other [OF ok(3)]
    have conf: "conf s1 = conf s" using ok(3) by (simp add: only_slot_def)
    have len: "length (buffers s1) = length (buffers s)"
      using ok(2) conf Cons.prems(1) by (simp add: srv_inv_def arrays_ok_def)
    have "\<forall>j \<in> set is. j < length (buffers s1) \<and> clock_ok env s1 (int j) \<and> page_fits env now s1 j"
      using Cons.prems(2,3) len same(3,4) by (metis distinct.simps(2) list.set_intros(2))
    with Cons.IH [OF ok(2)] Cons.prems(2) consider
      (undef) "check_limits env now is s1 = Inl Undefined" "\<exists>j \<in> set is. \<not> ctl_ok env (int j) For_output"
      | (swept) s' where "check_limits env now is s1 = Inr s'" "srv_inv s'" "conf s' = conf s1"
      "\<forall>j r. j \<in> set is \<and> requests s1 ! j = Some r \<and> expired now s1 j \<and> fullUri r = [] \<longrightarrow> requests s' ! j = None"
      "\<forall>j. j \<notin> set is \<longrightarrow> requests s' ! j = requests s1 ! j" by auto
    then show ?thesis
    proof cases
      case undef
      with ok(1) show ?thesis by auto
    next
      case (swept s')
      have "requests s' ! i = requests s1 ! i" using swept(5) Cons.prems(2) by simp
      with ok(4) have "requests s' ! j = None"
        if "j \<in> set (i # is)" "requests s ! j = Some r" "expired now s j" "fullUri r = []" for j r
        using that swept(4) same by (cases "j = i") auto
      then show ?thesis using ok(1) swept same conf by auto
    qed
  next
    case failed
    then show ?thesis by auto
  qed
qed simp

lemma srv_inv_counter [simp]: "srv_inv (s\<lparr>counter_check_limit_time_request := c\<rparr>) = srv_inv s"
  by (simp add: srv_inv_def arrays_ok_def task_ok_def slot_ok_def current_def tickets_def tasks_def)

lemma sweep_inv:
  assumes "srv_inv s" "sweep_ok env now s"
  shows "(sweep env now s = Inl Undefined \<and> \<not> sweep_safe env s) \<or>
     (\<exists>s'. sweep env now s = Inr s' \<and> srv_inv s' \<and> conf s' = conf s \<and>
     counter_check_limit_time_request s' =
       sweep_next (unat (maxConnection (conf s))) (counter_check_limit_time_request s) \<and>
     (\<forall>i r. i \<in> set (sweep_window (unat (maxConnection (conf s))) (counter_check_limit_time_request s)) \<and>
        requests s ! i = Some r \<and> expired now s i \<and> fullUri r = [] \<longrightarrow> requests s' ! i = None))"
proof -
  let ?w = "sweep_window (unat (maxConnection (conf s))) (counter_check_limit_time_request s)"
  have m: "unat (maxConnection (conf s)) = length (buffers s)" "unat (maxConnection (conf s)) \<noteq> 0"
    using assms(1) by (simp_all add: srv_inv_def arrays_ok_def conf_ok_def)
  have "\<forall>i \<in> set ?w. i < length (buffers s) \<and> clock_ok env s (int i) \<and> page_fits env now s i"
    using assms(2) m(1) by (auto simp: sweep_ok_def list_all_iff sweep_window_def)
  from check_limits_inv [OF assms(1) _ this] consider
    (undef) "check_limits env now ?w s = Inl Undefined" "\<exists>i \<in> set ?w. \<not> ctl_ok env (int i) For_output"
    | (swept) s1 where "check_limits env now ?w s = Inr s1" "srv_inv s1" "conf s1 = conf s"
    "\<forall>i r. i \<in> set ?w \<and> requests s ! i = Some r \<and> expired now s i \<and> fullUri r = [] \<longrightarrow> requests s1 ! i = None"
    by (auto simp: sweep_window_def)
  then show ?thesis
  proof cases
    case undef
    then have "\<not> sweep_safe env s" by (auto simp: sweep_safe_def list_all_iff)
    with undef m(2) show ?thesis by (simp add: sweep_def Let_def)
  next
    case (swept s1)
    then show ?thesis using m(2) by (simp add: sweep_def Let_def)
  qed
qed

subsection \<open>Workers\<close>

lemma map_filter_update:
  assumes "i < length xs"
  shows "mset (List.map_filter (\<lambda>t. t) (xs[i := v])) + mset (List.map_filter (\<lambda>t. t) [xs ! i]) =
      mset (List.map_filter (\<lambda>t. t) xs) + mset (List.map_filter (\<lambda>t. t) [v])"
proof -
  let ?f = "\<lambda>ys. mset (List.map_filter (\<lambda>t. t) ys)"
  have app: "?f (ys @ zs) = ?f ys + ?f zs" for ys zs :: "'a option list" by (simp add: List.map_filter_def)
  have old: "xs = take i xs @ [xs ! i] @ drop (Suc i) xs" using id_take_nth_drop [OF assms] by simp
  have new: "xs[i := v] = take i xs @ [v] @ drop (Suc i) xs" using upd_conv_take_nth_drop [OF assms] by simp
  have "?f xs = ?f (take i xs) + (?f [xs ! i] + ?f (drop (Suc i) xs))"
    using arg_cong [OF old, of ?f] by (simp only: app)
  moreover have "?f (xs[i := v]) = ?f (take i xs) + (?f [v] + ?f (drop (Suc i) xs))"
    using arg_cong [OF new, of ?f] by (simp only: app)
  ultimately show ?thesis by (simp add: ac_simps)
qed

lemma map_filter_one [simp]:
  "List.map_filter (\<lambda>t. t) [None] = []" "List.map_filter (\<lambda>t. t) [Some x] = [x]"
  by (simp_all add: List.map_filter_def)

text \<open>A worker's steps move a task; its ticket and its request stay.\<close>

lemma worker_take_tasks: "worker_take i s = Some s' \<Longrightarrow> tasks s' = tasks s"
  using map_filter_update [of i "working s"]
  by (auto simp: worker_take_def wait_and_pop_def tasks_def split: if_splits list.splits)

lemma worker_take_inv:
  assumes "srv_inv s" "worker_take i s = Some s'"
  shows "srv_inv s'"
proof -
  have "conf s' = conf s" "listen_fd s' = listen_fd s" "buffers s' = buffers s" "requests s' = requests s"
    "aliveSockets s' = aliveSockets s" "epoll s' = epoll s"
    using assms(2) by (auto simp: worker_take_def split: if_splits)
  with assms(1) worker_take_tasks [OF assms(2)] show ?thesis
    by (simp add: srv_inv_def arrays_ok_def task_ok_def slot_ok_def current_def tickets_def)
qed

lemma work_ticket:
  "work env srt gz flag t w = Some (Inr (t1, w1)) \<Longrightarrow>
   task_fd t1 = task_fd t \<and> timePoint t1 = timePoint t \<and> task_request t1 = task_request t"
  by (auto simp: work_def Let_def split: if_splits option.splits sum.splits prod.splits)

lemma worker_finish_inv:
  assumes "srv_inv s" "worker_finish env srt gz i s = Some (Inr s')"
  shows "srv_inv s'"
proof -
  from assms(2) obtain t t1 w1 where i: "i < length (working s)" "working s ! i = Some t"
    and w: "work env srt gz (compress_flag s) t (world s) = Some (Inr (t1, w1))"
    and s': "s' = s\<lparr>performedTasksQueue := queue_push t1 (performedTasksQueue s),
        working := (working s)[i := None], world := w1\<rparr>"
    by (auto simp: worker_finish_def split: if_splits option.splits sum.splits)
  define rest where "rest = mset (queue (tasksQueue s)) + mset (queue (staticTasksQueue s)) +
    mset (queue (performedTasksQueue s)) + mset (List.map_filter (\<lambda>t. t) ((working s)[i := None]))"
  have old: "tasks s = add_mset t rest"
    using map_filter_update [OF i(1), of None] i(2) by (simp add: tasks_def rest_def)
  have new: "tasks s' = add_mset t1 rest"
    by (simp add: tasks_def rest_def s' queue_push_def)
  have frame: "conf s' = conf s" "listen_fd s' = listen_fd s" "buffers s' = buffers s" "requests s' = requests s"
    "aliveSockets s' = aliveSockets s" "epoll s' = epoll s"
    by (simp_all add: s')
  have "tickets s' = tickets s" using work_ticket [OF w] by (simp add: tickets_def old new)
  moreover have "\<forall>u \<in># tasks s'. task_ok s' u"
    using assms(1) work_ticket [OF w] by (auto simp: srv_inv_def old new task_ok_def frame)
  ultimately show ?thesis
    using assms(1) by (simp add: srv_inv_def arrays_ok_def slot_ok_def current_def frame)
qed

end
