(* ===== verification/Server_Props.thy ===== *)
theory Server_Props
  imports Server_Steps
begin

text \<open>
  The properties of the server: the step relation of the event loop and the workers, the reachable
  states and what holds in them, and where the code leaves the defined behaviour.
\<close>

subsection \<open>Steps\<close>

text \<open>
  The threads interleave freely: the event loop searches for expired connections, delivers one
  performed task or handles one event; a worker takes a task or finishes one.
\<close>

inductive server_step ::
  "('re \<Rightarrow> bytes \<Rightarrow> bool) \<Rightarrow> ('w, 're) HttpServer \<Rightarrow> ('w, 're) HttpServer \<Rightarrow> bool" for regexec where
  step_sweep: "sweep_ok env now (count_tasks s) \<Longrightarrow> sweep env now (count_tasks s) = Inr s' \<Longrightarrow>
    server_step regexec s s'"
| step_deliver: "queue (performedTasksQueue s) = t # ts \<Longrightarrow>
    clock_ok env (s\<lparr>performedTasksQueue := performedTasksQueue s\<lparr>queue := ts\<rparr>\<rparr>) (task_fd t) \<Longrightarrow>
    length (responseData t) \<le> string_max_size \<Longrightarrow>
    deliver_task env t (s\<lparr>performedTasksQueue := performedTasksQueue s\<lparr>queue := ts\<rparr>\<rparr>) = Inr s' \<Longrightarrow>
    server_step regexec s s'"
| step_event: "event_ok ev e s \<Longrightarrow> handle_event regexec ev e s = Inr s' \<Longrightarrow> server_step regexec s s'"
| step_take: "worker_take i s = Some s' \<Longrightarrow> server_step regexec s s'"
| step_finish: "worker_finish env srt gz i s = Some (Inr s') \<Longrightarrow> server_step regexec s s'"

inductive reachable ::
  "('re \<Rightarrow> bytes \<Rightarrow> bool) \<Rightarrow> ('w, 're) HttpServer \<Rightarrow> bool" for regexec where
  reach_start: "conf_ok cfg \<Longrightarrow> reachable regexec ((HttpServer_new cfg fd now w)\<lparr>routes := rs\<rparr>)"
| reach_step: "reachable regexec s \<Longrightarrow> server_step regexec s s' \<Longrightarrow> reachable regexec s'"

inductive_cases server_stepE: "server_step regexec s s'"

lemma srv_inv_start: "conf_ok cfg \<Longrightarrow> srv_inv ((HttpServer_new cfg fd now w)\<lparr>routes := rs\<rparr>)"
proof -
  have none: "List.map_filter (\<lambda>t. t) (replicate k None) = []" for k
    by (simp add: List.map_filter_def filter_False)
  assume "conf_ok cfg"
  then show ?thesis
    by (auto simp: srv_inv_def arrays_ok_def slot_ok_def slot_fine_def current_def tickets_def tasks_def
        HttpServer_new_def Let_def queue_new_def none in_range_def)
qed

lemma srv_inv_count_tasks [simp]: "srv_inv (count_tasks s) = srv_inv s"
  by (simp add: count_tasks_def)

lemma server_step_inv:
  assumes "server_step regexec s s'" "srv_inv s"
  shows "srv_inv s'"
  using assms
proof (cases rule: server_step.cases)
  case (step_sweep env now)
  with assms(2) sweep_inv [of "count_tasks s" env now] show ?thesis by fastforce
next
  case (step_deliver t ts env)
  with assms(2) deliver_task_result [of s t ts env] show ?thesis by (auto simp: string_max_size_def)
next
  case (step_event ev e)
  with handle_event_keeps [OF assms(2), of ev e regexec] show ?thesis by simp
qed (use assms(2) in \<open>auto intro: worker_take_inv worker_finish_inv\<close>)

lemma reachable_srv_inv: "reachable regexec s \<Longrightarrow> srv_inv s"
  by (induction rule: reachable.induct) (auto intro: srv_inv_start server_step_inv)

subsection \<open>A sample server\<close>

definition sample_conf :: config where
  "sample_conf = (default_config 4)\<lparr>maxConnection := 10, maxInputBufferLength := 100,
     maxOutputBufferLength' := 8192\<rparr>"

definition sample_server :: "(unit, bytes) HttpServer" where
  "sample_server = (HttpServer_new sample_conf 3 0 ())\<lparr>routes := []\<rparr>"

definition env_after :: "nat \<Rightarrow> srv_env" where
  "env_after t = \<lparr>clock = \<lambda>_. t, ctl_ok = \<lambda>_ _. True, page_env = sample_env, logo_404 = []\<rparr>"

definition sample_accept :: accept_env where
  "sample_accept = \<lparr>conn_sock = 5, nonblocking_ok = True, new_buffer = True,
     new_input = Some (replicate 100 CHR 0x00), new_output = Some (replicate 8192 CHR 0x00),
     new_request = True, stale_fd = 0, stale_max = 0\<rparr>"

definition sample_event :: "int \<Rightarrow> event" where
  "sample_event fd = \<lparr>event_fd = fd, event_err = False, event_in = True, event_out = False\<rparr>"

definition sample_event_env :: "nat \<Rightarrow> bytes \<Rightarrow> event_env" where
  "sample_event_env t data = \<lparr>ev_srv = env_after t, ev_accept = sample_accept,
     ev_read = \<lparr>received = Recv_data data, params_alloc = True, copy_alloc = True, task_alloc = True,
                task_garbage = (0, LOCAL_TASK, 0)\<rparr>,
     ev_send = Send_error\<rparr>"

definition sample_connected :: "(unit, bytes) HttpServer" where
  "sample_connected =
     set_request 5 (Some (the (requestFactory True 0 0)\<lparr>req_fd := 5, maxOutputBufferLength := 8192\<rparr>))
       (set_buffer 5 (bufferFactory True (Some (replicate 100 CHR 0x00)) (Some (replicate 8192 CHR 0x00)) 100 8192)
         (set_alive (env_after 7) 5 (set_interest 5 For_input sample_server)))"

lemmas sample_defs = sample_conf_def sample_server_def env_after_def sample_accept_def sample_event_def
  sample_event_env_def HttpServer_new_def default_config_def

lemma sample_conf_ok: "conf_ok sample_conf"
  by (simp add: conf_ok_def sample_conf_def default_config_def)

lemma sample_server_fields:
  "conf sample_server = sample_conf" "listen_fd sample_server = 3"
  "buffers sample_server = replicate 10 None" "requests sample_server = replicate 10 None"
  "aliveSockets sample_server = replicate 10 0" "epoll sample_server = [3 \<mapsto> For_input]"
  "counter_check_limit_time_request sample_server = 0"
  "queue (performedTasksQueue sample_server) = []"
  by (simp_all add: sample_defs Let_def queue_new_def)

lemma sample_accept_step: "handle_event regexec (sample_event 3) (sample_event_env 7 d) sample_server = Inr sample_connected"
proof -
  have "max_descriptor sample_server = 9"
    by (simp add: max_descriptor_def sample_server_fields sample_conf_def default_config_def int32_def)
  then show ?thesis
    by (simp add: handle_event_def sample_event_def sample_event_env_def sample_server_fields
        accept_connection_def sample_accept_def Let_def in_range_def sample_conf_def default_config_def
        bufferFactory_def requestFactory_def sample_connected_def env_after_def)
qed

lemma later_env_ok:
  assumes "list_all (\<lambda>x. x < t) (aliveSockets s)"
  shows "env_ok (env_after t) s"
  using assms by (simp add: env_ok_def clock_ok_def env_after_def list_all_iff order.strict_implies_order)

lemma sample_event_ok: "event_ok (sample_event 3) (sample_event_env 7 []) sample_server"
  by (simp add: later_env_ok list_all_length event_ok_def sample_event_def sample_event_env_def sample_server_fields
      recv_ok_def send_ok_def accept_ok_def sample_accept_def sample_conf_def default_config_def)

lemma sample_connected_reachable: "reachable regexec sample_connected"
proof -
  have "reachable regexec sample_server"
    unfolding sample_server_def by (rule reach_start [OF sample_conf_ok])
  moreover have "server_step regexec sample_server sample_connected"
    by (rule step_event [OF sample_event_ok sample_accept_step])
  ultimately show ?thesis by (rule reach_step)
qed

definition sample_done :: "unit Task" where
  "sample_done = \<lparr>task_fd = 5, task_request = Some (the (requestFactory True 5 0)), task_handler = None,
     task_type = LOCAL_TASK, responseData = ''answer'', timePoint = 7, task_code = 200\<rparr>"

definition sample_performed :: "(unit, bytes) HttpServer" where
  "sample_performed = (set_interest 5 For_errors sample_connected)
     \<lparr>performedTasksQueue := \<lparr>queue = [sample_done]\<rparr>\<rparr>"

lemma srv_inv_same_tasks:
  assumes "srv_inv s" "tasks s' = tasks s" "conf s' = conf s" "listen_fd s' = listen_fd s"
    and "buffers s' = buffers s" "requests s' = requests s" "aliveSockets s' = aliveSockets s" "epoll s' = epoll s"
  shows "srv_inv s'"
  using assms by (simp add: srv_inv_def arrays_ok_def task_ok_def slot_ok_def current_def tickets_def)

lemma sample_connected_fields:
  "conf sample_connected = sample_conf" "listen_fd sample_connected = 3"
  "length (buffers sample_connected) = 10" "aliveSockets sample_connected = (replicate 10 0)[5 := 7]"
  "epoll sample_connected = [3 \<mapsto> For_input, 5 \<mapsto> For_input]"
  "queue (performedTasksQueue sample_connected) = []" "queue (tasksQueue sample_connected) = []"
  "queue (staticTasksQueue sample_connected) = []"
  "performedTasksQueue sample_connected = queue_new" "tasksQueue sample_connected = queue_new"
  by (simp_all add: sample_connected_def sample_server_fields env_after_def)
    (simp_all add: set_defs sample_defs Let_def queue_new_def)

lemma sample_performed_inv: "srv_inv sample_performed"
proof -
  have inv: "srv_inv sample_connected" by (rule reachable_srv_inv [OF sample_connected_reachable])
  obtain b r where rd: "reading sample_connected 5 b r"
    by (rule reading_For_input [OF inv, of 5]) (simp_all add: sample_connected_fields)
  let ?s = "set_interest 5 For_errors sample_connected"
  have but: "inv_but 5 sample_connected" using inv rd by (simp add: srv_inv_but reading_def)
  have rd': "reading ?s 5 b r" using rd by (rule reading_setters)
  then have "slot_ok ?s 5" by (simp add: slot_ok_def slot_fine_def phase_ok_def reading_def)
  then have "srv_inv ?s" using inv_but_interest [OF but] rd by (simp add: srv_inv_iff [of 5] reading_def)
  then have add: "srv_inv (addTask sample_done ?s)"
    by (rule addTask_inv [OF _ rd']) (simp_all add: sample_done_def sample_connected_fields)
  have "tasks sample_performed = tasks (addTask sample_done ?s)"
    by (simp add: tasks_def sample_performed_def addTask_def sample_done_def queue_push_def
        set_interest_def sample_connected_fields queue_new_def)
  with add show ?thesis
    by (rule srv_inv_same_tasks) (simp_all add: sample_performed_def addTask_def)
qed

text \<open>Two states of the sample server: waiting for a body, and in the middle of a long response.\<close>

definition sample_waiting :: "(unit, bytes) HttpServer" where
  "sample_waiting = set_request 5 (Some (the (requests sample_connected ! 5)
     \<lparr>fullUri := ''/'', headerAccept := True, bodyExists := True\<rparr>)) sample_connected"

definition sample_long :: "(unit, bytes) HttpServer" where
  "sample_long = set_request 5 (Some (the (requests sample_connected ! 5)\<lparr>fullUri := ''/'', headerAccept := True\<rparr>))
     (set_interest 5 For_output (set_buffer 5 (Some (the (buffers sample_connected ! 5)\<lparr>numberBytesToSend := 8192\<rparr>))
       sample_connected))"

lemma sample_slots:
  "buffers sample_waiting ! 5 = bufferFactory True (Some (replicate 100 CHR 0x00)) (Some (replicate 8192 CHR 0x00)) 100 8192"
  "buffers sample_long ! 5 = Some (the (bufferFactory True (Some (replicate 100 CHR 0x00)) (Some (replicate 8192 CHR 0x00)) 100 8192)
     \<lparr>numberBytesToSend := 8192\<rparr>)"
  "requests sample_waiting ! 5 = Some (the (requestFactory True 0 0)\<lparr>req_fd := 5, maxOutputBufferLength := 8192,
     fullUri := ''/'', headerAccept := True, bodyExists := True\<rparr>)"
  "requests sample_long ! 5 = Some (the (requestFactory True 0 0)\<lparr>req_fd := 5, maxOutputBufferLength := 8192,
     fullUri := ''/'', headerAccept := True\<rparr>)"
  by (simp_all add: sample_waiting_def sample_long_def sample_connected_def sample_server_fields requestFactory_def)

lemma sample_timeouts_inv: "srv_inv sample_waiting" "srv_inv sample_long"
proof -
  have inv: "srv_inv sample_connected" by (rule reachable_srv_inv [OF sample_connected_reachable])
  obtain b r where rd: "reading sample_connected 5 b r"
    by (rule reading_For_input [OF inv, of 5]) (simp_all add: sample_connected_fields)
  have but: "inv_but 5 sample_connected" using inv rd by (simp add: srv_inv_but reading_def)
  have rng: "5 < length (requests sample_connected)" "5 < length (buffers sample_connected)"
    using inv_but_ranges [OF but] by (simp_all add: in_range_def)
  show "srv_inv sample_waiting"
    unfolding sample_waiting_def using rd by (intro srv_inv_request inv) (auto simp: reading_def)
  have "buf_ok sample_conf (b\<lparr>numberBytesToSend := 8192\<rparr>)"
    using rd by (auto simp: reading_def buf_ok_def buffer_wf_def buf_idle_def sample_connected_fields sample_conf_def)
  then show "srv_inv sample_long"
    using inv_but_interest [of 5 "set_buffer 5 (Some (b\<lparr>numberBytesToSend := 8192\<rparr>)) sample_connected" For_output] but rd rng
    by (simp add: sample_long_def srv_inv_iff [of 5] slot_ok_def slot_fine_def phase_ok_def reading_def
        sample_connected_fields)
qed

text \<open>
  On the sample server with an idle connection in slot 5 the search is defined at any later time; \<open>sample_busy\<close> has a
  performed task for a request whose header is complete.
\<close>

lemma page_fits_idle:
  assumes "\<And>b. buffers s ! i = Some b \<Longrightarrow> buf_idle b"
  shows "page_fits env now s i"
  using assms by (auto simp: page_fits_def output_fits_def buf_idle_def split: option.split sum.split)

lemma sample_sweep_ok:
  assumes "conf s = sample_conf" "counter_check_limit_time_request s = 0"
    and "list_all (\<lambda>x. x < t) (aliveSockets s)" "length (aliveSockets s) = 10"
    and "\<And>i b. i < 10 \<Longrightarrow> buffers s ! i = Some b \<Longrightarrow> buf_idle b"
  shows "sweep_ok (env_after t) now s" "sweep_safe (env_after t) s"
proof -
  have w: "set (sweep_window (unat (maxConnection (conf s))) (counter_check_limit_time_request s)) = {0..<10}"
    by (auto simp: assms(1,2) sweep_window_def sample_conf_def)
  have "clock_ok (env_after t) s (int i)" if "i < 10" for i
    using that assms(3,4) by (simp add: clock_ok_def env_after_def list_all_length order.strict_implies_order)
  then show "sweep_ok (env_after t) now s"
    using assms(5) by (simp add: sweep_ok_def list_all_iff w page_fits_idle)
  show "sweep_safe (env_after t) s" by (simp add: sweep_safe_def env_after_def list_all_iff)
qed

lemma sample_connected_idle:
  assumes "i < 10" "buffers sample_connected ! i = Some b"
  shows "buf_idle b"
  using assms by (cases "i = 5") (auto simp: sample_connected_def sample_server_fields bufferFactory_def buf_idle_def)

lemma sample_stamps: "7 < t \<Longrightarrow> list_all (\<lambda>x. x < t) (aliveSockets sample_connected)"
  by (simp add: sample_connected_fields list_all_length nth_list_update)

lemma sample_counter: "counter_check_limit_time_request sample_connected = 0"
  by (simp add: sample_connected_def set_defs sample_server_fields)

definition sample_busy :: "(unit, bytes) HttpServer" where
  "sample_busy = set_request 5 (Some (the (requests sample_connected ! 5)\<lparr>headerAccept := True\<rparr>)) sample_performed"

lemma sample_busy_inv: "srv_inv sample_busy"
  unfolding sample_busy_def
  by (intro srv_inv_request sample_performed_inv)
    (simp_all add: sample_performed_def in_range_def sample_connected_fields sample_connected_def sample_server_fields)

text \<open>A complete request with a body of three bytes, and where it leads on the sample connection.\<close>

definition sample_post :: phr_request where
  "sample_post = \<lparr>rmethod = ''POST'', path = ''/'', minor_version = 1,
     headers = [\<lparr>name = Some ''Content-Length'', hvalue = ''3''\<rparr>]\<rparr>"

definition sample_message :: bytes where
  "sample_message = render_request sample_post @ ''abc''"

lemma sample_message_parsed:
  "phr_parse_request False (sample_message @ [CHR 0x00]) 100 0 = Parsed (sample_post, 38)" "length sample_message = 41"
proof -
  have "wf_request 100 sample_post" "length (render_request sample_post) = 38" by code_simp+
  then show "phr_parse_request False (sample_message @ [CHR 0x00]) 100 0 = Parsed (sample_post, 38)"
    "length sample_message = 41"
    by (simp_all add: sample_message_def phr_parse_request_def entry_def parse_request_render)
qed

lemma sample_length_fits:
  assumes "req_headers r = Map.empty" "\<not> headerAccept r"
  shows "length_fits alloc sample_post 38 r"
proof -
  have "map tolower ''Content-Length'' = ''content-length''" "atoi ''3'' = 3" by code_simp+
  then have h: "content_length (r\<lparr>req_headers := [''content-length'' \<mapsto> ''3'']\<rparr>) = Inr 3" 
    "map tolower ''Content-Length'' = ''content-length''" for r
    by (simp_all add: content_length_def getHeaderRef_def)
  let ?r = "r\<lparr>headerAccept := True, fullUri := ''/'', req_method := ''POST'', req_headers := [''content-length'' \<mapsto> ''3'']\<rparr>"
  have len: "length (fullUri ?r) < 2 ^ 64" by simp
  from parseParamsRequest_frame [OF len, of alloc] obtain u m where
    p: "parseParamsRequest alloc ?r 1 = Inr (?r\<lparr>uri := u, req_params := m\<rparr>)" by auto
  have c: "content_length (?r\<lparr>uri := u, req_params := m\<rparr>) = Inr 3" "content_length (?r\<lparr>uri := u, req_params := m, bodyExists := True\<rparr>) = Inr 3"
    using h(1) by (simp_all add: content_length_def getHeaderRef_def)
  show ?thesis
    using assms p c h(2) 
    by (simp add: length_fits_def accept_header_def sample_post_def store_header_def addHeader_def Let_def sum_fits_def del: list.map)
qed

lemma sample_input_fits: "input_fits (ev_read (sample_event_env t sample_message)) 5 sample_connected"
proof -
  have m: "take 42 (take 0 (replicate 100 CHR 0x00) @ sample_message @ drop (0 + length sample_message) (replicate 100 CHR 0x00)) = sample_message @ [CHR 0x00]"
    using sample_message_parsed(2) by simp
  let ?r = "the (requestFactory True 0 0)\<lparr>req_fd := 5, maxOutputBufferLength := 8192\<rparr>"
  have "length_fits True sample_post 38 ?r" by (rule sample_length_fits) (simp_all add: requestFactory_def)
  moreover have "int32 38 = 38" by (simp add: int32_id)
  ultimately show ?thesis using m sample_message_parsed
   by (simp add: input_fits_def sample_event_env_def sample_connected_def sample_server_fields bufferFactory_def addDataToInputBuffer_def mem_write_def)
qed

subsection \<open>Iterations as sequences of steps\<close>

text \<open>
  The promises of the kernel over a whole iteration, each about the state it is made in; then, in the same way, the
  conditions under which every part of the iteration is defined.
\<close>

fun events_ok ::
  "('re \<Rightarrow> bytes \<Rightarrow> bool) \<Rightarrow> (event \<times> event_env) list \<Rightarrow> ('w, 're) HttpServer \<Rightarrow> bool" where
  "events_ok regexec [] s = True"
| "events_ok regexec ((ev, e) # evs) s =
     (event_ok ev e s \<and>
      (case handle_event regexec ev e s of Inr s' \<Rightarrow> events_ok regexec evs s' | Inl _ \<Rightarrow> True))"

fun events_safe ::
  "('re \<Rightarrow> bytes \<Rightarrow> bool) \<Rightarrow> (event \<times> event_env) list \<Rightarrow> ('w, 're) HttpServer \<Rightarrow> bool" where
  "events_safe regexec [] s = True"
| "events_safe regexec ((ev, e) # evs) s =
     (event_safe ev e s \<and>
      (case handle_event regexec ev e s of Inr s' \<Rightarrow> events_safe regexec evs s' | Inl _ \<Rightarrow> True))"

definition iteration_ok ::
  "('re \<Rightarrow> bytes \<Rightarrow> bool) \<Rightarrow> iteration_env \<Rightarrow> ('w, 're) HttpServer \<Rightarrow> bool" where
  "iteration_ok regexec it s \<longleftrightarrow> sweep_ok (it_sweep it) (it_now it) (count_tasks s) \<and>
     (case sweep (it_sweep it) (it_now it) (count_tasks s) of
        Inl _ \<Rightarrow> True
      | Inr s1 \<Rightarrow> performed_ok (it_performed it) s1 \<and>
          (case performed (it_performed it) s1 of
             Inl _ \<Rightarrow> True
           | Inr s2 \<Rightarrow> events_ok regexec (it_events it) s2))"

definition iteration_safe ::
  "('re \<Rightarrow> bytes \<Rightarrow> bool) \<Rightarrow> iteration_env \<Rightarrow> ('w, 're) HttpServer \<Rightarrow> bool" where
  "iteration_safe regexec it s \<longleftrightarrow> sweep_safe (it_sweep it) (count_tasks s) \<and>
     (case bind_res (sweep (it_sweep it) (it_now it) (count_tasks s)) (performed (it_performed it)) of
        Inl _ \<Rightarrow> True
      | Inr s2 \<Rightarrow> events_safe regexec (it_events it) s2)"

lemma performed_loop_steps:
  assumes "srv_inv s" "queue_size (performedTasksQueue s) = n" "deliveries_ok env n s" "performed_loop env n s = Inr s'"
  shows "(server_step regexec)\<^sup>*\<^sup>* s s'"
  using assms
proof (induction n arbitrary: s)
  case (Suc n)
  then obtain t ts where q: "queue (performedTasksQueue s) = t # ts" "length ts = n"
    by (auto simp: queue_size_def length_Suc_conv)
  let ?s0 = "s\<lparr>performedTasksQueue := performedTasksQueue s\<lparr>queue := ts\<rparr>\<rparr>"
  have ok: "clock_ok (env n) ?s0 (task_fd t)" "length (responseData t) \<le> string_max_size"
    using Suc.prems(3) q(1) by (simp_all add: Let_def)
  from deliver_task_result [OF Suc.prems(1) q(1) ok(1)] ok(2) obtain s1 where
    s1: "deliver_task (env n) t ?s0 = Inr s1" "srv_inv s1" "performedTasksQueue s1 = performedTasksQueue ?s0"
    by (auto simp: string_max_size_def)
  have "server_step regexec s s1" using q(1) ok s1(1) by (rule step_deliver)
  moreover have "(server_step regexec)\<^sup>*\<^sup>* s1 s'"
    using Suc.prems(3,4) s1 q
    by (intro Suc.IH) (auto simp: queue_size_def try_pop_def queue_empty_def Let_def)
  ultimately show ?case by (rule converse_rtranclp_into_rtranclp)
qed simp

lemma handle_events_steps:
  "srv_inv s \<Longrightarrow> events_ok regexec evs s \<Longrightarrow>
   (events_safe regexec evs s \<longrightarrow> handle_events regexec evs s \<noteq> Inl Undefined) \<and>
   (\<forall>s'. handle_events regexec evs s = Inr s' \<longrightarrow> (server_step regexec)\<^sup>*\<^sup>* s s')"
proof (induction evs arbitrary: s)
  case (Cons ee evs)
  obtain ev e where ee: "ee = (ev, e)" by force
  have ok: "event_ok ev e s" using Cons.prems(2) by (simp add: ee)
  have k: "keeps (event_safe ev e s) (handle_event regexec ev e s)"
    using Cons.prems(1) ok by (rule handle_event_keeps)
  show ?case
  proof (cases "handle_event regexec ev e s")
    case (Inl x)
    with k show ?thesis by (auto simp: ee)
  next
    case (Inr s1)
    have "server_step regexec s s1" using ok Inr by (rule step_event)
    moreover have "srv_inv s1" "events_ok regexec evs s1" using k Inr Cons.prems(2) by (simp_all add: ee)
    ultimately show ?thesis
      using Cons.IH [of s1] Inr by (auto simp: ee intro: converse_rtranclp_into_rtranclp)
  qed
qed simp

lemma iteration_steps:
  assumes "srv_inv s" "iteration_ok regexec it s"
  shows "(iteration_safe regexec it s \<longrightarrow> run_iteration regexec it s \<noteq> Inl Undefined) \<and>
    (\<forall>s'. run_iteration regexec it s = Inr s' \<longrightarrow> (server_step regexec)\<^sup>*\<^sup>* s s')"
proof -
  have sw: "sweep_ok (it_sweep it) (it_now it) (count_tasks s)" using assms(2) by (simp add: iteration_ok_def)
  from sweep_inv [OF _ sw] assms(1) consider
    (undef) "sweep (it_sweep it) (it_now it) (count_tasks s) = Inl Undefined" "\<not> sweep_safe (it_sweep it) (count_tasks s)"
    | (swept) s1 where "sweep (it_sweep it) (it_now it) (count_tasks s) = Inr s1" "srv_inv s1" by auto
  then show ?thesis
  proof cases
    case undef
    then show ?thesis by (simp add: run_iteration_def iteration_safe_def)
  next
    case (swept s1)
    have pf: "deliveries_ok (it_performed it) (queue_size (performedTasksQueue s1)) s1"
      using assms(2) swept(1) by (simp add: iteration_ok_def performed_ok_def)
    obtain s2 where s2: "performed (it_performed it) s1 = Inr s2" "srv_inv s2"
      using performed_loop_inv [OF swept(2) refl pf] by (auto simp: performed_def)
    have "server_step regexec s s1" using sw swept(1) by (rule step_sweep)
    moreover have "(server_step regexec)\<^sup>*\<^sup>* s1 s2"
      using performed_loop_steps [OF swept(2) refl pf] s2(1) by (simp add: performed_def)
    ultimately have "(server_step regexec)\<^sup>*\<^sup>* s s2" by (rule converse_rtranclp_into_rtranclp)
    moreover have "events_ok regexec (it_events it) s2"
      using assms(2) swept(1) s2(1) by (simp add: iteration_ok_def)
    note handle_events_steps [OF s2(2) this]
    ultimately show ?thesis
      using swept(1) s2(1) by (auto simp: run_iteration_def iteration_safe_def intro: rtranclp_trans)
  qed
qed

subsection \<open>Properties\<close>

text \<open>
  C3: the invariant of the connections. The states are those reached from a fresh server, with settings in the bounds of
  \<open>conf_ok\<close> (an output buffer of at least 8 kB, both buffers below \<open>2 ^ 62\<close> bytes, between 1 and \<open>2 ^ 31 - 1\<close>
  connections), by steps of the event loop and of the workers in any order, where any call to the kernel or the allocator may fail, under three conditions: the kernel
  keeps its promises about events (\<open>event_ok\<close>), the clock does not go back and has moved on when a descriptor with
  a task under way is stamped again (\<open>clock_ok\<close>), and the page for 408 fits the output buffer together with what is
  pending (\<open>page_fits\<close>). In every such state the invariant holds; so the buffer and the request of a descriptor exist
  together, belong to that descriptor and have the configured sizes with all positions inside; the descriptor is then
  registered, and at most one task is under way for it, only while it is neither read nor written.
\<close>

theorem reachable_invariant:
  assumes "reachable regexec s" and "in_range fd (buffers s)"
  shows "srv_inv s \<and> (buffers s ! nat fd = None \<longleftrightarrow> requests s ! nat fd = None) \<and> current s fd \<le> 1 \<and>
    (case (buffers s ! nat fd, requests s ! nat fd) of
       (Some b, Some r) \<Rightarrow> req_fd r = fd \<and> buffer_wf b \<and>
         inputBufferLength b = unat (maxInputBufferLength (conf s)) \<and>
         outputBufferLength b = unat (maxOutputBufferLength' (conf s)) \<and> epoll s fd \<noteq> None \<and>
         (current s fd = 1 \<longrightarrow> epoll s fd = Some For_errors \<and> pendingOutput b = [])
     | _ \<Rightarrow> current s fd = 0)"
proof -
  note inv = reachable_srv_inv [OF assms(1)]
  then have "slot_ok s fd" using assms(2) by (simp add: srv_inv_def)
  with inv show ?thesis
    by (auto simp: slot_ok_def slot_fine_def phase_ok_def buf_ok_def buf_idle_def pendingOutput_def
        split: option.splits interest.splits)
qed

theorem reachable_invariant_witness:
  "srv_inv sample_connected \<and> buffers sample_connected ! 5 \<noteq> None \<and> requests sample_connected ! 5 \<noteq> None \<and>
   current sample_connected 5 \<le> 1"
proof -
  have "in_range 5 (buffers sample_connected)"
    by (simp add: sample_connected_def sample_server_fields in_range_def)
  note * = reachable_invariant [OF sample_connected_reachable this]
  have "buffers sample_connected ! 5 \<noteq> None"
    by (simp add: sample_connected_def sample_server_fields bufferFactory_def)
  with * show ?thesis by auto
qed

text \<open>
  C4: memory safety of the event loop. In every state with the invariant, hence in every reachable one: handling an
  event that keeps to the promises of the kernel is not undefined, unless one of four things happens (\<open>event_safe\<close>): an
  error on a listening socket outside the arrays, a \<^verbatim>\<open>recv\<close> that would have blocked, a descriptor that cannot be
  registered for output while it is read, or a declared length that exceeds an \<^verbatim>\<open>int\<close> together with the header. The
  search for expired connections returns unless a descriptor of its window cannot be registered for output
  (\<open>sweep_safe\<close>), provided that the page for 408 fits the output buffer together with what is pending (in
  \<open>sweep_ok\<close>). The delivery of performed tasks returns with an empty queue. The clock is as in the invariant of the
  connections.
\<close>

theorem server_memory_safe:
  assumes "srv_inv s"
  shows "(event_ok ev e s \<and> event_safe ev e s \<longrightarrow> handle_event regexec ev e s \<noteq> Inl Undefined) \<and>
    (sweep_ok env now s \<and> sweep_safe env s \<longrightarrow> (\<exists>s'. sweep env now s = Inr s')) \<and>
    (performed_ok envs s \<longrightarrow> (\<exists>s'. performed envs s = Inr s' \<and> queue_empty (performedTasksQueue s')))"
proof -
  have "event_ok ev e s \<Longrightarrow> event_safe ev e s \<Longrightarrow> handle_event regexec ev e s \<noteq> Inl Undefined"
    using handle_event_keeps [OF assms, of ev e regexec] by auto
  moreover have "sweep_ok env now s \<Longrightarrow> sweep_safe env s \<Longrightarrow> \<exists>s'. sweep env now s = Inr s'"
    using sweep_inv [OF assms] by blast
  moreover have "performed_ok envs s \<Longrightarrow> \<exists>s'. performed envs s = Inr s' \<and> queue_empty (performedTasksQueue s')"
    using performed_loop_inv [OF assms refl, of envs] by (auto simp: performed_def performed_ok_def)
  ultimately show ?thesis by blast
qed

theorem server_memory_safe_witness:
  "handle_event (\<lambda>_ _. False) (sample_event 5) (sample_event_env 9 sample_message) sample_connected \<noteq> Inl Undefined \<and>
   (\<exists>s'. sweep (env_after (10 ^ 12)) (10 ^ 12) sample_waiting = Inr s') \<and>
   (\<exists>s'. performed (\<lambda>_. env_after 9) sample_performed = Inr s' \<and> queue_empty (performedTasksQueue s'))"
proof -
  have inv: "srv_inv sample_connected" by (rule reachable_srv_inv [OF sample_connected_reachable])
  have "env_ok (env_after 9) sample_connected" by (intro later_env_ok sample_stamps) simp
  then have ev: "event_ok (sample_event 5) (sample_event_env 9 sample_message) sample_connected"
    using sample_message_parsed(2) by (simp add: event_ok_def sample_event_def sample_event_env_def sample_connected_fields recv_ok_def send_ok_def)
  have safe: "event_safe (sample_event 5) (sample_event_env 9 sample_message) sample_connected"
    using sample_input_fits [of 9] by (simp add: event_safe_def sample_event_def input_safe_def sample_event_env_def env_after_def)
  have "7 < (10 ^ 12 :: nat)" by simp
  note stamps = sample_stamps [OF this]
  have sw: "sweep_ok (env_after (10 ^ 12)) (10 ^ 12) sample_waiting" "sweep_safe (env_after (10 ^ 12)) sample_waiting"
    using stamps sample_connected_idle sample_counter
    by (intro sample_sweep_ok; simp add: sample_waiting_def sample_connected_fields set_request_def)+
  have "performed_ok (\<lambda>_. env_after 9) sample_performed"
    by (simp add: performed_ok_def sample_performed_def queue_size_def sample_done_def clock_ok_def sample_connected_fields
        env_after_def string_max_size_def split: sum.split)
  with server_memory_safe [OF inv, of "sample_event 5" "sample_event_env 9 sample_message"] ev safe
    server_memory_safe [OF sample_timeouts_inv(1)] sw
    server_memory_safe [OF sample_performed_inv] show ?thesis by blast
qed

text \<open>
  C6: a performed task is delivered by its time point. When the time point that the task took from its descriptor is
  still that of the descriptor, exactly the response (the page for 413 when it does not fit the output buffer) becomes
  the pending output and the descriptor waits for output; when it cannot be registered for that, the connection is closed.
  When the time point differs, nothing changes at all: so it is when the connection has been closed or its descriptor
  reused, and also when the connection was sent the page for 408, which renews the time point. The clock is as in the
  invariant of the connections.
\<close>

theorem task_delivery:
  assumes "srv_inv s" and "queue (performedTasksQueue s) = t # ts"
    and "clock_ok env (s\<lparr>performedTasksQueue := performedTasksQueue s\<lparr>queue := ts\<rparr>\<rparr>) (task_fd t)"
    and "length (responseData t) \<le> string_max_size"
  defines "s0 \<equiv> s\<lparr>performedTasksQueue := performedTasksQueue s\<lparr>queue := ts\<rparr>\<rparr>"
  shows "\<exists>s'. deliver_task env t s0 = Inr s' \<and> srv_inv s' \<and>
    (if timePoint t = aliveSockets s ! nat (task_fd t)
     then \<exists>b. pendingOutput b =
         (if length (responseData t) < unat (maxOutputBufferLength' (conf s)) then responseData t
          else case reply_text env Response413 of Inr str \<Rightarrow> str | Inl _ \<Rightarrow> []) \<and>
       (if ctl_ok env (task_fd t) For_output
        then s' = set_interest (task_fd t) For_output (set_buffer (task_fd t) (Some b) s0)
        else closeAllSocketsAndClearData env (task_fd t) (set_buffer (task_fd t) (Some b) s0) = Inr s')
     else s' = s0)"
proof -
  have "length (responseData t) < 2 ^ 63" using assms(4) by (simp add: string_max_size_def)
  from deliver_task_result [OF assms(1-3) this, folded s0_def] show ?thesis
    by (auto simp: written_def not_le split: if_splits)
qed

theorem task_delivery_witness:
  "\<exists>s' b. deliver_task (env_after 9) sample_done
       (sample_performed\<lparr>performedTasksQueue := performedTasksQueue sample_performed\<lparr>queue := []\<rparr>\<rparr>) = Inr s' \<and>
     buffers s' ! 5 = Some b \<and> pendingOutput b = ''answer''"
proof -
  have q: "queue (performedTasksQueue sample_performed) = sample_done # []" by (simp add: sample_performed_def)
  have env: "clock_ok (env_after 9) (sample_performed\<lparr>performedTasksQueue := performedTasksQueue sample_performed\<lparr>queue := []\<rparr>\<rparr>)
      (task_fd sample_done)"
    by (simp add: clock_ok_def env_after_def sample_done_def sample_performed_def sample_connected_fields)
  have len: "length (responseData sample_done) \<le> string_max_size"
    by (simp add: sample_done_def string_max_size_def)
  have f: "length (buffers sample_performed) = 10" "conf sample_performed = sample_conf"
    "aliveSockets sample_performed ! 5 = 7"
    by (simp_all add: sample_performed_def sample_connected_fields)
  from task_delivery [OF sample_performed_inv q env len] f show ?thesis
    by (auto simp: sample_done_def sample_conf_def env_after_def)
qed

subsection \<open>Transmission\<close>

text \<open>What a descriptor was sent so far, and a sequence of output events with what \<^verbatim>\<open>send\<close> took.\<close>

definition sent_to :: "int \<Rightarrow> kernel_call list \<Rightarrow> bytes" where
  "sent_to fd calls =
     concat (map (\<lambda>c. case c of Sent_bytes x d \<Rightarrow> if x = fd then d else [] | Closed _ \<Rightarrow> []) calls)"

primrec transmit ::
  "srv_env \<Rightarrow> nat list \<Rightarrow> int \<Rightarrow> ('w, 're) HttpServer \<Rightarrow> ('w, 're) HttpServer res" where
  "transmit env [] fd s = Inr s"
| "transmit env (n # ns) fd s = bind_res (handle_output env (Sent n) fd s) (transmit env ns fd)"

definition answering :: "('w, 're) HttpServer \<Rightarrow> int \<Rightarrow> Buffer \<Rightarrow> Request \<Rightarrow> bool" where
  "answering s fd b r \<longleftrightarrow> epoll s fd = Some For_output \<and> fd \<noteq> listen_fd s \<and> buffers s ! nat fd = Some b \<and>
     requests s ! nat fd = Some r \<and> headerAccept r \<and> (bodyExists r \<longrightarrow> bodyAccept r)"

lemma kernel_log_setters [simp]:
  "kernel_log (set_buffer fd b s) = kernel_log s" "kernel_log (set_request fd r s) = kernel_log s"
  "kernel_log (set_alive env fd s) = kernel_log s" "kernel_log (set_interest fd i s) = kernel_log s"
  "kernel_log (map_stat f s) = kernel_log s" "kernel_log (log_call c s) = kernel_log s @ [c]"
  "kernel_log (closeSocket fd s) = kernel_log s @ [Closed fd]"
  by (simp_all add: set_defs)

lemma pendingOutput_length: "buf_ok c b \<Longrightarrow> length (pendingOutput b) = numberBytesToSend b"
  by (auto simp: buf_ok_def buffer_wf_def pendingOutput_def)

lemma answering_slot:
  assumes "srv_inv s" "answering s fd b r"
  shows "in_range fd (buffers s)" "in_range fd (requests s)" "buf_ok (conf s) b" "req_fd r = fd"
    "deref (buffers s) fd = Inr b" "deref (requests s) fd = Inr r"
proof -
  show rng: "in_range fd (buffers s)"
    using assms by (auto simp: srv_inv_def arrays_ok_def answering_def)
  show rng2: "in_range fd (requests s)"
    using rng assms by (simp add: srv_inv_def arrays_ok_def in_range_def)
  have "slot_ok s fd" using assms(1) rng by (simp add: srv_inv_def)
  then show "buf_ok (conf s) b" "req_fd r = fd"
    using assms(2) by (simp_all add: slot_ok_def slot_fine_def answering_def)
  show "deref (buffers s) fd = Inr b" "deref (requests s) fd = Inr r"
    using assms(2) rng rng2 by (simp_all add: deref_Inr answering_def)
qed

definition after_send :: "int \<Rightarrow> nat \<Rightarrow> Buffer \<Rightarrow> ('w, 're) HttpServer \<Rightarrow> ('w, 're) HttpServer" where
  "after_send fd n b s =
     set_buffer fd (Some (consumeOutput n b)) (log_call (Sent_bytes fd (take n (pendingOutput b))) s)"

lemma handle_output_sent:
  assumes "srv_inv s" "answering s fd b r" "0 < numberBytesToSend b"
  shows "handle_output env (Sent n) fd s =
     (if numberBytesToSend b \<le> n then finish_response env fd (after_send fd n b s)
      else Inr (after_send fd n b s))"
proof -
  note sl = answering_slot [OF assms(1,2)]
  have "mem_read (outputBuffer b) (posOutputBuffer b) (numberBytesToSend b) = Inr (pendingOutput b)"
    using sl(3) by (simp add: mem_read_def buf_ok_def buffer_wf_def pendingOutput_def)
  moreover have "numberBytesToSend (consumeOutput n b) = numberBytesToSend b - n"
    by (simp add: consumeOutput_def setBytesToSend_def setPosOutputBuffer_def Let_def)
  ultimately show ?thesis
    using sl assms(2,3) by (auto simp: handle_output_def after_send_def answering_def Let_def)
qed

lemma after_send_keeps:
  assumes "srv_inv s" "answering s fd b r" "n < numberBytesToSend b"
  shows "srv_inv (after_send fd n b s)" "answering (after_send fd n b s) fd (consumeOutput n b) r"
proof -
  note sl = answering_slot [OF assms(1,2)]
  have but: "inv_but fd s" using assms(1) sl(1) by (rule srv_inv_but)
  have cur: "current s fd = 0"
    using assms(1,2) sl(1) by (auto simp: srv_inv_def answering_def slot_ok_def slot_fine_def phase_ok_def)
  have "buf_ok (conf s) (consumeOutput n b)" using sl(3) assms(3) by (intro consumeOutput_ok) simp_all
  then show "srv_inv (after_send fd n b s)"
    using but sl assms(2) cur
    by (simp add: after_send_def srv_inv_iff [of fd] slot_ok_def slot_fine_def phase_ok_def answering_def)
  show "answering (after_send fd n b s) fd (consumeOutput n b) r"
    using assms(2) sl(1) by (simp add: after_send_def answering_def)
qed

text \<open>The end of a response: kept alive on request, closed otherwise.\<close>

lemma finish_response_result:
  assumes "in_range fd (buffers s)" "in_range fd (requests s)"
    and "buffers s ! nat fd = Some b" "requests s ! nat fd = Some r"
  shows "\<exists>s'. finish_response env fd s = Inr s' \<and> sent_to fd (kernel_log s') = sent_to fd (kernel_log s) \<and>
    (if \<not> closingConnect r \<and> req_headers r ''connection'' = Some ''Keep-Alive'' \<and> ctl_ok env fd For_input
     then buffers s' ! nat fd = Some (Buffer_clear b) \<and> requests s' ! nat fd = Some (Request_clear r) \<and>
       epoll s' fd = Some For_input
     else buffers s' ! nat fd = None \<and> requests s' ! nat fd = None \<and> epoll s' fd = None \<and>
       Closed fd \<in> set (kernel_log s'))"
proof -
  have d: "deref (requests s) fd = Inr r" "deref (buffers s) fd = Inr b"
    using assms by (simp_all add: deref_Inr)
  show ?thesis
    using assms(1,2) by (auto simp: finish_response_def d Let_def closeAllSocketsAndClearData_def sent_to_def
        getHeaderRef_def split: option.split)
qed

text \<open>
  C7: a response is transmitted completely, in order and once. However \<^verbatim>\<open>send\<close> splits it, the output
  events up to the one that takes the last byte send exactly the pending output; then the
  connection is cleared for the next request when the client sent \<^verbatim>\<open>Connection: Keep-Alive\<close> and
  nothing asked for closing, and closed otherwise.
\<close>

theorem response_transmitted:
  assumes "srv_inv s" and "answering s fd b r" and "ns \<noteq> []"
    and "sum_list ns = numberBytesToSend b" and "sum_list (butlast ns) < numberBytesToSend b"
  shows "\<exists>s'. transmit env ns fd s = Inr s' \<and>
    sent_to fd (kernel_log s') = sent_to fd (kernel_log s) @ pendingOutput b \<and>
    (if \<not> closingConnect r \<and> req_headers r ''connection'' = Some ''Keep-Alive'' \<and> ctl_ok env fd For_input
     then (\<exists>b'. buffers s' ! nat fd = Some b' \<and> inputContent b' = [] \<and> pendingOutput b' = []) \<and>
       requests s' ! nat fd = Some (Request_clear r) \<and> epoll s' fd = Some For_input
     else buffers s' ! nat fd = None \<and> requests s' ! nat fd = None \<and> epoll s' fd = None \<and>
       Closed fd \<in> set (kernel_log s'))"
  using assms
proof (induction ns arbitrary: s b)
  case (Cons n ns)
  note sl = answering_slot [OF Cons.prems(1,2)]
  have pos: "0 < numberBytesToSend b" using Cons.prems(5) by simp
  have log: "sent_to fd (kernel_log (after_send fd n b s)) = sent_to fd (kernel_log s) @ take n (pendingOutput b)"
    by (simp add: after_send_def sent_to_def)
  show ?case
  proof (cases "ns = []")
    case True
    then have n: "n = numberBytesToSend b" using Cons.prems(4) by simp
    have "buffers (after_send fd n b s) ! nat fd = Some (consumeOutput n b)"
      "requests (after_send fd n b s) ! nat fd = Some r" "length (pendingOutput b) = n"
      using sl(1,2) Cons.prems(2) pendingOutput_length [OF sl(3)] n by (simp_all add: after_send_def answering_def)
    then show ?thesis
      using finish_response_result [of fd "after_send fd n b s" "consumeOutput n b" r env] sl(1,2) log True n
      by (auto simp: handle_output_sent [OF Cons.prems(1,2) pos] after_send_def)
  next
    case False
    then have n: "n < numberBytesToSend b" using Cons.prems(5) by simp
    have eq: "numberBytesToSend (consumeOutput n b) = numberBytesToSend b - n"
      by (simp add: consumeOutput_def setBytesToSend_def setPosOutputBuffer_def Let_def)
    have "sum_list ns = numberBytesToSend (consumeOutput n b)"
      "sum_list (butlast ns) < numberBytesToSend (consumeOutput n b)"
      using Cons.prems(4,5) False eq n by simp_all
    from Cons.IH [OF after_send_keeps [OF Cons.prems(1,2) n] False this]
    show ?thesis using n by (simp add: handle_output_sent [OF Cons.prems(1,2) pos] log consumeOutput_pending not_le)
  qed
qed simp

definition sample_answering :: "(unit, bytes) HttpServer" where
  "sample_answering = (case addDataToOutputBuffer ''answer'' (the (buffers sample_connected ! 5)) of
     Inr b \<Rightarrow> set_request 5 (Some ((the (requests sample_connected ! 5))\<lparr>headerAccept := True\<rparr>))
       (set_interest 5 For_output (set_buffer 5 (Some b) sample_connected))
   | Inl _ \<Rightarrow> sample_connected)"

theorem response_transmitted_witness:
  "\<exists>s'. transmit (env_after 9) [2, 0, 4] 5 sample_answering = Inr s' \<and>
     sent_to 5 (kernel_log s') = sent_to 5 (kernel_log sample_answering) @ ''answer'' \<and>
     Closed 5 \<in> set (kernel_log s')"
proof -
  have inv: "srv_inv sample_connected" by (rule reachable_srv_inv [OF sample_connected_reachable])
  obtain b r where rd: "reading sample_connected 5 b r"
    by (rule reading_For_input [OF inv, of 5]) (simp_all add: sample_connected_fields)
  have but: "inv_but 5 sample_connected" using inv rd by (simp add: srv_inv_but reading_def)
  have r: "r = the (requestFactory True 0 0)\<lparr>req_fd := 5, maxOutputBufferLength := 8192\<rparr>"
    using rd by (simp add: reading_def sample_connected_def sample_server_fields)
  have "length ''answer'' \<le> unat (maxOutputBufferLength' (conf sample_connected))"
    by (simp add: sample_connected_fields sample_conf_def)
  with rd obtain b' where b': "addDataToOutputBuffer ''answer'' b = Inr b'" "buf_ok sample_conf b'"
    "pendingOutput b' = ''answer''" "numberBytesToSend b' = length ''answer''"
    unfolding reading_def by (auto simp: sample_connected_fields elim!: addDataToOutputBuffer_idle [of sample_conf b "''answer''"])
  let ?r = "r\<lparr>headerAccept := True\<rparr>"
  have eq: "sample_answering = set_request 5 (Some ?r) (set_interest 5 For_output (set_buffer 5 (Some b') sample_connected))"
    using rd b'(1) by (simp add: sample_answering_def reading_def)
  have rng: "5 < length (requests sample_connected)" "5 < length (buffers sample_connected)"
    using inv_but_ranges [OF but] by (simp_all add: in_range_def)
  have "srv_inv sample_answering"
    using inv_but_interest [of 5 "set_buffer 5 (Some b') sample_connected" For_output] but rd rng b'(2)
    by (simp add: eq srv_inv_iff [of 5] slot_ok_def slot_fine_def phase_ok_def reading_def sample_connected_fields)
  moreover have "answering sample_answering 5 b' ?r"
    using rd rng by (simp add: eq answering_def reading_def r requestFactory_def sample_connected_fields)
  ultimately show ?thesis
    using response_transmitted [of sample_answering 5 b' ?r "[2, 0, 4]" "env_after 9"] b'(3,4)
    by (simp add: r requestFactory_def) blast
qed

subsection \<open>Whole iterations\<close>

text \<open>
  C5: an iteration of the event loop is a sequence of such steps. From a state with the invariant, whatever a whole
  iteration with any number of expired connections, performed tasks and events leaves is reached by the step relation, so
  the invariant holds between any two iterations. This is so under the conditions of the invariant of the connections,
  each in the state in which it is met (\<open>iteration_ok\<close>); the iteration is not undefined when each of its parts meets the
  conditions of memory safety (\<open>iteration_safe\<close>).
\<close>

theorem run_iteration_steps:
  assumes "srv_inv s" and "iteration_ok regexec it s"
  shows "(iteration_safe regexec it s \<longrightarrow> run_iteration regexec it s \<noteq> Inl Undefined) \<and>
    (\<forall>s'. run_iteration regexec it s = Inr s' \<longrightarrow>
       (server_step regexec)\<^sup>*\<^sup>* s s' \<and> srv_inv s' \<and> (reachable regexec s \<longrightarrow> reachable regexec s'))"
proof -
  have "srv_inv s' \<and> (reachable regexec s \<longrightarrow> reachable regexec s')" if "(server_step regexec)\<^sup>*\<^sup>* s s'" for s'
    using that by (induction rule: rtranclp_induct) (auto intro: assms(1) server_step_inv reach_step)
  with iteration_steps [OF assms] show ?thesis by blast
qed

definition sample_iteration :: iteration_env where
  "sample_iteration = \<lparr>it_now = 8, it_sweep = env_after 8, it_performed = \<lambda>_. env_after 9,
     it_events = [(\<lparr>event_fd = 5, event_err = False, event_in = False, event_out = True\<rparr>,
       (sample_event_env 10 [])\<lparr>ev_send := Sent 6\<rparr>)]\<rparr>"

lemma check_limits_same: "\<forall>i \<in> set is. check_limit env now i s = Inr s \<Longrightarrow> check_limits env now is s = Inr s"
  by (induction "is") simp_all

lemma sample_busy_fields:
  "conf sample_busy = sample_conf" "count_tasks sample_busy = sample_busy" "counter_check_limit_time_request sample_busy = 0"
  "length (buffers sample_busy) = 10" "aliveSockets sample_busy = aliveSockets sample_connected" "listen_fd sample_busy = 3"
  "buffers sample_busy = buffers sample_connected" "queue (performedTasksQueue sample_busy) = [sample_done]"
  "requests sample_busy ! 5 = Some (the (requestFactory True 0 0)\<lparr>req_fd := 5, maxOutputBufferLength := 8192, headerAccept := True\<rparr>)"
proof -
  show 1: "conf sample_busy = sample_conf" "length (buffers sample_busy) = 10" "aliveSockets sample_busy = aliveSockets sample_connected" "listen_fd sample_busy = 3"
    "buffers sample_busy = buffers sample_connected" "queue (performedTasksQueue sample_busy) = [sample_done]" 
    by (simp_all add: sample_busy_def sample_performed_def sample_connected_fields set_request_def)
  show "count_tasks sample_busy = sample_busy" by (simp add: count_tasks_def 1 sample_conf_def default_config_def)
  show "counter_check_limit_time_request sample_busy = 0"
    by (simp add: sample_busy_def sample_performed_def set_defs sample_counter)
  show "requests sample_busy ! 5 = Some (the (requestFactory True 0 0)\<lparr>req_fd := 5, maxOutputBufferLength := 8192, headerAccept := True\<rparr>)"
    by (simp add: sample_busy_def sample_performed_def sample_connected_def sample_server_fields requestFactory_def)
qed

lemma sample_busy_sweep:
  "sweep_ok (env_after 8) 8 sample_busy" "sweep_safe (env_after 8) sample_busy"
  "sweep (env_after 8) 8 sample_busy = Inr (sample_busy\<lparr>counter_check_limit_time_request := 0\<rparr>)"
proof -
  show "sweep_ok (env_after 8) 8 sample_busy" "sweep_safe (env_after 8) sample_busy"
    using sample_connected_idle sample_stamps [of 8]
    by (intro sample_sweep_ok; simp add: sample_busy_fields sample_connected_fields)+
  have "aliveSockets sample_busy ! i = (if i = 5 then 7 else 0)" if "i < 10" for i
    using that by (simp add: sample_busy_fields sample_connected_fields)
  then have "check_limit (env_after 8) 8 i sample_busy = Inr sample_busy" if "i < 10" for i
    using that by (simp add: check_limit_def elapsed_seconds_def sample_busy_fields sample_conf_def default_config_def split: option.split)
  then have "check_limits (env_after 8) 8 [0 ..< 10] sample_busy = Inr sample_busy"
    by (intro check_limits_same) simp
  then show "sweep (env_after 8) 8 sample_busy = Inr (sample_busy\<lparr>counter_check_limit_time_request := 0\<rparr>)"
    by (simp add: sweep_def sweep_window_def sweep_next_def sample_busy_fields sample_conf_def)
qed

text \<open>The answer of the performed task is what slot 5 sends next.\<close>

lemma sample_busy_delivery:
  defines "s1 \<equiv> sample_busy\<lparr>counter_check_limit_time_request := 0\<rparr>"
  obtains s2 b r where "performed (\<lambda>_. env_after 9) s1 = Inr s2" "performed_ok (\<lambda>_. env_after 9) s1" "srv_inv s2"
    "answering s2 5 b r" "pendingOutput b = ''answer''" "req_headers r = Map.empty" "listen_fd s2 = 3"
    "aliveSockets s2 = aliveSockets sample_connected"
proof -
  let ?s0 = "s1\<lparr>performedTasksQueue := performedTasksQueue s1\<lparr>queue := []\<rparr>\<rparr>"
  have q: "queue (performedTasksQueue s1) = [sample_done]" by (simp add: s1_def sample_busy_fields)
  have inv: "srv_inv s1" by (simp add: s1_def sample_busy_inv)
  have f: "task_fd sample_done = 5" "timePoint sample_done = 7" "responseData sample_done = ''answer''"
    by (simp_all add: sample_done_def)
  have clk: "clock_ok (env_after 9) ?s0 (task_fd sample_done)"
    by (simp add: clock_ok_def f env_after_def s1_def sample_busy_fields sample_connected_fields)
  have len: "length (responseData sample_done) < 2 ^ 63" by (simp add: f)
  from deliver_task_result [OF inv q clk len] obtain s2 b where
    s2: "deliver_task (env_after 9) sample_done ?s0 = Inr s2" "srv_inv s2"
      "s2 = set_interest 5 For_output (set_buffer 5 (Some b) ?s0)" "pendingOutput b = snd (written (env_after 9) (conf s1) ''answer'')"
    by (auto simp: f s1_def sample_busy_fields sample_connected_fields env_after_def)
  let ?r = "the (requestFactory True 0 0)\<lparr>req_fd := 5, maxOutputBufferLength := 8192, headerAccept := True\<rparr>"
  have "performed (\<lambda>_. env_after 9) s1 = Inr s2"
    using s2(1) q by (simp add: performed_def queue_size_def try_pop_def queue_empty_def)
  moreover have "performed_ok (\<lambda>_. env_after 9) s1"
    using clk q by (simp add: performed_ok_def queue_size_def Let_def f string_max_size_def split: sum.split)
  moreover have "answering s2 5 b ?r"
    by (simp add: s2(3) answering_def s1_def sample_busy_fields sample_connected_fields(3) requestFactory_def)
  moreover have "pendingOutput b = ''answer''"
    using s2(4) by (simp add: written_def s1_def sample_busy_fields sample_conf_def)
  moreover have "aliveSockets s2 = aliveSockets sample_connected" by (simp add: s2(3) s1_def sample_busy_fields)
  ultimately show thesis using s2(2)
    by (intro that [of s2 b ?r]) (simp_all add: s2(3) requestFactory_def s1_def sample_busy_fields)
qed

theorem run_iteration_steps_witness:
  "run_iteration (\<lambda>_ _. False) sample_iteration sample_busy \<noteq> Inl Undefined \<and>
   (\<exists>s'. run_iteration (\<lambda>_ _. False) sample_iteration sample_busy = Inr s' \<and>
     (server_step (\<lambda>_ _. False))\<^sup>*\<^sup>* sample_busy s' \<and> srv_inv s' \<and> Closed 5 \<in> set (kernel_log s'))"
proof -
  let ?s1 = "sample_busy\<lparr>counter_check_limit_time_request := 0\<rparr>" and ?re = "\<lambda>(_::bytes) (_::bytes). False"
  obtain s2 b r where p: "performed (\<lambda>_. env_after 9) ?s1 = Inr s2" "performed_ok (\<lambda>_. env_after 9) ?s1" "srv_inv s2"
    "answering s2 5 b r" "pendingOutput b = ''answer''" "req_headers r = Map.empty" "listen_fd s2 = 3"
    "aliveSockets s2 = aliveSockets sample_connected" by (rule sample_busy_delivery)
  note sl = answering_slot [OF p(3,4)]
  have n: "numberBytesToSend b = 6" using pendingOutput_length [OF sl(3)] p(5) by simp
  have "env_ok (env_after 10) s2" using sample_stamps [of 10] by (intro later_env_ok) (simp add: p(8))
  then have ev: "events_ok ?re (it_events sample_iteration) s2"
    using p(4,7) n sl(5) by (simp add: sample_iteration_def event_ok_def answering_def sample_event_env_def recv_ok_def send_ok_def split: sum.split)
  then have ok: "iteration_ok ?re sample_iteration sample_busy"
    using p(1,2) sample_busy_sweep by (simp add: iteration_ok_def sample_busy_fields(2) sample_iteration_def)
  have safe: "iteration_safe ?re sample_iteration sample_busy"
    using p(1) sample_busy_sweep
    by (simp add: iteration_safe_def sample_busy_fields(2) sample_iteration_def event_safe_def split: sum.split)
  have "buffers (after_send 5 6 b s2) ! 5 = Some (consumeOutput 6 b)" "requests (after_send 5 6 b s2) ! 5 = Some r"
    using sl(1) p(4) by (simp_all add: after_send_def answering_def in_range_def)
  with finish_response_result [of 5 "after_send 5 6 b s2" "consumeOutput 6 b" r "env_after 10"] sl(1,2) p(6) obtain s' where
    s': "finish_response (env_after 10) 5 (after_send 5 6 b s2) = Inr s'" "Closed 5 \<in> set (kernel_log s')"
    by (auto simp: after_send_def)
  have "handle_output (env_after 10) (Sent 6) 5 s2 = Inr s'"
    using s'(1) n by (simp add: handle_output_sent [OF p(3,4)])
  then have "run_iteration ?re sample_iteration sample_busy = Inr s'"
    using p(1,7) sample_busy_sweep(3)
    by (simp add: run_iteration_def sample_busy_fields(2) sample_iteration_def handle_event_def sample_event_env_def Let_def)
  with run_iteration_steps [OF sample_busy_inv ok] safe s'(2) show ?thesis by blast
qed

subsection \<open>The search for expired connections\<close>

lemma sweep_next_funpow: "(sweep_next m ^^ k) 0 = (100 * k) mod m"
  by (induction k) (simp_all add: sweep_next_def mod_simps add.commute)

lemma sweep_window_hit:
  assumes "i < m" "(100 * k) mod m = 100 * (i div 100)"
  shows "i \<in> set (sweep_window m ((sweep_next m ^^ k) 0))"
proof -
  have "100 * (i div 100) \<le> i" "i < 100 * (i div 100) + 100" by simp_all
  with assms show ?thesis by (simp add: sweep_next_funpow sweep_window_def)
qed

text \<open>The residue \<open>q\<close> is reached from \<open>j\<close> in fewer than \<open>m\<close> steps.\<close>

lemma reach_residue:
  fixes j m q :: nat
  assumes "q < m"
  obtains k where "k < m" "(j + k) mod m = q"
proof
  let ?k = "(q + (m - j mod m)) mod m"
  show "?k < m" using assms by simp
  have "(j + ?k) mod m = (j mod m + (q + (m - j mod m))) mod m" by (simp add: mod_simps)
  also have "j mod m + (q + (m - j mod m)) = q + m"
    using assms mod_less_divisor [of m j] by linarith
  finally show "(j + ?k) mod m = q" using assms by simp
qed

text \<open>
  C8: no connection is forgotten. Starting anywhere in the life of the event loop, the search
  examines the slot of every descriptor within as many iterations as there are slots; when
  their number is a multiple of one hundred (as by default) within a hundredth of that.
\<close>

theorem sweep_coverage:
  assumes "i < m"
  shows "(\<exists>k < m. i \<in> set (sweep_window m ((sweep_next m ^^ (j + k)) 0))) \<and>
    (100 dvd m \<longrightarrow> (\<exists>k < m div 100. i \<in> set (sweep_window m ((sweep_next m ^^ (j + k)) 0))))"
proof (intro conjI impI)
  let ?q = "i div 100"
  have q: "100 * ?q < m" "?q < m" using assms by (simp_all add: le_less_trans [of _ i])
  obtain k where k: "k < m" "(j + k) mod m = ?q" by (rule reach_residue [OF q(2)])
  have "(100 * (j + k)) mod m = (100 * ((j + k) mod m)) mod m" by (simp add: mod_simps)
  also have "\<dots> = 100 * ?q" using q(1) by (simp only: k(2) mod_less)
  finally show "\<exists>k < m. i \<in> set (sweep_window m ((sweep_next m ^^ (j + k)) 0))"
    using k(1) assms sweep_window_hit by blast
next
  assume "100 dvd m"
  then obtain M where M: "m = 100 * M" by blast
  then have "i div 100 < M" using assms by (simp add: less_mult_imp_div_less mult.commute)
  then obtain k where k: "k < M" "(j + k) mod M = i div 100" by (rule reach_residue)
  have "(100 * (j + k)) mod m = 100 * (i div 100)" by (simp only: M mod_mult_mult1 k(2))
  then show "\<exists>k < m div 100. i \<in> set (sweep_window m ((sweep_next m ^^ (j + k)) 0))"
    using k(1) M assms sweep_window_hit by (intro exI [of _ k]) simp
qed

theorem sweep_coverage_witness:
  "\<exists>k < 100. 9999 \<in> set (sweep_window 10000 ((sweep_next 10000 ^^ (7 + k)) 0))"
  using sweep_coverage [of 9999 10000 7] by simp

text \<open>
  What the search does. In every reachable state, when the page for 408 fits and the descriptors of the window can be
  registered for output, it returns, moves the counter on, keeps the invariant, and every expired connection in
  its window that has not completed a request header is gone afterwards.
\<close>

theorem sweep_closes_expired:
  assumes "reachable regexec s" and "sweep_ok env now s" and "sweep_safe env s"
    and "i \<in> set (sweep_window (unat (maxConnection (conf s))) (counter_check_limit_time_request s))"
    and "requests s ! i = Some r" and "expired now s i" and "fullUri r = []"
  shows "\<exists>s'. sweep env now s = Inr s' \<and> srv_inv s' \<and> requests s' ! i = None \<and>
    counter_check_limit_time_request s' =
      sweep_next (unat (maxConnection (conf s))) (counter_check_limit_time_request s)"
  using sweep_inv [OF reachable_srv_inv [OF assms(1)] assms(2)] assms(3-) by blast

theorem sweep_closes_expired_witness:
  "\<exists>s'. sweep (env_after (10 ^ 12)) (10 ^ 12) sample_connected = Inr s' \<and> requests s' ! 5 = None"
proof -
  let ?now = "10 ^ 12 :: nat"
  have r: "requests sample_connected ! 5 =
      Some (the (requestFactory True 0 0)\<lparr>req_fd := 5, maxOutputBufferLength := 8192\<rparr>)"
    by (simp add: sample_connected_def sample_server_fields)
  have "7 < ?now" by simp
  from sample_stamps [OF this] have ok: "sweep_ok (env_after ?now) ?now sample_connected" "sweep_safe (env_after ?now) sample_connected"
    by (intro sample_sweep_ok sample_connected_idle sample_counter; simp add: sample_connected_fields)+
  have e: "expired ?now sample_connected 5"
    by (simp add: expired_def elapsed_seconds_def sample_connected_fields sample_conf_def default_config_def)
  have w: "5 \<in> set (sweep_window (unat (maxConnection (conf sample_connected)))
      (counter_check_limit_time_request sample_connected))"
    by (simp add: sample_counter sweep_window_def sample_connected_fields sample_conf_def)
  from sweep_closes_expired [OF sample_connected_reachable ok w r e] show ?thesis
    by (auto simp: requestFactory_def)
qed

text \<open>
  When the number of slots is no multiple of one hundred, the windows shift after each pass, and a
  low descriptor is examined only once in as many iterations as there are slots.
\<close>

lemma sweep_starves:
  assumes "0 < k" "k < 101"
  shows "0 \<notin> set (sweep_window 101 ((sweep_next 101 ^^ k) 0))"
proof -
  have "(100 * k) mod 101 = 101 - k"
  proof -
    have "100 * k = (101 - k) + 101 * (k - 1)" using assms by (cases k) simp_all
    moreover have "101 - k < 101" using assms by simp
    ultimately show ?thesis by (simp only: mod_mult_self2 mod_less)
  qed
  with assms show ?thesis by (simp add: sweep_next_funpow sweep_window_def)
qed

subsection \<open>Where the server is undefined\<close>

lemma reply_408:
  obtains str where "reply_text env (ResponseBase_move Response408) = Inr str" "length str < 8192" "str \<noteq> []"
proof -
  have "resp_body (ResponseBase_move Response408) \<noteq> []"
    by (simp add: Response408_def response_of_def ResponseBase_new_def page_plain_def ResponseBase_move_def Let_def)
  then have "\<exists>str. reply_text env (ResponseBase_move Response408) = Inr str \<and> str \<noteq> [] \<and> length str \<le> 4095 + 200"
    using resp_body_pages(2)
    by (simp add: reply_text_def toString_def prepareResponse_eq ResponseBase_addHeader_def)
  with that show thesis by fastforce
qed

text \<open>The write of the timeout page, whatever is pending: it goes to the read position.\<close>

lemma write_over:
  assumes "deref (buffers s) fd = Inr b" "buf_ok (conf s) b" "conf_ok (conf s)" "length data < 8192"
    and "posOutputBuffer b + length data < unat (maxOutputBufferLength' (conf s))" "ctl_ok env fd For_output"
  obtains b' where "writeToOutputBuffer env fd data s =
      Inr (200, set_interest fd For_output (set_buffer fd (Some b') s))"
    "numberBytesToSend b' = numberBytesToSend b + length data" "posOutputBuffer b' = posOutputBuffer b"
    "length (outputBuffer b') = unat (maxOutputBufferLength' (conf s))"
    "take (length data) (drop (posOutputBuffer b') (outputBuffer b')) = data"
proof -
  have "\<not> of_nat (posOutputBuffer b) + of_nat (length data) \<ge> maxOutputBufferLength' (conf s)"
    using assms(2-5) size_sum_less [of "posOutputBuffer b" "length data" "maxOutputBufferLength' (conf s)"]
    by (auto simp: conf_ok_def buf_ok_def buffer_wf_def)
  moreover obtain mem where mem: "mem_write (outputBuffer b) (posOutputBuffer b) data = Inr mem"
    using assms(2,5) mem_write_safe_iff [of "outputBuffer b" "posOutputBuffer b" data]
    by (auto simp: buf_ok_def buffer_wf_def)
  moreover define b' where "b' = b\<lparr>outputBuffer := mem, numberBytesToSend := numberBytesToSend b + length data\<rparr>"
  ultimately have "writeToOutputBuffer env fd data s =
      Inr (200, set_interest fd For_output (set_buffer fd (Some b') s))"
    using assms(1,6) by (simp add: writeToOutputBuffer_def addDataToOutputBuffer_def Let_def RESPONSE_STATE_OK_def)
  with that [of b'] mem_write_length [OF mem] mem_write_same [OF mem] assms(2) show thesis
    by (simp add: b'_def buf_ok_def buffer_wf_def)
qed

lemma check_limit_408:
  assumes "srv_inv s" "i < length (buffers s)" "ctl_ok env (int i) For_output" "buffers s ! i = Some b" "requests s ! i = Some r"
    and "expired now s i" "fullUri r \<noteq> []" "reply_text env (ResponseBase_move Response408) = Inr str"
    and "length str < 8192"
    and "posOutputBuffer b + length str < unat (maxOutputBufferLength' (conf s))"
  obtains s' b' where "check_limit env now i s = Inr s'" "buffers s' ! i = Some b'"
    "requests s' ! i = Some (r\<lparr>closingConnect := True\<rparr>)" "epoll s' (int i) = Some For_output"
    "numberBytesToSend b' = numberBytesToSend b + length str" "posOutputBuffer b' = posOutputBuffer b"
    "length (outputBuffer b') = unat (maxOutputBufferLength' (conf s))"
    "take (length str) (drop (posOutputBuffer b') (outputBuffer b')) = str"
    "length (buffers s') = length (buffers s)" "length (requests s') = length (buffers s)"
proof -
  have rng: "in_range (int i) (buffers s)" using assms(2) by (simp add: in_range_def)
  have len: "length (requests s) = length (buffers s)" "length (aliveSockets s) = length (buffers s)" "conf_ok (conf s)"
    using assms(1) by (simp_all add: srv_inv_def arrays_ok_def)
  have slot: "req_fd r = int i" "buf_ok (conf s) b"
    using assms(1,4,5) rng by (auto simp: srv_inv_def slot_ok_def slot_fine_def)
  have "deref (buffers s) (int i) = Inr b" using assms(4) rng by (simp add: deref_Inr)
  then obtain b' where b': "writeToOutputBuffer env (int i) str s =
      Inr (200, set_interest (int i) For_output (set_buffer (int i) (Some b') s))"
    "numberBytesToSend b' = numberBytesToSend b + length str" "posOutputBuffer b' = posOutputBuffer b"
    "length (outputBuffer b') = unat (maxOutputBufferLength' (conf s))"
    "take (length str) (drop (posOutputBuffer b') (outputBuffer b')) = str"
    using write_over [OF _ slot(2) len(3) assms(9,10)] assms(3) by metis
  let ?s1 = "set_interest (int i) For_output (set_buffer (int i) (Some b') s)"
  let ?s' = "set_alive env (int i) (set_request (int i) (Some (r\<lparr>closingConnect := True\<rparr>)) ?s1)"
  have "deref (requests ?s1) (int i) = Inr r" using assms(2,5) len(1) by (simp add: deref_Inr in_range_def)
  then have "check_limit env now i s = Inr ?s'"
    using assms(2,5-8) slot(1) b'(1) len by (simp add: check_limit_def expired_def Let_def in_range_def)
  then show thesis using b'(2-5) assms(2) len by (intro that [of ?s' b']) simp_all
qed

text \<open>
  Two defects of the timeout. The page for 408 is written at the read position of the output
  and added to the number of bytes to send, without regard to what is still pending: when the
  rest of a response together with the page exceeds the output buffer, the next \<^verbatim>\<open>send\<close> reads behind
  it. And for a connection that waits for its body the page is stored but never sent: the output
  event does nothing as long as the body is incomplete, whatever the kernel reports.
\<close>

theorem timeout_defects:
  assumes "srv_inv s" and "i < length (buffers s)" and "ctl_ok env (int i) For_output"
    and "buffers s ! i = Some b" and "requests s ! i = Some r" and "expired now s i" and "fullUri r \<noteq> []"
    and "reply_text env (ResponseBase_move Response408) = Inr str"
    and "posOutputBuffer b + length str < unat (maxOutputBufferLength' (conf s))"
    and "headerAccept r"
  shows "\<exists>s'. check_limit env now i s = Inr s' \<and>
    (if bodyExists r \<and> \<not> bodyAccept r then handle_output env' res (int i) s' = Inr s'
     else unat (maxOutputBufferLength' (conf s)) <
         posOutputBuffer b + numberBytesToSend b + length str \<longrightarrow>
       handle_output env' res (int i) s' = Inl Undefined)"
proof -
  have str: "length str < 8192" "str \<noteq> []" using reply_408 [of env] assms(8) by auto
  from check_limit_408 [OF assms(1-8) str(1) assms(9)] obtain s' b' where
    s': "check_limit env now i s = Inr s'" "buffers s' ! i = Some b'"
      "requests s' ! i = Some (r\<lparr>closingConnect := True\<rparr>)"
      "numberBytesToSend b' = numberBytesToSend b + length str" "posOutputBuffer b' = posOutputBuffer b"
      "length (outputBuffer b') = unat (maxOutputBufferLength' (conf s))"
      "length (buffers s') = length (buffers s)" "length (requests s') = length (buffers s)" by metis
  have "deref (buffers s') (int i) = Inr b'" "deref (requests s') (int i) = Inr (r\<lparr>closingConnect := True\<rparr>)"
    using s' assms(2) by (simp_all add: deref_Inr in_range_def)
  with s' str assms(10) show ?thesis by (auto simp: handle_output_def mem_read_def)
qed

theorem timeout_defects_witness:
  "(\<exists>s'. check_limit (env_after (10 ^ 12)) (10 ^ 12) 5 sample_waiting = Inr s' \<and>
     handle_output (env_after (10 ^ 13)) (Sent 1) 5 s' = Inr s') \<and>
   (\<exists>s'. check_limit (env_after (10 ^ 12)) (10 ^ 12) 5 sample_long = Inr s' \<and>
     handle_output (env_after (10 ^ 13)) (Sent 1) 5 s' = Inl Undefined)"
proof -
  let ?t = "10 ^ 12 :: nat"
  obtain str where str: "reply_text (env_after ?t) (ResponseBase_move Response408) = Inr str" "length str < 8192"
    "str \<noteq> []" by (rule reply_408)
  have f: "aliveSockets s ! 5 = 7" "conf s = sample_conf" "length (buffers s) = 10"
    if "s = sample_waiting \<or> s = sample_long" for s
    using that by (auto simp: sample_waiting_def sample_long_def sample_connected_fields)
  have side: "ctl_ok (env_after ?t) (int 5) For_output" "expired ?t s 5" if "s = sample_waiting \<or> s = sample_long" for s
    using f [OF that] by (simp_all add: env_after_def expired_def elapsed_seconds_def
        sample_conf_def default_config_def)
  obtain b1 where b1: "buffers sample_waiting ! 5 = Some b1" "posOutputBuffer b1 = 0"
    using sample_slots(1) by (simp add: bufferFactory_def)
  obtain b2 where b2: "buffers sample_long ! 5 = Some b2" "posOutputBuffer b2 = 0" "numberBytesToSend b2 = 8192"
    using sample_slots(2) by (simp add: bufferFactory_def)
  obtain r1 where r1: "requests sample_waiting ! 5 = Some r1" "fullUri r1 \<noteq> []" "headerAccept r1"
    "bodyExists r1" "\<not> bodyAccept r1" using sample_slots(3) by (simp add: requestFactory_def)
  obtain r2 where r2: "requests sample_long ! 5 = Some r2" "fullUri r2 \<noteq> []" "headerAccept r2"
    "\<not> bodyExists r2" using sample_slots(4) by (simp add: requestFactory_def)
  have m: "unat (maxOutputBufferLength' (conf s)) = 8192" "5 < length (buffers s)"
    if "s = sample_waiting \<or> s = sample_long" for s
    using f [OF that] by (simp_all add: sample_conf_def)
  have p1: "posOutputBuffer b1 + length str < unat (maxOutputBufferLength' (conf sample_waiting))"
    and p2: "posOutputBuffer b2 + length str < unat (maxOutputBufferLength' (conf sample_long))"
    and over: "unat (maxOutputBufferLength' (conf sample_long)) < posOutputBuffer b2 + numberBytesToSend b2 + length str"
    using b1 b2 str m by simp_all
  note w = timeout_defects [OF sample_timeouts_inv(1) m(2) side(1) b1(1) r1(1) side(2) r1(2) str(1) p1 r1(3),
      where env' = "env_after (10 ^ 13)" and res = "Sent 1", OF disjI1 [OF refl] disjI1 [OF refl] disjI1 [OF refl]]
  note l = timeout_defects [OF sample_timeouts_inv(2) m(2) side(1) b2(1) r2(1) side(2) r2(2) str(1) p2 r2(3),
      where env' = "env_after (10 ^ 13)" and res = "Sent 1", OF disjI2 [OF refl] disjI2 [OF refl] disjI2 [OF refl]]
  from w r1(4,5) have "\<exists>s'. check_limit (env_after ?t) ?t 5 sample_waiting = Inr s' \<and>
     handle_output (env_after (10 ^ 13)) (Sent 1) 5 s' = Inr s'" by (simp only: of_nat_numeral simp_thms if_True)
  moreover from l r2(4) over have "\<exists>s'. check_limit (env_after ?t) ?t 5 sample_long = Inr s' \<and>
     handle_output (env_after (10 ^ 13)) (Sent 1) 5 s' = Inl Undefined"
    by (simp only: of_nat_numeral simp_thms if_False)
  ultimately show ?thesis by blast
qed

text \<open>
  Further defects. A \<^verbatim>\<open>recv\<close> that would have blocked is not skipped: its result \<open>-1\<close> becomes the
  length of a \<^verbatim>\<open>memcpy\<close>. A declared length of \<open>-1\<close> is accepted when the byte behind the input completes
  the header, and ends the process with an uncaught exception; the largest one overflows the sum with the length of the
  header. When a connection with a task under way is closed and the clock has not moved on since its time point, the
  delivery of the task dereferences the null pointer of the slot.
\<close>

lemma recv_would_block_undefined:
  assumes "deref (buffers s) fd = Inr b" "buf_ok (conf s) b" "0 < posInputBuffer b"
    and "received e = Recv_error True"
  shows "handle_input env regexec e output fd s = Inl Undefined"
proof -
  let ?p = "posInputBuffer b"
  have "?p \<le> unat (maxInputBufferLength (conf s))" using assms(2) by (simp add: buf_ok_def buffer_wf_def)
  moreover have "unat (maxInputBufferLength (conf s)) < 2 ^ 64"
    using unsigned_less [of "maxInputBufferLength (conf s)"] by simp
  ultimately have p: "unat (of_nat (?p - 1) :: size_t) = ?p - 1"
    by (simp add: unat_of_nat take_bit_nat_eq_self)
  have "(of_nat ?p + (- 1) :: size_t) = of_nat (?p - 1)" using assms(3) by (simp add: of_nat_diff)
  with p \<open>?p \<le> unat (maxInputBufferLength (conf s))\<close> assms(3)
  have "\<not> (of_nat ?p + (- 1) :: size_t) \<ge> maxInputBufferLength (conf s)"
    by (simp only: word_le_nat_alt)
  with assms(1,4) show ?thesis by (simp add: handle_input_def)
qed

lemma negative_content_length:
  assumes "posInputBuffer b < 2 ^ 31 - 1"
  shows "accept_body b (int (posInputBuffer b) + 1) (- 1) r = Inl Length_error"
proof -
  have "sum_fits (int (posInputBuffer b) + 1) (- 1)" using assms by (simp add: sum_fits_def)
  moreover have "string_max_size < unat (of_int (- 1) :: size_t)"
    using size_of_neg_int [of "- 1"] by (simp add: unat_eq_nat_uint string_max_size_def)
  ultimately show ?thesis by (simp add: accept_body_def setBody_def)
qed

lemma content_length_overflow: "0 < n \<Longrightarrow> accept_body b n (2 ^ 31 - 1) r = Inl Undefined"
  by (simp add: accept_body_def sum_fits_def)

lemma same_clock_undefined:
  assumes "in_range fd (buffers s)" "in_range fd (aliveSockets s)" "task_fd t = fd" "timePoint t = aliveSockets s ! nat fd"
    and "clock env fd = aliveSockets s ! nat fd" "closeAllSocketsAndClearData env fd s = Inr s'"
  shows "deliver_task env' t s' = Inl Undefined"
proof -
  have "buffers s' ! nat fd = None" "aliveSockets s' ! nat fd = timePoint t" "in_range fd (aliveSockets s')"
    using assms by (auto simp: closeAllSocketsAndClearData_def split: if_splits)
  then show ?thesis using assms(3) by (simp add: deliver_task_def writeToOutputBuffer_def deref_def)
qed

text \<open>
  The parser is handed one byte more than was received. On a fresh buffer, or one that held a longer request, that byte
  is whatever the memory holds: a control byte there ends a request whose first packet does not complete it.
\<close>

lemma split_request_rejected:
  "\<exists>b. handle_input (env_after 9) regexec (ev_read (sample_event_env 9 ''GET /ind'')) Inr 5 sample_connected =
     closeAllSocketsAndClearData (env_after 9) 5 (set_buffer 5 (Some b) sample_connected)"
proof -
  have p: "phr_parse_request False (''GET /ind'' @ [CHR 0x00]) 100 0 = Failed" by code_simp
  obtain b where b: "deref (buffers sample_connected) 5 = Inr b" "posInputBuffer b = 0" "inputBuffer b = replicate 100 CHR 0x00"
    by (simp add: deref_Inr in_range_def sample_connected_def sample_server_fields bufferFactory_def)
  let ?mem = "''GET /ind'' @ replicate 92 CHR 0x00"
  have add: "addDataToInputBuffer ''GET /ind'' b = Inr (b\<lparr>inputBuffer := ?mem, posInputBuffer := 8\<rparr>)"
    using b(2,3) by (simp add: addDataToInputBuffer_def mem_write_def)
  have "mem_read ?mem 0 9 = Inr (''GET /ind'' @ [CHR 0x00])" by (simp add: mem_read_def)
  moreover have "unat (maxInputBufferLength (conf sample_connected)) = 100" "maxInputBufferLength (conf sample_connected) = 100"
    by (simp_all add: sample_connected_fields sample_conf_def)
  ultimately show ?thesis
    using b(1,2) add p by (auto simp: handle_input_def sample_event_env_def)
qed

end
