(* ===== verification/Plog.thy ===== *)
theory Plog
  imports Response
begin

text \<open>
  Logging (\<^verbatim>\<open>plog/\<close> and the formatter of \<^verbatim>\<open>server/server.h\<close>), in the Linux configuration: severities,
  records, formatters, the logger and the console appenders. \<^verbatim>\<open>nstring\<close> is \<^verbatim>\<open>std::string\<close>. The
  broken-down time is what \<^verbatim>\<open>localtime_r\<close> or \<^verbatim>\<open>gmtime_r\<close> makes of the time of the record.
\<close>

abbreviation QUOTE :: char where
  "QUOTE \<equiv> CHR 0x22"

subsection \<open>Severities\<close>

datatype Severity = none | fatal | error | warning | info | debug | verbose

primrec severity_level :: "Severity \<Rightarrow> nat" where
  "severity_level none = 0"
| "severity_level fatal = 1"
| "severity_level error = 2"
| "severity_level warning = 3"
| "severity_level info = 4"
| "severity_level debug = 5"
| "severity_level verbose = 6"

lemma severity_level_eq [simp]: "severity_level a = severity_level b \<longleftrightarrow> a = b"
  by (cases a; cases b) simp_all

text \<open>The order of the enumeration, so that the library's facts on linear orders apply.\<close>

instantiation Severity :: linorder
begin

definition less_eq_Severity :: "Severity \<Rightarrow> Severity \<Rightarrow> bool" where
  "less_eq_Severity a b \<longleftrightarrow> severity_level a \<le> severity_level b"

definition less_Severity :: "Severity \<Rightarrow> Severity \<Rightarrow> bool" where
  "less_Severity a b \<longleftrightarrow> severity_level a < severity_level b"

instance
  by standard (auto simp: less_eq_Severity_def less_Severity_def)

end

definition severityToString :: "Severity \<Rightarrow> bytes" where
  "severityToString s =
     (case s of
        fatal \<Rightarrow> ''FATAL''
      | error \<Rightarrow> ''ERROR''
      | warning \<Rightarrow> ''WARN''
      | info \<Rightarrow> ''INFO''
      | debug \<Rightarrow> ''DEBUG''
      | verbose \<Rightarrow> ''VERB''
      | none \<Rightarrow> ''NONE'')"

text \<open>
  The loop over \<^verbatim>\<open>fatal\<close> to \<^verbatim>\<open>verbose\<close>; only the first character counts, the one of an empty C string
  is the NUL.
\<close>

fun severity_search :: "Severity list \<Rightarrow> char \<Rightarrow> Severity" where
  "severity_search [] c = none"
| "severity_search (s # ss) c = (if hd (severityToString s) = c then s else severity_search ss c)"

definition severityFromString :: "bytes \<Rightarrow> Severity" where
  "severityFromString str =
     severity_search [fatal, error, warning, info, debug, verbose] (hd (c_str str @ [CHR 0x00]))"

lemma severityFromString_inverse: "severityFromString (severityToString s) = s"
  by (cases s) (simp_all add: severityFromString_def severityToString_def c_str_def)

subsection \<open>Strings of the library\<close>

text \<open>
  \<^verbatim>\<open>processFuncName\<close>: what stands between the last space before the first parenthesis and that
  parenthesis; the loop runs backwards from the parenthesis.
\<close>

fun func_begin :: "bytes \<Rightarrow> nat \<Rightarrow> nat" where
  "func_begin func 0 = 0"
| "func_begin func (Suc i) = (if func ! i = CHR '' '' then Suc i else func_begin func i)"

definition processFuncName :: "bytes \<Rightarrow> bytes" where
  "processFuncName func =
     (case strchr func CHR ''('' of
        None \<Rightarrow> func
      | Some funcEnd \<Rightarrow> drop (func_begin func funcEnd) (take funcEnd func))"

lemma func_begin_correct:
  "n \<le> length func \<Longrightarrow>
   func_begin func n \<le> n \<and> CHR '' '' \<notin> set (drop (func_begin func n) (take n func)) \<and>
   (func_begin func n \<noteq> 0 \<longrightarrow> func ! (func_begin func n - 1) = CHR '' '')"
proof (induction n)
  case (Suc n)
  then show ?case by (auto simp: take_Suc_conv_app_nth)
qed simp

definition findExtensionDot :: "bytes \<Rightarrow> nat option" where
  "findExtensionDot fileName = strrchr fileName CHR ''.''"

definition splitFileName :: "bytes \<Rightarrow> bytes \<times> bytes" where
  "splitFileName fileName =
     (case findExtensionDot fileName of
        Some dot \<Rightarrow> (take dot fileName, drop (dot + 1) fileName)
      | None \<Rightarrow> (fileName, []))"

subsection \<open>Records\<close>

record Time =
  time_sec :: nat
  millitm :: nat

text \<open>\<^verbatim>\<open>ftime\<close> from what \<^verbatim>\<open>gettimeofday\<close> returns; the milliseconds are an \<^verbatim>\<open>unsigned short\<close>.\<close>

definition ftime :: "nat \<times> nat \<Rightarrow> Time" where
  "ftime tv = \<lparr>time_sec = fst tv, millitm = (snd tv div 1000) mod 2 ^ 16\<rparr>"

record Record =
  m_time :: Time
  m_severity :: Severity
  m_tid :: nat
  m_object :: bytes
  m_line :: nat
  m_message :: bytes
  m_func :: bytes
  m_file :: bytes

definition Record_new ::
  "nat \<Rightarrow> nat \<times> nat \<Rightarrow> Severity \<Rightarrow> bytes \<Rightarrow> nat \<Rightarrow> bytes \<Rightarrow> bytes \<Rightarrow> Record" where
  "Record_new tid tv sev func line file object =
     \<lparr>m_time = ftime tv, m_severity = sev, m_tid = tid, m_object = object, m_line = line, m_message = [],
      m_func = func, m_file = file\<rparr>"

text \<open>
  What is streamed into a record: a character, a C string that may be null, a \<^verbatim>\<open>std::string\<close> (by its
  \<^verbatim>\<open>c_str\<close>, so up to its first NUL) and numbers.
\<close>

datatype log_item = Log_char char | Log_cstr "bytes option" | Log_string bytes | Log_int int

definition item_text :: "log_item \<Rightarrow> bytes" where
  "item_text i =
     (case i of
        Log_char c \<Rightarrow> c_str [c]
      | Log_cstr None \<Rightarrow> ''(null)''
      | Log_cstr (Some s) \<Rightarrow> c_str s
      | Log_string s \<Rightarrow> c_str s
      | Log_int n \<Rightarrow> int_to_string n)"

definition Record_stream :: "Record \<Rightarrow> log_item \<Rightarrow> Record" where
  "Record_stream r i = r\<lparr>m_message := m_message r @ item_text i\<rparr>"

definition getMessage :: "Record \<Rightarrow> bytes" where
  "getMessage r = c_str (m_message r)"

definition getFunc :: "Record \<Rightarrow> bytes" where
  "getFunc r = c_str (processFuncName (m_func r))"

lemma item_text_no_NUL: "CHR 0x00 \<notin> set (item_text i)"
  by (cases i) (auto simp: item_text_def c_str_def split: option.split dest: set_takeWhileD)

text \<open>A message that was streamed into a record is read back completely.\<close>

lemma Record_message:
  "m_message (foldl Record_stream r is) = m_message r @ concat (map item_text is)"
  by (induction "is" arbitrary: r) (simp_all add: Record_stream_def)

lemma getMessage_streamed:
  assumes "m_message r = []"
  shows "getMessage (foldl Record_stream r is) = concat (map item_text is)"
proof -
  have "CHR 0x00 \<notin> set (concat (map item_text is))" using item_text_no_NUL by auto
  with assms show ?thesis by (simp add: getMessage_def Record_message c_str_no_NUL)
qed

subsection \<open>Formatters\<close>

text \<open>\<^verbatim>\<open>std::setw\<close> with a fill character: right-aligned for numbers, left-aligned for the severity.\<close>

definition setw :: "nat \<Rightarrow> char \<Rightarrow> bytes \<Rightarrow> bytes" where
  "setw n fill s = replicate (n - length s) fill @ s"

definition setw_left :: "nat \<Rightarrow> char \<Rightarrow> bytes \<Rightarrow> bytes" where
  "setw_left n fill s = s @ replicate (n - length s) fill"

definition padded :: "nat \<Rightarrow> nat \<Rightarrow> bytes" where
  "padded n v = setw n CHR ''0'' (to_string v)"

definition date_text :: "char \<Rightarrow> tm \<Rightarrow> bytes" where
  "date_text sep t = to_string (tm_year t + 1900) @ [sep] @ padded 2 (tm_mon t + 1) @ [sep] @ padded 2 (tm_mday t)"

definition time_text :: "tm \<Rightarrow> Record \<Rightarrow> bytes" where
  "time_text t r = padded 2 (tm_hour t) @ '':'' @ padded 2 (tm_min t) @ '':'' @ padded 2 (tm_sec t) @ ''.'' @
     padded 3 (millitm (m_time r))"

definition stamp :: "tm \<Rightarrow> Record \<Rightarrow> bytes" where
  "stamp t r = date_text CHR ''-'' t @ '' '' @ time_text t r @ '' '' @
     setw_left 5 CHR '' '' (severityToString (m_severity r)) @ '' ''"

text \<open>The formatter of the program.\<close>

definition Formatter_format :: "tm \<Rightarrow> Record \<Rightarrow> bytes" where
  "Formatter_format t r = stamp t r @ ''[onyxup] '' @ getMessage r @ [LF]"

definition TxtFormatter_format :: "tm \<Rightarrow> Record \<Rightarrow> bytes" where
  "TxtFormatter_format t r =
     stamp t r @ ''['' @ to_string (m_tid r) @ ''] '' @ ''['' @ getFunc r @ ''@'' @ to_string (m_line r) @ ''] '' @
     getMessage r @ [LF]"

definition FuncMessageFormatter_format :: "Record \<Rightarrow> bytes" where
  "FuncMessageFormatter_format r = getFunc r @ ''@'' @ to_string (m_line r) @ '': '' @ getMessage r @ [LF]"

definition MessageOnlyFormatter_format :: "Record \<Rightarrow> bytes" where
  "MessageOnlyFormatter_format r = getMessage r @ [LF]"

text \<open>
  The loop \<^verbatim>\<open>while (!split.eof())\<close> of the CSV formatter: a token up to the next quotation mark, in
  quotation marks; the stream is at its end when no mark was found.
\<close>

function csv_tokens :: "bytes \<Rightarrow> bytes" where
  "csv_tokens s =
     (let token = takeWhile (\<lambda>c. c \<noteq> QUOTE) s; rest = dropWhile (\<lambda>c. c \<noteq> QUOTE) s
      in [QUOTE] @ token @ [QUOTE] @ (if rest = [] then [] else csv_tokens (tl rest)))"
  by pat_completeness auto
termination
proof (relation "measure length", goal_cases)
  case (2 s token rest)
  then have "length rest \<le> length s" using length_dropWhile_le by blast
  with 2(3) show ?case by (cases rest) simp_all
qed simp

declare csv_tokens.simps [simp del]

definition CsvFormatter_header :: bytes where
  "CsvFormatter_header = ''Date;Time;Severity;TID;This;Function;Message'' @ [LF]"

definition kMaxMessageSize :: nat where
  "kMaxMessageSize = 32000"

definition csv_message :: "bytes \<Rightarrow> bytes" where
  "csv_message m = (if length m > kMaxMessageSize then take kMaxMessageSize m @ ''...'' else m)"

definition csv_prefix :: "tm \<Rightarrow> Record \<Rightarrow> bytes" where
  "csv_prefix t r =
     date_text CHR ''/'' t @ '';'' @ time_text t r @ '';'' @ severityToString (m_severity r) @ '';'' @
     to_string (m_tid r) @ '';'' @ m_object r @ '';'' @ getFunc r @ ''@'' @ to_string (m_line r) @ '';''"

definition CsvFormatter_format :: "tm \<Rightarrow> Record \<Rightarrow> bytes" where
  "CsvFormatter_format t r = csv_prefix t r @ csv_tokens (csv_message (getMessage r)) @ [LF]"

subsection \<open>Reading a CSV line\<close>

text \<open>A quoted field after its opening mark: a doubled mark stands for one, a single one ends it.\<close>

fun read_quoted :: "bytes \<Rightarrow> (bytes \<times> bytes) option" where
  "read_quoted [] = None"
| "read_quoted (c # cs) =
     (if c \<noteq> QUOTE then map_option (apfst (Cons c)) (read_quoted cs)
      else (case cs of
              [] \<Rightarrow> Some ([], [])
            | d # ds \<Rightarrow>
                if d = QUOTE then map_option (apfst (Cons QUOTE)) (read_quoted ds) else Some ([], cs)))"

fun read_fields :: "nat \<Rightarrow> bytes \<Rightarrow> bytes list \<times> bytes" where
  "read_fields 0 s = ([], s)"
| "read_fields (Suc n) s =
     (let (fs, rest) = read_fields n (tl (dropWhile (\<lambda>c. c \<noteq> CHR '';'') s))
      in (takeWhile (\<lambda>c. c \<noteq> CHR '';'') s # fs, rest))"

text \<open>Six plain fields, each ended by a semicolon, a quoted one and the end of the line.\<close>

definition read_csv_line :: "bytes \<Rightarrow> (bytes list \<times> bytes) option" where
  "read_csv_line l =
     (case read_fields 6 l of
        (fs, q # rest) \<Rightarrow>
          if q \<noteq> QUOTE then None
          else (case read_quoted rest of
                  Some (m, eol) \<Rightarrow> if eol = [LF] then Some (fs, m) else None
                | None \<Rightarrow> None)
      | _ \<Rightarrow> None)"

lemma read_quoted_prefix:
  "QUOTE \<notin> set a \<Longrightarrow> read_quoted (a @ s) = map_option (apfst ((@) a)) (read_quoted s)"
  by (induction a) (auto simp: option.map_comp comp_def apfst_def map_prod_def split: prod.splits
        intro!: option.map_ident_strong [symmetric] option.map_cong)

lemma csv_tokens_reads:
  "\<exists>f. csv_tokens m = QUOTE # f \<and> read_quoted (f @ [LF]) = Some (m, [LF])"
proof (induction m rule: csv_tokens.induct)
  case (1 m)
  define a where "a = takeWhile (\<lambda>c. c \<noteq> QUOTE) m"
  have a: "QUOTE \<notin> set a" by (auto simp: a_def dest: set_takeWhileD)
  show ?case
  proof (cases "dropWhile (\<lambda>c. c \<noteq> QUOTE) m")
    case Nil
    then have "a = m" by (metis a_def append_Nil2 takeWhile_dropWhile_id)
    with Nil a show ?thesis
      by (simp add: csv_tokens.simps [of m] a_def [symmetric] read_quoted_prefix Let_def)
  next
    case (Cons q b)
    then have q: "q = QUOTE" by (metis (mono_tags) hd_dropWhile list.discI list.sel(1))
    then have m: "m = a @ QUOTE # b" using Cons by (metis a_def takeWhile_dropWhile_id)
    from 1 [OF refl refl] Cons obtain f where
      f: "csv_tokens b = QUOTE # f" "read_quoted (f @ [LF]) = Some (b, [LF])" by auto
    have "csv_tokens m = QUOTE # a @ QUOTE # QUOTE # f"
      by (simp add: csv_tokens.simps [of m] Cons a_def [symmetric] f(1) Let_def)
    moreover have "read_quoted ((a @ QUOTE # QUOTE # f) @ [LF]) = Some (m, [LF])"
      by (simp add: read_quoted_prefix [OF a] f(2) m)
    ultimately show ?thesis by (intro exI [of _ "a @ QUOTE # QUOTE # f"]) simp
  qed
qed

lemma read_fields_field:
  "CHR '';'' \<notin> set f \<Longrightarrow>
   read_fields (Suc n) (f @ CHR '';'' # s) = apfst (Cons f) (read_fields n s)"
  using split_at_delim [of "CHR '';''" f s] by (simp add: apfst_def map_prod_def split: prod.split)

lemma to_string_no_semicolon [simp]: "CHR '';'' \<notin> set (to_string n)"
  using to_string_digits [of "CHR '';''" n] by (auto simp: isdigit_def byte_val_def)

lemma fields_no_semicolon [simp]:
  "CHR '';'' \<notin> set (padded n v)"
  "c \<noteq> CHR '';'' \<Longrightarrow> CHR '';'' \<notin> set (date_text c t)"
  "CHR '';'' \<notin> set (time_text t r)"
  "CHR '';'' \<notin> set (severityToString s)"
  by (auto simp: padded_def setw_def date_text_def time_text_def severityToString_def split: Severity.splits)

text \<open>
  C39: a line of the CSV log can be read back: the six plain columns are the ones the formatter was
  given and the quoted message, whatever quotation marks, semicolons or line ends it has, is the
  message of the record, cut at \<^verbatim>\<open>kMaxMessageSize\<close> bytes and marked when it was longer. What is
  required is that neither the function name nor the printed object has a semicolon.
\<close>

theorem csv_line_roundtrip:
  assumes "CHR '';'' \<notin> set (m_object r)" and "CHR '';'' \<notin> set (getFunc r)"
  shows "read_csv_line (CsvFormatter_format t r) =
           Some ([date_text CHR ''/'' t, time_text t r, severityToString (m_severity r),
                  to_string (m_tid r), m_object r, getFunc r @ ''@'' @ to_string (m_line r)],
                 if length (getMessage r) \<le> kMaxMessageSize then getMessage r
                 else take kMaxMessageSize (getMessage r) @ ''...'')"
proof -
  obtain f where f: "csv_tokens (csv_message (getMessage r)) = QUOTE # f"
    "read_quoted (f @ [LF]) = Some (csv_message (getMessage r), [LF])"
    using csv_tokens_reads by blast
  have func: "CHR '';'' \<notin> set (getFunc r @ ''@'' @ to_string (m_line r))" using assms by simp
  have "read_fields 6 (CsvFormatter_format t r) =
      ([date_text CHR ''/'' t, time_text t r, severityToString (m_severity r), to_string (m_tid r),
        m_object r, getFunc r @ ''@'' @ to_string (m_line r)], QUOTE # f @ [LF])"
    using assms read_fields_field [OF func, of 0]
    by (simp add: CsvFormatter_format_def csv_prefix_def f(1) numeral_eq_Suc read_fields_field
        del: read_fields.simps(2))
  then show ?thesis by (simp add: read_csv_line_def f(2) csv_message_def)
qed

definition sample_record :: Record where
  "sample_record =
     foldl Record_stream
       (Record_new 7 (1600000000, 123456) warning ''void onyxup::HttpServer::run()'' 42 [] ''0'')
       [Log_cstr (Some ''sent; ''), Log_int 3, Log_char QUOTE, Log_cstr None, Log_char LF]"

definition sample_tm :: tm where
  "sample_tm = \<lparr>tm_year = 120, tm_mon = 8, tm_mday = 13, tm_hour = 12, tm_min = 0, tm_sec = 0\<rparr>"

theorem csv_line_roundtrip_witness:
  "read_csv_line (CsvFormatter_format sample_tm sample_record) =
     Some ([''2020/09/13'', ''12:00:00.123'', ''WARN'', ''7'', ''0'', ''onyxup::HttpServer::run@42''],
           ''sent; 3'' @ [QUOTE] @ ''(null)'' @ [LF])"
proof -
  note defs = sample_record_def Record_new_def Record_stream_def item_text_def getFunc_def processFuncName_def
    strchr_def str_find_char c_str_def getMessage_def ftime_def int_to_string_def
  have [simp]: "to_string 3 = ''3''" by code_simp
  have "m_object sample_record = ''0''" "m_tid sample_record = 7" "m_line sample_record = 42"
    "m_severity sample_record = warning" "millitm (m_time sample_record) = 123"
    "getMessage sample_record = ''sent; 3'' @ [QUOTE] @ ''(null)'' @ [LF]"
    by (simp_all add: defs)
  moreover have "getFunc sample_record = ''onyxup::HttpServer::run''"
  proof -
    have "m_func sample_record = ''void onyxup::HttpServer::run()''" by (simp add: defs)
    moreover have "c_str (processFuncName ''void onyxup::HttpServer::run()'') = ''onyxup::HttpServer::run''"
      by code_simp
    ultimately show ?thesis by (simp add: getFunc_def)
  qed
  moreover note csv_line_roundtrip [of sample_record sample_tm]
  moreover have "to_string 2020 = ''2020''" by code_simp
  moreover have "to_string 9 = ''9''" "to_string 13 = ''13''" "to_string 12 = ''12''" "to_string 0 = ''0''"
    "to_string 123 = ''123''" "to_string 7 = ''7''" "to_string 42 = ''42''" by code_simp+
  ultimately show ?thesis
    by (simp add: kMaxMessageSize_def date_text_def time_text_def padded_def setw_def sample_tm_def severityToString_def)
qed

subsection \<open>The logger\<close>

record 'a Logger =
  m_maxSeverity :: Severity
  m_appenders :: "'a list"

definition addAppender :: "'a \<Rightarrow> 'a Logger \<Rightarrow> 'a Logger" where
  "addAppender a l = l\<lparr>m_appenders := m_appenders l @ [a]\<rparr>"

definition setMaxSeverity :: "Severity \<Rightarrow> 'a Logger \<Rightarrow> 'a Logger" where
  "setMaxSeverity s l = l\<lparr>m_maxSeverity := s\<rparr>"

definition checkSeverity :: "Severity \<Rightarrow> 'a Logger \<Rightarrow> bool" where
  "checkSeverity s l \<longleftrightarrow> s \<le> m_maxSeverity l"

text \<open>
  An appender is an object with a state; appenders are named, since one may be registered twice.
  \<open>put a r\<close> is its \<^verbatim>\<open>write\<close>.
\<close>

definition Logger_append :: "('a \<Rightarrow> Record \<Rightarrow> 'o \<Rightarrow> 'o) \<Rightarrow> Record \<Rightarrow> 'a Logger \<Rightarrow> 'o \<Rightarrow> 'o" where
  "Logger_append put r l out = fold (\<lambda>a. put a r) (m_appenders l) out"

definition Logger_write :: "('a \<Rightarrow> Record \<Rightarrow> 'o \<Rightarrow> 'o) \<Rightarrow> Record \<Rightarrow> 'a Logger \<Rightarrow> 'o \<Rightarrow> 'o" where
  "Logger_write put r l out = (if checkSeverity (m_severity r) l then Logger_append put r l out else out)"

text \<open>\<^verbatim>\<open>LOG(severity) << ...\<close>: nothing is evaluated without a logger or above its severity.\<close>

definition LOG_record :: "('a \<Rightarrow> Record \<Rightarrow> 'o \<Rightarrow> 'o) \<Rightarrow> Record \<Rightarrow> log_item list \<Rightarrow> 'a Logger option \<Rightarrow> 'o \<Rightarrow> 'o" where
  "LOG_record put r is lg out =
     (case lg of
        None \<Rightarrow> out
      | Some l \<Rightarrow>
          if \<not> checkSeverity (m_severity r) l then out
          else Logger_append put (foldl Record_stream r is) l out)"

text \<open>
  \<^verbatim>\<open>init\<close>: the logger is a static local object, so only the first call sets the severity; every call
  adds its appender.
\<close>

definition init :: "Severity \<Rightarrow> 'a option \<Rightarrow> 'a Logger option \<Rightarrow> 'a Logger" where
  "init maxSeverity appender lg =
     (let l = (case lg of None \<Rightarrow> \<lparr>m_maxSeverity = maxSeverity, m_appenders = []\<rparr> | Some l \<Rightarrow> l)
      in case appender of None \<Rightarrow> l | Some a \<Rightarrow> addAppender a l)"

text \<open>The macro and \<^verbatim>\<open>Logger::write\<close> filter alike, and a second \<^verbatim>\<open>init\<close> registers an appender once more.\<close>

lemma LOG_record_writes:
  "LOG_record put r is (Some l) out = Logger_write put (foldl Record_stream r is) l out"
proof -
  have "m_severity (foldl Record_stream r is) = m_severity r"
    by (induction "is" arbitrary: r) (simp_all add: Record_stream_def)
  then show ?thesis by (simp add: LOG_record_def Logger_write_def)
qed

lemma init_twice:
  "init s' (Some a) (Some (init s (Some a) None)) = \<lparr>m_maxSeverity = s, m_appenders = [a, a]\<rparr>"
  by (simp add: init_def addAppender_def)

subsection \<open>The interface of an appender\<close>

text \<open>What a stream that only grows promises: every record adds its text at the end.\<close>

locale log_sink =
  fixes put :: "Record \<Rightarrow> 'o \<Rightarrow> 'o" and contents :: "'o \<Rightarrow> bytes" and render :: "Record \<Rightarrow> bytes"
  assumes contents_put: "contents (put r out) = contents out @ render r"
begin

lemma contents_fold: "contents (fold put rs out) = contents out @ concat (map render rs)"
  by (induction rs arbitrary: out) (simp_all add: contents_put)

lemma contents_prefix: "prefix (contents out) (contents (fold put rs out))"
  by (simp add: contents_fold)

end

subsection \<open>The console\<close>

definition ESC :: char where
  "ESC = CHR 0x1B"

definition ConsoleAppender_write :: "(Record \<Rightarrow> bytes) \<Rightarrow> Record \<Rightarrow> bytes \<Rightarrow> bytes" where
  "ConsoleAppender_write format r out = out @ format r"

definition setColor :: "bool \<Rightarrow> Severity \<Rightarrow> bytes" where
  "setColor m_isatty s =
     (if m_isatty then
        (case s of
           fatal \<Rightarrow> ESC # ''[97m'' @ ESC # ''[41m''
         | error \<Rightarrow> ESC # ''[91m''
         | warning \<Rightarrow> ESC # ''[93m''
         | debug \<Rightarrow> ESC # ''[96m''
         | verbose \<Rightarrow> ESC # ''[96m''
         | _ \<Rightarrow> [])
      else [])"

definition resetColor :: "bool \<Rightarrow> bytes" where
  "resetColor m_isatty = (if m_isatty then ESC # ''[0m'' @ ESC # ''[0K'' else [])"

definition ColorConsoleAppender_write :: "bool \<Rightarrow> (Record \<Rightarrow> bytes) \<Rightarrow> Record \<Rightarrow> bytes \<Rightarrow> bytes" where
  "ColorConsoleAppender_write m_isatty format r out =
     out @ setColor m_isatty (m_severity r) @ format r @ resetColor m_isatty"

interpretation console: log_sink "ConsoleAppender_write format" "\<lambda>out. out" format for format
  by unfold_locales (simp add: ConsoleAppender_write_def)

interpretation color: log_sink "ColorConsoleAppender_write m_isatty format" "\<lambda>out. out"
  "\<lambda>r. setColor m_isatty (m_severity r) @ format r @ resetColor m_isatty" for m_isatty format
  by unfold_locales (simp add: ColorConsoleAppender_write_def)

text \<open>A console log is complete and in order, up to the severity of the logger.\<close>

lemma console_log_complete:
  assumes "m_appenders l = [()]"
  shows "fold (\<lambda>r. Logger_write (\<lambda>_. ConsoleAppender_write format) r l) rs [] =
         concat (map format (filter (\<lambda>r. m_severity r \<le> m_maxSeverity l) rs))"
proof -
  have "fold (\<lambda>r. Logger_write (\<lambda>_. ConsoleAppender_write format) r l) rs out =
      fold (ConsoleAppender_write format) (filter (\<lambda>r. m_severity r \<le> m_maxSeverity l) rs) out" for out
    using assms by (induction rs arbitrary: out) (simp_all add: Logger_write_def Logger_append_def checkSeverity_def)
  then show ?thesis using console.contents_fold [of format _ "[]"] by simp
qed

end
