(* ===== verification/PlogFiles.thy ===== *)
theory PlogFiles
  imports Plog "HOL-Library.Sublist"
begin

text \<open>
  The rolling log file (\<^verbatim>\<open>plog/Appenders/RollingFileAppender.h\<close>, \<^verbatim>\<open>util::File\<close> and the UTF-8 converter).
  The directory is a map from file names to contents that nobody else changes; the file that is open is
  known by its name. Whether the system calls succeed, and how much a \<^verbatim>\<open>write\<close> takes, is a parameter.
\<close>

subsection \<open>Files\<close>

type_synonym dir = "bytes \<rightharpoonup> bytes"

record file_env =
  open_ok :: bool
  unlink_ok :: bool
  rename_ok :: "int \<Rightarrow> bool"
  header_taken :: "nat \<Rightarrow> int"
  record_taken :: "nat \<Rightarrow> int"

text \<open>
  \<^verbatim>\<open>open\<close> with \<^verbatim>\<open>O_CREAT\<close> and without \<^verbatim>\<open>O_TRUNC\<close>, then a seek to the end, whose offset is the result.
\<close>

definition File_open :: "bool \<Rightarrow> bytes \<Rightarrow> dir \<Rightarrow> bytes option \<times> int \<times> dir" where
  "File_open ok fileName fs =
     (if \<not> ok then (None, -1, fs)
      else (case fs fileName of
              None \<Rightarrow> (Some fileName, 0, fs(fileName \<mapsto> []))
            | Some content \<Rightarrow> (Some fileName, int (length content), fs)))"

definition File_write :: "(nat \<Rightarrow> int) \<Rightarrow> bytes option \<Rightarrow> bytes \<Rightarrow> dir \<Rightarrow> int \<times> dir" where
  "File_write taken fd str fs =
     (case fd of
        None \<Rightarrow> (-1, fs)
      | Some f \<Rightarrow>
          let n = taken (length str)
          in (n, fs(f \<mapsto> (case fs f of None \<Rightarrow> [] | Some c \<Rightarrow> c) @ take (nat n) str)))"

definition File_unlink :: "bool \<Rightarrow> bytes \<Rightarrow> dir \<Rightarrow> dir" where
  "File_unlink ok fileName fs = (if ok then fs(fileName := None) else fs)"

text \<open>\<^verbatim>\<open>rename\<close> replaces the target; it fails when there is no source.\<close>

definition File_rename :: "bool \<Rightarrow> bytes \<Rightarrow> bytes \<Rightarrow> dir \<Rightarrow> dir" where
  "File_rename ok old new fs =
     (if ok then (case fs old of None \<Rightarrow> fs | Some c \<Rightarrow> fs(old := None, new \<mapsto> c)) else fs)"

subsection \<open>The converter\<close>

definition kBOM :: bytes where
  "kBOM = [CHR 0xEF, CHR 0xBB, CHR 0xBF]"

definition UTF8Converter_convert :: "bytes \<Rightarrow> bytes" where
  "UTF8Converter_convert str = str"

definition UTF8Converter_header :: "bytes \<Rightarrow> bytes" where
  "UTF8Converter_header str = kBOM @ UTF8Converter_convert str"

subsection \<open>The appender\<close>

record RollingFileAppender =
  m_file :: "bytes option"
  m_fileSize :: int
  m_maxFileSize :: int
  m_maxFiles :: int
  m_fileExt :: bytes
  m_fileNameNoExt :: bytes
  m_firstWrite :: bool

text \<open>The cast from \<^verbatim>\<open>size_t\<close> to \<^verbatim>\<open>off_t\<close> is the signed reading of the word.\<close>

definition RollingFileAppender_new :: "bytes \<Rightarrow> 64 word \<Rightarrow> int \<Rightarrow> RollingFileAppender" where
  "RollingFileAppender_new fileName maxFileSize maxFiles =
     \<lparr>m_file = None, m_fileSize = 0, m_maxFileSize = max (sint maxFileSize) 1000, m_maxFiles = maxFiles,
      m_fileExt = snd (splitFileName fileName), m_fileNameNoExt = fst (splitFileName fileName),
      m_firstWrite = True\<rparr>"

definition buildFileName :: "RollingFileAppender \<Rightarrow> int \<Rightarrow> bytes" where
  "buildFileName a fileNumber =
     m_fileNameNoExt a @ (if fileNumber > 0 then CHR ''.'' # int_to_string fileNumber else []) @
     (if m_fileExt a \<noteq> [] then CHR ''.'' # m_fileExt a else [])"

definition openLogFile :: "file_env \<Rightarrow> bytes \<Rightarrow> RollingFileAppender \<times> dir \<Rightarrow> RollingFileAppender \<times> dir" where
  "openLogFile e header st =
     (let (a, fs) = st;
          (fd, size, fs) = File_open (open_ok e) (buildFileName a 0) fs;
          a = a\<lparr>m_file := fd, m_fileSize := size\<rparr>
      in if m_fileSize a = 0 then
           let (bytesWritten, fs) = File_write (header_taken e) (m_file a) (UTF8Converter_header header) fs
           in (if bytesWritten > 0 then a\<lparr>m_fileSize := m_fileSize a + bytesWritten\<rparr> else a, fs)
         else (a, fs))"

text \<open>The loop from \<open>n - 1\<close> down to 0.\<close>

primrec roll_loop :: "file_env \<Rightarrow> RollingFileAppender \<Rightarrow> nat \<Rightarrow> dir \<Rightarrow> dir" where
  "roll_loop e a 0 fs = fs"
| "roll_loop e a (Suc n) fs =
     roll_loop e a n
       (File_rename (rename_ok e (int n)) (buildFileName a (int n)) (buildFileName a (int n + 1)) fs)"

definition rollLogFiles :: "file_env \<Rightarrow> bytes \<Rightarrow> RollingFileAppender \<times> dir \<Rightarrow> RollingFileAppender \<times> dir" where
  "rollLogFiles e header st =
     (let (a, fs) = st;
          a = a\<lparr>m_file := None\<rparr>;
          fs = File_unlink (unlink_ok e) (buildFileName a (m_maxFiles a - 1)) fs;
          fs = roll_loop e a (nat (m_maxFiles a - 1)) fs;
          (a, fs) = openLogFile e header (a, fs)
      in (a\<lparr>m_firstWrite := False\<rparr>, fs))"

definition RollingFileAppender_write ::
  "file_env \<Rightarrow> bytes \<Rightarrow> (Record \<Rightarrow> bytes) \<Rightarrow> Record \<Rightarrow> RollingFileAppender \<times> dir \<Rightarrow> RollingFileAppender \<times> dir" where
  "RollingFileAppender_write e header format r st =
     (let (a, fs) =
            (if m_firstWrite (fst st) then
               let (a, fs) = openLogFile e header st in (a\<lparr>m_firstWrite := False\<rparr>, fs)
             else if m_maxFiles (fst st) > 0 \<and> m_fileSize (fst st) > m_maxFileSize (fst st) \<and> m_fileSize (fst st) \<noteq> -1
             then rollLogFiles e header st
             else st);
          (bytesWritten, fs) = File_write (record_taken e) (m_file a) (UTF8Converter_convert (format r)) fs
      in (if bytesWritten > 0 then a\<lparr>m_fileSize := m_fileSize a + bytesWritten\<rparr> else a, fs))"

definition isCsv :: "bytes \<Rightarrow> bool" where
  "isCsv fileName \<longleftrightarrow>
     (case findExtensionDot fileName of None \<Rightarrow> False | Some dot \<Rightarrow> drop dot fileName = ''.csv'')"

text \<open>The formatter that \<^verbatim>\<open>init\<close> chooses by the extension, with the header of its files.\<close>

definition chosen_formatter :: "bytes \<Rightarrow> (tm \<Rightarrow> Record \<Rightarrow> bytes) \<times> bytes" where
  "chosen_formatter fileName =
     (if isCsv fileName then (CsvFormatter_format, CsvFormatter_header) else (TxtFormatter_format, []))"

subsection \<open>File names\<close>

text \<open>The file with number \<open>i\<close>: different numbers are different files.\<close>

definition log_file :: "RollingFileAppender \<Rightarrow> nat \<Rightarrow> bytes" where
  "log_file a i = buildFileName a (int i)"

lemma buildFileName_log_file [simp]:
  "buildFileName a (int n) = log_file a n" "buildFileName a (int n + 1) = log_file a (Suc n)"
  "buildFileName a 0 = log_file a 0"
  by (simp_all add: log_file_def add.commute)

lemma log_file_inject [simp]: "log_file a i = log_file a j \<longleftrightarrow> i = j"
proof -
  have "i = j" if "to_string i = to_string j"
    using arg_cong [OF that, of dec_val] by simp
  then show ?thesis by (auto simp: log_file_def buildFileName_def int_to_string_def simp del: buildFileName_log_file)
qed

lemma log_file_update [simp]:
  "log_file (a\<lparr>m_file := f\<rparr>) = log_file a"
  "log_file (a\<lparr>m_fileSize := k\<rparr>) = log_file a"
  "log_file (a\<lparr>m_firstWrite := b\<rparr>) = log_file a"
  by (simp_all add: log_file_def buildFileName_def fun_eq_iff del: buildFileName_log_file)

subsection \<open>Shifting the files\<close>

definition calls_succeed :: file_env where
  "calls_succeed =
     \<lparr>open_ok = True, unlink_ok = True, rename_ok = \<lambda>_. True, header_taken = int, record_taken = int\<rparr>"

lemma calls_succeed_simps [simp]:
  "open_ok calls_succeed" "unlink_ok calls_succeed" "rename_ok calls_succeed i"
  "header_taken calls_succeed = int" "record_taken calls_succeed = int"
  by (simp_all add: calls_succeed_def)

lemma File_rename_free:
  "fs new = None \<Longrightarrow> old \<noteq> new \<Longrightarrow> File_rename True old new fs = fs(old := None, new := fs old)"
  by (auto simp: File_rename_def fun_eq_iff split: option.split)

lemma roll_loop_shifts:
  "fs (log_file a n) = None \<Longrightarrow>
   roll_loop calls_succeed a n fs (log_file a i) =
     (if i = 0 then None else if i \<le> n then fs (log_file a (i - 1)) else fs (log_file a i))"
proof (induction n arbitrary: fs)
  case (Suc n)
  define g where "g = fs(log_file a n := None, log_file a (Suc n) := fs (log_file a n))"
  have g: "g (log_file a k) = (if k = n then None else if k = Suc n then fs (log_file a n) else fs (log_file a k))" for k
    by (simp add: g_def)
  have "File_rename True (log_file a n) (log_file a (Suc n)) fs = g"
    unfolding g_def using Suc.prems by (intro File_rename_free) simp_all
  then have "roll_loop calls_succeed a (Suc n) fs = roll_loop calls_succeed a n g" by simp
  with Suc.IH [of g] show ?case by (auto simp: g le_Suc_eq)
qed auto

lemma roll_loop_other:
  "x \<notin> range (log_file a) \<Longrightarrow> roll_loop e a n fs x = fs x"
proof (induction n arbitrary: fs)
  case (Suc n)
  then have "x \<noteq> log_file a n" "x \<noteq> log_file a (Suc n)" by blast+
  with Suc show ?case by (auto simp: File_rename_def split: option.split)
qed simp

lemma File_open_ok:
  "fs f = None \<Longrightarrow> File_open True f fs = (Some f, 0, fs(f \<mapsto> []))"
  "fs f = Some c \<Longrightarrow> File_open True f fs = (Some f, int (length c), fs)"
  by (simp_all add: File_open_def)

lemma File_write_ok:
  "fs f = Some c \<Longrightarrow> File_write int (Some f) str fs = (int (length str), fs(f \<mapsto> c @ str))"
  by (simp add: File_write_def)

lemma header_length [simp]: "0 < length (UTF8Converter_header h)" "UTF8Converter_header h \<noteq> []"
  by (simp_all add: UTF8Converter_header_def kBOM_def)

text \<open>A fresh file starts with the byte order mark and the header of the formatter.\<close>

lemma openLogFile_fresh:
  assumes "fs (log_file a 0) = None"
  shows "openLogFile calls_succeed h (a, fs) =
     (a\<lparr>m_file := Some (log_file a 0), m_fileSize := int (length (UTF8Converter_header h))\<rparr>,
      fs(log_file a 0 \<mapsto> UTF8Converter_header h))"
  using assms by (simp add: openLogFile_def File_open_ok File_write_ok)

text \<open>
  With the calls succeeding, rolling moves every file to the next number, drops the last one and starts
  a fresh file; no other file is touched.
\<close>

lemma rollLogFiles_shift:
  assumes "0 < m_maxFiles a" and "rollLogFiles calls_succeed h (a, fs) = (a', fs')"
  shows "a' = a\<lparr>m_file := Some (log_file a 0), m_fileSize := int (length (UTF8Converter_header h)),
                m_firstWrite := False\<rparr>"
    and "fs' (log_file a 0) = Some (UTF8Converter_header h)"
    and "0 < i \<Longrightarrow> i < nat (m_maxFiles a) \<Longrightarrow> fs' (log_file a i) = fs (log_file a (i - 1))"
    and "nat (m_maxFiles a) \<le> i \<Longrightarrow> fs' (log_file a i) = fs (log_file a i)"
    and "x \<notin> range (log_file a) \<Longrightarrow> fs' x = fs x"
proof -
  define n where "n = nat (m_maxFiles a - 1)"
  have n: "m_maxFiles a - 1 = int n" "nat (m_maxFiles a) = Suc n" using assms by (simp_all add: n_def)
  define fs1 where "fs1 = roll_loop calls_succeed a n (fs(log_file a n := None))"
  have loop: "roll_loop calls_succeed (a\<lparr>m_file := None\<rparr>) k g = roll_loop calls_succeed a k g" for k g
    by (induction k arbitrary: g) simp_all
  have at: "fs1 (log_file a i) = (if i = 0 then None else if i \<le> n then fs (log_file a (i - 1)) else fs (log_file a i))" for i
    unfolding fs1_def by (subst roll_loop_shifts) auto
  have "fs1 (log_file (a\<lparr>m_file := None\<rparr>) 0) = None" using at [of 0] by simp
  then have *: "(a', fs') = (a\<lparr>m_file := Some (log_file a 0), m_fileSize := int (length (UTF8Converter_header h)),
      m_firstWrite := False\<rparr>, fs1(log_file a 0 \<mapsto> UTF8Converter_header h))"
    using assms(2) by (simp add: rollLogFiles_def n File_unlink_def loop fs1_def [symmetric] openLogFile_fresh)
  from * show "a' = a\<lparr>m_file := Some (log_file a 0), m_fileSize := int (length (UTF8Converter_header h)),
                m_firstWrite := False\<rparr>" "fs' (log_file a 0) = Some (UTF8Converter_header h)" by simp_all
  from * at [of i] show "0 < i \<Longrightarrow> i < nat (m_maxFiles a) \<Longrightarrow> fs' (log_file a i) = fs (log_file a (i - 1))"
    "nat (m_maxFiles a) \<le> i \<Longrightarrow> fs' (log_file a i) = fs (log_file a i)"
    by (simp_all add: n)
  show "fs' x = fs x" if "x \<notin> range (log_file a)"
  proof -
    have "x \<noteq> log_file a 0" "x \<noteq> log_file a n" using that by blast+
    with * roll_loop_other [OF that] show ?thesis by (simp add: fs1_def)
  qed
qed

subsection \<open>What the files hold\<close>

text \<open>
  The abstract log: the chunks of text in the files, the newest first. A record goes to the newest chunk,
  unless that is full: then it starts a chunk and only \<open>n - 1\<close> older ones are kept.
\<close>

definition chunks_add :: "nat \<Rightarrow> int \<Rightarrow> nat \<Rightarrow> bytes list \<Rightarrow> bytes \<Rightarrow> bytes list" where
  "chunks_add n lim h cs m =
     (if int (h + length (hd cs)) > lim then m # take (n - 1) cs else (hd cs @ m) # tl cs)"

definition holds_chunks :: "bytes \<Rightarrow> bytes list \<Rightarrow> RollingFileAppender \<times> dir \<Rightarrow> bool" where
  "holds_chunks h cs st \<longleftrightarrow>
     (let (a, fs) = st
      in cs \<noteq> [] \<and> \<not> m_firstWrite a \<and> m_file a = Some (log_file a 0) \<and>
         m_fileSize a = int (length (UTF8Converter_header h) + length (hd cs)) \<and>
         dom fs \<subseteq> range (log_file a) \<and>
         (\<forall>i. fs (log_file a i) = (if i < length cs then Some (UTF8Converter_header h @ cs ! i) else None)))"

text \<open>The settings of an appender.\<close>

definition settings :: "RollingFileAppender \<Rightarrow> int \<times> int \<times> bytes \<times> bytes" where
  "settings a = (m_maxFileSize a, m_maxFiles a, m_fileExt a, m_fileNameNoExt a)"

lemma settings_log_file: "settings a' = settings a \<Longrightarrow> log_file a' = log_file a"
  by (simp add: settings_def log_file_def buildFileName_def fun_eq_iff del: buildFileName_log_file)

lemma settings_update [simp]:
  "settings (a\<lparr>m_file := f\<rparr>) = settings a" "settings (a\<lparr>m_fileSize := k\<rparr>) = settings a"
  "settings (a\<lparr>m_firstWrite := b\<rparr>) = settings a"
  by (simp_all add: settings_def)

text \<open>The record itself goes to the end of the newest file.\<close>

lemma write_record_holds:
  assumes "holds_chunks h (c # cs) (a, fs)"
    and "File_write int (m_file a) m fs = (k, fs')"
  shows "k = int (length m) \<and> holds_chunks h ((c @ m) # cs) (a\<lparr>m_fileSize := m_fileSize a + k\<rparr>, fs')"
proof -
  have "fs (log_file a 0) = Some (UTF8Converter_header h @ c)" using assms(1) by (simp add: holds_chunks_def)
  with assms show ?thesis by (auto simp: holds_chunks_def File_write_ok nth_Cons split: nat.split if_splits)
qed

lemma roll_holds:
  assumes "holds_chunks h cs (a, fs)" and "0 < m_maxFiles a" and "length cs \<le> nat (m_maxFiles a)"
    and "rollLogFiles calls_succeed h (a, fs) = (a', fs')"
  shows "holds_chunks h ([] # take (nat (m_maxFiles a) - 1) cs) (a', fs') \<and> settings a' = settings a"
proof -
  note shift = rollLogFiles_shift [OF assms(2, 4)]
  have same: "log_file a' = log_file a" by (simp add: shift(1))
  have "fs' (log_file a i) =
      (if i < length ([] # take (nat (m_maxFiles a) - 1) cs)
       then Some (UTF8Converter_header h @ ([] # take (nat (m_maxFiles a) - 1) cs) ! i) else None)" for i
    using assms(1,3) shift(2) shift(3) [of i] shift(4) [of i]
    by (cases i; cases "i < nat (m_maxFiles a)") (auto simp: holds_chunks_def)
  moreover have "dom fs' \<subseteq> range (log_file a)"
    using assms(1) shift(5) by (fastforce simp: holds_chunks_def dom_def)
  ultimately show ?thesis by (simp add: holds_chunks_def shift(1))
qed

text \<open>One write refines one step of the abstract log.\<close>

lemma write_refines:
  assumes "holds_chunks h cs (a, fs)" and "0 < m_maxFiles a" and "length cs \<le> nat (m_maxFiles a)"
    and "RollingFileAppender_write calls_succeed h format r (a, fs) = (a', fs')"
  shows "holds_chunks h
           (chunks_add (nat (m_maxFiles a)) (m_maxFileSize a) (length (UTF8Converter_header h)) cs (format r))
           (a', fs') \<and> settings a' = settings a"
proof -
  have cs: "cs \<noteq> []" and size: "m_fileSize a = int (length (UTF8Converter_header h) + length (hd cs))"
    and first: "\<not> m_firstWrite a" using assms(1) by (simp_all add: holds_chunks_def)
  define full where "full \<longleftrightarrow> m_fileSize a > m_maxFileSize a"
  obtain b g where bg: "(if full then rollLogFiles calls_succeed h (a, fs) else (a, fs)) = (b, g)" by fastforce
  define ds where "ds = (if full then [] # take (nat (m_maxFiles a) - 1) cs else cs)"
  have b: "holds_chunks h ds (b, g)" "settings b = settings a"
    using roll_holds [OF assms(1-3)] assms(1) bg by (auto simp: ds_def split: if_splits)
  obtain k g' where kg: "File_write int (m_file b) (format r) g = (k, g')" by fastforce
  have ds: "ds = hd ds # tl ds" using cs by (simp add: ds_def)
  have k: "k = int (length (format r))"
    "holds_chunks h ((hd ds @ format r) # tl ds) (b\<lparr>m_fileSize := m_fileSize b + k\<rparr>, g')"
    using write_record_holds [of h "hd ds" "tl ds"] b(1) kg ds by auto
  have "(a', fs') = (b\<lparr>m_fileSize := m_fileSize b + k\<rparr>, g')"
    using assms(2,4) first size bg kg k(1)
    by (auto simp: RollingFileAppender_write_def UTF8Converter_convert_def full_def split: if_splits)
  moreover have "(hd ds @ format r) # tl ds =
      chunks_add (nat (m_maxFiles a)) (m_maxFileSize a) (length (UTF8Converter_header h)) cs (format r)"
    by (simp add: ds_def chunks_add_def full_def size)
  ultimately show ?thesis using k(2) b(2) by simp
qed

text \<open>The first write opens the file.\<close>

lemma first_write_refines:
  assumes "m_firstWrite a"
    and "RollingFileAppender_write calls_succeed h format r (a, Map.empty) = (a', fs')"
  shows "holds_chunks h [format r] (a', fs') \<and> settings a' = settings a"
  using assms
  by (auto simp: RollingFileAppender_write_def openLogFile_fresh UTF8Converter_convert_def File_write_ok
      holds_chunks_def split: if_splits)

text \<open>
  What the chunks are of everything that was logged: a suffix, all of it while fewer than \<open>n\<close> files are
  used; no chunk exceeds the limit by more than a record, every older one has reached it.
\<close>

definition chunks_ok :: "nat \<Rightarrow> int \<Rightarrow> nat \<Rightarrow> nat \<Rightarrow> bytes \<Rightarrow> bytes list \<Rightarrow> bool" where
  "chunks_ok n lim h len logged cs \<longleftrightarrow>
     cs \<noteq> [] \<and> length cs \<le> n \<and> suffix (concat (rev cs)) logged \<and>
     (length cs < n \<longrightarrow> concat (rev cs) = logged) \<and>
     list_all (\<lambda>c. int (h + length c) \<le> max lim (int h) + int len) cs \<and>
     list_all (\<lambda>c. lim < int (h + length c)) (tl cs)"

lemma suffix_concat_take: "suffix (concat (rev (take k cs))) (concat (rev cs))"
  by (metis append_take_drop_id concat_append rev_append suffixI)

lemma chunks_add_ok:
  assumes "chunks_ok n lim h len logged cs" and "length m \<le> len"
  shows "chunks_ok n lim h len (logged @ m) (chunks_add n lim h cs m)"
proof (cases "int (h + length (hd cs)) > lim")
  case True
  have keep: "suffix (concat (rev (take (n - 1) cs))) logged"
    using assms(1) suffix_concat_take suffix_order.trans unfolding chunks_ok_def by blast
  have all: "concat (rev (take (n - 1) cs)) = logged" if "Suc (length (take (n - 1) cs)) < n"
    using that assms(1) by (simp add: chunks_ok_def)
  have "list_all (\<lambda>c. lim < int (h + length c)) cs"
    using True assms(1) by (cases cs) (simp_all add: chunks_ok_def)
  moreover have "0 < n" using assms(1) by (cases cs) (auto simp: chunks_ok_def)
  ultimately show ?thesis using True assms keep all
    by (auto simp: chunks_ok_def chunks_add_def list_all_iff dest: in_set_takeD)
next
  case False
  have "suffix (concat (rev cs) @ m) (logged @ m)" using assms(1) by (simp add: chunks_ok_def)
  with False assms show ?thesis
    by (cases cs) (auto simp: chunks_ok_def chunks_add_def simp del: same_suffix_suffix)
qed

lemma writes_retain:
  assumes "holds_chunks h cs (a, fs)" and "0 < m_maxFiles a"
    and "chunks_ok (nat (m_maxFiles a)) (m_maxFileSize a) (length (UTF8Converter_header h)) len logged cs"
    and "list_all (\<lambda>r. length (format r) \<le> len) rs"
    and "fold (RollingFileAppender_write calls_succeed h format) rs (a, fs) = (a', fs')"
  shows "\<exists>ds. holds_chunks h ds (a', fs') \<and> settings a' = settings a \<and>
    chunks_ok (nat (m_maxFiles a)) (m_maxFileSize a) (length (UTF8Converter_header h)) len
      (logged @ concat (map format rs)) ds"
  using assms
proof (induction rs arbitrary: a fs cs logged)
  case (Cons r rs)
  obtain b g where bg: "RollingFileAppender_write calls_succeed h format r (a, fs) = (b, g)" by fastforce
  let ?n = "nat (m_maxFiles a)" and ?h = "length (UTF8Converter_header h)"
  have one: "holds_chunks h (chunks_add ?n (m_maxFileSize a) ?h cs (format r)) (b, g)"
    and same: "settings b = settings a"
    using write_refines [OF Cons.prems(1,2) _ bg] Cons.prems(3) by (auto simp: chunks_ok_def)
  have ok: "chunks_ok ?n (m_maxFileSize a) ?h len (logged @ format r) (chunks_add ?n (m_maxFileSize a) ?h cs (format r))"
    using chunks_add_ok Cons.prems(3,4) by simp
  have eqs: "m_maxFiles b = m_maxFiles a" "m_maxFileSize b = m_maxFileSize a"
    using same by (simp_all add: settings_def)
  show ?case
    using Cons.IH [OF one, of "logged @ format r"] ok Cons.prems(2,4,5) bg same by (simp add: eqs)
qed auto

text \<open>Without a number of files the log never rolls.\<close>

lemma writes_unlimited:
  assumes "holds_chunks h [c] (a, fs)" and "m_maxFiles a \<le> 0"
    and "fold (RollingFileAppender_write calls_succeed h format) rs (a, fs) = (a', fs')"
  shows "holds_chunks h [c @ concat (map format rs)] (a', fs') \<and> settings a' = settings a"
  using assms
proof (induction rs arbitrary: a fs c)
  case (Cons r rs)
  obtain k g where kg: "File_write int (m_file a) (format r) fs = (k, g)" by fastforce
  note w = write_record_holds [OF Cons.prems(1) kg]
  have "\<not> m_firstWrite a" using Cons.prems(1) by (simp add: holds_chunks_def)
  then have "RollingFileAppender_write calls_succeed h format r (a, fs) = (a\<lparr>m_fileSize := m_fileSize a + k\<rparr>, g)"
    using Cons.prems(2) kg w by (simp add: RollingFileAppender_write_def UTF8Converter_convert_def)
  with Cons.IH [OF conjunct2 [OF w]] Cons.prems(2,3) show ?case by simp
qed simp

lemma rolling_log_unlimited:
  assumes "rs \<noteq> []" and "maxFiles \<le> 0" and "a = RollingFileAppender_new fileName maxFileSize maxFiles"
    and "fold (RollingFileAppender_write calls_succeed h format) rs (a, Map.empty) = (a', fs)"
  shows "fs = [buildFileName a 0 \<mapsto> UTF8Converter_header h @ concat (map format rs)]"
proof -
  obtain r rs' where rs: "rs = r # rs'" using assms(1) by (cases rs) auto
  obtain b g where bg: "RollingFileAppender_write calls_succeed h format r (a, Map.empty) = (b, g)" by fastforce
  have a: "m_firstWrite a" "m_maxFiles a = maxFiles" using assms(3) by (simp_all add: RollingFileAppender_new_def)
  from first_write_refines [OF a(1) bg] have b: "holds_chunks h [format r] (b, g)" "settings b = settings a" by auto
  have "m_maxFiles b \<le> 0" using b(2) a(2) assms(2) by (simp add: settings_def)
  moreover have "fold (RollingFileAppender_write calls_succeed h format) rs' (b, g) = (a', fs)"
    using assms(4) rs bg by simp
  ultimately have
    e: "holds_chunks h [concat (map format rs)] (a', fs)" "settings a' = settings b"
    using writes_unlimited [OF b(1)] rs by simp_all
  have files: "fs (log_file a i) = (if i = 0 then Some (UTF8Converter_header h @ concat (map format rs)) else None)"
    and dom: "dom fs \<subseteq> range (log_file a)" for i
    using e b(2) settings_log_file [of a' a] by (simp_all add: holds_chunks_def)
  have "fs x = [log_file a 0 \<mapsto> UTF8Converter_header h @ concat (map format rs)] x" for x
  proof (cases "x \<in> range (log_file a)")
    case True
    with files show ?thesis by auto
  next
    case False
    with dom have "fs x = None" "x \<noteq> log_file a 0" by auto
    then show ?thesis by simp
  qed
  then show ?thesis by (simp add: fun_eq_iff)
qed

lemma rolling_log_limited:
  assumes "rs \<noteq> []" and "0 < maxFiles"
    and "list_all (\<lambda>r. length (format r) \<le> len) rs"
    and "a = RollingFileAppender_new fileName maxFileSize maxFiles"
    and "fold (RollingFileAppender_write calls_succeed h format) rs (a, Map.empty) = (a', fs)"
  shows "\<exists>cs. map (\<lambda>i. fs (buildFileName a (int i))) [0..<nat maxFiles] =
                map (\<lambda>c. Some (UTF8Converter_header h @ c)) cs @ replicate (nat maxFiles - length cs) None \<and>
              dom fs = buildFileName a ` int ` {0..<length cs} \<and>
              chunks_ok (nat maxFiles) (max (sint maxFileSize) 1000) (length (UTF8Converter_header h)) len
                (concat (map format rs)) cs"
proof -
  obtain r rs' where rs: "rs = r # rs'" using assms(1) by (cases rs) auto
  obtain b g where bg: "RollingFileAppender_write calls_succeed h format r (a, Map.empty) = (b, g)" by fastforce
  have a: "m_firstWrite a" "m_maxFiles a = maxFiles" "m_maxFileSize a = max (sint maxFileSize) 1000"
    using assms(4) by (simp_all add: RollingFileAppender_new_def)
  from first_write_refines [OF a(1) bg] have
    b: "holds_chunks h [format r] (b, g)" and s: "settings b = settings a" by auto
  have eqs: "m_maxFiles b = maxFiles" "m_maxFileSize b = max (sint maxFileSize) 1000"
    using s a by (simp_all add: settings_def)
  have "chunks_ok (nat maxFiles) (max (sint maxFileSize) 1000) (length (UTF8Converter_header h)) len (format r) [format r]"
    using assms(2,3) rs by (auto simp: chunks_ok_def)
  with writes_retain [OF b, of len "format r" format rs' a' fs] assms(2,3,5) rs bg obtain cs where
    cs: "holds_chunks h cs (a', fs)" "settings a' = settings b"
      "chunks_ok (nat maxFiles) (max (sint maxFileSize) 1000) (length (UTF8Converter_header h)) len
        (concat (map format rs)) cs"
    by (auto simp: eqs)
  have files: "fs (log_file a i) = (if i < length cs then Some (UTF8Converter_header h @ cs ! i) else None)"
    and "dom fs \<subseteq> range (log_file a)" for i
    using cs(1,2) s settings_log_file [of a' a] by (simp_all add: holds_chunks_def)
  then have "dom fs = buildFileName a ` int ` {0..<length cs}"
    by (auto simp: image_iff dom_def subset_iff split: if_splits)
  moreover have "map (\<lambda>i. fs (buildFileName a (int i))) [0..<nat maxFiles] =
      map (\<lambda>c. Some (UTF8Converter_header h @ c)) cs @ replicate (nat maxFiles - length cs) None"
    using cs(3) by (intro nth_equalityI) (auto simp: files nth_append chunks_ok_def)
  ultimately show ?thesis using cs(3) by blast
qed

text \<open>
  C40: what the rolling log retains, when the calls succeed and the directory starts empty. With a positive \<^verbatim>\<open>maxFiles\<close>, after any
  non-empty sequence of records there are at most \<^verbatim>\<open>maxFiles\<close> files and no others; read from the oldest
  to the newest, each without its mark and header, they are a suffix of everything that was logged, in
  order and without a gap, and all of it as long as a file number is still free. No file exceeds the
  limit (or its header) by more than one record, and every file but the newest has passed the limit. With \<^verbatim>\<open>maxFiles\<close> 0, the
  default of the constructor, or less, the log never rolls: there is one file, without a limit, that holds everything.
\<close>

theorem rolling_log_retention:
  assumes "rs \<noteq> []" and "list_all (\<lambda>r. length (format r) \<le> len) rs"
    and "a = RollingFileAppender_new fileName maxFileSize maxFiles"
    and "fold (RollingFileAppender_write calls_succeed h format) rs (a, Map.empty) = (a', fs)"
  shows "if 0 < maxFiles
    then \<exists>cs. map (\<lambda>i. fs (buildFileName a (int i))) [0..<nat maxFiles] =
                map (\<lambda>c. Some (UTF8Converter_header h @ c)) cs @ replicate (nat maxFiles - length cs) None \<and>
              dom fs = buildFileName a ` int ` {0..<length cs} \<and>
              chunks_ok (nat maxFiles) (max (sint maxFileSize) 1000) (length (UTF8Converter_header h)) len
                (concat (map format rs)) cs
    else fs = [buildFileName a 0 \<mapsto> UTF8Converter_header h @ concat (map format rs)]"
proof (cases "0 < maxFiles")
  case True
  with rolling_log_limited [OF assms(1) True assms(2-4)] show ?thesis by (simp only: if_True)
next
  case False
  then have "maxFiles \<le> 0" by simp
  with False rolling_log_unlimited [OF assms(1) this assms(3,4)] show ?thesis by (simp only: if_False)
qed

definition three_records :: "int \<Rightarrow> dir" where
  "three_records maxFiles = snd (fold (RollingFileAppender_write calls_succeed CsvFormatter_header (\<lambda>r. replicate 900 CHR ''x''))
     [sample_record, sample_record, sample_record] (RollingFileAppender_new ''onyxup.csv'' 0 maxFiles, Map.empty))"

theorem rolling_log_retention_witness:
  "(\<exists>cs. map (\<lambda>i. three_records 2 (buildFileName (RollingFileAppender_new ''onyxup.csv'' 0 2) (int i))) [0..<2] =
           map (\<lambda>c. Some (UTF8Converter_header CsvFormatter_header @ c)) cs @ replicate (2 - length cs) None \<and>
         chunks_ok 2 1000 (length (UTF8Converter_header CsvFormatter_header)) 900 (replicate 2700 CHR ''x'') cs) \<and>
   three_records 0 (buildFileName (RollingFileAppender_new ''onyxup.csv'' 0 0) 0) =
     Some (UTF8Converter_header CsvFormatter_header @ replicate 2700 CHR ''x'')"
proof -
  have all: "list_all (\<lambda>r. length (replicate 900 CHR ''x'') \<le> 900) [sample_record, sample_record, sample_record]" by simp
  have joined: "concat (map (\<lambda>r. replicate 900 CHR ''x'') [sample_record, sample_record, sample_record]) = replicate 2700 CHR ''x''"
    by (simp add: replicate_add [symmetric])
  note retained = rolling_log_retention [where fileName = "''onyxup.csv''" and maxFileSize = 0 and h = CsvFormatter_header,
      OF _ all refl surjective_pairing, folded three_records_def, unfolded joined]
  from retained [where maxFiles = 2] retained [where maxFiles = 0] show ?thesis by auto
qed

end
