(* ===== verification/Json_Grisu.thy ===== *)
theory Json_Grisu
  imports StdString
begin

text \<open>
  The conversion of floating-point numbers to text of the JSON library (\<^verbatim>\<open>dtoa_impl\<close> and \<^verbatim>\<open>to_chars\<close> of
  \<^verbatim>\<open>json/json.hpp\<close>), the algorithm Grisu2 for IEEE-754 double precision. A double is its 64 bits. Numbers of
  type \<^verbatim>\<open>uint64_t\<close> and \<^verbatim>\<open>uint32_t\<close> are natural numbers with the wrap-around written out, \<^verbatim>\<open>int\<close> is \<open>int\<close>:
  its values stay far below the limits. A pointer into the character buffer is an offset; a write outside
  the buffer and an assertion that does not hold are \<open>Undefined\<close>.
\<close>

type_synonym double = "64 word"

definition u64 :: "nat \<Rightarrow> nat" where
  "u64 n = n mod 2 ^ 64"

definition u32 :: "nat \<Rightarrow> nat" where
  "u32 n = n mod 2 ^ 32"

definition assert_that :: "bool \<Rightarrow> 'a res \<Rightarrow> 'a res" where
  "assert_that b r = (if b then r else Inl Undefined)"

subsection \<open>Numbers of the form \<open>f * 2 ^ e\<close>\<close>

record diyfp =
  diy_f :: nat
  diy_e :: int

definition diyfp_sub :: "diyfp \<Rightarrow> diyfp \<Rightarrow> diyfp res" where
  "diyfp_sub x y =
     assert_that (diy_e x = diy_e y \<and> diy_f y \<le> diy_f x) (Inr \<lparr>diy_f = diy_f x - diy_f y, diy_e = diy_e x\<rparr>)"

definition diyfp_mul :: "diyfp \<Rightarrow> diyfp \<Rightarrow> diyfp" where
  "diyfp_mul x y =
     (let u_lo = and (diy_f x) 0xFFFFFFFF; u_hi = drop_bit 32 (diy_f x);
          v_lo = and (diy_f y) 0xFFFFFFFF; v_hi = drop_bit 32 (diy_f y);
          p0 = u64 (u_lo * v_lo); p1 = u64 (u_lo * v_hi); p2 = u64 (u_hi * v_lo); p3 = u64 (u_hi * v_hi);
          p0_hi = drop_bit 32 p0; p1_lo = and p1 0xFFFFFFFF; p1_hi = drop_bit 32 p1;
          p2_lo = and p2 0xFFFFFFFF; p2_hi = drop_bit 32 p2;
          q = u64 (p0_hi + p1_lo + p2_lo);
          q1 = u64 (q + 2 ^ 31);
          h = u64 (p3 + p2_hi + p1_hi + drop_bit 32 q1)
      in \<lparr>diy_f = h, diy_e = diy_e x + diy_e y + 64\<rparr>)"

partial_function (option) normalize_loop :: "diyfp \<Rightarrow> diyfp option" where
  "normalize_loop x =
     (if drop_bit 63 (diy_f x) = 0
      then normalize_loop \<lparr>diy_f = u64 (push_bit 1 (diy_f x)), diy_e = diy_e x - 1\<rparr>
      else Some x)"

declare normalize_loop.simps [code]

text \<open>The loop does not end for 0, which the assertion excludes.\<close>

definition diyfp_normalize :: "diyfp \<Rightarrow> diyfp res" where
  "diyfp_normalize x =
     assert_that (diy_f x \<noteq> 0) (case normalize_loop x of None \<Rightarrow> Inl Undefined | Some y \<Rightarrow> Inr y)"

definition diyfp_normalize_to :: "diyfp \<Rightarrow> int \<Rightarrow> diyfp res" where
  "diyfp_normalize_to x target_exponent =
     (let delta = diy_e x - target_exponent
      in assert_that (0 \<le> delta \<and> delta < 64)
           (let f = u64 (push_bit (nat delta) (diy_f x))
            in assert_that (drop_bit (nat delta) f = diy_f x) (Inr \<lparr>diy_f = f, diy_e = target_exponent\<rparr>)))"

subsection \<open>Boundaries\<close>

definition signbit :: "double \<Rightarrow> bool" where
  "signbit x \<longleftrightarrow> bit x 63"

text \<open>The bits without the sign.\<close>

definition magnitude :: "double \<Rightarrow> nat" where
  "magnitude x = unat x mod 2 ^ 63"

definition double_isfinite :: "double \<Rightarrow> bool" where
  "double_isfinite x \<longleftrightarrow> drop_bit 52 (magnitude x) \<noteq> 2047"

record boundaries =
  bound_w :: diyfp
  bound_minus :: diyfp
  bound_plus :: diyfp

text \<open>The argument is finite and positive, so its bits are its magnitude.\<close>

definition compute_boundaries :: "double \<Rightarrow> boundaries res" where
  "compute_boundaries x =
     assert_that (double_isfinite x \<and> \<not> signbit x \<and> magnitude x \<noteq> 0)
       (let bits = unat x;
            E = drop_bit 52 bits;
            F = and bits (2 ^ 52 - 1);
            v = (if E = 0 then \<lparr>diy_f = F, diy_e = - 1074\<rparr>
                 else \<lparr>diy_f = u64 (F + 2 ^ 52), diy_e = int E - 1075\<rparr>);
            lower_boundary_is_closer = (F = 0 \<and> E > 1);
            m_plus = \<lparr>diy_f = u64 (2 * diy_f v + 1), diy_e = diy_e v - 1\<rparr>;
            m_minus = (if lower_boundary_is_closer
                       then \<lparr>diy_f = u64 (4 * diy_f v - 1), diy_e = diy_e v - 2\<rparr>
                       else \<lparr>diy_f = u64 (2 * diy_f v - 1), diy_e = diy_e v - 1\<rparr>)
        in bind_res (diyfp_normalize m_plus) (\<lambda>w_plus.
           bind_res (diyfp_normalize_to m_minus (diy_e w_plus)) (\<lambda>w_minus.
           bind_res (diyfp_normalize v) (\<lambda>w.
             Inr \<lparr>bound_w = w, bound_minus = w_minus, bound_plus = w_plus\<rparr>))))"

subsection \<open>Cached powers of ten\<close>

record cached_power =
  pow_f :: nat
  pow_e :: int
  pow_k :: int

definition kCachedPowers :: "(nat \<times> int \<times> int) list" where
  "kCachedPowers =
     [(0xAB70FE17C79AC6CA, - 1060, - 300), (0xFF77B1FCBEBCDC4F, - 1034, - 292), (0xBE5691EF416BD60C, - 1007, - 284),
      (0x8DD01FAD907FFC3C, - 980, - 276), (0xD3515C2831559A83, - 954, - 268), (0x9D71AC8FADA6C9B5, - 927, - 260),
      (0xEA9C227723EE8BCB, - 901, - 252), (0xAECC49914078536D, - 874, - 244), (0x823C12795DB6CE57, - 847, - 236),
      (0xC21094364DFB5637, - 821, - 228), (0x9096EA6F3848984F, - 794, - 220), (0xD77485CB25823AC7, - 768, - 212),
      (0xA086CFCD97BF97F4, - 741, - 204), (0xEF340A98172AACE5, - 715, - 196), (0xB23867FB2A35B28E, - 688, - 188),
      (0x84C8D4DFD2C63F3B, - 661, - 180), (0xC5DD44271AD3CDBA, - 635, - 172), (0x936B9FCEBB25C996, - 608, - 164),
      (0xDBAC6C247D62A584, - 582, - 156), (0xA3AB66580D5FDAF6, - 555, - 148), (0xF3E2F893DEC3F126, - 529, - 140),
      (0xB5B5ADA8AAFF80B8, - 502, - 132), (0x87625F056C7C4A8B, - 475, - 124), (0xC9BCFF6034C13053, - 449, - 116),
      (0x964E858C91BA2655, - 422, - 108), (0xDFF9772470297EBD, - 396, - 100), (0xA6DFBD9FB8E5B88F, - 369, - 92),
      (0xF8A95FCF88747D94, - 343, - 84), (0xB94470938FA89BCF, - 316, - 76), (0x8A08F0F8BF0F156B, - 289, - 68),
      (0xCDB02555653131B6, - 263, - 60), (0x993FE2C6D07B7FAC, - 236, - 52), (0xE45C10C42A2B3B06, - 210, - 44),
      (0xAA242499697392D3, - 183, - 36), (0xFD87B5F28300CA0E, - 157, - 28), (0xBCE5086492111AEB, - 130, - 20),
      (0x8CBCCC096F5088CC, - 103, - 12), (0xD1B71758E219652C, - 77, - 4), (0x9C40000000000000, - 50, 4),
      (0xE8D4A51000000000, - 24, 12), (0xAD78EBC5AC620000, 3, 20), (0x813F3978F8940984, 30, 28),
      (0xC097CE7BC90715B3, 56, 36), (0x8F7E32CE7BEA5C70, 83, 44), (0xD5D238A4ABE98068, 109, 52),
      (0x9F4F2726179A2245, 136, 60), (0xED63A231D4C4FB27, 162, 68), (0xB0DE65388CC8ADA8, 189, 76),
      (0x83C7088E1AAB65DB, 216, 84), (0xC45D1DF942711D9A, 242, 92), (0x924D692CA61BE758, 269, 100),
      (0xDA01EE641A708DEA, 295, 108), (0xA26DA3999AEF774A, 322, 116), (0xF209787BB47D6B85, 348, 124),
      (0xB454E4A179DD1877, 375, 132), (0x865B86925B9BC5C2, 402, 140), (0xC83553C5C8965D3D, 428, 148),
      (0x952AB45CFA97A0B3, 455, 156), (0xDE469FBD99A05FE3, 481, 164), (0xA59BC234DB398C25, 508, 172),
      (0xF6C69A72A3989F5C, 534, 180), (0xB7DCBF5354E9BECE, 561, 188), (0x88FCF317F22241E2, 588, 196),
      (0xCC20CE9BD35C78A5, 614, 204), (0x98165AF37B2153DF, 641, 212), (0xE2A0B5DC971F303A, 667, 220),
      (0xA8D9D1535CE3B396, 694, 228), (0xFB9B7CD9A4A7443C, 720, 236), (0xBB764C4CA7A44410, 747, 244),
      (0x8BAB8EEFB6409C1A, 774, 252), (0xD01FEF10A657842C, 800, 260), (0x9B10A4E5E9913129, 827, 268),
      (0xE7109BFBA19C0C9D, 853, 276), (0xAC2820D9623BF429, 880, 284), (0x80444B5E7AA7CF85, 907, 292),
      (0xBF21E44003ACDD2D, 933, 300), (0x8E679C2F5E44FF8F, 960, 308), (0xD433179D9C8CB841, 986, 316),
      (0x9E19DB92B4E31BA9, 1013, 324)]"

text \<open>Division of \<^verbatim>\<open>int\<close> rounds towards zero.\<close>

definition int_div :: "int \<Rightarrow> int \<Rightarrow> int" where
  "int_div a b = (if a < 0 then - ((- a) div b) else a div b)"

definition get_cached_power_for_binary_exponent :: "int \<Rightarrow> cached_power res" where
  "get_cached_power_for_binary_exponent e =
     assert_that (- 1500 \<le> e \<and> e \<le> 1500)
       (let f = - 60 - e - 1;
            k = int_div (f * 78913) (2 ^ 18) + (if f > 0 then 1 else 0);
            index = int_div (300 + k + (8 - 1)) 8
        in assert_that (0 \<le> index \<and> nat index < length kCachedPowers)
             (let (cf, ce, ck) = kCachedPowers ! nat index
              in assert_that (- 60 \<le> ce + e + 64 \<and> ce + e + 64 \<le> - 32)
                   (Inr \<lparr>pow_f = cf, pow_e = ce, pow_k = ck\<rparr>)))"

subsection \<open>Generating digits\<close>

text \<open>The number of digits and the power of ten of the first.\<close>

definition find_largest_pow10 :: "nat \<Rightarrow> nat \<times> nat" where
  "find_largest_pow10 n =
     (if n \<ge> 1000000000 then (10, 1000000000)
      else if n \<ge> 100000000 then (9, 100000000)
      else if n \<ge> 10000000 then (8, 10000000)
      else if n \<ge> 1000000 then (7, 1000000)
      else if n \<ge> 100000 then (6, 100000)
      else if n \<ge> 10000 then (5, 10000)
      else if n \<ge> 1000 then (4, 1000)
      else if n \<ge> 100 then (3, 100)
      else if n \<ge> 10 then (2, 10)
      else (1, 1))"

text \<open>The digits so far: the buffer, the offset of its first digit and their number.\<close>

record digit_buffer =
  dbuf :: bytes
  dfirst :: nat
  dlen :: nat

definition add_digit :: "nat \<Rightarrow> digit_buffer \<Rightarrow> digit_buffer res" where
  "add_digit d b =
     bind_res (mem_write (dbuf b) (dfirst b + dlen b) [char_of (48 + d)]) (\<lambda>m. Inr (b\<lparr>dbuf := m, dlen := dlen b + 1\<rparr>))"

definition last_digit :: "digit_buffer \<Rightarrow> char res" where
  "last_digit b =
     (if 0 < dlen b then bind_res (mem_read (dbuf b) (dfirst b + dlen b - 1) 1) (\<lambda>s. Inr (hd s)) else Inl Undefined)"

definition decrement_last :: "digit_buffer \<Rightarrow> digit_buffer res" where
  "decrement_last b =
     bind_res (last_digit b) (\<lambda>c.
       assert_that (c \<noteq> CHR ''0'')
         (bind_res (mem_write (dbuf b) (dfirst b + dlen b - 1) [char_of (byte_val c + 255)]) (\<lambda>m. Inr (b\<lparr>dbuf := m\<rparr>))))"

text \<open>How often the last digit can be decremented before it is 0.\<close>

definition last_digit_size :: "digit_buffer \<Rightarrow> nat" where
  "last_digit_size b = (case last_digit b of Inl e \<Rightarrow> 0 | Inr c \<Rightarrow> (byte_val c + 208) mod 256)"

lemma decrement_last_size:
  assumes "decrement_last b = Inr b'"
  shows "last_digit_size b' < last_digit_size b"
proof -
  obtain c m where c: "last_digit b = Inr c" "c \<noteq> CHR ''0''" and
    m: "mem_write (dbuf b) (dfirst b + dlen b - 1) [char_of (byte_val c + 255)] = Inr m" "b' = b\<lparr>dbuf := m\<rparr>"
    using assms by (auto simp: decrement_last_def bind_res_Inr_iff assert_that_def split: if_splits)
  have "0 < dlen b" using c(1) by (auto simp: last_digit_def split: if_splits)
  then have "last_digit b' = Inr (char_of (byte_val c + 255))"
    using m mem_write_same [OF m(1)] mem_write_length [OF m(1)] by (auto simp: last_digit_def mem_defs split: if_splits)
  moreover
  have "byte_val c \<noteq> 48" using c(2) byte_val_eq_iff [of c "CHR ''0''"] by (simp add: byte_val_def)
  have "((n + 255) mod 256 + 208) mod 256 < (n + 208) mod 256" if "n \<noteq> 48" "n < 256" for n :: nat
  proof -
    have "(n + 255) mod 256 = (if n = 0 then 255 else n - 1)" using that(2) by (cases n) simp_all
    moreover have "(k + 208) mod 256 = (if k < 48 then k + 208 else k - 48)" if "k < 256" for k :: nat
      using that by (simp add: mod_if [of "k + 208"])
    ultimately show ?thesis using that by auto
  qed
  with \<open>byte_val c \<noteq> 48\<close> have "((byte_val c + 255) mod 256 + 208) mod 256 < (byte_val c + 208) mod 256" by simp
  ultimately show ?thesis using c(1) by (simp add: last_digit_size_def byte_val_def of_char_of)
qed

function round_loop :: "nat \<Rightarrow> nat \<Rightarrow> nat \<Rightarrow> nat \<Rightarrow> digit_buffer \<Rightarrow> digit_buffer res" where
  "round_loop dist delta rest ten_k b =
     (if rest < dist \<and> ten_k \<le> u64 (delta + 2 ^ 64 - rest) \<and>
         (u64 (rest + ten_k) < dist \<or> u64 (u64 (rest + ten_k) + 2 ^ 64 - dist) < dist - rest)
      then case decrement_last b of
             Inl err \<Rightarrow> Inl err
           | Inr b1 \<Rightarrow> round_loop dist delta (u64 (rest + ten_k)) ten_k b1
      else Inr b)"
  by pat_completeness auto
termination
  by (relation "measure (\<lambda>(dist, delta, rest, ten_k, b). last_digit_size b)") (auto dest: decrement_last_size)

declare round_loop.simps [simp del]

definition grisu2_round :: "digit_buffer \<Rightarrow> nat \<Rightarrow> nat \<Rightarrow> nat \<Rightarrow> nat \<Rightarrow> digit_buffer res" where
  "grisu2_round b dist delta rest ten_k =
     assert_that (1 \<le> dlen b \<and> dist \<le> delta \<and> rest \<le> delta \<and> 0 < ten_k) (round_loop dist delta rest ten_k b)"

text \<open>
  The fractional part; \<open>s\<close> is the number of its bits, \<open>m\<close> the number of its digits so far. Each digit needs
  a place in the buffer, so the loop ends.
\<close>

function fractional_loop :: "nat \<Rightarrow> int \<Rightarrow> nat \<Rightarrow> nat \<Rightarrow> nat \<Rightarrow> nat \<Rightarrow> digit_buffer \<Rightarrow> (digit_buffer \<times> int) res" where
  "fractional_loop s decimal_exponent m p2 delta dist b =
     (let q = u64 (p2 * 10);
          d = drop_bit s q;
          r = and q (u64 (push_bit s 1) - 1)
      in if p2 \<le> (2 ^ 64 - 1) div 10 \<and> d \<le> 9 then
           case add_digit d b of
             Inl err \<Rightarrow> Inl err
           | Inr b1 \<Rightarrow>
               if r \<le> u64 (delta * 10) then
                 bind_res (grisu2_round b1 (u64 (dist * 10)) (u64 (delta * 10)) r (u64 (push_bit s 1)))
                   (\<lambda>b2. Inr (b2, decimal_exponent - int (m + 1)))
               else fractional_loop s decimal_exponent (m + 1) r (u64 (delta * 10)) (u64 (dist * 10)) b1
         else Inl Undefined)"
  by pat_completeness auto
termination
  by (relation "measure (\<lambda>(s, de, m, p2, delta, dist, b). length (dbuf b) - (dfirst b + dlen b))")
    (auto simp: add_digit_def mem_defs split: if_splits)

declare fractional_loop.simps [simp del]

text \<open>The integral part, \<open>n\<close> digits of which are left, and the fractional part after it.\<close>

fun integral_loop :: "nat \<Rightarrow> int \<Rightarrow> nat \<Rightarrow> nat \<Rightarrow> nat \<Rightarrow> nat \<Rightarrow> nat \<Rightarrow> nat \<Rightarrow> digit_buffer \<Rightarrow> (digit_buffer \<times> int) res" where
  "integral_loop s decimal_exponent p2 delta dist 0 p1 pow10 b =
     assert_that (delta < p2) (fractional_loop s decimal_exponent 0 p2 delta dist b)"
| "integral_loop s decimal_exponent p2 delta dist (Suc n) p1 pow10 b =
     (let d = p1 div pow10;
          r = p1 mod pow10;
          rest = u64 (u64 (push_bit s r) + p2)
      in assert_that (d \<le> 9)
           (bind_res (add_digit d b) (\<lambda>b1.
              if rest \<le> delta then
                bind_res (grisu2_round b1 dist delta rest (u64 (push_bit s pow10))) (\<lambda>b2. Inr (b2, decimal_exponent + int n))
              else integral_loop s decimal_exponent p2 delta dist n r (pow10 div 10) b1)))"

definition grisu2_digit_gen :: "digit_buffer \<Rightarrow> int \<Rightarrow> diyfp \<Rightarrow> diyfp \<Rightarrow> diyfp \<Rightarrow> (digit_buffer \<times> int) res" where
  "grisu2_digit_gen b decimal_exponent M_minus w M_plus =
     assert_that (- 60 \<le> diy_e M_plus \<and> diy_e M_plus \<le> - 32)
       (bind_res (diyfp_sub M_plus M_minus) (\<lambda>delta.
        bind_res (diyfp_sub M_plus w) (\<lambda>dist.
          let s = nat (- diy_e M_plus);
              p1 = u32 (drop_bit s (diy_f M_plus));
              p2 = and (diy_f M_plus) (u64 (push_bit s 1) - 1);
              (k, pow10) = find_largest_pow10 p1
          in assert_that (0 < p1) (integral_loop s decimal_exponent p2 (diy_f delta) (diy_f dist) k p1 pow10 b))))"

definition grisu2 :: "digit_buffer \<Rightarrow> diyfp \<Rightarrow> diyfp \<Rightarrow> diyfp \<Rightarrow> (digit_buffer \<times> int) res" where
  "grisu2 b m_minus v m_plus =
     assert_that (diy_e m_plus = diy_e m_minus \<and> diy_e m_plus = diy_e v)
       (bind_res (get_cached_power_for_binary_exponent (diy_e m_plus)) (\<lambda>cached.
          let c_minus_k = \<lparr>diy_f = pow_f cached, diy_e = pow_e cached\<rparr>;
              w = diyfp_mul v c_minus_k;
              w_minus = diyfp_mul m_minus c_minus_k;
              w_plus = diyfp_mul m_plus c_minus_k;
              M_minus = \<lparr>diy_f = u64 (diy_f w_minus + 1), diy_e = diy_e w_minus\<rparr>;
              M_plus = \<lparr>diy_f = u64 (diy_f w_plus + 2 ^ 64 - 1), diy_e = diy_e w_plus\<rparr>
          in grisu2_digit_gen b (- pow_k cached) M_minus w M_plus))"

definition grisu2_value :: "digit_buffer \<Rightarrow> double \<Rightarrow> (digit_buffer \<times> int) res" where
  "grisu2_value b x =
     assert_that (double_isfinite x \<and> \<not> signbit x \<and> magnitude x \<noteq> 0)
       (bind_res (compute_boundaries x) (\<lambda>w. grisu2 b (bound_minus w) (bound_w w) (bound_plus w)))"

subsection \<open>Formatting\<close>

text \<open>Each formatting routine returns the buffer and the offset behind what it wrote.\<close>

definition append_exponent :: "bytes \<Rightarrow> nat \<Rightarrow> int \<Rightarrow> (bytes \<times> nat) res" where
  "append_exponent buf p e =
     assert_that (- 1000 < e \<and> e < 1000)
       (let sign = (if e < 0 then CHR ''-'' else CHR ''+'');
            k = nat \<bar>e\<bar>;
            text = (if k < 10 then [sign, CHR ''0'', char_of (48 + k)]
                    else if k < 100 then [sign, char_of (48 + k div 10), char_of (48 + k mod 10)]
                    else [sign, char_of (48 + k div 100), char_of (48 + k mod 100 div 10), char_of (48 + k mod 100 mod 10)])
        in bind_res (mem_write buf p text) (\<lambda>m. Inr (m, p + length text)))"

definition format_buffer :: "bytes \<Rightarrow> nat \<Rightarrow> nat \<Rightarrow> int \<Rightarrow> int \<Rightarrow> int \<Rightarrow> (bytes \<times> nat) res" where
  "format_buffer buf p len decimal_exponent min_exp max_exp =
     assert_that (min_exp < 0 \<and> 0 < max_exp)
       (let k = len; n = int len + decimal_exponent
        in if int k \<le> n \<and> n \<le> max_exp then
             bind_res (mem_write buf (p + k) (replicate (nat n - k) (CHR ''0''))) (\<lambda>m1.
             bind_res (mem_write m1 (p + nat n) ''.0'') (\<lambda>m2.
               Inr (m2, p + nat n + 2)))
           else if 0 < n \<and> n \<le> max_exp then
             assert_that (n < int k)
               (bind_res (memmove buf (p + nat n + 1) (p + nat n) (k - nat n)) (\<lambda>m1.
                bind_res (mem_write m1 (p + nat n) ''.'') (\<lambda>m2.
                  Inr (m2, p + k + 1))))
           else if min_exp < n \<and> n \<le> 0 then
             bind_res (memmove buf (p + 2 + nat (- n)) p k) (\<lambda>m1.
             bind_res (mem_write m1 p ''0.'') (\<lambda>m2.
             bind_res (mem_write m2 (p + 2) (replicate (nat (- n)) (CHR ''0''))) (\<lambda>m3.
               Inr (m3, p + 2 + nat (- n) + k))))
           else
             bind_res
               (if k = 1 then Inr (buf, p + 1)
                else bind_res (memmove buf (p + 2) (p + 1) (k - 1)) (\<lambda>m1.
                     bind_res (mem_write m1 (p + 1) ''.'') (\<lambda>m2. Inr (m2, p + 1 + k))))
               (\<lambda>(m, q). bind_res (mem_write m q ''e'') (\<lambda>m1. append_exponent m1 (q + 1) (n - 1))))"

definition to_chars :: "bytes \<Rightarrow> double \<Rightarrow> (bytes \<times> nat) res" where
  "to_chars buf x =
     assert_that (double_isfinite x)
       (bind_res (if signbit x then bind_res (mem_write buf 0 ''-'') (\<lambda>m. Inr (m, 1)) else Inr (buf, 0)) (\<lambda>(m, first).
          let value = word_of_nat (magnitude x)
          in if magnitude value = 0 then bind_res (mem_write m first ''0.0'') (\<lambda>m1. Inr (m1, first + 3))
             else
               assert_that (17 \<le> length buf - first)
                 (bind_res (grisu2_value \<lparr>dbuf = m, dfirst = first, dlen = 0\<rparr> value) (\<lambda>(b, decimal_exponent).
                    assert_that (dlen b \<le> 17 \<and> 15 + 2 \<le> length buf - first \<and> 2 + (4 - 1) + 17 \<le> length buf - first \<and>
                        17 + 6 \<le> length buf - first)
                      (format_buffer (dbuf b) first (dlen b) decimal_exponent (- 4) 15)))))"

end
