(* ===== verification/Json_Grisu_Powers.thy ===== *)
theory Json_Grisu_Powers
  imports Complex_Main Json_Grisu
begin

text \<open>
  The table of powers of ten of Grisu2: every row is normalized and off the power by at most half a unit in
  the last place, and for every binary exponent of a double the row selected brings the product into the
  range the digit generation needs.
\<close>

subsection \<open>Cached powers\<close>

text \<open>A row \<open>f * 2 ^ e\<close> of the table is normalized and off \<open>10 ^ k\<close> by at most half a unit.\<close>

definition power_row :: "nat \<times> int \<times> int \<Rightarrow> bool" where
  "power_row row =
     (case row of (cf, ce, ck) \<Rightarrow>
        2 ^ 63 \<le> cf \<and> cf < 2 ^ 64 \<and>
        2 * \<bar>int cf * 2 ^ nat ce * 10 ^ nat (- ck) - 10 ^ nat ck * 2 ^ nat (- ce)\<bar> \<le> 2 ^ nat ce * 10 ^ nat (- ck))"

text \<open>The same for consecutive rows, where each power of ten comes from the one before.\<close>

fun negative_rows :: "nat \<Rightarrow> int \<Rightarrow> (nat \<times> int \<times> int) list \<Rightarrow> bool" where
  "negative_rows n p [] \<longleftrightarrow> True"
| "negative_rows n p ((cf, ce, ck) # rows) \<longleftrightarrow>
     ck = - int n \<and> ce < 0 \<and> 2 ^ 63 \<le> cf \<and> cf < 2 ^ 64 \<and> 2 * \<bar>int cf * p - 2 ^ nat (- ce)\<bar> \<le> p \<and>
     negative_rows (n + 8) (100000000 * p) rows"

fun positive_rows :: "nat \<Rightarrow> int \<Rightarrow> (nat \<times> int \<times> int) list \<Rightarrow> bool" where
  "positive_rows n p [] \<longleftrightarrow> True"
| "positive_rows n p ((cf, ce, ck) # rows) \<longleftrightarrow>
     ck = int n \<and> 2 ^ 63 \<le> cf \<and> cf < 2 ^ 64 \<and> 2 * \<bar>int cf * 2 ^ nat ce - p * 2 ^ nat (- ce)\<bar> \<le> 2 ^ nat ce \<and>
     positive_rows (n + 8) (100000000 * p) rows"

lemma negative_rows_sound: "negative_rows n (10 ^ n) rows \<Longrightarrow> list_all power_row rows"
proof (induction n "10 ^ n :: int" rows rule: negative_rows.induct)
  case (2 n cf ce ck rows)
  have "(10 :: int) ^ (n + 8) = 100000000 * 10 ^ n" by (simp add: power_add)
  with 2 show ?case by (simp add: power_row_def)
qed simp

lemma positive_rows_sound: "positive_rows n (10 ^ n) rows \<Longrightarrow> list_all power_row rows"
proof (induction n "10 ^ n :: int" rows rule: positive_rows.induct)
  case (2 n cf ce ck rows)
  have "(10 :: int) ^ (n + 8) = 100000000 * 10 ^ n" by (simp add: power_add)
  with 2 show ?case by (simp add: power_row_def)
qed simp

lemma negative_rows_1: "negative_rows 4 (10 ^ 4) (take 10 (drop 0 (rev (take 38 kCachedPowers))))"
  by (simp add: kCachedPowers_def)

lemma negative_rows_2: "negative_rows 84 (10 ^ 84) (take 10 (drop 10 (rev (take 38 kCachedPowers))))"
  by (simp add: kCachedPowers_def)

lemma negative_rows_3: "negative_rows 164 (10 ^ 164) (take 9 (drop 20 (rev (take 38 kCachedPowers))))"
  by (simp add: kCachedPowers_def)

lemma negative_rows_4: "negative_rows 236 (10 ^ 236) (take 9 (drop 29 (rev (take 38 kCachedPowers))))"
  by (simp add: kCachedPowers_def)

lemma positive_rows_1: "positive_rows 4 (10 ^ 4) (take 15 (drop 0 (drop 38 kCachedPowers)))"
  by (simp add: kCachedPowers_def)

lemma positive_rows_2: "positive_rows 124 (10 ^ 124) (take 14 (drop 15 (drop 38 kCachedPowers)))"
  by (simp add: kCachedPowers_def)

lemma positive_rows_3: "positive_rows 236 (10 ^ 236) (take 12 (drop 29 (drop 38 kCachedPowers)))"
  by (simp add: kCachedPowers_def)

lemma power_rows: "list_all power_row kCachedPowers"
proof -
  let ?n = "rev (take 38 kCachedPowers)" and ?p = "drop 38 kCachedPowers"
  have "?n = take 10 (drop 0 ?n) @ take 10 (drop 10 ?n) @ take 9 (drop 20 ?n) @ take 9 (drop 29 ?n)"
    "?p = take 15 (drop 0 ?p) @ take 14 (drop 15 ?p) @ take 12 (drop 29 ?p)"
    by (simp_all add: kCachedPowers_def)
  then have "list_all power_row ?n" "list_all power_row ?p"
    using negative_rows_sound [OF negative_rows_1] negative_rows_sound [OF negative_rows_2]
      negative_rows_sound [OF negative_rows_3] negative_rows_sound [OF negative_rows_4]
      positive_rows_sound [OF positive_rows_1] positive_rows_sound [OF positive_rows_2] positive_rows_sound [OF positive_rows_3]
    by (metis list_all_append)+
  then have "list_all power_row (take 38 kCachedPowers @ drop 38 kCachedPowers)"
    unfolding list_all_append by (simp add: list_all_iff)
  then show ?thesis by simp
qed

text \<open>The exponents for which a row is selected.\<close>

lemma power_exponents:
  "list_all (\<lambda>(i, cf, ce, ck). ck = 8 * i - 300 \<and> (ce + 34) * 78913 < (8 * i - 308) * 262144 \<and> (8 * i - 300) * 262144 < (ce + 64) * 78913)
     (zip [0..78] kCachedPowers)"
  by (simp add: kCachedPowers_def upto.simps)

lemma kCachedPowers_length: "length kCachedPowers = 79"
  by (simp add: kCachedPowers_def)

lemma int_div_bounds:
  assumes "0 < b"
  shows "int_div a b * b - b + 1 \<le> a" "a \<le> int_div a b * b + b - 1" "0 \<le> a \<Longrightarrow> int_div a b * b \<le> a" "a \<le> 0 \<Longrightarrow> a \<le> int_div a b * b"
proof -
  have "x div b * b \<le> x" "x \<le> x div b * b + b - 1" for x
    using assms pos_mod_bound [of b x] pos_mod_sign [of b x] div_mult_mod_eq [of x b] by linarith+
  note this [of a] this [of "- a"]
  then show "int_div a b * b - b + 1 \<le> a" "a \<le> int_div a b * b + b - 1" "0 \<le> a \<Longrightarrow> int_div a b * b \<le> a" "a \<le> 0 \<Longrightarrow> a \<le> int_div a b * b"
    using assms by (auto simp: int_div_def algebra_simps)
qed

lemma cached_power_found:
  assumes "- 1137 \<le> e" "e \<le> 960"
  obtains cf ce ck where "get_cached_power_for_binary_exponent e = Inr \<lparr>pow_f = cf, pow_e = ce, pow_k = ck\<rparr>"
    "power_row (cf, ce, ck)" "- 60 \<le> ce + e + 64" "ce + e + 64 \<le> - 32" "- 300 \<le> ck" "ck \<le> 324"
proof -
  define f k i where "f = - 60 - e - 1" and "k = int_div (f * 78913) (2 ^ 18) + (if f > 0 then 1 else 0)"
    and "i = int_div (300 + k + (8 - 1)) 8"
  have f: "- 1021 \<le> f" "f \<le> 1076" using assms by (simp_all add: f_def)
  have "(k - 1) * 262144 \<le> f * 78913" "f * 78913 \<le> k * 262144"
    using int_div_bounds [of 262144 "f * 78913"] by (auto simp: k_def split: if_splits)
  note k = this
  then have "- 307 * 262144 - 262144 < k * 262144" "(k - 1) * 262144 < 324 * 262144" using f by linarith+
  then have k': "- 307 \<le> k" "k \<le> 324" by simp_all
  have i: "8 * i \<le> 307 + k" "307 + k \<le> 8 * i + 7" "0 \<le> i" "i \<le> 78"
    using k' int_div_bounds [of 8 "307 + k"] by (simp_all add: i_def)
  define row where "row = kCachedPowers ! nat i"
  obtain cf ce ck where row_eq: "row = (cf, ce, ck)" by (cases row)
  have len: "nat i < length kCachedPowers" using i by (simp add: kCachedPowers_length)
  have "(i, row) \<in> set (zip [0..78] kCachedPowers)"
    using len i unfolding in_set_zip by (intro exI [of _ "nat i"]) (simp add: row_def nth_upto)
  with power_exponents row_eq have ex: "ck = 8 * i - 300" "(ce + 34) * 78913 < (8 * i - 308) * 262144" "(8 * i - 300) * 262144 < (ce + 64) * 78913"
    by (auto simp: list_all_iff)
  have "(8 * i - 308) * 262144 \<le> (k - 1) * 262144" "k * 262144 \<le> (8 * i - 300) * 262144" using i by simp_all
  with ex(2,3) k have "(ce + 34) * 78913 < f * 78913" "f * 78913 < (ce + 64) * 78913" by (meson le_less_trans less_le_trans)+
  then have ce: "- 60 \<le> ce + e + 64" "ce + e + 64 \<le> - 32" by (simp_all add: f_def)
  have "power_row (cf, ce, ck)" using power_rows len row_eq by (auto simp: list_all_length row_def)
  moreover have "get_cached_power_for_binary_exponent e = Inr \<lparr>pow_f = cf, pow_e = ce, pow_k = ck\<rparr>"
    using assms i len ce row_eq unfolding get_cached_power_for_binary_exponent_def f_def [symmetric] k_def [symmetric] Let_def
    by (simp add: assert_that_def row_def flip: i_def [simplified])
  moreover have "- 300 \<le> ck" "ck \<le> 324" using ex(1) i(3,4) by simp_all
  ultimately show thesis using ce by (intro that)
qed

text \<open>The error of a row, over the reals.\<close>

lemma powi_split: "b \<noteq> 0 \<Longrightarrow> b powi z * b ^ nat (- z) = b ^ nat z" for b :: real
proof (cases "0 \<le> z")
  case False
  assume "b \<noteq> 0"
  with False show ?thesis by (simp add: power_int_def flip: power_mult_distrib)
qed (simp add: power_int_def)

lemma power_row_error:
  assumes "power_row (cf, ce, ck)"
  shows "\<bar>real cf * 2 powi ce - 10 powi ck\<bar> \<le> 2 powi ce / 2" "2 ^ 63 \<le> cf" "cf < 2 ^ 64"
proof -
  have split2: "2 powi z * 2 ^ nat (- z) = (2 ^ nat z :: real)" and split10: "10 powi z * 10 ^ nat (- z) = (10 ^ nat z :: real)" for z :: int
    by (simp_all add: powi_split)
  let ?s = "2 ^ nat (- ce) * 10 ^ nat (- ck) :: real"
  have "real_of_int (2 * \<bar>int cf * 2 ^ nat ce * 10 ^ nat (- ck) - 10 ^ nat ck * 2 ^ nat (- ce)\<bar>) \<le> real_of_int (2 ^ nat ce * 10 ^ nat (- ck))"
    using assms unfolding power_row_def prod.case of_int_le_iff by blast
  then have "2 * \<bar>real cf * 2 ^ nat ce * 10 ^ nat (- ck) - 10 ^ nat ck * 2 ^ nat (- ce)\<bar> \<le> 2 ^ nat ce * 10 ^ nat (- ck)" by simp
  also have "real cf * 2 ^ nat ce * 10 ^ nat (- ck) - 10 ^ nat ck * 2 ^ nat (- ce) =
      real cf * (2 powi ce * 2 ^ nat (- ce)) * 10 ^ nat (- ck) - 10 powi ck * 10 ^ nat (- ck) * 2 ^ nat (- ce)"
    unfolding split2 split10 ..
  also have "\<dots> = (real cf * 2 powi ce - 10 powi ck) * ?s" by (simp only: algebra_simps)
  also have "2 ^ nat ce * 10 ^ nat (- ck) = 2 powi ce * ?s" by (simp only: split2 mult.assoc [symmetric])
  finally have "2 * \<bar>real cf * 2 powi ce - 10 powi ck\<bar> * ?s \<le> 2 powi ce * ?s" by (simp add: abs_mult)
  then have "2 * \<bar>real cf * 2 powi ce - 10 powi ck\<bar> \<le> 2 powi ce" by (rule mult_right_le_imp_le) simp
  then show "\<bar>real cf * 2 powi ce - 10 powi ck\<bar> \<le> 2 powi ce / 2" by simp
  show "2 ^ 63 \<le> cf" "cf < 2 ^ 64" using assms unfolding power_row_def prod.case by blast+
qed

end
