(* ===== verification/Json_Grisu_Arith.thy ===== *)
theory Json_Grisu_Arith
  imports Json_Grisu_Powers
begin

text \<open>
  The arithmetic of Grisu2: the product of two significands is rounded to the nearest, the boundaries of a
  double are exact and normalized, and the scaled boundaries enclose only numbers that round to the double.
\<close>

subsection \<open>Products\<close>

lemma and_mask32: "and n 0xFFFFFFFF = n mod 2 ^ 32" for n :: nat
  using take_bit_eq_mask [of 32 n] by (simp add: mask_eq_exp_minus_1 take_bit_eq_mod)

lemma schoolbook_product:
  fixes a b c d :: nat
  assumes "a < 2 ^ 32" "b < 2 ^ 32" "c < 2 ^ 32" "d < 2 ^ 32"
  shows "b * d + (b * c) div 2 ^ 32 + (a * d) div 2 ^ 32 +
      ((a * c) div 2 ^ 32 + (a * d) mod 2 ^ 32 + (b * c) mod 2 ^ 32 + 2 ^ 31) div 2 ^ 32 =
    ((b * 2 ^ 32 + a) * (d * 2 ^ 32 + c) + 2 ^ 63) div 2 ^ 64"
proof -
  define x0 x1 y0 y1 z0 z1 where "x0 = (a * d) mod 2 ^ 32" and "x1 = (a * d) div 2 ^ 32" and "y0 = (b * c) mod 2 ^ 32"
    and "y1 = (b * c) div 2 ^ 32" and "z0 = (a * c) mod 2 ^ 32" and "z1 = (a * c) div 2 ^ 32"
  note parts = this
  have eqs: "a * d = x1 * 2 ^ 32 + x0" "b * c = y1 * 2 ^ 32 + y0" "a * c = z1 * 2 ^ 32 + z0" by (simp_all add: parts)
  let ?h = "b * d + y1 + x1" and ?q = "z1 + x0 + y0 + 2 ^ 31"
  have "(b * 2 ^ 32 + a) * (d * 2 ^ 32 + c) + 2 ^ 63 = b * d * 2 ^ 64 + (a * d + b * c) * 2 ^ 32 + a * c + 2 ^ 63"
    by (simp add: algebra_simps)
  also have "\<dots> = (?q * 2 ^ 32 + z0) + ?h * 2 ^ 64" unfolding eqs by (simp add: algebra_simps)
  also have "\<dots> div 2 ^ 64 = ?h + (?q * 2 ^ 32 + z0) div 2 ^ 64" by (rule div_mult_self1) simp
  also have "(?q * 2 ^ 32 + z0) div 2 ^ 64 = (?q * 2 ^ 32 + z0) div 2 ^ 32 div 2 ^ 32" by (simp flip: div_mult2_eq)
  also have "z0 < 2 ^ 32" by (simp add: parts)
  then have "(?q * 2 ^ 32 + z0) div 2 ^ 32 = ?q" by simp
  finally show ?thesis by (simp add: parts)
qed

lemma small_sum:
  "t < 2 ^ 32 \<Longrightarrow> u < 2 ^ 32 \<Longrightarrow> v < 2 ^ 32 \<Longrightarrow> u64 (u64 (t + u + v) + 2 ^ 31) = t + u + v + 2 ^ 31"
  by (simp add: u64_def)

lemma diyfp_mul_eq:
  assumes "diy_f x < 2 ^ 64" "diy_f y < 2 ^ 64"
  shows "diyfp_mul x y = \<lparr>diy_f = (diy_f x * diy_f y + 2 ^ 63) div 2 ^ 64, diy_e = diy_e x + diy_e y + 64\<rparr>"
proof -
  let ?a = "diy_f x mod 2 ^ 32" and ?b = "diy_f x div 2 ^ 32" and ?c = "diy_f y mod 2 ^ 32" and ?d = "diy_f y div 2 ^ 32"
  have lim: "?a < 2 ^ 32" "?b < 2 ^ 32" "?c < 2 ^ 32" "?d < 2 ^ 32" using assms by simp_all
  have prod: "p * q < 2 ^ 64" if "p < 2 ^ 32" "q < 2 ^ 32" for p q :: nat
    using mult_strict_mono [of p "2 ^ 32" q "2 ^ 32"] that by simp
  have fits: "u64 (?a * ?c) = ?a * ?c" "u64 (?a * ?d) = ?a * ?d" "u64 (?b * ?c) = ?b * ?c" "u64 (?b * ?d) = ?b * ?d"
    using prod lim unfolding u64_def by (meson mod_less)+
  have "(?b * 2 ^ 32 + ?a) = diy_f x" "(?d * 2 ^ 32 + ?c) = diy_f y" by simp_all
  note school = schoolbook_product [OF lim, unfolded this]
  let ?q = "(?a * ?c) div 2 ^ 32 + (?a * ?d) mod 2 ^ 32 + (?b * ?c) mod 2 ^ 32"
  have "(?a * ?c) div 2 ^ 32 < 2 ^ 32" using prod [OF lim(1,3)] by (simp add: div_less_iff_less_mult)
  then have q: "u64 (u64 ?q + 2 ^ 31) = ?q + 2 ^ 31" by (rule small_sum) simp_all
  have "(diy_f x * diy_f y + 2 ^ 63) div 2 ^ 64 < 2 ^ 64"
  proof -
    have "diy_f x * diy_f y \<le> (2 ^ 64 - 1) * (2 ^ 64 - 1)" using assms by (intro mult_mono) simp_all
    then show ?thesis by (simp add: div_less_iff_less_mult)
  qed
  then have h: "u64 ((diy_f x * diy_f y + 2 ^ 63) div 2 ^ 64) = (diy_f x * diy_f y + 2 ^ 63) div 2 ^ 64"
    unfolding u64_def by simp
  show ?thesis
    unfolding diyfp_mul_def Let_def and_mask32 drop_bit_eq_div fits q school h by simp
qed

text \<open>The rounded product is off by at most one half.\<close>

lemma round_div:
  fixes n :: nat
  shows "\<bar>real ((n + 2 ^ 63) div 2 ^ 64) - real n / 2 ^ 64\<bar> \<le> 1 / 2"
proof -
  let ?h = "(n + 2 ^ 63) div 2 ^ 64"
  have "(n + 2 ^ 63) mod 2 ^ 64 < 2 ^ 64" by simp
  then have h: "?h * 2 ^ 64 \<le> n + 2 ^ 63" "n + 2 ^ 63 < ?h * 2 ^ 64 + 2 ^ 64"
    using div_mult_mod_eq [of "n + 2 ^ 63" "2 ^ 64"] by linarith+
  have "real (?h * 2 ^ 64) \<le> real (n + 2 ^ 63)" "real (n + 2 ^ 63) < real (?h * 2 ^ 64 + 2 ^ 64)"
    using h by (simp_all only: of_nat_le_iff of_nat_less_iff)
  then have "real ?h * 2 ^ 64 \<le> real n + 2 ^ 63" "real n + 2 ^ 63 < real ?h * 2 ^ 64 + 2 ^ 64"
    by (simp_all only: of_nat_add of_nat_mult of_nat_power of_nat_numeral)
  then show ?thesis by (simp add: abs_le_iff field_simps)
qed

subsection \<open>Normalization\<close>

lemma normalize_loop_ok:
  "0 < f \<Longrightarrow> f < 2 ^ 64 \<Longrightarrow>
     \<exists>s. normalize_loop \<lparr>diy_f = f, diy_e = e\<rparr> = Some \<lparr>diy_f = f * 2 ^ s, diy_e = e - int s\<rparr> \<and> 2 ^ 63 \<le> f * 2 ^ s \<and> f * 2 ^ s < 2 ^ 64"
proof (induction "2 ^ 64 - f" arbitrary: f e rule: less_induct)
  case less
  show ?case
  proof (cases "f < 2 ^ 63")
    case True
    then have "2 ^ 64 - 2 * f < 2 ^ 64 - f" "0 < 2 * f" "2 * f < 2 ^ 64" using less.prems by auto
    from less.hyps [OF this, of "e - 1"] obtain s where
      s: "normalize_loop \<lparr>diy_f = 2 * f, diy_e = e - 1\<rparr> = Some \<lparr>diy_f = 2 * f * 2 ^ s, diy_e = e - 1 - int s\<rparr>"
        "2 ^ 63 \<le> 2 * f * 2 ^ s" "2 * f * 2 ^ s < 2 ^ 64" by blast
    have "f div 2 ^ 63 = 0" "u64 (2 * f) = 2 * f" using True by (simp_all add: u64_def)
    then have "normalize_loop \<lparr>diy_f = f, diy_e = e\<rparr> = normalize_loop \<lparr>diy_f = 2 * f, diy_e = e - 1\<rparr>"
      by (simp add: normalize_loop.simps [of "\<lparr>diy_f = f, diy_e = e\<rparr>"] drop_bit_eq_div push_bit_eq_mult mult.commute)
    with s show ?thesis by (intro exI [of _ "s + 1"]) (simp add: mult.commute mult.left_commute)
  next
    case False
    then have "f div 2 ^ 63 \<noteq> 0" by (simp add: div_eq_0_iff)
    then have "normalize_loop \<lparr>diy_f = f, diy_e = e\<rparr> = Some \<lparr>diy_f = f, diy_e = e\<rparr>"
      by (simp add: normalize_loop.simps [of "\<lparr>diy_f = f, diy_e = e\<rparr>"] drop_bit_eq_div)
    with False less.prems show ?thesis by (intro exI [of _ 0]) simp
  qed
qed

lemma diyfp_normalize_ok:
  assumes "0 < f" "f < 2 ^ 64"
  obtains s where "diyfp_normalize \<lparr>diy_f = f, diy_e = e\<rparr> = Inr \<lparr>diy_f = f * 2 ^ s, diy_e = e - int s\<rparr>"
    "2 ^ 63 \<le> f * 2 ^ s" "f * 2 ^ s < 2 ^ 64"
  using normalize_loop_ok [OF assms, of e] assms(1) by (auto simp: diyfp_normalize_def assert_that_def)

lemma normalized_unique:
  fixes f :: nat
  assumes "2 ^ 63 \<le> f * 2 ^ s" "f * 2 ^ s < 2 ^ 64" "2 ^ 63 \<le> f * 2 ^ t" "f * 2 ^ t < 2 ^ 64"
  shows "s = t"
proof -
  have False if "2 ^ 63 \<le> f * 2 ^ a" "f * 2 ^ b < 2 ^ 64" "a < b" for a b
  proof -
    have "(2 :: nat) ^ (a + 1) \<le> 2 ^ b" using that(3) by (intro power_increasing) simp_all
    then have "f * 2 ^ (a + 1) \<le> f * 2 ^ b" by (rule mult_left_mono) simp
    moreover have "f * 2 ^ (a + 1) = 2 * (f * 2 ^ a)" by simp
    moreover have "(2 :: nat) ^ 64 = 2 * 2 ^ 63" by simp
    ultimately show False using that(1,2) by linarith
  qed
  with assms show ?thesis by (metis linorder_neqE_nat)
qed

lemma diyfp_normalize_to_ok:
  assumes "f * 2 ^ d < 2 ^ 64" "d < 64"
  shows "diyfp_normalize_to \<lparr>diy_f = f, diy_e = e\<rparr> (e - int d) = Inr \<lparr>diy_f = f * 2 ^ d, diy_e = e - int d\<rparr>"
  using assms by (simp add: diyfp_normalize_to_def assert_that_def Let_def u64_def push_bit_eq_mult drop_bit_eq_div)

subsection \<open>The fields of a double\<close>

definition double_f :: "double \<Rightarrow> nat" where
  "double_f x = (let n = magnitude x in if n div 2 ^ 52 = 0 then n mod 2 ^ 52 else n mod 2 ^ 52 + 2 ^ 52)"

definition double_e :: "double \<Rightarrow> int" where
  "double_e x = (let n = magnitude x in if n div 2 ^ 52 = 0 then - 1074 else int (n div 2 ^ 52) - 1075)"

text \<open>The predecessor of a power of two is half as far away as its successor.\<close>

definition closer_below :: "double \<Rightarrow> bool" where
  "closer_below x \<longleftrightarrow> (let n = magnitude x in n mod 2 ^ 52 = 0 \<and> 1 < n div 2 ^ 52)"

lemma magnitude_less: "magnitude x < 2 ^ 63"
  by (simp add: magnitude_def)

lemma unat_double: "unat x < 2 ^ 64" for x :: double
  using unsigned_less [of x, where ?'a = nat] by simp

lemma signbit_iff: "signbit x \<longleftrightarrow> 2 ^ 63 \<le> unat x"
proof -
  have "unat x div 2 ^ 63 < 2" using unat_double [of x] by (simp add: div_less_iff_less_mult)
  then have "odd (unat x div 2 ^ 63) \<longleftrightarrow> unat x div 2 ^ 63 = 1" by (auto simp: less_2_cases_iff)
  also have "\<dots> \<longleftrightarrow> 2 ^ 63 \<le> unat x" using unat_double [of x] div_mult_mod_eq [of "unat x" "2 ^ 63"]
    mod_less_divisor [of "2 ^ 63" "unat x"] by (cases "unat x < 2 ^ 63") (auto simp: div_nat_eqI)
  finally have "bit (unat x) 63 \<longleftrightarrow> 2 ^ 63 \<le> unat x" unfolding bit_iff_odd .
  moreover have "bit (unat x) 63 \<longleftrightarrow> bit x 63" by (simp add: bit_unsigned_iff)
  ultimately show ?thesis unfolding signbit_def by blast
qed

lemma double_f_bounds:
  assumes "double_isfinite x" "magnitude x \<noteq> 0"
  shows "0 < double_f x" "double_f x < 2 ^ 53" "- 1074 \<le> double_e x" "double_e x \<le> 971"
    "double_f x < 2 ^ 52 \<Longrightarrow> double_e x = - 1074" "closer_below x \<Longrightarrow> double_f x = 2 ^ 52"
proof -
  let ?n = "magnitude x" and ?E = "magnitude x div 2 ^ 52"
  have "?E < 2 ^ 11" using magnitude_less [of x] by (simp add: div_less_iff_less_mult)
  moreover have "?E \<noteq> 2047" using assms(1) by (simp add: double_isfinite_def drop_bit_eq_div)
  ultimately have E: "?E \<le> 2046" by simp
  have "?E = 0 \<Longrightarrow> ?n mod 2 ^ 52 = ?n" using div_mult_mod_eq [of ?n "2 ^ 52"] by simp
  moreover have "?n mod 2 ^ 52 < 2 ^ 52" by simp
  ultimately show "0 < double_f x" "double_f x < 2 ^ 53" "- 1074 \<le> double_e x" "double_e x \<le> 971"
    "double_f x < 2 ^ 52 \<Longrightarrow> double_e x = - 1074" "closer_below x \<Longrightarrow> double_f x = 2 ^ 52"
    using E assms(2) by (auto simp: double_f_def double_e_def closer_below_def Let_def split: if_splits)
qed

subsection \<open>Boundaries\<close>

text \<open>The distance to the lower boundary, when a unit of the significand is \<open>2 ^ (s + 1)\<close>.\<close>

definition gap_below :: "double \<Rightarrow> nat \<Rightarrow> nat" where
  "gap_below x s = (if closer_below x then 2 ^ (s - 1) else 2 ^ s)"

lemma shift_bounds:
  fixes f :: nat
  assumes "0 < f" "f < 2 ^ 53" "2 ^ 63 \<le> (2 * f + 1) * 2 ^ s" "(2 * f + 1) * 2 ^ s < 2 ^ 64"
  shows "10 \<le> s" "s \<le> 62" "2 ^ 63 \<le> f * 2 ^ (s + 1)" "f * 2 ^ (s + 1) < 2 ^ 64" "2 ^ 52 \<le> f \<Longrightarrow> s = 10"
proof -
  show s10: "10 \<le> s"
  proof (rule ccontr)
    assume "\<not> 10 \<le> s"
    then have "(2 :: nat) ^ s \<le> 2 ^ 9" by (intro power_increasing) simp_all
    then have "(2 * f + 1) * 2 ^ s \<le> (2 ^ 54 - 1) * 2 ^ 9" using assms(2) by (intro mult_mono) simp_all
    with assms(3) show False by simp
  qed
  show s62: "s \<le> 62"
  proof (rule ccontr)
    assume "\<not> s \<le> 62"
    then have "(2 :: nat) ^ 63 \<le> 2 ^ s" by (intro power_increasing) simp_all
    then have "3 * 2 ^ 63 \<le> (2 * f + 1) * 2 ^ s" using assms(1) by (intro mult_mono) simp_all
    with assms(4) show False by simp
  qed
  have "(2 :: nat) ^ 63 = 2 ^ (63 - s) * 2 ^ s" using s62 by (simp flip: power_add)
  with assms(3) have "2 ^ (63 - s) * 2 ^ s \<le> (2 * f + 1) * 2 ^ s" by simp
  then have "2 ^ (63 - s) \<le> 2 * f + 1" by (rule mult_right_le_imp_le) simp
  moreover have "even ((2 :: nat) ^ (63 - s))" using s62 by simp
  ultimately have "2 ^ (63 - s) \<le> 2 * f" by (metis Suc_eq_plus1 dvd_triv_left even_Suc le_Suc_eq)
  then have "2 ^ (63 - s) * 2 ^ s \<le> 2 * f * 2 ^ s" by (rule mult_right_mono) simp
  with \<open>(2 :: nat) ^ 63 = 2 ^ (63 - s) * 2 ^ s\<close> show "2 ^ 63 \<le> f * 2 ^ (s + 1)" by (simp add: mult.commute mult.left_commute)
  have "f * 2 ^ (s + 1) \<le> (2 * f + 1) * 2 ^ s" by (simp add: algebra_simps)
  with assms(4) show "f * 2 ^ (s + 1) < 2 ^ 64" by linarith
  show "s = 10" if "2 ^ 52 \<le> f"
  proof (rule ccontr)
    assume "s \<noteq> 10"
    then have "(2 :: nat) ^ 11 \<le> 2 ^ s" using s10 by (intro power_increasing) simp_all
    then have "(2 ^ 53 + 1) * 2 ^ 11 \<le> (2 * f + 1) * 2 ^ s" using that by (intro mult_mono) simp_all
    with assms(4) show False by simp
  qed
qed

lemma compute_boundaries_ok:
  assumes "double_isfinite x" "\<not> signbit x" "magnitude x \<noteq> 0"
  obtains s e where "compute_boundaries x = Inr
      \<lparr>bound_w = \<lparr>diy_f = 2 * double_f x * 2 ^ s, diy_e = e\<rparr>, bound_minus = \<lparr>diy_f = 2 * double_f x * 2 ^ s - gap_below x s, diy_e = e\<rparr>,
       bound_plus = \<lparr>diy_f = (2 * double_f x + 1) * 2 ^ s, diy_e = e\<rparr>\<rparr>"
    "e = double_e x - 1 - int s" "10 \<le> s" "2 ^ 63 \<le> 2 * double_f x * 2 ^ s" "(2 * double_f x + 1) * 2 ^ s < 2 ^ 64"
    "- 1137 \<le> e" "e \<le> 960"
proof -
  let ?f = "double_f x" and ?e = "double_e x"
  have bits: "unat x = magnitude x" using assms(2) by (simp add: signbit_iff magnitude_def)
  note f = double_f_bounds [OF assms(1,3)]
  have v: "(if unat x div 2 ^ 52 = 0 then \<lparr>diy_f = unat x mod 2 ^ 52, diy_e = - 1074\<rparr>
      else \<lparr>diy_f = u64 (unat x mod 2 ^ 52 + 2 ^ 52), diy_e = int (unat x div 2 ^ 52) - 1075\<rparr>) = \<lparr>diy_f = ?f, diy_e = ?e\<rparr>"
  proof -
    have "magnitude x mod 2 ^ 52 < 2 ^ 52" by simp
    then have "u64 (magnitude x mod 2 ^ 52 + 2 ^ 52) = magnitude x mod 2 ^ 52 + 2 ^ 52" unfolding u64_def by simp
    then show ?thesis unfolding bits by (simp add: double_f_def double_e_def Let_def)
  qed
  have F: "and (unat x) (2 ^ 52 - 1) = unat x mod 2 ^ 52" using take_bit_eq_mask [of 52 "unat x"]
    by (simp add: mask_eq_exp_minus_1 take_bit_eq_mod)
  have closer: "(unat x mod 2 ^ 52 = 0 \<and> unat x div 2 ^ 52 > 1) = closer_below x" unfolding bits by (simp add: closer_below_def Let_def)
  have "0 < 2 * ?f + 1" "2 * ?f + 1 < 2 ^ 64" using f by simp_all
  from diyfp_normalize_ok [OF this, of "?e - 1"] obtain s where
    s: "diyfp_normalize \<lparr>diy_f = 2 * ?f + 1, diy_e = ?e - 1\<rparr> = Inr \<lparr>diy_f = (2 * ?f + 1) * 2 ^ s, diy_e = ?e - 1 - int s\<rparr>"
      "2 ^ 63 \<le> (2 * ?f + 1) * 2 ^ s" "(2 * ?f + 1) * 2 ^ s < 2 ^ 64" by blast
  note sb = shift_bounds [OF f(1,2) s(2,3)]
  have "?f < 2 ^ 64" using f(2) by simp
  from diyfp_normalize_ok [OF f(1) this, of ?e] obtain t where
    t: "diyfp_normalize \<lparr>diy_f = ?f, diy_e = ?e\<rparr> = Inr \<lparr>diy_f = ?f * 2 ^ t, diy_e = ?e - int t\<rparr>"
      "2 ^ 63 \<le> ?f * 2 ^ t" "?f * 2 ^ t < 2 ^ 64" by blast
  then have "t = s + 1" using normalized_unique [OF t(2,3) sb(3,4)] by simp
  with t(1) have w: "diyfp_normalize \<lparr>diy_f = ?f, diy_e = ?e\<rparr> = Inr \<lparr>diy_f = 2 * ?f * 2 ^ s, diy_e = ?e - 1 - int s\<rparr>"
    by (simp add: mult.commute mult.left_commute)
  have plus: "u64 (2 * ?f + 1) = 2 * ?f + 1" using f(2) by (simp add: u64_def)
  define m where "m = (if closer_below x then \<lparr>diy_f = u64 (4 * ?f - 1), diy_e = ?e - 2\<rparr> else \<lparr>diy_f = u64 (2 * ?f - 1), diy_e = ?e - 1\<rparr>)"
  have minus: "diyfp_normalize_to m (?e - 1 - int s) = Inr \<lparr>diy_f = 2 * ?f * 2 ^ s - gap_below x s, diy_e = ?e - 1 - int s\<rparr>"
  proof (cases "closer_below x")
    case True
    then have "?f = 2 ^ 52" "s = 10" using f(6) sb(5) by simp_all
    with True diyfp_normalize_to_ok [of "4 * 2 ^ 52 - 1" 9 "?e - 2"] show ?thesis
      by (simp add: m_def gap_below_def u64_def)
  next
    case False
    have "(2 * ?f - 1) * 2 ^ s \<le> (2 * ?f + 1) * 2 ^ s" by (intro mult_right_mono) simp_all
    then have "(2 * ?f - 1) * 2 ^ s < 2 ^ 64" using s(3) by linarith
    from diyfp_normalize_to_ok [OF this, of "?e - 1"] False sb(2) f(2) show ?thesis
      by (simp add: m_def gap_below_def u64_def diff_mult_distrib)
  qed
  show thesis
  proof (rule that)
    show "compute_boundaries x = Inr
      \<lparr>bound_w = \<lparr>diy_f = 2 * ?f * 2 ^ s, diy_e = ?e - 1 - int s\<rparr>, bound_minus = \<lparr>diy_f = 2 * ?f * 2 ^ s - gap_below x s, diy_e = ?e - 1 - int s\<rparr>,
       bound_plus = \<lparr>diy_f = (2 * ?f + 1) * 2 ^ s, diy_e = ?e - 1 - int s\<rparr>\<rparr>"
      unfolding compute_boundaries_def Let_def F drop_bit_eq_div v closer diyfp.select_convs m_def [symmetric] plus
      using assms s(1) w minus by (simp add: assert_that_def)
  qed (use sb f s in \<open>auto simp: mult.commute mult.left_commute\<close>)
qed

subsection \<open>Scaled boundaries\<close>

definition scaled :: "nat \<Rightarrow> nat \<Rightarrow> nat" where
  "scaled cf n = (n * cf + 2 ^ 63) div 2 ^ 64"

lemma scaled_error: "\<bar>real (scaled cf n) - real n * real cf / 2 ^ 64\<bar> \<le> 1 / 2"
  using round_div [of "n * cf"] by (simp add: scaled_def)

lemma gap_below_bounds: "1 \<le> s \<Longrightarrow> 2 ^ s / 2 \<le> real (gap_below x s)" "real (gap_below x s) \<le> 2 ^ s"
  by (cases s; simp add: gap_below_def)+

definition upper :: "double \<Rightarrow> nat \<Rightarrow> nat" where
  "upper x s = (2 * double_f x + 1) * 2 ^ s"

definition middle :: "double \<Rightarrow> nat \<Rightarrow> nat" where
  "middle x s = 2 * double_f x * 2 ^ s"

definition lower :: "double \<Rightarrow> nat \<Rightarrow> nat" where
  "lower x s = 2 * double_f x * 2 ^ s - gap_below x s"

text \<open>A double and its shift into the 64 bits, and the significand of a cached power.\<close>

definition scaling :: "double \<Rightarrow> nat \<Rightarrow> nat \<Rightarrow> bool" where
  "scaling x s cf \<longleftrightarrow> double_isfinite x \<and> magnitude x \<noteq> 0 \<and> 10 \<le> s \<and> 2 ^ 63 \<le> middle x s \<and> upper x s < 2 ^ 64 \<and>
     2 ^ 63 \<le> cf \<and> cf < 2 ^ 64"

lemma scalingD:
  assumes "scaling x s cf"
  shows "double_isfinite x" "magnitude x \<noteq> 0" "10 \<le> s" "2 ^ 63 \<le> middle x s" "upper x s < 2 ^ 64" "2 ^ 63 \<le> cf" "cf < 2 ^ 64"
  using assms by (simp_all add: scaling_def)

lemma factor_bounds:
  assumes "scaling x s cf"
  shows "1 / 2 \<le> real cf / 2 ^ 64" "real cf / 2 ^ 64 < 1"
proof -
  have "real (2 ^ 63) \<le> real cf" "real cf < real (2 ^ 64)" using scalingD(6,7) [OF assms] by (simp_all only: of_nat_le_iff of_nat_less_iff)
  then show "1 / 2 \<le> real cf / 2 ^ 64" "real cf / 2 ^ 64 < 1" by simp_all
qed

lemma real_upper: "real (upper x s) = real (middle x s) + 2 ^ s"
  by (simp add: upper_def middle_def algebra_simps)

lemma real_lower:
  assumes "scaling x s cf"
  shows "real (lower x s) = real (middle x s) - real (gap_below x s)"
proof -
  have "real (gap_below x s) \<le> 2 ^ s" by (rule gap_below_bounds)
  also have "\<dots> \<le> real (2 * double_f x * 2 ^ s)" using double_f_bounds(1) [OF scalingD(1,2) [OF assms]] by simp
  finally have "gap_below x s \<le> 2 * double_f x * 2 ^ s" by (simp only: of_nat_le_iff)
  then show ?thesis by (simp add: lower_def middle_def of_nat_diff)
qed

lemma real_gap: "scaling x s cf \<Longrightarrow> 512 \<le> real (gap_below x s)" "scaling x s cf \<Longrightarrow> 1024 \<le> (2 :: real) ^ s"
proof -
  assume s: "scaling x s cf"
  then show unit: "1024 \<le> (2 :: real) ^ s" using power_increasing [OF scalingD(3), of x s cf "2 :: real"] by simp
  then show "512 \<le> real (gap_below x s)" using gap_below_bounds(1) [of s x] scalingD(3) [OF s] by linarith
qed

lemma scaled_spread:
  assumes "scaling x s cf"
  shows "real (scaled cf (lower x s)) + 255 \<le> real (scaled cf (middle x s))"
    "real (scaled cf (middle x s)) + 511 \<le> real (scaled cf (upper x s))"
proof -
  define c where "c = real cf / 2 ^ 64"
  have c: "1 / 2 \<le> c" using factor_bounds(1) [OF assms] by (simp add: c_def)
  have "512 \<le> (2 :: real) ^ s * c" "256 \<le> real (gap_below x s) * c"
    using mult_mono [OF real_gap(2) [OF assms] c] mult_mono [OF real_gap(1) [OF assms] c] by simp_all
  moreover have "real (upper x s) * c = real (middle x s) * c + 2 ^ s * c"
    "real (lower x s) * c = real (middle x s) * c - real (gap_below x s) * c"
    by (simp_all add: real_upper real_lower [OF assms] algebra_simps)
  moreover have near: "\<bar>real (scaled cf n) - real n * c\<bar> \<le> 1 / 2" for n using scaled_error [of cf n] by (simp add: c_def)
  note near [of "upper x s"] near [of "middle x s"] near [of "lower x s"]
  ultimately show "real (scaled cf (lower x s)) + 255 \<le> real (scaled cf (middle x s))"
    "real (scaled cf (middle x s)) + 511 \<le> real (scaled cf (upper x s))" by argo+
qed

lemma scaled_order:
  assumes "scaling x s cf"
  shows "scaled cf (lower x s) + 255 \<le> scaled cf (middle x s)" "scaled cf (middle x s) + 511 \<le> scaled cf (upper x s)"
  using scaled_spread [OF assms] by linarith+

lemma relative_spread:
  assumes "scaling x s cf"
  shows "real (upper x s) \<le> (real (upper x s) - real (lower x s)) * 2 ^ 53"
proof -
  note f = double_f_bounds [OF scalingD(1,2) [OF assms]]
  have diff: "real (upper x s) - real (lower x s) = 2 ^ s + real (gap_below x s)" by (simp add: real_upper real_lower [OF assms])
  show ?thesis
  proof (cases "closer_below x")
    case True
    obtain k where s: "s = Suc k" using scalingD(3) [OF assms] by (cases s) auto
    have "double_f x = 2 ^ 52" using f(6) True by simp
    with True show ?thesis unfolding diff by (simp add: s upper_def gap_below_def algebra_simps)
  next
    case False
    have "2 * real (double_f x) + 1 \<le> 2 ^ 54" using f(2) by simp
    then have "(2 * real (double_f x) + 1) * 2 ^ s \<le> 2 ^ 54 * 2 ^ s" by (rule mult_right_mono) simp
    with False show ?thesis unfolding diff by (simp add: upper_def gap_below_def algebra_simps)
  qed
qed

lemma scaled_size:
  assumes "scaling x s cf"
  shows "scaled cf (upper x s) < 2 ^ 64" "2 ^ 62 \<le> scaled cf (upper x s)"
proof -
  note sc = scalingD [OF assms]
  have "upper x s * cf \<le> (2 ^ 64 - 1) * (2 ^ 64 - 1)" using sc by (intro mult_mono) simp_all
  then show "scaled cf (upper x s) < 2 ^ 64" by (simp add: scaled_def div_less_iff_less_mult)
  have "2 ^ 63 \<le> upper x s" using sc(4) by (simp add: upper_def middle_def algebra_simps)
  then have "2 ^ 63 * 2 ^ 63 \<le> upper x s * cf" using sc(6) by (intro mult_mono) simp_all
  then have "2 ^ 62 \<le> (upper x s * cf) div 2 ^ 64" by (simp add: less_eq_div_iff_mult_less_eq)
  also have "\<dots> \<le> scaled cf (upper x s)" unfolding scaled_def by (rule div_le_mono) simp
  finally show "2 ^ 62 \<le> scaled cf (upper x s)" .
qed

text \<open>Seventeen digits tell the scaled boundaries apart.\<close>

lemma digits_suffice:
  assumes "scaling x s cf"
  shows "scaled cf (upper x s) - 1 \<le> (scaled cf (upper x s) - 1 - (scaled cf (lower x s) + 1)) * 10 ^ 16"
proof -
  define c where "c = real cf / 2 ^ 64"
  let ?u = "real (scaled cf (upper x s))" and ?l = "real (scaled cf (lower x s))"
  have near: "\<bar>real (scaled cf n) - real n * c\<bar> \<le> 1 / 2" for n using scaled_error [of cf n] by (simp add: c_def)
  have "real (upper x s) * c \<le> (real (upper x s) - real (lower x s)) * 2 ^ 53 * c"
    using relative_spread [OF assms] factor_bounds(1) [OF assms] by (intro mult_right_mono) (simp_all add: c_def)
  also have "\<dots> = (real (upper x s) * c - real (lower x s) * c) * 2 ^ 53" by (simp add: algebra_simps)
  also have "\<dots> \<le> (?u - ?l + 1) * 2 ^ 53" using near [of "upper x s"] near [of "lower x s"] by (intro mult_right_mono) (argo, simp)
  finally have "real (upper x s) * c \<le> (?u - ?l + 1) * 2 ^ 53" .
  moreover have "?u - 1 \<le> real (upper x s) * c" using near [of "upper x s"] by argo
  moreover have "(?u - ?l + 1) * 2 ^ 53 \<le> (?u - ?l - 2) * 10 ^ 16" using scaled_spread [OF assms] by simp
  ultimately have "?u - 1 \<le> (?u - ?l - 2) * 10 ^ 16" by linarith
  moreover have "real (scaled cf (upper x s) - 1) = ?u - 1" "real (scaled cf (upper x s) - 1 - (scaled cf (lower x s) + 1)) = ?u - ?l - 2"
    using scaled_order [OF assms] by (simp_all add: of_nat_diff)
  ultimately have "real (scaled cf (upper x s) - 1) \<le> real ((scaled cf (upper x s) - 1 - (scaled cf (lower x s) + 1)) * 10 ^ 16)" by simp
  then show ?thesis by (simp only: of_nat_le_iff)
qed

subsection \<open>The enclosure\<close>

text \<open>
  One unit less than the scaled upper boundary stays below the boundary times the exact power of ten, in
  spite of the error of the cached power and of the rounded product; likewise below.
\<close>

lemma scaled_enclosure:
  assumes row: "power_row (cf, ce, ck)" and n: "n < 2 ^ 64"
  shows "(real (scaled cf n) - 1) * 2 powi (e + ce + 64) < real n * 2 powi e * 10 powi ck"
    "real n * 2 powi e * 10 powi ck < (real (scaled cf n) + 1) * 2 powi (e + ce + 64)"
proof -
  define u where "u = (2 :: real) powi (e + ce)"
  define h where "h = real (scaled cf n)"
  have u: "0 < u" and split: "2 powi (e + ce + 64) = u * 2 ^ 64" "u = 2 powi e * 2 powi ce"
    by (simp_all add: u_def power_int_add)
  have "\<bar>h - real n * real cf / 2 ^ 64\<bar> \<le> 1 / 2" using scaled_error [of cf n] by (simp add: h_def)
  then have "h * 2 ^ 64 \<le> real n * real cf + 2 ^ 63" "real n * real cf \<le> h * 2 ^ 64 + 2 ^ 63" by (simp_all add: abs_le_iff field_simps)
  then have "h * 2 ^ 64 * u \<le> (real n * real cf + 2 ^ 63) * u" "real n * real cf * u \<le> (h * 2 ^ 64 + 2 ^ 63) * u"
    using u by (simp_all add: mult_right_mono)
  then have "2 ^ 64 * (h * u) \<le> real n * real cf * u + 2 ^ 63 * u" "real n * real cf * u \<le> 2 ^ 64 * (h * u) + 2 ^ 63 * u"
    by (simp_all add: algebra_simps)
  moreover have "\<bar>real n * real cf * u - real n * 2 powi e * 10 powi ck\<bar> \<le> real n * u / 2"
  proof -
    have "real n * real cf * u - real n * 2 powi e * 10 powi ck = real n * 2 powi e * (real cf * 2 powi ce - 10 powi ck)"
      by (simp add: split(2) algebra_simps)
    then have "\<bar>real n * real cf * u - real n * 2 powi e * 10 powi ck\<bar> = real n * 2 powi e * \<bar>real cf * 2 powi ce - 10 powi ck\<bar>"
      by (simp add: abs_mult)
    also have "\<dots> \<le> real n * 2 powi e * (2 powi ce / 2)" using power_row_error(1) [OF row] by (intro mult_left_mono) simp_all
    finally show ?thesis by (simp add: split(2))
  qed
  moreover have "real n < real (2 ^ 64)" using n by (simp only: of_nat_less_iff)
  then have "real n * u < 2 * (2 ^ 63 * u)" using u by simp
  moreover have "a - 2 * k < b" "b < a + 2 * k" if "a \<le> m + k" "m \<le> a + k" "\<bar>m - b\<bar> \<le> t / 2" "t < 2 * k" for a b m t k :: real
    using that by argo+
  ultimately have "2 ^ 64 * (h * u) - 2 * (2 ^ 63 * u) < real n * 2 powi e * 10 powi ck" "real n * 2 powi e * 10 powi ck < 2 ^ 64 * (h * u) + 2 * (2 ^ 63 * u)"
    by blast+
  then have "(h - 1) * (u * 2 ^ 64) < real n * 2 powi e * 10 powi ck" "real n * 2 powi e * 10 powi ck < (h + 1) * (u * 2 ^ 64)"
    by (simp_all add: algebra_simps)
  then show "(real (scaled cf n) - 1) * 2 powi (e + ce + 64) < real n * 2 powi e * 10 powi ck"
    "real n * 2 powi e * 10 powi ck < (real (scaled cf n) + 1) * 2 powi (e + ce + 64)"
    unfolding split(1) h_def by simp_all
qed

text \<open>The value of a double without its sign, and the numbers half way to its neighbours.\<close>

definition double_abs :: "double \<Rightarrow> real" where
  "double_abs x = real (double_f x) * 2 powi double_e x"

definition halfway_above :: "double \<Rightarrow> real" where
  "halfway_above x = double_abs x + 2 powi double_e x / 2"

definition halfway_below :: "double \<Rightarrow> real" where
  "halfway_below x = double_abs x - (if closer_below x then 2 powi double_e x / 4 else 2 powi double_e x / 2)"

lemma upper_halfway: "real (upper x s) * 2 powi (double_e x - 1 - int s) = halfway_above x"
proof -
  have "real (upper x s) * 2 powi (double_e x - 1 - int s) = (2 * real (double_f x) + 1) * (2 ^ s * 2 powi (double_e x - 1 - int s))"
    unfolding upper_def of_nat_mult of_nat_add of_nat_power by simp
  also have "(2 :: real) ^ s * 2 powi (double_e x - 1 - int s) = 2 powi double_e x / 2" by (simp add: power_int_diff)
  finally show ?thesis by (simp add: halfway_above_def double_abs_def algebra_simps)
qed

lemma lower_halfway:
  assumes "scaling x s cf"
  shows "real (lower x s) * 2 powi (double_e x - 1 - int s) = halfway_below x"
proof -
  obtain k where k: "s = Suc k" using scalingD(3) [OF assms] by (cases s) auto
  have unit: "(2 :: real) ^ s * 2 powi (double_e x - 1 - int s) = 2 powi double_e x / 2" by (simp add: power_int_diff)
  then have "real (gap_below x s) * 2 powi (double_e x - 1 - int s) = (if closer_below x then 2 powi double_e x / 4 else 2 powi double_e x / 2)"
    by (simp add: gap_below_def k)
  moreover have "real (middle x s) * 2 powi (double_e x - 1 - int s) = 2 * real (double_f x) * (2 ^ s * 2 powi (double_e x - 1 - int s))"
    by (simp add: middle_def)
  then have "real (middle x s) * 2 powi (double_e x - 1 - int s) = double_abs x" unfolding unit by (simp add: double_abs_def)
  ultimately show ?thesis unfolding real_lower [OF assms] halfway_below_def by (simp add: left_diff_distrib)
qed

text \<open>What the digits of a number between the two scaled boundaries denote rounds to the double.\<close>

lemma scaled_between:
  assumes sc: "scaling x s cf" and row: "power_row (cf, ce, ck)" and e: "e = double_e x - 1 - int s"
    and y: "real (scaled cf (lower x s) + 1) * 2 powi (e + ce + 64) \<le> y" "y \<le> real (scaled cf (upper x s) - 1) * 2 powi (e + ce + 64)"
  shows "halfway_below x < y * 10 powi (- ck)" "y * 10 powi (- ck) < halfway_above x"
proof -
  have "lower x s < 2 ^ 64" "upper x s < 2 ^ 64" using scalingD(5) [OF sc] by (simp_all add: lower_def upper_def algebra_simps)
  note encl = scaled_enclosure(2) [OF row this(1), of e] scaled_enclosure(1) [OF row this(2), of e]
  have "real (scaled cf (upper x s) - 1) = real (scaled cf (upper x s)) - 1" using scaled_order [OF sc] by (simp add: of_nat_diff)
  with encl y have "real (lower x s) * 2 powi e * 10 powi ck < y" "y < real (upper x s) * 2 powi e * 10 powi ck" by (simp_all add: add.commute)
  then have "halfway_below x * 10 powi ck < y" "y < halfway_above x * 10 powi ck"
    using lower_halfway [OF sc] upper_halfway [of x s] by (simp_all add: e)
  then show "halfway_below x < y * 10 powi (- ck)" "y * 10 powi (- ck) < halfway_above x"
    by (simp_all add: power_int_minus field_simps)
qed

end
