(* ===== verification/Json_Grisu_Digits.thy ===== *)
theory Json_Grisu_Digits
  imports Json_Grisu_Arith
begin

text \<open>
  The digits that Grisu2 generates: no assertion fails, nothing wraps around, at most seventeen digits are
  written, and the number they denote lies between the scaled boundaries.
\<close>

subsection \<open>Digits in the buffer\<close>

definition digit_char :: "nat \<Rightarrow> char" where
  "digit_char d = char_of (48 + d)"

definition dec :: "nat list \<Rightarrow> nat" where
  "dec ds = foldl (\<lambda>n d. 10 * n + d) 0 ds"

lemma dec_simps [simp]: "dec [] = 0" "dec [d] = d" "dec (ds @ [d]) = 10 * dec ds + d"
  by (simp_all add: dec_def)

definition decimal :: "nat list \<Rightarrow> bool" where
  "decimal ds \<longleftrightarrow> ds \<noteq> [] \<and> list_all (\<lambda>d. d \<le> 9) ds \<and> hd ds \<noteq> 0"

lemma decimal_snoc: "decimal (ds @ [d]) \<longleftrightarrow> d \<le> 9 \<and> (if ds = [] then d \<noteq> 0 else decimal ds)"
  by (auto simp: decimal_def hd_append)

lemma dec_lower: "decimal ds \<Longrightarrow> 10 ^ (length ds - 1) \<le> dec ds"
proof (induction ds rule: rev_induct)
  case (snoc d ds)
  show ?case
  proof (cases "ds = []")
    case False
    with snoc have "10 ^ (length ds - 1) \<le> dec ds" by (simp add: decimal_snoc)
    moreover obtain n where "length ds = Suc n" using False by (cases ds) auto
    ultimately show ?thesis by simp
  qed (use snoc.prems in \<open>simp add: decimal_def\<close>)
qed (simp add: decimal_def)

definition digits_at :: "bytes \<Rightarrow> nat \<Rightarrow> nat list \<Rightarrow> digit_buffer \<Rightarrow> bool" where
  "digits_at pre len ds b \<longleftrightarrow>
     (\<exists>rest. dbuf b = pre @ map digit_char ds @ rest) \<and> dfirst b = length pre \<and> dlen b = length ds \<and> length (dbuf b) = len"

lemma add_digit_ok:
  assumes "digits_at pre len ds b" "length pre + length ds < len"
  obtains b' where "add_digit d b = Inr b'" "digits_at pre len (ds @ [d]) b'"
proof -
  obtain rest where rest: "dbuf b = pre @ map digit_char ds @ rest" using assms(1) by (auto simp: digits_at_def)
  then obtain c rest' where c: "rest = c # rest'" using assms by (cases rest) (auto simp: digits_at_def)
  have "mem_write (dbuf b) (dfirst b + dlen b) [char_of (48 + d)] = Inr (pre @ map digit_char ds @ digit_char d # rest')"
    using assms by (simp add: digits_at_def rest c mem_defs digit_char_def)
  then have "add_digit d b = Inr (b\<lparr>dbuf := pre @ map digit_char ds @ digit_char d # rest', dlen := dlen b + 1\<rparr>)"
    by (simp add: add_digit_def)
  then show thesis using assms rest c by (intro that) (auto simp: digits_at_def)
qed

lemma digit_char_pred: "0 < d \<Longrightarrow> d \<le> 9 \<Longrightarrow> char_of (byte_val (digit_char d) + 255) = digit_char (d - 1)"
proof -
  assume d: "0 < d" "d \<le> 9"
  then have "byte_val (digit_char d) + 255 = 48 + (d - 1) + 256" by (simp add: digit_char_def byte_val_def)
  then show ?thesis using char_of_mod_256 [of "48 + (d - 1) + 256"] char_of_mod_256 [of "48 + (d - 1)"]
    unfolding digit_char_def by (simp only: mod_add_self2)
qed

lemma decrement_last_ok:
  assumes "digits_at pre len (ds @ [d]) b" "0 < d" "d \<le> 9"
  obtains b' where "decrement_last b = Inr b'" "digits_at pre len (ds @ [d - 1]) b'"
proof -
  obtain rest where rest: "dbuf b = pre @ map digit_char ds @ digit_char d # rest" using assms(1) by (auto simp: digits_at_def)
  have last: "last_digit b = Inr (digit_char d)" using assms(1) by (simp add: last_digit_def mem_defs rest digits_at_def)
  have "digit_char d \<noteq> CHR ''0''"
  proof
    assume "digit_char d = CHR ''0''"
    then have "(of_char (digit_char d) :: nat) = 48" by simp
    with assms(2,3) show False by (simp add: digit_char_def)
  qed
  moreover have "mem_write (dbuf b) (dfirst b + dlen b - 1) [char_of (byte_val (digit_char d) + 255)] =
      Inr (pre @ map digit_char ds @ digit_char (d - 1) # rest)"
    unfolding digit_char_pred [OF assms(2,3)] using assms(1) by (simp add: rest digits_at_def mem_defs)
  ultimately have "decrement_last b = Inr (b\<lparr>dbuf := pre @ map digit_char ds @ digit_char (d - 1) # rest\<rparr>)"
    by (simp add: decrement_last_def last assert_that_def)
  then show thesis using assms(1) rest by (intro that) (auto simp: digits_at_def)
qed

subsection \<open>Rounding\<close>

text \<open>
  The digits stand for \<open>d * ten_k\<close>, \<open>rest\<close> below the upper end. Decrementing the last digit never reaches 0,
  because without that digit the interval would be left.
\<close>

lemma round_loop_ok:
  assumes "digits_at pre len (ds @ [d]) b" "d \<le> 9" "rest \<le> delta" "delta < 2 ^ 64" "0 < ten_k" "delta < d * ten_k + rest"
  shows "\<exists>b' d' rest'. round_loop w_dist delta rest ten_k b = Inr b' \<and> digits_at pre len (ds @ [d']) b' \<and> 0 < d' \<and> d' \<le> 9 \<and>
    d' * ten_k + rest' = d * ten_k + rest \<and> rest' \<le> delta"
  using assms
proof (induction d arbitrary: b rest)
  case (Suc d)
  have diff: "u64 (delta + 2 ^ 64 - rest) = delta - rest"
  proof -
    have "delta + 2 ^ 64 - rest = (delta - rest) + 2 ^ 64" using Suc.prems(3) by simp
    then show ?thesis using Suc.prems(4) unfolding u64_def by (simp only: mod_add_self2) simp
  qed
  define go where "go \<longleftrightarrow> rest < w_dist \<and> ten_k \<le> delta - rest \<and>
    (u64 (rest + ten_k) < w_dist \<or> u64 (u64 (rest + ten_k) + 2 ^ 64 - w_dist) < w_dist - rest)"
  note step = round_loop.simps [of w_dist delta rest ten_k b, unfolded diff go_def [symmetric]]
  show ?case
  proof (cases go)
    case True
    then have r: "rest + ten_k \<le> delta" using Suc.prems(3) by (auto simp: go_def)
    then have wrap: "u64 (rest + ten_k) = rest + ten_k" using Suc.prems(4) unfolding u64_def by (intro mod_less) linarith
    obtain b' where b': "decrement_last b = Inr b'" "digits_at pre len (ds @ [d]) b'"
      using decrement_last_ok [OF Suc.prems(1)] Suc.prems(2) by auto
    have "delta < d * ten_k + (rest + ten_k)" using Suc.prems(6) by simp
    from Suc.IH [OF b'(2) _ r Suc.prems(4,5) this] Suc.prems(2) show ?thesis
      by (simp add: step True b'(1) wrap) (metis add.commute add.left_commute)
  next
    case False
    with Suc.prems show ?thesis by (auto simp: step)
  qed
qed simp

text \<open>
  The outcome of the digit generation: decimal digits behind \<open>pre\<close> and a decimal exponent near \<open>de\<close>, which
  denote a number that, scaled by \<open>2 ^ s\<close> and relative to \<open>10 ^ de\<close>, lies between \<open>lo\<close> and \<open>hi\<close>.
\<close>

definition generated :: "bytes \<Rightarrow> nat \<Rightarrow> nat \<Rightarrow> int \<Rightarrow> real \<Rightarrow> real \<Rightarrow> (digit_buffer \<times> int) res \<Rightarrow> bool" where
  "generated pre len s de lo hi r \<longleftrightarrow> (\<exists>b ds e. r = Inr (b, e) \<and> digits_at pre len ds b \<and> decimal ds \<and> length ds \<le> 17 \<and>
     de - 17 \<le> e \<and> e \<le> de + 10 \<and> lo \<le> real (dec ds) * 10 powi (e - de) * 2 ^ s \<and> real (dec ds) * 10 powi (e - de) * 2 ^ s \<le> hi)"

lemma grisu2_round_ok:
  assumes "digits_at pre len (ds @ [d]) b" "decimal (ds @ [d])" "length ds \<le> 16" "w_dist \<le> delta" "rest \<le> delta" "delta < 2 ^ 64" "0 < ten_k"
    and "delta < d * ten_k + rest" "t = real ten_k * u" "0 \<le> u" "de - 17 \<le> e" "e \<le> de + 10" "t = 10 powi (e - de) * 2 ^ s"
  shows "generated pre len s de (real (dec (ds @ [d]) * ten_k + rest - delta) * u) (real (dec (ds @ [d]) * ten_k + rest) * u)
    (bind_res (grisu2_round b w_dist delta rest ten_k) (\<lambda>b2. Inr (b2, e)))"
proof -
  have "d \<le> 9" using assms(2) by (simp add: decimal_snoc)
  from round_loop_ok [OF assms(1) this assms(5,6,7,8)] obtain b' d' rest' where
    r: "round_loop w_dist delta rest ten_k b = Inr b'" "digits_at pre len (ds @ [d']) b'" "0 < d'" "d' \<le> 9"
      "d' * ten_k + rest' = d * ten_k + rest" "rest' \<le> delta" by blast
  have "1 \<le> dlen b" using assms(1) by (simp add: digits_at_def)
  then have run: "bind_res (grisu2_round b w_dist delta rest ten_k) (\<lambda>b2. Inr (b2, e)) = Inr (b', e)"
    using assms r(1) by (simp add: grisu2_round_def assert_that_def)
  have dec: "decimal (ds @ [d'])" using assms(2) r(3,4) by (simp add: decimal_snoc split: if_splits)
  have total: "dec (ds @ [d']) * ten_k + rest' = dec (ds @ [d]) * ten_k + rest" using r(5) by (simp add: algebra_simps)
  then have "dec (ds @ [d']) * ten_k \<le> dec (ds @ [d]) * ten_k + rest" "dec (ds @ [d]) * ten_k + rest - delta \<le> dec (ds @ [d']) * ten_k"
    using r(6) by linarith+
  then have "real (dec (ds @ [d']) * ten_k) * u \<le> real (dec (ds @ [d]) * ten_k + rest) * u"
    "real (dec (ds @ [d]) * ten_k + rest - delta) * u \<le> real (dec (ds @ [d']) * ten_k) * u"
    using assms(10) by (simp_all only: mult_right_mono of_nat_le_iff)
  moreover have "real (dec (ds @ [d']) * ten_k) * u = real (dec (ds @ [d'])) * 10 powi (e - de) * 2 ^ s"
    using assms(9,13) by (simp add: mult.assoc)
  moreover have "length (ds @ [d']) \<le> 17" using assms(3) by simp
  ultimately show ?thesis unfolding generated_def using run r(2) dec assms(11,12) by metis
qed

lemma few_digits:
  assumes "decimal ds" "dec ds * t \<le> m" "delta < t" "m \<le> delta * 10 ^ 16"
  shows "length ds \<le> 16"
proof -
  have "10 ^ (length ds - 1) * t \<le> dec ds * t" using dec_lower [OF assms(1)] by (rule mult_right_mono) simp
  also have "\<dots> \<le> delta * 10 ^ 16" using assms(2,4) by linarith
  also have "\<dots> < 10 ^ 16 * t" using assms(3) by simp
  finally have "(10 :: nat) ^ (length ds - 1) < 10 ^ 16" by simp
  then have "length ds - 1 < 16" by (rule power_less_imp_less_exp [rotated]) simp
  then show ?thesis by simp
qed

subsection \<open>The fractional part\<close>

lemma fractional_loop_ok:
  assumes "digits_at pre len ds b" "decimal ds" "length pre + 17 \<le> len" "s \<le> 60" "p2 < 2 ^ s" "delta < p2" "w_dist \<le> delta" "m \<le> length ds"
    and "dec ds * 2 ^ s + p2 \<le> delta * 10 ^ 16"
  shows "generated pre len s de (real (dec ds * 2 ^ s + p2 - delta) / 10 ^ m) (real (dec ds * 2 ^ s + p2) / 10 ^ m)
    (fractional_loop s de m p2 delta w_dist b)"
  using assms
proof (induction "17 - length ds" arbitrary: ds b p2 delta w_dist m rule: less_induct)
  case less
  note prems = less.prems
  let ?N = "2 ^ s :: nat"
  define d r where "d = p2 * 10 div ?N" and "r = p2 * 10 mod ?N"
  have N: "?N \<le> 2 ^ 60" using prems(4) by (rule power_increasing) simp
  have len: "length ds \<le> 16" using few_digits [OF prems(2) _ _ prems(9), of "2 ^ s"] prems(5,6) by simp
  have p2: "p2 * 10 < 2 ^ 64" "delta * 10 < 2 ^ 64" "w_dist * 10 < 2 ^ 64" using N prems(5,6,7) by simp_all
  then have wrap: "u64 (p2 * 10) = p2 * 10" "u64 (delta * 10) = delta * 10" "u64 (w_dist * 10) = w_dist * 10" "u64 (push_bit s 1) = ?N"
    using N by (simp_all add: u64_def push_bit_eq_mult)
  have mask: "and (p2 * 10) (?N - 1) = r" using take_bit_eq_mask [of s "p2 * 10"] by (simp add: mask_eq_exp_minus_1 take_bit_eq_mod r_def)
  have d9: "d \<le> 9" using prems(5) by (simp add: d_def flip: less_Suc_eq_le add: div_less_iff_less_mult)
  have small: "p2 \<le> (2 ^ 64 - 1) div 10" using N prems(5) by simp
  have dr: "d * ?N + r = p2 * 10" unfolding d_def r_def by (rule div_mult_mod_eq)
  have "length pre + length ds < len" using len prems(3) by simp
  then obtain b1 where b1: "add_digit d b = Inr b1" "digits_at pre len (ds @ [d]) b1" by (rule add_digit_ok [OF prems(1)])
  have dec1: "decimal (ds @ [d])" using prems(2) d9 by (auto simp: decimal_snoc decimal_def)
  have step: "fractional_loop s de m p2 delta w_dist b =
     (if r \<le> delta * 10 then bind_res (grisu2_round b1 (w_dist * 10) (delta * 10) r ?N) (\<lambda>b2. Inr (b2, de - int (m + 1)))
      else fractional_loop s de (m + 1) r (delta * 10) (w_dist * 10) b1)"
    unfolding fractional_loop.simps [of s de m] Let_def wrap mask drop_bit_eq_div d_def [symmetric]
    using small d9 b1(1) by simp
  have total: "dec (ds @ [d]) * ?N + r = (dec ds * ?N + p2) * 10" using dr by (simp add: algebra_simps)
  have cancel: "real (n * 10) / 10 ^ (m + 1) = real n / 10 ^ m" for n by simp
  have scale: "real (dec (ds @ [d]) * ?N + r) / 10 ^ (m + 1) = real (dec ds * ?N + p2) / 10 ^ m"
    "real (dec (ds @ [d]) * ?N + r - delta * 10) / 10 ^ (m + 1) = real (dec ds * ?N + p2 - delta) / 10 ^ m"
    unfolding total diff_mult_distrib [symmetric] by (rule cancel)+
  show ?case
  proof (cases "r \<le> delta * 10")
    case True
    have beyond: "delta * 10 < d * ?N + r" using dr prems(6) by simp
    have "generated pre len s de (real (dec (ds @ [d]) * ?N + r - delta * 10) * (1 / 10 ^ (m + 1)))
        (real (dec (ds @ [d]) * ?N + r) * (1 / 10 ^ (m + 1)))
        (bind_res (grisu2_round b1 (w_dist * 10) (delta * 10) r ?N) (\<lambda>b2. Inr (b2, de - int (m + 1))))"
      by (rule grisu2_round_ok [OF b1(2) dec1 len _ True p2(2) _ beyond refl])
        (use prems(7,8) len in \<open>simp_all add: power_int_diff power_int_minus field_simps\<close>)
    then show ?thesis using True scale by (simp add: step)
  next
    case False
    have "generated pre len s de (real (dec (ds @ [d]) * ?N + r - delta * 10) / 10 ^ (m + 1)) (real (dec (ds @ [d]) * ?N + r) / 10 ^ (m + 1))
        (fractional_loop s de (m + 1) r (delta * 10) (w_dist * 10) b1)"
    proof (rule less.hyps [OF _ b1(2) dec1 prems(3,4)])
      show "dec (ds @ [d]) * ?N + r \<le> delta * 10 * 10 ^ 16" unfolding total using prems(9) by simp
    qed (use False len prems(7,8) in \<open>simp_all add: r_def\<close>)
    with False show ?thesis by (simp only: step scale if_False)
  qed
qed

subsection \<open>The integral part\<close>

lemma integral_loop_ok:
  assumes "digits_at pre len ds b" "if ds = [] then 0 < n \<and> 10 ^ (n - 1) \<le> p1 else decimal ds" "length pre + 17 \<le> len" "s \<le> 60"
    and "p1 < 10 ^ n" "0 < n \<Longrightarrow> pow10 = 10 ^ (n - 1)" "p2 < 2 ^ s" "n \<le> 10" "delta < p1 * 2 ^ s + p2" "w_dist \<le> delta"
    and "M = dec ds * (10 ^ n * 2 ^ s) + (p1 * 2 ^ s + p2)" "M < 2 ^ 64" "M \<le> delta * 10 ^ 16"
  shows "generated pre len s de (real (M - delta)) (real M) (integral_loop s de p2 delta w_dist n p1 pow10 b)"
  using assms
proof (induction n arbitrary: ds b p1 pow10)
  case 0
  then have "p1 = 0" "decimal ds" by (simp_all split: if_splits)
  with 0 fractional_loop_ok [of pre len ds b s p2 delta w_dist 0 de] show ?case by (simp add: assert_that_def)
next
  case (Suc n)
  note prems = Suc.prems
  define N where "N = (2 :: nat) ^ s"
  have N: "0 < N" by (simp add: N_def)
  define d r where "d = p1 div 10 ^ n" and "r = p1 mod 10 ^ n"
  have pow10: "pow10 = 10 ^ n" using prems(6) by simp
  have dr: "d * 10 ^ n + r = p1" unfolding d_def r_def by (rule div_mult_mod_eq)
  have d9: "d \<le> 9" using prems(5) by (simp add: d_def flip: less_Suc_eq_le add: div_less_iff_less_mult)
  have r: "r < 10 ^ n" by (simp add: r_def)
  have M: "M = dec ds * (10 ^ Suc n * N) + (p1 * N + p2)" using prems(11) by (simp add: N_def)
  have p1N: "d * (10 ^ n * N) + (r * N + p2) = p1 * N + p2" using dr by (simp add: algebra_simps flip: dr)
  have total: "M = dec (ds @ [d]) * (10 ^ n * N) + (r * N + p2)" unfolding M p1N [symmetric] by (simp add: algebra_simps)
  have len: "length ds \<le> 16"
  proof (cases "ds = []")
    case False
    have "p1 * N + p2 < (p1 + 1) * N" using prems(7) by (simp add: N_def)
    also have "\<dots> \<le> 10 ^ Suc n * N" using prems(5) by (intro mult_right_mono) simp_all
    finally have "delta < 10 ^ Suc n * N" using prems(9) by (simp add: N_def)
    moreover have "dec ds * (10 ^ Suc n * N) \<le> M" unfolding M by simp
    ultimately show ?thesis using few_digits [of ds "10 ^ Suc n * N" M delta] prems(2,13) False by simp
  qed simp
  have dec1: "decimal (ds @ [d])"
  proof (cases "ds = []")
    case True
    then have "10 ^ n \<le> d * 10 ^ n + r" using prems(2) dr by simp
    then have "d \<noteq> 0" using r by (cases d) simp_all
    with True d9 show ?thesis by (simp add: decimal_def)
  qed (use prems(2) d9 in \<open>simp add: decimal_snoc\<close>)
  then have "1 \<le> dec (ds @ [d])" using dec_lower [of "ds @ [d]"] by (metis one_le_power one_le_numeral order_trans)
  then have "1 * (10 ^ n * N) \<le> dec (ds @ [d]) * (10 ^ n * N)" by (rule mult_right_mono) simp
  then have fits: "10 ^ n * N < 2 ^ 64" "r * N + p2 < 2 ^ 64" "r * N < 2 ^ 64" using total prems(12) by linarith+
  then have wrap: "u64 (push_bit s pow10) = 10 ^ n * N" "u64 (push_bit s r) = r * N" "u64 (r * N + p2) = r * N + p2"
    unfolding u64_def push_bit_eq_mult pow10 N_def [symmetric] by simp_all
  have "length pre + length ds < len" using len prems(3) by simp
  then obtain b1 where b1: "add_digit d b = Inr b1" "digits_at pre len (ds @ [d]) b1" by (rule add_digit_ok [OF prems(1)])
  have step: "integral_loop s de p2 delta w_dist (Suc n) p1 pow10 b =
     (if r * N + p2 \<le> delta then bind_res (grisu2_round b1 w_dist delta (r * N + p2) (10 ^ n * N)) (\<lambda>b2. Inr (b2, de + int n))
      else integral_loop s de p2 delta w_dist n r (pow10 div 10) b1)"
    unfolding integral_loop.simps Let_def r_def [symmetric] d_def [symmetric] wrap pow10 using d9 b1(1)
    by (simp add: assert_that_def wrap [unfolded pow10] flip: d_def r_def)
  show ?case
  proof (cases "r * N + p2 \<le> delta")
    case True
    have beyond: "delta < d * (10 ^ n * N) + (r * N + p2)" using p1N prems(9) by (simp add: N_def)
    have "delta < 2 ^ 64" using beyond total prems(12) p1N M by linarith
    then have "generated pre len s de (real (dec (ds @ [d]) * (10 ^ n * N) + (r * N + p2) - delta) * 1)
        (real (dec (ds @ [d]) * (10 ^ n * N) + (r * N + p2)) * 1)
        (bind_res (grisu2_round b1 w_dist delta (r * N + p2) (10 ^ n * N)) (\<lambda>b2. Inr (b2, de + int n)))"
      by (rule grisu2_round_ok [OF b1(2) dec1 len prems(10) True _ _ beyond refl]) (use prems(8) N in \<open>simp_all add: N_def\<close>)
    then show ?thesis using True by (simp only: step total [symmetric] mult_1_right if_True)
  next
    case False
    have "generated pre len s de (real (M - delta)) (real M) (integral_loop s de p2 delta w_dist n r (pow10 div 10) b1)"
    proof (rule Suc.IH [OF b1(2) _ prems(3,4) r _ prems(7) _ _ prems(10) _ prems(12,13)])
      show "pow10 div 10 = 10 ^ (n - 1)" if "0 < n" using that by (cases n) (simp_all add: pow10)
    qed (use False total dec1 prems(8) in \<open>simp_all add: N_def\<close>)
    with False show ?thesis by (simp only: step if_False)
  qed
qed

subsection \<open>All digits\<close>

lemma find_largest_pow10_ok:
  assumes "0 < n" "n < 2 ^ 32" "find_largest_pow10 n = (k, p)"
  shows "0 < k" "k \<le> 10" "p = 10 ^ (k - 1)" "10 ^ (k - 1) \<le> n" "n < 10 ^ k"
  using assms by (auto simp: find_largest_pow10_def split: if_splits)

lemma grisu2_digit_gen_ok:
  assumes b: "digits_at pre len [] b" "length pre + 17 \<le> len" and s: "32 \<le> s" "s \<le> 60"
    and M: "0 < L" "L \<le> W" "W \<le> M" "L < M" "2 ^ 60 \<le> M" "M < 2 ^ 64" "M \<le> (M - L) * 10 ^ 16"
  shows "generated pre len s de (real L) (real M)
    (grisu2_digit_gen b de \<lparr>diy_f = L, diy_e = - int s\<rparr> \<lparr>diy_f = W, diy_e = - int s\<rparr> \<lparr>diy_f = M, diy_e = - int s\<rparr>)"
proof -
  define p1 p2 where "p1 = M div 2 ^ s" and "p2 = M mod 2 ^ s"
  have N: "(2 :: nat) ^ s \<le> 2 ^ 60" "(2 :: nat) ^ 32 \<le> 2 ^ s" using s by (simp_all only: power_increasing one_le_numeral)
  have split: "p1 * 2 ^ s + p2 = M" unfolding p1_def p2_def by (rule div_mult_mod_eq)
  have "p1 < 2 ^ 32"
  proof -
    have "M < 2 ^ 32 * 2 ^ 32" using M(6) by simp
    also have "\<dots> \<le> 2 ^ 32 * 2 ^ s" using N(2) by (rule mult_left_mono) simp
    finally show ?thesis by (simp add: p1_def div_less_iff_less_mult)
  qed
  moreover have "0 < p1" using N(1) M(5) by (simp add: p1_def div_greater_zero_iff)
  moreover obtain k pow10 where fl: "find_largest_pow10 p1 = (k, pow10)" by (cases "find_largest_pow10 p1")
  ultimately have k: "0 < k" "k \<le> 10" "pow10 = 10 ^ (k - 1)" "10 ^ (k - 1) \<le> p1" "p1 < 10 ^ k"
    using find_largest_pow10_ok [of p1 k pow10] by blast+
  have "u32 (drop_bit s M) = p1" using \<open>p1 < 2 ^ 32\<close> by (simp add: u32_def drop_bit_eq_div p1_def)
  moreover have "u64 (push_bit s 1) = 2 ^ s" unfolding u64_def push_bit_eq_mult using N(1) by (intro trans [OF mod_less]) simp_all
  moreover have "and M (2 ^ s - 1) = p2" using take_bit_eq_mask [of s M] by (simp add: mask_eq_exp_minus_1 take_bit_eq_mod p2_def)
  moreover have "- 60 \<le> - int s" "- int s \<le> - 32" using s by simp_all
  ultimately have run: "grisu2_digit_gen b de \<lparr>diy_f = L, diy_e = - int s\<rparr> \<lparr>diy_f = W, diy_e = - int s\<rparr> \<lparr>diy_f = M, diy_e = - int s\<rparr> =
      integral_loop s de p2 (M - L) (M - W) k p1 pow10 b"
    using M(2,3,4) \<open>0 < p1\<close> by (simp add: grisu2_digit_gen_def diyfp_sub_def assert_that_def fl)
  have "generated pre len s de (real (M - (M - L))) (real M) (integral_loop s de p2 (M - L) (M - W) k p1 pow10 b)"
    by (rule integral_loop_ok [OF b(1) _ b(2) s(2) k(5)]) (use k M split in \<open>simp_all add: p2_def\<close>)
  then show ?thesis using run M(4) by simp
qed

theorem grisu2_value_ok:
  assumes x: "double_isfinite x" "\<not> signbit x" "magnitude x \<noteq> 0" and b: "digits_at pre len [] b" "length pre + 17 \<le> len"
  obtains b' ds e where "grisu2_value b x = Inr (b', e)" "digits_at pre len ds b'" "decimal ds" "length ds \<le> 17"
    "- 341 \<le> e" "e \<le> 310" "halfway_below x < real (dec ds) * 10 powi e" "real (dec ds) * 10 powi e < halfway_above x"
proof -
  obtain s e where cb: "compute_boundaries x = Inr \<lparr>bound_w = \<lparr>diy_f = middle x s, diy_e = e\<rparr>,
        bound_minus = \<lparr>diy_f = lower x s, diy_e = e\<rparr>, bound_plus = \<lparr>diy_f = upper x s, diy_e = e\<rparr>\<rparr>"
      "e = double_e x - 1 - int s" "10 \<le> s" "2 ^ 63 \<le> middle x s" "upper x s < 2 ^ 64" "- 1137 \<le> e" "e \<le> 960"
    using compute_boundaries_ok [OF x] by (metis lower_def middle_def upper_def)
  from cached_power_found [OF cb(6,7)] obtain cf ce ck where
    cp: "get_cached_power_for_binary_exponent e = Inr \<lparr>pow_f = cf, pow_e = ce, pow_k = ck\<rparr>" "power_row (cf, ce, ck)"
      "- 60 \<le> ce + e + 64" "ce + e + 64 \<le> - 32" "- 300 \<le> ck" "ck \<le> 324" by blast
  have sc: "scaling x s cf" using x cb(3,4,5) power_row_error(2,3) [OF cp(2)] by (simp add: scaling_def)
  let ?L = "scaled cf (lower x s) + 1" and ?W = "scaled cf (middle x s)" and ?M = "scaled cf (upper x s) - 1" and ?t = "nat (- (ce + e + 64))"
  note order = scaled_order [OF sc] and size = scaled_size [OF sc]
  have le: "lower x s < 2 ^ 64" "middle x s < 2 ^ 64" using cb(5) by (simp_all add: lower_def middle_def upper_def algebra_simps)
  have mul: "diyfp_mul \<lparr>diy_f = n, diy_e = e\<rparr> \<lparr>diy_f = cf, diy_e = ce\<rparr> = \<lparr>diy_f = scaled cf n, diy_e = - int ?t\<rparr>" if "n < 2 ^ 64" for n
    using that cp(4) power_row_error(3) [OF cp(2)] by (simp add: diyfp_mul_eq scaled_def)
  have wrap: "u64 ?L = ?L" "u64 (scaled cf (upper x s) + 2 ^ 64 - 1) = ?M"
  proof -
    have "?L < 2 ^ 64" "?M < 2 ^ 64" using order size(1) by linarith+
    moreover have "scaled cf (upper x s) + 2 ^ 64 - 1 = ?M + 2 ^ 64" using order by linarith
    ultimately show "u64 ?L = ?L" "u64 (scaled cf (upper x s) + 2 ^ 64 - 1) = ?M" unfolding u64_def by (simp_all only: mod_add_self2 mod_less)
  qed
  have run: "grisu2_value b x = grisu2_digit_gen b (- ck) \<lparr>diy_f = ?L, diy_e = - int ?t\<rparr> \<lparr>diy_f = ?W, diy_e = - int ?t\<rparr> \<lparr>diy_f = ?M, diy_e = - int ?t\<rparr>"
    using x by (simp only: grisu2_value_def assert_that_def cb(1) grisu2_def cp(1) bind_res_simps boundaries.simps diyfp.simps cached_power.simps
        Let_def mul le cb(5) wrap simp_thms if_True not_False_eq_True)
  have "generated pre len ?t (- ck) (real ?L) (real ?M)
    (grisu2_digit_gen b (- ck) \<lparr>diy_f = ?L, diy_e = - int ?t\<rparr> \<lparr>diy_f = ?W, diy_e = - int ?t\<rparr> \<lparr>diy_f = ?M, diy_e = - int ?t\<rparr>)"
  proof (rule grisu2_digit_gen_ok [OF b])
    show "2 ^ 60 \<le> ?M" "?M < 2 ^ 64" using size by simp_all
    show "?M \<le> (?M - ?L) * 10 ^ 16" by (rule digits_suffice [OF sc])
  qed (use cp(3,4) order in linarith)+
  then obtain b' ds e' where g: "grisu2_value b x = Inr (b', e')" "digits_at pre len ds b'" "decimal ds" "length ds \<le> 17"
      "- ck - 17 \<le> e'" "e' \<le> - ck + 10" "real ?L \<le> real (dec ds) * 10 powi (e' - - ck) * 2 ^ ?t" "real (dec ds) * 10 powi (e' - - ck) * 2 ^ ?t \<le> real ?M"
    unfolding run generated_def by blast
  let ?y = "real (dec ds) * 10 powi (e' + ck)"
  define u N where "u = (2 :: real) powi (e + ce + 64)" and "N = (2 :: real) ^ ?t"
  have "u * N = 1" using powi_split [of 2 "e + ce + 64"] cp(4) by (simp add: u_def N_def add.commute [of ce])
  then have scale: "a * N * u = a" for a by (simp add: mult.assoc mult.commute [of N])
  have "0 \<le> u" by (simp add: u_def)
  then have "real ?L * u \<le> ?y * N * u" "?y * N * u \<le> real ?M * u"
    using g(7,8) by (simp_all only: mult_right_mono N_def diff_minus_eq_add)
  then have "real ?L * 2 powi (e + ce + 64) \<le> ?y" "?y \<le> real ?M * 2 powi (e + ce + 64)" unfolding scale by (simp_all only: u_def)
  from scaled_between [OF sc cp(2) cb(2) this] have "halfway_below x < real (dec ds) * 10 powi e'" "real (dec ds) * 10 powi e' < halfway_above x"
    by (simp_all add: mult.assoc flip: power_int_add)
  with g that cp(5,6) show thesis by simp
qed

end
