(* ===== verification/Json_Grisu_Format.thy ===== *)
theory Json_Grisu_Format
  imports Json_Grisu_Digits
begin

text \<open>
  The text that \<^verbatim>\<open>to_chars\<close> writes for the digits and the exponent Grisu2 has found, and the number that
  text denotes.
\<close>

subsection \<open>Writes behind a prefix\<close>

lemma mem_write_behind:
  "j + length d \<le> length r \<Longrightarrow> mem_write (pre @ r) (length pre + j) d = Inr (pre @ take j r @ d @ drop (j + length d) r)"
  by (simp add: mem_defs)

lemma memmove_behind:
  "i + k \<le> length r \<Longrightarrow> j + k \<le> length r \<Longrightarrow>
     memmove (pre @ r) (length pre + j) (length pre + i) k = Inr (pre @ take j r @ take k (drop i r) @ drop (j + k) r)"
proof -
  assume "i + k \<le> length r" "j + k \<le> length r"
  moreover from this have "min (length r - i) k = k" by simp
  ultimately show ?thesis by (simp add: mem_defs memmove_def)
qed

subsection \<open>The text\<close>

lemma digit_char_0: "digit_char 0 = CHR ''0''"
  by code_simp

definition exponent_text :: "int \<Rightarrow> bytes" where
  "exponent_text e =
     (let k = nat \<bar>e\<bar>
      in (if e < 0 then CHR ''-'' else CHR ''+'') # map digit_char
           (if k < 10 then [0, k] else if k < 100 then [k div 10, k mod 10] else [k div 100, k mod 100 div 10, k mod 10]))"

definition mantissa_text :: "bytes \<Rightarrow> bytes" where
  "mantissa_text D = (if length D = 1 then D else take 1 D @ ''.'' @ drop 1 D)"

definition format_text :: "nat list \<Rightarrow> int \<Rightarrow> bytes" where
  "format_text ds e =
     (let k = length ds; n = int k + e; D = map digit_char ds
      in if int k \<le> n \<and> n \<le> 15 then D @ replicate (nat n - k) (CHR ''0'') @ ''.0''
         else if 0 < n \<and> n \<le> 15 then take (nat n) D @ ''.'' @ drop (nat n) D
         else if - 4 < n \<and> n \<le> 0 then ''0.'' @ replicate (nat (- n)) (CHR ''0'') @ D
         else mantissa_text D @ ''e'' @ exponent_text (n - 1))"

lemma append_exponent_ok:
  assumes "- 1000 < e" "e < 1000" "j + 4 \<le> length r"
  shows "append_exponent (pre @ r) (length pre + j) e =
    Inr (pre @ take j r @ exponent_text e @ drop (j + length (exponent_text e)) r, length pre + j + length (exponent_text e))"
proof -
  define k where "k = nat \<bar>e\<bar>"
  have "k mod 100 mod 10 = k mod 10" by (simp add: mod_mod_cancel)
  then have run: "append_exponent (pre @ r) (length pre + j) e =
      bind_res (mem_write (pre @ r) (length pre + j) (exponent_text e)) (\<lambda>m. Inr (m, length pre + j + length (exponent_text e)))"
    using assms(1,2) unfolding append_exponent_def assert_that_def exponent_text_def Let_def k_def [symmetric]
    by (simp add: digit_char_0) (simp add: digit_char_def)
  have "j + length (exponent_text e) \<le> length r" using assms(3) by (simp add: exponent_text_def Let_def)
  from mem_write_behind [OF this, of pre] show ?thesis by (simp add: run)
qed

lemma mantissa_ok:
  assumes "0 < k" "k \<le> 17" "length D = k" "24 \<le> length (D @ rest)"
  shows "\<exists>r. (if k = 1 then Inr (pre @ D @ rest, length pre + 1)
      else bind_res (memmove (pre @ D @ rest) (length pre + 2) (length pre + 1) (k - 1)) (\<lambda>m1.
           bind_res (mem_write m1 (length pre + 1) ''.'') (\<lambda>m2. Inr (m2, length pre + 1 + k)))) =
    Inr (pre @ mantissa_text D @ r, length pre + length (mantissa_text D)) \<and> 6 \<le> length r"
proof (cases "k = 1")
  case False
  with assms show ?thesis
    by (auto simp: mantissa_text_def memmove_behind [where i = "Suc 0" and j = "Suc (Suc 0)", simplified]
        mem_write_behind [where j = "Suc 0", simplified])
qed (use assms in \<open>simp add: mantissa_text_def\<close>)

lemma scientific_ok:
  assumes "0 < k" "k \<le> 17" "length D = k" "24 \<le> length (D @ rest)" "- 1000 < x" "x < 1000"
  shows "\<exists>r. bind_res (if k = 1 then Inr (pre @ D @ rest, length pre + 1)
      else bind_res (memmove (pre @ D @ rest) (length pre + 2) (length pre + 1) (k - 1)) (\<lambda>m1.
           bind_res (mem_write m1 (length pre + 1) ''.'') (\<lambda>m2. Inr (m2, length pre + 1 + k))))
      (\<lambda>(m, q). bind_res (mem_write m q ''e'') (\<lambda>m1. append_exponent m1 (q + 1) x)) =
    Inr (pre @ (mantissa_text D @ ''e'' @ exponent_text x) @ r, length pre + length (mantissa_text D @ ''e'' @ exponent_text x))"
proof -
  let ?T = "mantissa_text D"
  from mantissa_ok [OF assms(1-4), of pre] obtain r where
    r: "(if k = 1 then Inr (pre @ D @ rest, length pre + 1)
      else bind_res (memmove (pre @ D @ rest) (length pre + 2) (length pre + 1) (k - 1)) (\<lambda>m1.
           bind_res (mem_write m1 (length pre + 1) ''.'') (\<lambda>m2. Inr (m2, length pre + 1 + k)))) =
      Inr (pre @ ?T @ r, length pre + length ?T)" "6 \<le> length r" by blast
  then obtain c r' where c: "r = c # r'" "5 \<le> length r'" by (cases r) auto
  have e: "mem_write (pre @ ?T @ r) (length pre + length ?T) ''e'' = Inr ((pre @ ?T @ ''e'') @ r')"
    using mem_write_behind [of 0 "''e''" r "pre @ ?T"] c by simp
  from append_exponent_ok [OF assms(5,6), of 0 r' "pre @ ?T @ ''e''"] c(2)
  have "append_exponent ((pre @ ?T @ ''e'') @ r') (length pre + length ?T + 1) x =
      Inr (pre @ (?T @ ''e'' @ exponent_text x) @ drop (length (exponent_text x)) r', length pre + length (?T @ ''e'' @ exponent_text x))"
    by simp
  then show ?thesis by (simp only: r(1) bind_res_simps prod.case e) blast
qed

lemma format_buffer_ok:
  assumes "decimal ds" "length ds \<le> 17" "- 341 \<le> e" "e \<le> 310" "24 \<le> length (map digit_char ds @ rest)"
  shows "\<exists>rest'. format_buffer (pre @ map digit_char ds @ rest) (length pre) (length ds) e (- 4) 15 =
    Inr (pre @ format_text ds e @ rest', length pre + length (format_text ds e))"
proof -
  define k n D where "k = length ds" and "n = int k + e" and "D = map digit_char ds"
  have k: "0 < k" "k \<le> 17" "length D = k" "24 \<le> length (D @ rest)" using assms by (auto simp: k_def D_def decimal_def)
  note run = format_buffer_def [of "pre @ D @ rest" "length pre" k e "- 4" 15, unfolded Let_def, folded n_def]
  have t: "format_text ds e =
     (if int k \<le> n \<and> n \<le> 15 then D @ replicate (nat n - k) (CHR ''0'') @ ''.0''
      else if 0 < n \<and> n \<le> 15 then take (nat n) D @ ''.'' @ drop (nat n) D
      else if - 4 < n \<and> n \<le> 0 then ''0.'' @ replicate (nat (- n)) (CHR ''0'') @ D
      else mantissa_text D @ ''e'' @ exponent_text (n - 1))"
    by (simp add: format_text_def Let_def k_def D_def n_def)
  consider "int k \<le> n \<and> n \<le> 15" | "n < int k" "0 < n \<and> n \<le> 15" | "- 4 < n \<and> n \<le> 0" | "n \<le> - 4 \<or> 15 < n" using k(1) by linarith
  then have "\<exists>rest'. format_buffer (pre @ D @ rest) (length pre) k e (- 4) 15 = Inr (pre @ format_text ds e @ rest', length pre + length (format_text ds e))"
  proof cases
    case 1
    then have "k \<le> nat n" "nat n \<le> 15" using k(1) by auto
    with 1 k show ?thesis
      by (auto simp: run t assert_that_def mem_write_behind [where j = k] mem_write_behind [where j = "nat n"])
  next
    case 2
    then have "nat n < k" by auto
    with 2 k show ?thesis
      by (auto simp: run t assert_that_def add.assoc memmove_behind [where j = "Suc (nat n)", simplified] mem_write_behind)
  next
    case 3
    define z where "z = nat (- n)"
    have "z \<le> 3" using 3 by (auto simp: z_def)
    with 3 k show ?thesis unfolding run t z_def [symmetric]
      by (auto simp: assert_that_def add.assoc memmove_behind [where i = 0 and j = "Suc (Suc z)", simplified]
          mem_write_behind [where j = 0, simplified] mem_write_behind [where j = "Suc (Suc 0)", simplified])
  next
    case 4
    have "- 1000 < n - 1" "n - 1 < 1000" using assms k by (auto simp: n_def)
    from scientific_ok [OF k this, of pre] show ?thesis using 4 k(1) unfolding run t by (auto simp: assert_that_def)
  qed
  then show ?thesis by (simp add: k_def D_def)
qed

subsection \<open>Every finite number is printed\<close>

lemma magnitude_positive: "magnitude (word_of_nat (magnitude x) :: double) = magnitude x" "\<not> signbit (word_of_nat (magnitude x) :: double)"
proof -
  have "unat (word_of_nat (magnitude x) :: double) = magnitude x"
    using magnitude_less [of x] by (simp add: unat_of_nat)
  then show "magnitude (word_of_nat (magnitude x) :: double) = magnitude x" "\<not> signbit (word_of_nat (magnitude x) :: double)"
    using magnitude_less [of x] by (simp_all add: magnitude_def [of "word_of_nat _"] signbit_iff)
qed

lemma halfway_magnitude: "magnitude x = magnitude y \<Longrightarrow> halfway_below x = halfway_below y \<and> halfway_above x = halfway_above y"
  by (simp add: halfway_below_def halfway_above_def double_abs_def double_f_def double_e_def closer_below_def)

definition sign_text :: "double \<Rightarrow> bytes" where
  "sign_text x = (if signbit x then ''-'' else [])"

lemma to_chars_ok:
  assumes "double_isfinite x" "25 \<le> length buf"
  obtains t rest where "to_chars buf x = Inr (sign_text x @ t @ rest, length (sign_text x @ t))"
    "if magnitude x = 0 then t = ''0.0''
     else \<exists>ds e. t = format_text ds e \<and> decimal ds \<and> length ds \<le> 17 \<and> - 341 \<le> e \<and> e \<le> 310 \<and>
       halfway_below x < real (dec ds) * 10 powi e \<and> real (dec ds) * 10 powi e < halfway_above x"
proof -
  define pre r where "pre = sign_text x" and "r = drop (length pre) buf"
  define v :: double where "v = word_of_nat (magnitude x)"
  have len: "length buf = length pre + length r" "24 \<le> length r" "length pre \<le> 1" using assms(2) by (auto simp: r_def pre_def sign_text_def)
  have start: "(if signbit x then bind_res (mem_write buf 0 ''-'') (\<lambda>m. Inr (m, 1)) else Inr (buf, 0)) = Inr (pre @ r, length pre)"
    using assms(2) by (simp add: pre_def r_def sign_text_def mem_defs)
  show thesis
  proof (cases "magnitude x = 0")
    case True
    then have "to_chars buf x = Inr (pre @ ''0.0'' @ drop 3 r, length pre + 3)"
      using assms(1) len(2) mem_write_behind [of 0 "''0.0''" r pre] unfolding to_chars_def start assert_that_def
      by (simp add: magnitude_def [of 0] numeral_3_eq_3)
    with True that [of "''0.0''" "drop 3 r"] show thesis by (simp add: pre_def)
  next
    case False
    have v: "double_isfinite v" "\<not> signbit v" "magnitude v \<noteq> 0"
      using assms(1) False magnitude_positive [of x] by (simp_all add: v_def double_isfinite_def)
    have "digits_at pre (length buf) [] \<lparr>dbuf = pre @ r, dfirst = length pre, dlen = 0\<rparr>" using len by (simp add: digits_at_def)
    then obtain b ds e where g: "grisu2_value \<lparr>dbuf = pre @ r, dfirst = length pre, dlen = 0\<rparr> v = Inr (b, e)" "digits_at pre (length buf) ds b"
        "decimal ds" "length ds \<le> 17" "- 341 \<le> e" "e \<le> 310" "halfway_below v < real (dec ds) * 10 powi e" "real (dec ds) * 10 powi e < halfway_above v"
      by (rule grisu2_value_ok [OF v]) (use len in simp)
    from g(2) obtain rest where b: "dbuf b = pre @ map digit_char ds @ rest" "dlen b = length ds" "length (dbuf b) = length buf"
      by (auto simp: digits_at_def)
    then have "24 \<le> length (map digit_char ds @ rest)" using len by simp
    from format_buffer_ok [OF g(3,4,5,6) this, of pre] b obtain rest' where
      f: "format_buffer (dbuf b) (length pre) (dlen b) e (- 4) 15 = Inr (pre @ format_text ds e @ rest', length pre + length (format_text ds e))"
      by auto
    have "to_chars buf x = Inr (pre @ format_text ds e @ rest', length pre + length (format_text ds e))"
      using assms(1) len v(3) g(1,4) b(2) f unfolding to_chars_def start assert_that_def by (simp add: v_def [symmetric])
    moreover have "halfway_below v = halfway_below x" "halfway_above v = halfway_above x"
      using halfway_magnitude [of v x] magnitude_positive(1) by (simp_all add: v_def)
    ultimately show thesis using False g(3-8) by (intro that [of "format_text ds e" rest']) (auto simp: pre_def)
  qed
qed

end
