(* ===== verification/Json_Double_Nearest.thy ===== *)
theory Json_Double_Nearest
  imports Json_Grisu_Format
begin

text \<open>
  The finite doubles on the real line: their magnitudes grow with their bits, a step from one to the next is
  a unit of the smaller one, and the numbers between the two half-way points of a double are closer to it
  than to any other.
\<close>

subsection \<open>Magnitudes\<close>

definition exponent_of :: "nat \<Rightarrow> int" where
  "exponent_of n = (if n div 2 ^ 52 = 0 then - 1074 else int (n div 2 ^ 52) - 1075)"

definition abs_of :: "nat \<Rightarrow> real" where
  "abs_of n = real (if n div 2 ^ 52 = 0 then n mod 2 ^ 52 else n mod 2 ^ 52 + 2 ^ 52) * 2 powi exponent_of n"

lemma double_abs_of: "double_abs x = abs_of (magnitude x)" "double_e x = exponent_of (magnitude x)"
  by (simp_all add: double_abs_def abs_of_def exponent_of_def double_f_def double_e_def Let_def)

lemma abs_of_Suc: "abs_of (Suc n) = abs_of n + 2 powi exponent_of n"
proof (cases "Suc (n mod 2 ^ 52) = 2 ^ 52")
  case False
  then have "Suc n div 2 ^ 52 = n div 2 ^ 52" "Suc n mod 2 ^ 52 = Suc (n mod 2 ^ 52)" by (simp_all add: div_Suc mod_Suc)
  then show ?thesis by (simp add: abs_of_def exponent_of_def algebra_simps)
next
  case True
  then have "Suc n div 2 ^ 52 = Suc (n div 2 ^ 52)" "Suc n mod 2 ^ 52 = 0" "n mod 2 ^ 52 = 2 ^ 52 - 1" by (simp_all add: div_Suc mod_Suc)
  then show ?thesis by (cases "n div 2 ^ 52 = 0") (simp_all add: abs_of_def exponent_of_def power_int_add power_int_diff)
qed

lemma abs_of_mono: "m \<le> n \<Longrightarrow> abs_of m \<le> abs_of n"
  by (rule lift_Suc_mono_le) (simp_all add: abs_of_Suc)

lemma abs_of_above: "m < n \<Longrightarrow> abs_of m + 2 powi exponent_of m \<le> abs_of n"
  using abs_of_mono [of "Suc m" n] by (simp add: abs_of_Suc)

lemma abs_of_less: "m < n \<Longrightarrow> abs_of m < abs_of n"
  using abs_of_above [of m n] zero_less_power_int [of "2 :: real" "exponent_of m"] by linarith

lemma abs_of_0: "abs_of 0 = 0"
  by (simp add: abs_of_def)

lemma abs_of_below:
  assumes "m < magnitude x"
  shows "abs_of m \<le> double_abs x - (if closer_below x then 2 powi double_e x / 2 else 2 powi double_e x)"
proof -
  obtain n where n: "magnitude x = Suc n" using assms by (cases "magnitude x") auto
  have "abs_of m \<le> abs_of n" using assms n by (simp add: abs_of_mono)
  moreover have "exponent_of n = (if closer_below x then exponent_of (Suc n) - 1 else exponent_of (Suc n))"
    by (auto simp: exponent_of_def closer_below_def n Let_def div_Suc mod_Suc)
  then have "2 powi exponent_of n = (if closer_below x then 2 powi double_e x / 2 else 2 powi double_e x :: real)"
    by (simp add: double_abs_of n power_int_diff)
  ultimately show ?thesis by (simp add: double_abs_of n abs_of_Suc)
qed

subsection \<open>The nearest double\<close>

definition double_value :: "double \<Rightarrow> real" where
  "double_value x = (if signbit x then - double_abs x else double_abs x)"

text \<open>From here on numbers are too large for a finite double.\<close>

definition overflow_threshold :: real where
  "overflow_threshold = (2 ^ 53 - 1 / 2) * 2 ^ 971"

definition nearest_double :: "real \<Rightarrow> double \<Rightarrow> bool" where
  "nearest_double r x \<longleftrightarrow> double_isfinite x \<and> \<bar>r\<bar> < overflow_threshold \<and>
     (\<forall>z. double_isfinite z \<and> double_value z \<noteq> double_value x \<longrightarrow> \<bar>r - double_value x\<bar> < \<bar>r - double_value z\<bar>)"

lemma abs_double_value: "\<bar>double_value x\<bar> = double_abs x"
  by (simp add: double_value_def double_abs_def)

lemma halfway_below_pos:
  assumes "double_isfinite x" "magnitude x \<noteq> 0"
  shows "0 < halfway_below x"
proof -
  have "1 \<le> real (double_f x)" using double_f_bounds(1) [OF assms] by simp
  then have "1 * 2 powi double_e x \<le> double_abs x" unfolding double_abs_def by (rule mult_right_mono) simp
  moreover have "(0 :: real) < 2 powi double_e x" by simp
  ultimately show ?thesis unfolding halfway_below_def by (split if_split, intro conjI impI) linarith+
qed

lemma halfway_above_bound:
  assumes "double_isfinite x" "magnitude x \<noteq> 0"
  shows "halfway_above x \<le> overflow_threshold"
proof -
  note f = double_f_bounds [OF assms]
  have "halfway_above x = (real (double_f x) + 1 / 2) * 2 powi double_e x" by (simp add: halfway_above_def double_abs_def algebra_simps)
  also have "\<dots> \<le> (2 ^ 53 - 1 / 2) * 2 powi 971"
  proof (rule mult_mono)
    show "(2 :: real) powi double_e x \<le> 2 powi 971" using f(4) by (rule power_int_increasing) simp
    have "double_f x + 1 \<le> 2 ^ 53" using f(2) by simp
    then have "real (double_f x) + 1 \<le> 2 ^ 53" by (simp flip: of_nat_Suc)
    then show "real (double_f x) + 1 / 2 \<le> 2 ^ 53 - 1 / 2" by simp
  qed simp_all
  finally show ?thesis by (simp add: overflow_threshold_def)
qed

lemma closer_than_others:
  assumes x: "double_isfinite x" "magnitude x \<noteq> 0" and r: "halfway_below x < r" "r < halfway_above x"
    and w: "\<bar>w\<bar> = double_abs z" "w \<noteq> double_abs x"
  shows "\<bar>r - double_abs x\<bar> < \<bar>r - w\<bar>"
proof -
  let ?u = "2 powi double_e x :: real"
  have pos: "0 < r" using halfway_below_pos [OF x] r(1) by linarith
  have u: "0 < ?u" by simp
  consider "magnitude z < magnitude x" | "magnitude x < magnitude z" | "double_abs z = double_abs x"
    by (metis double_abs_of(1) nat_neq_iff)
  then show ?thesis
  proof cases
    case 1
    from abs_of_below [OF this] have "double_abs z \<le> double_abs x - (if closer_below x then ?u / 2 else ?u)" by (simp add: double_abs_of)
    then show ?thesis using pos u r w(1) unfolding halfway_below_def halfway_above_def by (cases "closer_below x") (simp, argo)+
  next
    case 2
    from abs_of_above [OF this] have "double_abs x + ?u \<le> double_abs z" by (simp add: double_abs_of)
    then show ?thesis using pos u r w(1) unfolding halfway_above_def by argo
  next
    case 3
    then have "w = - double_abs x" "double_abs x \<noteq> 0" using w by argo+
    then show ?thesis using pos abs_double_value [of x] by argo
  qed
qed

lemma between_nearest:
  assumes "double_isfinite x" "magnitude x \<noteq> 0" "halfway_below x < r" "r < halfway_above x"
  shows "nearest_double (if signbit x then - r else r) x"
proof -
  have "\<bar>r\<bar> < overflow_threshold" using halfway_below_pos [OF assms(1,2)] halfway_above_bound [OF assms(1,2)] assms(3,4) by linarith
  moreover have "\<bar>(if signbit x then - r else r) - double_value x\<bar> < \<bar>(if signbit x then - r else r) - double_value z\<bar>"
    if "double_value z \<noteq> double_value x" for z
  proof (cases "signbit x")
    case True
    with that closer_than_others [OF assms, of "- double_value z" z] show ?thesis
      by (simp add: double_value_def [of x] abs_double_value)
  next
    case False
    with that closer_than_others [OF assms, of "double_value z" z] show ?thesis by (simp add: double_value_def [of x] abs_double_value)
  qed
  ultimately show ?thesis using assms(1) by (simp add: nearest_double_def)
qed

lemma zero_nearest:
  assumes "magnitude x = 0"
  shows "nearest_double 0 x"
proof -
  have "double_abs x = 0" using assms by (simp add: double_abs_of abs_of_0)
  then have "double_value x = 0" by (simp add: double_value_def)
  then show ?thesis using assms by (simp add: nearest_double_def overflow_threshold_def double_isfinite_def)
qed

text \<open>At most one double of each sign is nearest.\<close>

lemma nearest_unique:
  assumes "nearest_double r x" "nearest_double r y" "signbit x \<longleftrightarrow> signbit y"
  shows "x = y"
proof -
  have "double_value x = double_value y" using assms(1,2) unfolding nearest_double_def by (metis less_asym)
  then have "double_abs x = double_abs y" by (metis abs_double_value)
  then have "magnitude x = magnitude y" unfolding double_abs_of by (metis abs_of_less less_irrefl nat_neq_iff)
  moreover have "unat z = magnitude z + (if signbit z then 2 ^ 63 else 0)" for z :: double
  proof (cases "signbit z")
    case True
    then have "unat z mod 2 ^ 63 = unat z - 2 ^ 63" using unat_double [of z] by (simp add: signbit_iff le_mod_geq)
    then show ?thesis using True by (simp add: magnitude_def signbit_iff)
  next
    case False
    then show ?thesis by (simp add: magnitude_def signbit_iff)
  qed
  ultimately have "unat x = unat y" using assms(3) by simp
  then show ?thesis by (rule word_unat_eq_iff [THEN iffD2])
qed

end
