(* ===== verification/Json_Dump.thy ===== *)
theory Json_Dump
  imports Json_Tokens
begin

text \<open>
  The serializer of the JSON library (\<^verbatim>\<open>detail::serializer\<close> of \<^verbatim>\<open>json/json.hpp\<close>): the decoder for UTF-8, the
  escaping of strings through a buffer of 512 bytes, integers through a buffer of 64 bytes, arrays and
  objects with and without indentation. The output is the bytes written so far. Writing outside a buffer and
  reading outside the indentation string are \<open>Undefined\<close>. The digits of a floating-point number are given by
  \<open>float_to_chars\<close>.
\<close>

subsection \<open>Decoding\<close>

definition utf8d :: "nat list" where
  "utf8d =
     [0, 0, 0, 0, 0, 0, 0, 0, 0, 0, 0, 0, 0, 0, 0, 0, 0, 0, 0, 0, 0, 0, 0, 0, 0, 0, 0, 0, 0, 0, 0, 0,
      0, 0, 0, 0, 0, 0, 0, 0, 0, 0, 0, 0, 0, 0, 0, 0, 0, 0, 0, 0, 0, 0, 0, 0, 0, 0, 0, 0, 0, 0, 0, 0,
      0, 0, 0, 0, 0, 0, 0, 0, 0, 0, 0, 0, 0, 0, 0, 0, 0, 0, 0, 0, 0, 0, 0, 0, 0, 0, 0, 0, 0, 0, 0, 0,
      0, 0, 0, 0, 0, 0, 0, 0, 0, 0, 0, 0, 0, 0, 0, 0, 0, 0, 0, 0, 0, 0, 0, 0, 0, 0, 0, 0, 0, 0, 0, 0,
      1, 1, 1, 1, 1, 1, 1, 1, 1, 1, 1, 1, 1, 1, 1, 1, 9, 9, 9, 9, 9, 9, 9, 9, 9, 9, 9, 9, 9, 9, 9, 9,
      7, 7, 7, 7, 7, 7, 7, 7, 7, 7, 7, 7, 7, 7, 7, 7, 7, 7, 7, 7, 7, 7, 7, 7, 7, 7, 7, 7, 7, 7, 7, 7,
      8, 8, 2, 2, 2, 2, 2, 2, 2, 2, 2, 2, 2, 2, 2, 2, 2, 2, 2, 2, 2, 2, 2, 2, 2, 2, 2, 2, 2, 2, 2, 2,
      10, 3, 3, 3, 3, 3, 3, 3, 3, 3, 3, 3, 3, 4, 3, 3, 11, 6, 6, 6, 5, 8, 8, 8, 8, 8, 8, 8, 8, 8, 8, 8,
      0, 1, 2, 3, 5, 8, 7, 1, 1, 1, 4, 6, 1, 1, 1, 1, 1, 1, 1, 1, 1, 1, 1, 1, 1, 1, 1, 1, 1, 1, 1, 1,
      1, 0, 1, 1, 1, 1, 1, 0, 1, 0, 1, 1, 1, 1, 1, 1, 1, 2, 1, 1, 1, 1, 1, 2, 1, 2, 1, 1, 1, 1, 1, 1,
      1, 1, 1, 1, 1, 1, 1, 2, 1, 1, 1, 1, 1, 1, 1, 1, 1, 2, 1, 1, 1, 1, 1, 1, 1, 2, 1, 1, 1, 1, 1, 1,
      1, 1, 1, 1, 1, 1, 1, 3, 1, 3, 1, 1, 1, 1, 1, 1, 1, 3, 1, 1, 1, 1, 1, 3, 1, 3, 1, 1, 1, 1, 1, 1,
      1, 3, 1, 1, 1, 1, 1, 1, 1, 1, 1, 1, 1, 1, 1, 1]"

text \<open>The new state and the code point so far, an unsigned number of 32 bits.\<close>

definition decode :: "nat \<Rightarrow> nat \<Rightarrow> nat \<Rightarrow> nat \<times> nat" where
  "decode state codep byte =
     (let type = utf8d ! byte
      in (utf8d ! (256 + state * 16 + type),
          if state \<noteq> 0 then or (and byte 0x3F) (take_bit 32 (push_bit 6 codep)) else and (drop_bit type 0xFF) byte))"

subsection \<open>Strings\<close>

datatype error_handler_t = strict | replace | ignore

record escaper =
  string_buffer :: bytes
  n_bytes :: nat
  utf8_state :: nat
  codepoint :: nat
  bytes_after_last_accept :: nat
  undumped_chars :: nat
  out :: bytes

definition escaper_new :: "bytes \<Rightarrow> escaper" where
  "escaper_new written =
     \<lparr>string_buffer = replicate 512 (CHR 0x00), n_bytes = 0, utf8_state = 0, codepoint = 0,
      bytes_after_last_accept = 0, undumped_chars = 0, out = written\<rparr>"

definition put :: "char \<Rightarrow> escaper \<Rightarrow> escaper res" where
  "put c e =
     (if n_bytes e < length (string_buffer e)
      then Inr (e\<lparr>string_buffer := (string_buffer e)[n_bytes e := c], n_bytes := n_bytes e + 1\<rparr>)
      else Inl Undefined)"

fun puts :: "bytes \<Rightarrow> escaper \<Rightarrow> escaper res" where
  "puts [] e = Inr e"
| "puts (c # cs) e = bind_res (put c e) (puts cs)"

text \<open>\<^verbatim>\<open>snprintf\<close> writes the text and a NUL, which the next character overwrites.\<close>

definition print_text :: "bytes \<Rightarrow> escaper \<Rightarrow> escaper res" where
  "print_text text e = bind_res (puts (text @ [CHR 0x00]) e) (\<lambda>e1. Inr (e1\<lparr>n_bytes := n_bytes e1 - 1\<rparr>))"

definition hex_char :: "nat \<Rightarrow> char" where
  "hex_char n = (if n < 10 then char_of (48 + n) else char_of (87 + n))"

text \<open>\<^verbatim>\<open>\u%04x\<close> of an unsigned number of 16 bits.\<close>

definition hex_escape :: "nat \<Rightarrow> bytes" where
  "hex_escape n =
     [CHR 0x5C, CHR ''u'', hex_char (n div 4096 mod 16), hex_char (n div 256 mod 16), hex_char (n div 16 mod 16),
      hex_char (n mod 16)]"

definition flush :: "escaper \<Rightarrow> escaper" where
  "flush e =
     (if 512 - n_bytes e < 13 then e\<lparr>out := out e @ take (n_bytes e) (string_buffer e), n_bytes := 0\<rparr> else e)"

definition escape_default :: "bool \<Rightarrow> char \<Rightarrow> escaper \<Rightarrow> escaper res" where
  "escape_default ensure_ascii c e =
     (let cp = codepoint e
      in if cp \<le> 0x1F \<or> ensure_ascii \<and> 0x7F \<le> cp then
           if cp \<le> 0xFFFF then print_text (hex_escape cp) e
           else print_text (hex_escape ((0xD7C0 + drop_bit 10 cp) mod 65536) @ hex_escape (0xDC00 + and cp 0x3FF)) e
         else put c e)"

definition escape_accept :: "bool \<Rightarrow> char \<Rightarrow> escaper \<Rightarrow> escaper res" where
  "escape_accept ensure_ascii c e =
     (let cp = codepoint e
      in bind_res
           (if cp = 0x08 then puts [CHR 0x5C, CHR ''b''] e
            else if cp = 0x09 then puts [CHR 0x5C, CHR ''t''] e
            else if cp = 0x0A then puts [CHR 0x5C, CHR ''n''] e
            else if cp = 0x0C then puts [CHR 0x5C, CHR ''f''] e
            else if cp = 0x0D then puts [CHR 0x5C, CHR ''r''] e
            else if cp = 0x22 then puts [CHR 0x5C, CHR 0x22] e
            else if cp = 0x5C then puts [CHR 0x5C, CHR 0x5C] e
            else escape_default ensure_ascii c e)
           (\<lambda>e1. let e2 = flush e1
                 in Inr (e2\<lparr>bytes_after_last_accept := n_bytes e2, undumped_chars := 0\<rparr>)))"

definition hex_byte :: "nat \<Rightarrow> bytes" where
  "hex_byte n = [hex_digit (n div 16), hex_digit (n mod 16)]"

definition escape_reject :: "error_handler_t \<Rightarrow> bool \<Rightarrow> nat \<Rightarrow> char \<Rightarrow> escaper \<Rightarrow> (bool \<times> escaper) res" where
  "escape_reject handler ensure_ascii i c e =
     (if handler = strict then
        Inl (type_error_create 316 (''invalid UTF-8 byte at index '' @ to_string i @ '': 0x'' @ hex_byte (byte_val c)))
      else
        let again = undumped_chars e > 0; e1 = e\<lparr>n_bytes := bytes_after_last_accept e\<rparr>
        in bind_res
             (if handler = replace then
                bind_res (puts (if ensure_ascii then [CHR 0x5C] @ ''ufffd'' else [CHR 0xEF, CHR 0xBF, CHR 0xBD]) e1)
                  (\<lambda>e2. let e3 = flush e2 in Inr (e3\<lparr>bytes_after_last_accept := n_bytes e3\<rparr>))
              else Inr e1)
             (\<lambda>e4. Inr (again, e4\<lparr>undumped_chars := 0, utf8_state := 0\<rparr>)))"

definition escape_incomplete :: "bool \<Rightarrow> char \<Rightarrow> escaper \<Rightarrow> escaper res" where
  "escape_incomplete ensure_ascii c e =
     bind_res (if \<not> ensure_ascii then put c e else Inr e)
       (\<lambda>e1. Inr (e1\<lparr>undumped_chars := undumped_chars e1 + 1\<rparr>))"

text \<open>One iteration: whether the byte has to be read again, and the state.\<close>

definition escape_step :: "error_handler_t \<Rightarrow> bool \<Rightarrow> nat \<Rightarrow> char \<Rightarrow> escaper \<Rightarrow> (bool \<times> escaper) res" where
  "escape_step handler ensure_ascii i c e =
     (let (st, cp) = decode (utf8_state e) (codepoint e) (byte_val c); e1 = e\<lparr>utf8_state := st, codepoint := cp\<rparr>
      in if st = 0 then bind_res (escape_accept ensure_ascii c e1) (\<lambda>e2. Inr (False, e2))
         else if st = 1 then escape_reject handler ensure_ascii i c e1
         else bind_res (escape_incomplete ensure_ascii c e1) (\<lambda>e2. Inr (False, e2)))"

lemma escape_step_again:
  assumes "escape_step handler ensure_ascii i c e = Inr (True, e')"
  shows "undumped_chars e > 0" "undumped_chars e' = 0"
proof -
  let ?e1 = "e\<lparr>utf8_state := fst (decode (utf8_state e) (codepoint e) (byte_val c)),
    codepoint := snd (decode (utf8_state e) (codepoint e) (byte_val c))\<rparr>"
  have "escape_reject handler ensure_ascii i c ?e1 = Inr (True, e')"
    using assms by (auto simp: escape_step_def bind_res_Inr_iff case_prod_unfold Let_def split: if_splits)
  then show "undumped_chars e > 0" "undumped_chars e' = 0"
    by (auto simp: escape_reject_def bind_res_Inr_iff Let_def split: if_splits)
qed

function escape_loop :: "error_handler_t \<Rightarrow> bool \<Rightarrow> bytes \<Rightarrow> nat \<Rightarrow> escaper \<Rightarrow> escaper res" where
  "escape_loop handler ensure_ascii s i e =
     (if i < length s then
        case escape_step handler ensure_ascii i (s ! i) e of
          Inl err \<Rightarrow> Inl err
        | Inr (True, e1) \<Rightarrow> escape_loop handler ensure_ascii s i e1
        | Inr (False, e1) \<Rightarrow> escape_loop handler ensure_ascii s (i + 1) e1
      else Inr e)"
  by pat_completeness auto
termination
  by (relation "measure (\<lambda>(h, a, s, i, e). 2 * (length s - i) + (if undumped_chars e > 0 then 1 else 0))")
    (auto dest: escape_step_again)

declare escape_loop.simps [simp del]

definition escape_finish :: "error_handler_t \<Rightarrow> bool \<Rightarrow> bytes \<Rightarrow> escaper \<Rightarrow> bytes res" where
  "escape_finish handler ensure_ascii s e =
     (if utf8_state e = 0 then Inr (out e @ take (n_bytes e) (string_buffer e))
      else
        case handler of
          strict \<Rightarrow> Inl (type_error_create 316 (''incomplete UTF-8 string; last byte: 0x'' @ hex_byte (byte_val (last s))))
        | ignore \<Rightarrow> Inr (out e @ take (bytes_after_last_accept e) (string_buffer e))
        | replace \<Rightarrow>
            Inr (out e @ take (bytes_after_last_accept e) (string_buffer e) @
              (if ensure_ascii then [CHR 0x5C] @ ''ufffd'' else [CHR 0xEF, CHR 0xBF, CHR 0xBD])))"

definition dump_escaped :: "error_handler_t \<Rightarrow> bool \<Rightarrow> bytes \<Rightarrow> bytes \<Rightarrow> bytes res" where
  "dump_escaped handler ensure_ascii s written =
     bind_res (escape_loop handler ensure_ascii s 0 (escaper_new written)) (escape_finish handler ensure_ascii s)"

subsection \<open>Integers\<close>

fun count_digits_loop :: "nat \<Rightarrow> nat \<Rightarrow> nat" where
  "count_digits_loop n_digits x =
     (if x < 10 then n_digits
      else if x < 100 then n_digits + 1
      else if x < 1000 then n_digits + 2
      else if x < 10000 then n_digits + 3
      else count_digits_loop (n_digits + 4) (x div 10000))"

declare count_digits_loop.simps [simp del]

definition count_digits :: "nat \<Rightarrow> nat" where
  "count_digits x = count_digits_loop 1 x"

definition digits_to_99 :: "(char \<times> char) list" where
  "digits_to_99 = map (\<lambda>n. (char_of (48 + n div 10 :: nat), char_of (48 + n mod 10 :: nat))) [0..<100]"

definition poke :: "nat \<Rightarrow> char \<Rightarrow> bytes \<Rightarrow> bytes res" where
  "poke p c buf = (if p < length buf then Inr (buf[p := c]) else Inl Undefined)"

text \<open>\<^verbatim>\<open>*(--buffer_ptr) = c\<close>: the pointer must stay inside the buffer.\<close>

definition push_back :: "char \<Rightarrow> nat \<times> bytes \<Rightarrow> (nat \<times> bytes) res" where
  "push_back c pb =
     (if fst pb = 0 then Inl Undefined else bind_res (poke (fst pb - 1) c (snd pb)) (\<lambda>b. Inr (fst pb - 1, b)))"

definition push_pair :: "nat \<Rightarrow> nat \<times> bytes \<Rightarrow> (nat \<times> bytes) res" where
  "push_pair n pb = bind_res (push_back (snd (digits_to_99 ! n)) pb) (push_back (fst (digits_to_99 ! n)))"

fun digits_loop :: "nat \<Rightarrow> nat \<times> bytes \<Rightarrow> (nat \<times> bytes) res" where
  "digits_loop x pb =
     (if 100 \<le> x then bind_res (push_pair (x mod 100) pb) (digits_loop (x div 100))
      else if 10 \<le> x then push_pair x pb
      else push_back (char_of (48 + x)) pb)"

declare digits_loop.simps [simp del]

text \<open>\<^verbatim>\<open>std::abs\<close> of the smallest number is undefined.\<close>

definition dump_integer :: "int \<Rightarrow> bytes \<Rightarrow> bytes res" where
  "dump_integer x written =
     (if x = 0 then Inr (written @ ''0'')
      else if x = - (2 ^ 63) then Inl Undefined
      else
        let number_buffer = replicate 64 (CHR 0x00); abs_value = nat \<bar>x\<bar>;
            n_chars = (if x < 0 then 1 + count_digits abs_value else count_digits abs_value)
        in bind_res (if x < 0 then poke 0 (CHR ''-'') number_buffer else Inr number_buffer) (\<lambda>b1.
           bind_res (digits_loop abs_value (n_chars, b1)) (\<lambda>(_, b2).
             Inr (written @ take n_chars b2))))"

definition dump_float :: "'f float_ops \<Rightarrow> 'f \<Rightarrow> bytes \<Rightarrow> bytes" where
  "dump_float fl x written = written @ (if \<not> isfinite fl x then ''null'' else float_to_chars fl x)"

subsection \<open>Values\<close>

record serializer =
  o_text :: bytes
  indent_string :: bytes

record dump_options =
  pretty_print :: bool
  ensure_ascii :: bool
  indent_step :: nat
  error_handler :: error_handler_t

definition serializer_new :: "char \<Rightarrow> serializer" where
  "serializer_new indent_char = \<lparr>o_text = [], indent_string = replicate 512 indent_char\<rparr>"

definition write_characters :: "bytes \<Rightarrow> serializer \<Rightarrow> serializer" where
  "write_characters text s = s\<lparr>o_text := o_text s @ text\<rparr>"

text \<open>\<^verbatim>\<open>write_characters(indent_string.c_str(), n)\<close>: behind its end the string has one NUL.\<close>

definition write_indent :: "nat \<Rightarrow> serializer \<Rightarrow> serializer res" where
  "write_indent n s =
     (if n \<le> length (indent_string s) + 1 then Inr (write_characters (take n (indent_string s @ [CHR 0x00])) s)
      else Inl Undefined)"

definition grow_indent :: "nat \<Rightarrow> serializer \<Rightarrow> serializer" where
  "grow_indent n s =
     (if length (indent_string s) < n
      then s\<lparr>indent_string := indent_string s @ replicate (length (indent_string s)) CHR '' ''\<rparr>
      else s)"

definition write_escaped :: "dump_options \<Rightarrow> bytes \<Rightarrow> serializer \<Rightarrow> serializer res" where
  "write_escaped p text s =
     bind_res (dump_escaped (error_handler p) (ensure_ascii p) text (o_text s)) (\<lambda>b. Inr (s\<lparr>o_text := b\<rparr>))"

definition uint32_add :: "nat \<Rightarrow> nat \<Rightarrow> nat" where
  "uint32_add a b = (a + b) mod 2 ^ 32"

definition dump_scalar :: "'f float_ops \<Rightarrow> dump_options \<Rightarrow> 'f json \<Rightarrow> serializer \<Rightarrow> serializer res" where
  "dump_scalar fl p j s =
     (case j of
        JString t \<Rightarrow>
          bind_res (write_escaped p t (write_characters [CHR 0x22] s)) (\<lambda>s1. Inr (write_characters [CHR 0x22] s1))
      | JBoolean b \<Rightarrow> Inr (write_characters (if b then ''true'' else ''false'') s)
      | JInteger i \<Rightarrow> bind_res (dump_integer i (o_text s)) (\<lambda>t. Inr (s\<lparr>o_text := t\<rparr>))
      | JUnsigned n \<Rightarrow> bind_res (dump_integer (int n) (o_text s)) (\<lambda>t. Inr (s\<lparr>o_text := t\<rparr>))
      | JFloat f \<Rightarrow> Inr (s\<lparr>o_text := dump_float fl f (o_text s)\<rparr>)
      | JDiscarded \<Rightarrow> Inr (write_characters ''<discarded>'' s)
      | _ \<Rightarrow> Inr (write_characters ''null'' s))"

text \<open>
  The elements between the brackets: the indentation, the key of a member, the value, and a separator
  unless it is the last one.
\<close>

fun dump :: "'f float_ops \<Rightarrow> dump_options \<Rightarrow> nat \<Rightarrow> 'f json \<Rightarrow> serializer \<Rightarrow> serializer res"
and dump_members :: "'f float_ops \<Rightarrow> dump_options \<Rightarrow> nat \<Rightarrow> (bytes \<times> 'f json) list \<Rightarrow> serializer \<Rightarrow> serializer res"
and dump_elements :: "'f float_ops \<Rightarrow> dump_options \<Rightarrow> nat \<Rightarrow> 'f json list \<Rightarrow> serializer \<Rightarrow> serializer res" where
  "dump fl p current_indent (JObject m) s =
     (if m = [] then Inr (write_characters ''{}'' s)
      else if pretty_print p then
        let new_indent = uint32_add current_indent (indent_step p)
        in bind_res (dump_members fl p new_indent m (grow_indent new_indent (write_characters (''{'' @ [CHR 0x0A]) s)))
             (\<lambda>s1. bind_res (write_indent current_indent (write_characters [CHR 0x0A] s1))
             (\<lambda>s2. Inr (write_characters ''}'' s2)))
      else
        bind_res (dump_members fl p current_indent m (write_characters ''{'' s)) (\<lambda>s1. Inr (write_characters ''}'' s1)))"
| "dump fl p current_indent (JArray js) s =
     (if js = [] then Inr (write_characters ''[]'' s)
      else if pretty_print p then
        let new_indent = uint32_add current_indent (indent_step p)
        in bind_res (dump_elements fl p new_indent js (grow_indent new_indent (write_characters (''['' @ [CHR 0x0A]) s)))
             (\<lambda>s1. bind_res (write_indent current_indent (write_characters [CHR 0x0A] s1))
             (\<lambda>s2. Inr (write_characters '']'' s2)))
      else
        bind_res (dump_elements fl p current_indent js (write_characters ''['' s)) (\<lambda>s1. Inr (write_characters '']'' s1)))"
| "dump fl p current_indent j s = dump_scalar fl p j s"
| "dump_members fl p i [] s = Inr s"
| "dump_members fl p i ((k, v) # m) s =
     bind_res (if pretty_print p then write_indent i s else Inr s) (\<lambda>s1.
     bind_res (write_escaped p k (write_characters [CHR 0x22] s1)) (\<lambda>s2.
     bind_res (dump fl p i v (write_characters (if pretty_print p then [CHR 0x22] @ '': '' else [CHR 0x22] @ '':'') s2)) (\<lambda>s3.
       if m = [] then Inr s3
       else dump_members fl p i m (write_characters (if pretty_print p then '','' @ [CHR 0x0A] else '','') s3))))"
| "dump_elements fl p i [] s = Inr s"
| "dump_elements fl p i (j # js) s =
     bind_res (if pretty_print p then write_indent i s else Inr s) (\<lambda>s1.
     bind_res (dump fl p i j s1) (\<lambda>s2.
       if js = [] then Inr s2
       else dump_elements fl p i js (write_characters (if pretty_print p then '','' @ [CHR 0x0A] else '','') s2)))"

text \<open>\<^verbatim>\<open>basic_json::dump\<close>.\<close>

definition json_dump :: "'f float_ops \<Rightarrow> int \<Rightarrow> char \<Rightarrow> bool \<Rightarrow> error_handler_t \<Rightarrow> 'f json \<Rightarrow> bytes res" where
  "json_dump fl indent indent_char ascii handler j =
     bind_res
       (dump fl
          (if 0 \<le> indent then \<lparr>pretty_print = True, ensure_ascii = ascii, indent_step = nat indent, error_handler = handler\<rparr>
           else \<lparr>pretty_print = False, ensure_ascii = ascii, indent_step = 0, error_handler = handler\<rparr>)
          0 j (serializer_new indent_char))
       (\<lambda>s. Inr (o_text s))"

end
