(* ===== verification/Json_Dump_Integers.thy ===== *)
theory Json_Dump_Integers
  imports Json_Dump
begin

text \<open>
  The serializer of the JSON library on integers: the backward conversion with pairs of digits stays inside
  its buffer of 64 bytes and gives the decimal numeral.
\<close>

lemma to_string_100:
  "100 \<le> x \<Longrightarrow> to_string x = to_string (x div 100) @ [char_of (48 + x mod 100 div 10), char_of (48 + x mod 100 mod 10)]"
proof -
  assume x: "100 \<le> x"
  then have "to_string x = to_string (x div 10) @ [char_of (48 + x mod 10)]" by (simp add: to_string.simps [of x])
  also have "to_string (x div 10) = to_string (x div 10 div 10) @ [char_of (48 + x div 10 mod 10)]"
    using x by (simp add: to_string.simps [of "x div 10"])
  also have "x div 10 div 10 = x div 100" by (simp flip: div_mult2_eq)
  also have "x div 10 mod 10 = x mod 100 div 10" using mod_mult2_eq [of x 10 10] by simp
  also have "x mod 10 = x mod 100 mod 10" by (simp add: mod_mod_cancel)
  finally show ?thesis by simp
qed

lemma digits_pair: "n < 100 \<Longrightarrow> digits_to_99 ! n = (char_of (48 + n div 10), char_of (48 + n mod 10))"
  by (simp add: digits_to_99_def)

lemma push_pair_eq:
  assumes "n < 100" "p + 2 \<le> length buf"
  shows "push_pair n (p + 2, buf) =
    Inr (p, take p buf @ [char_of (48 + n div 10), char_of (48 + n mod 10)] @ drop (p + 2) buf)"
proof -
  have "buf[Suc p := d, p := c] = take p buf @ [c, d] @ drop (p + 2) buf" for c d
    using assms(2) by (intro nth_equalityI) (auto simp: nth_list_update nth_append nth_Cons' intro!: arg_cong [of _ _ "(!) buf"])
  with assms show ?thesis by (simp add: push_pair_def push_back_def poke_def digits_pair)
qed

lemma digits_loop_eq:
  "k + length (to_string x) \<le> length buf \<Longrightarrow>
     digits_loop x (k + length (to_string x), buf) =
     Inr (k, take k buf @ to_string x @ drop (k + length (to_string x)) buf)"
proof (induction x arbitrary: buf rule: less_induct)
  case (less x)
  consider "100 \<le> x" | "10 \<le> x" "x < 100" | "x < 10" by linarith
  then show ?case
  proof cases
    case 1
    let ?n = "k + length (to_string (x div 100))"
    have len: "length (to_string x) = length (to_string (x div 100)) + 2" using to_string_100 [OF 1] by simp
    define buf1 where "buf1 = take ?n buf @ [char_of (48 + x mod 100 div 10), char_of (48 + x mod 100 mod 10)] @ drop (?n + 2) buf"
    have push: "push_pair (x mod 100) (?n + 2, buf) = Inr (?n, buf1)"
      unfolding buf1_def by (rule push_pair_eq) (use less.prems len in auto)
    have "digits_loop (x div 100) (?n, buf1) = Inr (k, take k buf1 @ to_string (x div 100) @ drop ?n buf1)"
      by (rule less.IH) (use 1 less.prems len in \<open>auto simp: buf1_def\<close>)
    moreover have "take k buf1 = take k buf" "drop ?n buf1 =
        [char_of (48 + x mod 100 div 10), char_of (48 + x mod 100 mod 10)] @ drop (?n + 2) buf"
      using less.prems len by (simp_all add: buf1_def)
    ultimately show ?thesis
      using push 1 by (simp add: digits_loop.simps [of x] len to_string_100 [OF 1] add.assoc)
  next
    case 2
    then have "to_string x = [char_of (48 + x div 10), char_of (48 + x mod 10)]"
      by (simp add: to_string.simps [of x] to_string.simps [of "x div 10"])
    with 2 less.prems push_pair_eq [of x k buf] show ?thesis by (simp add: digits_loop.simps [of x])
  next
    case 3
    then have "to_string x = [char_of (48 + x)]" by (simp add: to_string.simps [of x])
    moreover have "buf[k := c] = take k buf @ c # drop (k + 1) buf" for c
      using less.prems calculation by (simp add: upd_conv_take_nth_drop)
    ultimately show ?thesis using 3 less.prems
      by (simp add: digits_loop.simps [of x] push_back_def poke_def)
  qed
qed

lemma to_string_step: "10 \<le> x \<Longrightarrow> length (to_string x) = length (to_string (x div 10)) + 1"
  by (simp add: to_string.simps [of x])

lemma count_digits_loop_eq: "count_digits_loop (Suc n) x = n + length (to_string x)"
proof (induction "Suc n" x arbitrary: n rule: count_digits_loop.induct)
  case (1 x)
  have div: "x div 10 div 10 = x div 100" "x div 100 div 10 = x div 1000" "x div 1000 div 10 = x div 10000"
    by (simp_all flip: div_mult2_eq)
  note small = to_string.simps [of x] to_string.simps [of "x div 10"] to_string.simps [of "x div 100"] to_string.simps [of "x div 1000"]
  consider "x < 10" | "10 \<le> x" "x < 100" | "100 \<le> x" "x < 1000" | "1000 \<le> x" "x < 10000" | "10000 \<le> x" by linarith
  then show ?case
  proof cases
    case 5
    then have "length (to_string x) = length (to_string (x div 10000)) + 4"
      using to_string_step [of x] to_string_step [of "x div 10"] to_string_step [of "x div 100"] to_string_step [of "x div 1000"]
      by (simp add: div)
    with 5 1 [of "n + 4"] show ?thesis by (simp add: count_digits_loop.simps [of "Suc n" x])
  qed (simp_all add: count_digits_loop.simps [of "Suc n" x] small div div_less_iff_less_mult)
qed

lemma count_digits_eq: "count_digits x = length (to_string x)"
  using count_digits_loop_eq [of 0 x] by (simp add: count_digits_def)

lemma to_string_length: "x < 10 ^ k \<Longrightarrow> 0 < k \<Longrightarrow> length (to_string x) \<le> k"
proof (induction k arbitrary: x)
  case (Suc k)
  show ?case
  proof (cases "x < 10")
    case False
    with Suc.prems have "x div 10 < 10 ^ k" by (simp add: less_mult_imp_div_less mult.commute)
    moreover from this False have "0 < k" by (cases k) auto
    ultimately show ?thesis using Suc.IH [of "x div 10"] to_string_step [of x] False by simp
  qed (simp add: to_string.simps [of x])
qed simp

lemma take_first_update: "xs \<noteq> [] \<Longrightarrow> take (Suc 0) (xs[0 := d]) = [d]"
  by (cases xs) simp_all

lemma dump_integer_eq:
  assumes "x \<noteq> - (2 ^ 63)" "\<bar>x\<bar> < 2 ^ 64"
  shows "dump_integer x written = Inr (written @ (if x < 0 then ''-'' else []) @ to_string (nat \<bar>x\<bar>))"
proof (cases "x = 0")
  case False
  let ?t = "to_string (nat \<bar>x\<bar>)" and ?k = "if x < 0 then 1 else 0 :: nat"
  let ?b = "if x < 0 then (replicate 64 (CHR 0x00))[0 := CHR ''-''] else replicate 64 (CHR 0x00)"
  have "nat \<bar>x\<bar> < 10 ^ 20" using assms(2) by simp
  from to_string_length [OF this] have "?k + length ?t \<le> length ?b" by (cases "x < 0") simp_all
  from digits_loop_eq [OF this] False assms(1) show ?thesis
    by (auto simp: dump_integer_def count_digits_eq poke_def Let_def take_first_update)
next
  case True
  have "CHR ''0'' = char_of (48 :: nat)" unfolding byte_val_eq_iff [symmetric] by (simp add: byte_val_def of_char_of)
  with True show ?thesis by (simp add: dump_integer_def to_string.simps)
qed

end
