(* ===== verification/Json_Decoder.thy ===== *)
theory Json_Decoder
  imports Json_Dump
begin

text \<open>
  The decoder of the serializer of the JSON library: the table is read as classes of bytes and transitions;
  its states are what the standard still expects of a sequence, so it accepts exactly the well-formed
  sequences, and the code point it computes on 32 bits is their scalar value.
\<close>

subsection \<open>The table\<close>

definition utf8_class :: "nat \<Rightarrow> nat" where
  "utf8_class b =
     (if b < 0x80 then 0 else if b < 0x90 then 1 else if b < 0xA0 then 9 else if b < 0xC0 then 7
      else if b < 0xC2 then 8 else if b < 0xE0 then 2 else if b = 0xE0 then 10 else if b = 0xED then 4
      else if b < 0xF0 then 3 else if b = 0xF0 then 11 else if b < 0xF4 then 6 else if b = 0xF4 then 5 else 8)"

definition utf8_transitions :: "nat list" where
  "utf8_transitions =
     [0, 1, 2, 3, 5, 8, 7, 1, 1, 1, 4, 6, 1, 1, 1, 1,
      1, 1, 1, 1, 1, 1, 1, 1, 1, 1, 1, 1, 1, 1, 1, 1,
      1, 0, 1, 1, 1, 1, 1, 0, 1, 0, 1, 1, 1, 1, 1, 1,
      1, 2, 1, 1, 1, 1, 1, 2, 1, 2, 1, 1, 1, 1, 1, 1,
      1, 1, 1, 1, 1, 1, 1, 2, 1, 1, 1, 1, 1, 1, 1, 1,
      1, 2, 1, 1, 1, 1, 1, 1, 1, 2, 1, 1, 1, 1, 1, 1,
      1, 1, 1, 1, 1, 1, 1, 3, 1, 3, 1, 1, 1, 1, 1, 1,
      1, 3, 1, 1, 1, 1, 1, 3, 1, 3, 1, 1, 1, 1, 1, 1,
      1, 3, 1, 1, 1, 1, 1, 1, 1, 1, 1, 1, 1, 1, 1, 1]"

lemma utf8d_parts:
  "utf8d = (replicate 128 0 @ replicate 16 1 @ replicate 16 9 @ replicate 32 7 @ [8, 8] @ replicate 30 2 @
     [10] @ replicate 12 3 @ [4, 3, 3, 11, 6, 6, 6, 5] @ replicate 11 8) @ utf8_transitions"
  unfolding utf8d_def utf8_transitions_def by (simp add: eval_nat_numeral)

lemma utf8d_class:
  assumes "b < 256"
  shows "utf8d ! b = utf8_class b"
proof (cases "b < 0xE0")
  case True
  then consider "b < 0x80" | "0x80 \<le> b" "b < 0x90" | "0x90 \<le> b" "b < 0xA0" | "0xA0 \<le> b" "b < 0xC0"
    | "0xC0 \<le> b" "b < 0xC2" | "0xC2 \<le> b" "b < 0xE0" by linarith
  then show ?thesis unfolding utf8d_parts by cases (auto simp: nth_append nth_Cons' utf8_class_def)
next
  case False
  then have b: "b = 0xE0 + (b - 0xE0)" "b - 0xE0 < 32" using assms by auto
  have "map utf8_class [0xE0..<0x100] = [10, 3, 3, 3, 3, 3, 3, 3, 3, 3, 3, 3, 3, 4, 3, 3, 11, 6, 6, 6, 5, 8, 8, 8, 8, 8, 8, 8, 8, 8, 8, 8]"
    by (simp add: upt_rec_numeral utf8_class_def)
  moreover have "drop 0xE0 (take 0x100 utf8d) = [10, 3, 3, 3, 3, 3, 3, 3, 3, 3, 3, 3, 3, 4, 3, 3, 11, 6, 6, 6, 5, 8, 8, 8, 8, 8, 8, 8, 8, 8, 8, 8]"
    by (simp add: utf8d_def)
  ultimately have "map utf8_class [0xE0..<0x100] ! (b - 0xE0) = drop 0xE0 (take 0x100 utf8d) ! (b - 0xE0)" by simp
  moreover have "map utf8_class [0xE0..<0x100] ! (b - 0xE0) = utf8_class b"
    using b(2) nth_upt [of "0xE0" "b - 0xE0" "0x100"] False by (simp del: upt_rec_numeral)
  moreover have "length utf8d = 400" by (simp add: utf8d_def)
  then have "drop 0xE0 (take 0x100 utf8d) ! (b - 0xE0) = utf8d ! b" using b by simp
  ultimately show ?thesis by simp
qed

lemma utf8d_transition: "utf8d ! (256 + n) = utf8_transitions ! n"
  unfolding utf8d_parts by (simp add: nth_append)

text \<open>What each state still expects; state 1 is the error.\<close>

definition state_ranges :: "nat \<Rightarrow> (nat \<times> nat) list option" where
  "state_ranges st =
     (if st = 0 then Some []
      else if st = 2 then Some [(0x80, 0xBF)]
      else if st = 3 then Some [(0x80, 0xBF), (0x80, 0xBF)]
      else if st = 4 then Some [(0xA0, 0xBF), (0x80, 0xBF)]
      else if st = 5 then Some [(0x80, 0x9F), (0x80, 0xBF)]
      else if st = 6 then Some [(0x90, 0xBF), (0x80, 0xBF), (0x80, 0xBF)]
      else if st = 7 then Some [(0x80, 0xBF), (0x80, 0xBF), (0x80, 0xBF)]
      else if st = 8 then Some [(0x80, 0x8F), (0x80, 0xBF), (0x80, 0xBF)]
      else None)"

lemma decode_state: "b < 256 \<Longrightarrow> fst (decode st cp b) = utf8_transitions ! (16 * st + utf8_class b)"
  using utf8d_transition [of "st * 16 + utf8_class b"] by (simp add: decode_def Let_def utf8d_class mult.commute add.assoc)

lemma decode_lead: "b < 256 \<Longrightarrow> state_ranges (fst (decode 0 cp b)) = follow_ranges b"
  by (simp add: decode_state utf8_class_def utf8_transitions_def state_ranges_def follow_ranges_def)

lemma transition_rows:
  "n < 12 \<Longrightarrow> utf8_transitions ! (32 + n) = (if n \<in> {1, 7, 9} then 0 else 1)"
  "n < 12 \<Longrightarrow> utf8_transitions ! (48 + n) = (if n \<in> {1, 7, 9} then 2 else 1)"
  "n < 12 \<Longrightarrow> utf8_transitions ! (64 + n) = (if n = 7 then 2 else 1)"
  "n < 12 \<Longrightarrow> utf8_transitions ! (80 + n) = (if n \<in> {1, 9} then 2 else 1)"
  "n < 12 \<Longrightarrow> utf8_transitions ! (96 + n) = (if n \<in> {7, 9} then 3 else 1)"
  "n < 12 \<Longrightarrow> utf8_transitions ! (112 + n) = (if n \<in> {1, 7, 9} then 3 else 1)"
  "n < 12 \<Longrightarrow> utf8_transitions ! (128 + n) = (if n = 1 then 3 else 1)"
  by (simp_all add: less_Suc_eq eval_nat_numeral(2,3) numeral_eq_Suc utf8_transitions_def) auto

lemma utf8_class_less: "utf8_class b < 12"
  by (simp add: utf8_class_def)

lemma utf8_class_iff: "utf8_class b = 1 \<longleftrightarrow> 0x80 \<le> b \<and> b < 0x90" "utf8_class b = 9 \<longleftrightarrow> 0x90 \<le> b \<and> b < 0xA0"
  "utf8_class b = 7 \<longleftrightarrow> 0xA0 \<le> b \<and> b < 0xC0"
  by (auto simp: utf8_class_def)

lemma decode_follow:
  assumes "b < 256" "state_ranges st = Some ((lo, hi) # rs)"
  shows "state_ranges (fst (decode st cp b)) = (if lo \<le> b \<and> b \<le> hi then Some rs else None)"
proof -
  have "st \<in> {2, 3, 4, 5, 6, 7, 8}" using assms(2) by (auto simp: state_ranges_def split: if_splits)
  then show ?thesis using assms(2)
    by (elim insertE emptyE)
      (auto simp: decode_state [OF assms(1)] transition_rows [OF utf8_class_less] utf8_class_iff utf8_class_iff(1) [simplified] state_ranges_def)
qed

lemma state_ranges_iff: "state_ranges st = Some [] \<longleftrightarrow> st = 0"
  by (simp add: state_ranges_def)

lemma decode_range: "b < 256 \<Longrightarrow> st \<le> 8 \<Longrightarrow> fst (decode st cp b) \<le> 8"
proof -
  assume b: "b < 256" "st \<le> 8"
  have "list_all (\<lambda>n. n \<le> 8) utf8_transitions" by (simp add: utf8_transitions_def)
  moreover have "16 * st + utf8_class b < length utf8_transitions"
    using b(2) by (auto simp: utf8_transitions_def utf8_class_def)
  ultimately show ?thesis unfolding decode_state [OF b(1)] by (simp add: list_all_length)
qed

lemma state_ranges_None: "st \<le> 8 \<Longrightarrow> state_ranges st = None \<longleftrightarrow> st = 1"
  by (auto simp: state_ranges_def)


text \<open>The code point of a sequence.\<close>

lemma mod_above: "k * m \<le> b \<Longrightarrow> b < k * m + m \<Longrightarrow> b mod m = b - k * m" for b :: nat
proof -
  assume b: "k * m \<le> b" "b < k * m + m"
  then have "b mod m = (b - k * m + k * m) mod m" by simp
  also have "\<dots> = (b - k * m) mod m" by (rule mod_mult_self1)
  also have "\<dots> = b - k * m" using b by simp
  finally show ?thesis .
qed

lemma decode_lead_value:
  "b < 0x80 \<Longrightarrow> snd (decode 0 cp b) = b"
  "0xC2 \<le> b \<Longrightarrow> b < 0xE0 \<Longrightarrow> snd (decode 0 cp b) = b - 0xC0"
  "0xE0 \<le> b \<Longrightarrow> b < 0xF0 \<Longrightarrow> snd (decode 0 cp b) = b - 0xE0"
  "0xF0 \<le> b \<Longrightarrow> b < 0xF5 \<Longrightarrow> snd (decode 0 cp b) = b - 0xF0"
proof -
  have mask: "and (drop_bit k 0xFF) b = b mod 2 ^ (8 - k)" for k b :: nat
  proof -
    have "drop_bit k (0xFF :: nat) = mask (8 - k)" using drop_bit_mask_eq [of k 8, where 'a = nat] by (simp add: mask_eq_exp_minus_1)
    then show ?thesis by (simp add: and.commute take_bit_eq_mod flip: take_bit_eq_mask)
  qed
  have lead: "snd (decode 0 cp b) = b mod 2 ^ (8 - utf8_class b)" if "b < 256"
    using that by (simp add: decode_def Let_def utf8d_class mask)
  show "snd (decode 0 cp b) = b" if "b < 0x80" using that lead by (simp add: utf8_class_def)
  show "snd (decode 0 cp b) = b - 0xC0" if b: "0xC2 \<le> b" "b < 0xE0"
  proof -
    have "b mod 64 = b - 0xC0" using b mod_above [of 3 64 b] by simp
    with b lead show ?thesis by (simp add: utf8_class_def)
  qed
  show "snd (decode 0 cp b) = b - 0xE0" if b: "0xE0 \<le> b" "b < 0xF0"
  proof -
    have "b mod 32 = b - 0xE0" "b mod 16 = b - 0xE0" using b mod_above [of 7 32 b] mod_above [of 14 16 b] by simp_all
    with b lead show ?thesis by (simp add: utf8_class_def)
  qed
  show "snd (decode 0 cp b) = b - 0xF0" if b: "0xF0 \<le> b" "b < 0xF5"
  proof -
    have "b mod 8 = b - 0xF0" "b < 0xF4 \<Longrightarrow> b mod 4 = b - 0xF0" using b mod_above [of 30 8 b] mod_above [of 60 4 b] by simp_all
    with b lead show ?thesis by (simp add: utf8_class_def)
  qed
qed

lemma decode_follow_value:
  assumes "st \<noteq> 0" "cp < 2 ^ 20" "0x80 \<le> b" "b < 0xC0"
  shows "snd (decode st cp b) = cp * 64 + (b - 0x80)"
proof -
  have "and b 0x3F = b mod 64" using take_bit_eq_mask [of 6 b] by (simp add: mask_eq_exp_minus_1 take_bit_eq_mod)
  also have "\<dots> = b - 0x80" using assms(3,4) mod_above [of 2 64 b] by simp
  finally have low: "and b 0x3F = b - 0x80" .
  have high: "take_bit 32 (push_bit 6 cp) = cp * 64"
    using assms(2) by (simp add: take_bit_eq_mod push_bit_eq_mult)
  have "push_bit 6 cp = cp * 64" by (simp add: push_bit_eq_mult)
  have "or (b - 0x80) (cp * 64) = (b - 0x80) + cp * 64"
  proof (rule disjunctive_add_eq_or [symmetric])
    have "take_bit 6 (b - 0x80) = b - 0x80" using assms(3,4) by (simp add: take_bit_eq_mod)
    moreover have "and (take_bit 6 x) (push_bit 6 y) = 0" for x y :: nat
      by (rule bit_eqI) (auto simp: bit_simps)
    ultimately show "and (b - 0x80) (cp * 64) = 0" using \<open>push_bit 6 cp = cp * 64\<close> by metis
  qed
  with assms(1) low high show ?thesis by (simp add: decode_def Let_def)
qed

text \<open>The state and the code point after some bytes from the start of a sequence.\<close>

definition decodes :: "octets \<Rightarrow> nat \<Rightarrow> nat \<Rightarrow> bool" where
  "decodes w st cp \<longleftrightarrow> (\<exists>cp0. (st, cp) = foldl (\<lambda>(st, cp) b. decode st cp b) (0, cp0) w)"

lemma decodes_Nil: "decodes [] 0 cp"
  by (simp add: decodes_def)

lemma decodes_snoc: "decodes w st cp \<Longrightarrow> decodes (w @ [b]) (fst (decode st cp b)) (snd (decode st cp b))"
  by (auto simp: decodes_def) (metis case_prod_conv)

lemma foldl_decode_follow:
  "state_ranges st = Some rs \<Longrightarrow> length bs \<le> length rs \<Longrightarrow> in_ranges (take (length bs) rs) bs \<Longrightarrow>
     list_all (\<lambda>b. b < 256) bs \<Longrightarrow>
     state_ranges (fst (foldl (\<lambda>(st, cp) b. decode st cp b) (st, cp) bs)) = Some (drop (length bs) rs)"
proof (induction bs arbitrary: st cp rs)
  case (Cons b bs)
  then obtain r rs1 where "rs = r # rs1" by (cases rs) auto
  with Cons show ?case using decode_follow [of b st "fst r" "snd r" rs1 cp]
    by (cases "decode st cp b") auto
qed simp

lemma state_ranges_continuation:
  "state_ranges st = Some rs \<Longrightarrow> (lo, hi) \<in> set rs \<Longrightarrow> 0x80 \<le> lo \<and> hi < 0xC0"
  by (auto simp: state_ranges_def split: if_splits)

lemma foldl_decode_value:
  "state_ranges st = Some rs \<Longrightarrow> length bs = length rs \<Longrightarrow> in_ranges rs bs \<Longrightarrow> (cp + 1) * 64 ^ length bs \<le> 2 ^ 26 \<Longrightarrow>
     snd (foldl (\<lambda>(st, cp) b. decode st cp b) (st, cp) bs) = foldl (\<lambda>cp b. cp * 64 + (b - 0x80)) cp bs"
proof (induction bs arbitrary: st cp rs)
  case (Cons b bs)
  then obtain lo hi rs1 where rs: "rs = (lo, hi) # rs1" by (cases rs) auto
  have b: "lo \<le> b" "b \<le> hi" "0x80 \<le> b" "b < 0xC0"
    using Cons.prems rs state_ranges_continuation [OF Cons.prems(1), of lo hi] by auto
  have "st \<noteq> 0" using Cons.prems(1) rs by (auto simp: state_ranges_def split: if_splits)
  moreover have "cp < 2 ^ 20"
  proof -
    have "(64 :: nat) \<le> 64 ^ length (b # bs)" by simp
    then have "(cp + 1) * 64 \<le> (cp + 1) * 64 ^ length (b # bs)" by (rule mult_left_mono) simp
    with Cons.prems(4) show ?thesis by simp
  qed
  ultimately have cp: "snd (decode st cp b) = cp * 64 + (b - 0x80)" using b by (intro decode_follow_value)
  have "state_ranges (fst (decode st cp b)) = Some rs1"
    using decode_follow [of b st lo hi rs1 cp] Cons.prems(1) rs b by simp
  moreover have "(cp * 64 + (b - 0x80) + 1) * 64 ^ length bs \<le> 2 ^ 26"
  proof -
    have "cp * 64 + (b - 0x80) + 1 \<le> (cp + 1) * 64" using b(4) by simp
    then have "(cp * 64 + (b - 0x80) + 1) * 64 ^ length bs \<le> (cp + 1) * 64 * 64 ^ length bs" by (rule mult_right_mono) simp
    also have "\<dots> = (cp + 1) * 64 ^ length (b # bs)" by (simp only: list.size(4) add_0_right add_Suc_right power_Suc mult.assoc)
    finally show ?thesis using Cons.prems(4) by linarith
  qed
  ultimately show ?case using Cons.IH [of "fst (decode st cp b)" rs1 "cp * 64 + (b - 0x80)"] Cons.prems rs cp
    by (cases "decode st cp b") simp
qed simp

lemma well_formed_octets: "well_formed w \<Longrightarrow> list_all (\<lambda>b. b < 256) w"
  by (erule well_formed_cases) auto

lemma decodes_well_formed:
  assumes "well_formed w" "decodes w st cp"
  shows "st = 0 \<and> cp = utf8_value w"
proof -
  obtain b bs rs where w: "w = b # bs" "follow_ranges b = Some rs" "length rs = length bs" "in_ranges rs bs"
    using assms(1) by (auto simp: well_formed_def split: list.splits option.splits)
  obtain cp0 where dec: "(st, cp) = foldl (\<lambda>(st, cp) b. decode st cp b) (decode 0 cp0 b) bs"
    using assms(2) w(1) by (auto simp: decodes_def)
  have oct: "b < 256" "list_all (\<lambda>b. b < 256) bs" using well_formed_octets [OF assms(1)] w(1) by auto
  have "state_ranges st = Some (drop (length bs) rs)"
    using foldl_decode_follow [of "fst (decode 0 cp0 b)" rs bs "snd (decode 0 cp0 b)"] w decode_lead [OF oct(1)] oct(2)
    by (simp flip: dec)
  then have "st = 0" using w(3) by (simp add: state_ranges_iff)
  moreover have "cp = foldl (\<lambda>cp b. cp * 64 + (b - 0x80)) (snd (decode 0 cp0 b)) bs"
  proof -
    have "(snd (decode 0 cp0 b) + 1) * 64 ^ length bs \<le> 2 ^ 26"
      using assms(1) unfolding w(1) by (cases rule: well_formed_cases) (force simp: decode_lead_value)+
    then show ?thesis using foldl_decode_value [of "fst (decode 0 cp0 b)" rs bs "snd (decode 0 cp0 b)"] w
      decode_lead [OF oct(1)] by (simp flip: dec)
  qed
  moreover have "foldl (\<lambda>cp b. cp * 64 + (b - 0x80)) (snd (decode 0 cp0 b)) bs = utf8_value w"
    using assms(1) unfolding w(1) by (cases rule: well_formed_cases) (auto simp: decode_lead_value algebra_simps)
  ultimately show ?thesis by simp
qed

end
