(* ===== verification/Json_Escape.thy ===== *)
theory Json_Escape
  imports Json_Decoder
begin

text \<open>
  The escaping of strings by the serializer of the JSON library: for every string, handler and option the
  writes stay inside the buffer of 512 bytes; on UTF-8 the output is a literal for exactly the string; on
  anything else the strict handler raises the error 316, and the others write a literal for the string with
  each maximal ill-formed part dropped or replaced.
\<close>

subsection \<open>The buffer\<close>

definition emit :: "bytes \<Rightarrow> escaper \<Rightarrow> escaper" where
  "emit t e =
     e\<lparr>string_buffer := take (n_bytes e) (string_buffer e) @ t @ drop (n_bytes e + length t) (string_buffer e),
       n_bytes := n_bytes e + length t\<rparr>"

lemma emit_fields [simp]:
  "n_bytes (emit t e) = n_bytes e + length t" "out (emit t e) = out e" "utf8_state (emit t e) = utf8_state e"
  "codepoint (emit t e) = codepoint e" "bytes_after_last_accept (emit t e) = bytes_after_last_accept e"
  "undumped_chars (emit t e) = undumped_chars e"
  by (simp_all add: emit_def)

lemma emit_length: "n_bytes e + length t \<le> length (string_buffer e) \<Longrightarrow> length (string_buffer (emit t e)) = length (string_buffer e)"
  by (simp add: emit_def)

lemma emit_take:
  "n_bytes e + length t \<le> length (string_buffer e) \<Longrightarrow> k \<le> length t \<Longrightarrow>
     take (n_bytes e + k) (string_buffer (emit t e)) = take (n_bytes e) (string_buffer e) @ take k t"
  by (simp add: emit_def)

lemma emit_prefix:
  "n_bytes e \<le> length (string_buffer e) \<Longrightarrow> k \<le> n_bytes e \<Longrightarrow> take k (string_buffer (emit t e)) = take k (string_buffer e)"
  by (simp add: emit_def)

lemma puts_emit: "n_bytes e + length t \<le> length (string_buffer e) \<Longrightarrow> puts t e = Inr (emit t e)"
proof (induction t arbitrary: e)
  case Nil
  show ?case by (simp add: emit_def)
next
  case (Cons c t)
  let ?e = "e\<lparr>string_buffer := (string_buffer e)[n_bytes e := c], n_bytes := n_bytes e + 1\<rparr>"
  have "put c e = Inr ?e" using Cons.prems by (simp add: put_def)
  moreover have "puts t ?e = Inr (emit t ?e)" by (rule Cons.IH) (use Cons.prems in simp)
  moreover have "emit t ?e = emit (c # t) e"
    using Cons.prems by (simp add: emit_def upd_conv_take_nth_drop add.commute)
  ultimately show ?case by simp
qed

lemma put_emit: "n_bytes e < length (string_buffer e) \<Longrightarrow> put c e = Inr (emit [c] e)"
  using puts_emit [of e "[c]"] by (cases "put c e") simp_all

lemma put_puts: "put c e = puts [c] e"
  by (cases "put c e") simp_all

text \<open>
  \<open>wrote txt t e e'\<close>: behind the text \<open>txt\<close> that \<open>e\<close> has accepted, the buffer of \<open>e'\<close> holds \<open>t\<close>.
\<close>

definition accepted :: "escaper \<Rightarrow> bytes" where
  "accepted e = out e @ take (bytes_after_last_accept e) (string_buffer e)"

definition written :: "escaper \<Rightarrow> bytes" where
  "written e = out e @ take (n_bytes e) (string_buffer e)"

definition fits :: "escaper \<Rightarrow> bool" where
  "fits e \<longleftrightarrow> length (string_buffer e) = 512 \<and> n_bytes e \<le> 512"

lemma puts_written:
  assumes "fits e" "n_bytes e + length t \<le> 512"
  shows "\<exists>e'. puts t e = Inr e' \<and> fits e' \<and> written e' = written e @ t \<and> utf8_state e' = utf8_state e"
  using assms puts_emit [of e t] emit_length [of e t] emit_take [of e t "length t"]
  by (intro exI [of _ "emit t e"]) (simp add: fits_def written_def)

lemma print_text_written:
  assumes "fits e" "n_bytes e + length t < 512"
  shows "\<exists>e'. print_text t e = Inr e' \<and> fits e' \<and> written e' = written e @ t \<and> utf8_state e' = utf8_state e"
  using assms puts_emit [of e "t @ [CHR 0x00]"] emit_length [of e "t @ [CHR 0x00]"] emit_take [of e "t @ [CHR 0x00]" "length t"]
  by (intro exI [of _ "(emit (t @ [CHR 0x00]) e)\<lparr>n_bytes := n_bytes e + length t\<rparr>"])
    (simp add: fits_def written_def print_text_def)

text \<open>
  The state after the bytes \<open>w\<close> of an unfinished sequence behind the accepted text \<open>txt\<close>.
\<close>

definition midway :: "bool \<Rightarrow> bytes \<Rightarrow> bytes \<Rightarrow> escaper \<Rightarrow> bool" where
  "midway ascii txt w e \<longleftrightarrow>
     length (string_buffer e) = 512 \<and> bytes_after_last_accept e \<le> 499 \<and> undumped_chars e = length w \<and>
     n_bytes e = bytes_after_last_accept e + (if ascii then 0 else length w) \<and>
     accepted e = txt \<and> written e = txt @ (if ascii then [] else w) \<and>
     decodes (octets_of w) (utf8_state e) (codepoint e)"

lemma midway_new: "midway ascii txt [] (escaper_new txt)"
  by (simp add: midway_def escaper_new_def accepted_def written_def decodes_Nil)

lemma midway_flush:
  assumes "fits e" "utf8_state e = 0"
  shows "midway ascii (written e) [] ((flush e)\<lparr>bytes_after_last_accept := n_bytes (flush e), undumped_chars := 0\<rparr>)"
  using assms by (auto simp: midway_def flush_def fits_def accepted_def written_def decodes_Nil)

lemma midway_flush_reset:
  assumes "fits e"
  shows "midway ascii (written e) []
    ((flush e)\<lparr>bytes_after_last_accept := n_bytes (flush e), undumped_chars := 0, utf8_state := 0\<rparr>)"
  using assms by (auto simp: midway_def flush_def fits_def accepted_def written_def decodes_Nil)

subsection \<open>One character\<close>

lemma hex_char_value: "n < 16 \<Longrightarrow> hex_value (byte_val (hex_char n)) = Some n"
  by (simp add: hex_char_def hex_value_def byte_val_def of_char_of)

lemma length_hex_escape: "length (hex_escape n) = 6"
  by (simp add: hex_escape_def)

lemma hex_escape_octets:
  assumes "n < 65536"
  obtains h where "octets_of (hex_escape n) = 0x5C # 0x75 # h" "hex4 h n"
proof
  let ?h = "map (\<lambda>d. byte_val (hex_char d)) [n div 4096 mod 16, n div 256 mod 16, n div 16 mod 16, n mod 16]"
  show "octets_of (hex_escape n) = 0x5C # 0x75 # ?h" by (simp add: hex_escape_def byte_val_def)
  have "n div 4096 < 16" using assms by simp
  moreover from this have "n div 4096 mod 16 = n div 4096" by simp
  moreover have "n div 256 = n div 4096 * 16 + n div 256 mod 16" "n div 16 = n div 256 * 16 + n div 16 mod 16"
    "n = n div 16 * 16 + n mod 16"
    using div_mult_mod_eq [of "n div 256" 16] div_mult_mod_eq [of "n div 16" 16] by (simp_all flip: div_mult2_eq)
  ultimately have "16 * (16 * (16 * (n div 4096 mod 16) + n div 256 mod 16) + n div 16 mod 16) + n mod 16 = n"
    by (simp add: mult.commute)
  with \<open>n div 4096 < 16\<close> show "hex4 ?h n" by (simp add: hex4_def hex_char_value)
qed

lemma string_char_hex: "scalar_value cp \<Longrightarrow> cp \<le> 0xFFFF \<Longrightarrow> string_char (octets_of (hex_escape cp)) (utf8_encode cp)"
  by (rule hex_escape_octets [of cp]) (simp_all add: unicode)

lemma string_char_surrogates:
  assumes "0xFFFF < cp" "cp \<le> 0x10FFFF"
  shows "string_char (octets_of (hex_escape ((0xD7C0 + drop_bit 10 cp) mod 65536) @ hex_escape (0xDC00 + and cp 0x3FF)))
    (utf8_encode cp)"
proof -
  let ?hi = "0xD7C0 + cp div 1024" and ?lo = "0xDC00 + cp mod 1024"
  have bits: "drop_bit 10 cp = cp div 1024" "and cp 0x3FF = cp mod 1024"
    using take_bit_eq_mask [of 10 cp] by (simp_all add: drop_bit_eq_div mask_eq_exp_minus_1 take_bit_eq_mod)
  have "64 \<le> cp div 1024" "cp div 1024 \<le> 0x10FFFF div 1024" using assms by (auto intro: div_le_mono)
  then have hi: "0xD800 \<le> ?hi" "?hi < 0xDC00" "?hi mod 65536 = ?hi" by simp_all
  have lo: "0xDC00 \<le> ?lo" "?lo < 0xE000" by simp_all
  obtain h where h: "octets_of (hex_escape ?hi) = 0x5C # 0x75 # h" "hex4 h ?hi" using hex_escape_octets [of ?hi] hi by auto
  obtain h' where h': "octets_of (hex_escape ?lo) = 0x5C # 0x75 # h'" "hex4 h' ?lo" using hex_escape_octets [of ?lo] lo by auto
  have "0x10000 + (?hi - 0xD800) * 0x400 + (?lo - 0xDC00) = cp"
    using \<open>64 \<le> cp div 1024\<close> div_mult_mod_eq [of cp 1024] by (simp add: algebra_simps)
  with surrogates [OF h(2) hi(1,2) h'(2) lo] h(1) h'(1) hi(3) bits show ?thesis by simp
qed

text \<open>What the switch writes for a code point, before the buffer is flushed.\<close>

definition escape_switch :: "bool \<Rightarrow> char \<Rightarrow> escaper \<Rightarrow> escaper res" where
  "escape_switch ascii c e =
     (case map_of (map (\<lambda>(a, b). (b, a)) (filter (\<lambda>(a, b). a \<noteq> 0x2F) simple_escapes)) (codepoint e) of
        Some a \<Rightarrow> puts [CHR 0x5C, char_of a] e
      | None \<Rightarrow> escape_default ascii c e)"

lemma escape_accept_switch:
  "escape_accept ascii c e =
     bind_res (escape_switch ascii c e) (\<lambda>e1. Inr ((flush e1)\<lparr>bytes_after_last_accept := n_bytes (flush e1), undumped_chars := 0\<rparr>))"
proof -
  have chars: "char_of (0x22 :: nat) = CHR 0x22" "char_of (0x5C :: nat) = CHR 0x5C" "char_of (0x62 :: nat) = CHR ''b''"
    "char_of (0x66 :: nat) = CHR ''f''" "char_of (0x6E :: nat) = CHR ''n''" "char_of (0x72 :: nat) = CHR ''r''"
    "char_of (0x74 :: nat) = CHR ''t''"
    unfolding byte_val_eq_iff [symmetric] by (simp_all add: byte_val_def of_char_of)
  show ?thesis by (simp add: escape_accept_def escape_switch_def simple_escapes_def Let_def chars)
qed

definition writes_char :: "bytes \<Rightarrow> octets \<Rightarrow> escaper res \<Rightarrow> bool" where
  "writes_char txt x r \<longleftrightarrow>
     (\<exists>e t. r = Inr e \<and> fits e \<and> written e = txt @ t \<and> utf8_state e = 0 \<and> string_char (octets_of t) x)"

lemma writes_charI:
  "\<exists>e'. r = Inr e' \<and> fits e' \<and> written e' = written e @ t \<and> utf8_state e' = utf8_state e \<Longrightarrow> written e @ t = txt @ t' \<Longrightarrow>
     utf8_state e = 0 \<Longrightarrow> string_char (octets_of t') x \<Longrightarrow> writes_char txt x r"
  by (auto simp: writes_char_def)

lemma escape_switch_writes:
  assumes "fits e" "n_bytes e \<le> 502" "ascii \<Longrightarrow> n_bytes e \<le> 499" "written e = txt @ (if ascii then [] else w)"
    "utf8_state e = 0" "codepoint e = utf8_value (octets_of (w @ [c]))" "well_formed (octets_of (w @ [c]))"
  shows "writes_char txt (octets_of (w @ [c])) (escape_switch ascii c e)"
proof -
  let ?cp = "codepoint e" and ?x = "octets_of (w @ [c])"
  have cp: "scalar_value ?cp" "utf8_encode ?cp = ?x" using utf8_value_encode [OF assms(7)] assms(6) by simp_all
  have one: "w = []" "byte_val c = ?cp" if "?cp < 0x80" using cp(2) that by (auto simp: utf8_encode_def octets_of_def)
  let ?m = "map_of (map (\<lambda>(a, b). (b, a)) (filter (\<lambda>(a, b). a \<noteq> 0x2F) simple_escapes)) ?cp"
  consider (short) a where "(a, ?cp) \<in> set simple_escapes" "a \<noteq> 0x2F" "escape_switch ascii c e = puts [CHR 0x5C, char_of a] e"
    | (default) "escape_switch ascii c e = escape_default ascii c e" "?cp \<noteq> 0x22" "?cp \<noteq> 0x5C"
  proof (cases ?m)
    case None
    then have "?cp \<noteq> 0x22" "?cp \<noteq> 0x5C" by (auto simp: simple_escapes_def)
    with None show thesis by (intro default) (simp_all add: escape_switch_def)
  next
    case (Some a)
    then show thesis by (intro short [of a]) (auto simp: escape_switch_def dest!: map_of_SomeD)
  qed
  then show ?thesis
  proof cases
    case short
    then have "?cp < 0x80" "byte_val (char_of a) = a" by (auto simp: simple_escapes_def byte_val_def of_char_of)
    with short(1) one assms(1,2,4,5) show ?thesis unfolding short(3)
      by (intro writes_charI [OF puts_written]) (auto intro: escape simp: byte_val_def)
  next
    case default
    consider (hex) "?cp \<le> 0x1F \<or> ascii \<and> 0x7F \<le> ?cp" "?cp \<le> 0xFFFF" | (pair) "ascii" "0xFFFF < ?cp"
      | (copy) "0x1F < ?cp" "\<not> ascii \<or> ?cp < 0x7F" by linarith
    then show ?thesis
    proof cases
      case hex
      then have "string_char (octets_of (hex_escape ?cp)) ?x" using string_char_hex [OF cp(1)] cp(2) by simp
      moreover have "w = [] \<or> ascii" using hex one by auto
      moreover have "escape_default ascii c e = print_text (hex_escape ?cp) e" using hex by (simp add: escape_default_def)
      ultimately show ?thesis unfolding default(1) using assms(1-5)
        by (auto intro!: writes_charI [OF print_text_written, of e "hex_escape ?cp"] simp: length_hex_escape)
    next
      case pair
      let ?t = "hex_escape ((0xD7C0 + drop_bit 10 ?cp) mod 65536) @ hex_escape (0xDC00 + and ?cp 0x3FF)"
      have "string_char (octets_of ?t) ?x" using string_char_surrogates [of ?cp] pair cp by (simp add: scalar_value_def)
      moreover have "escape_default ascii c e = print_text ?t e" using pair by (simp add: escape_default_def Let_def)
      ultimately show ?thesis unfolding default(1) using pair(1) assms(1-5)
        by (auto intro!: writes_charI [OF print_text_written, of e ?t] simp: length_hex_escape)
    next
      case copy
      have "0x20 \<le> hd ?x" "hd ?x \<noteq> 0x22" "hd ?x \<noteq> 0x5C"
        using copy default(2,3) unfolding cp(2) [symmetric] by (auto simp: utf8_encode_def)
      with assms(7) have "string_char ?x ?x" by (rule plain)
      moreover have "w = [] \<or> \<not> ascii" using copy one by auto
      moreover have "escape_default ascii c e = puts [c] e"
        using copy unfolding put_puts [symmetric] by (auto simp: escape_default_def Let_def)
      moreover have "\<exists>e'. puts [c] e = Inr e' \<and> fits e' \<and> written e' = written e @ [c] \<and> utf8_state e' = utf8_state e"
        using assms(1,2) by (intro puts_written) simp_all
      ultimately show ?thesis unfolding default(1) using assms(4,5)
        by (intro writes_charI [of _ e "[c]" _ "w @ [c]"]) auto
    qed
  qed
qed

subsection \<open>One byte\<close>

definition replacement :: "error_handler_t \<Rightarrow> bool \<Rightarrow> bytes" where
  "replacement h ascii =
     (if h = replace then if ascii then [CHR 0x5C] @ ''ufffd'' else [CHR 0xEF, CHR 0xBF, CHR 0xBD] else [])"

lemma escape_step_accept:
  assumes "midway ascii txt w e" "well_formed (octets_of (w @ [c]))"
  shows "\<exists>e' t. escape_step h ascii i c e = Inr (False, e') \<and> midway ascii (txt @ t) [] e' \<and>
    string_char (octets_of t) (octets_of (w @ [c]))"
proof -
  let ?d = "decode (utf8_state e) (codepoint e) (byte_val c)"
  let ?e = "e\<lparr>utf8_state := fst ?d, codepoint := snd ?d\<rparr>"
  have "decodes (octets_of (w @ [c])) (fst ?d) (snd ?d)" using assms(1) by (simp add: midway_def decodes_snoc)
  from decodes_well_formed [OF assms(2) this] have d: "?d = (0, utf8_value (octets_of (w @ [c])))" by (auto simp: prod_eq_iff)
  have "length (octets_of (w @ [c])) \<le> 4" using assms(2) by (cases rule: well_formed_cases) simp_all
  then have "writes_char txt (octets_of (w @ [c])) (escape_switch ascii c ?e)"
    using assms d by (intro escape_switch_writes) (auto simp: midway_def fits_def written_def)
  then obtain e1 t where "escape_switch ascii c ?e = Inr e1" "fits e1" "written e1 = txt @ t" "utf8_state e1 = 0"
    "string_char (octets_of t) (octets_of (w @ [c]))" by (auto simp: writes_char_def)
  with midway_flush [of e1 ascii] d show ?thesis by (auto simp: escape_step_def escape_accept_switch)
qed

lemma escape_step_more:
  assumes "midway ascii txt w e" "length w \<le> 2" "fst (decode (utf8_state e) (codepoint e) (byte_val c)) \<notin> {0, 1}"
  shows "\<exists>e'. escape_step h ascii i c e = Inr (False, e') \<and> midway ascii txt (w @ [c]) e' \<and>
    utf8_state e' = fst (decode (utf8_state e) (codepoint e) (byte_val c))"
proof -
  let ?d = "decode (utf8_state e) (codepoint e) (byte_val c)"
  let ?e = "e\<lparr>utf8_state := fst ?d, codepoint := snd ?d\<rparr>"
  have d: "decodes (octets_of (w @ [c])) (fst ?d) (snd ?d)" using assms(1) by (simp add: midway_def decodes_snoc)
  have step: "escape_step h ascii i c e = bind_res (escape_incomplete ascii c ?e) (\<lambda>e2. Inr (False, e2))"
    using assms(3) by (simp add: escape_step_def case_prod_unfold Let_def)
  show ?thesis
  proof (cases ascii)
    case True
    then show ?thesis using assms(1) d unfolding step
      by (auto simp: escape_incomplete_def midway_def accepted_def written_def)
  next
    case False
    have room: "n_bytes ?e + length [c] \<le> length (string_buffer ?e)" using assms(1,2) by (simp add: midway_def)
    then show ?thesis using False assms(1) d emit_length [OF room] emit_take [OF room, of 1]
        emit_prefix [of ?e "bytes_after_last_accept e" "[c]"] unfolding step
      by (auto simp: escape_incomplete_def put_emit midway_def accepted_def written_def)
  qed
qed

lemma escape_step_reject:
  assumes "midway ascii txt w e" "fst (decode (utf8_state e) (codepoint e) (byte_val c)) = 1"
  shows "h = strict \<Longrightarrow> \<exists>m. escape_step h ascii i c e = Inl (Json_exception 316 m)"
    "h \<noteq> strict \<Longrightarrow> \<exists>e'. escape_step h ascii i c e = Inr (w \<noteq> [], e') \<and> midway ascii (txt @ replacement h ascii) [] e'"
proof -
  show "\<exists>m. escape_step h ascii i c e = Inl (Json_exception 316 m)" if "h = strict"
    using assms(2) that by (simp add: escape_step_def case_prod_unfold Let_def escape_reject_def type_error_create_def)
  assume h: "h \<noteq> strict"
  let ?e = "e\<lparr>utf8_state := 1, codepoint := snd (decode (utf8_state e) (codepoint e) (byte_val c)), n_bytes := bytes_after_last_accept e\<rparr>"
  have e: "fits ?e" "written ?e = txt" "n_bytes ?e \<le> 499" using assms(1) by (auto simp: midway_def fits_def written_def accepted_def)
  show "\<exists>e'. escape_step h ascii i c e = Inr (w \<noteq> [], e') \<and> midway ascii (txt @ replacement h ascii) [] e'"
  proof (cases h)
    case replace
    have "n_bytes ?e + length (replacement h ascii) \<le> 512" using e(3) by (simp add: replacement_def)
    from puts_written [OF e(1) this] obtain e1 where e1: "puts (replacement h ascii) ?e = Inr e1" "fits e1"
      "written e1 = txt @ replacement h ascii" using e(2) by auto
    then have "midway ascii (txt @ replacement h ascii) []
        ((flush e1)\<lparr>bytes_after_last_accept := n_bytes (flush e1), undumped_chars := 0, utf8_state := 0\<rparr>)"
      using midway_flush_reset [of e1 ascii] by simp
    moreover have "undumped_chars e > 0 \<longleftrightarrow> w \<noteq> []" using assms(1) by (simp add: midway_def)
    ultimately show ?thesis using replace assms(2) e1(1)
      by (simp add: escape_step_def case_prod_unfold Let_def escape_reject_def replacement_def split del: if_split)
  next
    case ignore
    with assms show ?thesis
      by (auto simp: escape_step_def case_prod_unfold Let_def escape_reject_def replacement_def midway_def written_def accepted_def decodes_Nil)
  qed (use h in simp)
qed

subsection \<open>One sequence\<close>

text \<open>How many bytes match the expected ranges.\<close>

fun matching :: "(nat \<times> nat) list \<Rightarrow> octets \<Rightarrow> nat" where
  "matching [] bs = 0"
| "matching (r # rs) [] = 0"
| "matching (r # rs) (b # bs) = (if fst r \<le> b \<and> b \<le> snd r then Suc (matching rs bs) else 0)"

lemma matching_le: "matching rs bs \<le> length rs" "matching rs bs \<le> length bs"
  by (induction rs bs rule: matching.induct) auto

lemma matching_full: "matching rs bs = length rs \<longleftrightarrow> in_ranges rs bs"
  by (induction rs bs rule: matching.induct) auto

lemma matching_stop:
  "matching rs bs < length rs \<Longrightarrow> matching rs bs < length bs \<Longrightarrow>
     \<not> (fst (rs ! matching rs bs) \<le> bs ! matching rs bs \<and> bs ! matching rs bs \<le> snd (rs ! matching rs bs))"
  by (induction rs bs rule: matching.induct) auto

lemma escape_loop_step:
  "escape_step h ascii (length p) c e = Inr (False, e') \<Longrightarrow>
     escape_loop h ascii (p @ c # q) (length p) e = escape_loop h ascii (p @ c # q) (length (p @ [c])) e'"
  by (subst escape_loop.simps) simp

lemma unfinished_state: "state_ranges st = Some rs \<Longrightarrow> rs \<noteq> [] \<Longrightarrow> st \<notin> {0, 1}"
  by (auto simp: state_ranges_def split: if_splits)

lemma escape_more:
  assumes "midway ascii txt w e" "state_ranges (utf8_state e) = Some rs" "k \<le> matching rs (octets_of q)" "k < length rs"
    "length w + k \<le> 3"
  shows "\<exists>e1. escape_loop h ascii (p @ q) (length p) e = escape_loop h ascii (p @ q) (length p + k) e1 \<and>
    midway ascii txt (w @ take k q) e1 \<and> state_ranges (utf8_state e1) = Some (drop k rs)"
  using assms
proof (induction k arbitrary: w e rs p q)
  case (Suc k)
  obtain lo hi rs1 where rs: "rs = (lo, hi) # rs1" using Suc.prems(4) by (cases rs) auto
  obtain c q1 where q: "q = c # q1" using Suc.prems(3) rs by (cases q) auto
  have c: "lo \<le> byte_val c" "byte_val c \<le> hi" "k \<le> matching rs1 (octets_of q1)"
    using Suc.prems(3) rs q by (auto split: if_splits)
  let ?st = "fst (decode (utf8_state e) (codepoint e) (byte_val c))"
  have st: "state_ranges ?st = Some rs1" using decode_follow [of "byte_val c" "utf8_state e" lo hi rs1] Suc.prems(2) rs c by simp
  moreover have "rs1 \<noteq> []" using Suc.prems(4) rs by auto
  ultimately have "?st \<notin> {0, 1}" by (rule unfinished_state)
  with escape_step_more [OF Suc.prems(1), of c] Suc.prems(5) obtain e' where
    e': "escape_step h ascii (length p) c e = Inr (False, e')" "midway ascii txt (w @ [c]) e'" "utf8_state e' = ?st" by auto
  from Suc.IH [OF e'(2), of rs1 q1 "p @ [c]"] st e'(3) c Suc.prems(4,5) rs obtain e1 where
    "escape_loop h ascii (p @ q) (length (p @ [c])) e' = escape_loop h ascii (p @ q) (length p + Suc k) e1"
    "midway ascii txt (w @ take (Suc k) q) e1" "state_ranges (utf8_state e1) = Some (drop (Suc k) rs)"
    unfolding q by auto
  with escape_loop_step [OF e'(1), of q1] q show ?case by auto
qed auto

lemma escape_lead:
  assumes "midway ascii txt [] e" "follow_ranges (byte_val c) = Some rs" "rs \<noteq> []"
  shows "\<exists>e'. escape_loop h ascii (p @ c # q) (length p) e = escape_loop h ascii (p @ c # q) (length (p @ [c])) e' \<and>
    midway ascii txt [c] e' \<and> state_ranges (utf8_state e') = Some rs"
proof -
  let ?st = "fst (decode (utf8_state e) (codepoint e) (byte_val c))"
  have "utf8_state e = 0" using assms(1) by (auto simp: midway_def decodes_def)
  then have st: "state_ranges ?st = Some rs" using decode_lead [of "byte_val c"] assms(2) by simp
  from unfinished_state [OF this assms(3)] have "?st \<notin> {0, 1}" .
  with escape_step_more [OF assms(1), of c] obtain e' where
    "escape_step h ascii (length p) c e = Inr (False, e')" "midway ascii txt [c] e'" "utf8_state e' = ?st" by auto
  with escape_loop_step [of h ascii p c e e' q] st show ?thesis by auto
qed

lemma follow_ranges_length: "follow_ranges b = Some rs \<Longrightarrow> length rs \<le> 3"
  by (auto simp: follow_ranges_def split: if_splits)

lemma escape_well_formed:
  assumes "midway ascii txt [] e" "well_formed (octets_of v)"
  shows "\<exists>e' t. escape_loop h ascii (p @ v @ q) (length p) e = escape_loop h ascii (p @ v @ q) (length (p @ v)) e' \<and>
    midway ascii (txt @ t) [] e' \<and> string_char (octets_of t) (octets_of v)"
proof -
  obtain c u rs where v: "v = c # u" "follow_ranges (byte_val c) = Some rs" "length rs = length u" "in_ranges rs (octets_of u)"
    using assms(2) by (cases v) (auto simp: well_formed_def split: option.splits)
  show ?thesis
  proof (cases "u = []")
    case True
    with escape_step_accept [OF assms(1), of c h "length p"] assms(2) v(1) obtain e' t where
      "escape_step h ascii (length p) c e = Inr (False, e')" "midway ascii (txt @ t) [] e'"
      "string_char (octets_of t) (octets_of [c])" by auto
    with escape_loop_step [of h ascii p c e e' q] v(1) True show ?thesis by auto
  next
    case False
    then obtain u1 d where u: "u = u1 @ [d]" by (cases u rule: rev_cases) auto
    have "rs \<noteq> []" using False v(3) by auto
    from escape_lead [OF assms(1) v(2) this, of h p "u @ q"] obtain e1 where
      e1: "escape_loop h ascii (p @ v @ q) (length p) e = escape_loop h ascii (p @ v @ q) (length (p @ [c])) e1"
        "midway ascii txt [c] e1" "state_ranges (utf8_state e1) = Some rs" using v(1) by auto
    have "matching rs (octets_of (u @ q)) = length rs" using v(4) by (simp add: matching_full in_ranges_append)
    with escape_more [OF e1(2,3), of "length u1" "u @ q" h "p @ [c]"] v(3) u follow_ranges_length [OF v(2)] obtain e2 where
      e2: "escape_loop h ascii (p @ v @ q) (length (p @ [c])) e1 = escape_loop h ascii (p @ v @ q) (length (p @ c # u1)) e2"
        "midway ascii txt (c # u1) e2" using v(1) by auto
    from escape_step_accept [OF e2(2), of d h "length (p @ c # u1)"] assms(2) v(1) u obtain e' t where
      e': "escape_step h ascii (length (p @ c # u1)) d e2 = Inr (False, e')" "midway ascii (txt @ t) [] e'"
        "string_char (octets_of t) (octets_of v)" by auto
    with escape_loop_step [OF e'(1), of q] e1(1) e2(1) v(1) u show ?thesis by auto
  qed
qed

lemma escape_reject_lead:
  assumes "midway ascii txt [] e" "follow_ranges (byte_val c) = None"
  shows "fst (decode (utf8_state e) (codepoint e) (byte_val c)) = 1"
proof -
  have "utf8_state e = 0" using assms(1) by (auto simp: midway_def decodes_def)
  then show ?thesis using decode_lead [of "byte_val c" "codepoint e"] assms(2) decode_range [of "byte_val c" 0]
      state_ranges_None [of "fst (decode 0 (codepoint e) (byte_val c))"] by simp
qed

lemma decodes_range: "decodes (octets_of w) st cp \<Longrightarrow> st \<le> 8"
proof (induction w arbitrary: st cp rule: rev_induct)
  case (snoc c w)
  then obtain cp0 where "(st, cp) = foldl (\<lambda>(st, cp) b. decode st cp b) (0, cp0) (octets_of (w @ [c]))" by (auto simp: decodes_def)
  moreover obtain st1 cp1 where "foldl (\<lambda>(st, cp) b. decode st cp b) (0, cp0) (octets_of w) = (st1, cp1)" by fastforce
  moreover from this have "st1 \<le> 8" using snoc.IH [of st1 cp1] unfolding decodes_def by metis
  ultimately show ?case using decode_range [of "byte_val c" st1 cp1] by (metis byte_val_less fst_conv foldl_append foldl.simps octets_of_simps(1-3) case_prod_conv)
qed (simp add: decodes_def)

lemma escape_reject_follow:
  assumes "midway ascii txt w e" "state_ranges (utf8_state e) = Some (r # rs)" "\<not> (fst r \<le> byte_val c \<and> byte_val c \<le> snd r)"
  shows "fst (decode (utf8_state e) (codepoint e) (byte_val c)) = 1"
proof -
  have "utf8_state e \<le> 8" using assms(1) decodes_range by (auto simp: midway_def)
  then have "fst (decode (utf8_state e) (codepoint e) (byte_val c)) \<le> 8" by (simp add: decode_range)
  moreover have "state_ranges (fst (decode (utf8_state e) (codepoint e) (byte_val c))) = None"
    using decode_follow [of "byte_val c" "utf8_state e" "fst r" "snd r" rs] assms(2,3) by simp
  ultimately show ?thesis by (simp add: state_ranges_None)
qed

text \<open>The length of the ill-formed part at the start of a text, 0 if a well-formed sequence stands there.\<close>

definition ill_formed_prefix :: "octets \<Rightarrow> nat" where
  "ill_formed_prefix s =
     (case s of
        [] \<Rightarrow> 0
      | b # bs \<Rightarrow>
          (case follow_ranges b of
             None \<Rightarrow> 1
           | Some rs \<Rightarrow> if in_ranges rs bs then 0 else 1 + matching rs bs))"

lemma escape_ill_formed:
  assumes "midway ascii txt [] e" "ill_formed_prefix (octets_of q) = k" "0 < k"
  shows "(\<exists>m. h = strict \<and> escape_loop h ascii (p @ q) (length p) e = Inl (Json_exception 316 m)) \<or>
    (\<exists>e'. h \<noteq> strict \<and> escape_loop h ascii (p @ q) (length p) e = escape_loop h ascii (p @ q) (length p + k) e' \<and>
       midway ascii (txt @ replacement h ascii) [] e') \<or>
    (\<exists>e' w. k = length q \<and> escape_loop h ascii (p @ q) (length p) e = Inr e' \<and> midway ascii txt w e' \<and> utf8_state e' \<noteq> 0)"
  (is "?strict \<or> ?skip \<or> ?end")
proof -
  obtain c u where q: "q = c # u" using assms(2,3) by (cases q) (auto simp: ill_formed_prefix_def)
  show ?thesis
  proof (cases "follow_ranges (byte_val c)")
    case None
    then have k: "k = 1" using assms(2) q by (simp add: ill_formed_prefix_def)
    note rej = escape_step_reject [OF assms(1) escape_reject_lead [OF assms(1) None], of h "length p"]
    show ?thesis
    proof (cases "h = strict")
      case True
      with rej(1) q show ?thesis by (auto simp: escape_loop.simps [of strict ascii "p @ c # u" "length p" e])
    next
      case False
      with rej(2) escape_loop_step [of h ascii p c e _ u] q k show ?thesis by fastforce
    qed
  next
    case (Some rs)
    let ?k = "matching rs (octets_of u)"
    have k: "k = 1 + ?k" "?k < length rs" using assms(2,3) q Some matching_le(1) [of rs "octets_of u"] matching_full [of rs "octets_of u"]
      by (auto simp: ill_formed_prefix_def split: if_splits)
    then have "rs \<noteq> []" by auto
    from escape_lead [OF assms(1) Some this, of h p u] obtain e1 where
      e1: "escape_loop h ascii (p @ q) (length p) e = escape_loop h ascii (p @ q) (length (p @ [c])) e1"
        "midway ascii txt [c] e1" "state_ranges (utf8_state e1) = Some rs" using q by auto
    from escape_more [OF e1(2,3), of ?k u h "p @ [c]"] k(2) follow_ranges_length [OF Some] q obtain e2 where
      e2: "escape_loop h ascii (p @ q) (length (p @ [c])) e1 = escape_loop h ascii (p @ q) (length p + k) e2"
        "midway ascii txt (c # take ?k u) e2" "state_ranges (utf8_state e2) = Some (drop ?k rs)" using k(1) by auto
    show ?thesis
    proof (cases "?k < length u")
      case False
      then have "k = length q" using q k(1) matching_le(2) [of rs "octets_of u"] by simp
      moreover have "escape_loop h ascii (p @ q) (length p + k) e2 = Inr e2" using calculation by (simp add: escape_loop.simps)
      moreover have "utf8_state e2 \<noteq> 0" using e2(3) k(2) unfinished_state by fastforce
      ultimately show ?thesis using e1(1) e2 by auto
    next
      case True
      have "drop ?k rs = rs ! ?k # drop (Suc ?k) rs" using k(2) by (simp add: Cons_nth_drop_Suc)
      with e2(3) have "state_ranges (utf8_state e2) = Some (rs ! ?k # drop (Suc ?k) rs)" by simp
      moreover have "\<not> (fst (rs ! ?k) \<le> byte_val (u ! ?k) \<and> byte_val (u ! ?k) \<le> snd (rs ! ?k))"
        using matching_stop [OF k(2)] True by (simp add: octets_of_def)
      ultimately have "fst (decode (utf8_state e2) (codepoint e2) (byte_val (u ! ?k))) = 1"
        by (rule escape_reject_follow [OF e2(2)])
      note rej = escape_step_reject [OF e2(2) this, of h "length p + k"]
      have "(p @ q) ! (length p + k) = u ! ?k" "length p + k < length (p @ q)" using q k True by (auto simp: nth_append)
      with rej e1(1) e2(1) show ?thesis
        by (cases "h = strict") (auto simp: escape_loop.simps [of strict ascii "p @ q" "length p + k" e2] escape_loop.simps [of h ascii "p @ q" "length p + k" e2])
    qed
  qed
qed

subsection \<open>Strings\<close>

text \<open>Every maximal ill-formed part is replaced by \<open>r\<close>.\<close>

function repair :: "octets \<Rightarrow> octets \<Rightarrow> octets" where
  "repair r [] = []"
| "repair r (b # bs) =
     (case follow_ranges b of
        None \<Rightarrow> r @ repair r bs
      | Some rs \<Rightarrow>
          if in_ranges rs bs then b # take (length rs) bs @ repair r (drop (length rs) bs)
          else r @ repair r (drop (matching rs bs) bs))"
  by pat_completeness auto
termination by (relation "measure (\<lambda>(r, s). length s)") auto

lemma repair_well_formed: "well_formed w \<Longrightarrow> repair r (w @ s) = w @ repair r s"
  by (auto simp: well_formed_def in_ranges_append split: list.splits option.splits)

lemma repair_ill_formed: "0 < ill_formed_prefix s \<Longrightarrow> repair r s = r @ repair r (drop (ill_formed_prefix s) s)"
  by (cases s) (auto simp: ill_formed_prefix_def split: option.splits if_splits)

lemma ill_formed_invalid: "0 < ill_formed_prefix s \<Longrightarrow> \<not> utf8_valid s"
  by (cases s) (auto simp: ill_formed_prefix_def split: option.splits if_splits)

lemma ill_formed_prefix_le: "ill_formed_prefix s \<le> length s"
  using matching_le(2) by (cases s) (auto simp: ill_formed_prefix_def split: option.splits)

lemma not_ill_formed:
  assumes "ill_formed_prefix s = 0" "s \<noteq> []"
  obtains w r where "s = w @ r" "well_formed w"
proof -
  obtain b bs rs where s: "s = b # bs" "follow_ranges b = Some rs" "in_ranges rs bs"
    using assms by (cases s) (auto simp: ill_formed_prefix_def split: option.splits if_splits)
  then have "well_formed (b # take (length rs) bs)" using in_ranges_length by (simp add: well_formed_def in_ranges_take)
  with s show thesis by (intro that [of "b # take (length rs) bs" "drop (length rs) bs"]) simp_all
qed

lemma repair_valid: "utf8_valid s \<Longrightarrow> repair r s = s"
  by (induction rule: utf8_valid_induct) (simp_all add: repair_well_formed)

definition replacement_text :: "error_handler_t \<Rightarrow> octets" where
  "replacement_text h = (if h = replace then utf8_encode 0xFFFD else [])"

lemma string_chars_append: "string_chars a x \<Longrightarrow> string_chars b y \<Longrightarrow> string_chars (a @ b) (x @ y)"
  by (induction rule: string_chars.induct) (auto dest: string_chars.Cons)

lemma string_chars_single: "string_char a x \<Longrightarrow> string_chars a x"
  using string_chars.Cons [OF _ string_chars.Nil] by simp

lemma string_chars_replacement: "string_chars (octets_of (replacement h ascii)) (replacement_text h)"
proof (cases "h = replace")
  case True
  have "utf8_encode 0xFFFD = [0xEF, 0xBF, 0xBD]" by (simp add: utf8_encode_def)
  moreover have "string_char [0xEF, 0xBF, 0xBD] [0xEF, 0xBF, 0xBD]" by (intro plain) (simp_all add: well_formed_def follow_ranges_def)
  moreover have "string_char (0x5C # 0x75 # [0x66, 0x66, 0x66, 0x64]) (utf8_encode 0xFFFD)"
    by (intro unicode) (simp_all add: hex4_def hex_value_def scalar_value_def)
  ultimately show ?thesis using True
    by (auto simp: replacement_def replacement_text_def byte_val_def dest: string_chars_single)
qed (simp add: replacement_def replacement_text_def string_chars.Nil)

definition escapes :: "error_handler_t \<Rightarrow> bytes \<Rightarrow> octets \<Rightarrow> bytes res \<Rightarrow> bool" where
  "escapes h txt x r \<longleftrightarrow>
     (if h = strict \<and> \<not> utf8_valid x then \<exists>m. r = Inl (Json_exception 316 m)
      else \<exists>t. r = Inr (txt @ t) \<and> string_chars (octets_of t) (repair (replacement_text h) x))"

lemma escapes_append:
  assumes "escapes h (txt @ t) y r" "string_chars (octets_of t) x"
    "repair (replacement_text h) z = x @ repair (replacement_text h) y" "h = strict \<Longrightarrow> utf8_valid z \<longleftrightarrow> utf8_valid y"
  shows "escapes h txt z r"
  using assms by (auto simp: escapes_def dest: string_chars_append [OF assms(2)] split: if_splits)

lemma escape_finish_incomplete:
  assumes "midway ascii txt w e" "utf8_state e \<noteq> 0"
  shows "escape_finish h ascii s e =
    (if h = strict then Inl (type_error_create 316 (''incomplete UTF-8 string; last byte: 0x'' @ hex_byte (byte_val (last s))))
     else Inr (txt @ replacement h ascii))"
  using assms by (cases h) (auto simp: escape_finish_def midway_def accepted_def replacement_def)

lemma escape_loop_escapes:
  "midway ascii txt [] e \<Longrightarrow>
     escapes h txt (octets_of q) (bind_res (escape_loop h ascii (p @ q) (length p) e) (escape_finish h ascii (p @ q)))"
proof (induction "length q" arbitrary: p q "txt" e rule: less_induct)
  case less
  let ?r = "\<lambda>e i. bind_res (escape_loop h ascii (p @ q) i e) (escape_finish h ascii (p @ q))"
  let ?k = "ill_formed_prefix (octets_of q)"
  consider "q = []" | "q \<noteq> []" "?k = 0" | "0 < ?k" by blast
  then show ?case
  proof cases
    case 1
    have "?r e (length p) = Inr (txt @ [])"
      using 1 less.prems by (simp add: escape_loop.simps escape_finish_def midway_def accepted_def decodes_def)
    with 1 string_chars.Nil show ?thesis unfolding escapes_def by force
  next
    case 2
    have "octets_of q \<noteq> []" using 2(1) by (simp add: octets_of_def)
    then obtain w r where wr: "octets_of q = w @ r" "well_formed w" using not_ill_formed [OF 2(2)] by blast
    define v u where "v = take (length w) q" and "u = drop (length w) q"
    have q: "q = v @ u" "octets_of v = w" "octets_of u = r"
      using wr(1) by (auto simp: v_def u_def octets_of_def simp flip: take_map drop_map)
    have "w \<noteq> []" using wr(2) by (auto simp: well_formed_def)
    then have less: "length u < length q" using 2(1) by (auto simp: u_def)
    from escape_well_formed [OF less.prems, of v h p u] wr(2) q obtain e' t where
      e': "?r e (length p) = ?r e' (length (p @ v))" "midway ascii (txt @ t) [] e'" "string_char (octets_of t) w" by auto
    from less.hyps [OF less e'(2), of "p @ v"] have "escapes h (txt @ t) r (?r e (length p))" using e'(1) q by simp
    from escapes_append [OF this string_chars_single [OF e'(3)]] show ?thesis using wr by (simp add: repair_well_formed)
  next
    case 3
    have bad: "\<not> utf8_valid (octets_of q)" using ill_formed_invalid [OF 3] .
    note rep = repair_ill_formed [OF 3, of "replacement_text h"]
    from escape_ill_formed [OF less.prems refl 3, of h p] consider
      (strict) m where "h = strict" "?r e (length p) = Inl (Json_exception 316 m)"
      | (skip) e' where "h \<noteq> strict" "?r e (length p) = ?r e' (length p + ?k)" "midway ascii (txt @ replacement h ascii) [] e'"
      | (incomplete) e' w where "?k = length q" "?r e (length p) = escape_finish h ascii (p @ q) e'" "midway ascii txt w e'" "utf8_state e' \<noteq> 0"
      by force
    then show ?thesis
    proof cases
      case strict
      with bad show ?thesis by (simp add: escapes_def)
    next
      case skip
      have "0 < length q" using 3 by (cases q) (auto simp: ill_formed_prefix_def)
      then have "length (drop ?k q) < length q" using 3 by simp
      moreover have "length p + ?k = length (p @ take ?k q)" using ill_formed_prefix_le [of "octets_of q"] by simp
      ultimately have "escapes h (txt @ replacement h ascii) (octets_of (drop ?k q)) (?r e (length p))"
        using less.hyps [of "drop ?k q", OF _ skip(3), of "p @ take ?k q"] skip(2) by simp
      from escapes_append [OF this string_chars_replacement] rep skip(1) show ?thesis by (simp add: octets_of_def drop_map)
    next
      case incomplete
      then show ?thesis using bad rep string_chars_replacement [of h ascii]
        by (auto simp: escapes_def escape_finish_incomplete [OF incomplete(3,4)] type_error_create_def)
    qed
  qed
qed

lemma dump_escaped_escapes: "escapes h t (octets_of s) (dump_escaped h ascii s t)"
  using escape_loop_escapes [OF midway_new, of h t s ascii "[]"] by (simp add: dump_escaped_def)

lemma dump_escaped_valid:
  "utf8_valid (octets_of s) \<Longrightarrow> \<exists>a. dump_escaped h ascii s t = Inr (t @ a) \<and> string_chars (octets_of a) (octets_of s)"
  using dump_escaped_escapes [of h t s ascii] by (simp add: escapes_def repair_valid)

text \<open>
  C38: the escaping of strings, for every string of bytes, handler and option: no write leaves the buffer of 512
  bytes. The strict handler raises the error 316 exactly when the string is not UTF-8. Otherwise what is appended
  spells, as characters of a JSON string, the given string with each maximal ill-formed part left out or
  replaced by the encoding of U+FFFD; on UTF-8 that is the string itself.
\<close>

theorem dump_escaped_correct:
  "(if handler = strict \<and> \<not> utf8_valid (octets_of s)
    then \<exists>m. dump_escaped handler ascii s t = Inl (Json_exception 316 m)
    else \<exists>a. dump_escaped handler ascii s t = Inr (t @ a) \<and>
      string_chars (octets_of a) (if utf8_valid (octets_of s) then octets_of s else repair (replacement_text handler) (octets_of s)))"
  using dump_escaped_escapes [of handler t s ascii] by (auto simp: escapes_def repair_valid)

end
