(* ===== verification/Json_Roundtrip.thy ===== *)
theory Json_Roundtrip
  imports Json_Dump_Integers Json_Escape
begin

text \<open>
  The serializer and the parser of the JSON library together: the text that \<^verbatim>\<open>dump\<close> writes for a value, with
  or without indentation and with or without escapes for non-ASCII characters, is a JSON text for that value,
  so \<^verbatim>\<open>parse\<close> returns the value; and where the indentation string is too short.
\<close>

subsection \<open>Texts for tokens\<close>

definition spells :: "'f float_ops \<Rightarrow> char \<Rightarrow> 'f tok list \<Rightarrow> octets \<Rightarrow> bool" where
  "spells fl dp ts bs \<longleftrightarrow> (\<forall>ts' r. lexed fl dp ts' r \<longrightarrow> lexed fl dp (ts @ ts') (bs @ r))"

lemma spells_append: "spells fl dp ts bs \<Longrightarrow> spells fl dp ts' bs' \<Longrightarrow> spells fl dp (ts @ ts') (bs @ bs')"
  by (simp add: spells_def)

lemma spells_lexeme: "lexeme fl dp bs k \<Longrightarrow> spells fl dp [k] bs"
  using more [of "[]"] by (auto simp: spells_def)

lemma lexed_spaces: "lexed fl dp ts r \<Longrightarrow> list_all space_octet ws \<Longrightarrow> lexed fl dp ts (ws @ r)"
proof (induction rule: lexed.induct)
  case (finish ws' r)
  then show ?case using lexed.finish [of "ws @ ws'" r] by simp
next
  case (more ws' bs k ts r)
  then show ?case using lexed.more [of "ws @ ws'" fl dp bs k ts r] by simp
qed

lemma spells_spaces: "list_all space_octet ws \<Longrightarrow> spells fl dp [] ws"
  by (simp add: spells_def lexed_spaces)

lemma spells_lexed: "spells fl dp ts bs \<Longrightarrow> lexed fl dp ts bs"
  using finish [of "[]" "[]"] by (fastforce simp: spells_def)

lemma spells_punct: "(b, k) \<in> set punctuation \<Longrightarrow> spells fl dp [k] [b]"
  by (intro spells_lexeme punct)

subsection \<open>Numbers\<close>

lemma octets_digits: "list_all digit_octet (octets_of (to_string n))"
  using to_string_digits [of _ n] by (auto simp: list_all_iff octets_of_def digit_octet_def isdigit_def)

lemma to_string_head: "0 < n \<Longrightarrow> byte_val (hd (to_string n)) \<noteq> 0x30"
proof (induction n rule: to_string.induct)
  case (1 n)
  show ?case
  proof (cases "n < 10")
    case True
    with 1 show ?thesis by (simp add: to_string.simps [of n] byte_val_def of_char_of)
  next
    case False
    with 1 show ?thesis by (simp add: to_string.simps [of n] hd_append)
  qed
qed

lemma json_int_to_string: "json_int (octets_of (to_string n))"
proof (cases "n = 0")
  case True
  then show ?thesis by (simp add: json_int_def to_string.simps byte_val_def of_char_of)
next
  case False
  then have "hd (octets_of (to_string n)) \<noteq> 0x30" using to_string_head [of n] by (simp add: octets_of_def hd_map)
  then show ?thesis using octets_digits [of n] by (simp add: json_int_def json_digits_def octets_of_def)
qed

lemma json_intI: "m \<in> {[], [0x2D]} \<Longrightarrow> json_int i \<Longrightarrow> json_number (m @ i)"
  by (force simp: json_number_def json_frac_def json_exp_def)

lemma localized_digits: "list_all digit_octet (octets_of s) \<Longrightarrow> map (char_of \<circ> localized dp) (octets_of s) = s"
  by (induction s) (auto simp: digit_octet_def byte_val_def)

lemma digits_kind: "list_all digit_octet bs \<Longrightarrow> \<not> list_ex (\<lambda>b. b = 0x2E \<or> b = 0x65 \<or> b = 0x45) bs"
  by (induction bs) (auto simp: digit_octet_def)

lemma lexeme_unsigned: "n < 2 ^ 64 \<Longrightarrow> lexeme fl dp (octets_of (to_string n)) (TUnsigned n)"
proof -
  assume n: "n < 2 ^ 64"
  let ?b = "octets_of (to_string n)"
  have "json_number ?b" using json_intI [of "[]", OF _ json_int_to_string [of n]] by simp
  moreover have "?b \<noteq> []" by (simp add: octets_of_def)
  then have "hd ?b \<noteq> 0x2D" using octets_digits [of n] by (cases ?b) (auto simp: digit_octet_def)
  then have "number_tok fl dp ?b = TUnsigned n"
    using n digits_kind [OF octets_digits] localized_digits [OF octets_digits]
    by (simp add: number_tok_def number_type_def)
  ultimately show ?thesis using number [of ?b fl dp] by simp
qed

lemma lexeme_negative: "0 < n \<Longrightarrow> n \<le> 2 ^ 63 \<Longrightarrow> lexeme fl dp (octets_of (''-'' @ to_string n)) (TInteger (- int n))"
proof -
  assume n: "0 < n" "n \<le> 2 ^ 63"
  let ?b = "octets_of (''-'' @ to_string n)"
  have b: "?b = [0x2D] @ octets_of (to_string n)" by (simp add: byte_val_def)
  then have "json_number ?b" using json_intI [of "[0x2D]", OF _ json_int_to_string [of n]] by simp
  moreover have "number_tok fl dp ?b = TInteger (- int n)"
    using n b digits_kind [OF octets_digits [of n]] localized_digits [OF octets_digits, of dp n]
    by (simp add: number_tok_def number_type_def)
  ultimately show ?thesis using number [of ?b fl dp] by simp
qed

subsection \<open>Values that survive\<close>

text \<open>
  What a value needs to be read back as it is, beyond being well-formed: an integer is stored as unsigned
  unless it is negative, the smallest one cannot be written, and the digits of a floating-point number are a
  number of JSON that is read as that value.
\<close>

fun readable :: "'f float_ops \<Rightarrow> char \<Rightarrow> 'f json \<Rightarrow> bool" where
  "readable fl dp (JObject m) \<longleftrightarrow> (\<forall>kv \<in> set m. readable fl dp (snd kv))"
| "readable fl dp (JArray js) \<longleftrightarrow> (\<forall>j \<in> set js. readable fl dp j)"
| "readable fl dp (JInteger i) \<longleftrightarrow> - (2 ^ 63) < i \<and> i < 0"
| "readable fl dp (JFloat f) \<longleftrightarrow>
     json_number (octets_of (float_to_chars fl f)) \<and> number_tok fl dp (octets_of (float_to_chars fl f)) = TFloat f"
| "readable fl dp j \<longleftrightarrow> True"

lemma members_id: "object_ok m \<Longrightarrow> members m = m"
proof (induction m rule: rev_induct)
  case (snoc kv m)
  obtain k v where kv: "kv = (k, v)" by fastforce
  have lt: "a < k" if "a \<in> fst ` set m" for a
    using snoc.prems that kv by (auto simp: object_ok_def sorted_wrt_append)
  have "members m = m" using snoc by (simp add: object_ok_def sorted_wrt_append)
  moreover have "map (\<lambda>(a, w). (a, if a = k then v else w)) m = m"
    by (rule map_idI) (use lt in \<open>force split: prod.splits\<close>)
  ultimately show ?case using object_index_last [of m k] lt by (simp add: kv members_snoc object_set_def)
qed (simp add: members_def)

subsection \<open>Scalars\<close>

text \<open>
  \<open>prints s ts s'\<close>: what was appended to the output spells the tokens \<open>ts\<close>; the indentation string only grew
  and consists of white space.
\<close>

definition indent_ok :: "nat \<Rightarrow> serializer \<Rightarrow> bool" where
  "indent_ok i s \<longleftrightarrow>
     512 \<le> length (indent_string s) \<and> i \<le> length (indent_string s) \<and> list_all space_octet (octets_of (indent_string s))"

definition prints :: "'f float_ops \<Rightarrow> char \<Rightarrow> serializer \<Rightarrow> 'f tok list \<Rightarrow> serializer \<Rightarrow> bool" where
  "prints fl dp s ts s' \<longleftrightarrow>
     (\<exists>a. o_text s' = o_text s @ a \<and> spells fl dp ts (octets_of a)) \<and> (\<forall>i. indent_ok i s \<longrightarrow> indent_ok i s')"

lemma prints_trans: "prints fl dp s ts s1 \<Longrightarrow> prints fl dp s1 us s2 \<Longrightarrow> prints fl dp s (ts @ us) s2"
  by (auto simp: prints_def dest: spells_append)

lemma prints_indent: "prints fl dp s ts s' \<Longrightarrow> indent_ok i s \<Longrightarrow> indent_ok i s'"
  by (simp add: prints_def)

lemma prints_characters: "spells fl dp ts (octets_of t) \<Longrightarrow> prints fl dp s ts (write_characters t s)"
  by (simp add: prints_def write_characters_def indent_ok_def)

lemma prints_indentation: "indent_ok i s \<Longrightarrow> \<exists>s'. write_indent i s = Inr s' \<and> prints fl dp s [] s'"
  by (auto simp: write_indent_def indent_ok_def octets_of_def list_all_iff intro!: prints_characters spells_spaces dest!: in_set_takeD)

lemma prints_grow: "prints fl dp s [] (grow_indent n s)"
  by (auto simp: prints_def grow_indent_def indent_ok_def octets_of_def list_all_iff space_octet_def byte_val_def intro!: spells_spaces)

lemma grow_indent_ok: "indent_ok i s \<Longrightarrow> k \<le> 512 \<Longrightarrow> indent_ok (uint32_add i k) (grow_indent (uint32_add i k) s)"
proof -
  assume i: "indent_ok i s" "k \<le> 512"
  have "uint32_add i k \<le> i + k" by (simp add: uint32_add_def)
  with i show ?thesis by (auto simp: grow_indent_def indent_ok_def octets_of_def list_all_iff space_octet_def byte_val_def)
qed

lemma prints_string:
  assumes "utf8_valid (octets_of t)" "spells fl dp ts (octets_of u)"
  shows "\<exists>s'. write_escaped p t (write_characters [CHR 0x22] s) = Inr s' \<and>
    prints fl dp s (TString t # ts) (write_characters ([CHR 0x22] @ u) s')"
proof -
  let ?s = "write_characters [CHR 0x22] s"
  obtain a where a: "dump_escaped (error_handler p) (ensure_ascii p) t (o_text ?s) = Inr (o_text ?s @ a)"
    "string_chars (octets_of a) (octets_of t)" using dump_escaped_valid [OF assms(1)] by blast
  let ?s' = "?s\<lparr>o_text := o_text ?s @ a\<rparr>"
  have "write_escaped p t ?s = Inr ?s'" using a(1) by (simp add: write_escaped_def)
  moreover have "spells fl dp ([TString t] @ ts) ((0x22 # octets_of a @ [0x22]) @ octets_of u)"
    by (intro spells_append spells_lexeme string a(2) assms(2))
  then have "prints fl dp s (TString t # ts) (write_characters ([CHR 0x22] @ u) ?s')"
    unfolding prints_def by (intro conjI exI [of _ "[CHR 0x22] @ a @ [CHR 0x22] @ u"])
      (auto simp: write_characters_def indent_ok_def byte_val_def)
  ultimately show ?thesis by blast
qed

lemma prints_scalar:
  assumes "json_wf fl j" "readable fl dp j" "\<And>m. j \<noteq> JObject m" "\<And>js. j \<noteq> JArray js"
  shows "\<exists>t s'. dump_scalar fl p j s = Inr s' \<and> prints fl dp s [t] s' \<and> scalar_json fl t = Some j"
proof -
  have chars: "prints fl dp s [t] (s\<lparr>o_text := o_text s @ a\<rparr>)" if "lexeme fl dp (octets_of a) t" for t a
    using prints_characters [OF spells_lexeme [OF that], of s] by (simp add: write_characters_def)
  have lit: "prints fl dp s [t] (write_characters a s)" if "(octets_of a, t) \<in> set literals" for t a
    by (intro prints_characters spells_lexeme literal that)
  show ?thesis
  proof (cases j)
    case (JString u)
    with assms(1) prints_string [of u fl dp "[]" "[]" p s] show ?thesis
      by (intro exI [of _ "TString u"]) (auto simp: dump_scalar_def scalar_json_def spells_spaces)
  next
    case (JInteger i)
    then have i: "- (2 ^ 63) < i" "i < 0" using assms(2) by simp_all
    then have "dump_integer i (o_text s) = Inr (o_text s @ ''-'' @ to_string (nat (- i)))" using dump_integer_eq [of i] by simp
    moreover have "lexeme fl dp (octets_of (''-'' @ to_string (nat (- i)))) (TInteger i)"
      using lexeme_negative [of "nat (- i)" fl dp] i by simp
    ultimately show ?thesis using JInteger chars by (fastforce simp: dump_scalar_def scalar_json_def)
  next
    case (JUnsigned n)
    then have n: "n < 2 ^ 64" using assms(1) by simp
    then have "dump_integer (int n) (o_text s) = Inr (o_text s @ to_string n)" using dump_integer_eq [of "int n"] by simp
    with lexeme_unsigned [OF n, of fl dp] show ?thesis using JUnsigned chars by (fastforce simp: dump_scalar_def scalar_json_def)
  next
    case (JFloat f)
    then have "lexeme fl dp (octets_of (float_to_chars fl f)) (TFloat f)"
      using assms(2) number [of "octets_of (float_to_chars fl f)" fl dp] by simp
    with JFloat assms(1) chars show ?thesis by (fastforce simp: dump_scalar_def scalar_json_def dump_float_def)
  next
    case JNull
    with lit [of "''null''" TNull] show ?thesis by (auto simp: dump_scalar_def scalar_json_def literals_def)
  next
    case (JBoolean b)
    with lit [of "''true''" TTrue] lit [of "''false''" TFalse] show ?thesis
      by (cases b) (auto simp: dump_scalar_def scalar_json_def literals_def)
  qed (use assms in auto)
qed

subsection \<open>Arrays and objects\<close>

definition spelled_member :: "'f float_ops \<Rightarrow> 'f tok list \<Rightarrow> bytes \<times> 'f json \<Rightarrow> bool" where
  "spelled_member fl ts kv \<longleftrightarrow> (\<exists>vs. ts = TString (fst kv) # TColon # vs \<and> json_text fl vs (snd kv))"

definition dumps_value :: "'f float_ops \<Rightarrow> char \<Rightarrow> 'f json \<Rightarrow> serializer \<Rightarrow> serializer res \<Rightarrow> bool" where
  "dumps_value fl dp j s r \<longleftrightarrow> (\<exists>ts s'. r = Inr s' \<and> prints fl dp s ts s' \<and> json_text fl ts j)"

definition dumps_members :: "'f float_ops \<Rightarrow> char \<Rightarrow> (bytes \<times> 'f json) list \<Rightarrow> serializer \<Rightarrow> serializer res \<Rightarrow> bool" where
  "dumps_members fl dp m s r \<longleftrightarrow> (\<exists>tss s'. r = Inr s' \<and> prints fl dp s (commas tss) s' \<and> list_all2 (spelled_member fl) tss m)"

definition dumps_elements :: "'f float_ops \<Rightarrow> char \<Rightarrow> 'f json list \<Rightarrow> serializer \<Rightarrow> serializer res \<Rightarrow> bool" where
  "dumps_elements fl dp js s r \<longleftrightarrow> (\<exists>tss s'. r = Inr s' \<and> prints fl dp s (commas tss) s' \<and> list_all2 (json_text fl) tss js)"

definition indented :: "dump_options \<Rightarrow> nat \<Rightarrow> serializer \<Rightarrow> bool" where
  "indented p i s \<longleftrightarrow> (pretty_print p \<longrightarrow> indent_step p \<le> 512 \<and> indent_ok i s)"

lemma indented_prints: "indented p i s \<Longrightarrow> prints fl dp s ts s' \<Longrightarrow> indented p i s'"
  by (simp add: indented_def prints_indent)

lemma commas_Cons: "tss \<noteq> [] \<Longrightarrow> commas (ts # tss) = ts @ TComma # commas tss"
  by (cases tss) simp_all

lemma prints_line_start:
  "indented p i s \<Longrightarrow> \<exists>s'. (if pretty_print p then write_indent i s else Inr s) = Inr s' \<and> prints fl dp s [] s'"
  using prints_indentation [of i s fl dp] by (auto simp: indented_def prints_def spells_spaces)

lemma spells_octets:
  "spells fl dp [TComma] (octets_of ('','' @ [CHR 0x0A]))" "spells fl dp [TComma] (octets_of '','')"
  "spells fl dp [TColon] (octets_of '': '')" "spells fl dp [TColon] (octets_of '':'')"
  "spells fl dp [TBegin_array] (octets_of (''['' @ [CHR 0x0A]))" "spells fl dp [TBegin_array] (octets_of ''['')"
  "spells fl dp [TBegin_object] (octets_of (''{'' @ [CHR 0x0A]))" "spells fl dp [TBegin_object] (octets_of ''{'')"
  "spells fl dp [TEnd_array] (octets_of '']'')" "spells fl dp [TEnd_object] (octets_of ''}'')"
  "spells fl dp [] (octets_of [CHR 0x0A])" "spells fl dp [TBegin_array, TEnd_array] (octets_of ''[]'')"
  "spells fl dp [TBegin_object, TEnd_object] (octets_of ''{}'')"
proof -
  have p: "spells fl dp [TComma] [0x2C]" "spells fl dp [TColon] [0x3A]" "spells fl dp [TBegin_array] [0x5B]"
    "spells fl dp [TEnd_array] [0x5D]" "spells fl dp [TBegin_object] [0x7B]" "spells fl dp [TEnd_object] [0x7D]"
    by (intro spells_punct; simp add: punctuation_def)+
  have w: "spells fl dp [] [0x0A]" "spells fl dp [] [0x20]" by (intro spells_spaces; simp add: space_octet_def)+
  show "spells fl dp [TComma] (octets_of ('','' @ [CHR 0x0A]))" "spells fl dp [TComma] (octets_of '','')"
    "spells fl dp [TColon] (octets_of '': '')" "spells fl dp [TColon] (octets_of '':'')"
    "spells fl dp [TBegin_array] (octets_of (''['' @ [CHR 0x0A]))" "spells fl dp [TBegin_array] (octets_of ''['')"
    "spells fl dp [TBegin_object] (octets_of (''{'' @ [CHR 0x0A]))" "spells fl dp [TBegin_object] (octets_of ''{'')"
    "spells fl dp [TEnd_array] (octets_of '']'')" "spells fl dp [TEnd_object] (octets_of ''}'')"
    "spells fl dp [] (octets_of [CHR 0x0A])" "spells fl dp [TBegin_array, TEnd_array] (octets_of ''[]'')"
    "spells fl dp [TBegin_object, TEnd_object] (octets_of ''{}'')"
    using p w spells_append [OF p(1) w(1)] spells_append [OF p(2) w(2)] spells_append [OF p(3) w(1)] spells_append [OF p(5) w(1)]
      spells_append [OF p(3) p(4)] spells_append [OF p(5) p(6)]
    by (simp_all add: byte_val_def)
qed

lemma dump_elements_Cons:
  assumes "indented p i s" "\<And>s1. indented p i s1 \<Longrightarrow> dumps_value fl dp j s1 (dump fl p i j s1)"
    "\<And>s1. js \<noteq> [] \<Longrightarrow> indented p i s1 \<Longrightarrow> dumps_elements fl dp js s1 (dump_elements fl p i js s1)"
  shows "dumps_elements fl dp (j # js) s (dump_elements fl p i (j # js) s)"
proof -
  from prints_line_start [OF assms(1), of fl dp] obtain s1 where
    s1: "(if pretty_print p then write_indent i s else Inr s) = Inr s1" "prints fl dp s [] s1" by blast
  from assms(2) [OF indented_prints [OF assms(1) s1(2)]] obtain ts s2 where s2: "dump fl p i j s1 = Inr s2" "prints fl dp s1 ts s2" "json_text fl ts j"
    by (auto simp: dumps_value_def)
  note to_s2 = prints_trans [OF s1(2) s2(2), simplified]
  show ?thesis
  proof (cases "js = []")
    case True
    with s1 s2 to_s2 show ?thesis unfolding dumps_elements_def by (intro exI [of _ "[ts]"]) (simp split del: if_split)
  next
    case False
    let ?s3 = "write_characters (if pretty_print p then '','' @ [CHR 0x0A] else '','') s2"
    have s3: "prints fl dp s2 [TComma] ?s3" by (intro prints_characters) (simp add: spells_octets [simplified])
    from assms(3) [OF False, of ?s3] indented_prints [OF assms(1) prints_trans [OF to_s2 s3]] obtain tss s4 where
      s4: "dump_elements fl p i js ?s3 = Inr s4" "prints fl dp ?s3 (commas tss) s4" "list_all2 (json_text fl) tss js"
      by (auto simp: dumps_elements_def)
    then have "tss \<noteq> []" using False by auto
    with prints_trans [OF prints_trans [OF to_s2 s3] s4(2)] have "prints fl dp s (commas (ts # tss)) s4" by (simp add: commas_Cons)
    then show ?thesis unfolding dumps_elements_def using False s1 s2 s4 by (intro exI [of _ "ts # tss"]) (simp split del: if_split)
  qed
qed

lemma dump_members_Cons:
  assumes "indented p i s" "utf8_valid (octets_of k)" "\<And>s1. indented p i s1 \<Longrightarrow> dumps_value fl dp v s1 (dump fl p i v s1)"
    "\<And>s1. m \<noteq> [] \<Longrightarrow> indented p i s1 \<Longrightarrow> dumps_members fl dp m s1 (dump_members fl p i m s1)"
  shows "dumps_members fl dp ((k, v) # m) s (dump_members fl p i ((k, v) # m) s)"
proof -
  from prints_line_start [OF assms(1), of fl dp] obtain s1 where
    s1: "(if pretty_print p then write_indent i s else Inr s) = Inr s1" "prints fl dp s [] s1" by blast
  let ?u = "if pretty_print p then '': '' else '':''"
  have "spells fl dp [TColon] (octets_of ?u)" by (simp add: spells_octets [simplified])
  from prints_string [OF assms(2) this, of p s1] obtain s2 where
    s2: "write_escaped p k (write_characters [CHR 0x22] s1) = Inr s2"
      "prints fl dp s1 [TString k, TColon] (write_characters ([CHR 0x22] @ ?u) s2)" by blast
  let ?s2 = "write_characters (if pretty_print p then [CHR 0x22] @ '': '' else [CHR 0x22] @ '':'') s2"
  have to_s2: "prints fl dp s [TString k, TColon] ?s2" using prints_trans [OF s1(2) s2(2)] by (simp split: if_splits)
  from assms(3) [OF indented_prints [OF assms(1) this]] obtain ts s3 where
    s3: "dump fl p i v ?s2 = Inr s3" "prints fl dp ?s2 ts s3" "json_text fl ts v" by (auto simp: dumps_value_def)
  let ?ts = "TString k # TColon # ts"
  have to_s3: "prints fl dp s ?ts s3" using prints_trans [OF to_s2 s3(2)] by simp
  have item: "spelled_member fl ?ts (k, v)" using s3(3) by (simp add: spelled_member_def)
  show ?thesis
  proof (cases "m = []")
    case True
    with s1 s2(1) s3(1) to_s3 item show ?thesis unfolding dumps_members_def
      by (intro exI [of _ "[?ts]"]) (simp split del: if_split)
  next
    case False
    let ?s4 = "write_characters (if pretty_print p then '','' @ [CHR 0x0A] else '','') s3"
    have s4: "prints fl dp s3 [TComma] ?s4" by (intro prints_characters) (simp add: spells_octets [simplified])
    from assms(4) [OF False, of ?s4] indented_prints [OF assms(1) prints_trans [OF to_s3 s4]] obtain tss s5 where
      s5: "dump_members fl p i m ?s4 = Inr s5" "prints fl dp ?s4 (commas tss) s5" "list_all2 (spelled_member fl) tss m"
      by (auto simp: dumps_members_def)
    then have "tss \<noteq> []" using False by auto
    with prints_trans [OF prints_trans [OF to_s3 s4] s5(2)] have "prints fl dp s (commas (?ts # tss)) s5" by (simp add: commas_Cons)
    then show ?thesis unfolding dumps_members_def using False s1 s2(1) s3(1) s5 item
      by (intro exI [of _ "?ts # tss"]) (simp split del: if_split)
  qed
qed

text \<open>The brackets around the elements, on one line or on lines of their own.\<close>

definition brackets :: "dump_options \<Rightarrow> nat \<Rightarrow> bytes \<Rightarrow> bytes \<Rightarrow> (nat \<Rightarrow> serializer \<Rightarrow> serializer res) \<Rightarrow> serializer \<Rightarrow> serializer res" where
  "brackets p i b c f s =
     (if pretty_print p then
        let new_indent = uint32_add i (indent_step p)
        in bind_res (f new_indent (grow_indent new_indent (write_characters (b @ [CHR 0x0A]) s)))
             (\<lambda>s1. bind_res (write_indent i (write_characters [CHR 0x0A] s1)) (\<lambda>s2. Inr (write_characters c s2)))
      else bind_res (f i (write_characters b s)) (\<lambda>s1. Inr (write_characters c s1)))"

lemma dump_brackets:
  "m \<noteq> [] \<Longrightarrow> dump fl p i (JObject m) s = brackets p i ''{'' ''}'' (\<lambda>i. dump_members fl p i m) s"
  "js \<noteq> [] \<Longrightarrow> dump fl p i (JArray js) s = brackets p i ''['' '']'' (\<lambda>i. dump_elements fl p i js) s"
  by (simp_all add: brackets_def)

lemma prints_brackets:
  assumes "indented p i s" "spells fl dp [t] (octets_of b)" "spells fl dp [t] (octets_of (b @ [CHR 0x0A]))" "spells fl dp [u] (octets_of c)"
    "\<And>i1 s1. indented p i1 s1 \<Longrightarrow> \<exists>ts s2. f i1 s1 = Inr s2 \<and> prints fl dp s1 ts s2 \<and> Q ts"
  shows "\<exists>ts s2. brackets p i b c f s = Inr s2 \<and> prints fl dp s (t # ts @ [u]) s2 \<and> Q ts"
proof (cases "pretty_print p")
  case True
  let ?n = "uint32_add i (indent_step p)" and ?s = "write_characters (b @ [CHR 0x0A]) s"
  have s: "prints fl dp s [t] ?s" by (intro prints_characters assms(3))
  then have "indented p i ?s" by (rule indented_prints [OF assms(1)])
  then have "indented p ?n (grow_indent ?n ?s)" using True by (simp add: indented_def grow_indent_ok)
  from assms(5) [OF this] obtain ts s1 where s1: "f ?n (grow_indent ?n ?s) = Inr s1" "prints fl dp (grow_indent ?n ?s) ts s1" "Q ts"
    by blast
  have "prints fl dp s1 [] (write_characters [CHR 0x0A] s1)" by (intro prints_characters spells_octets)
  with prints_trans [OF s prints_trans [OF prints_grow s1(2)]] have to_s2: "prints fl dp s (t # ts) (write_characters [CHR 0x0A] s1)"
    using prints_trans by fastforce
  have "indent_ok i (write_characters [CHR 0x0A] s1)"
    using indented_prints [OF assms(1) to_s2] True by (simp add: indented_def)
  from prints_indentation [OF this, of fl dp] obtain s3 where
    s3: "write_indent i (write_characters [CHR 0x0A] s1) = Inr s3" "prints fl dp (write_characters [CHR 0x0A] s1) [] s3" by blast
  from prints_trans [OF prints_trans [OF to_s2 s3(2)] prints_characters [OF assms(4)]] s1(1,3) s3(1) True show ?thesis
    by (auto simp: brackets_def)
next
  case False
  let ?s = "write_characters b s"
  have s: "prints fl dp s [t] ?s" by (intro prints_characters assms(2))
  from assms(5) [OF indented_prints [OF assms(1) this]] obtain ts s1 where
    "f i ?s = Inr s1" "prints fl dp ?s ts s1" "Q ts" by blast
  with prints_trans [OF prints_trans [OF s this(2)] prints_characters [OF assms(4)]] False show ?thesis
    by (auto simp: brackets_def)
qed

lemma dump_elements_prints:
  "(\<And>j s. j \<in> set js \<Longrightarrow> indented p i s \<Longrightarrow> dumps_value fl dp j s (dump fl p i j s)) \<Longrightarrow> indented p i s \<Longrightarrow>
     dumps_elements fl dp js s (dump_elements fl p i js s)"
proof (induction js arbitrary: s)
  case Nil
  show ?case unfolding dumps_elements_def by (intro exI [of _ "[]"]) (simp add: prints_def spells_spaces)
next
  case (Cons j js)
  show ?case by (rule dump_elements_Cons [OF Cons.prems(2)])
    (use Cons in auto)
qed

lemma dump_members_prints:
  "(\<And>kv s. kv \<in> set m \<Longrightarrow> indented p i s \<Longrightarrow>
      utf8_valid (octets_of (fst kv)) \<and> dumps_value fl dp (snd kv) s (dump fl p i (snd kv) s)) \<Longrightarrow> indented p i s \<Longrightarrow>
     dumps_members fl dp m s (dump_members fl p i m s)"
proof (induction m arbitrary: s)
  case Nil
  show ?case unfolding dumps_members_def by (intro exI [of _ "[]"]) (simp add: prints_def spells_spaces)
next
  case (Cons kv m)
  obtain k v where kv: "kv = (k, v)" by fastforce
  show ?case unfolding kv by (rule dump_members_Cons [OF Cons.prems(2)])
    (use Cons Cons.prems(1) [of kv] kv in auto)
qed

lemma dumps_scalar:
  "json_wf fl j \<Longrightarrow> readable fl dp j \<Longrightarrow> (\<And>m. j \<noteq> JObject m) \<Longrightarrow> (\<And>js. j \<noteq> JArray js) \<Longrightarrow> dumps_value fl dp j s (dump_scalar fl p j s)"
  using prints_scalar [of fl j dp p s] scalar unfolding dumps_value_def by blast

lemma dump_prints: "indented p i s \<Longrightarrow> json_wf fl j \<Longrightarrow> readable fl dp j \<Longrightarrow> dumps_value fl dp j s (dump fl p i j s)"
proof (induction j arbitrary: i s)
  case (JObject m)
  show ?case
  proof (cases "m = []")
    case True
    have "json_text fl (TBegin_object # commas [] @ [TEnd_object]) (JObject (members []))" by (rule object) simp
    with True prints_characters [OF spells_octets(13), of fl dp s] show ?thesis by (auto simp: dumps_value_def members_def)
  next
    case False
    have val: "utf8_valid (octets_of (fst kv)) \<and> dumps_value fl dp (snd kv) s1 (dump fl p i1 (snd kv) s1)"
      if "kv \<in> set m" "indented p i1 s1" for kv i1 s1
      using JObject.IH [of kv "snd kv"] JObject.prems(2,3) that by (auto simp: snds.simps)
    have "\<exists>ts s2. dump_members fl p i1 m s1 = Inr s2 \<and> prints fl dp s1 ts s2 \<and> (\<exists>tss. ts = commas tss \<and> list_all2 (spelled_member fl) tss m)"
      if "indented p i1 s1" for i1 s1
    proof -
      have "dumps_members fl dp m s1 (dump_members fl p i1 m s1)" by (rule dump_members_prints [OF _ that]) (rule val)
      then show ?thesis by (auto simp: dumps_members_def)
    qed
    from prints_brackets [OF JObject.prems(1) spells_octets(8,7,10), of "\<lambda>i. dump_members fl p i m", OF this] obtain tss s2 where
      s2: "dump fl p i (JObject m) s = Inr s2" "prints fl dp s (TBegin_object # commas tss @ [TEnd_object]) s2" "list_all2 (spelled_member fl) tss m"
      using dump_brackets(1) [OF False, of fl p i s] by auto
    then have "json_text fl (TBegin_object # commas tss @ [TEnd_object]) (JObject (members m))"
      by (intro object) (simp add: spelled_member_def [abs_def])
    with s2 members_id JObject.prems(2) show ?thesis unfolding dumps_value_def by fastforce
  qed
next
  case (JArray js)
  show ?case
  proof (cases "js = []")
    case True
    have "json_text fl (TBegin_array # commas [] @ [TEnd_array]) (JArray [])" by (rule array) simp
    with True prints_characters [OF spells_octets(12), of fl dp s] show ?thesis by (auto simp: dumps_value_def)
  next
    case False
    have val: "dumps_value fl dp j s1 (dump fl p i1 j s1)" if "j \<in> set js" "indented p i1 s1" for j i1 s1
      using JArray that by auto
    have "\<exists>ts s2. dump_elements fl p i1 js s1 = Inr s2 \<and> prints fl dp s1 ts s2 \<and> (\<exists>tss. ts = commas tss \<and> list_all2 (json_text fl) tss js)"
      if "indented p i1 s1" for i1 s1
    proof -
      have "dumps_elements fl dp js s1 (dump_elements fl p i1 js s1)" by (rule dump_elements_prints [OF _ that]) (rule val)
      then show ?thesis by (auto simp: dumps_elements_def)
    qed
    from prints_brackets [OF JArray.prems(1) spells_octets(6,5,9), of "\<lambda>i. dump_elements fl p i js", OF this] obtain tss s2 where
      s2: "dump fl p i (JArray js) s = Inr s2" "prints fl dp s (TBegin_array # commas tss @ [TEnd_array]) s2" "list_all2 (json_text fl) tss js"
      using dump_brackets(2) [OF False, of fl p i s] by auto
    with array [OF s2(3)] show ?thesis unfolding dumps_value_def by fastforce
  qed
qed (simp_all add: dumps_scalar)

subsection \<open>Dumping and parsing\<close>

lemma lexed_no_bom:
  assumes "lexed fl dp (k # ts) bs"
  shows "without_bom bs = bs"
  using assms
proof cases
  case (more ws u r)
  then obtain b u' where u: "u = b # u'" "b \<noteq> 0xEF" by (auto elim: lexeme_head)
  have "hd bs \<noteq> 0xEF"
  proof (cases ws)
    case Nil
    with more(1) u show ?thesis by simp
  next
    case (Cons w ws')
    with more(1,2) show ?thesis by (auto simp: space_octet_def)
  qed
  then show ?thesis by (cases bs) (auto simp: without_bom_def)
qed

lemma json_text_nonempty: "json_text fl ts j \<Longrightarrow> ts \<noteq> []"
  by (auto elim: json_text.cases)

lemma json_dump_parse:
  assumes "json_wf fl j" "readable fl dp j" "indent \<le> 512" "indent < 0 \<or> space_octet (byte_val indent_char)"
  shows "\<exists>text. json_dump fl indent indent_char ascii handler j = Inr text \<and> json_parse fl dp True text = Inr j"
proof -
  let ?p = "if 0 \<le> indent then \<lparr>pretty_print = True, ensure_ascii = ascii, indent_step = nat indent, error_handler = handler\<rparr>
    else \<lparr>pretty_print = False, ensure_ascii = ascii, indent_step = 0, error_handler = handler\<rparr>"
  have "indented ?p 0 (serializer_new indent_char)"
    using assms(3,4) by (auto simp: indented_def indent_ok_def serializer_new_def octets_of_def list_all_iff)
  from dump_prints [OF this assms(1,2)] obtain ts s where
    s: "dump fl ?p 0 j (serializer_new indent_char) = Inr s" "prints fl dp (serializer_new indent_char) ts s" "json_text fl ts j"
    by (auto simp: dumps_value_def)
  then have "lexed fl dp ts (octets_of (o_text s))" by (auto simp: prints_def serializer_new_def dest: spells_lexed)
  with lexed_no_bom json_text_nonempty [OF s(3)] have "lexed fl dp ts (without_bom (octets_of (o_text s)))"
    by (cases ts) (auto simp: lexed_no_bom)
  with s(1,3) show ?thesis unfolding json_parse_text json_dump_def by (intro exI [of _ "o_text s"]) auto
qed

text \<open>
  C32: what \<^verbatim>\<open>dump\<close> writes, \<^verbatim>\<open>parse\<close> reads back. For a well-formed value, with or without indentation by at most
  512 white-space characters, with or without escapes for non-ASCII characters and for every handler, \<^verbatim>\<open>dump\<close>
  succeeds and parsing its output gives the value; integers must be stored the way the parser stores them and
  be larger than the smallest one, and floating-point numbers must be written so that they are read back.
\<close>

theorem json_roundtrip:
  assumes "json_wf fl j" "readable fl dp j" "indent \<le> 512" "indent < 0 \<or> space_octet (byte_val indent_char)"
  shows "\<exists>text. json_dump fl indent indent_char ascii handler j = Inr text \<and> json_parse fl dp True text = Inr j"
  using json_dump_parse [OF assms] .

theorem json_roundtrip_witness:
  "let fl = \<lparr>strtod = (\<lambda>s. (0 :: nat)), isfinite = (\<lambda>n. True), float_to_int = (\<lambda>n. Some (int n)), float_to_chars = (\<lambda>n. ''0.0'')\<rparr>;
       j = JObject [(''a'', JArray [JInteger (- 12), JUnsigned 7, JFloat 0]), (''b'', JString [CHR 0x09, CHR 0xC3, CHR 0xA9])]
   in \<exists>text. json_dump fl 4 CHR '' '' True strict j = Inr text \<and> json_parse fl CHR ''.'' True text = Inr j"
proof -
  let ?fl = "\<lparr>strtod = (\<lambda>s. (0 :: nat)), isfinite = (\<lambda>n. True), float_to_int = (\<lambda>n. Some (int n)), float_to_chars = (\<lambda>n. ''0.0'')\<rparr>"
  let ?j = "JObject [(''a'', JArray [JInteger (- 12), JUnsigned 7, JFloat 0]), (''b'', JString [CHR 0x09, CHR 0xC3, CHR 0xA9])]"
  have "CHR ''a'' < CHR ''b''" by (simp add: less_char_def)
  then have "json_wf ?fl ?j" by (simp add: object_ok_def follow_ranges_def byte_val_def)
  moreover have "json_number [0x30, 0x2E, 0x30]"
    by (simp add: number_automaton number_start_def number_delta_def number_final_def digit_octet_def)
  then have "readable ?fl CHR ''.'' ?j" by (simp add: byte_val_def number_tok_def number_type_def)
  ultimately show ?thesis unfolding Let_def
    by (rule json_roundtrip) (simp_all add: space_octet_def byte_val_def)
qed

text \<open>
  The indentation string is doubled at most once per level, so an indentation of more than 1025 reads behind
  its end at once; and \<^verbatim>\<open>std::abs\<close> is applied to the smallest integer.
\<close>

lemma json_dump_wide_indent:
  assumes "1025 < indent" "indent < 2 ^ 31"
  shows "json_dump fl indent indent_char ascii handler (JArray [JNull]) = Inl Undefined"
proof -
  have "512 < nat indent" "\<not> nat indent \<le> 1025" "nat indent mod 2 ^ 32 = nat indent" "0 \<le> indent" using assms by auto
  then show ?thesis
    by (simp add: json_dump_def Let_def uint32_add_def serializer_new_def write_characters_def grow_indent_def write_indent_def)
qed

lemma json_dump_smallest: "json_dump fl (- 1) indent_char ascii handler (JInteger (- (2 ^ 63))) = Inl Undefined"
  by (simp add: json_dump_def dump_scalar_def dump_integer_def)

end
