(* ===== verification/Json_Double.thy ===== *)
theory Json_Double
  imports Json_Double_Nearest Json_Roundtrip
begin

text \<open>
  JSON documents whose floating-point numbers are doubles: the number a text denotes, that \<^verbatim>\<open>to_chars\<close> writes
  a number of JSON that rounds to the double it was given, and the round trip of whole documents.
\<close>

subsection \<open>The number a text denotes\<close>

definition octet_val :: "octets \<Rightarrow> nat" where
  "octet_val bs = dec (map (\<lambda>b. b - 0x30) bs)"

definition exponent_value :: "octets \<Rightarrow> int" where
  "exponent_value bs =
     (case bs of
        [] \<Rightarrow> 0
      | b # u \<Rightarrow> if b = 0x2D then - int (octet_val u) else if b = 0x2B then int (octet_val u) else int (octet_val bs))"

definition unsigned_value :: "octets \<Rightarrow> real" where
  "unsigned_value bs =
     (let i = takeWhile digit_octet bs; u = dropWhile digit_octet bs;
          (f, v) = (if u \<noteq> [] \<and> hd u = 0x2E then (takeWhile digit_octet (tl u), dropWhile digit_octet (tl u)) else ([], u));
          x = (if v \<noteq> [] \<and> hd v \<in> {0x65, 0x45} then exponent_value (tl v) else 0)
      in real (octet_val (i @ f)) * 10 powi (x - int (length f)))"

definition number_negative :: "octets \<Rightarrow> bool" where
  "number_negative bs \<longleftrightarrow> bs \<noteq> [] \<and> hd bs = 0x2D"

definition number_value :: "octets \<Rightarrow> real" where
  "number_value bs = (if number_negative bs then - unsigned_value (tl bs) else unsigned_value bs)"

text \<open>The double of the same sign that is nearest to the number a text denotes.\<close>

definition rounds_to :: "octets \<Rightarrow> double \<Rightarrow> bool" where
  "rounds_to bs x \<longleftrightarrow> nearest_double (number_value bs) x \<and> (signbit x \<longleftrightarrow> number_negative bs)"

lemma rounds_to_unique: "rounds_to bs x \<Longrightarrow> rounds_to bs y \<Longrightarrow> x = y"
  by (auto simp: rounds_to_def intro: nearest_unique)

subsection \<open>Texts made of digits\<close>

definition digit_octets :: "nat list \<Rightarrow> octets" where
  "digit_octets ds = map (\<lambda>d. 0x30 + d) ds"

definition exponent_octets :: "int option \<Rightarrow> octets" where
  "exponent_octets x = (case x of None \<Rightarrow> [] | Some e \<Rightarrow> 0x65 # octets_of (exponent_text e))"

definition spelled :: "nat list \<Rightarrow> nat list \<Rightarrow> int option \<Rightarrow> octets" where
  "spelled i f x = digit_octets i @ (if f = [] then [] else 0x2E # digit_octets f) @ exponent_octets x"

abbreviation digit_list :: "nat list \<Rightarrow> bool" where
  "digit_list \<equiv> list_all (\<lambda>d. d \<le> 9)"

definition spells_number :: "nat list \<Rightarrow> nat list \<Rightarrow> int option \<Rightarrow> bool" where
  "spells_number i f x \<longleftrightarrow> i \<noteq> [] \<and> digit_list i \<and> (i = [0] \<or> hd i \<noteq> 0) \<and> digit_list f \<and>
     (case x of None \<Rightarrow> True | Some e \<Rightarrow> - 1000 < e \<and> e < 1000)"

lemma dec_append: "dec (a @ b) = dec a * 10 ^ length b + dec b"
  by (induction b rule: rev_induct) (simp_all add: algebra_simps flip: append_assoc)

lemma dec_replicate: "dec (replicate n 0) = 0"
  by (induction n) (simp_all add: dec_append flip: replicate_append_same)

lemma octets_digit_chars: "digit_list ds \<Longrightarrow> octets_of (map digit_char ds) = digit_octets ds"
  by (induction ds) (simp_all add: digit_octets_def octets_of_def digit_char_def byte_val_def)

lemma octet_val_digits [simp]: "octet_val (digit_octets ds) = dec ds"
  by (simp add: octet_val_def digit_octets_def comp_def)

lemma digit_octets_ok: "digit_list ds \<Longrightarrow> list_all digit_octet (digit_octets ds)"
  by (induction ds) (simp_all add: digit_octets_def digit_octet_def)

lemma digit_octets_append: "digit_octets (a @ b) = digit_octets a @ digit_octets b"
  by (simp add: digit_octets_def)

lemma span_digits:
  assumes "digit_list ds" "r = [] \<or> \<not> digit_octet (hd r)"
  shows "takeWhile digit_octet (digit_octets ds @ r) = digit_octets ds" "dropWhile digit_octet (digit_octets ds @ r) = r"
proof -
  have "\<forall>b \<in> set (digit_octets ds). digit_octet b" using digit_octets_ok [OF assms(1)] by (simp add: list_all_iff)
  with assms(2) show "takeWhile digit_octet (digit_octets ds @ r) = digit_octets ds" "dropWhile digit_octet (digit_octets ds @ r) = r"
    by (cases r; simp)+
qed

lemma exponent_text_octets:
  assumes "- 1000 < e" "e < 1000"
  obtains ds where "octets_of (exponent_text e) = (if e < 0 then 0x2D else 0x2B) # digit_octets ds" "digit_list ds" "ds \<noteq> []" "dec ds = nat \<bar>e\<bar>"
proof -
  define k where "k = nat \<bar>e\<bar>"
  define ds where "ds = (if k < 10 then [0, k] else if k < 100 then [k div 10, k mod 10] else [k div 100, k mod 100 div 10, k mod 10])"
  have "k < 1000" using assms by (simp add: k_def nat_less_iff abs_less_iff)
  then have "k div 100 < 10" "k < 100 \<Longrightarrow> k div 10 < 10" "k mod 100 div 10 < 10" "k mod 10 < 10" by (simp_all add: div_less_iff_less_mult)
  then have ds: "digit_list ds" "ds \<noteq> []" by (auto simp: ds_def)
  have "k mod 100 mod 10 = k mod 10" by (simp add: mod_mod_cancel)
  then have "k mod 100 div 10 * 10 + k mod 10 = k mod 100" using div_mult_mod_eq [of "k mod 100" 10] by simp
  then have "k div 100 * 100 + (k mod 100 div 10 * 10 + k mod 10) = k" by (simp only: div_mult_mod_eq)
  then have "dec ds = k" by (simp add: ds_def dec_def mult.commute)
  moreover have "octets_of (exponent_text e) = (if e < 0 then 0x2D else 0x2B) # octets_of (map digit_char ds)"
    by (simp add: exponent_text_def Let_def k_def ds_def octets_of_def byte_val_def)
  ultimately show thesis using that [of ds] ds octets_digit_chars [OF ds(1)] by (simp add: k_def)
qed

lemma exponent_octets_ok:
  assumes "case x of None \<Rightarrow> True | Some e \<Rightarrow> - 1000 < e \<and> e < 1000"
  shows "json_exp (exponent_octets x)" "exponent_octets x = [] \<or> hd (exponent_octets x) = 0x65 \<and> exponent_value (tl (exponent_octets x)) = the x"
    "exponent_octets x = [] \<longleftrightarrow> x = None"
proof -
  have "json_exp (exponent_octets x) \<and> (exponent_octets x = [] \<or> hd (exponent_octets x) = 0x65 \<and> exponent_value (tl (exponent_octets x)) = the x)"
  proof (cases x)
    case (Some e)
    with assms obtain ds where ds: "octets_of (exponent_text e) = (if e < 0 then 0x2D else 0x2B) # digit_octets ds" "digit_list ds" "ds \<noteq> []" "dec ds = nat \<bar>e\<bar>"
      using exponent_text_octets [of e] by auto
    have "json_digits (digit_octets ds)" using digit_octets_ok [OF ds(2)] ds(3) by (simp add: json_digits_def digit_octets_def)
    then have "json_exp (0x65 # [if e < 0 then 0x2D else 0x2B] @ digit_octets ds)"
      unfolding json_exp_def by (intro disjI2 exI [of _ "0x65"] exI [of _ "[if e < 0 then 0x2D else 0x2B]"] exI [of _ "digit_octets ds"]) simp
    then show ?thesis using ds by (simp add: Some exponent_octets_def exponent_value_def)
  qed (simp add: exponent_octets_def json_exp_def)
  then show "json_exp (exponent_octets x)" "exponent_octets x = [] \<or> hd (exponent_octets x) = 0x65 \<and> exponent_value (tl (exponent_octets x)) = the x"
    by blast+
qed (simp add: exponent_octets_def split: option.splits)

lemma spelled_number:
  assumes "spells_number i f x" "m \<in> {[], [0x2D]}"
  shows "json_number (m @ spelled i f x)"
proof -
  have d: "json_digits (digit_octets ds)" if "ds \<noteq> []" "digit_list ds" for ds
    using digit_octets_ok [OF that(2)] that(1) by (simp add: json_digits_def digit_octets_def)
  have "json_int (digit_octets i)" using assms(1) d [of i] by (cases i) (auto simp: spells_number_def json_int_def digit_octets_def)
  moreover have "json_frac (if f = [] then [] else 0x2E # digit_octets f)" using assms(1) d [of f] by (simp add: spells_number_def json_frac_def)
  moreover have "json_exp (exponent_octets x)" using assms(1) exponent_octets_ok(1) by (simp add: spells_number_def)
  ultimately show ?thesis unfolding json_number_def spelled_def using assms(2) by blast
qed

lemma spelled_value:
  assumes "spells_number i f x"
  shows "unsigned_value (spelled i f x) = real (dec (i @ f)) * 10 powi ((case x of None \<Rightarrow> 0 | Some e \<Rightarrow> e) - int (length f))"
proof -
  let ?x = "exponent_octets x"
  note x = exponent_octets_ok [of x]
  have ds: "digit_list i" "digit_list f" and "case x of None \<Rightarrow> True | Some e \<Rightarrow> - 1000 < e \<and> e < 1000"
    using assms by (simp_all add: spells_number_def)
  note x = exponent_octets_ok [OF this(3)]
  have xd: "?x = [] \<or> \<not> digit_octet (hd ?x)" using x(2) by (auto simp: digit_octet_def)
  have xv: "(if ?x \<noteq> [] \<and> hd ?x \<in> {0x65, 0x45} then exponent_value (tl ?x) else 0) = (case x of None \<Rightarrow> 0 | Some e \<Rightarrow> e)"
    using x(2,3) by (cases x) auto
  show ?thesis
  proof (cases "f = []")
    case True
    then have "\<not> (?x \<noteq> [] \<and> hd ?x = 0x2E)" using x(2) by auto
    then show ?thesis using True span_digits [OF ds(1) xd] xv by (auto simp: unsigned_value_def spelled_def Let_def)
  next
    case False
    have "\<not> digit_octet 0x2E" by (simp add: digit_octet_def)
    then have "takeWhile digit_octet (spelled i f x) = digit_octets i" "dropWhile digit_octet (spelled i f x) = 0x2E # digit_octets f @ ?x"
      using False span_digits [OF ds(1), of "0x2E # digit_octets f @ ?x"] by (simp_all add: spelled_def)
    then show ?thesis using span_digits [OF ds(2) xd] xv
      by (simp add: unsigned_value_def Let_def flip: digit_octets_append) (simp add: digit_octets_def)
  qed
qed

subsection \<open>What \<^verbatim>\<open>to_chars\<close> writes\<close>

definition spelled_as :: "octets \<Rightarrow> real \<Rightarrow> bool" where
  "spelled_as bs r \<longleftrightarrow> (\<exists>i f x. bs = spelled i f x \<and> spells_number i f x \<and> (f \<noteq> [] \<or> x \<noteq> None) \<and>
     real (dec (i @ f)) * 10 powi ((case x of None \<Rightarrow> 0 | Some e \<Rightarrow> e) - int (length f)) = r)"

lemma spelled_asI:
  "bs = spelled i f x \<Longrightarrow> spells_number i f x \<Longrightarrow> f \<noteq> [] \<or> x \<noteq> None \<Longrightarrow>
     real (dec (i @ f)) * 10 powi ((case x of None \<Rightarrow> 0 | Some e \<Rightarrow> e) - int (length f)) = r \<Longrightarrow> spelled_as bs r"
  unfolding spelled_as_def by blast

lemma mantissa_spelled:
  assumes "decimal ds" "- 1000 < x" "x < 1000"
  shows "spelled_as (octets_of (mantissa_text (map digit_char ds) @ ''e'' @ exponent_text x)) (real (dec ds) * 10 powi (x + 1 - int (length ds)))"
proof -
  obtain d ds' where ds: "ds = d # ds'" using assms(1) by (cases ds) (auto simp: decimal_def)
  show ?thesis
  proof (rule spelled_asI [of _ "[d]" ds' "Some x"])
    show "octets_of (mantissa_text (map digit_char ds) @ ''e'' @ exponent_text x) = spelled [d] ds' (Some x)"
    proof -
      have "digit_list [d]" "digit_list ds'" using assms(1) by (simp_all add: ds decimal_def)
      note this [THEN octets_digit_chars]
      then show ?thesis
        by (cases "ds' = []") (simp_all add: ds spelled_def mantissa_text_def exponent_octets_def octets_of_def byte_val_def digit_octets_def)
    qed
  qed (use assms in \<open>auto simp: ds spells_number_def decimal_def\<close>)
qed

lemma whole_spelled:
  assumes "decimal ds"
  shows "spelled_as (octets_of (map digit_char ds @ replicate z (CHR ''0'') @ ''.0'')) (real (dec ds) * 10 powi int z)"
proof -
  have ds: "ds \<noteq> []" "hd ds \<noteq> 0" "digit_list (ds @ replicate z 0)" using assms by (auto simp: decimal_def list_all_iff)
  show ?thesis
  proof (rule spelled_asI [of _ "ds @ replicate z 0" "[0]" None])
    have "map digit_char ds @ replicate z (CHR ''0'') @ ''.0'' = map digit_char (ds @ replicate z 0) @ ''.0''" by (simp add: digit_char_0)
    then have "octets_of (map digit_char ds @ replicate z (CHR ''0'') @ ''.0'') = octets_of (map digit_char (ds @ replicate z 0)) @ [0x2E, 0x30]"
      by (simp only: octets_of_def map_append) (simp add: byte_val_def)
    then show "octets_of (map digit_char ds @ replicate z (CHR ''0'') @ ''.0'') = spelled (ds @ replicate z 0) [0] None"
      unfolding octets_digit_chars [OF ds(3)] by (simp add: spelled_def exponent_octets_def digit_octets_def)
  qed (use ds in \<open>simp_all add: spells_number_def dec_append dec_replicate power_int_minus\<close>)
qed

lemma point_spelled:
  assumes "decimal ds" "0 < n" "n < length ds"
  shows "spelled_as (octets_of (take n (map digit_char ds) @ ''.'' @ drop n (map digit_char ds))) (real (dec ds) * 10 powi (int n - int (length ds)))"
proof -
  have l: "digit_list (take n ds)" "digit_list (drop n ds)"
    using assms(1) by (auto simp: decimal_def list_all_iff dest: in_set_takeD in_set_dropD)
  show ?thesis
  proof (rule spelled_asI [of _ "take n ds" "drop n ds" None])
    show "octets_of (take n (map digit_char ds) @ ''.'' @ drop n (map digit_char ds)) = spelled (take n ds) (drop n ds) None"
      using assms(3) l [THEN octets_digit_chars] by (simp add: spelled_def exponent_octets_def byte_val_def take_map drop_map)
  qed (use assms l in \<open>auto simp: spells_number_def decimal_def of_nat_diff\<close>)
qed

lemma fraction_spelled:
  assumes "decimal ds"
  shows "spelled_as (octets_of (''0.'' @ replicate z (CHR ''0'') @ map digit_char ds)) (real (dec ds) * 10 powi (- int z - int (length ds)))"
proof -
  have ds: "ds \<noteq> []" "digit_list (replicate z 0 @ ds)" using assms by (auto simp: decimal_def list_all_iff)
  have val: "dec ([0] @ replicate z 0 @ ds) = dec ds" by (simp only: dec_append dec_replicate dec_simps mult_zero_left add_0)
  show ?thesis
  proof (rule spelled_asI [of _ "[0]" "replicate z 0 @ ds" None])
    have "octets_of (''0.'' @ replicate z (CHR ''0'') @ map digit_char ds) = [0x30, 0x2E] @ octets_of (map digit_char (replicate z 0 @ ds))"
      by (simp add: digit_char_0 byte_val_def)
    then show "octets_of (''0.'' @ replicate z (CHR ''0'') @ map digit_char ds) = spelled [0] (replicate z 0 @ ds) None"
      unfolding octets_digit_chars [OF ds(2)] using ds(1) by (simp add: spelled_def exponent_octets_def digit_octets_def)
    show "real (dec ([0] @ replicate z 0 @ ds)) * 10 powi ((case None of None \<Rightarrow> 0 | Some e \<Rightarrow> e) - int (length (replicate z 0 @ ds))) =
        real (dec ds) * 10 powi (- int z - int (length ds))"
      unfolding val by (simp add: algebra_simps)
  qed (use ds in \<open>simp_all add: spells_number_def\<close>)
qed

lemma format_spelled:
  assumes "decimal ds" "length ds \<le> 17" "- 341 \<le> e" "e \<le> 310"
  shows "spelled_as (octets_of (format_text ds e)) (real (dec ds) * 10 powi e)"
proof -
  define k n where "k = length ds" and "n = int k + e"
  have k: "0 < k" using assms(1) by (simp add: decimal_def k_def)
  note t = format_text_def [of ds e, unfolded Let_def, folded k_def, folded n_def]
  consider "int k \<le> n \<and> n \<le> 15" | "n < int k" "0 < n \<and> n \<le> 15" | "- 4 < n \<and> n \<le> 0" | "n \<le> - 4 \<or> 15 < n" using k by linarith
  then show ?thesis
  proof cases
    case 1
    then have "int (nat n - k) = e" by (auto simp: n_def nat_add_distrib)
    with 1 whole_spelled [OF assms(1), of "nat n - k"] show ?thesis by (simp add: t)
  next
    case 2
    then have "int (nat n) - int (length ds) = e" "nat n < length ds" by (auto simp: n_def k_def nat_less_iff)
    with 2 point_spelled [OF assms(1), of "nat n"] show ?thesis by (simp add: t k_def)
  next
    case 3
    then have "- int (nat (- n)) - int (length ds) = e" by (simp add: n_def k_def)
    with 3 k fraction_spelled [OF assms(1), of "nat (- n)"] show ?thesis by (simp add: t)
  next
    case 4
    have "- 1000 < n - 1" "n - 1 < 1000" "n - 1 + 1 - int (length ds) = e" using assms(2-4) by (auto simp: n_def k_def)
    with 4 k mantissa_spelled [OF assms(1), of "n - 1"] show ?thesis by (auto simp: t)
  qed
qed

lemma format_text_length: "length ds \<le> 17 \<Longrightarrow> length (format_text ds e) \<le> 23"
  by (auto simp: format_text_def mantissa_text_def exponent_text_def Let_def)

lemma spelled_as_number:
  assumes "spelled_as bs r" "m = (if neg then [0x2D] else [])"
  shows "json_number (m @ bs)" "number_type (m @ bs) = value_float_tok" "number_negative (m @ bs) = neg" "number_value (m @ bs) = (if neg then - r else r)"
proof -
  obtain i f x where bs: "bs = spelled i f x" "spells_number i f x" "f \<noteq> [] \<or> x \<noteq> None"
    and r: "real (dec (i @ f)) * 10 powi ((case x of None \<Rightarrow> 0 | Some e \<Rightarrow> e) - int (length f)) = r"
    using assms(1) unfolding spelled_as_def by blast
  show "json_number (m @ bs)" using spelled_number [OF bs(2), of m] assms(2) by (simp add: bs(1))
  have "list_ex (\<lambda>b. b = 0x2E \<or> b = 0x65 \<or> b = 0x45) bs"
    using bs(3) by (auto simp: bs(1) spelled_def exponent_octets_def split: option.splits)
  then show "number_type (m @ bs) = value_float_tok" by (simp add: number_type_def)
  obtain d i' where "i = d # i'" using bs(2) by (cases i) (auto simp: spells_number_def)
  then have head: "\<not> number_negative bs" by (simp add: number_negative_def bs(1) spelled_def digit_octets_def)
  then show "number_negative (m @ bs) = neg" using assms(2) by (simp add: number_negative_def)
  show "number_value (m @ bs) = (if neg then - r else r)"
    using head assms(2) spelled_value [OF bs(2)] r by (simp add: number_value_def bs(1)) (simp add: number_negative_def)
qed

lemma to_chars_text:
  assumes "double_isfinite x" "25 \<le> length buf"
  shows "\<exists>m n. to_chars buf x = Inr (m, n) \<and> n \<le> 24 \<and> json_number (octets_of (take n m)) \<and>
    number_type (octets_of (take n m)) = value_float_tok \<and> rounds_to (octets_of (take n m)) x"
proof -
  from to_chars_ok [OF assms] obtain t rest where
    t: "to_chars buf x = Inr (sign_text x @ t @ rest, length (sign_text x @ t))"
      "if magnitude x = 0 then t = ''0.0''
       else \<exists>ds e. t = format_text ds e \<and> decimal ds \<and> length ds \<le> 17 \<and> - 341 \<le> e \<and> e \<le> 310 \<and>
         halfway_below x < real (dec ds) * 10 powi e \<and> real (dec ds) * 10 powi e < halfway_above x" by blast
  have "\<exists>r. spelled_as (octets_of t) r \<and> nearest_double (if signbit x then - r else r) x \<and> length t \<le> 23"
  proof (cases "magnitude x = 0")
    case True
    have "spelled_as (octets_of ''0.0'') 0"
      by (rule spelled_asI [of _ "[0]" "[0]" None]) (simp_all add: spelled_def exponent_octets_def digit_octets_def byte_val_def spells_number_def dec_def)
    with True t(2) zero_nearest [OF True] show ?thesis by (intro exI [of _ 0]) simp
  next
    case False
    with t(2) obtain ds e where d: "t = format_text ds e" "decimal ds" "length ds \<le> 17" "- 341 \<le> e" "e \<le> 310"
      "halfway_below x < real (dec ds) * 10 powi e" "real (dec ds) * 10 powi e < halfway_above x" by auto
    from format_spelled [OF d(2-5)] format_text_length [OF d(3), of e] between_nearest [OF assms(1) False d(6,7)] show ?thesis
      unfolding d(1) by blast
  qed
  then obtain r where r: "spelled_as (octets_of t) r" "nearest_double (if signbit x then - r else r) x" "length t \<le> 23" by blast
  have "octets_of (sign_text x) = (if signbit x then [0x2D] else [])" by (simp add: sign_text_def byte_val_def)
  note s = spelled_as_number [OF r(1) this]
  have "length (sign_text x @ t) \<le> 24" using r(3) by (simp add: sign_text_def)
  then show ?thesis using t(1) s r(2) by (simp add: rounds_to_def octets_of_def)
qed

subsection \<open>Documents\<close>

text \<open>
  The operations on doubles: the buffer of the serializer in which the digits are written (its contents do
  not matter), \<^verbatim>\<open>strtod\<close> of the C library, and the conversion to an \<^verbatim>\<open>int\<close>, which drops the fraction and is undefined where the result is no \<^verbatim>\<open>int\<close>.
\<close>

definition double_to_int :: "double \<Rightarrow> int option" where
  "double_to_int x =
     (let n = (if 0 \<le> double_e x then double_f x * 2 ^ nat (double_e x) else double_f x div 2 ^ nat (- double_e x));
          i = (if signbit x then - int n else int n)
      in if double_isfinite x \<and> - (2 ^ 31) \<le> i \<and> i < 2 ^ 31 then Some i else None)"

definition double_to_chars :: "bytes \<Rightarrow> double \<Rightarrow> bytes" where
  "double_to_chars number_buffer x = (case to_chars number_buffer x of Inl e \<Rightarrow> [] | Inr (m, n) \<Rightarrow> take n m)"

definition double_ops :: "bytes \<Rightarrow> (bytes \<Rightarrow> double) \<Rightarrow> double float_ops" where
  "double_ops number_buffer c_strtod =
     \<lparr>strtod = c_strtod, isfinite = double_isfinite, float_to_int = double_to_int, float_to_chars = double_to_chars number_buffer\<rparr>"

text \<open>\<^verbatim>\<open>strtod\<close> rounds correctly: where \<open>x\<close> is nearest to the number, it returns \<open>x\<close>.\<close>

definition strtod_rounds :: "(bytes \<Rightarrow> double) \<Rightarrow> char \<Rightarrow> double \<Rightarrow> bool" where
  "strtod_rounds c_strtod dp x \<longleftrightarrow> (\<forall>bs. json_number bs \<and> rounds_to bs x \<longrightarrow> c_strtod (map (char_of \<circ> localized dp) bs) = x)"

fun json_floats :: "'f json \<Rightarrow> 'f set" where
  "json_floats (JObject m) = (\<Union>kv \<in> set m. json_floats (snd kv))"
| "json_floats (JArray js) = (\<Union>j \<in> set js. json_floats j)"
| "json_floats (JFloat f) = {f}"
| "json_floats j = {}"

fun integers_as_parsed :: "'f json \<Rightarrow> bool" where
  "integers_as_parsed (JObject m) \<longleftrightarrow> (\<forall>kv \<in> set m. integers_as_parsed (snd kv))"
| "integers_as_parsed (JArray js) \<longleftrightarrow> (\<forall>j \<in> set js. integers_as_parsed j)"
| "integers_as_parsed (JInteger i) \<longleftrightarrow> - (2 ^ 63) < i \<and> i < 0"
| "integers_as_parsed j \<longleftrightarrow> True"

lemma double_readable:
  assumes "double_isfinite x" "25 \<le> length buf" "strtod_rounds c_strtod dp x"
  shows "readable (double_ops buf c_strtod) dp (JFloat x)"
proof -
  from to_chars_text [OF assms(1,2)] obtain m n where
    t: "to_chars buf x = Inr (m, n)" "json_number (octets_of (take n m))" "number_type (octets_of (take n m)) = value_float_tok"
      "rounds_to (octets_of (take n m)) x" by blast
  then show ?thesis using assms(3) by (simp add: double_ops_def double_to_chars_def number_tok_def strtod_rounds_def)
qed

lemma readable_doubles:
  "json_wf (double_ops buf c_strtod) j \<Longrightarrow> 25 \<le> length buf \<Longrightarrow> integers_as_parsed j \<Longrightarrow> \<forall>x \<in> json_floats j. strtod_rounds c_strtod dp x \<Longrightarrow>
     readable (double_ops buf c_strtod) dp j"
proof (induction "double_ops buf c_strtod" j rule: json_wf.induct)
  case (8 x)
  then have "double_isfinite x" by (simp add: double_ops_def)
  with 8 show ?case using double_readable [of x buf c_strtod dp] by simp
qed auto

text \<open>
  C33: every finite double is printed, and correctly. With a buffer of at least 25 bytes, \<^verbatim>\<open>to_chars\<close> trips over none
  of the assertions of Grisu2, writes at most 24 characters inside the buffer, and what it writes is a number of JSON
  with a fraction or an exponent that has the sign of the double and is closer to it than to every other finite double.
\<close>

theorem to_chars_correct:
  assumes "double_isfinite x" "25 \<le> length buf"
  shows "\<exists>m n. to_chars buf x = Inr (m, n) \<and> n \<le> 24 \<and> json_number (octets_of (take n m)) \<and>
    number_type (octets_of (take n m)) = value_float_tok \<and> rounds_to (octets_of (take n m)) x"
  using to_chars_text [OF assms] .

theorem to_chars_correct_witness:
  "\<exists>m n. to_chars (replicate 64 CHR 0x00) 0xC00921FB54442D18 = Inr (m, n) \<and> n \<le> 24 \<and> json_number (octets_of (take n m)) \<and>
     number_type (octets_of (take n m)) = value_float_tok \<and> rounds_to (octets_of (take n m)) 0xC00921FB54442D18"
proof (rule to_chars_correct)
  show "double_isfinite 0xC00921FB54442D18" by (simp add: double_isfinite_def magnitude_def drop_bit_eq_div)
qed simp

text \<open>
  C34: documents with doubles survive \<^verbatim>\<open>dump\<close> and \<^verbatim>\<open>parse\<close>. Whatever the buffer of the serializer holds, if the \<^verbatim>\<open>strtod\<close>
  of the C library returns each double of the document for the numbers that are nearest to it, then \<^verbatim>\<open>dump\<close> of a
  well-formed document, whose integers are stored the way the parser stores them, succeeds, and parsing the text gives
  back the document, every double with all its bits.
\<close>

theorem json_double_roundtrip:
  assumes "json_wf (double_ops buf c_strtod) j" "length buf = 64" "integers_as_parsed j" "\<forall>x \<in> json_floats j. strtod_rounds c_strtod dp x"
    and "indent \<le> 512" "indent < 0 \<or> space_octet (byte_val indent_char)"
  shows "\<exists>t. json_dump (double_ops buf c_strtod) indent indent_char ascii handler j = Inr t \<and>
    json_parse (double_ops buf c_strtod) dp True t = Inr j"
proof -
  have "readable (double_ops buf c_strtod) dp j" by (rule readable_doubles [OF assms(1) _ assms(3,4)]) (simp add: assms(2))
  from json_dump_parse [OF assms(1) this assms(5,6)] show ?thesis .
qed

theorem json_double_roundtrip_witness:
  "let st = (\<lambda>s. if s \<noteq> [] \<and> hd s = CHR ''-'' then 0xC004000000000000 else 0x3FB999999999999A);
       fl = double_ops (replicate 64 CHR ''x'') st;
       j = JArray [JFloat 0x3FB999999999999A, JObject [(''k'', JFloat 0xC004000000000000)], JUnsigned 5]
   in \<exists>t. json_dump fl 2 CHR '' '' False strict j = Inr t \<and> json_parse fl CHR ''.'' True t = Inr j"
proof -
  let ?st = "(\<lambda>s. if s \<noteq> [] \<and> hd s = CHR ''-'' then 0xC004000000000000 else 0x3FB999999999999A) :: bytes \<Rightarrow> double"
  have "signbit 0xC004000000000000" "\<not> signbit 0x3FB999999999999A" by (simp_all add: signbit_iff)
  moreover have "(map (char_of \<circ> localized (CHR ''.'')) bs \<noteq> [] \<and> hd (map (char_of \<circ> localized (CHR ''.'')) bs) = CHR ''-'') = number_negative bs"
    if "json_number bs" for bs
  proof (cases bs)
    case (Cons b u)
    with that json_number_head(1) [of b u] have "b < 256" by (auto simp: digit_octet_def)
    then show ?thesis using char_of_eq_iff [of b "CHR ''-''"] by (auto simp: Cons number_negative_def localized_def byte_val_def take_bit_eq_mod)
  qed (simp add: number_negative_def)
  ultimately have "strtod_rounds ?st CHR ''.'' 0xC004000000000000" "strtod_rounds ?st CHR ''.'' 0x3FB999999999999A"
    by (auto simp: strtod_rounds_def rounds_to_def)
  moreover have "json_wf (double_ops (replicate 64 CHR ''x'') ?st) (JArray [JFloat 0x3FB999999999999A, JObject [(''k'', JFloat 0xC004000000000000)], JUnsigned 5])"
    by (simp add: double_ops_def double_isfinite_def magnitude_def drop_bit_eq_div object_ok_def follow_ranges_def byte_val_def)
  ultimately show ?thesis unfolding Let_def
    by (intro json_double_roundtrip) (simp_all add: space_octet_def byte_val_def)
qed

end
