(* ===== verification/Json_Binary.thy ===== *)
theory Json_Binary
  imports Json_Parser_Correct Json_Dump Json_Grisu
begin

text \<open>
  What the binary formats of the JSON library share (\<^verbatim>\<open>detail::binary_reader\<close> and \<^verbatim>\<open>detail::binary_writer\<close> of
  \<^verbatim>\<open>json/json.hpp\<close>): reading bytes, numbers in network byte order, strings, errors, and the entry point with
  its strict mode. \<open>le\<close> says whether the machine is little endian. \<^verbatim>\<open>number_float_t\<close> is \<^verbatim>\<open>double\<close>. What the
  standard library allows as the size of a container is the record \<open>max_sizes\<close>.
\<close>

subsection \<open>Reading\<close>

datatype input_format_t = cbor | msgpack

record binary_reader =
  bsource :: bytes
  bcurrent :: int
  bchars_read :: nat
  bsax :: "double dom"

record max_sizes =
  array_max_size :: nat
  object_max_size :: nat

definition reader_new :: "bytes \<Rightarrow> binary_reader" where
  "reader_new input = \<lparr>bsource = input, bcurrent = - 1, bchars_read = 0, bsax = dom_new\<rparr>"

definition bget :: "binary_reader \<Rightarrow> binary_reader" where
  "bget r =
     (case bsource r of
        [] \<Rightarrow> r\<lparr>bchars_read := bchars_read r + 1, bcurrent := - 1\<rparr>
      | c # cs \<Rightarrow> r\<lparr>bsource := cs, bchars_read := bchars_read r + 1, bcurrent := int (byte_val c)\<rparr>)"

definition get_byte_string :: "binary_reader \<Rightarrow> bytes" where
  "get_byte_string r = hex_byte (nat (bcurrent r mod 256))"

definition format_message :: "input_format_t \<Rightarrow> bytes \<Rightarrow> bytes \<Rightarrow> bytes" where
  "format_message format detail context =
     ''syntax error while parsing '' @ (case format of cbor \<Rightarrow> ''CBOR'' | msgpack \<Rightarrow> ''MessagePack'') @
     '' '' @ context @ '': '' @ detail"

definition parse_error_at_byte :: "nat \<Rightarrow> nat \<Rightarrow> bytes \<Rightarrow> cxx_error" where
  "parse_error_at_byte ident byte what_arg =
     Json_exception ident (exception_name ''parse_error'' ident @ ''parse error'' @
       (if byte \<noteq> 0 then '' at byte '' @ to_string byte else []) @ '': '' @ what_arg)"

definition bsax_error :: "bool \<Rightarrow> cxx_error \<Rightarrow> binary_reader \<Rightarrow> (bool \<times> binary_reader) res" where
  "bsax_error allow_exceptions ex r =
     bind_res (sax_parse_error allow_exceptions ex (bsax r)) (\<lambda>d. Inr (False, r\<lparr>bsax := d\<rparr>))"

definition format_error :: "bool \<Rightarrow> input_format_t \<Rightarrow> nat \<Rightarrow> bytes \<Rightarrow> bytes \<Rightarrow> binary_reader \<Rightarrow> (bool \<times> binary_reader) res" where
  "format_error allow_exceptions format ident detail context r =
     bsax_error allow_exceptions (parse_error_at_byte ident (bchars_read r) (format_message format detail context)) r"

definition unexpect_eof :: "bool \<Rightarrow> input_format_t \<Rightarrow> bytes \<Rightarrow> binary_reader \<Rightarrow> (bool \<times> binary_reader) res" where
  "unexpect_eof allow_exceptions format context r =
     (if bcurrent r = - 1 then format_error allow_exceptions format 110 ''unexpected end of input'' context r
      else Inr (True, r))"

text \<open>An event for the consumer that builds the document.\<close>

definition bsax_do :: "(double dom \<Rightarrow> double dom res) \<Rightarrow> binary_reader \<Rightarrow> (bool \<times> binary_reader) res" where
  "bsax_do f r = bind_res (f (bsax r)) (\<lambda>d. Inr (True, r\<lparr>bsax := d\<rparr>))"

text \<open>\<^verbatim>\<open>a and b\<close> for calls that return whether they succeeded.\<close>

definition and_then :: "(bool \<times> binary_reader) res \<Rightarrow> (binary_reader \<Rightarrow> (bool \<times> binary_reader) res) \<Rightarrow> (bool \<times> binary_reader) res" where
  "and_then m k = bind_res m (\<lambda>(ok, r). if ok then k r else Inr (False, r))"

subsection \<open>Numbers\<close>

text \<open>The number whose representation in memory is the given array.\<close>

definition memory_number :: "bool \<Rightarrow> nat list \<Rightarrow> nat" where
  "memory_number le vec = foldr (\<lambda>b n. b + 256 * n) (if le then vec else rev vec) 0"

primrec get_number_loop ::
  "bool \<Rightarrow> bool \<Rightarrow> input_format_t \<Rightarrow> nat \<Rightarrow> nat list \<Rightarrow> binary_reader \<Rightarrow> (bool \<times> nat list \<times> binary_reader) res" where
  "get_number_loop le al format 0 vec r = Inr (True, vec, r)"
| "get_number_loop le al format (Suc n) vec r =
     (let i = length vec - Suc n; r1 = bget r
      in bind_res (unexpect_eof al format ''number'' r1) (\<lambda>(ok, r2).
           if \<not> ok then Inr (False, vec, r2)
           else get_number_loop le al format n
                  (vec[(if le then length vec - i - 1 else i) := nat (bcurrent r2 mod 256)]) r2))"

text \<open>\<open>width\<close> is \<^verbatim>\<open>sizeof(NumberType)\<close>; the continuation runs if the number could be read.\<close>

definition get_number ::
  "bool \<Rightarrow> bool \<Rightarrow> input_format_t \<Rightarrow> nat \<Rightarrow> binary_reader \<Rightarrow> (nat \<Rightarrow> binary_reader \<Rightarrow> 'a res) \<Rightarrow> (binary_reader \<Rightarrow> 'a) \<Rightarrow> 'a res" where
  "get_number le al format width r k failed =
     bind_res (get_number_loop le al format width (replicate width 0) r) (\<lambda>(ok, vec, r1).
       if ok then k (memory_number le vec) r1 else Inr (failed r1))"

definition number_event ::
  "bool \<Rightarrow> bool \<Rightarrow> input_format_t \<Rightarrow> nat \<Rightarrow> (nat \<Rightarrow> double json) \<Rightarrow> binary_reader \<Rightarrow> (bool \<times> binary_reader) res" where
  "number_event le al format width f r =
     get_number le al format width r (\<lambda>n. bsax_do (sax_value (f n))) (\<lambda>r1. (False, r1))"

text \<open>Two's complement.\<close>

definition signed_number :: "nat \<Rightarrow> nat \<Rightarrow> int" where
  "signed_number width n = (if n < 2 ^ (8 * width - 1) then int n else int n - 2 ^ (8 * width))"

subsection \<open>Floating-point numbers\<close>

definition double_infinity :: double where
  "double_infinity = 0x7FF0000000000000"

definition double_quiet_NaN :: double where
  "double_quiet_NaN = 0x7FF8000000000000"

definition double_neg :: "double \<Rightarrow> double" where
  "double_neg x = xor x 0x8000000000000000"

text \<open>\<^verbatim>\<open>ldexp\<close> of an integer of at most 53 bits, where the result is a normal number.\<close>

fun bit_length :: "nat \<Rightarrow> nat" where
  "bit_length n = (if n = 0 then 0 else Suc (bit_length (n div 2)))"

declare bit_length.simps [simp del]

definition ldexp_double :: "nat \<Rightarrow> int \<Rightarrow> double" where
  "ldexp_double m e =
     (if m = 0 then 0
      else let k = bit_length m - 1
           in word_of_nat (nat (e + int k + 1023) * 2 ^ 52 + (m * 2 ^ (52 - k) - 2 ^ 52)))"

definition half_to_double :: "nat \<Rightarrow> double" where
  "half_to_double half =
     (let exp = and (drop_bit 10 half) 0x1F; mant = and half 0x3FF;
          val = (if exp = 0 then ldexp_double mant (- 24)
                 else if exp = 31 then (if mant = 0 then double_infinity else double_quiet_NaN)
                 else ldexp_double (mant + 1024) (int exp - 25))
      in if and half 0x8000 \<noteq> 0 then double_neg val else val)"

text \<open>The conversion of \<^verbatim>\<open>float\<close> to \<^verbatim>\<open>double\<close>; a NaN becomes quiet and keeps its payload.\<close>

definition float_to_double :: "nat \<Rightarrow> double" where
  "float_to_double n =
     (let exp = and (drop_bit 23 n) 0xFF; mant = and n 0x7FFFFF;
          val = (if exp = 0 then ldexp_double mant (- 149)
                 else if exp = 255 then
                   (if mant = 0 then double_infinity else or double_quiet_NaN (word_of_nat (push_bit 29 mant)))
                 else ldexp_double (mant + 2 ^ 23) (int exp - 150))
      in if and n 0x80000000 \<noteq> 0 then double_neg val else val)"

subsection \<open>Strings\<close>

text \<open>
  \<^verbatim>\<open>generate_n\<close> does not stop at the end of the input: it runs for the declared length and appends the bytes anyway. The string
  has no bound here, so the exceptions of \<^verbatim>\<open>std::string\<close> for a length it cannot have or memory it does not get do not occur.
\<close>

primrec get_string_loop ::
  "bool \<Rightarrow> input_format_t \<Rightarrow> nat \<Rightarrow> bool \<Rightarrow> bytes \<Rightarrow> binary_reader \<Rightarrow> (bool \<times> bytes \<times> binary_reader) res" where
  "get_string_loop al format 0 success result r = Inr (success, result, r)"
| "get_string_loop al format (Suc n) success result r =
     bind_res (unexpect_eof al format ''string'' (bget r)) (\<lambda>(ok, r1).
       get_string_loop al format n (success \<and> ok) (result @ [char_of (nat (bcurrent r1 mod 256))]) r1)"

definition get_binary_string :: "bool \<Rightarrow> input_format_t \<Rightarrow> nat \<Rightarrow> bytes \<Rightarrow> binary_reader \<Rightarrow> (bool \<times> bytes \<times> binary_reader) res" where
  "get_binary_string al format len result r = get_string_loop al format len True result r"

definition get_sized_string ::
  "bool \<Rightarrow> bool \<Rightarrow> input_format_t \<Rightarrow> nat \<Rightarrow> bytes \<Rightarrow> binary_reader \<Rightarrow> (bool \<times> bytes \<times> binary_reader) res" where
  "get_sized_string le al format width result r =
     get_number le al format width r (\<lambda>len. get_binary_string al format len result) (\<lambda>r1. (False, result, r1))"

definition string_event :: "(bool \<times> bytes \<times> binary_reader) res \<Rightarrow> (bytes \<Rightarrow> double dom \<Rightarrow> double dom res) \<Rightarrow> (bool \<times> binary_reader) res" where
  "string_event m f = bind_res m (\<lambda>(ok, s, r). if ok then bsax_do (f s) r else Inr (False, r))"

subsection \<open>Containers\<close>

text \<open>\<^verbatim>\<open>size_t(-1)\<close> stands for an unknown size.\<close>

definition unknown_size :: nat where
  "unknown_size = 2 ^ 64 - 1"

definition start_sized :: "double json \<Rightarrow> bytes \<Rightarrow> nat \<Rightarrow> nat \<Rightarrow> double dom \<Rightarrow> double dom res" where
  "start_sized v kind max_size len d =
     bind_res (sax_start v d) (\<lambda>d1.
       if len \<noteq> unknown_size \<and> max_size < len
       then Inl (out_of_range_create 408 (''excessive '' @ kind @ '' size: '' @ to_string len))
       else Inr d1)"

definition start_array :: "max_sizes \<Rightarrow> nat \<Rightarrow> double dom \<Rightarrow> double dom res" where
  "start_array mx len = start_sized (JArray []) ''array'' (array_max_size mx) len"

definition start_object :: "max_sizes \<Rightarrow> nat \<Rightarrow> double dom \<Rightarrow> double dom res" where
  "start_object mx len = start_sized (JObject []) ''object'' (object_max_size mx) len"

text \<open>
  The loops over the elements: a \<^verbatim>\<open>for\<close> loop over a given number of them, and one that ends at the break byte 0xFF,
  with fuel for its rounds.
\<close>

primrec for_times :: "nat \<Rightarrow> (binary_reader \<Rightarrow> (bool \<times> binary_reader) res) \<Rightarrow> binary_reader \<Rightarrow> (bool \<times> binary_reader) res" where
  "for_times 0 body r = Inr (True, r)"
| "for_times (Suc len) body r = and_then (body r) (for_times len body)"

primrec until_break :: "nat \<Rightarrow> (binary_reader \<Rightarrow> (bool \<times> binary_reader) res) \<Rightarrow> binary_reader \<Rightarrow> (bool \<times> binary_reader) res" where
  "until_break 0 body r = Inl Undefined"
| "until_break (Suc n) body r =
     (if bcurrent (bget r) = 0xFF then Inr (True, bget r) else and_then (body (bget r)) (until_break n body))"

subsection \<open>The entry point\<close>

definition binary_sax_parse ::
  "(binary_reader \<Rightarrow> (bool \<times> binary_reader) res) \<Rightarrow> bool \<Rightarrow> input_format_t \<Rightarrow> bool \<Rightarrow> binary_reader \<Rightarrow> (bool \<times> binary_reader) res" where
  "binary_sax_parse parse al format strict_mode r =
     bind_res (parse r) (\<lambda>(result, r1).
       if result \<and> strict_mode then
         let r2 = bget r1
         in if bcurrent r2 \<noteq> - 1
            then format_error al format 110 (''expected end of input; last byte: 0x'' @ get_byte_string r2) ''value'' r2
            else Inr (result, r2)
       else Inr (result, r1))"

definition from_binary ::
  "(binary_reader \<Rightarrow> (bool \<times> binary_reader) res) \<Rightarrow> bool \<Rightarrow> input_format_t \<Rightarrow> bool \<Rightarrow> bytes \<Rightarrow> double json res" where
  "from_binary parse al format strict_mode input =
     bind_res (binary_sax_parse parse al format strict_mode (reader_new input)) (\<lambda>(res, r).
       Inr (if res then root (bsax r) else JDiscarded))"

subsection \<open>Writing\<close>

text \<open>The representation of a number in memory.\<close>

primrec low_bytes :: "nat \<Rightarrow> nat \<Rightarrow> nat list" where
  "low_bytes 0 n = []"
| "low_bytes (Suc width) n = n mod 256 # low_bytes width (n div 256)"

definition number_memory :: "bool \<Rightarrow> nat \<Rightarrow> nat \<Rightarrow> nat list" where
  "number_memory le width n = (if le then low_bytes width n else rev (low_bytes width n))"

definition write_number :: "bool \<Rightarrow> nat \<Rightarrow> nat \<Rightarrow> bytes" where
  "write_number le width n =
     (let vec = number_memory le width n in map char_of (if le then rev vec else vec))"

definition write_byte :: "nat \<Rightarrow> bytes" where
  "write_byte n = [char_of n]"

definition write_double :: "bool \<Rightarrow> double \<Rightarrow> bytes" where
  "write_double le x = write_number le 8 (unat x)"

definition write_signed :: "bool \<Rightarrow> nat \<Rightarrow> int \<Rightarrow> bytes" where
  "write_signed le width i = write_number le width (nat (i mod 2 ^ (8 * width)))"

end
