(* ===== verification/Json_Cbor.thy ===== *)
theory Json_Cbor
  imports Json_Binary
begin

text \<open>
  CBOR (\<^verbatim>\<open>parse_cbor_internal\<close> and \<^verbatim>\<open>write_cbor\<close> of \<^verbatim>\<open>json/json.hpp\<close>). The functions of the reader call each other;
  each level of nesting and each round of a loop that waits for the break byte takes one unit of fuel. Without
  fuel they are \<open>Undefined\<close>; every level and every round reads a byte, so \<open>from_cbor\<close> starts with enough for its
  input.
\<close>

subsection \<open>Reading\<close>

text \<open>The loop over the chunks of a string of indefinite length, given the function that reads one.\<close>

primrec cbor_chunks ::
  "nat \<Rightarrow> (binary_reader \<Rightarrow> (bool \<times> bytes \<times> binary_reader) res) \<Rightarrow> bytes \<Rightarrow> binary_reader \<Rightarrow> (bool \<times> bytes \<times> binary_reader) res" where
  "cbor_chunks 0 str result r = Inl Undefined"
| "cbor_chunks (Suc n) str result r =
     (if bcurrent (bget r) = 0xFF then Inr (True, result, bget r)
      else bind_res (str (bget r)) (\<lambda>(ok, chunk, r1).
             if ok then cbor_chunks n str (result @ chunk) r1 else Inr (False, result, r1)))"

primrec get_cbor_string :: "bool \<Rightarrow> bool \<Rightarrow> nat \<Rightarrow> bytes \<Rightarrow> binary_reader \<Rightarrow> (bool \<times> bytes \<times> binary_reader) res" where
  "get_cbor_string le al 0 result r = Inl Undefined"
| "get_cbor_string le al (Suc n) result r =
     bind_res (unexpect_eof al cbor ''string'' r) (\<lambda>(ok, r0).
       if \<not> ok then Inr (False, result, r0)
       else if 0x60 \<le> bcurrent r \<and> bcurrent r \<le> 0x77 then get_binary_string al cbor (nat (and (bcurrent r) 0x1F)) result r
       else if bcurrent r = 0x78 then get_sized_string le al cbor 1 result r
       else if bcurrent r = 0x79 then get_sized_string le al cbor 2 result r
       else if bcurrent r = 0x7A then get_sized_string le al cbor 4 result r
       else if bcurrent r = 0x7B then get_sized_string le al cbor 8 result r
       else if bcurrent r = 0x7F then cbor_chunks n (get_cbor_string le al n []) result r
       else bind_res
              (format_error al cbor 113
                 (''expected length specification (0x60-0x7B) or indefinite string type (0x7F); last byte: 0x'' @ get_byte_string r)
                 ''string'' r)
              (\<lambda>(ok, r1). Inr (ok, result, r1)))"

definition get_half :: "bool \<Rightarrow> binary_reader \<Rightarrow> (bool \<times> binary_reader) res" where
  "get_half al r =
     and_then (unexpect_eof al cbor ''number'' (bget r)) (\<lambda>r1.
     and_then (unexpect_eof al cbor ''number'' (bget r1)) (\<lambda>r2.
       bsax_do (sax_value (JFloat (half_to_double (push_bit 8 (nat (bcurrent r1 mod 256)) + nat (bcurrent r2 mod 256))))) r2))"

text \<open>\<^verbatim>\<open>-1 - n\<close> in \<^verbatim>\<open>int64_t\<close>, where \<open>n\<close> is converted to \<^verbatim>\<open>int64_t\<close> first.\<close>

definition cbor_negative :: "nat \<Rightarrow> double json" where
  "cbor_negative n = JInteger (- 1 - signed_number 8 n)"

text \<open>The cases of \<^verbatim>\<open>parse_cbor_internal\<close>, given what it calls for strings, arrays and objects.\<close>

definition cbor_value ::
  "bool \<Rightarrow> bool \<Rightarrow> (binary_reader \<Rightarrow> (bool \<times> bytes \<times> binary_reader) res) \<Rightarrow>
   (nat \<Rightarrow> binary_reader \<Rightarrow> (bool \<times> binary_reader) res) \<Rightarrow> (nat \<Rightarrow> binary_reader \<Rightarrow> (bool \<times> binary_reader) res) \<Rightarrow>
   binary_reader \<Rightarrow> (bool \<times> binary_reader) res" where
  "cbor_value le al str array object r =
     (let c = bcurrent r; sized = (\<lambda>width k. get_number le al cbor width r k (\<lambda>r1. (False, r1)))
      in if c = - 1 then unexpect_eof al cbor ''value'' r
         else if c \<le> 0x17 then bsax_do (sax_value (JUnsigned (nat c))) r
         else if c = 0x18 then number_event le al cbor 1 JUnsigned r
         else if c = 0x19 then number_event le al cbor 2 JUnsigned r
         else if c = 0x1A then number_event le al cbor 4 JUnsigned r
         else if c = 0x1B then number_event le al cbor 8 JUnsigned r
         else if 0x20 \<le> c \<and> c \<le> 0x37 then bsax_do (sax_value (JInteger (0x20 - 1 - c))) r
         else if c = 0x38 then number_event le al cbor 1 (\<lambda>number. JInteger (- 1 - int number)) r
         else if c = 0x39 then number_event le al cbor 2 (\<lambda>number. JInteger (- 1 - int number)) r
         else if c = 0x3A then number_event le al cbor 4 (\<lambda>number. JInteger (- 1 - int number)) r
         else if c = 0x3B then number_event le al cbor 8 cbor_negative r
         else if 0x60 \<le> c \<and> c \<le> 0x7B \<or> c = 0x7F then string_event (str r) (\<lambda>s. sax_value (JString s))
         else if 0x80 \<le> c \<and> c \<le> 0x97 then array (nat (and c 0x1F)) r
         else if c = 0x98 then sized 1 array
         else if c = 0x99 then sized 2 array
         else if c = 0x9A then sized 4 array
         else if c = 0x9B then sized 8 array
         else if c = 0x9F then array unknown_size r
         else if 0xA0 \<le> c \<and> c \<le> 0xB7 then object (nat (and c 0x1F)) r
         else if c = 0xB8 then sized 1 object
         else if c = 0xB9 then sized 2 object
         else if c = 0xBA then sized 4 object
         else if c = 0xBB then sized 8 object
         else if c = 0xBF then object unknown_size r
         else if c = 0xF4 then bsax_do (sax_value (JBoolean False)) r
         else if c = 0xF5 then bsax_do (sax_value (JBoolean True)) r
         else if c = 0xF6 then bsax_do (sax_value JNull) r
         else if c = 0xF9 then get_half al r
         else if c = 0xFA then number_event le al cbor 4 (\<lambda>number. JFloat (float_to_double number)) r
         else if c = 0xFB then number_event le al cbor 8 (\<lambda>number. JFloat (word_of_nat number)) r
         else format_error al cbor 112 (''invalid byte: 0x'' @ get_byte_string r) ''value'' r)"

text \<open>
  \<^verbatim>\<open>get_cbor_array\<close> and \<^verbatim>\<open>get_cbor_object\<close>, given the function that reads a value from the next or, without
  \<^verbatim>\<open>get_char\<close>, from the current byte, and the one that reads a string from the current byte.
\<close>

definition get_cbor_array ::
  "max_sizes \<Rightarrow> nat \<Rightarrow> (bool \<Rightarrow> binary_reader \<Rightarrow> (bool \<times> binary_reader) res) \<Rightarrow> nat \<Rightarrow> binary_reader \<Rightarrow> (bool \<times> binary_reader) res" where
  "get_cbor_array mx n parse len r =
     and_then (bsax_do (start_array mx len) r) (\<lambda>r1.
     and_then (if len \<noteq> unknown_size then for_times len (parse True) r1 else until_break n (parse False) r1) (\<lambda>r2.
       bsax_do sax_end r2))"

definition get_cbor_object ::
  "max_sizes \<Rightarrow> nat \<Rightarrow> (binary_reader \<Rightarrow> (bool \<times> bytes \<times> binary_reader) res) \<Rightarrow> (bool \<Rightarrow> binary_reader \<Rightarrow> (bool \<times> binary_reader) res) \<Rightarrow>
   nat \<Rightarrow> binary_reader \<Rightarrow> (bool \<times> binary_reader) res" where
  "get_cbor_object mx n str parse len r =
     (let member = (\<lambda>r. and_then (string_event (str r) sax_key) (parse True))
      in and_then (bsax_do (start_object mx len) r) (\<lambda>r1.
         and_then (if len \<noteq> unknown_size then for_times len (\<lambda>r. member (bget r)) r1 else until_break n member r1) (\<lambda>r2.
           bsax_do sax_end r2)))"

primrec parse_cbor_internal :: "bool \<Rightarrow> bool \<Rightarrow> max_sizes \<Rightarrow> nat \<Rightarrow> bool \<Rightarrow> binary_reader \<Rightarrow> (bool \<times> binary_reader) res" where
  "parse_cbor_internal le al mx 0 get_char r = Inl Undefined"
| "parse_cbor_internal le al mx (Suc n) get_char r =
     cbor_value le al (get_cbor_string le al n [])
       (get_cbor_array mx n (parse_cbor_internal le al mx n))
       (get_cbor_object mx n (get_cbor_string le al n []) (parse_cbor_internal le al mx n))
       (if get_char then bget r else r)"

definition from_cbor :: "bool \<Rightarrow> max_sizes \<Rightarrow> bool \<Rightarrow> bool \<Rightarrow> bytes \<Rightarrow> double json res" where
  "from_cbor le mx strict_mode al input =
     from_binary (\<lambda>r. parse_cbor_internal le al mx (length input + 2) True r) al cbor strict_mode input"

subsection \<open>Writing\<close>

definition cbor_unsigned :: "bool \<Rightarrow> nat \<Rightarrow> bytes" where
  "cbor_unsigned le n =
     (if n \<le> 0x17 then write_number le 1 n
      else if n \<le> 0xFF then write_byte 0x18 @ write_number le 1 n
      else if n \<le> 0xFFFF then write_byte 0x19 @ write_number le 2 n
      else if n \<le> 0xFFFFFFFF then write_byte 0x1A @ write_number le 4 n
      else write_byte 0x1B @ write_number le 8 n)"

definition cbor_integer :: "bool \<Rightarrow> int \<Rightarrow> bytes" where
  "cbor_integer le i =
     (if 0 \<le> i then cbor_unsigned le (nat i)
      else let positive_number = nat (- 1 - i)
           in if - 24 \<le> i then write_number le 1 (0x20 + positive_number)
              else if positive_number \<le> 0xFF then write_byte 0x38 @ write_number le 1 positive_number
              else if positive_number \<le> 0xFFFF then write_byte 0x39 @ write_number le 2 positive_number
              else if positive_number \<le> 0xFFFFFFFF then write_byte 0x3A @ write_number le 4 positive_number
              else write_byte 0x3B @ write_number le 8 positive_number)"

text \<open>The control byte and the size of a string, array or object; \<open>major\<close> is 0x60, 0x80 or 0xA0.\<close>

definition cbor_size :: "bool \<Rightarrow> nat \<Rightarrow> nat \<Rightarrow> bytes" where
  "cbor_size le major N =
     (if N \<le> 0x17 then write_number le 1 (major + N)
      else if N \<le> 0xFF then write_byte (major + 0x18) @ write_number le 1 N
      else if N \<le> 0xFFFF then write_byte (major + 0x19) @ write_number le 2 N
      else if N \<le> 0xFFFFFFFF then write_byte (major + 0x1A) @ write_number le 4 N
      else if N \<le> 0xFFFFFFFFFFFFFFFF then write_byte (major + 0x1B) @ write_number le 8 N
      else [])"

definition cbor_string :: "bool \<Rightarrow> bytes \<Rightarrow> bytes" where
  "cbor_string le s = cbor_size le 0x60 (length s) @ s"

fun write_cbor :: "bool \<Rightarrow> double json \<Rightarrow> bytes" where
  "write_cbor le JNull = write_byte 0xF6"
| "write_cbor le (JBoolean b) = write_byte (if b then 0xF5 else 0xF4)"
| "write_cbor le (JInteger i) = cbor_integer le i"
| "write_cbor le (JUnsigned n) = cbor_unsigned le n"
| "write_cbor le (JFloat x) = write_byte 0xFB @ write_double le x"
| "write_cbor le (JString s) = cbor_string le s"
| "write_cbor le (JArray js) = cbor_size le 0x80 (length js) @ concat (map (write_cbor le) js)"
| "write_cbor le (JObject m) =
     cbor_size le 0xA0 (length m) @ concat (map (\<lambda>kv. cbor_string le (fst kv) @ write_cbor le (snd kv)) m)"
| "write_cbor le JDiscarded = []"

definition to_cbor :: "bool \<Rightarrow> double json \<Rightarrow> bytes" where
  "to_cbor le j = write_cbor le j"

end
