(* ===== verification/Json_Binary_Correct.thy ===== *)
theory Json_Binary_Correct
  imports Json_Binary Json_Roundtrip
begin

text \<open>
  Reading back what the binary writer wrote: numbers, strings, and the loops over the elements of a container,
  for any encoding of the elements; and the contract of a binary format, from which its round trip follows.
\<close>

subsection \<open>Bytes\<close>

lemma bget_Cons: "bsource r = c # u \<Longrightarrow> bsource (bget r) = u \<and> bsax (bget r) = bsax r \<and> bcurrent (bget r) = int (byte_val c)"
  by (simp add: bget_def)

lemma unexpect_eof_ok [simp]: "0 \<le> bcurrent r \<Longrightarrow> unexpect_eof al format context r = Inr (True, r)"
  by (simp add: unexpect_eof_def)

lemma byte_current: "nat (int (byte_val c) mod 256) = byte_val c"
  using byte_val_less [of c] by simp

subsection \<open>Numbers\<close>

lemma low_bytes_props: "length (low_bytes w n) = w" "b \<in> set (low_bytes w n) \<Longrightarrow> b < 256"
  by (induction w arbitrary: n) auto

lemma low_bytes_value: "n < 256 ^ w \<Longrightarrow> foldr (\<lambda>b n. b + 256 * n) (low_bytes w n) 0 = n"
proof (induction w arbitrary: n)
  case (Suc w)
  then have "n div 256 < 256 ^ w" by (simp add: div_less_iff_less_mult mult.commute)
  with Suc.IH show ?case by simp
qed simp

lemma write_number_eq: "write_number le w n = map char_of (rev (low_bytes w n))"
  by (simp add: write_number_def number_memory_def)

lemma write_number_length [simp]: "length (write_number le w n) = w"
  by (simp add: write_number_eq low_bytes_props)

lemma write_number_1: "n < 256 \<Longrightarrow> write_number le 1 n = [char_of n]"
  by (simp add: write_number_eq)

lemma get_number_loop_ok:
  assumes "bsource r = s @ rest" "length s = n" "n \<le> length vec"
  shows "\<exists>r'. get_number_loop le al format n vec r =
      Inr (True, if le then rev (octets_of s) @ drop n vec else take (length vec - n) vec @ octets_of s, r') \<and> bsource r' = rest \<and> bsax r' = bsax r"
  using assms
proof (induction n arbitrary: s vec r)
  case 0
  then show ?case by simp
next
  case (Suc n)
  then obtain c u where s: "s = c # u" by (cases s) auto
  with Suc.prems have c: "bsource (bget r) = u @ rest" "bsax (bget r) = bsax r" "bcurrent (bget r) = int (byte_val c)"
    using bget_Cons [of r c "u @ rest"] by auto
  let ?vec = "vec[(if le then length vec - (length vec - Suc n) - 1 else length vec - Suc n) := byte_val c]"
  have step: "get_number_loop le al format (Suc n) vec r = get_number_loop le al format n ?vec (bget r)"
    using c(3) byte_current [of c] by (simp add: Let_def)
  obtain r' where r': "get_number_loop le al format n ?vec (bget r) =
      Inr (True, if le then rev (octets_of u) @ drop n ?vec else take (length ?vec - n) ?vec @ octets_of u, r')" "bsource r' = rest" "bsax r' = bsax r"
    using Suc.IH [of "bget r" u ?vec] c Suc.prems s by auto
  have "drop n (vec[n := byte_val c]) = byte_val c # drop (Suc n) vec" using Suc.prems(3) by (simp add: drop_update_swap Cons_nth_drop_Suc [symmetric])
  moreover have "take (length vec - n) (vec[length vec - Suc n := byte_val c]) = take (length vec - Suc n) vec @ [byte_val c]"
    using Suc.prems(3) by (simp add: Suc_diff_Suc [symmetric] take_Suc_conv_app_nth)
  moreover have "length vec - (length vec - Suc n) - 1 = n" using Suc.prems(3) by simp
  ultimately show ?case using r' unfolding step by (intro exI [of _ r']) (auto simp: s)
qed

lemma get_number_ok:
  assumes "bsource r = write_number le w n @ rest" "n < 256 ^ w"
  shows "\<exists>r'. get_number le al format w r k failed = k n r' \<and> bsource r' = rest \<and> bsax r' = bsax r"
proof -
  have "octets_of (write_number le w n) = rev (low_bytes w n)"
  proof -
    have "\<forall>b \<in> set (rev (low_bytes w n)). byte_val (char_of b) = b" using low_bytes_props(2) by (auto simp: byte_val_def)
    then have "map (byte_val \<circ> char_of) (rev (low_bytes w n)) = rev (low_bytes w n)" by (intro map_idI) simp
    then show ?thesis by (simp add: write_number_eq octets_of_def)
  qed
  with get_number_loop_ok [OF assms(1), of w "replicate w 0" le al format] low_bytes_value [OF assms(2)] show ?thesis
    by (cases le) (fastforce simp: get_number_def memory_number_def)+
qed

lemma signed_number_ok:
  assumes "0 < w" "- (2 ^ (8 * w - 1)) \<le> i" "i < 0"
  shows "signed_number w (nat (i mod 2 ^ (8 * w))) = i" "nat (i mod 2 ^ (8 * w)) < 256 ^ w"
proof -
  obtain k where k: "8 * w = Suc k" using assms(1) by (cases "8 * w") auto
  have "i mod 2 ^ (8 * w) = i + 2 ^ (8 * w)"
  proof -
    have "(0 :: int) < 2 ^ k" by simp
    then have "0 \<le> i + 2 ^ (8 * w)" using assms(2) unfolding k power_Suc diff_Suc_1 by linarith
    then have "(i + 2 ^ (8 * w)) mod 2 ^ (8 * w) = i + 2 ^ (8 * w)" using assms(3) by (intro mod_pos_pos_trivial) simp_all
    then show ?thesis by (simp only: mod_add_self2)
  qed
  moreover have "(256 :: nat) ^ w = 2 ^ (8 * w)" by (simp add: power_mult)
  ultimately show "signed_number w (nat (i mod 2 ^ (8 * w))) = i" "nat (i mod 2 ^ (8 * w)) < 256 ^ w"
    using assms by (auto simp: signed_number_def k nat_less_iff)
qed

lemma and_31: "nat (and (int n) 0x1F) = n mod 32"
proof -
  have "and (int n) 0x1F = int (n mod 32)" using take_bit_eq_mask [of 5 "int n"] by (simp add: mask_eq_exp_minus_1 take_bit_eq_mod zmod_int)
  then show ?thesis by (simp only: nat_int)
qed

lemma mod_32: "n < 32 \<Longrightarrow> (0x60 + n) mod 32 = n" "n < 32 \<Longrightarrow> (0x80 + n) mod 32 = n" "n < 32 \<Longrightarrow> (0xA0 + n) mod 32 = n" for n :: nat
  using mod_mult_self4 [of 32 3 n] mod_mult_self4 [of 32 4 n] mod_mult_self4 [of 32 5 n] by simp_all

lemma byte_val_char_of: "n < 256 \<Longrightarrow> byte_val (char_of n) = n"
  by (simp add: byte_val_def)

text \<open>Reading the first byte of an encoding.\<close>

lemma first_byte:
  assumes "bsource r = write_byte n @ u \<or> bsource r = write_number le 1 n @ u" "n < 256"
  shows "bsource (bget r) = u" "bsax (bget r) = bsax r" "bcurrent (bget r) = int n"
proof -
  have "bsource r = char_of n # u" using assms(1) write_number_1 [OF assms(2), of le] by (auto simp: write_byte_def)
  from bget_Cons [OF this] show "bsource (bget r) = u" "bsax (bget r) = bsax r" "bcurrent (bget r) = int n"
    using assms(2) by (simp_all add: byte_val_char_of)
qed

subsection \<open>Strings\<close>

lemma get_string_loop_ok:
  "bsource r = s @ rest \<Longrightarrow>
     \<exists>r'. get_string_loop al format (length s) True result r = Inr (True, result @ s, r') \<and> bsource r' = rest \<and> bsax r' = bsax r"
proof (induction s arbitrary: r result)
  case (Cons c s)
  then have c: "bsource (bget r) = s @ rest" "bsax (bget r) = bsax r" "bcurrent (bget r) = int (byte_val c)"
    using bget_Cons [of r c "s @ rest"] by auto
  from Cons.IH [OF c(1), of "result @ [c]"] c show ?case by (auto simp: byte_current) (simp add: byte_val_def)
qed simp

lemma get_sized_string_ok:
  assumes "bsource r = write_number le w (length s) @ s @ rest" "length s < 256 ^ w"
  shows "\<exists>r'. get_sized_string le al format w result r = Inr (True, result @ s, r') \<and> bsource r' = rest \<and> bsax r' = bsax r"
proof -
  obtain r1 where r1: "get_sized_string le al format w result r = get_binary_string al format (length s) result r1"
    "bsource r1 = s @ rest" "bsax r1 = bsax r"
    using get_number_ok [OF assms, of al format "\<lambda>len. get_binary_string al format len result" "\<lambda>r1. (False, result, r1)"]
    by (auto simp: get_sized_string_def)
  with get_string_loop_ok [OF r1(2), of al format result] show ?thesis by (simp add: get_binary_string_def)
qed

subsection \<open>Containers\<close>

lemma start_array_ok:
  "before_value F d \<Longrightarrow> len \<le> array_max_size mx \<Longrightarrow> \<exists>d'. start_array mx len d = Inr d' \<and> before_value (Array_frame [] # F) d'"
  using sax_start_array [of F d] by (auto simp: start_array_def start_sized_def)

lemma start_object_ok:
  "before_value F d \<Longrightarrow> len \<le> object_max_size mx \<Longrightarrow> \<exists>d'. start_object mx len d = Inr d' \<and> in_object F [] d'"
  using sax_start_object [of F d] by (auto simp: start_object_def start_sized_def)

text \<open>The value \<open>v\<close> has been read and put where the frames \<open>F\<close> say; \<open>rest\<close> is still to be read.\<close>

definition value_read :: "double frame list \<Rightarrow> double json \<Rightarrow> bytes \<Rightarrow> (bool \<times> binary_reader) res \<Rightarrow> bool" where
  "value_read F v rest m \<longleftrightarrow> (\<exists>r. m = Inr (True, r) \<and> bsource r = rest \<and> after_value F v (bsax r))"

lemma bsax_value_read: "before_value F (bsax r) \<Longrightarrow> value_read F v (bsource r) (bsax_do (sax_value v) r)"
  using sax_value_frames [of F "bsax r" v] by (auto simp: value_read_def bsax_do_def)

lemma number_event_read:
  assumes "before_value F (bsax r)" "bsource r = write_number le w n @ rest" "n < 256 ^ w"
  shows "value_read F (f n) rest (number_event le al format w f r)"
proof -
  obtain r1 where r1: "number_event le al format w f r = bsax_do (sax_value (f n)) r1" "bsource r1 = rest" "bsax r1 = bsax r"
    using get_number_ok [OF assms(2,3), of al format "\<lambda>n. bsax_do (sax_value (f n))" "\<lambda>r1. (False, r1)"]
    by (auto simp: number_event_def)
  with bsax_value_read [of F r1 "f n"] assms(1) show ?thesis by simp
qed

lemma for_times_array:
  assumes "\<And>j F r u. j \<in> set js \<Longrightarrow> before_value F (bsax r) \<Longrightarrow> bsource r = enc j @ u \<Longrightarrow> value_read F j u (body r)"
    and "before_value (Array_frame acc # F) (bsax r)" "bsource r = concat (map enc js) @ rest"
  shows "\<exists>r'. for_times (length js) body r = Inr (True, r') \<and> bsource r' = rest \<and> before_value (Array_frame (acc @ js) # F) (bsax r')"
  using assms
proof (induction js arbitrary: acc r)
  case (Cons j js)
  have "value_read (Array_frame acc # F) j (concat (map enc js) @ rest) (body r)" using Cons.prems(2,3) by (intro Cons.prems(1)) simp_all
  then obtain r1 where r1: "body r = Inr (True, r1)" "bsource r1 = concat (map enc js) @ rest" "before_value (Array_frame (acc @ [j]) # F) (bsax r1)"
    by (auto simp: value_read_def dest: after_value_array)
  from Cons.IH [OF _ r1(3,2)] Cons.prems(1) obtain r' where
    "for_times (length js) body r1 = Inr (True, r')" "bsource r' = rest" "before_value (Array_frame (acc @ j # js) # F) (bsax r')" by auto
  with r1(1) show ?case by (simp add: and_then_def)
qed simp

lemma for_times_object:
  assumes "\<And>kv F r u. kv \<in> set m \<Longrightarrow> before_value F (bsax r) \<Longrightarrow> bsource r = enc (snd kv) @ u \<Longrightarrow> value_read F (snd kv) u (parse r)"
    and "\<And>kv r u. kv \<in> set m \<Longrightarrow> bsource r = estr (fst kv) @ u \<Longrightarrow> \<exists>r'. str (bget r) = Inr (True, fst kv, r') \<and> bsource r' = u \<and> bsax r' = bsax r"
    and "in_object F (members acc) (bsax r)" "bsource r = concat (map (\<lambda>kv. estr (fst kv) @ enc (snd kv)) m) @ rest"
  shows "\<exists>r'. for_times (length m) (\<lambda>r. and_then (string_event (str (bget r)) sax_key) parse) r = Inr (True, r') \<and> bsource r' = rest \<and>
    in_object F (members (acc @ m)) (bsax r')"
  using assms
proof (induction m arbitrary: acc r)
  case (Cons kv m)
  let ?u = "concat (map (\<lambda>kv. estr (fst kv) @ enc (snd kv)) m) @ rest"
  obtain r1 where r1: "str (bget r) = Inr (True, fst kv, r1)" "bsource r1 = enc (snd kv) @ ?u" "bsax r1 = bsax r"
    using Cons.prems(2) [of kv r "enc (snd kv) @ ?u"] Cons.prems(4) by auto
  obtain d where d: "sax_key (fst kv) (bsax r) = Inr d" "before_value (Object_frame (members acc) (fst kv) # F) d"
    using sax_key_frames [OF Cons.prems(3), of "fst kv"] by blast
  have "value_read (Object_frame (members acc) (fst kv) # F) (snd kv) ?u (parse (r1\<lparr>bsax := d\<rparr>))"
    using d(2) r1(2) by (intro Cons.prems(1)) simp_all
  then obtain r2 where r2: "parse (r1\<lparr>bsax := d\<rparr>) = Inr (True, r2)" "bsource r2 = ?u" "in_object F (members (acc @ [kv])) (bsax r2)"
    by (auto simp: value_read_def after_value_object members_snoc [of acc "fst kv" "snd kv", simplified])
  from Cons.IH [OF _ _ r2(3,2)] Cons.prems(1,2) obtain r' where
    "for_times (length m) (\<lambda>r. and_then (string_event (str (bget r)) sax_key) parse) r2 = Inr (True, r')" "bsource r' = rest"
    "in_object F (members (acc @ kv # m)) (bsax r')" by auto
  with r1 d(1) r2(1) show ?case by (simp add: and_then_def string_event_def bsax_do_def)
qed simp

lemma array_read:
  assumes "bsource r = concat (map enc js) @ rest" "before_value F (bsax r)" "length js \<le> array_max_size mx"
    and "\<And>j F r u. j \<in> set js \<Longrightarrow> before_value F (bsax r) \<Longrightarrow> bsource r = enc j @ u \<Longrightarrow> value_read F j u (parse r)"
  shows "value_read F (JArray js) rest
    (and_then (bsax_do (start_array mx (length js)) r) (\<lambda>r1. and_then (for_times (length js) parse r1) (\<lambda>r2. bsax_do sax_end r2)))"
proof -
  from start_array_ok [OF assms(2,3)] obtain d where d: "start_array mx (length js) (bsax r) = Inr d" "before_value (Array_frame [] # F) d" by blast
  with for_times_array [of js enc parse "[]" F "r\<lparr>bsax := d\<rparr>" rest] assms(1,4) obtain r' where
    r': "for_times (length js) parse (r\<lparr>bsax := d\<rparr>) = Inr (True, r')" "bsource r' = rest" "before_value (Array_frame js # F) (bsax r')" by auto
  from sax_end_array [OF r'(3)] obtain d' where "sax_end (bsax r') = Inr d'" "after_value F (JArray js) d'" by blast
  with d(1) r' show ?thesis by (simp add: and_then_def bsax_do_def value_read_def)
qed

lemma object_read:
  assumes "bsource r = concat (map (\<lambda>kv. estr (fst kv) @ enc (snd kv)) m) @ rest" "before_value F (bsax r)"
    and "length m \<le> object_max_size mx" "object_ok m"
    and "\<And>kv F r u. kv \<in> set m \<Longrightarrow> before_value F (bsax r) \<Longrightarrow> bsource r = enc (snd kv) @ u \<Longrightarrow> value_read F (snd kv) u (parse r)"
    and "\<And>kv r u. kv \<in> set m \<Longrightarrow> bsource r = estr (fst kv) @ u \<Longrightarrow> \<exists>r'. str (bget r) = Inr (True, fst kv, r') \<and> bsource r' = u \<and> bsax r' = bsax r"
  shows "value_read F (JObject m) rest
    (and_then (bsax_do (start_object mx (length m)) r) (\<lambda>r1.
     and_then (for_times (length m) (\<lambda>r. and_then (string_event (str (bget r)) sax_key) parse) r1) (\<lambda>r2. bsax_do sax_end r2)))"
proof -
  from start_object_ok [OF assms(2,3)] obtain d where d: "start_object mx (length m) (bsax r) = Inr d" "in_object F (members []) d"
    by (auto simp: members_def)
  with for_times_object [of m enc parse estr str F "[]" "r\<lparr>bsax := d\<rparr>" rest] assms(1,5,6) obtain r' where
    r': "for_times (length m) (\<lambda>r. and_then (string_event (str (bget r)) sax_key) parse) (r\<lparr>bsax := d\<rparr>) = Inr (True, r')"
      "bsource r' = rest" "in_object F m (bsax r')" using members_id [OF assms(4)] by auto
  from sax_end_object [OF r'(3)] obtain d' where "sax_end (bsax r') = Inr d'" "after_value F (JObject m) d'" by blast
  with d(1) r' show ?thesis by (simp add: and_then_def bsax_do_def value_read_def)
qed

lemma length_concat_member: "x \<in> set xs \<Longrightarrow> length (f x) \<le> length (concat (map f xs))"
  by (induction xs) auto

subsection \<open>The contract of a format\<close>

text \<open>Sizes below \<open>lim\<close> can be written, and negative integers are the only ones stored as signed.\<close>

fun storable :: "nat \<Rightarrow> max_sizes \<Rightarrow> double json \<Rightarrow> bool" where
  "storable lim mx (JObject m) \<longleftrightarrow> object_ok m \<and> length m < lim \<and> length m \<le> object_max_size mx \<and>
     (\<forall>kv \<in> set m. length (fst kv) < lim \<and> storable lim mx (snd kv))"
| "storable lim mx (JArray js) \<longleftrightarrow> length js < lim \<and> length js \<le> array_max_size mx \<and> (\<forall>j \<in> set js. storable lim mx j)"
| "storable lim mx (JString s) \<longleftrightarrow> length s < lim"
| "storable lim mx (JInteger i) \<longleftrightarrow> - (2 ^ 63) \<le> i \<and> i < 0"
| "storable lim mx (JUnsigned n) \<longleftrightarrow> n < 2 ^ 64"
| "storable lim mx JDiscarded \<longleftrightarrow> False"
| "storable lim mx j \<longleftrightarrow> True"

locale binary_format =
  fixes enc :: "double json \<Rightarrow> bytes" and parse :: "nat \<Rightarrow> binary_reader \<Rightarrow> (bool \<times> binary_reader) res" and ok :: "double json \<Rightarrow> bool"
  assumes reads: "ok j \<Longrightarrow> before_value F (bsax r) \<Longrightarrow> bsource r = enc j @ rest \<Longrightarrow> length (enc j) < n \<Longrightarrow> value_read F j rest (parse n r)"
begin

lemma parsed_new:
  assumes "ok j" "length (enc j) < n"
  shows "\<exists>r. parse n (reader_new (enc j @ rest)) = Inr (True, r) \<and> bsource r = rest \<and> root (bsax r) = j \<and> \<not> errored (bsax r)"
proof -
  have "before_value [] (bsax (reader_new (enc j @ rest)))" by (simp add: before_value_def reader_new_def dom_new_def)
  from reads [OF assms(1) this _ assms(2), of rest] show ?thesis by (auto simp: value_read_def after_value_def reader_new_def)
qed

lemma round_trip:
  assumes "ok j" "length (enc j) < n"
  shows "from_binary (parse n) al format strict_mode (enc j) = Inr j"
proof -
  obtain r where r: "parse n (reader_new (enc j)) = Inr (True, r)" "bsource r = []" "root (bsax r) = j"
    using parsed_new [OF assms, of "[]"] by auto
  then have "bcurrent (bget r) = - 1" "bsax (bget r) = bsax r" by (simp_all add: bget_def)
  with r show ?thesis by (simp add: from_binary_def binary_sax_parse_def Let_def)
qed

text \<open>In strict mode nothing may follow the value; otherwise what follows is ignored.\<close>

lemma trailing:
  assumes "ok j" "length (enc j) < n" "rest \<noteq> []"
  shows "\<exists>k. from_binary (parse n) al format strict_mode (enc j @ rest) =
    (if \<not> strict_mode then Inr j
     else if al then Inl (parse_error_at_byte 110 k
        (format_message format (''expected end of input; last byte: 0x'' @ hex_byte (byte_val (hd rest))) ''value''))
     else Inr JDiscarded)"
proof -
  obtain r where r: "parse n (reader_new (enc j @ rest)) = Inr (True, r)" "bsource r = rest" "root (bsax r) = j"
    using parsed_new [OF assms(1,2), of rest] by auto
  obtain c u where c: "rest = c # u" using assms(3) by (cases rest) auto
  then have "bcurrent (bget r) = int (byte_val c)" using r(2) by (simp add: bget_def)
  then show ?thesis using r c byte_current [of c]
    by (intro exI [of _ "bchars_read (bget r)"])
      (simp add: from_binary_def binary_sax_parse_def Let_def format_error_def bsax_error_def sax_parse_error_def get_byte_string_def)
qed

end

end
