(* ===== verification/Json_Cbor_Correct.thy ===== *)
theory Json_Cbor_Correct
  imports Json_Cbor Json_Binary_Correct
begin

text \<open>What \<^verbatim>\<open>to_cbor\<close> writes, \<^verbatim>\<open>from_cbor\<close> reads back.\<close>

abbreviation cbor_limit :: nat where
  "cbor_limit \<equiv> 2 ^ 64 - 1"

lemma cbor_unsigned_read:
  assumes "bsource r = cbor_unsigned le n @ rest" "n < 2 ^ 64" "before_value F (bsax r)"
  shows "value_read F (JUnsigned n) rest (cbor_value le al str array object (bget r))"
proof (cases "n \<le> 0x17")
  case True
  note b = first_byte [of r n rest le]
  have "bsource r = write_number le 1 n @ rest" using assms(1) True by (simp add: cbor_unsigned_def)
  with b True assms(3) bsax_value_read [of F "bget r" "JUnsigned n"] show ?thesis by (simp add: cbor_value_def)
next
  case False
  define w c :: nat where "w = (if n \<le> 0xFF then 1 else if n \<le> 0xFFFF then 2 else if n \<le> 0xFFFFFFFF then 4 else 8)"
    and "c = (if n \<le> 0xFF then 0x18 else if n \<le> 0xFFFF then 0x19 else if n \<le> 0xFFFFFFFF then 0x1A else 0x1B)"
  have src: "bsource r = write_byte c @ write_number le w n @ rest" "n < 256 ^ w"
    using assms(1,2) False by (simp_all add: cbor_unsigned_def w_def c_def)
  note b = first_byte [of r c "write_number le w n @ rest" le]
  have "bcurrent (bget r) = int c" using b src by (simp add: c_def)
  then have "cbor_value le al str array object (bget r) = number_event le al cbor w JUnsigned (bget r)"
    by (simp add: cbor_value_def c_def w_def split: if_splits)
  with number_event_read [of F "bget r" le w n rest JUnsigned] b src assms(3) show ?thesis
    by (simp add: c_def)
qed

lemma cbor_integer_negative:
  "cbor_integer le (- 1 - int p) =
     (if p \<le> 23 then write_number le 1 (0x20 + p)
      else if p \<le> 0xFF then write_byte 0x38 @ write_number le 1 p
      else if p \<le> 0xFFFF then write_byte 0x39 @ write_number le 2 p
      else if p \<le> 0xFFFFFFFF then write_byte 0x3A @ write_number le 4 p
      else write_byte 0x3B @ write_number le 8 p)"
proof -
  have "nat (- 1 - (- 1 - int p)) = p" "(- 24 \<le> - 1 - int p) = (p \<le> 23)" "\<not> 0 \<le> - 1 - int p" by auto
  then show ?thesis unfolding cbor_integer_def Let_def by (simp only: if_False)
qed

lemma cbor_integer_read:
  assumes "bsource r = cbor_integer le (- 1 - int p) @ rest" "p < 2 ^ 63" "before_value F (bsax r)"
  shows "value_read F (JInteger (- 1 - int p)) rest (cbor_value le al str array object (bget r))"
proof (cases "p \<le> 23")
  case True
  then have "bsource r = write_number le 1 (0x20 + p) @ rest" using assms(1) by (simp add: cbor_integer_negative)
  with first_byte [of r "0x20 + p" rest le] True assms(3) bsax_value_read [of F "bget r" "JInteger (- 1 - int p)"] show ?thesis
    by (simp add: cbor_value_def)
next
  case False
  define w c :: nat where "w = (if p \<le> 0xFF then 1 else if p \<le> 0xFFFF then 2 else if p \<le> 0xFFFFFFFF then 4 else 8)"
    and "c = (if p \<le> 0xFF then 0x38 else if p \<le> 0xFFFF then 0x39 else if p \<le> 0xFFFFFFFF then 0x3A else 0x3B)"
  define f where "f = (if w = 8 then cbor_negative else (\<lambda>number. JInteger (- 1 - int number)))"
  have src: "bsource r = write_byte c @ write_number le w p @ rest" "p < 256 ^ w"
    using assms(1,2) False by (simp_all add: cbor_integer_negative w_def c_def)
  note b = first_byte [of r c "write_number le w p @ rest" le]
  have "bcurrent (bget r) = int c" using b src by (simp add: c_def)
  then have "cbor_value le al str array object (bget r) = number_event le al cbor w f (bget r)"
    by (simp add: cbor_value_def c_def w_def f_def split: if_splits)
  moreover have "f p = JInteger (- 1 - int p)" using assms(2) by (simp add: f_def cbor_negative_def signed_number_def)
  ultimately show ?thesis using number_event_read [of F "bget r" le w p rest f al cbor] b src assms(3) by (simp add: c_def)
qed

text \<open>The sizes of arrays and objects.\<close>

lemma cbor_size_read:
  assumes "bsource r = cbor_size le major N @ u" "major \<in> {0x80, 0xA0}" "N < 2 ^ 64"
  shows "\<exists>r'. cbor_value le al str array object (bget r) = (if major = 0x80 then array else object) N r' \<and> bsource r' = u \<and> bsax r' = bsax r"
proof (cases "N \<le> 0x17")
  case True
  then have "bsource r = write_number le 1 (major + N) @ u" using assms(1) by (simp add: cbor_size_def)
  with first_byte [of r "major + N" u le] True assms(2) have b: "bsource (bget r) = u" "bsax (bget r) = bsax r" "bcurrent (bget r) = int (major + N)" by auto
  have "nat (and (int (major + N)) 0x1F) = N" unfolding and_31 using True assms(2) by (auto simp: mod_32)
  with b True assms(2) show ?thesis by (intro exI [of _ "bget r"]) (auto simp: cbor_value_def)
next
  case False
  define w c where "w = (if N \<le> 0xFF then 1 else if N \<le> 0xFFFF then 2 else if N \<le> 0xFFFFFFFF then 4 else 8 :: nat)"
    and "c = major + (if N \<le> 0xFF then 0x18 else if N \<le> 0xFFFF then 0x19 else if N \<le> 0xFFFFFFFF then 0x1A else 0x1B)"
  have src: "bsource r = write_byte c @ write_number le w N @ u" "N < 256 ^ w"
    using assms(1,3) False by (simp_all add: cbor_size_def w_def c_def)
  have "c < 256" using assms(2) by (auto simp: c_def)
  with first_byte [of r c "write_number le w N @ u" le] src have
    b: "bsource (bget r) = write_number le w N @ u" "bsax (bget r) = bsax r" "bcurrent (bget r) = int c" by auto
  have "cbor_value le al str array object (bget r) = get_number le al cbor w (bget r) (if major = 0x80 then array else object) (\<lambda>r1. (False, r1))"
    using assms(2) b(3) by (auto simp: cbor_value_def c_def w_def split: if_splits)
  with get_number_ok [OF b(1) src(2), of al cbor "if major = 0x80 then array else object" "\<lambda>r1. (False, r1)"] b(2) show ?thesis by auto
qed

lemma cbor_string_head:
  assumes "bsource r = cbor_string le s @ rest" "length s < cbor_limit"
  shows "\<exists>r'. get_cbor_string le al (Suc n) [] (bget r) = Inr (True, s, r') \<and> bsource r' = rest \<and> bsax r' = bsax r"
    "0x60 \<le> bcurrent (bget r)" "bcurrent (bget r) \<le> 0x7B"
proof -
  let ?N = "length s"
  have "(\<exists>r'. get_cbor_string le al (Suc n) [] (bget r) = Inr (True, s, r') \<and> bsource r' = rest \<and> bsax r' = bsax r) \<and>
    0x60 \<le> bcurrent (bget r) \<and> bcurrent (bget r) \<le> 0x7B"
  proof (cases "?N \<le> 0x17")
    case True
    then have "bsource r = write_number le 1 (0x60 + ?N) @ s @ rest" using assms(1) by (simp add: cbor_string_def cbor_size_def)
    with first_byte [of r "0x60 + ?N" "s @ rest" le] True have
      b: "bsource (bget r) = s @ rest" "bsax (bget r) = bsax r" "bcurrent (bget r) = int (0x60 + ?N)" by auto
    have "nat (and (int (0x60 + ?N)) 0x1F) = ?N" unfolding and_31 using True by (simp add: mod_32)
    with b True get_string_loop_ok [OF b(1), of al cbor "[]"] show ?thesis by (auto simp: get_binary_string_def)
  next
    case False
    define w c where "w = (if ?N \<le> 0xFF then 1 else if ?N \<le> 0xFFFF then 2 else if ?N \<le> 0xFFFFFFFF then 4 else 8 :: nat)"
      and "c = (if ?N \<le> 0xFF then 0x78 else if ?N \<le> 0xFFFF then 0x79 else if ?N \<le> 0xFFFFFFFF then 0x7A else 0x7B :: nat)"
    have src: "bsource r = write_byte c @ write_number le w ?N @ s @ rest" "?N < 256 ^ w"
      using assms False by (simp_all add: cbor_string_def cbor_size_def w_def c_def)
    have "c < 256" by (simp add: c_def)
    with first_byte [of r c "write_number le w ?N @ s @ rest" le] src have
      b: "bsource (bget r) = write_number le w ?N @ s @ rest" "bsax (bget r) = bsax r" "bcurrent (bget r) = int c" by auto
    have "get_cbor_string le al (Suc n) [] (bget r) = get_sized_string le al cbor w [] (bget r)"
      using b(3) by (simp add: c_def w_def split: if_splits)
    with get_sized_string_ok [OF b(1) src(2), of al cbor "[]"] b(2,3) show ?thesis by (auto simp: c_def)
  qed
  then show "\<exists>r'. get_cbor_string le al (Suc n) [] (bget r) = Inr (True, s, r') \<and> bsource r' = rest \<and> bsax r' = bsax r"
    "0x60 \<le> bcurrent (bget r)" "bcurrent (bget r) \<le> 0x7B" by blast+
qed

lemma cbor_size_nonempty: "N < 2 ^ 64 \<Longrightarrow> 0 < length (cbor_size le major N)"
  using write_number_length [of le 1 "major + N"] by (auto simp: cbor_size_def write_byte_def simp del: write_number_length)

lemma cbor_array_read:
  assumes "bsource r = concat (map enc js) @ rest" "before_value F (bsax r)" "length js < cbor_limit" "length js \<le> array_max_size mx"
    and "\<And>j F r u. j \<in> set js \<Longrightarrow> before_value F (bsax r) \<Longrightarrow> bsource r = enc j @ u \<Longrightarrow> value_read F j u (parse True r)"
  shows "value_read F (JArray js) rest (get_cbor_array mx n parse (length js) r)"
  using array_read [OF assms(1,2,4), of "parse True"] assms(3,5) by (simp add: get_cbor_array_def unknown_size_def)

lemma cbor_object_read:
  assumes "bsource r = concat (map (\<lambda>kv. estr (fst kv) @ enc (snd kv)) m) @ rest" "before_value F (bsax r)" "length m < cbor_limit"
    and "length m \<le> object_max_size mx" "object_ok m"
    and "\<And>kv F r u. kv \<in> set m \<Longrightarrow> before_value F (bsax r) \<Longrightarrow> bsource r = enc (snd kv) @ u \<Longrightarrow> value_read F (snd kv) u (parse True r)"
    and "\<And>kv r u. kv \<in> set m \<Longrightarrow> bsource r = estr (fst kv) @ u \<Longrightarrow> \<exists>r'. str (bget r) = Inr (True, fst kv, r') \<and> bsource r' = u \<and> bsax r' = bsax r"
  shows "value_read F (JObject m) rest (get_cbor_object mx n str parse (length m) r)"
  using object_read [OF assms(1,2,4,5), of "parse True" str] assms(3,6,7) by (simp add: get_cbor_object_def unknown_size_def Let_def)

lemma write_cbor_array:
  assumes "\<And>j F r u. j \<in> set js \<Longrightarrow> before_value F (bsax r) \<Longrightarrow> bsource r = write_cbor le j @ u \<Longrightarrow>
      value_read F j u (parse_cbor_internal le al mx k True r)"
    and "storable cbor_limit mx (JArray js)" "before_value F (bsax r)" "bsource r = write_cbor le (JArray js) @ rest"
  shows "value_read F (JArray js) rest (parse_cbor_internal le al mx (Suc k) True r)"
proof -
  let ?u = "concat (map (write_cbor le) js)" and ?parse = "parse_cbor_internal le al mx k"
  have "bsource r = cbor_size le 0x80 (length js) @ ?u @ rest" "length js < 2 ^ 64" using assms(2,4) by simp_all
  from cbor_size_read [OF this(1) _ this(2), of al "get_cbor_string le al k []" "get_cbor_array mx k ?parse" "get_cbor_object mx k (get_cbor_string le al k []) ?parse"]
  obtain r' where r': "parse_cbor_internal le al mx (Suc k) True r = get_cbor_array mx k ?parse (length js) r'" "bsource r' = ?u @ rest" "bsax r' = bsax r"
    by auto
  with cbor_array_read [OF r'(2), of F mx ?parse k] assms show ?thesis by simp
qed

lemma write_cbor_object:
  assumes "\<And>kv F r u. kv \<in> set m \<Longrightarrow> before_value F (bsax r) \<Longrightarrow> bsource r = write_cbor le (snd kv) @ u \<Longrightarrow>
      value_read F (snd kv) u (parse_cbor_internal le al mx k True r)"
    and "storable cbor_limit mx (JObject m)" "before_value F (bsax r)" "bsource r = write_cbor le (JObject m) @ rest" "0 < k"
  shows "value_read F (JObject m) rest (parse_cbor_internal le al mx (Suc k) True r)"
proof -
  let ?u = "concat (map (\<lambda>kv. cbor_string le (fst kv) @ write_cbor le (snd kv)) m)"
  let ?parse = "parse_cbor_internal le al mx k" and ?str = "get_cbor_string le al k []"
  obtain k' where k': "k = Suc k'" using assms(5) by (cases k) auto
  have "bsource r = cbor_size le 0xA0 (length m) @ ?u @ rest" "length m < 2 ^ 64" using assms(2,4) by simp_all
  from cbor_size_read [OF this(1) _ this(2), of al ?str "get_cbor_array mx k ?parse" "get_cbor_object mx k ?str ?parse"]
  obtain r' where r': "parse_cbor_internal le al mx (Suc k) True r = get_cbor_object mx k ?str ?parse (length m) r'" "bsource r' = ?u @ rest" "bsax r' = bsax r"
    by auto
  have "\<exists>q'. ?str (bget q) = Inr (True, fst kv, q') \<and> bsource q' = v \<and> bsax q' = bsax q"
    if "kv \<in> set m" "bsource q = cbor_string le (fst kv) @ v" for kv q v
    using cbor_string_head(1) [OF that(2), of al k'] assms(2) that(1) by (simp add: k' del: get_cbor_string.simps)
  then show ?thesis using cbor_object_read [OF r'(2), of F mx ?parse ?str k] assms(1-3) r' by simp
qed

lemma write_cbor_read:
  "storable cbor_limit mx j \<Longrightarrow> before_value F (bsax r) \<Longrightarrow> bsource r = write_cbor le j @ rest \<Longrightarrow> length (write_cbor le j) < n \<Longrightarrow>
     value_read F j rest (parse_cbor_internal le al mx n True r)"
proof (induction le j arbitrary: F r rest n rule: write_cbor.induct)
  case (1 le)
  with first_byte [of r "0xF6" rest le] bsax_value_read [of F "bget r" JNull] show ?case by (cases n) (simp_all add: cbor_value_def)
next
  case (2 le b)
  with first_byte [of r "if b then 0xF5 else 0xF4" rest le] bsax_value_read [of F "bget r" "JBoolean b"] show ?case
    by (cases n) (simp_all add: cbor_value_def split: if_splits)
next
  case (3 le i)
  then have "i = - 1 - int (nat (- 1 - i))" "nat (- 1 - i) < 2 ^ 63" by auto
  with 3 cbor_integer_read [of r le "nat (- 1 - i)" rest F] show ?case by (cases n) auto
next
  case (4 le i)
  with cbor_unsigned_read [of r le i rest F] show ?case by (cases n) simp_all
next
  case (5 le x)
  have "unat x < 256 ^ 8" using unsigned_less [of x, where ?'a = nat] by simp
  with 5 first_byte [of r "0xFB" "write_number le 8 (unat x) @ rest" le] number_event_read [of F "bget r" le 8 "unat x" rest "\<lambda>number. JFloat (word_of_nat number)" al cbor]
  show ?case by (cases n) (simp_all add: cbor_value_def write_double_def)
next
  case (6 le s)
  then have "1 < n" using cbor_size_nonempty [of "length s" le "0x60"] by (simp add: cbor_string_def del: length_greater_0_conv)
  then obtain k where n: "n = Suc (Suc k)" by (cases n; cases "n - 1") auto
  from cbor_string_head(1) [of r le s rest al k] cbor_string_head(2,3) [of r le s rest] 6 obtain r' where
    r': "get_cbor_string le al (Suc k) [] (bget r) = Inr (True, s, r')" "bsource r' = rest" "bsax r' = bsax r"
      "0x60 \<le> bcurrent (bget r)" "bcurrent (bget r) \<le> 0x7B" by auto
  with bsax_value_read [of F r' "JString s"] 6 show ?case by (simp add: n cbor_value_def string_event_def del: get_cbor_string.simps)
next
  case (7 le js)
  then obtain k where n: "n = Suc k" by (cases n) auto
  have "length (concat (map (write_cbor le) js)) < k" using 7 n cbor_size_nonempty [of "length js" le "0x80"] by (simp del: length_greater_0_conv)
  then have "length (write_cbor le j) < k" if "j \<in> set js" for j using length_concat_member [OF that, of "write_cbor le"] by simp
  with 7 show ?case unfolding n by (intro write_cbor_array) auto
next
  case (8 le m)
  let ?e = "\<lambda>kv. cbor_string le (fst kv) @ write_cbor le (snd kv)"
  obtain k where n: "n = Suc k" using 8 by (cases n) auto
  have k: "length (concat (map ?e m)) < k" using 8 n cbor_size_nonempty [of "length m" le "0xA0"] by (simp del: length_greater_0_conv)
  then have "length (write_cbor le (snd kv)) < k" if "kv \<in> set m" for kv using length_concat_member [OF that, of ?e] by simp
  with 8 k show ?case unfolding n by (intro write_cbor_object) auto
next
  case (9 le)
  then show ?case by simp
qed

interpretation cbor_format: binary_format "write_cbor le" "\<lambda>n. parse_cbor_internal le al mx n True" "storable cbor_limit mx" for le al mx
  by unfold_locales (rule write_cbor_read)

text \<open>
  C35: what \<^verbatim>\<open>to_cbor\<close> writes, \<^verbatim>\<open>from_cbor\<close> reads back, on a machine of either byte order, strictly or not, with or without
  exceptions: every value whose integers are stored the way the reader stores them, with any bytes in its strings and any
  bits in its doubles, and whose sizes fit into 64 bits and into the containers.
\<close>

theorem cbor_roundtrip:
  assumes "storable cbor_limit mx j"
  shows "from_cbor le mx strict_mode al (to_cbor le j) = Inr j"
  unfolding from_cbor_def to_cbor_def by (rule cbor_format.round_trip [OF assms]) simp

theorem cbor_roundtrip_witness:
  "let j = JObject [(''a'', JArray [JInteger (- 300), JUnsigned 70000, JFloat 0x3FB999999999999A]), (''b'', JString [CHR 0xFF, CHR 0x00])]
   in from_cbor True \<lparr>array_max_size = 100, object_max_size = 100\<rparr> True True (to_cbor True j) = Inr j"
proof -
  have "CHR ''a'' < CHR ''b''" by (simp add: less_char_def)
  then show ?thesis unfolding Let_def by (intro cbor_roundtrip) (simp add: object_ok_def)
qed

end
