(* ===== verification/Json_Msgpack.thy ===== *)
theory Json_Msgpack
  imports Json_Binary
begin

text \<open>
  MessagePack (\<^verbatim>\<open>parse_msgpack_internal\<close> and \<^verbatim>\<open>write_msgpack\<close> of \<^verbatim>\<open>json/json.hpp\<close>). A level of nesting takes one unit of
  fuel; every level reads a byte, so \<open>from_msgpack\<close> starts with enough for its input.
\<close>

subsection \<open>Reading\<close>

definition get_msgpack_string :: "bool \<Rightarrow> bool \<Rightarrow> bytes \<Rightarrow> binary_reader \<Rightarrow> (bool \<times> bytes \<times> binary_reader) res" where
  "get_msgpack_string le al result r =
     bind_res (unexpect_eof al msgpack ''string'' r) (\<lambda>(ok, r0).
       if \<not> ok then Inr (False, result, r0)
       else if 0xA0 \<le> bcurrent r \<and> bcurrent r \<le> 0xBF then get_binary_string al msgpack (nat (and (bcurrent r) 0x1F)) result r
       else if bcurrent r = 0xD9 then get_sized_string le al msgpack 1 result r
       else if bcurrent r = 0xDA then get_sized_string le al msgpack 2 result r
       else if bcurrent r = 0xDB then get_sized_string le al msgpack 4 result r
       else bind_res
              (format_error al msgpack 113
                 (''expected length specification (0xA0-0xBF, 0xD9-0xDB); last byte: 0x'' @ get_byte_string r) ''string'' r)
              (\<lambda>(ok, r1). Inr (ok, result, r1)))"

text \<open>The cases of \<^verbatim>\<open>parse_msgpack_internal\<close>, given what it calls for arrays and objects.\<close>

definition msgpack_value ::
  "bool \<Rightarrow> bool \<Rightarrow> (nat \<Rightarrow> binary_reader \<Rightarrow> (bool \<times> binary_reader) res) \<Rightarrow> (nat \<Rightarrow> binary_reader \<Rightarrow> (bool \<times> binary_reader) res) \<Rightarrow>
   binary_reader \<Rightarrow> (bool \<times> binary_reader) res" where
  "msgpack_value le al array object r =
     (let c = bcurrent r; sized = (\<lambda>width k. get_number le al msgpack width r k (\<lambda>r1. (False, r1)))
      in if c = - 1 then unexpect_eof al msgpack ''value'' r
         else if c \<le> 0x7F then bsax_do (sax_value (JUnsigned (nat c))) r
         else if 0x80 \<le> c \<and> c \<le> 0x8F then object (nat (and c 0x0F)) r
         else if 0x90 \<le> c \<and> c \<le> 0x9F then array (nat (and c 0x0F)) r
         else if 0xA0 \<le> c \<and> c \<le> 0xBF \<or> 0xD9 \<le> c \<and> c \<le> 0xDB then
           string_event (get_msgpack_string le al [] r) (\<lambda>s. sax_value (JString s))
         else if c = 0xC0 then bsax_do (sax_value JNull) r
         else if c = 0xC2 then bsax_do (sax_value (JBoolean False)) r
         else if c = 0xC3 then bsax_do (sax_value (JBoolean True)) r
         else if c = 0xCA then number_event le al msgpack 4 (\<lambda>number. JFloat (float_to_double number)) r
         else if c = 0xCB then number_event le al msgpack 8 (\<lambda>number. JFloat (word_of_nat number)) r
         else if c = 0xCC then number_event le al msgpack 1 JUnsigned r
         else if c = 0xCD then number_event le al msgpack 2 JUnsigned r
         else if c = 0xCE then number_event le al msgpack 4 JUnsigned r
         else if c = 0xCF then number_event le al msgpack 8 JUnsigned r
         else if c = 0xD0 then number_event le al msgpack 1 (\<lambda>number. JInteger (signed_number 1 number)) r
         else if c = 0xD1 then number_event le al msgpack 2 (\<lambda>number. JInteger (signed_number 2 number)) r
         else if c = 0xD2 then number_event le al msgpack 4 (\<lambda>number. JInteger (signed_number 4 number)) r
         else if c = 0xD3 then number_event le al msgpack 8 (\<lambda>number. JInteger (signed_number 8 number)) r
         else if c = 0xDC then sized 2 array
         else if c = 0xDD then sized 4 array
         else if c = 0xDE then sized 2 object
         else if c = 0xDF then sized 4 object
         else if 0xE0 \<le> c then bsax_do (sax_value (JInteger (signed_number 1 (nat c)))) r
         else format_error al msgpack 112 (''invalid byte: 0x'' @ get_byte_string r) ''value'' r)"

text \<open>\<^verbatim>\<open>get_msgpack_array\<close> and \<^verbatim>\<open>get_msgpack_object\<close>, given the function that reads a value.\<close>

definition get_msgpack_array ::
  "max_sizes \<Rightarrow> (binary_reader \<Rightarrow> (bool \<times> binary_reader) res) \<Rightarrow> nat \<Rightarrow> binary_reader \<Rightarrow> (bool \<times> binary_reader) res" where
  "get_msgpack_array mx parse len r =
     and_then (bsax_do (start_array mx len) r) (\<lambda>r1.
     and_then (for_times len parse r1) (\<lambda>r2.
       bsax_do sax_end r2))"

definition get_msgpack_object ::
  "bool \<Rightarrow> bool \<Rightarrow> max_sizes \<Rightarrow> (binary_reader \<Rightarrow> (bool \<times> binary_reader) res) \<Rightarrow> nat \<Rightarrow> binary_reader \<Rightarrow> (bool \<times> binary_reader) res" where
  "get_msgpack_object le al mx parse len r =
     and_then (bsax_do (start_object mx len) r) (\<lambda>r1.
     and_then (for_times len (\<lambda>r. and_then (string_event (get_msgpack_string le al [] (bget r)) sax_key) parse) r1) (\<lambda>r2.
       bsax_do sax_end r2))"

primrec parse_msgpack_internal :: "bool \<Rightarrow> bool \<Rightarrow> max_sizes \<Rightarrow> nat \<Rightarrow> binary_reader \<Rightarrow> (bool \<times> binary_reader) res" where
  "parse_msgpack_internal le al mx 0 r = Inl Undefined"
| "parse_msgpack_internal le al mx (Suc n) r =
     msgpack_value le al (get_msgpack_array mx (parse_msgpack_internal le al mx n))
       (get_msgpack_object le al mx (parse_msgpack_internal le al mx n)) (bget r)"

definition from_msgpack :: "bool \<Rightarrow> max_sizes \<Rightarrow> bool \<Rightarrow> bool \<Rightarrow> bytes \<Rightarrow> double json res" where
  "from_msgpack le mx strict_mode al input =
     from_binary (parse_msgpack_internal le al mx (length input + 2)) al msgpack strict_mode input"

subsection \<open>Writing\<close>

definition msgpack_unsigned :: "bool \<Rightarrow> nat \<Rightarrow> bytes" where
  "msgpack_unsigned le n =
     (if n < 128 then write_number le 1 n
      else if n \<le> 0xFF then write_byte 0xCC @ write_number le 1 n
      else if n \<le> 0xFFFF then write_byte 0xCD @ write_number le 2 n
      else if n \<le> 0xFFFFFFFF then write_byte 0xCE @ write_number le 4 n
      else if n \<le> 0xFFFFFFFFFFFFFFFF then write_byte 0xCF @ write_number le 8 n
      else [])"

definition msgpack_integer :: "bool \<Rightarrow> int \<Rightarrow> bytes" where
  "msgpack_integer le i =
     (if 0 \<le> i then msgpack_unsigned le (nat i)
      else if - 32 \<le> i then write_signed le 1 i
      else if - (2 ^ 7) \<le> i then write_byte 0xD0 @ write_signed le 1 i
      else if - (2 ^ 15) \<le> i then write_byte 0xD1 @ write_signed le 2 i
      else if - (2 ^ 31) \<le> i then write_byte 0xD2 @ write_signed le 4 i
      else if - (2 ^ 63) \<le> i then write_byte 0xD3 @ write_signed le 8 i
      else [])"

definition msgpack_string :: "bool \<Rightarrow> bytes \<Rightarrow> bytes" where
  "msgpack_string le s =
     (let N = length s
      in (if N \<le> 31 then write_number le 1 (or 0xA0 N)
          else if N \<le> 0xFF then write_byte 0xD9 @ write_number le 1 N
          else if N \<le> 0xFFFF then write_byte 0xDA @ write_number le 2 N
          else if N \<le> 0xFFFFFFFF then write_byte 0xDB @ write_number le 4 N
          else []) @ s)"

definition msgpack_array_size :: "bool \<Rightarrow> nat \<Rightarrow> bytes" where
  "msgpack_array_size le N =
     (if N \<le> 15 then write_number le 1 (or 0x90 N)
      else if N \<le> 0xFFFF then write_byte 0xDC @ write_number le 2 N
      else if N \<le> 0xFFFFFFFF then write_byte 0xDD @ write_number le 4 N
      else [])"

definition msgpack_object_size :: "bool \<Rightarrow> nat \<Rightarrow> bytes" where
  "msgpack_object_size le N =
     (if N \<le> 15 then write_number le 1 (or 0x80 (and N 0xF))
      else if N \<le> 0xFFFF then write_byte 0xDE @ write_number le 2 N
      else if N \<le> 0xFFFFFFFF then write_byte 0xDF @ write_number le 4 N
      else [])"

fun write_msgpack :: "bool \<Rightarrow> double json \<Rightarrow> bytes" where
  "write_msgpack le JNull = write_byte 0xC0"
| "write_msgpack le (JBoolean b) = write_byte (if b then 0xC3 else 0xC2)"
| "write_msgpack le (JInteger i) = msgpack_integer le i"
| "write_msgpack le (JUnsigned n) = msgpack_unsigned le n"
| "write_msgpack le (JFloat x) = write_byte 0xCB @ write_double le x"
| "write_msgpack le (JString s) = msgpack_string le s"
| "write_msgpack le (JArray js) = msgpack_array_size le (length js) @ concat (map (write_msgpack le) js)"
| "write_msgpack le (JObject m) =
     msgpack_object_size le (length m) @ concat (map (\<lambda>kv. msgpack_string le (fst kv) @ write_msgpack le (snd kv)) m)"
| "write_msgpack le JDiscarded = []"

definition to_msgpack :: "bool \<Rightarrow> double json \<Rightarrow> bytes" where
  "to_msgpack le j = write_msgpack le j"

end
