(* ===== verification/Json_Msgpack_Correct.thy ===== *)
theory Json_Msgpack_Correct
  imports Json_Msgpack Json_Binary_Correct
begin

text \<open>What \<^verbatim>\<open>to_msgpack\<close> writes, \<^verbatim>\<open>from_msgpack\<close> reads back.\<close>

abbreviation msgpack_limit :: nat where
  "msgpack_limit \<equiv> 2 ^ 32"

lemma msgpack_unsigned_read:
  assumes "bsource r = msgpack_unsigned le n @ rest" "n < 2 ^ 64" "before_value F (bsax r)"
  shows "value_read F (JUnsigned n) rest (msgpack_value le al array object (bget r))"
proof (cases "n < 128")
  case True
  then have "bsource r = write_number le 1 n @ rest" using assms(1) by (simp add: msgpack_unsigned_def)
  with first_byte [of r n rest le] True assms(3) bsax_value_read [of F "bget r" "JUnsigned n"] show ?thesis by (simp add: msgpack_value_def)
next
  case False
  define w c :: nat where "w = (if n \<le> 0xFF then 1 else if n \<le> 0xFFFF then 2 else if n \<le> 0xFFFFFFFF then 4 else 8)"
    and "c = (if n \<le> 0xFF then 0xCC else if n \<le> 0xFFFF then 0xCD else if n \<le> 0xFFFFFFFF then 0xCE else 0xCF)"
  have src: "bsource r = write_byte c @ write_number le w n @ rest" "n < 256 ^ w"
    using assms(1,2) False by (simp_all add: msgpack_unsigned_def w_def c_def)
  note b = first_byte [of r c "write_number le w n @ rest" le]
  have "bcurrent (bget r) = int c" using b src by (simp add: c_def)
  then have "msgpack_value le al array object (bget r) = number_event le al msgpack w JUnsigned (bget r)"
    by (simp add: msgpack_value_def c_def w_def split: if_splits)
  with number_event_read [of F "bget r" le w n rest JUnsigned] b src assms(3) show ?thesis by (simp add: c_def)
qed

lemma msgpack_integer_read:
  assumes "bsource r = msgpack_integer le i @ rest" "- (2 ^ 63) \<le> i" "i < 0" "before_value F (bsax r)"
  shows "value_read F (JInteger i) rest (msgpack_value le al array object (bget r))"
proof (cases "- 32 \<le> i")
  case True
  let ?n = "nat (i mod 2 ^ (8 * 1))"
  have "bsource r = write_number le 1 ?n @ rest" using assms(1,3) True by (simp add: msgpack_integer_def write_signed_def)
  moreover have "i mod 256 = i + 256" using assms(3) True mod_pos_pos_trivial [of "i + 256" 256] by simp
  ultimately have "bcurrent (bget r) = int ?n" "0xE0 \<le> int ?n" "bsource (bget r) = rest" "bsax (bget r) = bsax r"
    using first_byte [of r ?n rest le] assms(3) True by auto
  moreover have "signed_number 1 ?n = i" using signed_number_ok(1) [of 1 i] assms(3) True by simp
  ultimately show ?thesis using assms(4) bsax_value_read [of F "bget r" "JInteger i"] by (simp add: msgpack_value_def)
next
  case False
  define w c :: nat where "w = (if - (2 ^ 7) \<le> i then 1 else if - (2 ^ 15) \<le> i then 2 else if - (2 ^ 31) \<le> i then 4 else 8)"
    and "c = (if - (2 ^ 7) \<le> i then 0xD0 else if - (2 ^ 15) \<le> i then 0xD1 else if - (2 ^ 31) \<le> i then 0xD2 else 0xD3)"
  let ?n = "nat (i mod 2 ^ (8 * w))"
  have w: "0 < w" "- (2 ^ (8 * w - 1)) \<le> i" using assms(2) by (simp_all add: w_def)
  note sn = signed_number_ok [OF w assms(3)]
  have src: "bsource r = write_byte c @ write_number le w ?n @ rest"
    using assms(1,2,3) False by (simp add: msgpack_integer_def write_signed_def w_def c_def)
  note b = first_byte [of r c "write_number le w ?n @ rest" le]
  have "bcurrent (bget r) = int c" using b src by (simp add: c_def)
  then have "msgpack_value le al array object (bget r) = number_event le al msgpack w (\<lambda>number. JInteger (signed_number w number)) (bget r)"
    by (simp add: msgpack_value_def c_def w_def split: if_splits)
  with number_event_read [of F "bget r" le w ?n rest "\<lambda>number. JInteger (signed_number w number)" al msgpack] b src sn assms(4)
  show ?thesis by (simp add: c_def)
qed

lemma or_low:
  fixes n k :: nat
  assumes "n < 2 ^ m"
  shows "or (push_bit m k) n = push_bit m k + n"
proof -
  have "and (push_bit m k) (take_bit m n) = 0" by (rule bit_eqI) (auto simp: bit_simps)
  moreover have "take_bit m n = n" using assms by (simp add: take_bit_nat_eq_self)
  ultimately show ?thesis by (simp add: disjunctive_add_eq_or)
qed

lemma or_sizes: "n < 32 \<Longrightarrow> or 0xA0 n = 0xA0 + n" "n < 16 \<Longrightarrow> or 0x90 n = 0x90 + n" "n < 16 \<Longrightarrow> or 0x80 (and n 0xF) = 0x80 + n" for n :: nat
proof -
  show "n < 32 \<Longrightarrow> or 0xA0 n = 0xA0 + n" "n < 16 \<Longrightarrow> or 0x90 n = 0x90 + n"
    using or_low [of n 5 5] or_low [of n 4 9] by (simp_all add: push_bit_eq_mult)
  assume n: "n < 16"
  have "and n 0xF = n mod 16" using take_bit_eq_mask [of 4 n] by (simp add: mask_eq_exp_minus_1 take_bit_eq_mod)
  with n or_low [of n 4 8] show "or 0x80 (and n 0xF) = 0x80 + n" by (simp add: push_bit_eq_mult)
qed

lemma and_15: "nat (and (int n) 0xF) = n mod 16"
proof -
  have "and (int n) 0xF = int (n mod 16)" using take_bit_eq_mask [of 4 "int n"] by (simp add: mask_eq_exp_minus_1 take_bit_eq_mod zmod_int)
  then show ?thesis by (simp only: nat_int)
qed

lemma mod_16: "n < 16 \<Longrightarrow> (0x80 + n) mod 16 = n" "n < 16 \<Longrightarrow> (0x90 + n) mod 16 = n" for n :: nat
  using mod_mult_self4 [of 16 8 n] mod_mult_self4 [of 16 9 n] by simp_all

text \<open>The sizes of arrays and objects.\<close>

lemma msgpack_array_size_read:
  assumes "bsource r = msgpack_array_size le N @ u" "N < msgpack_limit"
  shows "\<exists>r'. msgpack_value le al array object (bget r) = array N r' \<and> bsource r' = u \<and> bsax r' = bsax r"
proof (cases "N \<le> 15")
  case True
  then have "bsource r = write_number le 1 (0x90 + N) @ u" using assms(1) or_sizes(2) [of N] by (simp add: msgpack_array_size_def)
  with first_byte [of r "0x90 + N" u le] True and_15 [of "0x90 + N"] mod_16(2) [of N] show ?thesis
    by (intro exI [of _ "bget r"]) (simp add: msgpack_value_def)
next
  case False
  define w c :: nat where "w = (if N \<le> 0xFFFF then 2 else 4)" and "c = (if N \<le> 0xFFFF then 0xDC else 0xDD)"
  have src: "bsource r = write_byte c @ write_number le w N @ u" "N < 256 ^ w"
    using assms False by (simp_all add: msgpack_array_size_def w_def c_def)
  have "c < 256" by (simp add: c_def)
  with first_byte [of r c "write_number le w N @ u" le] src have
    b: "bsource (bget r) = write_number le w N @ u" "bsax (bget r) = bsax r" "bcurrent (bget r) = int c" by auto
  have "msgpack_value le al array object (bget r) = get_number le al msgpack w (bget r) array (\<lambda>r1. (False, r1))"
    using b(3) by (simp add: msgpack_value_def c_def w_def split: if_splits)
  with get_number_ok [OF b(1) src(2), of al msgpack array "\<lambda>r1. (False, r1)"] b(2) show ?thesis by auto
qed

lemma msgpack_object_size_read:
  assumes "bsource r = msgpack_object_size le N @ u" "N < msgpack_limit"
  shows "\<exists>r'. msgpack_value le al array object (bget r) = object N r' \<and> bsource r' = u \<and> bsax r' = bsax r"
proof (cases "N \<le> 15")
  case True
  then have "bsource r = write_number le 1 (0x80 + N) @ u" using assms(1) or_sizes(3) [of N] by (simp add: msgpack_object_size_def)
  with first_byte [of r "0x80 + N" u le] True and_15 [of "0x80 + N"] mod_16(1) [of N] show ?thesis
    by (intro exI [of _ "bget r"]) (simp add: msgpack_value_def)
next
  case False
  define w c :: nat where "w = (if N \<le> 0xFFFF then 2 else 4)" and "c = (if N \<le> 0xFFFF then 0xDE else 0xDF)"
  have src: "bsource r = write_byte c @ write_number le w N @ u" "N < 256 ^ w"
    using assms False by (simp_all add: msgpack_object_size_def w_def c_def)
  have "c < 256" by (simp add: c_def)
  with first_byte [of r c "write_number le w N @ u" le] src have
    b: "bsource (bget r) = write_number le w N @ u" "bsax (bget r) = bsax r" "bcurrent (bget r) = int c" by auto
  have "msgpack_value le al array object (bget r) = get_number le al msgpack w (bget r) object (\<lambda>r1. (False, r1))"
    using b(3) by (simp add: msgpack_value_def c_def w_def split: if_splits)
  with get_number_ok [OF b(1) src(2), of al msgpack object "\<lambda>r1. (False, r1)"] b(2) show ?thesis by auto
qed

lemma msgpack_string_head:
  assumes "bsource r = msgpack_string le s @ rest" "length s < msgpack_limit"
  shows "\<exists>r'. get_msgpack_string le al [] (bget r) = Inr (True, s, r') \<and> bsource r' = rest \<and> bsax r' = bsax r"
    "0xA0 \<le> bcurrent (bget r) \<and> bcurrent (bget r) \<le> 0xBF \<or> 0xD9 \<le> bcurrent (bget r) \<and> bcurrent (bget r) \<le> 0xDB"
proof -
  let ?N = "length s"
  have "(\<exists>r'. get_msgpack_string le al [] (bget r) = Inr (True, s, r') \<and> bsource r' = rest \<and> bsax r' = bsax r) \<and>
    (0xA0 \<le> bcurrent (bget r) \<and> bcurrent (bget r) \<le> 0xBF \<or> 0xD9 \<le> bcurrent (bget r) \<and> bcurrent (bget r) \<le> 0xDB)"
  proof (cases "?N \<le> 31")
    case True
    then have "bsource r = write_number le 1 (0xA0 + ?N) @ s @ rest" using assms(1) or_sizes(1) [of ?N] by (simp add: msgpack_string_def Let_def)
    with first_byte [of r "0xA0 + ?N" "s @ rest" le] True have
      b: "bsource (bget r) = s @ rest" "bsax (bget r) = bsax r" "bcurrent (bget r) = int (0xA0 + ?N)" by auto
    have "nat (and (int (0xA0 + ?N)) 0x1F) = ?N" unfolding and_31 using True by (simp add: mod_32)
    with b True get_string_loop_ok [OF b(1), of al msgpack "[]"] show ?thesis by (auto simp: get_msgpack_string_def get_binary_string_def)
  next
    case False
    define w c :: nat where "w = (if ?N \<le> 0xFF then 1 else if ?N \<le> 0xFFFF then 2 else 4)"
      and "c = (if ?N \<le> 0xFF then 0xD9 else if ?N \<le> 0xFFFF then 0xDA else 0xDB)"
    have src: "bsource r = write_byte c @ write_number le w ?N @ s @ rest" "?N < 256 ^ w"
      using assms False by (simp_all add: msgpack_string_def Let_def w_def c_def)
    have "c < 256" by (simp add: c_def)
    with first_byte [of r c "write_number le w ?N @ s @ rest" le] src have
      b: "bsource (bget r) = write_number le w ?N @ s @ rest" "bsax (bget r) = bsax r" "bcurrent (bget r) = int c" by auto
    have "get_msgpack_string le al [] (bget r) = get_sized_string le al msgpack w [] (bget r)"
      using b(3) by (simp add: get_msgpack_string_def c_def w_def split: if_splits)
    with get_sized_string_ok [OF b(1) src(2), of al msgpack "[]"] b(2,3) show ?thesis by (auto simp: c_def)
  qed
  then show "\<exists>r'. get_msgpack_string le al [] (bget r) = Inr (True, s, r') \<and> bsource r' = rest \<and> bsax r' = bsax r"
    "0xA0 \<le> bcurrent (bget r) \<and> bcurrent (bget r) \<le> 0xBF \<or> 0xD9 \<le> bcurrent (bget r) \<and> bcurrent (bget r) \<le> 0xDB" by blast+
qed

lemma msgpack_sizes_nonempty:
  "N < msgpack_limit \<Longrightarrow> 0 < length (msgpack_array_size le N)" "N < msgpack_limit \<Longrightarrow> 0 < length (msgpack_object_size le N)"
  using write_number_length [of le 1 "or 0x90 N"] write_number_length [of le 1 "or 0x80 (and N 0xF)"]
  by (auto simp: msgpack_array_size_def msgpack_object_size_def write_byte_def simp del: write_number_length)

lemma write_msgpack_array:
  assumes "\<And>j F r u. j \<in> set js \<Longrightarrow> before_value F (bsax r) \<Longrightarrow> bsource r = write_msgpack le j @ u \<Longrightarrow>
      value_read F j u (parse_msgpack_internal le al mx k r)"
    and "storable msgpack_limit mx (JArray js)" "before_value F (bsax r)" "bsource r = write_msgpack le (JArray js) @ rest"
  shows "value_read F (JArray js) rest (parse_msgpack_internal le al mx (Suc k) r)"
proof -
  let ?u = "concat (map (write_msgpack le) js)" and ?parse = "parse_msgpack_internal le al mx k"
  have "bsource r = msgpack_array_size le (length js) @ ?u @ rest" "length js < msgpack_limit" using assms(2,4) by simp_all
  from msgpack_array_size_read [OF this, of al "get_msgpack_array mx ?parse" "get_msgpack_object le al mx ?parse"]
  obtain r' where r': "parse_msgpack_internal le al mx (Suc k) r = get_msgpack_array mx ?parse (length js) r'" "bsource r' = ?u @ rest" "bsax r' = bsax r"
    by auto
  with array_read [OF r'(2), of F mx ?parse] assms show ?thesis by (simp add: get_msgpack_array_def)
qed

lemma write_msgpack_object:
  assumes "\<And>kv F r u. kv \<in> set m \<Longrightarrow> before_value F (bsax r) \<Longrightarrow> bsource r = write_msgpack le (snd kv) @ u \<Longrightarrow>
      value_read F (snd kv) u (parse_msgpack_internal le al mx k r)"
    and "storable msgpack_limit mx (JObject m)" "before_value F (bsax r)" "bsource r = write_msgpack le (JObject m) @ rest"
  shows "value_read F (JObject m) rest (parse_msgpack_internal le al mx (Suc k) r)"
proof -
  let ?u = "concat (map (\<lambda>kv. msgpack_string le (fst kv) @ write_msgpack le (snd kv)) m)" and ?parse = "parse_msgpack_internal le al mx k"
  have "bsource r = msgpack_object_size le (length m) @ ?u @ rest" "length m < msgpack_limit" using assms(2,4) by simp_all
  from msgpack_object_size_read [OF this, of al "get_msgpack_array mx ?parse" "get_msgpack_object le al mx ?parse"]
  obtain r' where r': "parse_msgpack_internal le al mx (Suc k) r = get_msgpack_object le al mx ?parse (length m) r'" "bsource r' = ?u @ rest" "bsax r' = bsax r"
    by auto
  have "\<exists>q'. get_msgpack_string le al [] (bget q) = Inr (True, fst kv, q') \<and> bsource q' = v \<and> bsax q' = bsax q"
    if "kv \<in> set m" "bsource q = msgpack_string le (fst kv) @ v" for kv q v
    using msgpack_string_head(1) [OF that(2), of al] assms(2) that(1) by simp
  then show ?thesis using object_read [OF r'(2), of F mx ?parse "get_msgpack_string le al []"] assms(1-3) r' by (simp add: get_msgpack_object_def)
qed

lemma write_msgpack_read:
  "storable msgpack_limit mx j \<Longrightarrow> before_value F (bsax r) \<Longrightarrow> bsource r = write_msgpack le j @ rest \<Longrightarrow> length (write_msgpack le j) < n \<Longrightarrow>
     value_read F j rest (parse_msgpack_internal le al mx n r)"
proof (induction le j arbitrary: F r rest n rule: write_msgpack.induct)
  case (1 le)
  with first_byte [of r "0xC0" rest le] bsax_value_read [of F "bget r" JNull] show ?case by (cases n) (simp_all add: msgpack_value_def)
next
  case (2 le b)
  with first_byte [of r "if b then 0xC3 else 0xC2" rest le] bsax_value_read [of F "bget r" "JBoolean b"] show ?case
    by (cases n) (simp_all add: msgpack_value_def split: if_splits)
next
  case (3 le i)
  with msgpack_integer_read [of r le i rest F] show ?case by (cases n) simp_all
next
  case (4 le i)
  with msgpack_unsigned_read [of r le i rest F] show ?case by (cases n) simp_all
next
  case (5 le x)
  have "unat x < 256 ^ 8" using unsigned_less [of x, where ?'a = nat] by simp
  with 5 first_byte [of r "0xCB" "write_number le 8 (unat x) @ rest" le] number_event_read [of F "bget r" le 8 "unat x" rest "\<lambda>number. JFloat (word_of_nat number)" al msgpack]
  show ?case by (cases n) (simp_all add: msgpack_value_def write_double_def)
next
  case (6 le s)
  obtain k where n: "n = Suc k" using 6 by (cases n) auto
  from msgpack_string_head(1) [of r le s rest al] msgpack_string_head(2) [of r le s rest] 6 obtain r' where
    r': "get_msgpack_string le al [] (bget r) = Inr (True, s, r')" "bsource r' = rest" "bsax r' = bsax r"
      "0xA0 \<le> bcurrent (bget r) \<and> bcurrent (bget r) \<le> 0xBF \<or> 0xD9 \<le> bcurrent (bget r) \<and> bcurrent (bget r) \<le> 0xDB" by auto
  with bsax_value_read [of F r' "JString s"] 6 show ?case by (auto simp: n msgpack_value_def string_event_def)
next
  case (7 le js)
  then obtain k where n: "n = Suc k" by (cases n) auto
  have "length (concat (map (write_msgpack le) js)) < k" using 7 n msgpack_sizes_nonempty(1) [of "length js" le] by (simp del: length_greater_0_conv)
  then have "length (write_msgpack le j) < k" if "j \<in> set js" for j using length_concat_member [OF that, of "write_msgpack le"] by simp
  with 7 show ?case unfolding n by (intro write_msgpack_array) auto
next
  case (8 le m)
  let ?e = "\<lambda>kv. msgpack_string le (fst kv) @ write_msgpack le (snd kv)"
  obtain k where n: "n = Suc k" using 8 by (cases n) auto
  have "length (concat (map ?e m)) < k" using 8 n msgpack_sizes_nonempty(2) [of "length m" le] by (simp del: length_greater_0_conv)
  then have "length (write_msgpack le (snd kv)) < k" if "kv \<in> set m" for kv using length_concat_member [OF that, of ?e] by simp
  with 8 show ?case unfolding n by (intro write_msgpack_object) auto
next
  case (9 le)
  then show ?case by simp
qed

interpretation msgpack_format: binary_format "write_msgpack le" "parse_msgpack_internal le al mx" "storable msgpack_limit mx" for le al mx
  by unfold_locales (rule write_msgpack_read)

text \<open>
  C36: what \<^verbatim>\<open>to_msgpack\<close> writes, \<^verbatim>\<open>from_msgpack\<close> reads back, on a machine of either byte order, strictly or not, with or
  without exceptions: every value whose integers are stored the way the reader stores them and whose strings, arrays and
  objects have fewer than \<open>2 ^ 32\<close> elements and fit into the containers.
\<close>

theorem msgpack_roundtrip:
  assumes "storable msgpack_limit mx j"
  shows "from_msgpack le mx strict_mode al (to_msgpack le j) = Inr j"
  unfolding from_msgpack_def to_msgpack_def by (rule msgpack_format.round_trip [OF assms]) simp

theorem msgpack_roundtrip_witness:
  "let j = JObject [(''a'', JArray [JInteger (- 300), JUnsigned 70000, JFloat 0x3FB999999999999A]), (''b'', JString [CHR 0xFF, CHR 0x00])]
   in from_msgpack False \<lparr>array_max_size = 100, object_max_size = 100\<rparr> True False (to_msgpack False j) = Inr j"
proof -
  have "CHR ''a'' < CHR ''b''" by (simp add: less_char_def)
  then show ?thesis unfolding Let_def by (intro msgpack_roundtrip) (simp add: object_ok_def)
qed

text \<open>
  A longer string is written without its size, so its bytes are taken for values: the first one alone is
  returned when trailing bytes are ignored.
\<close>

lemma msgpack_string_unsized: "msgpack_limit \<le> length s \<Longrightarrow> to_msgpack le (JString s) = s"
  by (simp add: to_msgpack_def msgpack_string_def Let_def)

end
