(* ===== verification/Json_Binary_Total.thy ===== *)
theory Json_Binary_Total
  imports Json_Cbor_Correct Json_Msgpack_Correct
begin

text \<open>
  Whatever the input, the readers of the binary formats return: the consumer of their events is not used out of turn, and
  the fuel of the model is enough. An error is an exception of the library, also where exceptions are not allowed.
\<close>

subsection \<open>Outcomes\<close>

text \<open>
  An error is an exception of the library; where exceptions are not allowed it is the one about the size of a container,
  which is thrown all the same.
\<close>

definition thrown :: "bool \<Rightarrow> cxx_error \<Rightarrow> bool" where
  "thrown al e \<longleftrightarrow> (case e of Json_exception ident what_arg \<Rightarrow> al \<or> ident = 408 | _ \<Rightarrow> False)"

definition outcome :: "bool \<Rightarrow> (binary_reader \<Rightarrow> bool) \<Rightarrow> (bool \<times> binary_reader) res \<Rightarrow> bool" where
  "outcome al P m \<longleftrightarrow> (case m of Inl e \<Rightarrow> thrown al e | Inr (ok, r) \<Rightarrow> ok \<longrightarrow> P r)"

definition string_outcome :: "bool \<Rightarrow> (binary_reader \<Rightarrow> bool) \<Rightarrow> (bool \<times> bytes \<times> binary_reader) res \<Rightarrow> bool" where
  "string_outcome al P m \<longleftrightarrow> (case m of Inl e \<Rightarrow> thrown al e | Inr (ok, s, r) \<Rightarrow> ok \<longrightarrow> P r)"

lemma outcome_simps [simp]: "outcome al P (Inr (ok, r)) \<longleftrightarrow> (ok \<longrightarrow> P r)" "string_outcome al P (Inr (ok, s, r)) \<longleftrightarrow> (ok \<longrightarrow> P r)"
  "outcome al P (Inl e) \<longleftrightarrow> thrown al e" "string_outcome al P (Inl e) \<longleftrightarrow> thrown al e"
  by (simp_all add: outcome_def string_outcome_def)

lemma outcome_mono: "outcome al P m \<Longrightarrow> (\<And>r. P r \<Longrightarrow> Q r) \<Longrightarrow> outcome al Q m"
  by (auto simp: outcome_def split: sum.splits prod.splits)

lemma string_outcome_mono: "string_outcome al P m \<Longrightarrow> (\<And>r. P r \<Longrightarrow> Q r) \<Longrightarrow> string_outcome al Q m"
  by (auto simp: string_outcome_def split: sum.splits prod.splits)

lemma outcome_and_then: "outcome al P m \<Longrightarrow> (\<And>r. P r \<Longrightarrow> outcome al Q (k r)) \<Longrightarrow> outcome al Q (and_then m k)"
  by (auto simp: outcome_def [of al P] and_then_def bind_res_def split: sum.splits prod.splits)

lemma outcome_string_event:
  "string_outcome al P m \<Longrightarrow> (\<And>s r. P r \<Longrightarrow> outcome al Q (bsax_do (f s) r)) \<Longrightarrow> outcome al Q (string_event m f)"
  by (auto simp: string_outcome_def string_event_def bind_res_def split: sum.splits prod.splits)

abbreviation unread :: "binary_reader \<Rightarrow> nat" where
  "unread r \<equiv> length (bsource r)"

text \<open>The document is untouched and no byte has come back.\<close>

definition later :: "binary_reader \<Rightarrow> binary_reader \<Rightarrow> bool" where
  "later r r' \<longleftrightarrow> bsax r' = bsax r \<and> unread r' \<le> unread r"

lemma later_refl [simp]: "later r r"
  by (simp add: later_def)

lemma later_trans: "later r r1 \<Longrightarrow> later r1 r2 \<Longrightarrow> later r r2"
  by (simp add: later_def)

lemma bget_cases: "bsax (bget r) = bsax r \<and> (bcurrent (bget r) = - 1 \<and> unread (bget r) = 0 \<and> unread r = 0 \<or>
    0 \<le> bcurrent (bget r) \<and> unread r = Suc (unread (bget r)))"
  by (auto simp: bget_def split: list.splits)

lemma bget_later: "later r (bget r)"
  using bget_cases [of r] by (auto simp: later_def)

lemma bget_le: "unread r \<le> k \<Longrightarrow> unread (bget r) \<le> k"
  using bget_later [of r] by (simp add: later_def)

lemma bget_not_eof: "bcurrent (bget r) \<noteq> - 1 \<Longrightarrow> 0 \<le> bcurrent (bget r) \<and> unread r = Suc (unread (bget r))"
  using bget_cases [of r] by auto

lemma format_error_outcome: "outcome al P (format_error al format ident detail context r)"
  by (simp add: format_error_def bsax_error_def sax_parse_error_def parse_error_at_byte_def thrown_def)

lemma unexpect_eof_outcome: "outcome al (\<lambda>r'. r' = r \<and> bcurrent r \<noteq> - 1) (unexpect_eof al format context r)"
  by (cases "bcurrent r = - 1") (simp_all add: unexpect_eof_def format_error_outcome)

subsection \<open>Numbers and strings\<close>

lemma get_number_loop_outcome:
  "case get_number_loop le al format n vec r of Inl e \<Rightarrow> thrown al e | Inr (ok, v, r') \<Rightarrow> ok \<longrightarrow> later r r'"
proof (induction n arbitrary: vec r)
  case (Suc n)
  let ?r = "bget r"
  show ?case
  proof (cases "unexpect_eof al format ''number'' ?r")
    case (Inl e)
    with unexpect_eof_outcome [of al ?r format "''number''"] show ?thesis by (simp add: Let_def)
  next
    case (Inr p)
    obtain ok r2 where p: "p = (ok, r2)" by fastforce
    show ?thesis
    proof (cases ok)
      case True
      then have "r2 = ?r" using unexpect_eof_outcome [of al ?r format "''number''"] Inr p by simp
      with Suc.IH [of ?r "vec[(if le then length vec - (length vec - Suc n) - 1 else length vec - Suc n) := nat (bcurrent ?r mod 256)]"] Inr p True
      show ?thesis using bget_later [of r] by (auto simp: Let_def split: sum.splits dest: later_trans)
    next
      case False
      with Inr p show ?thesis by (simp add: Let_def)
    qed
  qed
qed simp

lemma get_number_outcome:
  assumes "\<And>n r'. later r r' \<Longrightarrow> outcome al P (k n r')"
  shows "outcome al P (get_number le al format w r k (\<lambda>r1. (False, r1)))"
  using get_number_loop_outcome [of al r le format w "replicate w 0"] assms
  by (auto simp: get_number_def bind_res_def split: sum.splits)

lemma get_string_loop_outcome:
  "string_outcome al (\<lambda>r'. later r r') (get_string_loop al format n success result r)"
proof (induction n arbitrary: success result r)
  case (Suc n)
  let ?r = "bget r"
  show ?case
  proof (cases "unexpect_eof al format ''string'' ?r")
    case (Inl e)
    with unexpect_eof_outcome [of al ?r format "''string''"] show ?thesis by simp
  next
    case (Inr p)
    obtain ok r2 where p: "p = (ok, r2)" by fastforce
    have IH: "string_outcome al (\<lambda>r'. later r2 r') (get_string_loop al format n (success \<and> ok) (result @ [char_of (nat (bcurrent r2 mod 256))]) r2)"
      by (rule Suc.IH)
    show ?thesis
    proof (cases ok)
      case True
      then have "r2 = ?r" using unexpect_eof_outcome [of al ?r format "''string''"] Inr p by simp
      with IH Inr p show ?thesis using bget_later [of r] by (auto elim!: string_outcome_mono dest: later_trans)
    next
      case False
      have "string_outcome al P (get_string_loop al format n False result r)" for P result r
      proof -
        have "case get_string_loop al format n False result r of Inl e \<Rightarrow> thrown al e | Inr (ok, s, r') \<Rightarrow> \<not> ok"
        proof (induction n arbitrary: result r)
          case (Suc n)
          with unexpect_eof_outcome [of al "bget r" format "''string''"] show ?case
            by (cases "unexpect_eof al format ''string'' (bget r)") (auto split: prod.splits)
        qed simp
        then show ?thesis by (simp add: string_outcome_def split: sum.splits prod.splits)
      qed
      with False Inr p show ?thesis by simp
    qed
  qed
qed simp

lemma get_binary_string_outcome: "string_outcome al (later r) (get_binary_string al format n result r)"
  using get_string_loop_outcome [of al r format n True result] by (simp add: get_binary_string_def)

lemma get_sized_string_outcome: "string_outcome al (later r) (get_sized_string le al format w result r)"
proof -
  have "string_outcome al (later r) (get_binary_string al format n result r')" if "later r r'" for n r'
    using get_binary_string_outcome [of al r' format n result] that by (auto elim!: string_outcome_mono dest: later_trans)
  then show ?thesis using get_number_loop_outcome [of al r le format w "replicate w 0"]
    by (auto simp: get_sized_string_def get_number_def bind_res_def split: sum.splits)
qed

subsection \<open>Values and containers\<close>

text \<open>A value has been put where the frames \<open>F\<close> say.\<close>

abbreviation placed :: "double frame list \<Rightarrow> nat \<Rightarrow> binary_reader \<Rightarrow> bool" where
  "placed F k r \<equiv> (\<exists>v. after_value F v (bsax r)) \<and> unread r \<le> k"

lemma bsax_value_outcome: "before_value F (bsax r) \<Longrightarrow> unread r \<le> k \<Longrightarrow> outcome al (placed F k) (bsax_do (sax_value v) r)"
  using bsax_value_read [of F r v] by (auto simp: value_read_def)

lemma number_event_outcome:
  "before_value F (bsax r) \<Longrightarrow> unread r \<le> k \<Longrightarrow> outcome al (placed F k) (number_event le al format w f r)"
  unfolding number_event_def by (rule get_number_outcome) (auto simp: later_def intro!: bsax_value_outcome)

lemma outcome_if: "(b \<Longrightarrow> outcome al P x) \<Longrightarrow> (\<not> b \<Longrightarrow> outcome al P y) \<Longrightarrow> outcome al P (if b then x else y)"
  by simp

lemma string_outcome_if: "(b \<Longrightarrow> string_outcome al P x) \<Longrightarrow> (\<not> b \<Longrightarrow> string_outcome al P y) \<Longrightarrow> string_outcome al P (if b then x else y)"
  by simp

text \<open>The loops keep what one round keeps of the document.\<close>

lemma for_times_outcome:
  assumes "\<And>r. I (bsax r) \<Longrightarrow> unread r \<le> k \<Longrightarrow> outcome al (\<lambda>r'. I (bsax r') \<and> unread r' \<le> unread r) (body r)"
    and "I (bsax r)" "unread r \<le> k"
  shows "outcome al (\<lambda>r'. I (bsax r') \<and> unread r' \<le> k) (for_times len body r)"
  using assms(2,3)
proof (induction len arbitrary: r)
  case (Suc len)
  have "outcome al (\<lambda>r'. I (bsax r') \<and> unread r' \<le> unread r) (body r)" using Suc.prems by (rule assms(1))
  with Suc show ?case by (auto intro!: outcome_and_then)
qed simp

lemma until_break_outcome:
  assumes "\<And>r. I (bsax r) \<Longrightarrow> bcurrent r = - 1 \<or> unread r < k \<Longrightarrow>
      outcome al (\<lambda>r'. I (bsax r') \<and> unread r' \<le> unread r \<and> bcurrent r \<noteq> - 1) (body r)"
    and "I (bsax r)" "unread r \<le> k" "unread r < n"
  shows "outcome al (\<lambda>r'. I (bsax r') \<and> unread r' \<le> k) (until_break n body r)"
  using assms(2-)
proof (induction n arbitrary: r)
  case (Suc n)
  let ?r = "bget r"
  have r: "I (bsax ?r)" "bcurrent ?r = - 1 \<or> unread r = Suc (unread ?r)" using bget_cases [of r] Suc.prems(1) by auto
  have "outcome al (\<lambda>r'. I (bsax r') \<and> unread r' \<le> unread ?r \<and> bcurrent ?r \<noteq> - 1) (body ?r)"
    using r Suc.prems by (intro assms(1)) auto
  then have "outcome al (\<lambda>r'. I (bsax r') \<and> unread r' \<le> k) (and_then (body ?r) (until_break n body))"
    by (rule outcome_and_then) (use r Suc in auto)
  moreover have "unread ?r \<le> k" using bget_later [of r] Suc.prems by (simp add: later_def)
  ultimately show ?case using r by simp
qed simp

lemma start_array_outcome:
  "before_value F (bsax r) \<Longrightarrow>
     outcome al (\<lambda>r'. (\<exists>acc. before_value (Array_frame acc # F) (bsax r')) \<and> bsource r' = bsource r) (bsax_do (start_array mx len) r)"
  using sax_start_array [of F "bsax r"]
  by (auto simp: bsax_do_def start_array_def start_sized_def out_of_range_create_def thrown_def)

lemma start_object_outcome:
  "before_value F (bsax r) \<Longrightarrow>
     outcome al (\<lambda>r'. (\<exists>m. in_object F m (bsax r')) \<and> bsource r' = bsource r) (bsax_do (start_object mx len) r)"
  using sax_start_object [of F "bsax r"]
  by (auto simp: bsax_do_def start_object_def start_sized_def out_of_range_create_def thrown_def)

lemma end_array_outcome: "\<exists>acc. before_value (Array_frame acc # F) (bsax r) \<Longrightarrow> unread r \<le> k \<Longrightarrow> outcome al (placed F k) (bsax_do sax_end r)"
  using sax_end_array [of _ F "bsax r"] by (fastforce simp: bsax_do_def)

lemma end_object_outcome: "\<exists>m. in_object F m (bsax r) \<Longrightarrow> unread r \<le> k \<Longrightarrow> outcome al (placed F k) (bsax_do sax_end r)"
  using sax_end_object [of F _ "bsax r"] by (fastforce simp: bsax_do_def)

lemma placed_array: "placed (Array_frame acc # F) k r \<Longrightarrow> (\<exists>acc. before_value (Array_frame acc # F) (bsax r)) \<and> unread r \<le> k"
  by (auto dest: after_value_array)

lemma placed_object: "placed (Object_frame m key # F) k r \<Longrightarrow> (\<exists>m. in_object F m (bsax r)) \<and> unread r \<le> k"
  by (auto simp: after_value_object)

text \<open>An array, whatever the loop over its elements, and one member of an object.\<close>

lemma array_outcome:
  assumes "before_value F (bsax r)"
    and "\<And>r'. \<exists>acc. before_value (Array_frame acc # F) (bsax r') \<Longrightarrow> unread r' = unread r \<Longrightarrow>
      outcome al (\<lambda>r''. (\<exists>acc. before_value (Array_frame acc # F) (bsax r'')) \<and> unread r'' \<le> k) (loop r')"
  shows "outcome al (placed F k) (and_then (bsax_do (start_array mx len) r) (\<lambda>r1. and_then (loop r1) (\<lambda>r2. bsax_do sax_end r2)))"
  by (rule outcome_and_then [OF start_array_outcome [OF assms(1)]], rule outcome_and_then [OF assms(2)])
    (auto intro!: end_array_outcome)

lemma object_outcome:
  assumes "before_value F (bsax r)"
    and "\<And>r'. \<exists>m. in_object F m (bsax r') \<Longrightarrow> unread r' = unread r \<Longrightarrow>
      outcome al (\<lambda>r''. (\<exists>m. in_object F m (bsax r'')) \<and> unread r'' \<le> k) (loop r')"
  shows "outcome al (placed F k) (and_then (bsax_do (start_object mx len) r) (\<lambda>r1. and_then (loop r1) (\<lambda>r2. bsax_do sax_end r2)))"
  by (rule outcome_and_then [OF start_object_outcome [OF assms(1)]], rule outcome_and_then [OF assms(2)])
    (auto intro!: end_object_outcome)

lemma member_outcome:
  assumes "\<exists>m. in_object F m (bsax r)" and "string_outcome al (\<lambda>r'. later r r' \<and> B) (str r)"
    and "\<And>F r'. B \<Longrightarrow> before_value F (bsax r') \<Longrightarrow> unread r' \<le> unread r \<Longrightarrow> outcome al (placed F (unread r')) (parse r')"
  shows "outcome al (\<lambda>r'. (\<exists>m. in_object F m (bsax r')) \<and> unread r' \<le> unread r \<and> B) (and_then (string_event (str r) sax_key) parse)"
proof (rule outcome_and_then)
  show "outcome al (\<lambda>r'. (\<exists>m key. before_value (Object_frame m key # F) (bsax r')) \<and> unread r' \<le> unread r \<and> B) (string_event (str r) sax_key)"
    using assms(2)
  proof (rule outcome_string_event)
    fix s r' assume r': "later r r' \<and> B"
    then obtain m where "in_object F m (bsax r')" using assms(1) by (auto simp: later_def)
    from sax_key_frames [OF this, of s] r'
    show "outcome al (\<lambda>r'. (\<exists>m key. before_value (Object_frame m key # F) (bsax r')) \<and> unread r' \<le> unread r \<and> B) (bsax_do (sax_key s) r')"
      by (auto simp: bsax_do_def later_def) blast
  qed
next
  fix r' assume r': "(\<exists>m key. before_value (Object_frame m key # F) (bsax r')) \<and> unread r' \<le> unread r \<and> B"
  then obtain m key where "before_value (Object_frame m key # F) (bsax r')" by blast
  then have "outcome al (placed (Object_frame m key # F) (unread r')) (parse r')" using r' by (intro assms(3)) auto
  then show "outcome al (\<lambda>r'. (\<exists>m. in_object F m (bsax r')) \<and> unread r' \<le> unread r \<and> B) (parse r')"
    by (rule outcome_mono) (use r' in \<open>auto simp: after_value_object\<close>)
qed

text \<open>Containers of a given size.\<close>

lemma sized_array_outcome:
  assumes "before_value F (bsax r)" "unread r \<le> k"
    and "\<And>F r. before_value F (bsax r) \<Longrightarrow> unread r \<le> k \<Longrightarrow> outcome al (placed F (unread r)) (parse r)"
  shows "outcome al (placed F k) (and_then (bsax_do (start_array mx len) r) (\<lambda>r1. and_then (for_times len parse r1) (\<lambda>r2. bsax_do sax_end r2)))"
proof (rule array_outcome [OF assms(1)])
  fix r1 assume "\<exists>acc. before_value (Array_frame acc # F) (bsax r1)" "unread r1 = unread r"
  then show "outcome al (\<lambda>r'. (\<exists>acc. before_value (Array_frame acc # F) (bsax r')) \<and> unread r' \<le> k) (for_times len parse r1)"
    using assms(2) by (intro for_times_outcome) (auto intro!: outcome_mono [OF assms(3)] dest: after_value_array)
qed

lemma sized_object_outcome:
  assumes "before_value F (bsax r)" "unread r \<le> k"
    and "\<And>F r. before_value F (bsax r) \<Longrightarrow> unread r \<le> k \<Longrightarrow> outcome al (placed F (unread r)) (parse r)"
    and "\<And>r. unread r \<le> k \<Longrightarrow> string_outcome al (\<lambda>r'. later (bget r) r' \<and> bcurrent (bget r) \<noteq> - 1) (str (bget r))"
  shows "outcome al (placed F k) (and_then (bsax_do (start_object mx len) r) (\<lambda>r1.
    and_then (for_times len (\<lambda>r. and_then (string_event (str (bget r)) sax_key) parse) r1) (\<lambda>r2. bsax_do sax_end r2)))"
proof (rule object_outcome [OF assms(1)])
  have round: "outcome al (\<lambda>r'. (\<exists>m. in_object F m (bsax r')) \<and> unread r' \<le> unread r1) (and_then (string_event (str (bget r1)) sax_key) parse)"
    if "\<exists>m. in_object F m (bsax r1)" "unread r1 \<le> k" for r1
  proof -
    have "outcome al (\<lambda>r'. (\<exists>m. in_object F m (bsax r')) \<and> unread r' \<le> unread (bget r1) \<and> bcurrent (bget r1) \<noteq> - 1)
        (and_then (string_event (str (bget r1)) sax_key) parse)"
    proof (rule member_outcome)
      show "string_outcome al (\<lambda>r'. later (bget r1) r' \<and> bcurrent (bget r1) \<noteq> - 1) (str (bget r1))" using that(2) by (rule assms(4))
    qed (use that bget_later [of r1] in \<open>auto simp: later_def intro!: assms(3)\<close>)
    then show ?thesis by (rule outcome_mono) (use bget_later [of r1] in \<open>auto simp: later_def\<close>)
  qed
  fix r1 assume "\<exists>m. in_object F m (bsax r1)" "unread r1 = unread r"
  then show "outcome al (\<lambda>r'. (\<exists>m. in_object F m (bsax r')) \<and> unread r' \<le> k)
      (for_times len (\<lambda>r. and_then (string_event (str (bget r)) sax_key) parse) r1)"
    using assms(2) round by (intro for_times_outcome) auto
qed

subsection \<open>MessagePack\<close>

lemma string_guard_outcome:
  assumes "bcurrent r \<noteq> - 1 \<Longrightarrow> string_outcome al (later r) k"
  shows "string_outcome al (\<lambda>r'. later r r' \<and> bcurrent r \<noteq> - 1)
    (bind_res (unexpect_eof al format context r) (\<lambda>(ok, r0). if \<not> ok then Inr (False, result, r0) else k))"
proof (cases "bcurrent r = - 1")
  case True
  with format_error_outcome [of al "\<lambda>_. False" format 110 "''unexpected end of input''" "context" r] show ?thesis
    by (auto simp: unexpect_eof_def outcome_def bind_res_def split: sum.splits)
next
  case False
  with assms show ?thesis by (simp add: unexpect_eof_def)
qed

lemma string_error_outcome: "string_outcome al P (bind_res (format_error al format i t c r) (\<lambda>(ok, r1). Inr (ok, result, r1)))"
  using format_error_outcome [of al P format i t c r] by (auto simp: outcome_def bind_res_def split: sum.splits)

lemma msgpack_string_outcome: "string_outcome al (\<lambda>r'. later r r' \<and> bcurrent r \<noteq> - 1) (get_msgpack_string le al result r)"
  unfolding get_msgpack_string_def
  by (intro string_guard_outcome string_outcome_if get_binary_string_outcome get_sized_string_outcome string_error_outcome)

lemma string_value_outcome:
  assumes "before_value F (bsax r)" "unread r \<le> k" "string_outcome al (later r) m"
  shows "outcome al (placed F k) (string_event m (\<lambda>s. sax_value (JString s)))"
  by (rule outcome_string_event [OF assms(3)]) (use assms(1,2) in \<open>auto simp: later_def intro!: bsax_value_outcome\<close>)

lemma sized_outcome:
  assumes "\<And>len r'. later r r' \<Longrightarrow> outcome al P (f len r')"
  shows "outcome al P (get_number le al format w r f (\<lambda>r1. (False, r1)))"
  using assms by (rule get_number_outcome)

lemma msgpack_value_outcome:
  assumes "before_value F (bsax r)" "unread r \<le> k" "bcurrent r \<noteq> - 1"
    and "\<And>len r'. later r r' \<Longrightarrow> outcome al (placed F k) (array len r')" "\<And>len r'. later r r' \<Longrightarrow> outcome al (placed F k) (object len r')"
  shows "outcome al (placed F k) (msgpack_value le al array object r)"
proof -
  have "string_outcome al (later r) (get_msgpack_string le al [] r)"
    using msgpack_string_outcome [of al r le "[]"] by (rule string_outcome_mono) simp
  from string_value_outcome [OF assms(1,2) this] show ?thesis
    unfolding msgpack_value_def Let_def using assms
    by (intro outcome_if sized_outcome number_event_outcome bsax_value_outcome format_error_outcome assms later_refl) (auto simp: later_def)
qed

lemma parse_msgpack_outcome:
  "before_value F (bsax r) \<Longrightarrow> unread r < n \<Longrightarrow> outcome al (placed F (unread r)) (parse_msgpack_internal le al mx n r)"
proof (induction n arbitrary: F r)
  case (Suc n)
  let ?parse = "parse_msgpack_internal le al mx n" and ?r = "bget r"
  have r: "before_value F (bsax ?r)" "unread ?r \<le> unread r" using bget_cases [of r] Suc.prems(1) by auto
  show ?case
  proof (cases "bcurrent ?r = - 1")
    case True
    then show ?thesis using format_error_outcome by (simp add: msgpack_value_def unexpect_eof_def)
  next
    case False
    then have fuel: "unread ?r < n" using bget_not_eof [OF False] Suc.prems(2) by simp
    have "outcome al (placed F (unread ?r)) (get_msgpack_array mx ?parse len r')" if "later ?r r'" for len r'
      unfolding get_msgpack_array_def using that r fuel by (intro sized_array_outcome Suc.IH) (auto simp: later_def)
    moreover have "outcome al (placed F (unread ?r)) (get_msgpack_object le al mx ?parse len r')" if "later ?r r'" for len r'
      unfolding get_msgpack_object_def using that r fuel
      by (intro sized_object_outcome Suc.IH msgpack_string_outcome) (auto simp: later_def)
    ultimately have "outcome al (placed F (unread ?r)) (parse_msgpack_internal le al mx (Suc n) r)"
      using r False unfolding parse_msgpack_internal.simps by (intro msgpack_value_outcome) auto
    then show ?thesis by (rule outcome_mono) (use r in auto)
  qed
qed simp

subsection \<open>CBOR\<close>

text \<open>A string of indefinite length, given what reads one chunk.\<close>

lemma cbor_chunks_outcome:
  assumes "\<And>r. bcurrent r = - 1 \<or> unread r < k \<Longrightarrow> string_outcome al (\<lambda>r'. later r r' \<and> bcurrent r \<noteq> - 1) (str r)"
    and "unread r \<le> k" "unread r < n"
  shows "string_outcome al (later r) (cbor_chunks n str result r)"
  using assms(2-)
proof (induction n arbitrary: result r)
  case (Suc n)
  let ?r = "bget r"
  have r: "bcurrent ?r = - 1 \<or> unread r = Suc (unread ?r)" "later r ?r" using bget_cases [of r] bget_later by auto
  have "string_outcome al (\<lambda>r'. later ?r r' \<and> bcurrent ?r \<noteq> - 1) (str ?r)" using r Suc.prems by (intro assms(1)) auto
  moreover have "string_outcome al (later r) (cbor_chunks n str res r')" if "later ?r r'" "bcurrent ?r \<noteq> - 1" for res r'
  proof -
    have "string_outcome al (later r') (cbor_chunks n str res r')" using that r Suc.prems by (intro Suc.IH) (auto simp: later_def)
    then show ?thesis by (rule string_outcome_mono) (use that r in \<open>auto dest: later_trans\<close>)
  qed
  ultimately show ?case using r by (auto simp: string_outcome_def [of al "\<lambda>r'. later ?r r' \<and> B" for B] bind_res_def split: sum.splits)
qed simp

lemma get_cbor_string_outcome:
  "bcurrent r = - 1 \<and> 0 < n \<or> unread r + 2 \<le> n \<Longrightarrow>
     string_outcome al (\<lambda>r'. later r r' \<and> bcurrent r \<noteq> - 1) (get_cbor_string le al n result r)"
proof (induction n arbitrary: result r)
  case (Suc n)
  have "string_outcome al (later r) (cbor_chunks n (get_cbor_string le al n []) result r)" if "bcurrent r \<noteq> - 1"
    using that Suc.prems by (intro cbor_chunks_outcome [of "unread r"] Suc.IH) auto
  then show ?case unfolding get_cbor_string.simps
    by (intro string_guard_outcome string_outcome_if get_binary_string_outcome get_sized_string_outcome string_error_outcome)
qed simp

lemma cbor_value_outcome:
  assumes "before_value F (bsax r)" "unread r \<le> k" "bcurrent r \<noteq> - 1" "string_outcome al (later r) (str r)"
    and "\<And>len r'. later r r' \<Longrightarrow> outcome al (placed F k) (array len r')" "\<And>len r'. later r r' \<Longrightarrow> outcome al (placed F k) (object len r')"
  shows "outcome al (placed F k) (cbor_value le al str array object r)"
proof -
  have "outcome al (placed F k) (get_half al r)"
    unfolding get_half_def
  proof (rule outcome_and_then [OF unexpect_eof_outcome], rule outcome_and_then [OF unexpect_eof_outcome])
    fix r1 r2 assume "r1 = bget r \<and> bcurrent (bget r) \<noteq> - 1" "r2 = bget r1 \<and> bcurrent (bget r1) \<noteq> - 1"
    then have "later r r2" using later_trans [OF bget_later bget_later] by simp
    then show "outcome al (placed F k) (bsax_do (sax_value v) r2)" for v using assms(1,2) by (intro bsax_value_outcome) (auto simp: later_def)
  qed
  with string_value_outcome [OF assms(1,2,4)] show ?thesis
    unfolding cbor_value_def Let_def using assms
    by (intro outcome_if sized_outcome number_event_outcome bsax_value_outcome format_error_outcome assms later_refl) (auto simp: later_def)
qed

text \<open>Containers that end at the break byte.\<close>

lemma indefinite_array_outcome:
  assumes "before_value F (bsax r)" "unread r \<le> k" "k < n"
    and "\<And>F r. before_value F (bsax r) \<Longrightarrow> bcurrent r = - 1 \<or> unread r < k \<Longrightarrow>
      outcome al (\<lambda>r'. placed F (unread r) r' \<and> bcurrent r \<noteq> - 1) (parse r)"
  shows "outcome al (placed F k) (and_then (bsax_do (start_array mx len) r) (\<lambda>r1. and_then (until_break n parse r1) (\<lambda>r2. bsax_do sax_end r2)))"
proof (rule array_outcome [OF assms(1)])
  fix r1 assume "\<exists>acc. before_value (Array_frame acc # F) (bsax r1)" "unread r1 = unread r"
  then show "outcome al (\<lambda>r'. (\<exists>acc. before_value (Array_frame acc # F) (bsax r')) \<and> unread r' \<le> k) (until_break n parse r1)"
    using assms(2,3) by (intro until_break_outcome [of _ k]) (auto intro!: outcome_mono [OF assms(4)] dest: after_value_array)
qed

lemma indefinite_object_outcome:
  assumes "before_value F (bsax r)" "unread r \<le> k" "k < n"
    and "\<And>F r. before_value F (bsax r) \<Longrightarrow> unread r \<le> k \<Longrightarrow> outcome al (placed F (unread r)) (parse r)"
    and "\<And>r. bcurrent r = - 1 \<or> unread r < k \<Longrightarrow> string_outcome al (\<lambda>r'. later r r' \<and> bcurrent r \<noteq> - 1) (str r)"
  shows "outcome al (placed F k) (and_then (bsax_do (start_object mx len) r) (\<lambda>r1.
    and_then (until_break n (\<lambda>r. and_then (string_event (str r) sax_key) parse) r1) (\<lambda>r2. bsax_do sax_end r2)))"
proof (rule object_outcome [OF assms(1)])
  have round: "outcome al (\<lambda>r'. (\<exists>m. in_object F m (bsax r')) \<and> unread r' \<le> unread r1 \<and> bcurrent r1 \<noteq> - 1) (and_then (string_event (str r1) sax_key) parse)"
    if "\<exists>m. in_object F m (bsax r1)" "bcurrent r1 = - 1 \<or> unread r1 < k" for r1
    using that(1) assms(5) [OF that(2)] by (rule member_outcome) (use that(2) in \<open>auto intro!: assms(4)\<close>)
  fix r1 assume "\<exists>m. in_object F m (bsax r1)" "unread r1 = unread r"
  then show "outcome al (\<lambda>r'. (\<exists>m. in_object F m (bsax r')) \<and> unread r' \<le> k)
      (until_break n (\<lambda>r. and_then (string_event (str r) sax_key) parse) r1)"
    using assms(2,3) round by (intro until_break_outcome [of _ k]) auto
qed

lemma parse_cbor_outcome:
  fixes get_char r
  defines "r0 \<equiv> if get_char then bget r else r"
  assumes "before_value F (bsax r0)" "bcurrent r0 = - 1 \<and> 0 < n \<or> unread r0 + 3 \<le> n"
  shows "outcome al (\<lambda>r'. placed F (unread r0) r' \<and> bcurrent r0 \<noteq> - 1) (parse_cbor_internal le al mx n get_char r)"
  using assms(2,3) unfolding r0_def
proof (induction n arbitrary: F get_char r)
  case (Suc n)
  let ?parse = "parse_cbor_internal le al mx n" and ?str = "get_cbor_string le al n []" and ?r = "if get_char then bget r else r"
  show ?case
  proof (cases "bcurrent ?r = - 1")
    case True
    then show ?thesis using format_error_outcome by (simp add: cbor_value_def unexpect_eof_def)
  next
    case False
    then have fuel: "unread ?r + 2 \<le> n" using Suc.prems(2) by simp
    have next_value: "outcome al (placed F (unread r')) (?parse True r')" if "before_value F (bsax r')" "unread r' \<le> unread ?r" for F r'
    proof -
      have "outcome al (\<lambda>r''. placed F (unread (bget r')) r'' \<and> bcurrent (bget r') \<noteq> - 1) (?parse True r')"
        using Suc.IH [of F True r'] that fuel bget_cases [of r'] by auto
      then show ?thesis by (rule outcome_mono) (use bget_later [of r'] in \<open>auto simp: later_def\<close>)
    qed
    have element: "outcome al (\<lambda>r''. placed F (unread r') r'' \<and> bcurrent r' \<noteq> - 1) (?parse False r')"
      if "before_value F (bsax r')" "bcurrent r' = - 1 \<or> unread r' < unread ?r" for F r'
      using Suc.IH [of F False r'] that fuel by auto
    have string: "string_outcome al (\<lambda>r''. later r' r'' \<and> bcurrent r' \<noteq> - 1) (?str r')" if "bcurrent r' = - 1 \<or> unread r' \<le> unread ?r" for r'
      using that fuel by (intro get_cbor_string_outcome) auto
    have "outcome al (placed F (unread ?r)) (get_cbor_array mx n ?parse len r')" if "later ?r r'" for len r'
      unfolding get_cbor_array_def using that fuel Suc.prems(1)
      by (cases "len = unknown_size") (auto simp: later_def intro!: sized_array_outcome indefinite_array_outcome next_value element)
    moreover have "outcome al (placed F (unread ?r)) (get_cbor_object mx n ?str ?parse len r')" if "later ?r r'" for len r'
      unfolding get_cbor_object_def Let_def using that fuel Suc.prems(1)
      by (cases "len = unknown_size") (auto simp: later_def bget_le intro!: sized_object_outcome indefinite_object_outcome next_value string)
    ultimately have "outcome al (placed F (unread ?r)) (parse_cbor_internal le al mx (Suc n) get_char r)"
      unfolding parse_cbor_internal.simps using Suc.prems(1) False string_outcome_mono [OF string [of ?r], of "later ?r"]
      by (intro cbor_value_outcome) auto
    with False show ?thesis by simp
  qed
qed simp

subsection \<open>The entry points\<close>

lemma from_binary_outcome:
  assumes "outcome al P (parse (reader_new input))"
  shows "case from_binary parse al format strict_mode input of Inl e \<Rightarrow> thrown al e | Inr j \<Rightarrow> True"
proof -
  have "thrown al e" if "format_error al format i t c r = Inl e" for i t c r e
    using format_error_outcome [of al "\<lambda>_. True" format i t c r] that by simp
  with assms show ?thesis
    by (auto simp: from_binary_def binary_sax_parse_def bind_res_def outcome_def Let_def split: sum.splits prod.splits if_splits)
qed

lemma before_new: "before_value [] (bsax (reader_new input))"
  by (simp add: before_value_def reader_new_def dom_new_def)

text \<open>
  C37: the readers of the binary formats are total, as long as memory lasts. Whatever the bytes, the byte order of the
  machine, the sizes that arrays and objects may have and the mode, \<^verbatim>\<open>from_cbor\<close> and \<^verbatim>\<open>from_msgpack\<close> return a value or throw an exception of the
  library, with exceptions switched off only the one about the size of a container (408): the SAX consumer is never used out
  of turn, and a nesting no deeper than the length of the input is enough. Strings are unbounded here, so running out of
  memory is not represented; with exceptions switched off the code builds a string of the declared length even when the
  input has ended.
\<close>

theorem binary_total:
  "(case from_cbor le mx strict_mode al input of Inl e \<Rightarrow> thrown al e | Inr j \<Rightarrow> True) \<and>
   (case from_msgpack le mx strict_mode al input of Inl e \<Rightarrow> thrown al e | Inr j \<Rightarrow> True)"
proof
  have "outcome al (\<lambda>_. True) (parse_cbor_internal le al mx (length input + 2) True (reader_new input))"
    by (rule outcome_mono [OF parse_cbor_outcome [where F = "[]"]])
      (use bget_cases [of "reader_new input"] before_new [of input] in \<open>auto simp: reader_new_def\<close>)
  then show "case from_cbor le mx strict_mode al input of Inl e \<Rightarrow> thrown al e | Inr j \<Rightarrow> True"
    unfolding from_cbor_def by (rule from_binary_outcome)
next
  have "outcome al (\<lambda>_. True) (parse_msgpack_internal le al mx (length input + 2) (reader_new input))"
    by (rule outcome_mono [OF parse_msgpack_outcome [where F = "[]"]]) (simp_all add: before_new, simp add: reader_new_def)
  then show "case from_msgpack le mx strict_mode al input of Inl e \<Rightarrow> thrown al e | Inr j \<Rightarrow> True"
    unfolding from_msgpack_def by (rule from_binary_outcome)
qed

end
