(* ===== verification/Spec2Isabelle.thy ===== *)
theory Spec2Isabelle
  imports Pico_Grammar Chunked Multipart Server_Props PlogFiles Json_Double Json_Binary_Total
begin

text \<open>
  onyxup: a verification library for an HTTP server.

  \<^bold>\<open>The program.\<close> \<^verbatim>\<open>HttpServer::run\<close> (\<^verbatim>\<open>src/sources/server/server.cpp\<close>) is one event loop over \<^verbatim>\<open>epoll\<close>.
  It accepts connections, collects what they send in a buffer per descriptor (\<^verbatim>\<open>buffer/\<close>), parses it with
  picohttpparser (\<^verbatim>\<open>httpparser/\<close>), fills a request object (\<^verbatim>\<open>request/\<close>), looks up a route (\<^verbatim>\<open>route/\<close>) and puts
  a task (\<^verbatim>\<open>task/\<close>) into a queue (\<^verbatim>\<open>queue/\<close>). Worker threads take tasks, call the handler of the application
  and run a chain on its response (\<^verbatim>\<open>response/chains/\<close>: HEAD, ranges, gzip, default); the finished text comes
  back through a third queue, and the loop copies it into the output buffer of the connection if the time point of
  the descriptor is still the one that the task took, and sends it. Handlers may use the static file handler, the statistics page
  (\<^verbatim>\<open>services/statistics/\<close>) and the helpers for forms (\<^verbatim>\<open>server/utils.cpp\<close>). The settings come from a file
  that the JSON library (\<^verbatim>\<open>json/json.hpp\<close>, vendored) parses. Everything is logged through \<^verbatim>\<open>plog/\<close>.

  \<^bold>\<open>Conventions\<close> (\<open>Prelude\<close>, \<open>StdString\<close>). A byte is a \<open>char\<close>, a \<^verbatim>\<open>std::string\<close> or array a list of
  them, \<^verbatim>\<open>size_t\<close> a \<open>64 word\<close>, \<^verbatim>\<open>int\<close> an \<open>int\<close> reduced by \<open>int32\<close> where it may overflow. An operation
  that may throw or be undefined returns \<open>cxx_error + 'a\<close>: the exceptions of the code are values, and
  \<open>Undefined\<close> stands for every access outside an object, so that memory safety is the statement that this
  value is not reached; it also stands for the overflow of a signed sum and for a conversion to \<^verbatim>\<open>int\<close> without a result. Null pointers and failed allocations are \<open>None\<close>. A call of the operating system, zlib,
  the POSIX regular expressions, \<^verbatim>\<open>strtod\<close>, the clock and a handler of the application are arguments;
  what is required of them is a hypothesis of the theorem that needs it.

  \<^bold>\<open>Theories, sources and what is shown.\<close>
    \<^item> \<open>Pico_Scan\<close>, \<open>Pico_Http\<close>: \<^verbatim>\<open>httpparser/picohttpparser.cpp\<close> function by function, both with the SSE4.2
      block scan and with the unrolled portable loop (\<open>sse\<close> selects). \<open>Pico_Correct\<close> holds the contract of
      a parser over a growing buffer, the locale \<open>stream_parser\<close>, and its three interpretations;
      \<open>Pico_Grammar\<close> the accepted language: round trip (C9), soundness (C10), memory safety (C11), the
      equivalence of the two scans (C12) and, as a lemma, the finality of an answer.
    \<^item> \<open>Chunked\<close>: \<^verbatim>\<open>phr_decode_chunked\<close>, which works in place, refines an automaton that reads one byte
      after the other (C13); independence from the splitting of the input (C14), round trip (C15). The
      loop has a termination measure.
    \<^item> \<open>Buffer\<close>: \<^verbatim>\<open>buffer/\<close>, with the contract of a byte stream as the locale \<open>byte_stream\<close>.
    \<^item> \<open>Request\<close>, \<open>Params\<close>, \<open>Ranges\<close>, \<open>Multipart\<close>: \<^verbatim>\<open>request/\<close> and \<^verbatim>\<open>server/utils.cpp\<close>. Safety and round
      trips of query strings and forms (C19, C20, locale \<open>pair_sink\<close>), of range headers (C21, \<open>parseRangesRequest_roundtrip\<close>, locale
      \<open>range_sort\<close> for what \<^verbatim>\<open>std::sort\<close> promises) and of multipart bodies (C22); lemmas for the inputs on
      which the code is undefined or gives one field the attributes of another.
    \<^item> \<open>ResponseStates\<close>, \<open>MimeTypes\<close>, \<open>Response\<close>: the tables of \<^verbatim>\<open>response/response-states.h\<close> and \<^verbatim>\<open>mime/\<close>,
      the response object and the pages. What is formatted is read back by the response parser (C18).
    \<^item> \<open>Chains\<close>, \<open>Gzip\<close>: the declared length is the length sent (C16), ranges are cut out exactly (C17), the
      chain returns (\<open>chain_total\<close>); the loops around zlib end with the whole stream (C23) and invert each
      other (C24), except on empty input, where decompression does not return.
    \<^item> \<open>Queue\<close>, \<open>Task\<close>: first in first out for every interleaving (C25, locale \<open>fifo\<close>); lookup of routes (C26).
    \<^item> \<open>Statistics\<close>, \<open>Static\<close>, \<open>Config\<close>: the counters, the file handler and its cache (C27, \<open>static_serves_file\<close>), the settings
      read by the constructor through the modelled JSON library (C28).
    \<^item> \<open>Json_Utf8\<close>, \<open>Json_Value\<close>, \<open>Json_Lexer\<close>, \<open>Json_Parser\<close>: \<^verbatim>\<open>json/json.hpp\<close>, the values with their accessors, the
      lexer and the parser with its stack and its SAX consumer, over a record \<open>float_ops\<close> of what is done with
      floating-point numbers. \<open>Json_Strings\<close>, \<open>Json_Numbers\<close> and \<open>Json_Tokens\<close> give the grammar of the tokens and show
      that the lexer accepts it, \<open>Json_Grammar\<close> and \<open>Json_Parser_Correct\<close> relate the parser to a push-down automaton
      and that to the grammar of documents: a text is parsed to a value exactly if it spells that value (C29), every
      other text ends in the parse error of the code, never in undefined behaviour (C30), and the value is well
      formed (C31).
    \<^item> \<open>Json_Dump\<close>: the serializer. \<open>Json_Dump_Integers\<close> and \<open>Json_Decoder\<close> treat its integers and its UTF-8 decoder,
      \<open>Json_Escape\<close> the escaping, which stays inside its 512-byte buffer and writes the string or reports the byte
      that is not UTF-8 (C38); \<open>Json_Roundtrip\<close> that parsing inverts dumping (C32).
    \<^item> \<open>Json_Grisu\<close>: the output of doubles by Grisu2, with every assertion and wrap-around of the code.
      \<open>Json_Grisu_Powers\<close> checks the table of cached powers against exact powers of ten, \<open>Json_Grisu_Arith\<close> shows that the
      boundaries are exact and that the scaled ones enclose only numbers that round to the double,
      \<open>Json_Grisu_Digits\<close> that digit generation stays between them within seventeen digits, \<open>Json_Grisu_Format\<close> what
      is written for the digits. \<open>Json_Double_Nearest\<close> places the doubles on the real line. Together
      (\<open>Json_Double\<close>): every finite double is printed as a number that is nearest to it (C33), and documents with
      doubles survive dumping and parsing when \<^verbatim>\<open>strtod\<close> rounds to nearest (C34).
    \<^item> \<open>Json_Binary\<close>, \<open>Json_Cbor\<close>, \<open>Json_Msgpack\<close>: the binary formats CBOR and MessagePack, reader and writer, with the byte
      order of the machine and the sizes its containers allow as arguments. \<open>Json_Binary_Correct\<close> has the
      contract of a format, the locale \<open>binary_format\<close>, from which \<open>Json_Cbor_Correct\<close> and \<open>Json_Msgpack_Correct\<close> obtain their
      round trips (C35, C36); \<open>Json_Binary_Total\<close>
      shows that the readers return for every input (C37).
    \<^item> \<open>Server\<close>: the state of \<^verbatim>\<open>HttpServer\<close> and every handler of \<^verbatim>\<open>run\<close> and \<^verbatim>\<open>tasksHandler\<close>. \<open>Server_Safety\<close> has the
      invariant, \<open>Server_Steps\<close> its preservation, \<open>Server_Props\<close> the inductive step relation \<open>server_step\<close>,
      in which the event loop and any number of workers interleave, its reachable states, and the
      theorems: invariant (C3), memory safety (C4), an iteration of \<^verbatim>\<open>run\<close> as a sequence of steps (C5),
      delivery of a finished task (C6), complete transmission (C7), the search for expired connections (C8,
      \<open>sweep_closes_expired\<close>) and, as a lemma, the two defects of its timeout page.
    \<^item> \<open>Plog\<close>, \<open>PlogFiles\<close>: \<^verbatim>\<open>plog/\<close> on Linux and the formatter of \<^verbatim>\<open>server/server.h\<close>. A CSV line is read back
      (C39); the rolling files refine a log of chunks of which a suffix is retained (C40); the consoles
      are interpretations of the locale \<open>log_sink\<close>.
    \<^item> This theory: the composition. A request that arrives in any pieces reaches the queue as it was sent
      (C1), and a worker answers a plain request with the response of the handler in a form that a client can
      parse (C2).

  \<^bold>\<open>Assumptions that are needed.\<close> The theorems on the event loop hold for settings \<open>conf_ok\<close>: buffers that the
  allocator can grant and an output buffer of at least 8 kB, which holds the pages the server itself sends. The kernel (\<open>event_ok\<close>) reports
  events for registered descriptors, input and output only when asked for; every call may fail. The clock (\<open>clock_ok\<close>)
  does not go back, and has moved on when a descriptor with a task under way is stamped again. The page for 408 fits the output buffer
  together with what is pending (\<open>page_fits\<close>). Under these conditions the invariant is kept; the code is
  defined when, in addition, \<^verbatim>\<open>recv\<close> does not report that it would have blocked, a descriptor that is read or searched can
  be registered for output, the listening socket reports no error outside the arrays, and a declared length and its
  header have a sum (\<open>event_safe\<close>, \<open>sweep_safe\<close>). Lemmas show what happens otherwise
  (\<open>timeout_defects\<close>, \<open>recv_would_block_undefined\<close>, \<open>content_length_overflow\<close>, \<open>same_clock_undefined\<close>;
  \<open>negative_content_length\<close> for an exception that ends the process). Every property with a hypothesis is applied at a concrete input by its witness.

  \<^bold>\<open>Bounds.\<close> No theorem is about a bounded input. The only loops that may not end are those of the gzip wrapper;
  they are partial functions with the value \<open>None\<close> for not returning, and C23 shows that compression returns; and
  the normalization loop of Grisu2, which is shown to return for every number but 0, which an assertion excludes.
  The readers of the binary formats, whose functions call each other, have fuel for the nesting and for the rounds of
  the loops that wait for a break byte; every level and every round reads a byte, so the length of the input plus 2
  is enough, which C37 states: \<open>Undefined\<close>, their value without fuel, is not reached.
  The loop over performed tasks has as fuel the number of tasks in the queue; each round takes one, so this is
  enough, and C4 states that it ends with an empty queue. A task that a worker finishes meanwhile is a step of
  the worker before or after it.

  \<^bold>\<open>Not modelled.\<close> Of the JSON library: the formats BSON and UBJSON, iterators, JSON pointer and patch, the parser with a
  callback, the adapters for streams and wide strings and the conversions of user types, none of which the program
  uses; the output of floating-point types other than double. The branches for Windows, Android and wide strings of \<^verbatim>\<open>plog\<close>, and its mutexes. The destructor of
  \<^verbatim>\<open>HttpServer\<close>, which joins threads that never end, and \<^verbatim>\<open>setPathToConfigurationFile\<close>, whose value the
  constructor overwrites. The data race of the statistics page, which reads the arrays of the event loop from a
  worker thread: here the page is computed from one state. The embedded image of the error pages is a parameter.
\<close>

subsection \<open>A request from the queue to the wire\<close>

lemma alist_update_set:
  "set (AList.update k v ps) \<subseteq> insert (k, v) (set ps)" "(k, v) \<in> set (AList.update k v ps)"
  "length (AList.update k v ps) \<le> Suc (length ps)"
  by (induction ps) auto

lemma response_ok_default:
  assumes "response_ok env r"
  shows "response_ok env (prepareDefaultResponse r)"
proof -
  let ?v = "to_string (length (resp_body r))"
  have "last ?v \<in> set ?v" "hd ?v \<in> set ?v" by (simp_all add: to_string_nonempty)
  then have v: "plain_value ?v"
    using to_string_plain [of _ "length (resp_body r)"] by (auto simp: plain_value_def wf_value_def)
  have "list_all (\<lambda>c. \<not> name_stop c) ''Content-Length''" by code_simp
  then have k: "\<forall>c \<in> set ''Content-Length''. \<not> name_stop c" unfolding list_all_iff .
  let ?ok = "\<lambda>(k, v). k \<noteq> [] \<and> (\<forall>c \<in> set k. \<not> name_stop c) \<and> plain_value v"
  have "Ball (set (m_headers r)) ?ok" using assms by (simp add: response_ok_def)
  moreover have "?ok (''Content-Length'', ?v)" using v k by simp
  ultimately have "Ball (set (AList.update ''Content-Length'' ?v (m_headers r))) ?ok"
    using alist_update_set(1) [of "''Content-Length''" ?v "m_headers r"] by blast
  with assms show ?thesis
    unfolding response_ok_def prepareDefaultResponse_def ResponseBase_addHeader_def by simp
qed

lemma chain_plain:
  assumes "task_request t = Some req" "req_method req \<noteq> ''HEAD''" "req_headers req ''range'' = None"
    and "req_headers req ''accept-encoding'' = None" "\<not> (task_type t = STATIC_RESOURCES_TASK \<and> flag)"
  shows "prepare_chain srt gz flag t r = Some (Inr (prepareDefaultResponse r))"
  using assms
  by (auto simp: prepare_chain_def execute_Head_def call_next_def execute_Range_def checkRequestRange_def
      header_mentions_def task_header_def getHeaderRef_def execute_Compress_def checkSupportGzipEncoding_def
      execute_Default_def)

text \<open>
  C2: a plain request is answered with the handler's response. Take a local task, or a static one while compression of
  static resources is off, whose request is no \<^verbatim>\<open>HEAD\<close> and names neither ranges nor codings, and whose handler returns without
  an exception. Let the response be one that a header can carry (\<open>response_ok\<close>: a code of three digits; phrase,
  content type, address of the server and header fields without control bytes, no blanks in or around the latter where a reader would drop them), let its header with the declared length fit the 4095 bytes of the formatter, let the hash map of the header
  fields be walked in any order, and let the reader have slots for seven fields more than the handler set. Then the worker finishes: it
  runs the handler once, and the text it hands back to the event loop is accepted by the response parser with the code
  and phrase of the response, carries exactly its body after the header, and declares the length of that body.
\<close>

theorem plain_request_answered:
  assumes "task_type t = LOCAL_TASK \<or> task_type t = STATIC_RESOURCES_TASK \<and> \<not> flag"
    and "task_handler t = Some h" and "task_request t = Some req" and "h req w = Inr (r, w1)"
    and "req_method req \<noteq> ''HEAD''" and "req_headers req ''range'' = None"
    and "req_headers req ''accept-encoding'' = None" and "response_ok env r"
    and "mset (map_order env (m_headers (prepareDefaultResponse r))) = mset (m_headers (prepareDefaultResponse r))"
    and "length (full_header env (prepareDefaultResponse r)) \<le> 4095" and "length (m_headers r) + 7 \<le> m"
  shows "\<exists>t1 p k. work env srt gz flag t w = Some (Inr (t1, w1)) \<and> task_fd t1 = task_fd t \<and>
     phr_parse_response sse (responseData t1) m 0 = Parsed (p, k) \<and> status p = resp_code r \<and>
     msg p = codeMsg r \<and> drop k (responseData t1) = resp_body r \<and>
     named (''Content-Length'', to_string (length (resp_body r))) \<in> set (resp_headers p)"
proof -
  let ?r = "prepareDefaultResponse r" and ?t = "t\<lparr>task_code := resp_code r\<rparr>"
  have chain: "prepare_chain srt gz flag ?t r = Some (Inr ?r)"
    using assms(1,3,5-7) by (intro chain_plain) auto
  have len: "length (m_headers ?r) + 6 \<le> m"
    using alist_update_set(3) [of "''Content-Length''" "to_string (length (resp_body r))" "m_headers r"] assms(11)
    by (simp add: prepareDefaultResponse_def)
  from prepareResponse_parses [OF response_ok_default [OF assms(8)] assms(9,10) len, of sse]
  obtain str r' where str: "prepareResponse env ?r = Inr (str, r')"
    "phr_parse_response sse str m 0 = Parsed (response_message env ?r, length (resp_header r'))"
    "drop (length (resp_header r')) str = resp_body ?r" by blast
  have "work env srt gz flag t w = Some (Inr (?t\<lparr>responseData := str\<rparr>, w1))"
    using assms(1-4) chain str(1) by (auto simp: work_def toString_def Let_def)
  moreover have "(''Content-Length'', to_string (length (resp_body r))) \<in> set (map_order env (m_headers ?r))"
    using arg_cong [OF assms(9), of set_mset] alist_update_set(2) by (simp add: prepareDefaultResponse_def)
  ultimately show ?thesis
    using str(2,3) by (auto simp: response_message_def prepareDefaultResponse_def)
qed

definition echo_handler :: "unit handler" where
  "echo_handler req w = Inr (ResponseJson ''{}'' False, w)"

theorem plain_request_answered_witness:
  "\<exists>t1 p k. work sample_env (sort_key fst) no_gzip True
       ((task_for (get_request ''/a'' ''/a''))\<lparr>task_handler := Some echo_handler\<rparr>) () = Some (Inr (t1, ())) \<and>
     phr_parse_response True (responseData t1) 100 0 = Parsed (p, k) \<and> status p = 200 \<and>
     drop k (responseData t1) = ''{}''"
proof -
  let ?t = "(task_for (get_request ''/a'' ''/a''))\<lparr>task_handler := Some echo_handler\<rparr>"
  let ?r = "ResponseJson ''{}'' False"
  have "response_ok sample_env ?r" by code_simp
  moreover have "length (full_header sample_env (prepareDefaultResponse ?r)) \<le> 4095"
    by (simp add: full_header_def sample_env_def prepareDefaultResponse_def ResponseJson_def response_of_def
        ResponseBase_new_def mime_defs state_defs CRLF_def extra_headers_def c_str_def int_to_string_def
        strftime_def two_digits_def to_string.simps)
  moreover have "mset (map_order sample_env (m_headers (prepareDefaultResponse ?r))) =
      mset (m_headers (prepareDefaultResponse ?r))" by (simp add: sample_env_def)
  ultimately have "\<exists>t1 p k. work sample_env (sort_key fst) no_gzip True ?t () = Some (Inr (t1, ())) \<and>
      task_fd t1 = task_fd ?t \<and> phr_parse_response True (responseData t1) 100 0 = Parsed (p, k) \<and>
      status p = resp_code ?r \<and> msg p = codeMsg ?r \<and> drop k (responseData t1) = resp_body ?r \<and>
      named (''Content-Length'', to_string (length (resp_body ?r))) \<in> set (resp_headers p)"
    by (intro plain_request_answered [where h = echo_handler and req = "get_request ''/a'' ''/a''"])
      (simp_all add: echo_handler_def get_request_def requestFactory_def ResponseJson_def response_of_def
        ResponseBase_new_def)
  then show ?thesis
    by (auto simp: ResponseJson_def response_of_def ResponseBase_new_def state_defs)
qed

subsection \<open>A request from the wire to the queue\<close>

definition stored_headers :: "phr_header list \<Rightarrow> string_map" where
  "stored_headers hs =
     fold (\<lambda>h m. m(map tolower (case name h of None \<Rightarrow> [] | Some k \<Rightarrow> k) \<mapsto> hvalue h)) hs Map.empty"

lemma fold_store_header_eq:
  "fold store_header hs r = r\<lparr>req_headers :=
     fold (\<lambda>h m. m(map tolower (case name h of None \<Rightarrow> [] | Some k \<Rightarrow> k) \<mapsto> hvalue h)) hs (req_headers r)\<rparr>"
  by (induction hs arbitrary: r) (simp_all add: store_header_def addHeader_def)

lemma accept_header_plain:
  assumes "request_idle r" "length (path p) < 2 ^ 64" "stored_headers (headers p) ''content-length'' = None"
  obtains r' where "accept_header alloc p r = Inr r'" "req_fd r' = req_fd r" "req_method r' = rmethod p"
    "fullUri r' = path p" "req_headers r' = stored_headers (headers p)" "\<not> bodyExists r'"
proof -
  let ?r = "r\<lparr>headerAccept := True, fullUri := path p, req_method := rmethod p,
    req_headers := stored_headers (headers p)\<rparr>"
  have h: "\<not> headerAccept r" "\<not> bodyExists r" "req_headers r = Map.empty"
    using assms(1) by (simp_all add: request_idle_def)
  have eq: "fold store_header (headers p) (r\<lparr>headerAccept := True, fullUri := path p, req_method := rmethod p\<rparr>) = ?r"
    by (simp add: fold_store_header_eq stored_headers_def h(3))
  obtain u m where "parseParamsRequest alloc ?r (of_nat (length (path p))) = Inr (?r\<lparr>uri := u, req_params := m\<rparr>)"
    using parseParamsRequest_frame [of ?r alloc] assms(2) by auto
  moreover have "content_length (?r\<lparr>uri := u, req_params := m\<rparr>) = Inl Out_of_range"
    using assms(3) by (simp add: content_length_def getHeaderRef_def)
  ultimately have "accept_header alloc p r = Inr (?r\<lparr>uri := u, req_params := m\<rparr>)"
    using h(1) by (simp add: accept_header_def eq Let_def)
  with h(2) show thesis by (intro that [of "?r\<lparr>uri := u, req_params := m\<rparr>"]) simp_all
qed

lemma find_route_same:
  "req_method q = req_method q' \<Longrightarrow> fullUri q = fullUri q' \<Longrightarrow> find_route regexec q rs = find_route regexec q' rs"
  by (induction rs) simp_all

text \<open>The packet that completes a request leads to the code that handles a parsed request.\<close>

lemma handle_input_complete:
  assumes "srv_inv s" "reading s fd b r" "received e = Recv_data data" "data \<noteq> []" "length data \<le> 4096"
    and "inputContent b @ data = render_request p" "wf_request 100 p"
    and "length (render_request p) < unat (maxInputBufferLength (conf s))" "length (render_request p) < 2 ^ 31"
  obtains b1 where "reading (set_buffer fd (Some b1) s) fd b1 r" "inv_but fd (set_buffer fd (Some b1) s)"
    "handle_input env regexec e output fd s =
       got_request env regexec e fd p (int (length (render_request p))) (set_buffer fd (Some b1) s)"
proof -
  have but: "inv_but fd s" using assms(1,2) by (simp add: srv_inv_but reading_def)
  have bok: "buffer_wf b" "inputBufferLength b = unat (maxInputBufferLength (conf s))" "conf_ok (conf s)"
    using assms(2) but by (simp_all add: reading_def buf_ok_def inv_but_def arrays_ok_def)
  have ren: "posInputBuffer b + length data = length (render_request p)"
    using arg_cong [OF assms(6), of length] bok(1) by (simp add: buffer_defs)
  obtain b1 where b1: "addDataToInputBuffer data b = Inr b1" "buffer_wf b1" "inputContent b1 = render_request p"
      "posInputBuffer b1 = length (render_request p)"
    using bok assms(6,8) ren by (auto elim!: addDataToInputBuffer_ok [of b data])
  have eq: "inputBufferLength b1 = inputBufferLength b" "outputBufferLength b1 = outputBufferLength b"
    "numberBytesToSend b1 = numberBytesToSend b" "posOutputBuffer b1 = posOutputBuffer b"
    using b1(1) by (auto simp: addDataToInputBuffer_def bind_res_Inr_iff)
  have rd1: "reading (set_buffer fd (Some b1) s) fd b1 r"
    using assms(2) b1(2) eq by (simp add: reading_def buf_ok_def buf_idle_def)
  have len: "posInputBuffer b < 2 ^ 63" "length data < 2 ^ 63"
    using bok assms(5) by (auto simp: buffer_wf_def conf_ok_def)
  have room: "length (render_request p) < length (inputBuffer b1)"
    using b1(2) eq bok assms(8) by (simp add: buffer_wf_def)
  then have msg_in: "mem_read (inputBuffer b1) 0 (posInputBuffer b1 + 1) =
      Inr (render_request p @ [inputBuffer b1 ! length (render_request p)])"
    using b1(3,4) by (simp add: mem_read_def inputContent_def take_Suc_conv_app_nth)
  have parsed: "phr_parse_request False (render_request p @ x) 100 0 = Parsed (p, length (render_request p))" for x
    by (simp add: phr_parse_request_def entry_def parse_request_render [OF assms(7)])
  have pos: "int32 (int (length (render_request p))) = int (length (render_request p))"
    "0 < length (render_request p)"
    using assms(4,9) ren by (auto simp: int32_id)
  have "deref (buffers s) fd = Inr b" using assms(2) by (simp add: deref_Inr reading_def)
  then have "handle_input env regexec e output fd s =
       got_request env regexec e fd p (int (length (render_request p))) (set_buffer fd (Some b1) s)"
    using assms(3,4,8) b1(1) msg_in parsed pos size_sum_less [OF len, of "maxInputBufferLength (conf s)"] ren
    by (simp add: handle_input_def Let_def)
  with rd1 but show thesis by (intro that) simp_all
qed

text \<open>
  C1: a request that arrives reaches the queue as it was sent. Let a connection be read whose request object is still
  empty, and let the bytes that its input buffer holds from earlier packets (those the parser did not reject for the stray
  byte behind them, as in \<open>split_request_rejected\<close>) and the packet that arrives (of at most the
  4096 bytes that \<^verbatim>\<open>recv\<close> is given) together be the canonical rendering of a well-formed request with at most 100 headers,
  none of them a content length, however it was split; let it be shorter than the input buffer and than 2 GB (a
  longer one is answered with 413), let the first matching route be one for local tasks while their queue is not above its limit,
  and let the allocation of the copy of the request and of the task and the call that silences the descriptor succeed. Then
  the event loop appends exactly one task: for this descriptor and time point, with the handler of the route, the method
  and target of the request and its headers under lower-case names; the descriptor is silenced until the answer is there.
\<close>

theorem request_dispatched:
  assumes "srv_inv s" and "reading s fd b r" and "request_idle r"
    and "received e = Recv_data data" and "data \<noteq> []" and "length data \<le> 4096"
    and "inputContent b @ data = render_request p" and "wf_request 100 p"
    and "length (render_request p) < unat (maxInputBufferLength (conf s))" and "length (render_request p) < 2 ^ 31"
    and "stored_headers (headers p) ''content-length'' = None"
    and "find_route regexec (r\<lparr>req_method := rmethod p, fullUri := path p\<rparr>) (routes s) = Some rt"
    and "route_type rt = LOCAL_TASK" and "copy_alloc e" and "task_alloc e" and "ctl_ok env fd For_errors"
    and "int (queue_size (tasksQueue s)) \<le> limitLocalTasks (conf s)" and "limitLocalTasks (conf s) < 2 ^ 31"
  shows "\<exists>s' t req. handle_input env regexec e output fd s = Inr s' \<and>
     queue (tasksQueue s') = queue (tasksQueue s) @ [t] \<and> task_fd t = fd \<and>
     timePoint t = aliveSockets s ! nat fd \<and> task_handler t = Some (route_handler rt) \<and>
     task_request t = Some req \<and> req_method req = rmethod p \<and> fullUri req = path p \<and>
     req_headers req = stored_headers (headers p) \<and> epoll s' fd = Some For_errors"
proof -
  obtain b1 where b1: "reading (set_buffer fd (Some b1) s) fd b1 r" "inv_but fd (set_buffer fd (Some b1) s)"
    and run: "handle_input env regexec e output fd s =
       got_request env regexec e fd p (int (length (render_request p))) (set_buffer fd (Some b1) s)" (is "_ = got_request _ _ _ _ _ _ ?s1")
    by (rule handle_input_complete [OF assms(1,2,4-10)])
  note rng = inv_but_ranges [OF b1(2)]
  have "length (path p) < 2 ^ 64" using assms(10) by (simp add: render_request_def)
  then obtain r' where r': "accept_header (params_alloc e) p r = Inr r'" "req_method r' = rmethod p"
    "fullUri r' = path p" "req_headers r' = stored_headers (headers p)" "\<not> bodyExists r'"
    using accept_header_plain [OF assms(3) _ assms(11)] by metis
  have d: "deref (requests ?s1) fd = Inr r" "deref (buffers ?s1) fd = Inr b1"
    using b1(1) rng by (simp_all add: deref_Inr reading_def)
  let ?s2 = "set_interest fd For_errors (set_request fd (Some r') ?s1)"
  have got: "handle_input env regexec e output fd s = dispatch_request env regexec e fd r' ?s2"
    unfolding run got_request_def d using r' assms(16) by (simp add: Let_def)
  have f: "routes ?s2 = routes s" "tasksQueue ?s2 = tasksQueue s" "conf ?s2 = conf s" "aliveSockets ?s2 = aliveSockets s"
    by (simp_all add: set_defs)
  have "find_route regexec r' (routes s) = find_route regexec (r\<lparr>req_method := rmethod p, fullUri := path p\<rparr>) (routes s)"
    by (rule find_route_same) (simp_all add: r'(2,3))
  with assms(12) have "find_route regexec r' (routes s) = Some rt" by (simp only:)
  then obtain t where t: "dispatcher regexec (copy_alloc e) (taskFactory (task_alloc e) (task_garbage e)) (routes s) r' = Some t"
    "task_type t = LOCAL_TASK" "task_request t = Some r'" "task_handler t = Some (route_handler rt)"
    using assms(13-15) by (simp add: dispatcher_def requestCopyFactory_def taskFactory_def)
  have "0 \<le> limitLocalTasks (conf s)" using assms(17) by linarith
  then have "unat (of_int (limitLocalTasks (conf s)) :: size_t) = nat (limitLocalTasks (conf s))"
    using size_of_pos_int [of "limitLocalTasks (conf s)"] assms(18) by (simp add: unat_eq_nat_uint)
  moreover have "unat (of_nat (queue_size (tasksQueue s)) :: size_t) = queue_size (tasksQueue s)"
    using assms(17,18) by (simp add: unat_of_nat take_bit_nat_eq_self)
  ultimately have below: "\<not> (of_nat (queue_size (tasksQueue s)) :: size_t) > of_int (limitLocalTasks (conf s))"
    using assms(17) by (simp add: word_less_nat_alt)
  let ?t = "t\<lparr>task_fd := fd, timePoint := aliveSockets s ! nat fd\<rparr>"
  have "handle_input env regexec e output fd s = Inr (map_stat addTotalNumberClientRequests (addTask ?t ?s2))"
    using t below by (simp add: got dispatch_request_def f Let_def)
  moreover have "queue (tasksQueue (map_stat addTotalNumberClientRequests (addTask ?t ?s2))) = queue (tasksQueue s) @ [?t]"
    using t(2) by (simp add: map_stat_def addTask_def queue_push_def f)
  ultimately show ?thesis using t r' by (auto intro!: exI [of _ ?t] exI [of _ r'])
qed

definition plain_request :: phr_request where
  "plain_request = \<lparr>rmethod = ''GET'', path = ''/plain'', minor_version = 1,
     headers = [\<lparr>name = Some ''Host'', hvalue = ''a''\<rparr>]\<rparr>"

definition routed_server :: "(unit, bytes) HttpServer" where
  "routed_server = sample_connected\<lparr>routes := [sample_Route\<lparr>route_method := ''GET''\<rparr>]\<rparr>"

theorem request_dispatched_witness:
  "\<exists>s' t req. handle_input (env_after 9) prefix_regexec
       (ev_read (sample_event_env 9 (render_request plain_request))) Inr 5 routed_server = Inr s' \<and>
     queue (tasksQueue s') = [t] \<and> task_fd t = 5 \<and> task_request t = Some req \<and>
     req_method req = ''GET'' \<and> fullUri req = ''/plain'' \<and> req_headers req ''host'' = Some ''a''"
proof -
  let ?e = "ev_read (sample_event_env 9 (render_request plain_request))"
  have inv0: "srv_inv sample_connected" by (rule reachable_srv_inv [OF sample_connected_reachable])
  then have inv: "srv_inv routed_server"
    by (rule srv_inv_same_tasks) (simp_all add: routed_server_def tasks_def)
  have ep: "epoll routed_server 5 = Some For_input" "5 \<noteq> listen_fd routed_server"
    by (simp_all add: routed_server_def sample_connected_fields)
  obtain b r where rd: "reading routed_server 5 b r" by (rule reading_For_input [OF inv ep])
  then have slot: "inputContent b = []" "request_idle r" "req_method r = []"
    by (auto simp: reading_def routed_server_def sample_connected_def sample_server_fields bufferFactory_def
        requestFactory_def request_idle_def inputContent_def)
  have len: "length (render_request plain_request) = 32" by code_simp
  have wf: "wf_request 100 plain_request" by code_simp
  have hdr: "stored_headers (headers plain_request) = [''host'' \<mapsto> ''a'']"
  proof -
    have "map tolower ''Host'' = ''host''" by code_simp
    then show ?thesis by (simp add: stored_headers_def plain_request_def)
  qed
  have route: "find_route prefix_regexec (r\<lparr>req_method := rmethod plain_request, fullUri := path plain_request\<rparr>)
      (routes routed_server) = Some (sample_Route\<lparr>route_method := ''GET''\<rparr>)"
    by (simp add: routed_server_def plain_request_def sample_Route_def prefix_regexec_def c_str_def)
  have q: "queue (tasksQueue routed_server) = []" "conf routed_server = sample_conf"
    by (simp_all add: routed_server_def sample_connected_fields queue_new_def)
  have ne: "render_request plain_request \<noteq> []" using len by auto
  have "\<exists>s' t req. handle_input (env_after 9) prefix_regexec ?e Inr 5 routed_server = Inr s' \<and>
     queue (tasksQueue s') = queue (tasksQueue routed_server) @ [t] \<and> task_fd t = 5 \<and>
     timePoint t = aliveSockets routed_server ! nat 5 \<and>
     task_handler t = Some (route_handler (sample_Route\<lparr>route_method := ''GET''\<rparr>)) \<and>
     task_request t = Some req \<and> req_method req = rmethod plain_request \<and> fullUri req = path plain_request \<and>
     req_headers req = stored_headers (headers plain_request) \<and> epoll s' 5 = Some For_errors"
    by (rule request_dispatched [OF inv rd slot(2) _ ne _ _ wf _ _ _ route])
      (simp_all add: sample_event_env_def slot len q queue_size_def hdr sample_Route_def env_after_def
        sample_conf_def default_config_def)
  then show ?thesis using q(1) hdr by (auto simp: plain_request_def)
qed

end
